(* ===== verification/Prelude.thy ===== *)
theory Prelude
  imports Main "HOL-Library.Word" "HOL-Library.AList" "HOL-Library.Multiset"
begin

text \<open>
  What the components share: the names of the machine types, the error results of the
  engine (a fatal error, an access outside a block, a chain that does not end), the
  sequencing of computations that may fail, the search for the last index below a bound
  with a property (the meaning of a collision chain), and the facts on words and lists the
  component proofs use.
\<close>

unbundle bit_operations_syntax

subsection \<open>Machine types\<close>

type_synonym zend_ulong = "64 word"   \<comment> \<open>and \<open>zend_long\<close>, read with \<open>sint\<close>\<close>
type_synonym u32 = "32 word"
type_synonym bytes = "8 word list"
type_synonym addr = nat

text \<open>\<open>ZEND_LONG_MAX\<close> of a 64-bit build, as the unsigned value the code compares with.\<close>

definition ZEND_LONG_MAX :: zend_ulong where
  "ZEND_LONG_MAX = 0x7fffffffffffffff"

subsection \<open>Failing computations\<close>

text \<open>
  Beside the values the C functions return, a call may end in a fatal error
  (\<open>zend_error_noreturn\<close>). Undefined behaviour of the C code (an access outside the
  allocated block, a collision chain with a cycle) is an error value too, so that its
  absence is something the theorems state.
\<close>

datatype engine_error =
    E_ERROR_MEMORY       \<comment> \<open>\<open>Possible integer overflow in memory allocation\<close>\<close>
  | E_ERROR_NESTING      \<comment> \<open>\<open>Nesting level too deep\<close>\<close>
  | UB_OUT_OF_BOUNDS     \<comment> \<open>a read outside the allocated block\<close>
  | UB_NULL_POINTER      \<comment> \<open>an access through a null pointer\<close>
  | UB_UNION_MEMBER      \<comment> \<open>a pointer read from a value that holds none\<close>
  | UB_ASSUME            \<comment> \<open>a \<open>ZEND_ASSUME\<close> that does not hold\<close>
  | UB_USE_AFTER_FREE    \<comment> \<open>an access to memory that is not allocated any more\<close>
  | UB_STACK_OVERFLOW    \<comment> \<open>calls nested deeper than the stack allows\<close>
  | UB_CHAIN_LOOP        \<comment> \<open>a collision chain longer than its table\<close>

type_synonym 'a res = "engine_error + 'a"

definition res_bind :: "'a res \<Rightarrow> ('a \<Rightarrow> 'b res) \<Rightarrow> 'b res" where
  "res_bind m f = (case m of Inl e \<Rightarrow> Inl e | Inr x \<Rightarrow> f x)"

lemma res_bind_simps [simp]:
  "res_bind (Inl e) f = Inl e"
  "res_bind (Inr x) f = f x"
  by (simp_all add: res_bind_def)

lemma res_bind_Inr_iff: "res_bind m f = Inr y \<longleftrightarrow> (\<exists>x. m = Inr x \<and> f x = Inr y)"
  by (cases m) auto

lemma res_bind_Inl_iff:
  "res_bind m f = Inl e \<longleftrightarrow> m = Inl e \<or> (\<exists>x. m = Inr x \<and> f x = Inl e)"
  by (cases m) auto

text \<open>A loop whose body may fail.\<close>

fun for_each :: "('i \<Rightarrow> 's \<Rightarrow> 's res) \<Rightarrow> 'i list \<Rightarrow> 's \<Rightarrow> 's res" where
  "for_each body [] s = Inr s"
| "for_each body (i # is) s = res_bind (body i s) (for_each body is)"

lemma for_each_spec:
  assumes step: "\<And>i s. i \<in> set is \<Longrightarrow> I s \<Longrightarrow>
      case body i s of Inl e \<Rightarrow> E s e | Inr s' \<Rightarrow> I s' \<and> view s' = g i (view s)"
    and "I s"
  shows "case for_each body is s of
      Inl e \<Rightarrow> \<exists>js ks s0. is = js @ ks \<and> I s0 \<and> view s0 = fold g js (view s) \<and> E s0 e
    | Inr s' \<Rightarrow> I s' \<and> view s' = fold g is (view s)"
  using assms
proof (induction "is" arbitrary: s)
  case Nil
  then show ?case by simp
next
  case (Cons i "is")
  show ?case
  proof (cases "body i s")
    case (Inl e)
    then have "E s e" using Cons.prems(1) [of i s] Cons.prems(2) by simp
    then have "i # is = [] @ (i # is) \<and> I s \<and> view s = fold g [] (view s) \<and> E s e"
      using Cons.prems(2) by simp
    then have "\<exists>js ks s0. i # is = js @ ks \<and> I s0 \<and> view s0 = fold g js (view s) \<and> E s0 e" by blast
    then show ?thesis using Inl by simp
  next
    case (Inr s1)
    then have s1: "I s1" "view s1 = g i (view s)" using Cons.prems(1) [of i s] Cons.prems(2) by auto
    have ih: "case for_each body is s1 of
        Inl e \<Rightarrow> \<exists>js ks s0. is = js @ ks \<and> I s0 \<and> view s0 = fold g js (view s1) \<and> E s0 e
      | Inr s' \<Rightarrow> I s' \<and> view s' = fold g is (view s1)"
      by (rule Cons.IH [OF Cons.prems(1) s1(1)]) auto
    show ?thesis
    proof (cases "for_each body is s1")
      case (Inl e)
      then obtain js ks s0 where "is = js @ ks" "I s0" "view s0 = fold g js (view s1)" "E s0 e" using ih by auto
      then have "i # is = (i # js) @ ks \<and> I s0 \<and> view s0 = fold g (i # js) (view s) \<and> E s0 e" using s1 by simp
      then have "\<exists>js ks s0. i # is = js @ ks \<and> I s0 \<and> view s0 = fold g js (view s) \<and> E s0 e" by blast
      then show ?thesis using Inr Inl by simp
    next
      case inr: (Inr s')
      then show ?thesis using Inr ih s1 by simp
    qed
  qed
qed

subsection \<open>The last index with a property\<close>

text \<open>
  \<open>HT_INVALID_IDX\<close> is the 32-bit all-ones index that ends a chain and marks an unset
  position. \<open>last_in P n\<close> is the greatest \<open>j < n\<close> with \<open>P j\<close>, or the invalid index.
\<close>

definition HT_INVALID_IDX :: nat where
  "HT_INVALID_IDX = 4294967295"

fun last_in :: "(nat \<Rightarrow> bool) \<Rightarrow> nat \<Rightarrow> nat" where
  "last_in P 0 = HT_INVALID_IDX"
| "last_in P (Suc n) = (if P n then n else last_in P n)"

lemma last_in_cong [fundef_cong]:
  "n = m \<Longrightarrow> (\<And>j. j < m \<Longrightarrow> P j = Q j) \<Longrightarrow> last_in P n = last_in Q m"
  by (induction n arbitrary: m) auto

lemma last_in_disj:
  "(last_in P n = HT_INVALID_IDX \<and> (\<forall>j<n. \<not> P j)) \<or>
   (last_in P n < n \<and> P (last_in P n) \<and> (\<forall>j. last_in P n < j \<and> j < n \<longrightarrow> \<not> P j))"
  by (induction n) (auto simp: less_Suc_eq)

lemma last_in_less:
  "last_in P n \<noteq> HT_INVALID_IDX \<Longrightarrow> last_in P n < n \<and> P (last_in P n)"
  using last_in_disj [of P n] by auto

lemma last_in_None: "(\<And>j. j < n \<Longrightarrow> \<not> P j) \<Longrightarrow> last_in P n = HT_INVALID_IDX"
  by (induction n) auto

lemma last_in_eqI:
  "j < n \<Longrightarrow> P j \<Longrightarrow> (\<And>i. j < i \<Longrightarrow> i < n \<Longrightarrow> \<not> P i) \<Longrightarrow> last_in P n = j"
  by (induction n) (auto simp: less_Suc_eq)

lemma last_in_eq_invalid:
  "n \<le> HT_INVALID_IDX \<Longrightarrow> last_in P n = HT_INVALID_IDX \<longleftrightarrow> (\<forall>j<n. \<not> P j)"
  using last_in_disj [of P n] by auto

lemma last_in_split:
  "m \<le> n \<Longrightarrow> last_in P n =
     (if \<exists>j. m \<le> j \<and> j < n \<and> P j then last_in (\<lambda>j. m \<le> j \<and> P j) n else last_in P m)"
proof (induction n)
  case 0
  then show ?case by simp
next
  case (Suc n)
  show ?case
  proof (cases "m = Suc n")
    case True
    then show ?thesis by auto
  next
    case False
    with Suc.prems have "m \<le> n" by simp
    with Suc.IH show ?thesis by (auto simp: less_Suc_eq)
  qed
qed

text \<open>Dropping one index from the property moves the answer to the one below it.\<close>

lemma last_in_remove:
  assumes "P i"
  shows "last_in (\<lambda>j. j \<noteq> i \<and> P j) n = (if i < n \<and> last_in P n = i then last_in P i else last_in P n)"
proof (induction n)
  case 0
  then show ?case by simp
next
  case (Suc n)
  show ?case
  proof (cases "n = i")
    case True
    then show ?thesis using assms by (auto intro: last_in_cong)
  next
    case False
    then show ?thesis using Suc.IH assms by (auto dest: last_in_less simp: less_Suc_eq)
  qed
qed

subsection \<open>Filtered lists by index\<close>

lemma distinct_map_filter_nth:
  assumes "distinct (map f (filter P xs))"
    and "i < length xs" "j < length xs" "P (xs ! i)" "P (xs ! j)" "f (xs ! i) = f (xs ! j)"
  shows "i = j"
  using assms
proof (induction xs arbitrary: i j)
  case Nil
  then show ?case by simp
next
  case (Cons x xs)
  have mem: "f (xs ! k) \<in> set (map f (filter P xs))" if "k < length xs" "P (xs ! k)" for k
    using that by auto
  have new: "f x \<notin> set (map f (filter P xs))" if "P x"
    using Cons.prems(1) that by simp
  show ?case
  proof (cases i)
    case 0
    show ?thesis
    proof (cases j)
      case (Suc j')
      with 0 Cons.prems mem [of j'] new show ?thesis by simp
    qed (simp add: 0)
  next
    case (Suc i')
    note i = Suc
    show ?thesis
    proof (cases j)
      case 0
      with i Cons.prems mem [of i'] new show ?thesis by simp
    next
      case (Suc j')
      have "distinct (map f (filter P xs))" using Cons.prems(1) by (simp split: if_splits)
      with i Suc Cons.prems Cons.IH [of i' j'] show ?thesis by simp
    qed
  qed
qed

lemma map_eq_ball:
  assumes "map f xs = map f ys" "\<And>a b. f a = f b \<Longrightarrow> P a = P b"
  shows "(\<forall>x \<in> set xs. P x) \<longleftrightarrow> (\<forall>y \<in> set ys. P y)"
  using assms(1)
proof (induction xs arbitrary: ys)
  case Nil
  then show ?case by simp
next
  case (Cons x xs)
  then obtain y ys' where "ys = y # ys'" "f x = f y" "map f xs = map f ys'" by (cases ys) auto
  with Cons.IH [of ys'] assms(2) [of x y] show ?case by simp
qed

lemma length_filter_eq_iff: "length (filter P xs) = length xs \<longleftrightarrow> (\<forall>x \<in> set xs. P x)"
proof (induction xs)
  case Nil
  then show ?case by simp
next
  case (Cons x xs)
  show ?case using Cons length_filter_le [of P xs] by (auto simp del: length_filter_le)
qed

lemma filter_take_Suc:
  "n < length xs \<Longrightarrow> filter P (take (Suc n) xs) = filter P (take n xs) @ (if P (xs ! n) then [xs ! n] else [])"
  by (simp add: take_Suc_conv_app_nth)

lemma drop_take_Cons:
  "i < n \<Longrightarrow> n \<le> length xs \<Longrightarrow> drop i (take n xs) = xs ! i # drop (Suc i) (take n xs)"
  by (simp add: Cons_nth_drop_Suc [symmetric])

lemma split_at_nth: "i < length xs \<Longrightarrow> xs = take i xs @ xs ! i # drop (Suc i) xs"
  by (rule id_take_nth_drop)

lemma filter_nth_rank:
  assumes "i < length xs" "P (xs ! i)"
  shows "filter P xs = filter P (take i xs) @ xs ! i # filter P (drop (Suc i) xs)"
    "length (filter P (take i xs)) < length (filter P xs)"
    "filter P xs ! length (filter P (take i xs)) = xs ! i"
proof -
  have "filter P xs = filter P (take i xs @ xs ! i # drop (Suc i) xs)"
    using split_at_nth [OF assms(1)] by simp
  then show f: "filter P xs = filter P (take i xs) @ xs ! i # filter P (drop (Suc i) xs)"
    using assms(2) by simp
  show "length (filter P (take i xs)) < length (filter P xs)"
    unfolding f by simp
  show "filter P xs ! length (filter P (take i xs)) = xs ! i"
    unfolding f by simp
qed

lemma filter_list_update:
  assumes "i < length xs" "P (xs ! i)" "P y"
  shows "filter P (xs[i := y]) = (filter P xs)[length (filter P (take i xs)) := y]"
proof -
  have "filter P (xs[i := y]) = filter P (take i xs) @ y # filter P (drop (Suc i) xs)"
    using filter_nth_rank(1) [of i "xs[i := y]" P] assms by simp
  then show ?thesis using filter_nth_rank(1) [of i xs P] assms by simp
qed

lemma filter_list_remove:
  assumes "i < length xs" "\<not> P y"
  shows "filter P (xs[i := y]) = filter P (take i xs) @ filter P (drop (Suc i) xs)"
  using split_at_nth [of i "xs[i := y]"] assms by simp

subsection \<open>Association lists\<close>

lemma alist_update_nth:
  assumes "distinct (map fst al)" "j < length al" "fst (al ! j) = k"
  shows "AList.update k v al = al[j := (k, v)]"
  using assms
proof (induction al arbitrary: j)
  case Nil
  then show ?case by simp
next
  case (Cons p al)
  show ?case
  proof (cases j)
    case 0
    with Cons.prems show ?thesis by (cases p) simp
  next
    case (Suc j')
    with Cons.prems have "k \<in> set (map fst al)"
      using nth_mem [of j' "map fst al"] by simp
    moreover have "fst p \<notin> set (map fst al)" using Cons.prems(1) by simp
    ultimately have "fst p \<noteq> k" by metis
    with Suc Cons.prems Cons.IH [of j'] show ?thesis by (cases p) simp
  qed
qed

lemma alist_update_new: "k \<notin> fst ` set al \<Longrightarrow> AList.update k v al = al @ [(k, v)]"
  by (induction al) auto

lemma alist_delete_absent: "k \<notin> fst ` set al \<Longrightarrow> AList.delete k al = al"
  by (induction al) auto

lemma alist_delete_middle:
  "distinct (map fst (xs @ (k, v) # ys)) \<Longrightarrow> AList.delete k (xs @ (k, v) # ys) = xs @ ys"
  by (induction xs) (auto simp: alist_delete_absent)

subsection \<open>Words: negative powers of two as masks\<close>

lemma or_not_mask_int: "(a::int) OR NOT (mask k) = take_bit k a - 2 ^ k"
proof -
  have "take_bit k a + NOT (mask k) = take_bit k a OR NOT (mask k)"
    by (rule disjunctive_add_eq_or) (rule bit_eqI, auto simp: bit_simps)
  also have "\<dots> = a OR NOT (mask k)"
    by (rule bit_eqI) (auto simp: bit_simps)
  finally show ?thesis by (simp add: mask_eq_exp_minus_1 not_int_def)
qed

lemma minus_pow2_eq_not_mask: "- (2 ^ k :: 'a::len word) = NOT (mask k)"
  by (simp add: minus_eq_not_minus_1 mask_eq_decr_exp)

lemma sint_not_mask32: "k < 32 \<Longrightarrow> sint (NOT (mask k) :: u32) = NOT (mask k)"
  by (rule bit_eqI) (auto simp: bit_simps signed_not_eq)

lemma take_bit_sint32: "k < 32 \<Longrightarrow> take_bit k (sint (x :: u32)) = uint x mod 2 ^ k"
  by (simp add: take_bit_eq_mod [symmetric], rule bit_eqI) (auto simp: bit_simps min_def)

lemma sint_or_neg_pow2:
  assumes "k < 32"
  shows "sint ((x :: u32) OR - (2 ^ k)) = uint x mod 2 ^ k - 2 ^ k"
proof -
  have "sint (x OR - (2 ^ k)) = sint x OR sint (NOT (mask k) :: u32)"
    by (simp add: signed_or_eq minus_pow2_eq_not_mask)
  also have "\<dots> = uint x mod 2 ^ k - 2 ^ k"
    using assms by (simp only: sint_not_mask32 or_not_mask_int take_bit_sint32)
  finally show ?thesis .
qed

lemma unat_pow2_32: "k < 32 \<Longrightarrow> unat (2 ^ k :: u32) = 2 ^ k"
proof -
  assume "k < 32"
  then have "(2::nat) ^ k < 2 ^ 32" by (intro power_strict_increasing) auto
  then have "unat (of_nat (2 ^ k) :: u32) = 2 ^ k"
    by (simp only: unat_of_nat take_bit_nat_eq_self_iff) (simp add: take_bit_nat_eq_self_iff)
  then show ?thesis by simp
qed

lemma ucast_or_mask: "ucast (h OR ucast m) = (ucast (h :: zend_ulong) OR m :: u32)"
  by (rule bit_word_eqI) (auto simp: bit_simps)

lemma uint_ucast_mod_pow2:
  assumes "k \<le> 32"
  shows "uint (ucast (h :: zend_ulong) :: u32) mod 2 ^ k = uint h mod 2 ^ k"
proof -
  have "take_bit k (uint (ucast h :: u32)) = take_bit k (uint h)"
    by (rule bit_eqI) (use assms in \<open>auto simp: bit_simps\<close>)
  then show ?thesis by (simp add: take_bit_eq_mod)
qed

end
