(* ===== verification/Zend_Types.thy ===== *)
theory Zend_Types
  imports Prelude
begin

text \<open>
  The values of the engine (\<open>Zend/zend_types.h\<close>, \<open>Zend/zend_string.h\<close>): strings with their
  hash function, the tagged union \<open>zval\<close>, and the part of the process state that the hash
  table operations reach beside the table: the slots that \<open>IS_INDIRECT\<close> elements point to,
  the registered table iterators (\<open>EG(ht_iterators)\<close>), and the calls to destructors and the
  reference-count changes of keys, kept in order as a list of events.
\<close>

subsection \<open>Strings and their hash function\<close>

text \<open>
  A \<open>zend_string\<close> by content; two strings with the same bytes at different addresses are
  equal here. The code's pointer comparison is only a shortcut for the comparison of the
  contents that follows it. Interned strings are not reference counted.
\<close>

record zend_string =
  zs_val :: bytes
  zs_interned :: bool

text \<open>
  One round of the DJB hash; \<open>*str\<close> is a \<open>char\<close>, signed on the supported platforms, so it is
  sign extended before it is added.
\<close>

definition hash_round :: "zend_ulong \<Rightarrow> 8 word \<Rightarrow> zend_ulong" where
  "hash_round hash c = (push_bit 5 hash + hash) + scast c"

text \<open>The eight-times unrolled loop, then the switch over the remaining length.\<close>

fun hash_unrolled :: "zend_ulong \<Rightarrow> bytes \<Rightarrow> zend_ulong" where
  "hash_unrolled hash (c0 # c1 # c2 # c3 # c4 # c5 # c6 # c7 # str) =
     hash_unrolled (hash_round (hash_round (hash_round (hash_round (hash_round (hash_round
       (hash_round (hash_round hash c0) c1) c2) c3) c4) c5) c6) c7) str"
| "hash_unrolled hash [c0, c1, c2, c3, c4, c5, c6] =
     hash_round (hash_round (hash_round (hash_round (hash_round (hash_round
       (hash_round hash c0) c1) c2) c3) c4) c5) c6"
| "hash_unrolled hash [c0, c1, c2, c3, c4, c5] =
     hash_round (hash_round (hash_round (hash_round (hash_round
       (hash_round hash c0) c1) c2) c3) c4) c5"
| "hash_unrolled hash [c0, c1, c2, c3, c4] =
     hash_round (hash_round (hash_round (hash_round (hash_round hash c0) c1) c2) c3) c4"
| "hash_unrolled hash [c0, c1, c2, c3] =
     hash_round (hash_round (hash_round (hash_round hash c0) c1) c2) c3"
| "hash_unrolled hash [c0, c1, c2] = hash_round (hash_round (hash_round hash c0) c1) c2"
| "hash_unrolled hash [c0, c1] = hash_round (hash_round hash c0) c1"
| "hash_unrolled hash [c0] = hash_round hash c0"
| "hash_unrolled hash [] = hash"

definition zend_inline_hash_func :: "bytes \<Rightarrow> zend_ulong" where
  "zend_inline_hash_func str = hash_unrolled 5381 str OR 0x8000000000000000"

abbreviation zend_string_hash_val :: "zend_string \<Rightarrow> zend_ulong" where
  "zend_string_hash_val s \<equiv> zend_inline_hash_func (zs_val s)"

lemma hash_unrolled_eq_foldl: "hash_unrolled hash str = foldl hash_round hash str"
  by (induction hash str rule: hash_unrolled.induct) simp_all

lemma zend_inline_hash_func_nonzero: "zend_inline_hash_func str \<noteq> 0"
proof
  assume "zend_inline_hash_func str = 0"
  then have "bit (zend_inline_hash_func str) 63 = False" by simp
  moreover have "bit (zend_inline_hash_func str) 63"
    by (simp add: zend_inline_hash_func_def bit_simps)
  ultimately show False by simp
qed

subsection \<open>Values\<close>

text \<open>
  The type tag and the payload of a \<open>zval\<close>. Reference counted payloads other than strings are
  addresses. \<open>UNINIT\<close> is the content of memory that was allocated and not written yet: it has
  no tag the code could rely on.
\<close>

datatype zval =
    UNINIT
  | IS_UNDEF
  | IS_NULL
  | IS_FALSE
  | IS_TRUE
  | IS_LONG zend_ulong
  | IS_DOUBLE zend_ulong       \<comment> \<open>the bits of the double\<close>
  | IS_STRING zend_string
  | IS_ARRAY addr
  | IS_OBJECT addr
  | IS_RESOURCE addr
  | IS_REFERENCE addr
  | IS_CONSTANT zend_string
  | IS_CONSTANT_AST addr
  | IS_INDIRECT addr
  | IS_PTR addr
  | IS_ERROR

datatype dtor_func = ZVAL_PTR_DTOR | DTOR_FUNC addr

subsection \<open>The surrounding state\<close>

datatype event =
    Dtor dtor_func zval            \<comment> \<open>a destructor called on a value\<close>
  | Str_Init zend_string           \<comment> \<open>\<open>zend_string_init\<close>: one reference\<close>
  | Str_Addref zend_string         \<comment> \<open>\<open>zend_string_addref\<close>\<close>
  | Str_Release zend_string        \<comment> \<open>\<open>zend_string_release\<close>: the last one frees the string\<close>
  | Str_Delref zend_string         \<comment> \<open>\<open>zend_string_delref\<close>: never frees it\<close>
  | Addref zval                    \<comment> \<open>\<open>Z_ADDREF\<close> on a value\<close>
  | Gc_Untrack addr                \<comment> \<open>a table leaves the collector's buffer, its type becomes \<open>IS_NULL\<close>, white\<close>

datatype iter_ht = ITER_NULL | ITER_POISONED | ITER_HT addr

record HashTableIterator =
  it_ht :: iter_ht
  it_pos :: nat

record world =
  slots :: "addr \<Rightarrow> zval"
  ht_iterators :: "HashTableIterator list"
  ht_iterators_used :: nat
  events :: "event list"

definition emit :: "event \<Rightarrow> world \<Rightarrow> world" where
  "emit e w = w\<lparr>events := events w @ [e]\<rparr>"

text \<open>Reference counting skips interned strings.\<close>

definition zend_string_addref :: "zend_string \<Rightarrow> world \<Rightarrow> world" where
  "zend_string_addref s w = (if zs_interned s then w else emit (Str_Addref s) w)"

definition zend_string_release :: "zend_string \<Rightarrow> world \<Rightarrow> world" where
  "zend_string_release s w = (if zs_interned s then w else emit (Str_Release s) w)"

definition zend_string_delref :: "zend_string \<Rightarrow> world \<Rightarrow> world" where
  "zend_string_delref s w = (if zs_interned s then w else emit (Str_Delref s) w)"

definition zend_string_init :: "bytes \<Rightarrow> world \<Rightarrow> zend_string \<times> world" where
  "zend_string_init str w =
     (let s = \<lparr>zs_val = str, zs_interned = False\<rparr> in (s, emit (Str_Init s) w))"

text \<open>The references to a string an event list leaves behind, those of values apart.\<close>

fun str_refs :: "zend_string \<Rightarrow> event list \<Rightarrow> int" where
  "str_refs s [] = 0"
| "str_refs s (Str_Init t # es) = (if s = t then 1 else 0) + str_refs s es"
| "str_refs s (Str_Addref t # es) = (if s = t then 1 else 0) + str_refs s es"
| "str_refs s (Str_Release t # es) = (if s = t then -1 else 0) + str_refs s es"
| "str_refs s (Str_Delref t # es) = (if s = t then -1 else 0) + str_refs s es"
| "str_refs s (Dtor d v # es) = str_refs s es"
| "str_refs s (Addref v # es) = str_refs s es"
| "str_refs s (Gc_Untrack a # es) = str_refs s es"

lemma str_refs_append [simp]: "str_refs s (es @ fs) = str_refs s es + str_refs s fs"
  by (induction s es rule: str_refs.induct) simp_all

lemma emit_simps [simp]:
  "slots (emit e w) = slots w"
  "ht_iterators (emit e w) = ht_iterators w"
  "ht_iterators_used (emit e w) = ht_iterators_used w"
  "events (emit e w) = events w @ [e]"
  by (simp_all add: emit_def)

lemma zend_string_refs_simps [simp]:
  "slots (zend_string_addref s w) = slots w"
  "ht_iterators (zend_string_addref s w) = ht_iterators w"
  "ht_iterators_used (zend_string_addref s w) = ht_iterators_used w"
  "slots (zend_string_release s w) = slots w"
  "ht_iterators (zend_string_release s w) = ht_iterators w"
  "ht_iterators_used (zend_string_release s w) = ht_iterators_used w"
  "slots (zend_string_delref s w) = slots w"
  "ht_iterators (zend_string_delref s w) = ht_iterators w"
  "ht_iterators_used (zend_string_delref s w) = ht_iterators_used w"
  by (simp_all add: zend_string_addref_def zend_string_release_def zend_string_delref_def)

end
