(* ===== verification/Zend_Hash.thy ===== *)
theory Zend_Hash
  imports Zend_Types
begin

text \<open>
  The hash table of the engine (\<open>Zend/zend_hash.c\<close>, \<open>Zend/zend_hash.h\<close>): the structure, its
  initialisation, the two layouts (packed and hash), the search along a collision chain,
  compaction and rehashing, growth, and the two insertion routines every insertion goes
  through. A table is one record; the block \<open>arData\<close> points into is the list \<open>arHash\<close> (the
  index area before it, first cell first) and the list \<open>arData\<close> of all \<open>nTableSize\<close>
  buckets, those never written included.
\<close>

subsection \<open>The structure\<close>

record Bucket =
  b_val :: zval
  b_next :: nat                    \<comment> \<open>\<open>Z_NEXT(val)\<close>, the next index of the collision chain\<close>
  b_h :: zend_ulong
  b_key :: "zend_string option"

text \<open>Freshly allocated memory: an unwritten bucket and an unwritten index cell.\<close>

definition fresh_bucket :: Bucket where
  "fresh_bucket = \<lparr>b_val = UNINIT, b_next = 0xAAAAAAAA, b_h = 0, b_key = None\<rparr>"

definition fresh_index :: nat where
  "fresh_index = 0xAAAAAAAA"

text \<open>
  The flag bits of \<open>u.flags\<close> are separate fields; \<open>nApplyCount\<close> and \<open>nIteratorsCount\<close> are the
  two byte-sized counters of the same word. \<open>ht_addr\<close> is the address of the structure itself,
  by which iterators refer to it.
\<close>

record HashTable =
  ht_addr :: addr
  ht_refcount :: nat
  ht_immutable :: bool
  ht_persistent :: bool
  ht_apply_protection :: bool
  ht_packed :: bool
  ht_initialized :: bool
  ht_static_keys :: bool
  ht_has_empty_ind :: bool
  nApplyCount :: nat
  nIteratorsCount :: nat
  nTableMask :: u32
  arHash :: "nat list"
  arData :: "Bucket list"
  nNumUsed :: nat
  nNumOfElements :: nat
  nTableSize :: nat
  nInternalPointer :: nat
  nNextFreeElement :: zend_ulong
  pDestructor :: "dtor_func option"

definition HT_MIN_MASK :: u32 where "HT_MIN_MASK = -2"
definition HT_MIN_SIZE :: nat where "HT_MIN_SIZE = 8"
definition HT_MAX_SIZE :: nat where "HT_MAX_SIZE = 0x80000000"

text \<open>Number of cells of the index area, \<open>(uint32_t)-(int32_t)nTableMask\<close>.\<close>

definition HT_HASH_SIZE :: "u32 \<Rightarrow> nat" where
  "HT_HASH_SIZE m = unat (- m)"

text \<open>
  \<open>HT_HASH_EX(data, idx)\<close> indexes 32-bit cells with the signed \<open>idx\<close> from the end of the index
  area; as an offset from its beginning. The index is \<open>h | nTableMask\<close>, cut to 32 bits.
\<close>

definition HT_HASH_EX :: "u32 \<Rightarrow> u32 \<Rightarrow> nat" where
  "HT_HASH_EX m idx = nat (int (HT_HASH_SIZE m) + sint idx)"

definition hash_slot :: "u32 \<Rightarrow> zend_ulong \<Rightarrow> nat" where
  "hash_slot m h = HT_HASH_EX m (ucast (h OR ucast m))"

definition HT_HASH_RESET :: "HashTable \<Rightarrow> HashTable" where
  "HT_HASH_RESET ht = ht\<lparr>arHash := replicate (HT_HASH_SIZE (nTableMask ht)) HT_INVALID_IDX\<rparr>"

definition HT_HASH_RESET_PACKED :: "HashTable \<Rightarrow> HashTable" where
  "HT_HASH_RESET_PACKED ht = ht\<lparr>arHash := (arHash ht)
     [HT_HASH_EX (nTableMask ht) (-2) := HT_INVALID_IDX,
      HT_HASH_EX (nTableMask ht) (-1) := HT_INVALID_IDX]\<rparr>"

text \<open>A new block: an index area for the mask and \<open>nTableSize\<close> buckets, all unwritten.\<close>

definition HT_ALLOC :: "HashTable \<Rightarrow> HashTable" where
  "HT_ALLOC ht = ht\<lparr>arHash := replicate (HT_HASH_SIZE (nTableMask ht)) fresh_index,
     arData := replicate (nTableSize ht) fresh_bucket\<rparr>"

text \<open>Copying the used buckets of an old block into the current one (\<open>memcpy\<close>).\<close>

definition copy_used :: "Bucket list \<Rightarrow> HashTable \<Rightarrow> HashTable" where
  "copy_used old ht = ht\<lparr>arData := take (nNumUsed ht) old @ drop (nNumUsed ht) (arData ht)\<rparr>"

text \<open>An element is present when its bucket is not marked \<open>IS_UNDEF\<close>.\<close>

definition live :: "Bucket \<Rightarrow> bool" where
  "live b \<longleftrightarrow> b_val b \<noteq> IS_UNDEF"

subsection \<open>Sizes\<close>

text \<open>
  Rounding a size up to a power of two: with the compiler's count of leading zeros, and with
  the portable shifts that smear the highest bit down.
\<close>

definition builtin_clz :: "u32 \<Rightarrow> nat" where
  "builtin_clz x = length (takeWhile Not (map (bit x) (rev [0..<32])))"

definition zend_hash_check_size_clz :: "u32 \<Rightarrow> u32 res" where
  "zend_hash_check_size_clz nSize =
     (let nSize = (if nSize < 8 then Inr 8
        else if nSize \<ge> 0x80000000 then Inl E_ERROR_MEMORY else Inr nSize)
      in res_bind nSize (\<lambda>nSize.
        Inr (push_bit (unat (of_nat (builtin_clz (nSize - 1)) XOR 0x1f :: u32)) 2)))"

definition zend_hash_check_size :: "u32 \<Rightarrow> u32 res" where
  "zend_hash_check_size nSize =
     (let nSize = (if nSize < 8 then Inr 8
        else if nSize \<ge> 0x80000000 then Inl E_ERROR_MEMORY else Inr nSize)
      in res_bind nSize (\<lambda>nSize.
        let n = nSize - 1;
            n = n OR drop_bit 1 n;
            n = n OR drop_bit 2 n;
            n = n OR drop_bit 4 n;
            n = n OR drop_bit 8 n;
            n = n OR drop_bit 16 n
        in Inr (n + 1)))"

subsection \<open>Initialisation\<close>

definition zend_hash_init ::
  "addr \<Rightarrow> u32 \<Rightarrow> dtor_func option \<Rightarrow> bool \<Rightarrow> HashTable res" where
  "zend_hash_init a nSize dtor persistent =
     res_bind (zend_hash_check_size nSize) (\<lambda>size.
       Inr \<lparr>ht_addr = a, ht_refcount = 1, ht_immutable = False,
         ht_persistent = persistent, ht_apply_protection = True, ht_packed = False,
         ht_initialized = False, ht_static_keys = True, ht_has_empty_ind = False,
         nApplyCount = 0, nIteratorsCount = 0,
         nTableMask = HT_MIN_MASK,
         arHash = [HT_INVALID_IDX, HT_INVALID_IDX],  \<comment> \<open>\<open>uninitialized_bucket\<close>\<close>
         arData = [],
         nNumUsed = 0, nNumOfElements = 0, nTableSize = unat size,
         nInternalPointer = HT_INVALID_IDX, nNextFreeElement = 0,
         pDestructor = dtor\<rparr>)"

definition zend_hash_init_ex ::
  "addr \<Rightarrow> u32 \<Rightarrow> dtor_func option \<Rightarrow> bool \<Rightarrow> bool \<Rightarrow> HashTable res" where
  "zend_hash_init_ex a nSize dtor persistent bApplyProtection =
     res_bind (zend_hash_init a nSize dtor persistent) (\<lambda>ht.
       Inr (if bApplyProtection then ht else ht\<lparr>ht_apply_protection := False\<rparr>))"

definition zend_hash_real_init_ex :: "HashTable \<Rightarrow> bool \<Rightarrow> HashTable" where
  "zend_hash_real_init_ex ht packed =
     (if packed then
        HT_HASH_RESET_PACKED ((HT_ALLOC ht)\<lparr>ht_initialized := True, ht_packed := True\<rparr>)
      else
        HT_HASH_RESET
          ((HT_ALLOC (ht\<lparr>nTableMask := - of_nat (nTableSize ht)\<rparr>))\<lparr>ht_initialized := True\<rparr>))"

definition zend_hash_check_init :: "HashTable \<Rightarrow> bool \<Rightarrow> HashTable" where
  "zend_hash_check_init ht packed =
     (if \<not> ht_initialized ht then zend_hash_real_init_ex ht packed else ht)"

definition zend_hash_set_apply_protection :: "HashTable \<Rightarrow> bool \<Rightarrow> HashTable" where
  "zend_hash_set_apply_protection ht bApplyProtection =
     (if bApplyProtection then ht\<lparr>ht_apply_protection := True\<rparr>
      else ht\<lparr>ht_apply_protection := False\<rparr>)"

subsection \<open>Iterators\<close>

text \<open>
  \<open>EG(ht_iterators)\<close> holds the positions of running \<open>foreach\<close> loops. The operations here
  touch the entries below \<open>ht_iterators_used\<close> that refer to this table, and only when the
  table's iterator count is not zero.
\<close>

definition zend_hash_iterators_lower_pos :: "HashTable \<Rightarrow> nat \<Rightarrow> world \<Rightarrow> nat" where
  "zend_hash_iterators_lower_pos ht start w =
     fold (\<lambda>it res. if it_ht it = ITER_HT (ht_addr ht) \<and> it_pos it \<ge> start \<and> it_pos it < res
                     then it_pos it else res)
       (take (ht_iterators_used w) (ht_iterators w)) HT_INVALID_IDX"

definition zend_hash_iterators_update_i :: "HashTable \<Rightarrow> nat \<Rightarrow> nat \<Rightarrow> world \<Rightarrow> world" where
  "zend_hash_iterators_update_i ht from to w =
     w\<lparr>ht_iterators :=
        map (\<lambda>it. if it_ht it = ITER_HT (ht_addr ht) \<and> it_pos it = from then it\<lparr>it_pos := to\<rparr> else it)
          (take (ht_iterators_used w) (ht_iterators w))
        @ drop (ht_iterators_used w) (ht_iterators w)\<rparr>"

definition zend_hash_iterators_update :: "HashTable \<Rightarrow> nat \<Rightarrow> nat \<Rightarrow> world \<Rightarrow> world" where
  "zend_hash_iterators_update ht from to w =
     (if nIteratorsCount ht \<noteq> 0 then zend_hash_iterators_update_i ht from to w else w)"

definition zend_hash_iterators_remove :: "HashTable \<Rightarrow> world \<Rightarrow> world" where
  "zend_hash_iterators_remove ht w =
     (if nIteratorsCount ht \<noteq> 0 then
        w\<lparr>ht_iterators :=
          map (\<lambda>it. if it_ht it = ITER_HT (ht_addr ht) then it\<lparr>it_ht := ITER_POISONED\<rparr> else it)
            (take (ht_iterators_used w) (ht_iterators w))
          @ drop (ht_iterators_used w) (ht_iterators w)\<rparr>
      else w)"

subsection \<open>Searching a collision chain\<close>

text \<open>
  The loop of the three searches, over the test it applies to a bucket. The table has
  \<open>nTableSize\<close> buckets, so a chain that visits more of them has a cycle: the first number
  bounds the buckets still to visit.
\<close>

fun chain_find :: "(Bucket \<Rightarrow> bool) \<Rightarrow> Bucket list \<Rightarrow> nat \<Rightarrow> nat \<Rightarrow> nat option res" where
  "chain_find test data fuel idx =
     (if idx = HT_INVALID_IDX then Inr None
      else if idx \<ge> length data then Inl UB_OUT_OF_BOUNDS
      else if test (data ! idx) then Inr (Some idx)
      else case fuel of 0 \<Rightarrow> Inl UB_CHAIN_LOOP
           | Suc fuel' \<Rightarrow> chain_find test data fuel' (b_next (data ! idx)))"

declare chain_find.simps [simp del]

text \<open>The tests: same string object, or same hash, length and bytes; same number.\<close>

definition same_bytes :: "zend_ulong \<Rightarrow> bytes \<Rightarrow> Bucket \<Rightarrow> bool" where
  "same_bytes h str p \<longleftrightarrow> b_h p = h \<and>
     (case b_key p of None \<Rightarrow> False
      | Some k \<Rightarrow> length (zs_val k) = length str \<and> zs_val k = str)"

definition same_zend_string :: "zend_ulong \<Rightarrow> zend_string \<Rightarrow> Bucket \<Rightarrow> bool" where
  "same_zend_string h key p \<longleftrightarrow> b_key p = Some key \<or> same_bytes h (zs_val key) p"

definition same_index :: "zend_ulong \<Rightarrow> Bucket \<Rightarrow> bool" where
  "same_index h p \<longleftrightarrow> b_h p = h \<and> b_key p = None"

definition zend_hash_find_bucket :: "HashTable \<Rightarrow> zend_string \<Rightarrow> nat option res" where
  "zend_hash_find_bucket ht key =
     (let h = zend_string_hash_val key in
      chain_find (same_zend_string h key) (arData ht) (nTableSize ht)
        (arHash ht ! hash_slot (nTableMask ht) h))"

definition zend_hash_str_find_bucket :: "HashTable \<Rightarrow> bytes \<Rightarrow> zend_ulong \<Rightarrow> nat option res" where
  "zend_hash_str_find_bucket ht str h =
     chain_find (same_bytes h str) (arData ht) (nTableSize ht)
       (arHash ht ! hash_slot (nTableMask ht) h)"

definition zend_hash_index_find_bucket :: "HashTable \<Rightarrow> zend_ulong \<Rightarrow> nat option res" where
  "zend_hash_index_find_bucket ht h =
     chain_find (same_index h) (arData ht) (nTableSize ht)
       (arHash ht ! hash_slot (nTableMask ht) h)"

subsection \<open>Compaction and rehashing\<close>

text \<open>
  One step of the rehash of a table without holes: bucket \<open>i\<close> becomes the head of its chain.
\<close>

definition rehash_link :: "nat \<Rightarrow> HashTable \<Rightarrow> HashTable" where
  "rehash_link i ht =
     (let p = arData ht ! i; nIndex = hash_slot (nTableMask ht) (b_h p) in
      ht\<lparr>arData := (arData ht)[i := p\<lparr>b_next := arHash ht ! nIndex\<rparr>],
         arHash := (arHash ht)[nIndex := i]\<rparr>)"

lemma fold_choose:
  assumes "\<And>it res. f it res = res \<or> P (f it res)"
  shows "fold f its r = r \<or> P (fold f its r)"
proof (induction its arbitrary: r)
  case Nil
  then show ?case by simp
next
  case (Cons it its)
  from Cons.IH [of "f it r"] assms [of it r] show ?case by auto
qed

lemma zend_hash_iterators_lower_pos_ge:
  "zend_hash_iterators_lower_pos ht start w \<noteq> HT_INVALID_IDX \<Longrightarrow>
   start \<le> zend_hash_iterators_lower_pos ht start w"
proof -
  have "zend_hash_iterators_lower_pos ht start w = HT_INVALID_IDX
        \<or> start \<le> zend_hash_iterators_lower_pos ht start w"
    unfolding zend_hash_iterators_lower_pos_def
    by (rule fold_choose [where P = "\<lambda>r. start \<le> r"]) auto
  then show "zend_hash_iterators_lower_pos ht start w \<noteq> HT_INVALID_IDX \<Longrightarrow> ?thesis" by blast
qed

text \<open>
  While a bucket moves from \<open>i\<close> to \<open>j\<close>, every iterator at a position up to \<open>i\<close> that was not
  reached yet moves to \<open>j\<close>. Positions are 32-bit values, so \<open>i\<close> is at most the invalid index.
\<close>

function iterators_move ::
  "HashTable \<Rightarrow> nat \<Rightarrow> nat \<Rightarrow> nat \<Rightarrow> world \<Rightarrow> nat \<times> world" where
  "iterators_move ht i j iter_pos w =
     (let w' = zend_hash_iterators_update ht iter_pos j w;
          iter_pos' = zend_hash_iterators_lower_pos ht (iter_pos + 1) w'
      in if iter_pos' < min i HT_INVALID_IDX then iterators_move ht i j iter_pos' w'
         else (iter_pos', w'))"
  by pat_completeness auto
termination
proof (relation "measure (\<lambda>(ht, i, j, iter_pos, w). i - iter_pos)", simp, clarsimp)
  fix ht i j iter_pos w
  assume "zend_hash_iterators_lower_pos ht (Suc iter_pos)
            (zend_hash_iterators_update ht iter_pos j w) < i"
    and "zend_hash_iterators_lower_pos ht (Suc iter_pos)
            (zend_hash_iterators_update ht iter_pos j w) < HT_INVALID_IDX"
  with zend_hash_iterators_lower_pos_ge [of ht "Suc iter_pos"]
  show "i - zend_hash_iterators_lower_pos ht (Suc iter_pos)
          (zend_hash_iterators_update ht iter_pos j w) < i - iter_pos"
    by (metis Suc_le_lessD diff_less_mono2 less_trans nat_neq_iff)
qed

declare iterators_move.simps [simp del]

text \<open>
  The loop behind the first hole: \<open>i\<close> runs over the rest of the used buckets, \<open>j\<close> is the place
  the next present bucket moves to.
\<close>

fun rehash_compact ::
  "nat list \<Rightarrow> nat \<Rightarrow> nat \<Rightarrow> world \<times> HashTable \<Rightarrow> nat \<times> world \<times> HashTable" where
  "rehash_compact [] j iter_pos (w, ht) = (j, w, ht)"
| "rehash_compact (i # is) j iter_pos (w, ht) =
     (let p = arData ht ! i in
      if b_val p \<noteq> IS_UNDEF then
        let nIndex = hash_slot (nTableMask ht) (b_h p);
            ht1 = ht\<lparr>arData := (arData ht)[j := (arData ht ! j)\<lparr>b_val := b_val p, b_h := b_h p,
                        b_key := b_key p, b_next := arHash ht ! nIndex\<rparr>],
                     arHash := (arHash ht)[nIndex := j]\<rparr>;
            ht2 = (if nInternalPointer ht1 = i then ht1\<lparr>nInternalPointer := j\<rparr> else ht1);
            (iter_pos', w') = (if nIteratorsCount ht \<noteq> 0 \<and> i \<ge> iter_pos
                               then iterators_move ht2 i j iter_pos w else (iter_pos, w))
        in rehash_compact is (Suc j) iter_pos' (w', ht2)
      else rehash_compact is j iter_pos (w, ht))"

fun rehash_holes :: "nat list \<Rightarrow> world \<times> HashTable \<Rightarrow> world \<times> HashTable" where
  "rehash_holes [] (w, ht) = (w, ht)"
| "rehash_holes (i # is) (w, ht) =
     (if b_val (arData ht ! i) = IS_UNDEF then
        let iter_pos = (if nIteratorsCount ht = 0 then HT_INVALID_IDX
                        else zend_hash_iterators_lower_pos ht 0 w);
            (j, w', ht') = rehash_compact is i iter_pos (w, ht)
        in (w', ht'\<lparr>nNumUsed := j\<rparr>)
      else rehash_holes is (w, rehash_link i ht))"

definition zend_hash_rehash :: "world \<Rightarrow> HashTable \<Rightarrow> world \<times> HashTable" where
  "zend_hash_rehash w ht =
     (if nNumOfElements ht = 0 then
        (w, if ht_initialized ht then HT_HASH_RESET (ht\<lparr>nNumUsed := 0\<rparr>) else ht)
      else
        let ht = HT_HASH_RESET ht in
        if nNumUsed ht = nNumOfElements ht then (w, fold rehash_link [0..<nNumUsed ht] ht)
        else rehash_holes [0..<nNumUsed ht] (w, ht))"

subsection \<open>Growth and change of layout\<close>

definition zend_hash_packed_grow :: "HashTable \<Rightarrow> HashTable res" where
  "zend_hash_packed_grow ht =
     (if nTableSize ht \<ge> HT_MAX_SIZE then Inl E_ERROR_MEMORY
      else let ht1 = ht\<lparr>nTableSize := nTableSize ht + nTableSize ht\<rparr> in
        Inr (copy_used (arData ht) (ht1\<lparr>arData := replicate (nTableSize ht1) fresh_bucket\<rparr>)))"

definition zend_hash_packed_to_hash :: "world \<Rightarrow> HashTable \<Rightarrow> world \<times> HashTable" where
  "zend_hash_packed_to_hash w ht =
     (let ht1 = ht\<lparr>ht_packed := False, nTableMask := - of_nat (nTableSize ht)\<rparr> in
      zend_hash_rehash w (copy_used (arData ht) (HT_ALLOC ht1)))"

definition zend_hash_to_packed :: "HashTable \<Rightarrow> HashTable" where
  "zend_hash_to_packed ht =
     (let ht1 = ht\<lparr>ht_packed := True, ht_static_keys := True, nTableMask := HT_MIN_MASK\<rparr> in
      copy_used (arData ht) (HT_HASH_RESET_PACKED (HT_ALLOC ht1)))"

definition zend_hash_do_resize :: "world \<Rightarrow> HashTable \<Rightarrow> (world \<times> HashTable) res" where
  "zend_hash_do_resize w ht =
     (if nNumUsed ht > nNumOfElements ht + nNumOfElements ht div 32 then
        Inr (zend_hash_rehash w ht)
      else if nTableSize ht < HT_MAX_SIZE then
        let nSize = nTableSize ht + nTableSize ht;
            ht1 = ht\<lparr>nTableSize := nSize, nTableMask := - of_nat nSize\<rparr>
        in Inr (zend_hash_rehash w (copy_used (arData ht) (HT_ALLOC ht1)))
      else Inl E_ERROR_MEMORY)"

definition ZEND_HASH_IF_FULL_DO_RESIZE :: "world \<Rightarrow> HashTable \<Rightarrow> (world \<times> HashTable) res" where
  "ZEND_HASH_IF_FULL_DO_RESIZE w ht =
     (if nNumUsed ht \<ge> nTableSize ht then zend_hash_do_resize w ht else Inr (w, ht))"

definition zend_hash_extend :: "world \<Rightarrow> HashTable \<Rightarrow> u32 \<Rightarrow> bool \<Rightarrow> (world \<times> HashTable) res" where
  "zend_hash_extend w ht nSize packed =
     (if nSize = 0 then Inr (w, ht)
      else if \<not> ht_initialized ht then
        res_bind (if unat nSize > nTableSize ht
                  then res_bind (zend_hash_check_size nSize) (\<lambda>s. Inr (ht\<lparr>nTableSize := unat s\<rparr>))
                  else Inr ht)
          (\<lambda>ht. Inr (w, zend_hash_check_init ht packed))
      else if packed then
        (if unat nSize > nTableSize ht then
           res_bind (zend_hash_check_size nSize) (\<lambda>s.
             let ht1 = ht\<lparr>nTableSize := unat s\<rparr> in
             Inr (w, copy_used (arData ht)
                       (ht1\<lparr>arData := replicate (nTableSize ht1) fresh_bucket\<rparr>)))
         else Inr (w, ht))
      else if unat nSize > nTableSize ht then
        res_bind (zend_hash_check_size nSize) (\<lambda>s.
          let ht1 = ht\<lparr>nTableSize := unat s, nTableMask := - s\<rparr> in
          Inr (zend_hash_rehash w (copy_used (arData ht) (HT_ALLOC ht1))))
      else Inr (w, ht))"

end
