(* ===== verification/Zend_Hash_Inv.thy ===== *)
theory Zend_Hash_Inv
  imports Zend_Hash
begin

text \<open>
  The contents of a table as an ordered list of entries, the invariant that ties the layout to
  it, and what the internal operations do to both: a search returns the bucket of the key, and
  rehashing and growing rebuild the chains and leave the contents alone.
\<close>

subsection \<open>The contents\<close>

datatype hkey = IntKey zend_ulong | StrKey bytes

definition bucket_core :: "Bucket \<Rightarrow> zval \<times> zend_ulong \<times> zend_string option" where
  "bucket_core b = (b_val b, b_h b, b_key b)"

fun core_entry :: "zval \<times> zend_ulong \<times> zend_string option \<Rightarrow> hkey \<times> zval" where
  "core_entry (v, h, None) = (IntKey h, v)"
| "core_entry (v, h, Some s) = (StrKey (zs_val s), v)"

definition bkey :: "Bucket \<Rightarrow> hkey" where
  "bkey b = fst (core_entry (bucket_core b))"

definition ht_buckets :: "HashTable \<Rightarrow> Bucket list" where
  "ht_buckets ht = filter live (take (nNumUsed ht) (arData ht))"

definition ht_cores :: "HashTable \<Rightarrow> (zval \<times> zend_ulong \<times> zend_string option) list" where
  "ht_cores ht = map bucket_core (ht_buckets ht)"

definition ht_entries :: "HashTable \<Rightarrow> (hkey \<times> zval) list" where
  "ht_entries ht = map core_entry (ht_cores ht)"

lemma bkey_simps:
  "b_key b = None \<Longrightarrow> bkey b = IntKey (b_h b)"
  "b_key b = Some s \<Longrightarrow> bkey b = StrKey (zs_val s)"
  by (simp_all add: bkey_def bucket_core_def)

lemma core_entry_bucket [simp]: "core_entry (bucket_core b) = (bkey b, b_val b)"
  by (cases "b_key b") (simp_all add: bkey_def bucket_core_def)

lemma ht_entries_alt: "ht_entries ht = map (\<lambda>b. (bkey b, b_val b)) (ht_buckets ht)"
  by (simp add: ht_entries_def ht_cores_def)

subsection \<open>The invariant\<close>

text \<open>The present buckets of one chain, and the chains of the first \<open>n\<close> buckets.\<close>

definition slot_of :: "HashTable \<Rightarrow> nat \<Rightarrow> nat" where
  "slot_of ht j = hash_slot (nTableMask ht) (b_h (arData ht ! j))"

definition in_slot :: "HashTable \<Rightarrow> nat \<Rightarrow> nat \<Rightarrow> bool" where
  "in_slot ht s j \<longleftrightarrow> live (arData ht ! j) \<and> slot_of ht j = s"

definition linked :: "HashTable \<Rightarrow> nat \<Rightarrow> bool" where
  "linked ht n \<longleftrightarrow>
     (\<forall>s < length (arHash ht). arHash ht ! s = last_in (in_slot ht s) n) \<and>
     (\<forall>i < n. live (arData ht ! i) \<longrightarrow> b_next (arData ht ! i) = last_in (in_slot ht (slot_of ht i)) i)"

definition bucket_ok :: "Bucket \<Rightarrow> bool" where
  "bucket_ok b \<longleftrightarrow> b_val b \<noteq> UNINIT \<and>
     (case b_key b of None \<Rightarrow> True | Some s \<Rightarrow> b_h b = zend_string_hash_val s)"

definition size_ok :: "nat \<Rightarrow> bool" where
  "size_ok n \<longleftrightarrow> (\<exists>k. 3 \<le> k \<and> k \<le> 31 \<and> n = 2 ^ k)"

text \<open>The next free index is above every numeric key, or saturated.\<close>

definition next_free_ok :: "HashTable \<Rightarrow> bool" where
  "next_free_ok ht \<longleftrightarrow> 0 \<le> sint (nNextFreeElement ht) \<and>
     (\<forall>b \<in> set (ht_buckets ht). b_key b = None \<longrightarrow>
        sint (b_h b) < sint (nNextFreeElement ht) \<or> nNextFreeElement ht = ZEND_LONG_MAX)"

definition pointer_ok :: "HashTable \<Rightarrow> bool" where
  "pointer_ok ht \<longleftrightarrow> nInternalPointer ht = HT_INVALID_IDX \<or>
     (nInternalPointer ht < nNumUsed ht \<and> live (arData ht ! nInternalPointer ht))"

text \<open>What every layout has in common.\<close>

definition contents_ok :: "HashTable \<Rightarrow> bool" where
  "contents_ok ht \<longleftrightarrow>
     size_ok (nTableSize ht) \<and> nNumUsed ht \<le> nTableSize ht \<and>
     nNumOfElements ht = length (ht_buckets ht) \<and>
     distinct (map bkey (ht_buckets ht)) \<and>
     (\<forall>b \<in> set (ht_buckets ht). bucket_ok b) \<and>
     (ht_static_keys ht \<longrightarrow>
        (\<forall>b \<in> set (ht_buckets ht). \<forall>s. b_key b = Some s \<longrightarrow> zs_interned s)) \<and>
     pointer_ok ht \<and> next_free_ok ht"

text \<open>The three layouts.\<close>

definition uninit_layout :: "HashTable \<Rightarrow> bool" where
  "uninit_layout ht \<longleftrightarrow> \<not> ht_packed ht \<and> nNumUsed ht = 0 \<and> nTableMask ht = HT_MIN_MASK \<and>
     arHash ht = [HT_INVALID_IDX, HT_INVALID_IDX]"

definition packed_layout :: "HashTable \<Rightarrow> bool" where
  "packed_layout ht \<longleftrightarrow> length (arData ht) = nTableSize ht \<and> nTableMask ht = HT_MIN_MASK \<and>
     arHash ht = [HT_INVALID_IDX, HT_INVALID_IDX] \<and>
     (\<forall>i < nNumUsed ht. live (arData ht ! i) \<longrightarrow>
        b_key (arData ht ! i) = None \<and> b_h (arData ht ! i) = of_nat i)"

definition hash_area :: "HashTable \<Rightarrow> bool" where
  "hash_area ht \<longleftrightarrow> size_ok (nTableSize ht) \<and> length (arData ht) = nTableSize ht \<and>
     nTableMask ht = - of_nat (nTableSize ht)"

definition hash_layout :: "HashTable \<Rightarrow> bool" where
  "hash_layout ht \<longleftrightarrow> hash_area ht \<and> length (arHash ht) = nTableSize ht \<and>
     linked ht (nNumUsed ht)"

definition ht_inv :: "HashTable \<Rightarrow> bool" where
  "ht_inv ht \<longleftrightarrow> contents_ok ht \<and>
     (if \<not> ht_initialized ht then uninit_layout ht
      else if ht_packed ht then packed_layout ht else hash_layout ht)"

subsection \<open>Sizes and slots\<close>

lemma size_ok_bounds: "size_ok n \<Longrightarrow> 8 \<le> n \<and> n \<le> 0x80000000"
proof -
  assume "size_ok n"
  then obtain k where k: "3 \<le> k" "k \<le> 31" "n = 2 ^ k" by (auto simp: size_ok_def)
  then have "(2::nat) ^ 3 \<le> 2 ^ k" and "(2::nat) ^ k \<le> 2 ^ 31"
    by (simp_all only: power_increasing)
  with k show ?thesis by simp
qed

lemma size_ok_double: "size_ok n \<Longrightarrow> n < HT_MAX_SIZE \<Longrightarrow> size_ok (n + n)"
proof -
  assume "size_ok n" and lt: "n < HT_MAX_SIZE"
  then obtain k where k: "3 \<le> k" "k \<le> 31" "n = 2 ^ k" by (auto simp: size_ok_def)
  have "k \<noteq> 31" using lt k by (auto simp: HT_MAX_SIZE_def)
  with k have "3 \<le> Suc k \<and> Suc k \<le> 31 \<and> n + n = 2 ^ Suc k" by simp
  then show ?thesis unfolding size_ok_def by blast
qed

lemma size_ok_less_invalid: "size_ok n \<Longrightarrow> n < HT_INVALID_IDX"
  by (drule size_ok_bounds) (simp add: HT_INVALID_IDX_def)

lemma HT_HASH_SIZE_neg: "size_ok n \<Longrightarrow> HT_HASH_SIZE (- of_nat n) = n"
  by (auto simp: size_ok_def HT_HASH_SIZE_def unat_pow2_32)

lemma hash_slot_mod:
  assumes "size_ok n"
  shows "hash_slot (- of_nat n) h = unat h mod n"
proof -
  from assms obtain k where k: "3 \<le> k" "k \<le> 31" "n = 2 ^ k" by (auto simp: size_ok_def)
  have "hash_slot (- of_nat n) h = nat (uint (ucast h :: u32) mod 2 ^ k)"
    using k by (simp add: hash_slot_def HT_HASH_EX_def HT_HASH_SIZE_def ucast_or_mask
        sint_or_neg_pow2 unat_pow2_32)
  also have "\<dots> = nat (uint h mod 2 ^ k)"
    using k by (simp only: uint_ucast_mod_pow2)
  also have "\<dots> = unat h mod n"
    using k by (simp add: nat_mod_distrib nat_power_eq)
  finally show ?thesis .
qed

lemma hash_slot_less: "size_ok n \<Longrightarrow> hash_slot (- of_nat n) h < n"
  using hash_slot_mod size_ok_bounds [of n] by (simp add: mod_less_divisor)

lemma hash_slot_min_mask: "hash_slot HT_MIN_MASK h < 2"
proof -
  have "hash_slot HT_MIN_MASK h = nat (uint (ucast h :: u32) mod 2 ^ 1)"
    unfolding hash_slot_def HT_HASH_EX_def HT_HASH_SIZE_def ucast_or_mask HT_MIN_MASK_def
    using sint_or_neg_pow2 [of 1 "ucast h"] by simp
  also have "\<dots> < 2" by simp
  finally show ?thesis .
qed

subsection \<open>Chains\<close>

lemma in_slot_cong:
  assumes "nTableMask ht' = nTableMask ht"
    and "bucket_core (arData ht' ! j) = bucket_core (arData ht ! j)"
  shows "in_slot ht' s j = in_slot ht s j"
  using assms by (simp add: in_slot_def slot_of_def live_def bucket_core_def)

lemma slot_of_cong:
  assumes "nTableMask ht' = nTableMask ht"
    and "bucket_core (arData ht' ! j) = bucket_core (arData ht ! j)"
  shows "slot_of ht' j = slot_of ht j"
  using assms by (simp add: slot_of_def bucket_core_def)

text \<open>
  Following the chain from the last index below \<open>n\<close> with \<open>Q\<close> visits the indices with \<open>Q\<close>
  downwards; it ends within \<open>n\<close> steps, at the last one that also passes the test.
\<close>

lemma chain_find_last_in:
  assumes nxt: "\<And>i. i < n \<Longrightarrow> Q i \<Longrightarrow> b_next (data ! i) = last_in Q i"
    and len: "n \<le> length data" and inv: "n \<le> HT_INVALID_IDX" and fuel: "n \<le> fuel"
  shows "chain_find test data fuel (last_in Q n) =
     Inr (let j = last_in (\<lambda>j. Q j \<and> test (data ! j)) n in if j = HT_INVALID_IDX then None else Some j)"
  using assms
proof (induction n arbitrary: fuel rule: less_induct)
  case (less n)
  let ?i = "last_in Q n"
  consider (none) "?i = HT_INVALID_IDX" "\<forall>j<n. \<not> Q j"
    | (some) "?i < n" "Q ?i" "\<forall>j. ?i < j \<and> j < n \<longrightarrow> \<not> Q j"
    using last_in_disj [of Q n] by blast
  then show ?case
  proof cases
    case none
    then have "last_in (\<lambda>j. Q j \<and> test (data ! j)) n = HT_INVALID_IDX"
      by (intro last_in_None) auto
    with none show ?thesis by (subst chain_find.simps) simp
  next
    case some
    then have i: "?i \<noteq> HT_INVALID_IDX" "?i < length data" using less.prems by auto
    show ?thesis
    proof (cases "test (data ! ?i)")
      case True
      with some have "last_in (\<lambda>j. Q j \<and> test (data ! j)) n = ?i"
        by (intro last_in_eqI) auto
      with True i show ?thesis by (subst chain_find.simps) simp
    next
      case False
      from some less.prems obtain fuel' where f: "fuel = Suc fuel'" "?i \<le> fuel'"
        by (cases fuel) auto
      have eq: "last_in (\<lambda>j. Q j \<and> test (data ! j)) n = last_in (\<lambda>j. Q j \<and> test (data ! j)) ?i"
        using some False by (subst last_in_split [of ?i n]) (auto, metis le_neq_implies_less)
      have "chain_find test data fuel' (last_in Q ?i) =
          Inr (let j = last_in (\<lambda>j. Q j \<and> test (data ! j)) ?i
               in if j = HT_INVALID_IDX then None else Some j)"
        by (rule less.IH) (use some less.prems f in auto)
      moreover have "b_next (data ! ?i) = last_in Q ?i" using less.prems some by blast
      ultimately show ?thesis
        using False i f by (subst chain_find.simps) (simp add: eq)
    qed
  qed
qed

lemma chain_find_invalid [simp]: "chain_find test data fuel HT_INVALID_IDX = Inr None"
  by (subst chain_find.simps) simp

subsection \<open>Searches\<close>

lemma ht_inv_linked:
  "ht_inv ht \<Longrightarrow> ht_initialized ht \<Longrightarrow> \<not> ht_packed ht \<Longrightarrow> linked ht (nNumUsed ht)"
  by (simp add: ht_inv_def hash_layout_def)

text \<open>
  In the packed and the uninitialised layout both index cells are invalid, so every chain is
  empty.
\<close>

lemma min_mask_slots:
  assumes "nTableMask ht = HT_MIN_MASK" "arHash ht = [HT_INVALID_IDX, HT_INVALID_IDX]"
  shows "arHash ht ! hash_slot (nTableMask ht) h = HT_INVALID_IDX"
  using assms hash_slot_min_mask [of h] by (auto simp: less_2_cases_iff)

lemma chain_find_hash_layout:
  assumes "hash_layout ht" "nNumUsed ht \<le> nTableSize ht"
    and "\<And>j. j < nNumUsed ht \<Longrightarrow> live (arData ht ! j) \<Longrightarrow> test (arData ht ! j) \<Longrightarrow>
           b_h (arData ht ! j) = h"
  shows "chain_find test (arData ht) (nTableSize ht) (arHash ht ! hash_slot (nTableMask ht) h) =
     Inr (let j = last_in (\<lambda>j. live (arData ht ! j) \<and> test (arData ht ! j)) (nNumUsed ht)
          in if j = HT_INVALID_IDX then None else Some j)"
proof -
  let ?s = "hash_slot (nTableMask ht) h"
  have sz: "size_ok (nTableSize ht)" and len: "length (arHash ht) = nTableSize ht"
    and m: "nTableMask ht = - of_nat (nTableSize ht)" and d: "length (arData ht) = nTableSize ht"
    and l: "linked ht (nNumUsed ht)"
    using assms(1) by (auto simp: hash_layout_def hash_area_def)
  have s: "?s < length (arHash ht)" using hash_slot_less [OF sz] len m by simp
  have "chain_find test (arData ht) (nTableSize ht) (last_in (in_slot ht ?s) (nNumUsed ht)) =
     Inr (let j = last_in (\<lambda>j. in_slot ht ?s j \<and> test (arData ht ! j)) (nNumUsed ht)
          in if j = HT_INVALID_IDX then None else Some j)"
    using l assms(2) d size_ok_less_invalid [OF sz]
    by (intro chain_find_last_in) (auto simp: linked_def in_slot_def)
  also have "last_in (\<lambda>j. in_slot ht ?s j \<and> test (arData ht ! j)) (nNumUsed ht) =
      last_in (\<lambda>j. live (arData ht ! j) \<and> test (arData ht ! j)) (nNumUsed ht)"
    using assms(3) by (intro last_in_cong) (auto simp: in_slot_def slot_of_def)
  finally show ?thesis using l s by (simp add: linked_def)
qed

text \<open>The position of a key among the used buckets.\<close>

definition key_pos :: "HashTable \<Rightarrow> hkey \<Rightarrow> nat option" where
  "key_pos ht k =
     (let j = last_in (\<lambda>j. live (arData ht ! j) \<and> bkey (arData ht ! j) = k) (nNumUsed ht)
      in if j = HT_INVALID_IDX then None else Some j)"

lemma used_bucket_in_set:
  "i < nNumUsed ht \<Longrightarrow> nNumUsed ht \<le> length (arData ht) \<Longrightarrow> live (arData ht ! i) \<Longrightarrow>
   arData ht ! i \<in> set (ht_buckets ht)"
  by (auto simp: ht_buckets_def in_set_conv_nth intro!: exI [of _ i])

lemma ht_inv_used_le: "ht_inv ht \<Longrightarrow> nNumUsed ht \<le> length (arData ht)"
  by (auto simp: ht_inv_def contents_ok_def uninit_layout_def packed_layout_def hash_layout_def
      hash_area_def split: if_splits)

lemma ht_inv_used_invalid: "ht_inv ht \<Longrightarrow> nNumUsed ht < HT_INVALID_IDX"
  using size_ok_less_invalid by (force simp: ht_inv_def contents_ok_def)

lemma ht_inv_bucket_ok:
  "ht_inv ht \<Longrightarrow> i < nNumUsed ht \<Longrightarrow> live (arData ht ! i) \<Longrightarrow> bucket_ok (arData ht ! i)"
  using used_bucket_in_set ht_inv_used_le by (auto simp: ht_inv_def contents_ok_def)

lemma same_zend_string_iff:
  "bucket_ok p \<Longrightarrow> same_zend_string (zend_string_hash_val s) s p \<longleftrightarrow> bkey p = StrKey (zs_val s)"
  by (cases "b_key p") (auto simp: same_zend_string_def same_bytes_def bucket_ok_def bkey_simps)

lemma same_bytes_iff:
  "bucket_ok p \<Longrightarrow> same_bytes (zend_inline_hash_func str) str p \<longleftrightarrow> bkey p = StrKey str"
  by (cases "b_key p") (auto simp: same_bytes_def bucket_ok_def bkey_simps)

lemma same_index_iff: "same_index h p \<longleftrightarrow> bkey p = IntKey h"
  by (cases "b_key p") (auto simp: same_index_def bkey_simps)

lemma same_bytes_h: "same_bytes h str p \<Longrightarrow> b_h p = h"
  by (simp add: same_bytes_def)

lemma str_key_h: "bucket_ok p \<Longrightarrow> bkey p = StrKey str \<Longrightarrow> b_h p = zend_inline_hash_func str"
  by (cases "b_key p") (auto simp: bucket_ok_def bkey_simps)

lemma same_zend_string_h:
  "bucket_ok p \<Longrightarrow> same_zend_string (zend_string_hash_val s) s p \<Longrightarrow> b_h p = zend_string_hash_val s"
  by (auto simp: same_zend_string_def bucket_ok_def dest: same_bytes_h)

lemma same_index_h: "bkey p = IntKey h \<Longrightarrow> b_h p = h"
  by (cases "b_key p") (auto simp: bkey_simps)

lemma find_bucket_general:
  assumes inv: "ht_inv ht" "\<not> ht_packed ht"
    and h: "\<And>p. bucket_ok p \<Longrightarrow> test p \<Longrightarrow> b_h p = h"
    and key: "\<And>p. bucket_ok p \<Longrightarrow> test p \<longleftrightarrow> bkey p = k"
  shows "chain_find test (arData ht) (nTableSize ht) (arHash ht ! hash_slot (nTableMask ht) h) =
     Inr (key_pos ht k)"
proof (cases "ht_initialized ht")
  case True
  with inv have l: "hash_layout ht" and u: "nNumUsed ht \<le> nTableSize ht"
    by (auto simp: ht_inv_def contents_ok_def)
  have "last_in (\<lambda>j. live (arData ht ! j) \<and> test (arData ht ! j)) (nNumUsed ht) =
      last_in (\<lambda>j. live (arData ht ! j) \<and> bkey (arData ht ! j) = k) (nNumUsed ht)"
    using ht_inv_bucket_ok [OF inv(1)] key by (intro last_in_cong) auto
  with chain_find_hash_layout [OF l u, of test h] h ht_inv_bucket_ok [OF inv(1)]
  show ?thesis by (simp add: key_pos_def)
next
  case False
  with inv have "uninit_layout ht" by (simp add: ht_inv_def)
  then show ?thesis
    using min_mask_slots [of ht h] by (simp add: uninit_layout_def key_pos_def Let_def)
qed

lemma zend_hash_find_bucket_inv:
  assumes "ht_inv ht" "\<not> ht_packed ht"
  shows "zend_hash_find_bucket ht s = Inr (key_pos ht (StrKey (zs_val s)))"
  unfolding zend_hash_find_bucket_def Let_def
  by (rule find_bucket_general [OF assms]) (simp_all add: same_zend_string_iff same_zend_string_h)

lemma zend_hash_str_find_bucket_inv:
  assumes "ht_inv ht" "\<not> ht_packed ht"
  shows "zend_hash_str_find_bucket ht str (zend_inline_hash_func str) = Inr (key_pos ht (StrKey str))"
  unfolding zend_hash_str_find_bucket_def
  by (rule find_bucket_general [OF assms]) (simp_all add: same_bytes_iff str_key_h)

lemma zend_hash_index_find_bucket_inv:
  assumes "ht_inv ht" "\<not> ht_packed ht"
  shows "zend_hash_index_find_bucket ht h = Inr (key_pos ht (IntKey h))"
  unfolding zend_hash_index_find_bucket_def
  by (rule find_bucket_general [OF assms]) (simp_all add: same_index_iff same_index_h)

text \<open>In a packed table the chains are empty and no bucket has a string key.\<close>

lemma chain_find_packed:
  assumes "ht_inv ht" "ht_packed ht"
  shows "chain_find test (arData ht) (nTableSize ht) (arHash ht ! hash_slot (nTableMask ht) h) = Inr None"
proof -
  have "nTableMask ht = HT_MIN_MASK" "arHash ht = [HT_INVALID_IDX, HT_INVALID_IDX]"
    using assms by (auto simp: ht_inv_def packed_layout_def uninit_layout_def split: if_splits)
  then show ?thesis using min_mask_slots [of ht h] by simp
qed

lemma packed_no_string:
  assumes "ht_inv ht" "ht_packed ht"
  shows "key_pos ht (StrKey str) = None"
proof -
  have "last_in (\<lambda>j. live (arData ht ! j) \<and> bkey (arData ht ! j) = StrKey str) (nNumUsed ht) = HT_INVALID_IDX"
    using assms by (intro last_in_None)
      (auto simp: ht_inv_def packed_layout_def uninit_layout_def bkey_simps split: if_splits)
  then show ?thesis by (simp add: key_pos_def Let_def)
qed

lemma packed_index_pos:
  assumes "ht_inv ht" "ht_packed ht"
  shows "key_pos ht (IntKey h) =
     (if unat h < nNumUsed ht \<and> live (arData ht ! unat h) then Some (unat h) else None)"
proof -
  have pk: "packed_layout ht" and sz: "size_ok (nTableSize ht)" "nNumUsed ht \<le> nTableSize ht"
    using assms by (auto simp: ht_inv_def contents_ok_def uninit_layout_def split: if_splits)
  have u: "unat (of_nat i :: zend_ulong) = i" if "i < nNumUsed ht" for i
    using that sz size_ok_bounds [of "nTableSize ht"] by (simp add: unat_of_nat take_bit_nat_eq_self_iff)
  have iff: "live (arData ht ! j) \<and> bkey (arData ht ! j) = IntKey h \<longleftrightarrow> live (arData ht ! j) \<and> j = unat h"
    if "j < nNumUsed ht" for j
    using pk that u [OF that] by (auto simp: packed_layout_def bkey_simps)
  have "last_in (\<lambda>j. live (arData ht ! j) \<and> bkey (arData ht ! j) = IntKey h) (nNumUsed ht) =
     last_in (\<lambda>j. live (arData ht ! j) \<and> j = unat h) (nNumUsed ht)"
    using iff by (intro last_in_cong) auto
  also have "\<dots> = (if unat h < nNumUsed ht \<and> live (arData ht ! unat h) then unat h else HT_INVALID_IDX)"
    by (auto intro: last_in_eqI last_in_None)
  finally show ?thesis
    using size_ok_less_invalid [OF sz(1)] sz(2) by (simp add: key_pos_def)
qed

subsection \<open>Positions and entries\<close>

lemma key_pos_Some:
  assumes "key_pos ht k = Some i"
  shows "i < nNumUsed ht" "live (arData ht ! i)" "bkey (arData ht ! i) = k"
  using assms last_in_less [of "\<lambda>j. live (arData ht ! j) \<and> bkey (arData ht ! j) = k" "nNumUsed ht"]
  by (auto simp: key_pos_def Let_def split: if_splits)

lemma key_pos_None:
  assumes "key_pos ht k = None" "ht_inv ht"
  shows "\<forall>b \<in> set (ht_buckets ht). bkey b \<noteq> k"
proof -
  have "nNumUsed ht \<le> HT_INVALID_IDX" using ht_inv_used_invalid [OF assms(2)] by simp
  with assms(1) have "\<forall>j < nNumUsed ht. \<not> (live (arData ht ! j) \<and> bkey (arData ht ! j) = k)"
    by (auto simp: key_pos_def Let_def last_in_eq_invalid split: if_splits)
  with ht_inv_used_le [OF assms(2)] show ?thesis
    by (auto simp: ht_buckets_def in_set_conv_nth)
qed

lemma keys_entries: "map fst (ht_entries ht) = map bkey (ht_buckets ht)"
  by (simp add: ht_entries_alt comp_def)

lemma ht_inv_distinct: "ht_inv ht \<Longrightarrow> distinct (map fst (ht_entries ht))"
  by (simp add: ht_inv_def contents_ok_def keys_entries)

lemma map_of_entries:
  assumes "ht_inv ht"
  shows "map_of (ht_entries ht) k = map_option (\<lambda>i. b_val (arData ht ! i)) (key_pos ht k)"
proof (cases "key_pos ht k")
  case None
  then have "k \<notin> set (map fst (ht_entries ht))"
    using key_pos_None [OF None assms] by (auto simp: ht_entries_alt)
  then show ?thesis using None by (auto simp: map_of_eq_None_iff)
next
  case (Some i)
  note pos = key_pos_Some [OF Some]
  then have "arData ht ! i \<in> set (ht_buckets ht)"
    using used_bucket_in_set ht_inv_used_le [OF assms] by blast
  with pos(3) have "(k, b_val (arData ht ! i)) \<in> set (ht_entries ht)"
    by (auto simp: ht_entries_alt)
  with Some show ?thesis
    using ht_inv_distinct [OF assms] by (simp add: map_of_eq_Some_iff)
qed

lemma key_pos_unique:
  assumes "ht_inv ht" "i < nNumUsed ht" "live (arData ht ! i)"
  shows "key_pos ht (bkey (arData ht ! i)) = Some i"
proof -
  have d: "distinct (map bkey (filter live (take (nNumUsed ht) (arData ht))))"
    using assms(1) by (simp add: ht_inv_def contents_ok_def ht_buckets_def)
  have uniq: "j = i" if j: "j < nNumUsed ht" "live (arData ht ! j)"
      "bkey (arData ht ! j) = bkey (arData ht ! i)" for j
    using distinct_map_filter_nth [OF d, of j i] j assms ht_inv_used_le [OF assms(1)] by simp
  have "last_in (\<lambda>j. live (arData ht ! j) \<and> bkey (arData ht ! j) = bkey (arData ht ! i)) (nNumUsed ht) = i"
    by (rule last_in_eqI) (use assms uniq in auto)
  then show ?thesis
    using assms ht_inv_used_invalid [OF assms(1)] by (simp add: key_pos_def)
qed

subsection \<open>Linking a bucket at the end\<close>

lemma linked_cong:
  assumes "arHash ht' = arHash ht" "arData ht' = arData ht" "nTableMask ht' = nTableMask ht"
  shows "linked ht' n = linked ht n"
proof -
  have "in_slot ht' = in_slot ht" "slot_of ht' = slot_of ht"
    using assms by (simp_all add: fun_eq_iff in_slot_def slot_of_def)
  with assms show ?thesis by (simp add: linked_def)
qed

lemma linked_push:
  assumes l: "linked ht j" and j: "j < length (arData ht)"
    and s: "s = hash_slot (nTableMask ht) (b_h b)" "s < length (arHash ht)"
    and b: "live b" "b_next b = arHash ht ! s"
    and ht': "arData ht' = (arData ht)[j := b]" "arHash ht' = (arHash ht)[s := j]"
      "nTableMask ht' = nTableMask ht"
  shows "linked ht' (Suc j)"
proof -
  have slot: "slot_of ht' i = (if i = j then s else slot_of ht i)" for i
    using ht' j s by (auto simp: slot_of_def nth_list_update)
  have inslot: "in_slot ht' t i = (if i = j then t = s else in_slot ht t i)" for t i
    using ht' j b slot [of i] by (auto simp: in_slot_def nth_list_update)
  have below: "last_in (in_slot ht' t) i = last_in (in_slot ht t) i" if "i \<le> j" for t i
    using that by (intro last_in_cong) (auto simp: inslot)
  show ?thesis
    unfolding linked_def
  proof (intro conjI allI impI)
    fix t assume "t < length (arHash ht')"
    then show "arHash ht' ! t = last_in (in_slot ht' t) (Suc j)"
      using l ht' s by (auto simp: inslot below linked_def nth_list_update)
  next
    fix i assume i: "i < Suc j" "live (arData ht' ! i)"
    show "b_next (arData ht' ! i) = last_in (in_slot ht' (slot_of ht' i)) i"
    proof (cases "i = j")
      case True
      then show ?thesis using l ht' j b s by (simp add: slot below linked_def)
    next
      case False
      with i have "i < j" "live (arData ht ! i)" using ht' by auto
      then show ?thesis using l ht' False slot [of i] below [of i "slot_of ht i"]
        by (simp add: linked_def)
    qed
  qed
qed

subsection \<open>Rehashing\<close>

text \<open>The fields no internal operation on the block touches.\<close>

definition ht_meta :: "HashTable \<Rightarrow> HashTable" where
  "ht_meta ht = ht\<lparr>arHash := [], arData := [], nNumUsed := 0, nInternalPointer := 0\<rparr>"

lemma ht_metaD:
  assumes "ht_meta a = ht_meta b"
  shows "ht_addr a = ht_addr b" "ht_refcount a = ht_refcount b" "ht_immutable a = ht_immutable b"
    "ht_persistent a = ht_persistent b" "ht_apply_protection a = ht_apply_protection b"
    "ht_packed a = ht_packed b" "ht_initialized a = ht_initialized b"
    "ht_static_keys a = ht_static_keys b" "ht_has_empty_ind a = ht_has_empty_ind b"
    "nApplyCount a = nApplyCount b" "nIteratorsCount a = nIteratorsCount b"
    "nTableMask a = nTableMask b" "nNumOfElements a = nNumOfElements b"
    "nTableSize a = nTableSize b" "nNextFreeElement a = nNextFreeElement b"
    "pDestructor a = pDestructor b"
  using assms by (cases a; cases b; simp add: ht_meta_def)+

lemma ht_meta_simps [simp]:
  "ht_meta (ht\<lparr>arHash := H\<rparr>) = ht_meta ht"
  "ht_meta (ht\<lparr>arData := D\<rparr>) = ht_meta ht"
  "ht_meta (ht\<lparr>nNumUsed := n\<rparr>) = ht_meta ht"
  "ht_meta (ht\<lparr>nInternalPointer := p\<rparr>) = ht_meta ht"
  "ht_meta (HT_HASH_RESET ht) = ht_meta ht"
  by (simp_all add: ht_meta_def HT_HASH_RESET_def)

text \<open>The number of present buckets below an index: where compaction puts the bucket there.\<close>

definition live_rank :: "HashTable \<Rightarrow> nat \<Rightarrow> nat" where
  "live_rank ht p = length (filter live (take p (arData ht)))"

text \<open>The index area is there, whatever it contains.\<close>

definition hash_ready :: "HashTable \<Rightarrow> bool" where
  "hash_ready ht \<longleftrightarrow> hash_area ht \<and> length (arHash ht) = nTableSize ht"

lemma hash_ready_slot: "hash_ready ht \<Longrightarrow> hash_slot (nTableMask ht) h < length (arHash ht)"
  using hash_slot_less [of "nTableSize ht" h] by (simp add: hash_ready_def hash_area_def)

lemma linked_0 [simp]: "linked (HT_HASH_RESET ht) 0"
  by (simp add: linked_def HT_HASH_RESET_def)

lemma hash_ready_reset: "hash_area ht \<Longrightarrow> hash_ready (HT_HASH_RESET ht)"
  by (auto simp: hash_ready_def hash_area_def HT_HASH_RESET_def HT_HASH_SIZE_neg)

lemma rehash_link_eq:
  "rehash_link i ht = ht\<lparr>arData := (arData ht)[i := (arData ht ! i)\<lparr>b_next := arHash ht ! slot_of ht i\<rparr>],
     arHash := (arHash ht)[slot_of ht i := i]\<rparr>"
  by (simp add: rehash_link_def slot_of_def Let_def)

lemma rehash_link_linked:
  assumes "hash_ready ht" "linked ht i" "i < nTableSize ht" "live (arData ht ! i)"
  shows "linked (rehash_link i ht) (Suc i)"
proof (rule linked_push [OF assms(2)])
  show "i < length (arData ht)" using assms by (simp add: hash_ready_def hash_area_def)
  show "slot_of ht i = hash_slot (nTableMask ht) (b_h ((arData ht ! i)\<lparr>b_next := arHash ht ! slot_of ht i\<rparr>))"
    by (simp add: slot_of_def)
  show "slot_of ht i < length (arHash ht)" by (simp add: slot_of_def hash_ready_slot [OF assms(1)])
  show "live ((arData ht ! i)\<lparr>b_next := arHash ht ! slot_of ht i\<rparr>)"
    using assms(4) by (simp add: live_def)
qed (simp_all add: rehash_link_eq)

text \<open>What relinking may change: the links, not the cores.\<close>

definition relinked :: "HashTable \<Rightarrow> HashTable \<Rightarrow> bool" where
  "relinked ht ht' \<longleftrightarrow> (\<exists>D H. ht' = ht\<lparr>arData := D, arHash := H\<rparr> \<and>
     map bucket_core D = map bucket_core (arData ht) \<and> length H = length (arHash ht))"

lemma relinked_refl [simp]: "relinked ht ht"
  unfolding relinked_def by (intro exI [of _ "arData ht"] exI [of _ "arHash ht"]) simp

lemma relinked_trans: "relinked a b \<Longrightarrow> relinked b c \<Longrightarrow> relinked a c"
  unfolding relinked_def by clarsimp (metis HashTable.update_convs(13,14))

lemma relinked_link: "i < length (arData ht) \<Longrightarrow> relinked ht (rehash_link i ht)"
  unfolding relinked_def rehash_link_eq
  by (intro exI conjI, rule refl) (auto simp: map_update bucket_core_def intro!: list_update_same_conv [THEN iffD2])

lemma core_eq_live: "bucket_core a = bucket_core b \<Longrightarrow> live a = live b"
  by (simp add: bucket_core_def live_def)

lemma map_core_nth:
  "map bucket_core D = map bucket_core E \<Longrightarrow> i < length D \<Longrightarrow> bucket_core (D ! i) = bucket_core (E ! i)"
  by (metis length_map nth_map)

lemma map_core_filter:
  "map bucket_core D = map bucket_core E \<Longrightarrow> map bucket_core (filter live D) = map bucket_core (filter live E)"
proof (induction D arbitrary: E)
  case Nil
  then show ?case by simp
next
  case (Cons b D)
  then show ?case by (cases E) (auto dest: core_eq_live)
qed

lemma map_core_take:
  "map bucket_core D = map bucket_core E \<Longrightarrow> map bucket_core (take n D) = map bucket_core (take n E)"
  by (metis take_map)

lemma map_core_drop:
  "map bucket_core D = map bucket_core E \<Longrightarrow> map bucket_core (drop n D) = map bucket_core (drop n E)"
  by (metis drop_map)

lemma relinked_ready: "relinked ht ht' \<Longrightarrow> hash_ready ht \<Longrightarrow> hash_ready ht'"
  unfolding relinked_def hash_ready_def hash_area_def by (auto dest!: map_eq_imp_length_eq)

lemma relinked_live:
  "relinked ht ht' \<Longrightarrow> i < length (arData ht) \<Longrightarrow> live (arData ht' ! i) = live (arData ht ! i)"
  unfolding relinked_def by (auto dest: map_eq_imp_length_eq intro!: core_eq_live map_core_nth)

lemma fold_rehash_link:
  assumes "hash_ready ht" "linked ht 0" "n \<le> nTableSize ht" "\<forall>i<n. live (arData ht ! i)"
  shows "relinked ht (fold rehash_link [0..<n] ht) \<and> linked (fold rehash_link [0..<n] ht) n"
  using assms(3,4)
proof (induction n)
  case 0
  then show ?case using assms(2) by simp
next
  case (Suc n)
  let ?h = "fold rehash_link [0..<n] ht"
  have IH: "relinked ht ?h" "linked ?h n" using Suc by auto
  have n: "n < length (arData ht)" using Suc.prems assms(1) by (simp add: hash_ready_def hash_area_def)
  have "hash_ready ?h" by (rule relinked_ready [OF IH(1) assms(1)])
  moreover from this have "n < length (arData ?h)" "n < nTableSize ?h"
    using n IH(1) by (auto simp: relinked_def dest: map_eq_imp_length_eq)
      (use Suc.prems in simp)
  moreover have "live (arData ?h ! n)" using relinked_live [OF IH(1) n] Suc.prems by simp
  ultimately show ?case
    using IH relinked_trans [OF IH(1) relinked_link] rehash_link_linked by simp
qed

text \<open>
  Compaction from index \<open>i\<close> into place \<open>j\<close>: the first \<open>j\<close> buckets are in place and linked.
\<close>

definition compact_ptr :: "HashTable \<Rightarrow> nat \<Rightarrow> nat \<Rightarrow> nat \<Rightarrow> nat" where
  "compact_ptr ht i j n =
     (if nInternalPointer ht \<in> {i..<n}
      then j + length (filter live (drop i (take (nInternalPointer ht) (arData ht))))
      else nInternalPointer ht)"

definition compacted :: "HashTable \<Rightarrow> HashTable \<Rightarrow> nat \<Rightarrow> nat \<Rightarrow> nat \<Rightarrow> nat \<Rightarrow> bool" where
  "compacted ht ht' i j j' n \<longleftrightarrow>
     ht_meta ht' = ht_meta ht \<and> nInternalPointer ht' = compact_ptr ht i j n \<and>
     hash_ready ht' \<and> linked ht' j' \<and> j' \<le> n \<and>
     map bucket_core (take j' (arData ht')) =
       map bucket_core (take j (arData ht) @ filter live (drop i (take n (arData ht))))"

lemma rehash_compact_spec:
  assumes "rehash_compact [i..<n] j ip (w, ht) = (j', w', ht')"
    and "hash_ready ht" "linked ht j" "j < i" "i \<le> n" "n \<le> nTableSize ht"
    and "nInternalPointer ht \<notin> {i..<n} \<or> live (arData ht ! nInternalPointer ht)"
  shows "compacted ht ht' i j j' n"
  using assms
proof (induction "n - i" arbitrary: i j ip w ht)
  case 0
  then have "[i..<n] = []" by simp
  with 0 show ?case by (auto simp: compacted_def compact_ptr_def)
next
  case (Suc m)
  then have i: "i < n" by simp
  then have upt: "[i..<n] = i # [Suc i..<n]" by (rule upt_conv_Cons)
  have len: "length (arData ht) = nTableSize ht" using Suc.prems(2) by (simp add: hash_ready_def hash_area_def)
  have dropi: "drop i (take n (arData ht)) = arData ht ! i # drop (Suc i) (take n (arData ht))"
    using drop_take_Cons [of i n "arData ht"] i Suc.prems len by simp
  show ?case
  proof (cases "b_val (arData ht ! i) = IS_UNDEF")
    case True
    then have "rehash_compact [Suc i..<n] j ip (w, ht) = (j', w', ht')"
      using Suc.prems(1) by (simp add: upt)
    moreover have ptr: "nInternalPointer ht \<noteq> i"
      using Suc.prems(7) True i by (auto simp: live_def)
    ultimately have ih: "compacted ht ht' (Suc i) j j' n"
      using Suc.hyps(1) [of "Suc i" j ip w ht] Suc.hyps(2) Suc.prems i by auto
    have dead: "\<not> live (arData ht ! i)" using True by (simp add: live_def)
    have dropp: "filter live (drop i (take (nInternalPointer ht) (arData ht))) =
        filter live (drop (Suc i) (take (nInternalPointer ht) (arData ht)))"
      if "i < nInternalPointer ht" "nInternalPointer ht < n"
      using drop_take_Cons [of i "nInternalPointer ht" "arData ht"] that Suc.prems(6) len dead by simp
    have "compact_ptr ht (Suc i) j n = compact_ptr ht i j n"
      using dropp ptr by (auto simp: compact_ptr_def)
    then show ?thesis
      using ih dropi dead by (simp add: compacted_def)
  next
    case False
    define nIndex where "nIndex = slot_of ht i"
    define ht1 where "ht1 = ht\<lparr>arData := (arData ht)[j := (arData ht ! j)\<lparr>b_val := b_val (arData ht ! i),
        b_h := b_h (arData ht ! i), b_key := b_key (arData ht ! i), b_next := arHash ht ! nIndex\<rparr>],
        arHash := (arHash ht)[nIndex := j]\<rparr>"
    define ht2 where "ht2 = (if nInternalPointer ht = i then ht1\<lparr>nInternalPointer := j\<rparr> else ht1)"
    obtain ip2 w2 where rec: "rehash_compact [Suc i..<n] (Suc j) ip2 (w2, ht2) = (j', w', ht')"
      using Suc.prems(1) False
      by (auto simp: upt Let_def slot_of_def [symmetric] nIndex_def [symmetric] ht1_def ht2_def
          split: prod.splits if_splits)
    have j: "j < length (arData ht)" using Suc.prems len i by simp
    have ready1: "hash_ready ht1" using Suc.prems(2) by (simp add: ht1_def hash_ready_def hash_area_def)
    have ready2: "hash_ready ht2"
      using ready1 by (auto simp: ht2_def hash_ready_def hash_area_def)
    have linked1: "linked ht1 (Suc j)"
    proof (rule linked_push [OF Suc.prems(3) j])
      show "nIndex = hash_slot (nTableMask ht) (b_h ((arData ht ! j)\<lparr>b_val := b_val (arData ht ! i),
        b_h := b_h (arData ht ! i), b_key := b_key (arData ht ! i), b_next := arHash ht ! nIndex\<rparr>))"
        by (simp add: nIndex_def slot_of_def)
      show "nIndex < length (arHash ht)"
        using hash_ready_slot [OF Suc.prems(2)] by (simp add: nIndex_def slot_of_def)
    qed (use False in \<open>simp_all add: ht1_def live_def\<close>)
    have linked2: "linked ht2 (Suc j)"
      using linked1 by (auto simp: ht2_def elim!: linked_cong [THEN iffD2, rotated -1])
    have same: "nTableSize ht2 = nTableSize ht" "arData ht2 = arData ht1" by (simp_all add: ht2_def ht1_def)
    have dropD: "drop (Suc i) (take k (arData ht2)) = drop (Suc i) (take k (arData ht))" for k
      using Suc.prems(4) by (simp add: same ht1_def drop_take)
    have nthD: "arData ht2 ! k = arData ht ! k" if "j < k" for k
      using that by (simp add: same ht1_def)
    have ptr2: "nInternalPointer ht2 = (if nInternalPointer ht = i then j else nInternalPointer ht)"
      by (simp add: ht2_def ht1_def)
    have live2: "nInternalPointer ht2 \<notin> {Suc i..<n} \<or> live (arData ht2 ! nInternalPointer ht2)"
      using Suc.prems(4,7) nthD by (auto simp: ptr2)
    from Suc.hyps(1) [OF _ rec ready2 linked2] have ih: "compacted ht2 ht' (Suc i) (Suc j) j' n"
      using Suc.hyps(2) Suc.prems i live2 same by auto
    have lv: "live (arData ht ! i)" using False by (simp add: live_def)
    have core: "map bucket_core (take (Suc j) (arData ht2)) =
        map bucket_core (take j (arData ht)) @ [bucket_core (arData ht ! i)]"
      using j by (simp add: same ht1_def take_Suc_conv_app_nth bucket_core_def)
    have ptr: "compact_ptr ht2 (Suc i) (Suc j) n = compact_ptr ht i j n"
    proof (cases "i < nInternalPointer ht \<and> nInternalPointer ht < n")
      case True
      then have "drop i (take (nInternalPointer ht) (arData ht)) =
          arData ht ! i # drop (Suc i) (take (nInternalPointer ht) (arData ht))"
        using drop_take_Cons [of i "nInternalPointer ht" "arData ht"] Suc.prems(6) len by simp
      with True lv show ?thesis by (simp add: compact_ptr_def ptr2 dropD)
    next
      case False
      with i Suc.prems(4) show ?thesis by (auto simp: compact_ptr_def ptr2 not_less_eq_eq)
    qed
    have "ht_meta ht2 = ht_meta ht" by (simp add: ht2_def ht1_def)
    then show ?thesis
      using ih core lv by (simp add: compacted_def dropi dropD ptr)
  qed
qed

text \<open>
  The result of a rehash: the present buckets in order at the front, the chains rebuilt over
  them, and the internal pointer at the new place of its bucket.
\<close>

definition rehashed :: "HashTable \<Rightarrow> HashTable \<Rightarrow> bool" where
  "rehashed ht ht' \<longleftrightarrow>
     ht_meta ht' = ht_meta ht \<and> nNumUsed ht' = length (ht_buckets ht) \<and>
     nInternalPointer ht' =
       (if nInternalPointer ht < nNumUsed ht then live_rank ht (nInternalPointer ht)
        else nInternalPointer ht) \<and>
     hash_ready ht' \<and> linked ht' (nNumUsed ht') \<and>
     map bucket_core (take (nNumUsed ht') (arData ht')) = ht_cores ht"

lemma filter_live_all: "\<forall>k < length xs. live (xs ! k) \<Longrightarrow> filter live xs = xs"
  by (auto simp: in_set_conv_nth intro!: filter_True)

lemma relinked_contents:
  assumes "relinked a b"
  shows "ht_cores b = ht_cores a" "live_rank b p = live_rank a p"
    "length (ht_buckets b) = length (ht_buckets a)"
proof -
  have e: "map bucket_core (filter live (take n (arData b))) = map bucket_core (filter live (take n (arData a)))"
    and u: "nNumUsed b = nNumUsed a" for n
    using assms by (auto simp: relinked_def intro!: map_core_filter map_core_take)
  from e u show "ht_cores b = ht_cores a" by (simp add: ht_cores_def ht_buckets_def)
  from map_eq_imp_length_eq [OF e] show "live_rank b p = live_rank a p"
    by (simp add: live_rank_def)
  from map_eq_imp_length_eq [OF e] show "length (ht_buckets b) = length (ht_buckets a)"
    by (simp add: ht_buckets_def u)
qed

lemma rehashed_relinked: "relinked a b \<Longrightarrow> rehashed b c \<Longrightarrow> rehashed a c"
  using relinked_contents [of a b] unfolding rehashed_def by (auto simp: relinked_def)

lemma rehash_holes_spec:
  assumes "rehash_holes [i..<nNumUsed ht] (w, ht) = (w', ht')"
    and "hash_ready ht" "linked ht i" "i \<le> nNumUsed ht" "nNumUsed ht \<le> nTableSize ht"
    and "\<forall>k<i. live (arData ht ! k)"
    and "nInternalPointer ht < nNumUsed ht \<longrightarrow> live (arData ht ! nInternalPointer ht)"
  shows "rehashed ht ht'"
  using assms
proof (induction "nNumUsed ht - i" arbitrary: i ht)
  case 0
  have len: "length (arData ht) = nTableSize ht" using 0 by (simp add: hash_ready_def hash_area_def)
  have i: "i = nNumUsed ht" using 0 by simp
  have all: "filter live (take k (arData ht)) = take k (arData ht)" if "k \<le> i" for k
    using 0(7) that by (intro filter_live_all) simp
  have "ht' = ht" using 0 by simp
  then show ?case
    using 0 all [of i] all [of "nInternalPointer ht"] len i
    by (auto simp: rehashed_def ht_buckets_def ht_cores_def live_rank_def)
next
  case (Suc m)
  let ?n = "nNumUsed ht"
  have i: "i < ?n" using Suc.hyps(2) by simp
  have len: "length (arData ht) = nTableSize ht" using Suc.prems by (simp add: hash_ready_def hash_area_def)
  have upt: "[i..<?n] = i # [Suc i..<?n]" using i by (rule upt_conv_Cons)
  show ?case
  proof (cases "b_val (arData ht ! i) = IS_UNDEF")
    case True
    then obtain ip j ht1 where c: "rehash_compact [Suc i..<?n] i ip (w, ht) = (j, w', ht1)"
      and ht': "ht' = ht1\<lparr>nNumUsed := j\<rparr>"
      using Suc.prems(1) by (auto simp: upt Let_def split: prod.splits)
    have ptr: "nInternalPointer ht \<noteq> i" using True i Suc.prems(7) by (auto simp: live_def)
    have comp: "compacted ht ht1 (Suc i) i j ?n"
      by (rule rehash_compact_spec [OF c]) (use Suc.prems i in auto)
    have dead: "\<not> live (arData ht ! i)" using True by (simp add: live_def)
    have all: "filter live (take k (arData ht)) = take k (arData ht)" if "k \<le> i" for k
      using Suc.prems(6) that by (intro filter_live_all) simp
    have split: "filter live (take k (arData ht)) =
        take i (arData ht) @ filter live (drop (Suc i) (take k (arData ht)))" if "i < k" "k \<le> ?n" for k
    proof -
      have "take k (arData ht) = take i (arData ht) @ drop i (take k (arData ht))"
        using that by (metis append_take_drop_id less_or_eq_imp_le min.absorb1 take_take)
      also have "drop i (take k (arData ht)) = arData ht ! i # drop (Suc i) (take k (arData ht))"
        using that Suc.prems(5) len by (intro drop_take_Cons) auto
      finally have "filter live (take k (arData ht)) =
          filter live (take i (arData ht) @ arData ht ! i # drop (Suc i) (take k (arData ht)))"
        by (rule arg_cong)
      then show ?thesis by (simp only: filter_append filter.simps dead all [of i] order_refl if_False)
    qed
    have cores: "map bucket_core (take j (arData ht1)) = ht_cores ht"
      using comp split [of ?n] i by (simp add: compacted_def ht_cores_def ht_buckets_def)
    moreover have "j \<le> length (arData ht1)"
      using comp Suc.prems(5) by (auto simp: compacted_def hash_ready_def hash_area_def dest: ht_metaD)
    ultimately have j: "j = length (ht_buckets ht)"
      by (metis ht_cores_def length_map length_take min.absorb2)
    have p: "compact_ptr ht (Suc i) i ?n =
        (if nInternalPointer ht < ?n then live_rank ht (nInternalPointer ht) else nInternalPointer ht)"
    proof (cases "nInternalPointer ht < ?n \<and> i < nInternalPointer ht")
      case True
      with split [of "nInternalPointer ht"] len Suc.prems i show ?thesis
        by (simp add: compact_ptr_def live_rank_def)
    next
      case False
      with all [of "nInternalPointer ht"] ptr len Suc.prems i show ?thesis
        by (auto simp: compact_ptr_def live_rank_def)
    qed
    have "linked ht' j"
      using comp by (auto simp: compacted_def ht' elim!: linked_cong [THEN iffD2, rotated -1])
    moreover have "hash_ready ht'" using comp by (auto simp: compacted_def ht' hash_ready_def hash_area_def)
    ultimately show ?thesis using cores p j ht' comp by (simp add: rehashed_def compacted_def)
  next
    case False
    let ?h = "rehash_link i ht"
    have rel: "relinked ht ?h" using i Suc.prems len by (intro relinked_link) simp
    have lv: "live (arData ht ! i)" using False by (simp add: live_def)
    have same: "nNumUsed ?h = ?n" "nInternalPointer ?h = nInternalPointer ht" "nTableSize ?h = nTableSize ht"
      by (simp_all add: rehash_link_eq)
    have lives: "live (arData ?h ! k) = live (arData ht ! k)" if "k < ?n" for k
      using relinked_live [OF rel] that Suc.prems len by simp
    have "rehashed ?h ht'"
    proof (rule Suc.hyps(1))
      show "rehash_holes [Suc i..<nNumUsed ?h] (w, ?h) = (w', ht')"
        using Suc.prems(1) False by (simp add: upt same)
      show "linked ?h (Suc i)" by (rule rehash_link_linked) (use Suc.prems i lv in auto)
    qed (use Suc.hyps(2) Suc.prems i lives lv same relinked_ready [OF rel] in \<open>auto simp: less_Suc_eq\<close>)
    then show ?thesis by (rule rehashed_relinked [OF rel])
  qed
qed

lemma zend_hash_rehash_spec:
  assumes "hash_area ht" "ht_initialized ht" "nNumUsed ht \<le> nTableSize ht"
    and "nNumOfElements ht = length (ht_buckets ht)" "pointer_ok ht"
    and "zend_hash_rehash w ht = (w', ht')"
  shows "rehashed ht ht'"
proof -
  let ?r = "HT_HASH_RESET ht"
  have ready: "hash_ready ?r" by (rule hash_ready_reset [OF assms(1)])
  have len: "length (arData ht) = nTableSize ht" using assms(1) by (simp add: hash_area_def)
  have reset: "rehashed ?r ht' \<Longrightarrow> rehashed ht ht'"
    by (auto simp: rehashed_def ht_buckets_def ht_cores_def live_rank_def HT_HASH_RESET_def)
  have ptr: "nInternalPointer ht < nNumUsed ht \<longrightarrow> live (arData ht ! nInternalPointer ht)"
    using assms(3,5) size_ok_less_invalid assms(1) by (force simp: pointer_ok_def hash_area_def)
  consider (empty) "nNumOfElements ht = 0"
    | (full) "nNumOfElements ht \<noteq> 0" "nNumUsed ht = nNumOfElements ht"
    | (holes) "nNumOfElements ht \<noteq> 0" "nNumUsed ht \<noteq> nNumOfElements ht"
    by blast
  then show ?thesis
  proof cases
    case empty
    with assms have "ht' = HT_HASH_RESET (ht\<lparr>nNumUsed := 0\<rparr>)" by (simp add: zend_hash_rehash_def)
    moreover have none: "ht_buckets ht = []" using empty assms(4) by simp
    moreover have "nInternalPointer ht \<ge> nNumUsed ht"
    proof (rule ccontr)
      assume "\<not> ?thesis"
      with ptr used_bucket_in_set [of "nInternalPointer ht" ht] assms(3) len none show False by simp
    qed
    moreover have "hash_ready (HT_HASH_RESET (ht\<lparr>nNumUsed := 0\<rparr>))"
      using assms(1) by (intro hash_ready_reset) (simp add: hash_area_def)
    ultimately show ?thesis
      by (auto simp: rehashed_def ht_cores_def HT_HASH_RESET_def linked_def)
  next
    case full
    then have "ht' = fold rehash_link [0..<nNumUsed ht] ?r"
      using assms(6) by (simp add: zend_hash_rehash_def Let_def HT_HASH_RESET_def)
    have used: "length (ht_buckets ht) = nNumUsed ht" by (rule trans [OF full(2) assms(4), symmetric])
    then have "length (filter live (take (nNumUsed ht) (arData ht))) = length (take (nNumUsed ht) (arData ht))"
      using assms(3) len by (simp add: ht_buckets_def)
    then have "\<forall>b \<in> set (take (nNumUsed ht) (arData ht)). live b"
      by (simp only: length_filter_eq_iff)
    then have lives: "\<forall>k<nNumUsed ht. live (arData ht ! k)"
      using assms(3) len by (simp add: all_set_conv_all_nth)
    have all: "filter live (take k (arData ht)) = take k (arData ht)" if "k \<le> nNumUsed ht" for k
      using lives that by (intro filter_live_all) simp
    from fold_rehash_link [OF ready linked_0, of "nNumUsed ht"] lives assms(3)
    have rel: "relinked ?r ht'" and lk: "linked ht' (nNumUsed ht)"
      unfolding \<open>ht' = _\<close> by (simp_all add: HT_HASH_RESET_def)
    from rel have "map bucket_core (take (nNumUsed ht) (arData ht')) = map bucket_core (take (nNumUsed ht) (arData ht))"
      by (auto simp: relinked_def HT_HASH_RESET_def intro: map_core_take)
    with rel lk have "rehashed ?r ht'"
      using relinked_ready [OF rel ready] all [of "nNumUsed ht"] all [of "nInternalPointer ht"] assms(3) len
      by (auto simp: rehashed_def relinked_def HT_HASH_RESET_def ht_cores_def ht_buckets_def live_rank_def)
    then show ?thesis by (rule reset)
  next
    case holes
    then have "rehash_holes [0..<nNumUsed ?r] (w, ?r) = (w', ht')"
      using assms(6) by (simp add: zend_hash_rehash_def Let_def HT_HASH_RESET_def)
    then have "rehashed ?r ht'"
      by (rule rehash_holes_spec [OF _ ready linked_0]) (use assms(3) ptr in \<open>auto simp: HT_HASH_RESET_def\<close>)
    then show ?thesis by (rule reset)
  qed
qed

subsection \<open>Reorganising a table keeps its contents\<close>

text \<open>
  The fields that no reorganisation changes, and the place of the internal pointer as an index
  into the list of entries.
\<close>

definition ht_frame :: "HashTable \<Rightarrow> HashTable" where
  "ht_frame ht = ht\<lparr>ht_packed := False, nTableMask := 0, arHash := [], arData := [],
     nNumUsed := 0, nTableSize := 0, nInternalPointer := 0\<rparr>"

definition cursor :: "HashTable \<Rightarrow> nat option" where
  "cursor ht = (if nInternalPointer ht < nNumUsed ht then Some (live_rank ht (nInternalPointer ht))
                else None)"

definition reorganised :: "HashTable \<Rightarrow> HashTable \<Rightarrow> bool" where
  "reorganised ht ht' \<longleftrightarrow>
     ht_frame ht' = ht_frame ht \<and> ht_cores ht' = ht_cores ht \<and> cursor ht' = cursor ht"

lemma ht_frameD:
  assumes "ht_frame a = ht_frame b"
  shows "ht_addr a = ht_addr b" "ht_refcount a = ht_refcount b" "ht_immutable a = ht_immutable b"
    "ht_persistent a = ht_persistent b" "ht_apply_protection a = ht_apply_protection b"
    "ht_initialized a = ht_initialized b"
    "ht_static_keys a = ht_static_keys b" "ht_has_empty_ind a = ht_has_empty_ind b"
    "nApplyCount a = nApplyCount b" "nIteratorsCount a = nIteratorsCount b"
    "nNumOfElements a = nNumOfElements b"
    "nNextFreeElement a = nNextFreeElement b" "pDestructor a = pDestructor b"
  using assms by (cases a; cases b; simp add: ht_frame_def)+

lemma ht_meta_frame: "ht_meta a = ht_meta b \<Longrightarrow> ht_frame a = ht_frame b"
  by (cases a; cases b) (simp add: ht_meta_def ht_frame_def)

lemma reorganised_refl [simp]: "reorganised ht ht"
  by (simp add: reorganised_def)

lemma reorganised_trans: "reorganised a b \<Longrightarrow> reorganised b c \<Longrightarrow> reorganised a c"
  by (simp add: reorganised_def)

lemma reorganised_entries: "reorganised ht ht' \<Longrightarrow> ht_entries ht' = ht_entries ht"
  by (simp add: reorganised_def ht_entries_def)

lemma contents_ok_cong:
  assumes ok: "contents_ok ht" and fr: "ht_frame ht' = ht_frame ht" and c: "ht_cores ht' = ht_cores ht"
    and sz: "size_ok (nTableSize ht')" "nNumUsed ht' \<le> nTableSize ht'" "pointer_ok ht'"
  shows "contents_ok ht'"
proof -
  note f = ht_frameD [OF fr]
  have m: "map bucket_core (ht_buckets ht') = map bucket_core (ht_buckets ht)"
    using c by (simp add: ht_cores_def)
  have keys: "map bkey (ht_buckets ht') = map bkey (ht_buckets ht)"
    using arg_cong [OF m, of "map (fst \<circ> core_entry)"] by (simp add: comp_def)
  have len: "length (ht_buckets ht') = length (ht_buckets ht)" by (rule map_eq_imp_length_eq [OF m])
  have bok: "(\<forall>b \<in> set (ht_buckets ht'). bucket_ok b) = (\<forall>b \<in> set (ht_buckets ht). bucket_ok b)"
    by (rule map_eq_ball [OF m]) (auto simp: bucket_core_def bucket_ok_def split: option.split)
  have st: "(\<forall>b \<in> set (ht_buckets ht'). \<forall>s. b_key b = Some s \<longrightarrow> zs_interned s) =
      (\<forall>b \<in> set (ht_buckets ht). \<forall>s. b_key b = Some s \<longrightarrow> zs_interned s)"
    by (rule map_eq_ball [OF m]) (auto simp: bucket_core_def)
  have nf: "(\<forall>b \<in> set (ht_buckets ht'). b_key b = None \<longrightarrow>
        sint (b_h b) < sint (nNextFreeElement ht) \<or> nNextFreeElement ht = ZEND_LONG_MAX) =
      (\<forall>b \<in> set (ht_buckets ht). b_key b = None \<longrightarrow>
        sint (b_h b) < sint (nNextFreeElement ht) \<or> nNextFreeElement ht = ZEND_LONG_MAX)"
    by (rule map_eq_ball [OF m]) (auto simp: bucket_core_def)
  show ?thesis
    using ok sz keys len bok st nf f by (simp add: contents_ok_def next_free_ok_def)
qed

lemma rehashed_lives:
  assumes "rehashed ht ht'" "k < nNumUsed ht'"
  shows "live (arData ht' ! k)" "k < length (arData ht')"
proof -
  have m: "map bucket_core (take (nNumUsed ht') (arData ht')) = ht_cores ht"
    and n: "nNumUsed ht' = length (ht_buckets ht)"
    using assms(1) by (auto simp: rehashed_def)
  then have len: "length (take (nNumUsed ht') (arData ht')) = nNumUsed ht'"
    by (metis ht_cores_def length_map)
  then show k: "k < length (arData ht')" using assms(2) by simp
  have "(\<forall>b \<in> set (take (nNumUsed ht') (arData ht')). live b) = (\<forall>b \<in> set (ht_buckets ht). live b)"
    using m unfolding ht_cores_def by (rule map_eq_ball) (auto dest: core_eq_live)
  then show "live (arData ht' ! k)"
    using assms(2) k len by (auto simp: ht_buckets_def all_set_conv_all_nth)
qed

lemma rehashed_buckets:
  assumes "rehashed ht ht'"
  shows "ht_buckets ht' = take (nNumUsed ht') (arData ht')" "ht_cores ht' = ht_cores ht"
    "p < nNumUsed ht' \<Longrightarrow> live_rank ht' p = p"
proof -
  show 1: "ht_buckets ht' = take (nNumUsed ht') (arData ht')"
    unfolding ht_buckets_def using rehashed_lives [OF assms] by (intro filter_live_all) simp
  show "ht_cores ht' = ht_cores ht"
    unfolding ht_cores_def [of ht'] 1 using assms by (auto simp only: rehashed_def)
  show "live_rank ht' p = p" if "p < nNumUsed ht'"
  proof -
    have "filter live (take p (arData ht')) = take p (arData ht')"
      using rehashed_lives [OF assms] that by (intro filter_live_all) auto
    then show ?thesis using rehashed_lives(2) [OF assms that] by (simp add: live_rank_def)
  qed
qed

lemma live_rank_less:
  assumes "p < nNumUsed ht" "nNumUsed ht \<le> length (arData ht)" "live (arData ht ! p)"
  shows "live_rank ht p < length (ht_buckets ht)"
proof -
  have "take (nNumUsed ht) (arData ht) = take p (arData ht) @ drop p (take (nNumUsed ht) (arData ht))"
    using assms by (metis append_take_drop_id less_or_eq_imp_le min.absorb1 take_take)
  moreover have "drop p (take (nNumUsed ht) (arData ht)) =
      arData ht ! p # drop (Suc p) (take (nNumUsed ht) (arData ht))"
    using assms by (intro drop_take_Cons)
  ultimately have "ht_buckets ht = filter live (take p (arData ht)) @
      arData ht ! p # filter live (drop (Suc p) (take (nNumUsed ht) (arData ht)))"
    using assms(3) unfolding ht_buckets_def by (metis filter.simps(2) filter_append)
  then show ?thesis by (simp add: live_rank_def)
qed

text \<open>
  A rehash of a table whose buckets are in order gives a table that satisfies the invariant.
\<close>

lemma rehashed_inv:
  assumes r: "rehashed ht ht'" and ok: "contents_ok ht" and i: "ht_initialized ht" "\<not> ht_packed ht"
    and len: "nNumUsed ht \<le> length (arData ht)"
  shows "ht_inv ht'" "reorganised ht ht'" "\<not> ht_packed ht'" "nNumUsed ht' = nNumOfElements ht"
    "nTableSize ht' = nTableSize ht"
proof -
  have meta: "ht_meta ht' = ht_meta ht" and used: "nNumUsed ht' = length (ht_buckets ht)"
    and ptr: "nInternalPointer ht' = (if nInternalPointer ht < nNumUsed ht
        then live_rank ht (nInternalPointer ht) else nInternalPointer ht)"
    using r by (auto simp: rehashed_def)
  note f = ht_metaD [OF meta]
  note b = rehashed_buckets [OF r]
  have le: "length (ht_buckets ht) \<le> nNumUsed ht"
    using length_filter_le [of live "take (nNumUsed ht) (arData ht)"]
    by (simp add: ht_buckets_def)
  have sz: "size_ok (nTableSize ht)" "nNumUsed ht \<le> nTableSize ht" and pok: "pointer_ok ht"
    using ok by (auto simp: contents_ok_def)
  have inv: "nInternalPointer ht \<ge> nNumUsed ht \<Longrightarrow> nInternalPointer ht = HT_INVALID_IDX"
    using pok by (auto simp: pointer_ok_def)
  have nlt: "\<not> HT_INVALID_IDX < nNumUsed ht" "\<not> HT_INVALID_IDX < length (ht_buckets ht)"
    using sz size_ok_less_invalid [OF sz(1)] le by auto
  have pok': "pointer_ok ht'" and cur: "cursor ht' = cursor ht"
  proof -
    have "pointer_ok ht' \<and> cursor ht' = cursor ht"
    proof (cases "nInternalPointer ht < nNumUsed ht")
      case True
      then have lv: "live (arData ht ! nInternalPointer ht)" using pok nlt by (auto simp: pointer_ok_def)
      have "nInternalPointer ht' < nNumUsed ht'"
        using live_rank_less [OF True len lv] True by (simp add: ptr used)
      with rehashed_lives(1) [OF r] b(3) True show ?thesis by (simp add: pointer_ok_def cursor_def ptr)
    next
      case False
      then have "nInternalPointer ht = HT_INVALID_IDX" using inv by simp
      then have "nInternalPointer ht' = HT_INVALID_IDX" using ptr nlt by simp
      with \<open>nInternalPointer ht = HT_INVALID_IDX\<close> nlt show ?thesis
        by (simp add: pointer_ok_def cursor_def used)
    qed
    then show "pointer_ok ht'" "cursor ht' = cursor ht" by auto
  qed
  show reo: "reorganised ht ht'"
    using ht_meta_frame [OF meta] b(2) cur by (simp add: reorganised_def)
  have sz': "size_ok (nTableSize ht')" "nNumUsed ht' \<le> nTableSize ht'"
    using sz le used f(14) by simp_all
  have "contents_ok ht'"
    by (rule contents_ok_cong [OF ok ht_meta_frame [OF meta] b(2) sz' pok'])
  moreover have "hash_layout ht'" using r by (auto simp: rehashed_def hash_layout_def hash_ready_def)
  ultimately show "ht_inv ht'" using f i by (simp add: ht_inv_def)
  show "\<not> ht_packed ht'" using f i by simp
  show "nNumUsed ht' = nNumOfElements ht" using used ok by (simp add: contents_ok_def)
  show "nTableSize ht' = nTableSize ht" using f by simp
qed

subsection \<open>Growing and changing the layout\<close>

text \<open>Copying the used buckets into a new block keeps them.\<close>

lemma copy_used_buckets:
  assumes "nNumUsed ht \<le> length D" "nNumUsed ht \<le> length (arData ht)"
  shows "take (nNumUsed ht) (arData (copy_used D ht)) = take (nNumUsed ht) D"
    "length (arData (copy_used D ht)) = length (arData ht)"
  using assms by (simp_all add: copy_used_def)

text \<open>
  A new block of a given size with the used buckets of \<open>ht\<close> in it, before it is rehashed.
\<close>

definition moved :: "HashTable \<Rightarrow> nat \<Rightarrow> HashTable" where
  "moved ht n = copy_used (arData ht)
     (HT_ALLOC (ht\<lparr>ht_packed := False, nTableSize := n, nTableMask := - of_nat n\<rparr>))"

lemma moved_simps [simp]:
  "nNumUsed (moved ht n) = nNumUsed ht" "nTableSize (moved ht n) = n"
  "nInternalPointer (moved ht n) = nInternalPointer ht" "ht_initialized (moved ht n) = ht_initialized ht"
  "\<not> ht_packed (moved ht n)" "ht_frame (moved ht n) = ht_frame ht"
  "nNumOfElements (moved ht n) = nNumOfElements ht"
  by (simp_all add: moved_def copy_used_def HT_ALLOC_def ht_frame_def)

lemma moved_take:
  assumes "nNumUsed ht \<le> n" "nNumUsed ht \<le> length (arData ht)" "k \<le> nNumUsed ht"
  shows "take k (arData (moved ht n)) = take k (arData ht)"
  using assms by (simp add: moved_def copy_used_def HT_ALLOC_def)

lemma moved_nth:
  assumes "nNumUsed ht \<le> n" "nNumUsed ht \<le> length (arData ht)" "k < nNumUsed ht"
  shows "arData (moved ht n) ! k = arData ht ! k"
  using assms by (simp add: moved_def copy_used_def HT_ALLOC_def nth_append)

lemma moved_rehash:
  assumes ok: "contents_ok ht" and i: "ht_initialized ht" and len: "nNumUsed ht \<le> length (arData ht)"
    and n: "size_ok n" "nNumUsed ht \<le> n"
    and r: "zend_hash_rehash w (moved ht n) = (w', ht')"
  shows "ht_inv ht'" "reorganised ht ht'" "\<not> ht_packed ht'" "nNumUsed ht' = nNumOfElements ht"
    "nTableSize ht' = n"
proof -
  let ?m = "moved ht n"
  have area: "hash_area ?m"
    using n len by (auto simp: hash_area_def moved_def copy_used_def HT_ALLOC_def)
  have b: "ht_buckets ?m = ht_buckets ht" using moved_take [OF n(2) len] by (simp add: ht_buckets_def)
  have rank: "live_rank ?m p = live_rank ht p" if "p \<le> nNumUsed ht" for p
    using moved_take [OF n(2) len that] by (simp add: live_rank_def)
  have ptr: "pointer_ok ?m"
    using ok moved_nth [OF n(2) len] by (auto simp: contents_ok_def pointer_ok_def)
  have reo: "reorganised ht ?m"
    using b rank by (simp add: reorganised_def ht_cores_def cursor_def)
  have ok': "contents_ok ?m"
    by (rule contents_ok_cong [OF ok]) (use reo n ptr in \<open>simp_all add: reorganised_def\<close>)
  have re: "rehashed ?m ht'"
    by (rule zend_hash_rehash_spec [OF area _ _ _ ptr r]) (use ok' i n in \<open>simp_all add: contents_ok_def\<close>)
  have len': "nNumUsed ?m \<le> length (arData ?m)" using area n by (simp add: hash_area_def)
  note inv = rehashed_inv [OF re ok' _ _ len']
  show "ht_inv ht'" "\<not> ht_packed ht'" "nNumUsed ht' = nNumOfElements ht" "nTableSize ht' = n"
    using inv i by simp_all
  show "reorganised ht ht'" using reorganised_trans [OF reo inv(2)] i by simp
qed

lemma moved_unpacked:
  "\<not> ht_packed ht \<Longrightarrow> moved ht n =
     copy_used (arData ht) (HT_ALLOC (ht\<lparr>nTableSize := n, nTableMask := - of_nat n\<rparr>))"
  by (cases ht) (simp add: moved_def HT_ALLOC_def copy_used_def)

lemma packed_to_hash_moved:
  "zend_hash_packed_to_hash w ht = zend_hash_rehash w (moved ht (nTableSize ht))"
  by (simp add: zend_hash_packed_to_hash_def moved_def Let_def copy_used_def HT_ALLOC_def)

lemma zend_hash_packed_to_hash_inv:
  assumes "ht_inv ht" "ht_initialized ht" "zend_hash_packed_to_hash w ht = (w', ht')"
  shows "ht_inv ht'" "reorganised ht ht'" "\<not> ht_packed ht'" "nNumUsed ht' = nNumOfElements ht"
    "nTableSize ht' = nTableSize ht"
proof -
  have ok: "contents_ok ht" using assms(1) by (simp add: ht_inv_def)
  then have sz: "size_ok (nTableSize ht)" "nNumUsed ht \<le> nTableSize ht" by (auto simp: contents_ok_def)
  note m = moved_rehash [OF ok assms(2) ht_inv_used_le [OF assms(1)] sz, of w w' ht']
  show "ht_inv ht'" "reorganised ht ht'" "\<not> ht_packed ht'" "nNumUsed ht' = nNumOfElements ht"
    "nTableSize ht' = nTableSize ht"
    using m assms(3) by (simp_all add: packed_to_hash_moved)
qed

lemma zend_hash_do_resize_inv:
  assumes inv: "ht_inv ht" and i: "ht_initialized ht" "\<not> ht_packed ht"
    and full: "nNumUsed ht = nTableSize ht"
    and r: "zend_hash_do_resize w ht = Inr (w', ht')"
  shows "ht_inv ht'" "reorganised ht ht'" "\<not> ht_packed ht'" "nNumUsed ht' = nNumOfElements ht"
    "nNumUsed ht' < nTableSize ht'"
proof -
  have ok: "contents_ok ht" and lay: "hash_layout ht" using inv i by (auto simp: ht_inv_def)
  then have sz: "size_ok (nTableSize ht)" "nNumUsed ht \<le> nTableSize ht"
    and n: "nNumOfElements ht = length (ht_buckets ht)" and p: "pointer_ok ht"
    by (auto simp: contents_ok_def)
  have len: "nNumUsed ht \<le> length (arData ht)" by (rule ht_inv_used_le [OF inv])
  have "ht_inv ht' \<and> reorganised ht ht' \<and> \<not> ht_packed ht' \<and> nNumUsed ht' = nNumOfElements ht \<and>
      nNumUsed ht' < nTableSize ht'"
  proof (cases "nNumUsed ht > nNumOfElements ht + nNumOfElements ht div 32")
    case True
    then have "zend_hash_rehash w ht = (w', ht')" using r by (simp add: zend_hash_do_resize_def)
    with lay have "rehashed ht ht'"
      by (intro zend_hash_rehash_spec [OF _ i(1) sz(2) n p]) (auto simp: hash_layout_def)
    from rehashed_inv [OF this ok i len] True full show ?thesis by simp
  next
    case False
    with r have lt: "nTableSize ht < HT_MAX_SIZE"
      and rh: "zend_hash_rehash w (moved ht (nTableSize ht + nTableSize ht)) = (w', ht')"
      unfolding moved_unpacked [OF i(2)] by (auto simp: zend_hash_do_resize_def Let_def split: if_splits)
    have sz2: "size_ok (nTableSize ht + nTableSize ht)" by (rule size_ok_double [OF sz(1) lt])
    have le: "length (ht_buckets ht) \<le> nNumUsed ht"
      using length_filter_le [of live "take (nNumUsed ht) (arData ht)"] by (simp add: ht_buckets_def)
    from moved_rehash [OF ok i(1) len sz2 _ rh] sz(2) le n full size_ok_bounds [OF sz(1)]
    show ?thesis by simp
  qed
  then show "ht_inv ht'" "reorganised ht ht'" "\<not> ht_packed ht'" "nNumUsed ht' = nNumOfElements ht"
    "nNumUsed ht' < nTableSize ht'" by auto
qed

lemma if_full_do_resize_inv:
  assumes inv: "ht_inv ht" and i: "ht_initialized ht" "\<not> ht_packed ht"
    and r: "ZEND_HASH_IF_FULL_DO_RESIZE w ht = Inr (w', ht')"
  shows "ht_inv ht'" "reorganised ht ht'" "\<not> ht_packed ht'" "nNumUsed ht' < nTableSize ht'"
proof -
  have le: "nNumUsed ht \<le> nTableSize ht" using inv by (simp add: ht_inv_def contents_ok_def)
  have "ht_inv ht' \<and> reorganised ht ht' \<and> \<not> ht_packed ht' \<and> nNumUsed ht' < nTableSize ht'"
  proof (cases "nNumUsed ht < nTableSize ht")
    case True
    then show ?thesis using inv i r by (simp add: ZEND_HASH_IF_FULL_DO_RESIZE_def)
  next
    case False
    with le have full: "nNumUsed ht = nTableSize ht" by simp
    with r have "zend_hash_do_resize w ht = Inr (w', ht')" by (simp add: ZEND_HASH_IF_FULL_DO_RESIZE_def)
    from zend_hash_do_resize_inv [OF inv i full this] show ?thesis by simp
  qed
  then show "ht_inv ht'" "reorganised ht ht'" "\<not> ht_packed ht'" "nNumUsed ht' < nTableSize ht'" by auto
qed

text \<open>The only failure is a table of the maximal size without enough holes.\<close>

lemma if_full_do_resize_Inl:
  assumes "ht_inv ht"
  shows "ZEND_HASH_IF_FULL_DO_RESIZE w ht = Inl e \<longleftrightarrow>
     e = E_ERROR_MEMORY \<and> nNumUsed ht = HT_MAX_SIZE \<and> nTableSize ht = HT_MAX_SIZE \<and>
     HT_MAX_SIZE \<le> nNumOfElements ht + nNumOfElements ht div 32"
proof -
  have "nNumUsed ht \<le> nTableSize ht" "nTableSize ht \<le> HT_MAX_SIZE"
    using assms size_ok_bounds [of "nTableSize ht"] by (auto simp: ht_inv_def contents_ok_def HT_MAX_SIZE_def)
  then show ?thesis
    by (auto simp: ZEND_HASH_IF_FULL_DO_RESIZE_def zend_hash_do_resize_def Let_def)
qed

lemma packed_realloc_inv:
  assumes inv: "ht_inv ht" and i: "ht_initialized ht" "ht_packed ht"
    and n: "size_ok n" "nNumUsed ht \<le> n"
    and ht': "ht' = copy_used (arData ht)
      (ht\<lparr>nTableSize := n, arData := replicate n fresh_bucket\<rparr>)"
  shows "ht_inv ht'" "reorganised ht ht'" "ht_packed ht'" "nTableSize ht' = n"
    "nNumUsed ht' = nNumUsed ht"
proof -
  have ok: "contents_ok ht" and lay: "packed_layout ht" using inv i by (auto simp: ht_inv_def)
  then have p: "pointer_ok ht" by (auto simp: contents_ok_def)
  have len: "nNumUsed ht \<le> length (arData ht)" by (rule ht_inv_used_le [OF inv])
  have fr: "ht_frame ht' = ht_frame ht" "ht_packed ht'" "nNumUsed ht' = nNumUsed ht"
    "nInternalPointer ht' = nInternalPointer ht" "nTableSize ht' = n"
    "arHash ht' = arHash ht" "nTableMask ht' = nTableMask ht" "ht_initialized ht'"
    "length (arData ht') = nTableSize ht'"
    using i n len by (auto simp: ht' copy_used_def ht_frame_def)
  have tk: "take m (arData ht') = take m (arData ht)" if "m \<le> nNumUsed ht" for m
    using that n len by (simp add: ht' copy_used_def)
  have nth: "arData ht' ! k = arData ht ! k" if "k < nNumUsed ht" for k
    using that n len by (simp add: ht' copy_used_def nth_append)
  have p': "pointer_ok ht'" using p fr nth by (auto simp: pointer_ok_def)
  have c: "ht_cores ht' = ht_cores ht" using fr tk by (simp add: ht_cores_def ht_buckets_def)
  have ok': "contents_ok ht'"
    by (rule contents_ok_cong [OF ok fr(1) c]) (use n fr p' in simp_all)
  then show "ht_inv ht'"
    using lay fr nth by (auto simp: ht_inv_def packed_layout_def)
  show "reorganised ht ht'"
    using fr c tk by (simp add: reorganised_def cursor_def live_rank_def)
  show "ht_packed ht'" "nTableSize ht' = n" "nNumUsed ht' = nNumUsed ht"
    using fr by simp_all
qed

lemma zend_hash_packed_grow_inv:
  assumes inv: "ht_inv ht" and i: "ht_initialized ht" "ht_packed ht"
    and r: "zend_hash_packed_grow ht = Inr ht'"
  shows "ht_inv ht'" "reorganised ht ht'" "ht_packed ht'" "nTableSize ht' = 2 * nTableSize ht"
    "nNumUsed ht' = nNumUsed ht"
proof -
  have lt: "nTableSize ht < HT_MAX_SIZE" and ht': "ht' = copy_used (arData ht)
      (ht\<lparr>nTableSize := nTableSize ht + nTableSize ht,
          arData := replicate (nTableSize ht + nTableSize ht) fresh_bucket\<rparr>)"
    using r by (auto simp: zend_hash_packed_grow_def Let_def split: if_splits)
  have sz: "size_ok (nTableSize ht)" "nNumUsed ht \<le> nTableSize ht"
    using inv by (auto simp: ht_inv_def contents_ok_def)
  note p = packed_realloc_inv [OF inv i size_ok_double [OF sz(1) lt] _ ht']
  show "ht_inv ht'" "reorganised ht ht'" "ht_packed ht'" "nTableSize ht' = 2 * nTableSize ht"
    "nNumUsed ht' = nNumUsed ht"
    using p sz by simp_all
qed

end
