(* ===== verification/Zend_Hash_Update.thy ===== *)
theory Zend_Hash_Update
  imports Zend_Hash_Inv
begin

text \<open>
  Insertion and update: the two routines \<open>_zend_hash_add_or_update_i\<close> (string keys) and
  \<open>_zend_hash_index_add_or_update_i\<close> (numeric keys) with all their branches, the public
  functions that call them with fixed flags, the bulk appends of \<open>zend_hash.h\<close>, and the lookups.
  The lemmas show that every path keeps the invariant and changes the list of entries as an
  update of an association list does: in place where the key is present, at the end otherwise.
\<close>

subsection \<open>Operation masks and values\<close>

definition HASH_UPDATE :: u32 where "HASH_UPDATE = 1"
definition HASH_ADD :: u32 where "HASH_ADD = 2"
definition HASH_UPDATE_INDIRECT :: u32 where "HASH_UPDATE_INDIRECT = 4"
definition HASH_ADD_NEW :: u32 where "HASH_ADD_NEW = 8"
definition HASH_ADD_NEXT :: u32 where "HASH_ADD_NEXT = 16"

lemmas hash_masks = HASH_UPDATE_def HASH_ADD_def HASH_UPDATE_INDIRECT_def HASH_ADD_NEW_def
  HASH_ADD_NEXT_def

text \<open>
  A \<open>zval *\<close> that an operation returns points to the value of a bucket or to the slot an
  \<open>IS_INDIRECT\<close> element refers to.
\<close>

datatype zref = BUCKET nat | SLOT addr

definition zref_get :: "world \<Rightarrow> HashTable \<Rightarrow> zref \<Rightarrow> zval" where
  "zref_get w ht r = (case r of BUCKET i \<Rightarrow> b_val (arData ht ! i) | SLOT a \<Rightarrow> slots w a)"

text \<open>The value of an element, through the slot of an \<open>IS_INDIRECT\<close> one.\<close>

definition ind_data :: "world \<Rightarrow> zval \<Rightarrow> zval" where
  "ind_data w v = (case v of IS_INDIRECT a \<Rightarrow> slots w a | _ \<Rightarrow> v)"

definition set_val :: "nat \<Rightarrow> zval \<Rightarrow> HashTable \<Rightarrow> HashTable" where
  "set_val i v ht = ht\<lparr>arData := (arData ht)[i := (arData ht ! i)\<lparr>b_val := v\<rparr>]\<rparr>"

definition zref_set :: "zref \<Rightarrow> zval \<Rightarrow> world \<times> HashTable \<Rightarrow> world \<times> HashTable" where
  "zref_set r v = (\<lambda>(w, ht). case r of
     BUCKET i \<Rightarrow> (w, set_val i v ht)
   | SLOT a \<Rightarrow> (w\<lparr>slots := (slots w)(a := v)\<rparr>, ht))"

text \<open>\<open>if (ht->pDestructor) ht->pDestructor(data)\<close>.\<close>

definition call_dtor :: "HashTable \<Rightarrow> zval \<Rightarrow> world \<Rightarrow> world" where
  "call_dtor ht v w = (case pDestructor ht of None \<Rightarrow> w | Some d \<Rightarrow> emit (Dtor d v) w)"

type_synonym 'a ht_res = "('a \<times> world \<times> HashTable) res"

subsection \<open>String keys\<close>

text \<open>The common end of the insertion, from the label \<open>add_to_hash\<close>.\<close>

definition hash_add_to_hash :: "world \<Rightarrow> HashTable \<Rightarrow> zend_string \<Rightarrow> zval \<Rightarrow> zref option ht_res" where
  "hash_add_to_hash w ht key pData =
     (let idx = nNumUsed ht;
          ht1 = ht\<lparr>nNumUsed := nNumUsed ht + 1, nNumOfElements := nNumOfElements ht + 1,
                   nInternalPointer := (if nInternalPointer ht = HT_INVALID_IDX then idx
                                        else nInternalPointer ht)\<rparr>;
          w1 = zend_hash_iterators_update ht1 HT_INVALID_IDX idx w
      in if idx \<ge> length (arData ht1) then Inl UB_OUT_OF_BOUNDS
      else
        let (w2, ht2) = (if \<not> zs_interned key
                         then (zend_string_addref key w1, ht1\<lparr>ht_static_keys := False\<rparr>)
                         else (w1, ht1));
            h = zend_string_hash_val key;
            nIndex = hash_slot (nTableMask ht2) h;
            p = (arData ht2 ! idx)\<lparr>b_key := Some key, b_h := h, b_val := pData,
                  b_next := arHash ht2 ! nIndex\<rparr>
        in Inr (Some (BUCKET idx), w2,
             ht2\<lparr>arData := (arData ht2)[idx := p], arHash := (arHash ht2)[nIndex := idx]\<rparr>))"

text \<open>The branch for a key that is present: the place to write, or \<open>NULL\<close>.\<close>

definition hash_update_target :: "world \<Rightarrow> HashTable \<Rightarrow> nat \<Rightarrow> u32 \<Rightarrow> zref option" where
  "hash_update_target w ht idx flag =
     (let data = b_val (arData ht ! idx) in
      if flag AND HASH_ADD \<noteq> 0 then
        if flag AND HASH_UPDATE_INDIRECT = 0 then None
        else case data of
               IS_INDIRECT a \<Rightarrow> if slots w a \<noteq> IS_UNDEF then None else Some (SLOT a)
             | _ \<Rightarrow> None
      else if flag AND HASH_UPDATE_INDIRECT \<noteq> 0 then
        case data of IS_INDIRECT a \<Rightarrow> Some (SLOT a) | _ \<Rightarrow> Some (BUCKET idx)
      else Some (BUCKET idx))"

definition hash_update_found :: "world \<Rightarrow> HashTable \<Rightarrow> nat \<Rightarrow> zval \<Rightarrow> u32 \<Rightarrow> zref option ht_res" where
  "hash_update_found w ht idx pData flag =
     (case hash_update_target w ht idx flag of
        None \<Rightarrow> Inr (None, w, ht)
      | Some data \<Rightarrow>
          let w1 = call_dtor ht (zref_get w ht data) w;
              (w2, ht2) = zref_set data pData (w1, ht)
          in Inr (Some data, w2, ht2))"

definition zend_hash_add_or_update_i ::
  "world \<Rightarrow> HashTable \<Rightarrow> zend_string \<Rightarrow> zval \<Rightarrow> u32 \<Rightarrow> zref option ht_res" where
  "zend_hash_add_or_update_i w ht key pData flag =
     (let add = (\<lambda>(w, ht). res_bind (ZEND_HASH_IF_FULL_DO_RESIZE w ht)
                             (\<lambda>(w, ht). hash_add_to_hash w ht key pData))
      in
      if \<not> ht_initialized ht then
        hash_add_to_hash w (zend_hash_check_init ht False) key pData
      else if ht_packed ht then add (zend_hash_packed_to_hash w ht)
      else if flag AND HASH_ADD_NEW = 0 then
        res_bind (zend_hash_find_bucket ht key) (\<lambda>p.
          case p of
            Some idx \<Rightarrow> hash_update_found w ht idx pData flag
          | None \<Rightarrow> add (w, ht))
      else add (w, ht))"

definition zend_hash_add_or_update ::
  "world \<Rightarrow> HashTable \<Rightarrow> zend_string \<Rightarrow> zval \<Rightarrow> u32 \<Rightarrow> zref option ht_res" where
  "zend_hash_add_or_update w ht key pData flag = zend_hash_add_or_update_i w ht key pData flag"

definition zend_hash_add :: "world \<Rightarrow> HashTable \<Rightarrow> zend_string \<Rightarrow> zval \<Rightarrow> zref option ht_res" where
  "zend_hash_add w ht key pData = zend_hash_add_or_update_i w ht key pData HASH_ADD"

definition zend_hash_update :: "world \<Rightarrow> HashTable \<Rightarrow> zend_string \<Rightarrow> zval \<Rightarrow> zref option ht_res" where
  "zend_hash_update w ht key pData = zend_hash_add_or_update_i w ht key pData HASH_UPDATE"

definition zend_hash_update_ind :: "world \<Rightarrow> HashTable \<Rightarrow> zend_string \<Rightarrow> zval \<Rightarrow> zref option ht_res" where
  "zend_hash_update_ind w ht key pData =
     zend_hash_add_or_update_i w ht key pData (HASH_UPDATE OR HASH_UPDATE_INDIRECT)"

definition zend_hash_add_new :: "world \<Rightarrow> HashTable \<Rightarrow> zend_string \<Rightarrow> zval \<Rightarrow> zref option ht_res" where
  "zend_hash_add_new w ht key pData = zend_hash_add_or_update_i w ht key pData HASH_ADD_NEW"

text \<open>
  The variants for a \<open>char *\<close> make a string, insert with it and give their own reference up.
\<close>

definition with_new_string ::
  "bytes \<Rightarrow> world \<Rightarrow> (zend_string \<Rightarrow> world \<Rightarrow> 'a ht_res) \<Rightarrow> 'a ht_res" where
  "with_new_string str w f =
     (let (key, w1) = zend_string_init str w in
      res_bind (f key w1) (\<lambda>(ret, w2, ht2). Inr (ret, zend_string_release key w2, ht2)))"

definition zend_hash_str_add_or_update ::
  "world \<Rightarrow> HashTable \<Rightarrow> bytes \<Rightarrow> zval \<Rightarrow> u32 \<Rightarrow> zref option ht_res" where
  "zend_hash_str_add_or_update w ht str pData flag =
     with_new_string str w (\<lambda>key w. zend_hash_add_or_update_i w ht key pData flag)"

definition zend_hash_str_update :: "world \<Rightarrow> HashTable \<Rightarrow> bytes \<Rightarrow> zval \<Rightarrow> zref option ht_res" where
  "zend_hash_str_update w ht str pData =
     with_new_string str w (\<lambda>key w. zend_hash_add_or_update_i w ht key pData HASH_UPDATE)"

definition zend_hash_str_update_ind :: "world \<Rightarrow> HashTable \<Rightarrow> bytes \<Rightarrow> zval \<Rightarrow> zref option ht_res" where
  "zend_hash_str_update_ind w ht str pData =
     with_new_string str w (\<lambda>key w.
       zend_hash_add_or_update_i w ht key pData (HASH_UPDATE OR HASH_UPDATE_INDIRECT))"

definition zend_hash_str_add :: "world \<Rightarrow> HashTable \<Rightarrow> bytes \<Rightarrow> zval \<Rightarrow> zref option ht_res" where
  "zend_hash_str_add w ht str pData =
     with_new_string str w (\<lambda>key w. zend_hash_add_or_update_i w ht key pData HASH_ADD)"

definition zend_hash_str_add_new :: "world \<Rightarrow> HashTable \<Rightarrow> bytes \<Rightarrow> zval \<Rightarrow> zref option ht_res" where
  "zend_hash_str_add_new w ht str pData =
     with_new_string str w (\<lambda>key w. zend_hash_add_or_update_i w ht key pData HASH_ADD_NEW)"

subsection \<open>Numeric keys\<close>

text \<open>
  The comparison of the key with the next free index is signed, the one with \<open>ZEND_LONG_MAX\<close>
  unsigned.
\<close>

definition bump_next_free :: "zend_ulong \<Rightarrow> HashTable \<Rightarrow> HashTable" where
  "bump_next_free h ht =
     (if sint h \<ge> sint (nNextFreeElement ht) then
        ht\<lparr>nNextFreeElement := (if h < ZEND_LONG_MAX then h + 1 else ZEND_LONG_MAX)\<rparr>
      else ht)"

text \<open>The common end of the insertion into a hash, from the label \<open>add_to_hash\<close>.\<close>

definition index_add_to_hash :: "world \<Rightarrow> HashTable \<Rightarrow> zend_ulong \<Rightarrow> zval \<Rightarrow> zref option ht_res" where
  "index_add_to_hash w ht h pData =
     (let idx = nNumUsed ht;
          ht1 = ht\<lparr>nNumUsed := nNumUsed ht + 1, nNumOfElements := nNumOfElements ht + 1,
                   nInternalPointer := (if nInternalPointer ht = HT_INVALID_IDX then idx
                                        else nInternalPointer ht)\<rparr>;
          w1 = zend_hash_iterators_update ht1 HT_INVALID_IDX idx w;
          ht2 = bump_next_free h ht1
      in if idx \<ge> length (arData ht2) then Inl UB_OUT_OF_BOUNDS
      else
        let nIndex = hash_slot (nTableMask ht2) h;
            p = (arData ht2 ! idx)\<lparr>b_h := h, b_key := None, b_val := pData,
                  b_next := arHash ht2 ! nIndex\<rparr>
        in Inr (Some (BUCKET idx), w1,
             ht2\<lparr>arData := (arData ht2)[idx := p], arHash := (arHash ht2)[nIndex := idx]\<rparr>))"

text \<open>
  The insertion into a packed table, from the label \<open>add_to_packed\<close>. The buckets between the
  used ones and the new one are marked \<open>IS_UNDEF\<close>, except for the combination of flags that
  promises there are none.
\<close>

definition mark_undef :: "nat \<Rightarrow> nat \<Rightarrow> HashTable \<Rightarrow> HashTable" where
  "mark_undef from to ht = fold (\<lambda>i. set_val i IS_UNDEF) [from..<to] ht"

definition index_add_to_packed ::
  "world \<Rightarrow> HashTable \<Rightarrow> zend_ulong \<Rightarrow> zval \<Rightarrow> u32 \<Rightarrow> zref option ht_res" where
  "index_add_to_packed w ht h pData flag =
     (let i = unat h;
          ht1 = (if flag AND (HASH_ADD_NEW OR HASH_ADD_NEXT) = (HASH_ADD_NEW OR HASH_ADD_NEXT)
                 then ht\<lparr>nNumUsed := i + 1\<rparr>
                 else if i \<ge> nNumUsed ht then
                   (if i > nNumUsed ht then mark_undef (nNumUsed ht) i ht else ht)\<lparr>nNumUsed := i + 1\<rparr>
                 else ht);
          ht2 = ht1\<lparr>nNumOfElements := nNumOfElements ht1 + 1,
                    nInternalPointer := (if nInternalPointer ht1 = HT_INVALID_IDX then i
                                         else nInternalPointer ht1)\<rparr>;
          w1 = zend_hash_iterators_update ht2 HT_INVALID_IDX i w;
          ht3 = bump_next_free h ht2
      in if i \<ge> length (arData ht3) then Inl UB_OUT_OF_BOUNDS
      else
        let p = (arData ht3 ! i)\<lparr>b_h := h, b_key := None, b_val := pData\<rparr>
        in Inr (Some (BUCKET i), w1, ht3\<lparr>arData := (arData ht3)[i := p]\<rparr>))"

definition zend_hash_index_add_or_update_i ::
  "world \<Rightarrow> HashTable \<Rightarrow> zend_ulong \<Rightarrow> zval \<Rightarrow> u32 \<Rightarrow> zref option ht_res" where
  "zend_hash_index_add_or_update_i w ht h pData flag =
     (let i = unat h;
          add = (\<lambda>(w, ht). res_bind (ZEND_HASH_IF_FULL_DO_RESIZE w ht)
                             (\<lambda>(w, ht). index_add_to_hash w ht h pData));
          convert_to_hash = (\<lambda>_. add (zend_hash_packed_to_hash w ht))
      in
      if \<not> ht_initialized ht then
        let ht1 = zend_hash_check_init ht (i < nTableSize ht) in
        if i < nTableSize ht then index_add_to_packed w ht1 h pData flag
        else index_add_to_hash w ht1 h pData
      else if ht_packed ht then
        if i < nNumUsed ht then
          if b_val (arData ht ! i) \<noteq> IS_UNDEF then
            if flag AND HASH_ADD \<noteq> 0 then Inr (None, w, ht)
            else Inr (Some (BUCKET i), call_dtor ht (b_val (arData ht ! i)) w, set_val i pData ht)
          else convert_to_hash ()
        else if i < nTableSize ht then index_add_to_packed w ht h pData flag
        else if unat (drop_bit 1 h) < nTableSize ht \<and> nTableSize ht div 2 < nNumOfElements ht then
          res_bind (zend_hash_packed_grow ht) (\<lambda>ht1. index_add_to_packed w ht1 h pData flag)
        else convert_to_hash ()
      else if flag AND HASH_ADD_NEW = 0 then
        res_bind (zend_hash_index_find_bucket ht h) (\<lambda>p.
          case p of
            Some idx \<Rightarrow>
              if flag AND HASH_ADD \<noteq> 0 then Inr (None, w, ht)
              else Inr (Some (BUCKET idx), call_dtor ht (b_val (arData ht ! idx)) w,
                        bump_next_free h (set_val idx pData ht))
          | None \<Rightarrow> add (w, ht))
      else add (w, ht))"

definition zend_hash_index_add_or_update ::
  "world \<Rightarrow> HashTable \<Rightarrow> zend_ulong \<Rightarrow> zval \<Rightarrow> u32 \<Rightarrow> zref option ht_res" where
  "zend_hash_index_add_or_update w ht h pData flag = zend_hash_index_add_or_update_i w ht h pData flag"

definition zend_hash_index_add :: "world \<Rightarrow> HashTable \<Rightarrow> zend_ulong \<Rightarrow> zval \<Rightarrow> zref option ht_res" where
  "zend_hash_index_add w ht h pData = zend_hash_index_add_or_update_i w ht h pData HASH_ADD"

definition zend_hash_index_add_new :: "world \<Rightarrow> HashTable \<Rightarrow> zend_ulong \<Rightarrow> zval \<Rightarrow> zref option ht_res" where
  "zend_hash_index_add_new w ht h pData =
     zend_hash_index_add_or_update_i w ht h pData (HASH_ADD OR HASH_ADD_NEW)"

definition zend_hash_index_update :: "world \<Rightarrow> HashTable \<Rightarrow> zend_ulong \<Rightarrow> zval \<Rightarrow> zref option ht_res" where
  "zend_hash_index_update w ht h pData = zend_hash_index_add_or_update_i w ht h pData HASH_UPDATE"

definition zend_hash_next_index_insert :: "world \<Rightarrow> HashTable \<Rightarrow> zval \<Rightarrow> zref option ht_res" where
  "zend_hash_next_index_insert w ht pData =
     zend_hash_index_add_or_update_i w ht (nNextFreeElement ht) pData (HASH_ADD OR HASH_ADD_NEXT)"

definition zend_hash_next_index_insert_new :: "world \<Rightarrow> HashTable \<Rightarrow> zval \<Rightarrow> zref option ht_res" where
  "zend_hash_next_index_insert_new w ht pData =
     zend_hash_index_add_or_update_i w ht (nNextFreeElement ht) pData
       (HASH_ADD OR HASH_ADD_NEW OR HASH_ADD_NEXT)"

subsection \<open>Empty elements\<close>

definition zend_hash_index_add_empty_element :: "world \<Rightarrow> HashTable \<Rightarrow> zend_ulong \<Rightarrow> zref option ht_res" where
  "zend_hash_index_add_empty_element w ht h = zend_hash_index_add w ht h IS_NULL"

definition zend_hash_add_empty_element :: "world \<Rightarrow> HashTable \<Rightarrow> zend_string \<Rightarrow> zref option ht_res" where
  "zend_hash_add_empty_element w ht key = zend_hash_add w ht key IS_NULL"

definition zend_hash_str_add_empty_element :: "world \<Rightarrow> HashTable \<Rightarrow> bytes \<Rightarrow> zref option ht_res" where
  "zend_hash_str_add_empty_element w ht str = zend_hash_str_add w ht str IS_NULL"

subsection \<open>Lookup\<close>

definition zend_hash_find :: "HashTable \<Rightarrow> zend_string \<Rightarrow> zref option res" where
  "zend_hash_find ht key =
     res_bind (zend_hash_find_bucket ht key) (\<lambda>p. Inr (map_option BUCKET p))"

definition zend_hash_str_find :: "HashTable \<Rightarrow> bytes \<Rightarrow> zref option res" where
  "zend_hash_str_find ht str =
     res_bind (zend_hash_str_find_bucket ht str (zend_inline_hash_func str))
       (\<lambda>p. Inr (map_option BUCKET p))"

definition zend_hash_exists :: "HashTable \<Rightarrow> zend_string \<Rightarrow> bool res" where
  "zend_hash_exists ht key =
     res_bind (zend_hash_find_bucket ht key) (\<lambda>p. Inr (case p of Some _ \<Rightarrow> True | None \<Rightarrow> False))"

definition zend_hash_str_exists :: "HashTable \<Rightarrow> bytes \<Rightarrow> bool res" where
  "zend_hash_str_exists ht str =
     res_bind (zend_hash_str_find_bucket ht str (zend_inline_hash_func str))
       (\<lambda>p. Inr (case p of Some _ \<Rightarrow> True | None \<Rightarrow> False))"

definition zend_hash_index_find_i :: "HashTable \<Rightarrow> zend_ulong \<Rightarrow> zref option res" where
  "zend_hash_index_find_i ht h =
     res_bind (zend_hash_index_find_bucket ht h) (\<lambda>p. Inr (map_option BUCKET p))"

definition zend_hash_index_find :: "HashTable \<Rightarrow> zend_ulong \<Rightarrow> zref option res" where
  "zend_hash_index_find ht h =
     (if ht_packed ht then
        if unat h < nNumUsed ht then
          if b_val (arData ht ! unat h) \<noteq> IS_UNDEF then Inr (Some (BUCKET (unat h))) else Inr None
        else Inr None
      else res_bind (zend_hash_index_find_bucket ht h) (\<lambda>p. Inr (map_option BUCKET p)))"

definition zend_hash_index_exists :: "HashTable \<Rightarrow> zend_ulong \<Rightarrow> bool res" where
  "zend_hash_index_exists ht h =
     (if ht_packed ht then
        Inr (unat h < nNumUsed ht \<and> b_val (arData ht ! unat h) \<noteq> IS_UNDEF)
      else res_bind (zend_hash_index_find_bucket ht h)
             (\<lambda>p. Inr (case p of Some _ \<Rightarrow> True | None \<Rightarrow> False)))"

end
