(* ===== verification/Zend_Hash_Insert.thy ===== *)
theory Zend_Hash_Insert
  imports Zend_Hash_Update
begin

text \<open>
  The correctness of insertion, update and lookup. Writing in place and linking a new bucket
  behind the used ones are treated once, on the table; each routine of \<open>Zend_Hash_Update\<close> is
  then a case analysis over its branches that ends in one of the two.
\<close>

subsection \<open>What an operation on the contents leaves alone\<close>

definition ht_ident ::
  "HashTable \<Rightarrow> addr \<times> nat \<times> bool \<times> bool \<times> bool \<times> bool \<times> nat \<times> nat \<times> dtor_func option" where
  "ht_ident ht = (ht_addr ht, ht_refcount ht, ht_immutable ht, ht_persistent ht,
     ht_apply_protection ht, ht_has_empty_ind ht, nApplyCount ht, nIteratorsCount ht, pDestructor ht)"

lemma reorganised_ident: "reorganised ht ht' \<Longrightarrow> ht_ident ht' = ht_ident ht"
  using ht_frameD [of ht' ht] by (simp add: reorganised_def ht_ident_def)

lemma reorganised_initialized: "reorganised ht ht' \<Longrightarrow> ht_initialized ht' = ht_initialized ht"
  using ht_frameD [of ht' ht] by (simp add: reorganised_def)

text \<open>A value an element may hold.\<close>

definition storable :: "zval \<Rightarrow> bool" where
  "storable v \<longleftrightarrow> v \<noteq> IS_UNDEF \<and> v \<noteq> UNINIT"

subsection \<open>Writing in place\<close>

lemma set_val_simps [simp]:
  "ht_ident (set_val i v ht) = ht_ident ht"
  "nTableMask (set_val i v ht) = nTableMask ht"
  "arHash (set_val i v ht) = arHash ht"
  "nTableSize (set_val i v ht) = nTableSize ht"
  "nNumUsed (set_val i v ht) = nNumUsed ht"
  "nNumOfElements (set_val i v ht) = nNumOfElements ht"
  "nInternalPointer (set_val i v ht) = nInternalPointer ht"
  "nNextFreeElement (set_val i v ht) = nNextFreeElement ht"
  "ht_packed (set_val i v ht) = ht_packed ht"
  "ht_initialized (set_val i v ht) = ht_initialized ht"
  "ht_static_keys (set_val i v ht) = ht_static_keys ht"
  "pDestructor (set_val i v ht) = pDestructor ht"
  "length (arData (set_val i v ht)) = length (arData ht)"
  by (simp_all add: set_val_def ht_ident_def)

lemma set_val_nth:
  "j < length (arData ht) \<Longrightarrow> arData (set_val i v ht) ! j =
     (if j = i then (arData ht ! i)\<lparr>b_val := v\<rparr> else arData ht ! j)"
  by (simp add: set_val_def nth_list_update)

lemma bkey_set_val [simp]: "bkey (b\<lparr>b_val := v\<rparr>) = bkey b"
  by (cases "b_key b") (simp_all add: bkey_simps)

lemma bucket_ok_set_val: "bucket_ok b \<Longrightarrow> v \<noteq> UNINIT \<Longrightarrow> bucket_ok (b\<lparr>b_val := v\<rparr>)"
  by (auto simp: bucket_ok_def split: option.splits)

lemma live_rank_entry:
  assumes "i < nNumUsed ht" "nNumUsed ht \<le> length (arData ht)" "live (arData ht ! i)"
  shows "live_rank ht i < length (ht_buckets ht)" "ht_buckets ht ! live_rank ht i = arData ht ! i"
proof -
  have i: "i < length (take (nNumUsed ht) (arData ht))" using assms by simp
  have t: "take i (take (nNumUsed ht) (arData ht)) = take i (arData ht)"
    using assms by (simp add: min_def)
  show "live_rank ht i < length (ht_buckets ht)" by (rule live_rank_less [OF assms])
  show "ht_buckets ht ! live_rank ht i = arData ht ! i"
    using filter_nth_rank(3) [OF i, of live] assms t by (simp add: ht_buckets_def live_rank_def)
qed

lemma ht_buckets_set_val:
  assumes "i < nNumUsed ht" "nNumUsed ht \<le> length (arData ht)" "live (arData ht ! i)"
    and "v \<noteq> IS_UNDEF"
  shows "ht_buckets (set_val i v ht) =
     (ht_buckets ht)[live_rank ht i := (arData ht ! i)\<lparr>b_val := v\<rparr>]"
proof -
  have i: "i < length (take (nNumUsed ht) (arData ht))" using assms by simp
  have t: "take i (take (nNumUsed ht) (arData ht)) = take i (arData ht)"
    using assms by (simp add: min_def)
  have "live ((arData ht ! i)\<lparr>b_val := v\<rparr>)" using assms(4) by (simp add: live_def)
  then show ?thesis
    using filter_list_update [OF i, of live "(arData ht ! i)\<lparr>b_val := v\<rparr>"] assms t
    by (simp add: ht_buckets_def live_rank_def set_val_def take_update_swap)
qed

lemma linked_set_val:
  assumes "linked ht n" "live (arData ht ! i)" "v \<noteq> IS_UNDEF" "i < length (arData ht)"
  shows "linked (set_val i v ht) n"
proof -
  have d: "arData (set_val i v ht) ! j = (if j = i then (arData ht ! i)\<lparr>b_val := v\<rparr> else arData ht ! j)" for j
    using assms(4) by (simp add: set_val_def nth_list_update)
  have lv: "live (arData (set_val i v ht) ! j) = live (arData ht ! j)" for j
    using assms(2,3) by (simp add: d live_def)
  have "slot_of (set_val i v ht) = slot_of ht"
    by (rule ext) (simp add: slot_of_def d)
  moreover from this have "in_slot (set_val i v ht) = in_slot ht"
    by (simp add: fun_eq_iff in_slot_def lv)
  ultimately show ?thesis using assms(1) lv by (simp add: linked_def d)
qed

lemma set_val_inv:
  assumes inv: "ht_inv ht" and i: "i < nNumUsed ht" "live (arData ht ! i)" and v: "storable v"
  shows "ht_inv (set_val i v ht)"
    "ht_entries (set_val i v ht) = AList.update (bkey (arData ht ! i)) v (ht_entries ht)"
proof -
  have len: "nNumUsed ht \<le> length (arData ht)" by (rule ht_inv_used_le [OF inv])
  have v': "v \<noteq> IS_UNDEF" "v \<noteq> UNINIT" using v by (auto simp: storable_def)
  note rank = live_rank_entry [OF i(1) len i(2)]
  note bk = ht_buckets_set_val [OF i(1) len i(2) v'(1)]
  have ok: "contents_ok ht" using inv by (simp add: ht_inv_def)
  have keys: "map bkey (ht_buckets (set_val i v ht)) = map bkey (ht_buckets ht)"
    unfolding bk map_update using rank by (simp add: list_update_same_conv)
  have elems: "b' = (arData ht ! i)\<lparr>b_val := v\<rparr> \<or> b' \<in> set (ht_buckets ht)"
    if "b' \<in> set (ht_buckets (set_val i v ht))" for b'
    using that set_update_subset_insert unfolding bk by fastforce
  have mem: "arData ht ! i \<in> set (ht_buckets ht)" by (rule used_bucket_in_set [OF i(1) len i(2)])
  have old: "\<forall>b \<in> set (ht_buckets ht). bucket_ok b"
      "\<forall>b \<in> set (ht_buckets ht). b_key b = None \<longrightarrow>
        sint (b_h b) < sint (nNextFreeElement ht) \<or> nNextFreeElement ht = ZEND_LONG_MAX"
      "ht_static_keys ht \<longrightarrow> (\<forall>b \<in> set (ht_buckets ht). \<forall>s. b_key b = Some s \<longrightarrow> zs_interned s)"
    using ok unfolding contents_ok_def next_free_ok_def by blast+
  have bok: "\<forall>b \<in> set (ht_buckets (set_val i v ht)). bucket_ok b"
  proof
    fix b assume "b \<in> set (ht_buckets (set_val i v ht))"
    from elems [OF this] show "bucket_ok b"
      using old(1) mem v'(2) by (auto simp: bucket_ok_set_val)
  qed
  have nf: "\<forall>b \<in> set (ht_buckets (set_val i v ht)). b_key b = None \<longrightarrow>
        sint (b_h b) < sint (nNextFreeElement ht) \<or> nNextFreeElement ht = ZEND_LONG_MAX"
  proof
    fix b assume "b \<in> set (ht_buckets (set_val i v ht))"
    from elems [OF this] show "b_key b = None \<longrightarrow>
        sint (b_h b) < sint (nNextFreeElement ht) \<or> nNextFreeElement ht = ZEND_LONG_MAX"
      using old(2) mem by auto
  qed
  have st: "ht_static_keys ht \<longrightarrow>
      (\<forall>b \<in> set (ht_buckets (set_val i v ht)). \<forall>s. b_key b = Some s \<longrightarrow> zs_interned s)"
  proof (intro impI ballI)
    fix b assume "ht_static_keys ht" "b \<in> set (ht_buckets (set_val i v ht))"
    with elems [of b] show "\<forall>s. b_key b = Some s \<longrightarrow> zs_interned s"
      using old(3) mem by auto
  qed
  have nth: "arData (set_val i v ht) ! j =
      (if j = i then (arData ht ! i)\<lparr>b_val := v\<rparr> else arData ht ! j)" for j
    using i len by (simp add: set_val_def nth_list_update)
  have lv: "live (arData (set_val i v ht) ! j) = live (arData ht ! j)" for j
    using i v' by (simp add: nth live_def)
  have ptr: "pointer_ok (set_val i v ht)"
    using ok by (simp add: contents_ok_def pointer_ok_def lv)
  have "length (ht_buckets (set_val i v ht)) = length (ht_buckets ht)" by (simp add: bk)
  then have ok': "contents_ok (set_val i v ht)"
    using ok keys bok st ptr nf by (simp add: contents_ok_def next_free_ok_def)
  have lay: "packed_layout ht \<Longrightarrow> packed_layout (set_val i v ht)"
    using i(2) by (auto simp: packed_layout_def nth)
  have lay': "hash_layout ht \<Longrightarrow> hash_layout (set_val i v ht)"
    using linked_set_val [OF _ i(2) v'(1)] i len by (simp add: hash_layout_def hash_area_def)
  show "ht_inv (set_val i v ht)"
    using inv ok' lay lay' by (auto simp: ht_inv_def uninit_layout_def split: if_splits)
  have "ht_entries (set_val i v ht) = (ht_entries ht)[live_rank ht i := (bkey (arData ht ! i), v)]"
    by (simp add: ht_entries_alt bk map_update)
  also have "\<dots> = AList.update (bkey (arData ht ! i)) v (ht_entries ht)"
    using alist_update_nth [OF ht_inv_distinct [OF inv], of "live_rank ht i"] rank
    by (simp add: ht_entries_alt)
  finally show "ht_entries (set_val i v ht) = AList.update (bkey (arData ht ! i)) v (ht_entries ht)" .
qed

subsection \<open>A new bucket behind the used ones\<close>

lemma bump_next_free_simps [simp]:
  "ht_ident (bump_next_free h ht) = ht_ident ht"
  "nTableMask (bump_next_free h ht) = nTableMask ht"
  "arHash (bump_next_free h ht) = arHash ht"
  "arData (bump_next_free h ht) = arData ht"
  "nTableSize (bump_next_free h ht) = nTableSize ht"
  "nNumUsed (bump_next_free h ht) = nNumUsed ht"
  "nNumOfElements (bump_next_free h ht) = nNumOfElements ht"
  "nInternalPointer (bump_next_free h ht) = nInternalPointer ht"
  "ht_packed (bump_next_free h ht) = ht_packed ht"
  "ht_initialized (bump_next_free h ht) = ht_initialized ht"
  "ht_static_keys (bump_next_free h ht) = ht_static_keys ht"
  "pDestructor (bump_next_free h ht) = pDestructor ht"
  by (simp_all add: bump_next_free_def ht_ident_def)

definition bumped :: "zend_ulong \<Rightarrow> zend_ulong \<Rightarrow> zend_ulong" where
  "bumped h n = (if sint h \<ge> sint n then if h < ZEND_LONG_MAX then h + 1 else ZEND_LONG_MAX else n)"

lemma bump_next_free_bumped:
  "nNextFreeElement (bump_next_free h ht) = bumped h (nNextFreeElement ht)"
  by (simp add: bump_next_free_def bumped_def)

lemma sint_ZEND_LONG_MAX: "sint ZEND_LONG_MAX = 2 ^ 63 - 1"
  by (simp add: ZEND_LONG_MAX_def)

lemma sint_uint_cases: "sint (h :: zend_ulong) = (if uint h < 2 ^ 63 then uint h else uint h - 2 ^ 64)"
proof -
  have "sint h = signed_take_bit 63 (uint h)" by (simp add: sint_uint)
  also have "\<dots> = take_bit 64 (uint h + 2 ^ 63) - 2 ^ 63"
    by (simp add: signed_take_bit_eq_take_bit_shift)
  also have "\<dots> = (if uint h < 2 ^ 63 then uint h else uint h - 2 ^ 64)"
    using uint_lt2p [of h] uint_ge_0 [of h] unfolding take_bit_eq_mod
    by (auto simp: not_less mod_pos_pos_trivial mod_pos_geq)
  finally show ?thesis .
qed

lemma word_less_uint: "(a :: zend_ulong) < b \<longleftrightarrow> uint a < uint b"
  by (rule word_less_def)

text \<open>The next free index stays above the new key, or saturates.\<close>

lemma bump_next_free_bounds:
  assumes "0 \<le> sint (nNextFreeElement ht)"
  shows "sint (nNextFreeElement ht) \<le> sint (nNextFreeElement (bump_next_free h ht))"
    "sint h < sint (nNextFreeElement (bump_next_free h ht)) \<or>
     nNextFreeElement (bump_next_free h ht) = ZEND_LONG_MAX"
proof -
  let ?n = "nNextFreeElement ht" and ?n' = "nNextFreeElement (bump_next_free h ht)"
  have "sint ?n \<le> sint ?n' \<and> (sint h < sint ?n' \<or> ?n' = ZEND_LONG_MAX)"
  proof (cases "sint h \<ge> sint ?n")
    case False
    then show ?thesis by (simp add: bump_next_free_def)
  next
    case True
    with assms have h: "0 \<le> sint h" by simp
    then have u: "sint h = uint h" "uint h < 2 ^ 63"
      using uint_lt2p [of h] by (auto simp: sint_uint_cases split: if_splits)
    show ?thesis
    proof (cases "h < ZEND_LONG_MAX")
      case True
      then have "uint h < 2 ^ 63 - 1" by (simp add: word_less_uint ZEND_LONG_MAX_def)
      then have "sint (h + 1) = sint h + 1"
        using uint_ge_0 [of h] by (simp add: sint_uint_cases uint_word_ariths mod_pos_pos_trivial)
      with True \<open>sint h \<ge> sint ?n\<close> show ?thesis by (simp add: bump_next_free_def)
    next
      case False
      then have "sint h = 2 ^ 63 - 1"
        using u by (simp add: word_less_uint ZEND_LONG_MAX_def)
      with False \<open>sint h \<ge> sint ?n\<close> show ?thesis
        by (simp add: bump_next_free_def sint_ZEND_LONG_MAX)
    qed
  qed
  then show "sint ?n \<le> sint ?n'" "sint h < sint ?n' \<or> ?n' = ZEND_LONG_MAX" by auto
qed

lemma ZEND_LONG_MAX_top: "sint ZEND_LONG_MAX \<le> sint (n :: zend_ulong) \<Longrightarrow> n = ZEND_LONG_MAX"
  using sint_lt [of n] sint_ZEND_LONG_MAX by (intro signed_word_eqI [where 'a = int]) simp

lemma push_contents:
  assumes ok: "contents_ok ht"
    and bk: "ht_buckets ht' = ht_buckets ht @ [b]"
    and n: "nNumUsed ht < nNumUsed ht'" "nNumUsed ht' \<le> nTableSize ht'" "nTableSize ht' = nTableSize ht"
      "nNumOfElements ht' = nNumOfElements ht + 1"
    and p: "nInternalPointer ht' =
      (if nInternalPointer ht = HT_INVALID_IDX then nNumUsed ht' - 1 else nInternalPointer ht)"
    and d: "\<And>k. k < nNumUsed ht \<Longrightarrow> arData ht' ! k = arData ht ! k" "arData ht' ! (nNumUsed ht' - 1) = b"
    and b: "bucket_ok b" "live b" "bkey b \<notin> bkey ` set (ht_buckets ht)"
    and nf: "sint (nNextFreeElement ht) \<le> sint (nNextFreeElement ht')"
      "b_key b = None \<Longrightarrow>
        sint (b_h b) < sint (nNextFreeElement ht') \<or> nNextFreeElement ht' = ZEND_LONG_MAX"
    and st: "ht_static_keys ht' \<Longrightarrow> ht_static_keys ht \<and> (\<forall>s. b_key b = Some s \<longrightarrow> zs_interned s)"
  shows "contents_ok ht'"
proof -
  have ptr: "pointer_ok ht" and nfo: "next_free_ok ht" using ok by (auto simp: contents_ok_def)
  have "pointer_ok ht'"
    using ptr n b d by (auto simp: pointer_ok_def p)
  moreover have "next_free_ok ht'"
    unfolding next_free_ok_def
  proof (intro conjI ballI impI)
    show "0 \<le> sint (nNextFreeElement ht')" using nfo nf(1) by (simp add: next_free_ok_def)
    fix b' assume b': "b' \<in> set (ht_buckets ht')" "b_key b' = None"
    show "sint (b_h b') < sint (nNextFreeElement ht') \<or> nNextFreeElement ht' = ZEND_LONG_MAX"
    proof (cases "b' = b")
      case True
      then show ?thesis using nf(2) b' by simp
    next
      case False
      then have "sint (b_h b') < sint (nNextFreeElement ht) \<or> nNextFreeElement ht = ZEND_LONG_MAX"
        using b' bk nfo by (simp add: next_free_ok_def)
      then show ?thesis using nf(1) ZEND_LONG_MAX_top by fastforce
    qed
  qed
  ultimately show ?thesis
    using ok bk n b st by (auto simp: contents_ok_def)
qed

text \<open>The same for a table in hash layout, with the links of the new bucket.\<close>

lemma push_hash:
  assumes inv: "ht_inv ht" and i: "ht_initialized ht" "\<not> ht_packed ht"
    and room: "nNumUsed ht < nTableSize ht"
    and ht': "ht_initialized ht'" "\<not> ht_packed ht'" "nTableMask ht' = nTableMask ht"
      "nTableSize ht' = nTableSize ht" "nNumUsed ht' = nNumUsed ht + 1"
      "nNumOfElements ht' = nNumOfElements ht + 1"
      "nInternalPointer ht' =
        (if nInternalPointer ht = HT_INVALID_IDX then nNumUsed ht else nInternalPointer ht)"
      "arData ht' = (arData ht)[nNumUsed ht := b]"
      "arHash ht' = (arHash ht)[hash_slot (nTableMask ht) (b_h b) := nNumUsed ht]"
    and b: "bucket_ok b" "live b" "key_pos ht (bkey b) = None"
      "b_next b = arHash ht ! hash_slot (nTableMask ht) (b_h b)"
    and nf: "sint (nNextFreeElement ht) \<le> sint (nNextFreeElement ht')"
      "b_key b = None \<Longrightarrow>
        sint (b_h b) < sint (nNextFreeElement ht') \<or> nNextFreeElement ht' = ZEND_LONG_MAX"
    and st: "ht_static_keys ht' \<Longrightarrow> ht_static_keys ht \<and> (\<forall>s. b_key b = Some s \<longrightarrow> zs_interned s)"
  shows "ht_inv ht' \<and> ht_buckets ht' = ht_buckets ht @ [b]"
proof
  have lay: "hash_layout ht" and ok: "contents_ok ht" using inv i by (auto simp: ht_inv_def)
  then have len: "length (arData ht) = nTableSize ht" and rdy: "hash_ready ht"
    and area: "hash_area ht" and lk: "linked ht (nNumUsed ht)"
    by (auto simp: hash_layout_def hash_area_def hash_ready_def)
  show bk: "ht_buckets ht' = ht_buckets ht @ [b]"
    using room len b(2) by (simp add: ht_buckets_def ht' take_Suc_conv_app_nth)
  have new: "bkey b \<notin> bkey ` set (ht_buckets ht)" using key_pos_None [OF b(3) inv] by auto
  have "contents_ok ht'"
    by (rule push_contents [OF ok bk]) (use ht' room len b new nf st in auto)
  moreover have "linked ht' (Suc (nNumUsed ht))"
    by (rule linked_push [OF lk])
      (use ht' room len b hash_ready_slot [OF rdy] in simp_all)
  then have "hash_layout ht'"
    using lay ht' by (simp add: hash_layout_def hash_area_def)
  ultimately show "ht_inv ht'" using ht' by (simp add: ht_inv_def)
qed

subsection \<open>The ends of the insertions\<close>

text \<open>What a call that wrote \<open>v\<close> under \<open>k\<close> returns and leaves behind.\<close>

definition written ::
  "world \<Rightarrow> HashTable \<Rightarrow> hkey \<Rightarrow> zval \<Rightarrow> zref option \<times> world \<times> HashTable \<Rightarrow> bool" where
  "written w ht k v res \<longleftrightarrow> (case res of (r, w', ht') \<Rightarrow>
     ht_inv ht' \<and> ht_initialized ht' \<and> ht_entries ht' = AList.update k v (ht_entries ht) \<and>
     ht_ident ht' = ht_ident ht \<and> slots w' = slots w \<and>
     (\<exists>i. r = Some (BUCKET i) \<and> key_pos ht' k = Some i \<and> b_val (arData ht' ! i) = v))"

lemma written_reorganised:
  "reorganised ht ht1 \<Longrightarrow> slots w1 = slots w \<Longrightarrow> written w1 ht1 k v res \<Longrightarrow> written w ht k v res"
  by (auto simp: written_def reorganised_entries reorganised_ident)

lemma zend_hash_iterators_update_frame [simp]:
  "slots (zend_hash_iterators_update ht from to w) = slots w"
  "events (zend_hash_iterators_update ht from to w) = events w"
  by (simp_all add: zend_hash_iterators_update_def zend_hash_iterators_update_i_def)

lemma ht_ident_simps [simp]:
  "ht_ident (ht\<lparr>arHash := H\<rparr>) = ht_ident ht"
  "ht_ident (ht\<lparr>arData := D\<rparr>) = ht_ident ht"
  "ht_ident (ht\<lparr>nNumUsed := n\<rparr>) = ht_ident ht"
  "ht_ident (ht\<lparr>nNumOfElements := n\<rparr>) = ht_ident ht"
  "ht_ident (ht\<lparr>nInternalPointer := n\<rparr>) = ht_ident ht"
  "ht_ident (ht\<lparr>ht_static_keys := c\<rparr>) = ht_ident ht"
  "ht_ident (ht\<lparr>nNextFreeElement := h\<rparr>) = ht_ident ht"
  "ht_ident (ht\<lparr>nTableSize := n\<rparr>) = ht_ident ht"
  "ht_ident (ht\<lparr>nTableMask := m\<rparr>) = ht_ident ht"
  "ht_ident (ht\<lparr>ht_packed := c\<rparr>) = ht_ident ht"
  "ht_ident (ht\<lparr>ht_initialized := c\<rparr>) = ht_ident ht"
  by (simp_all add: ht_ident_def)

text \<open>A pushed bucket makes the call a write of its key and value.\<close>

lemma written_push:
  assumes "ht_inv ht'" "ht_initialized ht'" "ht_buckets ht' = ht_buckets ht @ [b]"
    and "key_pos ht (bkey b) = None" "ht_inv ht"
    and "ht_ident ht' = ht_ident ht" "slots w' = slots w"
    and "i < nNumUsed ht'" "arData ht' ! i = b" "live b"
  shows "written w ht (bkey b) (b_val b) (Some (BUCKET i), w', ht')"
proof -
  have "bkey b \<notin> fst ` set (ht_entries ht)"
    using key_pos_None [OF assms(4,5)] by (auto simp: ht_entries_alt)
  then have "ht_entries ht' = AList.update (bkey b) (b_val b) (ht_entries ht)"
    using assms(3) by (simp add: ht_entries_alt alist_update_new)
  moreover have "key_pos ht' (bkey b) = Some i"
    using key_pos_unique [OF assms(1,8)] assms(9,10) by simp
  ultimately show ?thesis using assms by (simp add: written_def)
qed

lemma hash_add_to_hash_spec:
  assumes inv: "ht_inv ht" and i: "ht_initialized ht" "\<not> ht_packed ht"
    and room: "nNumUsed ht < nTableSize ht"
    and new: "key_pos ht (StrKey (zs_val key)) = None" and v: "storable v"
  shows "\<exists>res. hash_add_to_hash w ht key v = Inr res \<and> written w ht (StrKey (zs_val key)) v res \<and>
     events (fst (snd res)) = events w @ (if zs_interned key then [] else [Str_Addref key]) \<and>
     nNextFreeElement (snd (snd res)) = nNextFreeElement ht"
proof -
  let ?h = "zend_string_hash_val key" and ?n = "nNumUsed ht"
  let ?s = "hash_slot (nTableMask ht) ?h"
  let ?b = "(arData ht ! ?n)\<lparr>b_key := Some key, b_h := ?h, b_val := v, b_next := arHash ht ! ?s\<rparr>"
  have len: "length (arData ht) = nTableSize ht"
    using inv i by (simp add: ht_inv_def hash_layout_def hash_area_def)
  define w' where "w' = fst (snd (projr (hash_add_to_hash w ht key v)))"
  define ht' where "ht' = snd (snd (projr (hash_add_to_hash w ht key v)))"
  have r: "hash_add_to_hash w ht key v = Inr (Some (BUCKET ?n), w', ht')"
    and w': "slots w' = slots w" "events w' = events (zend_string_addref key w)"
    and f: "ht_initialized ht'" "\<not> ht_packed ht'" "nTableMask ht' = nTableMask ht"
      "nTableSize ht' = nTableSize ht" "nNumUsed ht' = ?n + 1"
      "nNumOfElements ht' = nNumOfElements ht + 1"
      "nInternalPointer ht' = (if nInternalPointer ht = HT_INVALID_IDX then ?n else nInternalPointer ht)"
      "arData ht' = (arData ht)[?n := ?b]" "arHash ht' = (arHash ht)[?s := ?n]"
      "nNextFreeElement ht' = nNextFreeElement ht"
      "ht_static_keys ht' = (ht_static_keys ht \<and> zs_interned key)" "ht_ident ht' = ht_ident ht"
    using room len i unfolding w'_def ht'_def hash_add_to_hash_def Let_def
    by (simp_all add: zend_string_addref_def)
  have key: "bkey ?b = StrKey (zs_val key)" by (simp add: bkey_simps)
  have b: "bucket_ok ?b" "live ?b" using v by (auto simp: bucket_ok_def live_def storable_def)
  have "ht_inv ht' \<and> ht_buckets ht' = ht_buckets ht @ [?b]"
    by (rule push_hash [OF inv i room f(1-8)]) (use f b new in \<open>simp_all add: key\<close>)
  then have "written w ht (bkey ?b) (b_val ?b) (Some (BUCKET ?n), w', ht')"
    by (intro written_push) (use f w' b new inv room len in \<open>simp_all add: key\<close>)
  then show ?thesis using r w' f by (simp add: key zend_string_addref_def)
qed

lemma index_add_to_hash_spec:
  assumes inv: "ht_inv ht" and i: "ht_initialized ht" "\<not> ht_packed ht"
    and room: "nNumUsed ht < nTableSize ht"
    and new: "key_pos ht (IntKey h) = None" and v: "storable v"
  shows "\<exists>res. index_add_to_hash w ht h v = Inr res \<and> written w ht (IntKey h) v res \<and>
     events (fst (snd res)) = events w \<and>
     nNextFreeElement (snd (snd res)) = bumped h (nNextFreeElement ht)"
proof -
  let ?n = "nNumUsed ht" and ?s = "hash_slot (nTableMask ht) h"
  let ?b = "(arData ht ! ?n)\<lparr>b_h := h, b_key := None, b_val := v, b_next := arHash ht ! ?s\<rparr>"
  have len: "length (arData ht) = nTableSize ht"
    using inv i by (simp add: ht_inv_def hash_layout_def hash_area_def)
  have nn: "0 \<le> sint (nNextFreeElement ht)"
    using inv by (simp add: ht_inv_def contents_ok_def next_free_ok_def)
  define w' where "w' = fst (snd (projr (index_add_to_hash w ht h v)))"
  define ht' where "ht' = snd (snd (projr (index_add_to_hash w ht h v)))"
  have r: "index_add_to_hash w ht h v = Inr (Some (BUCKET ?n), w', ht')"
    and w': "slots w' = slots w" "events w' = events w"
    and f: "ht_initialized ht'" "\<not> ht_packed ht'" "nTableMask ht' = nTableMask ht"
      "nTableSize ht' = nTableSize ht" "nNumUsed ht' = ?n + 1"
      "nNumOfElements ht' = nNumOfElements ht + 1"
      "nInternalPointer ht' = (if nInternalPointer ht = HT_INVALID_IDX then ?n else nInternalPointer ht)"
      "arData ht' = (arData ht)[?n := ?b]" "arHash ht' = (arHash ht)[?s := ?n]"
      "nNextFreeElement ht' = nNextFreeElement (bump_next_free h ht)"
      "ht_static_keys ht' = ht_static_keys ht" "ht_ident ht' = ht_ident ht"
    using room len i unfolding w'_def ht'_def index_add_to_hash_def Let_def
    by (simp_all add: bump_next_free_def)
  have key: "bkey ?b = IntKey h" by (simp add: bkey_simps)
  have b: "bucket_ok ?b" "live ?b" using v by (auto simp: bucket_ok_def live_def storable_def)
  note nf = bump_next_free_bounds [OF nn, of h]
  have "ht_inv ht' \<and> ht_buckets ht' = ht_buckets ht @ [?b]"
    by (rule push_hash [OF inv i room f(1-8)]) (use f b new nf in \<open>simp_all add: key\<close>)
  then have "written w ht (bkey ?b) (b_val ?b) (Some (BUCKET ?n), w', ht')"
    by (intro written_push) (use f w' b new inv room len in \<open>simp_all add: key\<close>)
  then show ?thesis using r w' f by (simp add: key bump_next_free_bumped)
qed

subsection \<open>Reorganising leaves slots and events alone\<close>

lemma iterators_move_frame:
  "slots (snd (iterators_move ht i j p w)) = slots w \<and> events (snd (iterators_move ht i j p w)) = events w"
proof (induction ht i j p w rule: iterators_move.induct)
  case (1 ht i j p w)
  then show ?case by (subst (1 2) iterators_move.simps) (simp add: Let_def)
qed

lemma rehash_compact_frame:
  "slots (fst (snd (rehash_compact is j p (w, ht)))) = slots w \<and>
   events (fst (snd (rehash_compact is j p (w, ht)))) = events w"
proof (induction "is" arbitrary: j p w ht)
  case Nil
  then show ?case by simp
next
  case (Cons i "is")
  then show ?case
    using iterators_move_frame by (auto simp: Let_def split: prod.split if_splits) (metis snd_conv)+
qed

lemma rehash_holes_frame:
  "slots (fst (rehash_holes is (w, ht))) = slots w \<and> events (fst (rehash_holes is (w, ht))) = events w"
proof (induction "is" arbitrary: w ht)
  case Nil
  then show ?case by simp
next
  case (Cons i "is")
  then show ?case
    using rehash_compact_frame by (auto simp: Let_def split: prod.split) (metis fst_conv snd_conv)+
qed

lemma zend_hash_rehash_frame:
  "slots (fst (zend_hash_rehash w ht)) = slots w \<and> events (fst (zend_hash_rehash w ht)) = events w"
  using rehash_holes_frame by (simp add: zend_hash_rehash_def Let_def)

lemma packed_to_hash_frame:
  "slots (fst (zend_hash_packed_to_hash w ht)) = slots w \<and>
   events (fst (zend_hash_packed_to_hash w ht)) = events w"
  using zend_hash_rehash_frame by (simp add: zend_hash_packed_to_hash_def Let_def)

lemma if_full_do_resize_frame:
  "ZEND_HASH_IF_FULL_DO_RESIZE w ht = Inr (w', ht') \<Longrightarrow> slots w' = slots w \<and> events w' = events w"
  using zend_hash_rehash_frame
  by (auto simp: ZEND_HASH_IF_FULL_DO_RESIZE_def zend_hash_do_resize_def Let_def split: if_splits)
    (metis fst_conv)+

subsection \<open>Initialisation\<close>

lemma uninit_empty:
  assumes "ht_inv ht" "\<not> ht_initialized ht"
  shows "nNumUsed ht = 0" "ht_buckets ht = []" "ht_entries ht = []" "\<not> ht_packed ht" "key_pos ht k = None"
    "nInternalPointer ht = HT_INVALID_IDX" "nNumOfElements ht = 0"
proof -
  have "uninit_layout ht" "contents_ok ht" using assms by (auto simp: ht_inv_def)
  then show "nNumUsed ht = 0" "ht_buckets ht = []" "ht_entries ht = []" "\<not> ht_packed ht"
    "key_pos ht k = None" "nInternalPointer ht = HT_INVALID_IDX" "nNumOfElements ht = 0"
    by (auto simp: uninit_layout_def ht_entries_alt ht_buckets_def key_pos_def contents_ok_def
        pointer_ok_def)
qed

lemma HT_HASH_min_mask: "HT_HASH_SIZE HT_MIN_MASK = 2" "HT_HASH_EX HT_MIN_MASK (-2) = 0"
  "HT_HASH_EX HT_MIN_MASK (-1) = 1"
  by (simp_all add: HT_HASH_SIZE_def HT_HASH_EX_def HT_MIN_MASK_def)

lemma zend_hash_real_init_inv:
  fixes packed :: bool
  assumes inv: "ht_inv ht" and i: "\<not> ht_initialized ht"
  defines "ht' \<equiv> zend_hash_real_init_ex ht packed"
  shows "ht_inv ht'" "ht_initialized ht'" "ht_packed ht' = packed" "ht_entries ht' = []"
    "ht_ident ht' = ht_ident ht" "nTableSize ht' = nTableSize ht" "nNumUsed ht' = 0"
    "nNextFreeElement ht' = nNextFreeElement ht" "nInternalPointer ht' = HT_INVALID_IDX"
    "ht_static_keys ht' = ht_static_keys ht" "key_pos ht' k = None"
proof -
  note e = uninit_empty [OF inv i]
  have ok: "contents_ok ht" and lay: "uninit_layout ht" using inv i by (auto simp: ht_inv_def)
  have sz: "size_ok (nTableSize ht)" using ok by (simp add: contents_ok_def)
  have f: "ht_initialized ht'" "ht_packed ht' = packed" "ht_ident ht' = ht_ident ht"
    "nTableSize ht' = nTableSize ht" "nNumUsed ht' = 0" "nNumOfElements ht' = 0"
    "nNextFreeElement ht' = nNextFreeElement ht" "nInternalPointer ht' = HT_INVALID_IDX"
    "ht_static_keys ht' = ht_static_keys ht"
    using e by (simp_all add: ht'_def zend_hash_real_init_ex_def HT_ALLOC_def HT_HASH_RESET_def
        HT_HASH_RESET_PACKED_def ht_ident_def)
  have b: "ht_buckets ht' = []" using f by (simp add: ht_buckets_def)
  have ok': "contents_ok ht'"
    using ok b f by (simp add: contents_ok_def pointer_ok_def next_free_ok_def)
  have "packed \<Longrightarrow> packed_layout ht'"
    using lay e by (simp add: ht'_def zend_hash_real_init_ex_def HT_ALLOC_def HT_HASH_RESET_PACKED_def
        packed_layout_def uninit_layout_def HT_HASH_min_mask numeral_2_eq_2)
  moreover have "\<not> packed \<Longrightarrow> hash_layout ht'"
    using sz e HT_HASH_SIZE_neg [OF sz]
    by (simp add: ht'_def zend_hash_real_init_ex_def HT_ALLOC_def HT_HASH_RESET_def hash_layout_def
        hash_area_def linked_def)
  ultimately show "ht_inv ht'" using ok' f by (simp add: ht_inv_def)
  show "ht_initialized ht'" "ht_packed ht' = packed" "ht_ident ht' = ht_ident ht"
    "nTableSize ht' = nTableSize ht" "nNumUsed ht' = 0"
    "nNextFreeElement ht' = nNextFreeElement ht" "nInternalPointer ht' = HT_INVALID_IDX"
    "ht_static_keys ht' = ht_static_keys ht" by (rule f)+
  show "ht_entries ht' = []" "key_pos ht' k = None"
    using b f by (auto simp: ht_entries_alt key_pos_def)
qed

subsection \<open>Insertion with a string key\<close>

text \<open>
  The only error of an insertion is the fatal one, and only when more than half of the
  maximal number of elements is there.
\<close>

definition table_full :: "HashTable \<Rightarrow> bool" where
  "table_full ht \<longleftrightarrow> HT_MAX_SIZE div 2 < length (ht_entries ht)"

definition outcome :: "HashTable \<Rightarrow> ('a \<Rightarrow> bool) \<Rightarrow> 'a res \<Rightarrow> bool" where
  "outcome ht P m \<longleftrightarrow> (case m of Inl e \<Rightarrow> e = E_ERROR_MEMORY \<and> table_full ht | Inr x \<Rightarrow> P x)"

lemma outcome_simps [simp]:
  "outcome ht P (Inr x) = P x"
  "outcome ht P (Inl e) = (e = E_ERROR_MEMORY \<and> table_full ht)"
  by (simp_all add: outcome_def)

lemma outcome_mono: "outcome ht P m \<Longrightarrow> (\<And>x. P x \<Longrightarrow> Q x) \<Longrightarrow> outcome ht Q m"
  by (cases m) auto

lemma length_entries: "ht_inv ht \<Longrightarrow> length (ht_entries ht) = nNumOfElements ht"
  by (simp add: ht_inv_def contents_ok_def ht_entries_alt)

text \<open>The events of a write: the destructor of the value replaced, or what a new key costs.\<close>

definition write_events :: "HashTable \<Rightarrow> hkey \<Rightarrow> event list \<Rightarrow> event list" where
  "write_events ht k es = (case map_of (ht_entries ht) k of
     Some old \<Rightarrow> (case pDestructor ht of None \<Rightarrow> [] | Some d \<Rightarrow> [Dtor d old])
   | None \<Rightarrow> es)"

abbreviation key_events :: "zend_string \<Rightarrow> event list" where
  "key_events key \<equiv> (if zs_interned key then [] else [Str_Addref key])"

lemma events_addref: "events (zend_string_addref key w) = events w @ key_events key"
  by (simp add: zend_string_addref_def)

lemma events_call_dtor:
  "events (call_dtor ht v w) = events w @ (case pDestructor ht of None \<Rightarrow> [] | Some d \<Rightarrow> [Dtor d v])"
  "slots (call_dtor ht v w) = slots w"
  by (auto simp: call_dtor_def split: option.splits)

lemma absent_map_of: "ht_inv ht \<Longrightarrow> key_pos ht k = None \<longleftrightarrow> map_of (ht_entries ht) k = None"
  by (simp add: map_of_entries)

lemma reorganised_key_pos:
  "reorganised ht ht' \<Longrightarrow> ht_inv ht \<Longrightarrow> ht_inv ht' \<Longrightarrow> key_pos ht' k = None \<longleftrightarrow> key_pos ht k = None"
  by (simp add: absent_map_of reorganised_entries)

text \<open>Making room, then the end of the insertion, whichever it is.\<close>

lemma resize_then:
  assumes inv: "ht_inv ht" and i: "ht_initialized ht" "\<not> ht_packed ht"
    and new: "key_pos ht k = None"
    and spec: "\<And>w ht. \<lbrakk>ht_inv ht; ht_initialized ht; \<not> ht_packed ht; nNumUsed ht < nTableSize ht;
        key_pos ht k = None\<rbrakk> \<Longrightarrow> \<exists>res. f (w, ht) = Inr res \<and> written w ht k v res \<and>
        events (fst (snd res)) = events w @ es \<and>
        nNextFreeElement (snd (snd res)) = g (nNextFreeElement ht)"
  shows "outcome ht (\<lambda>res. written w ht k v res \<and> events (fst (snd res)) = events w @ es \<and>
      nNextFreeElement (snd (snd res)) = g (nNextFreeElement ht))
     (res_bind (ZEND_HASH_IF_FULL_DO_RESIZE w ht) f)"
proof (cases "ZEND_HASH_IF_FULL_DO_RESIZE w ht")
  case (Inl e)
  then show ?thesis
    using if_full_do_resize_Inl [OF inv, of w e] length_entries [OF inv]
    by (auto simp: table_full_def HT_MAX_SIZE_def)
next
  case (Inr p)
  then obtain w1 ht1 where r: "ZEND_HASH_IF_FULL_DO_RESIZE w ht = Inr (w1, ht1)" by (cases p) auto
  note z = if_full_do_resize_inv [OF inv i r]
  have nx: "nNextFreeElement ht1 = nNextFreeElement ht"
    using z(2) ht_frameD [of ht1 ht] by (simp add: reorganised_def)
  have "ht_initialized ht1" using z(2) i reorganised_initialized by auto
  moreover have "key_pos ht1 k = None" using reorganised_key_pos [OF z(2) inv z(1)] new by simp
  ultimately obtain res where res: "f (w1, ht1) = Inr res" "written w1 ht1 k v res"
      "events (fst (snd res)) = events w1 @ es"
      "nNextFreeElement (snd (snd res)) = g (nNextFreeElement ht1)"
    using spec [OF z(1) _ z(3,4)] by blast
  then show ?thesis
    using r nx if_full_do_resize_frame [OF r] written_reorganised [OF z(2) _ res(2)] by simp
qed

lemma hash_insert_absent:
  assumes inv: "ht_inv ht" and i: "ht_initialized ht" "\<not> ht_packed ht"
    and new: "key_pos ht (StrKey (zs_val key)) = None" and v: "storable v"
  shows "outcome ht (\<lambda>res. written w ht (StrKey (zs_val key)) v res \<and>
      events (fst (snd res)) = events w @ key_events key \<and>
      nNextFreeElement (snd (snd res)) = nNextFreeElement ht)
     (res_bind (ZEND_HASH_IF_FULL_DO_RESIZE w ht) (\<lambda>(w, ht). hash_add_to_hash w ht key v))"
proof -
  have "outcome ht (\<lambda>res. written w ht (StrKey (zs_val key)) v res \<and>
      events (fst (snd res)) = events w @ key_events key \<and>
      nNextFreeElement (snd (snd res)) = id (nNextFreeElement ht))
     (res_bind (ZEND_HASH_IF_FULL_DO_RESIZE w ht) (\<lambda>(w, ht). hash_add_to_hash w ht key v))"
    by (rule resize_then [OF inv i new]; unfold prod.case id_apply)
      (rule hash_add_to_hash_spec [OF _ _ _ _ _ v]; assumption)
  then show ?thesis by simp
qed

text \<open>The whole routine, without the \<open>INDIRECT\<close> flag.\<close>

definition str_add_post ::
  "world \<Rightarrow> HashTable \<Rightarrow> zend_string \<Rightarrow> zval \<Rightarrow> u32 \<Rightarrow> zref option \<times> world \<times> HashTable \<Rightarrow> bool" where
  "str_add_post w ht key v flag res \<longleftrightarrow>
     (let k = StrKey (zs_val key) in
      if flag AND HASH_ADD \<noteq> 0 \<and> map_of (ht_entries ht) k \<noteq> None then res = (None, w, ht)
      else written w ht k v res \<and> events (fst (snd res)) = events w @ write_events ht k (key_events key))"

lemma written_set_val:
  assumes inv: "ht_inv ht" and i: "ht_initialized ht" and k: "key_pos ht k = Some idx"
    and v: "storable v" and w: "slots w' = slots w"
  shows "written w ht k v (Some (BUCKET idx), w', set_val idx v ht)"
proof -
  note p = key_pos_Some [OF k]
  note s = set_val_inv [OF inv p(1,2) v]
  have len: "idx < length (arData ht)" using p ht_inv_used_le [OF inv] by simp
  then have b: "arData (set_val idx v ht) ! idx = (arData ht ! idx)\<lparr>b_val := v\<rparr>"
    by (simp add: set_val_nth)
  have "live (arData (set_val idx v ht) ! idx)" using v by (simp add: b live_def storable_def)
  then have "key_pos (set_val idx v ht) k = Some idx"
    using key_pos_unique [OF s(1), of idx] p by (simp add: b)
  then show ?thesis using s i w p by (simp add: written_def b)
qed

lemma zend_hash_add_or_update_i_spec:
  assumes inv: "ht_inv ht" and v: "storable v"
    and ni: "flag AND HASH_UPDATE_INDIRECT = 0"
    and nw: "flag AND HASH_ADD_NEW \<noteq> 0 \<Longrightarrow> map_of (ht_entries ht) (StrKey (zs_val key)) = None"
  shows "outcome ht (str_add_post w ht key v flag) (zend_hash_add_or_update_i w ht key v flag)"
proof -
  let ?k = "StrKey (zs_val key)"
  have absent: "str_add_post w ht key v flag res"
    if "map_of (ht_entries ht) ?k = None" "written w ht ?k v res"
      "events (fst (snd res)) = events w @ key_events key" for res
    using that by (simp add: str_add_post_def write_events_def Let_def)
  consider (u) "\<not> ht_initialized ht" | (p) "ht_initialized ht" "ht_packed ht"
    | (h) "ht_initialized ht" "\<not> ht_packed ht" by blast
  then show ?thesis
  proof cases
    case u
    note z = zend_hash_real_init_inv [OF inv u, of False] and e = uninit_empty [OF inv u]
    have "size_ok (nTableSize ht)" using inv by (simp add: ht_inv_def contents_ok_def)
    then have "nNumUsed (zend_hash_real_init_ex ht False) < nTableSize (zend_hash_real_init_ex ht False)"
      using z size_ok_bounds by fastforce
    then obtain res where r: "hash_add_to_hash w (zend_hash_real_init_ex ht False) key v = Inr res"
      "written w (zend_hash_real_init_ex ht False) ?k v res"
      "events (fst (snd res)) = events w @ key_events key"
      using hash_add_to_hash_spec [OF z(1,2) _ _ _ v, of key w] z by auto
    have "written w ht ?k v res" using r(2) z e by (auto simp: written_def)
    with r e u show ?thesis
      by (simp add: zend_hash_add_or_update_i_def zend_hash_check_init_def absent)
  next
    case p
    obtain w1 ht1 where c: "zend_hash_packed_to_hash w ht = (w1, ht1)" by fastforce
    note z = zend_hash_packed_to_hash_inv [OF inv p(1) c]
    have fr: "slots w1 = slots w" "events w1 = events w" using packed_to_hash_frame [of w ht] c by auto
    have none: "key_pos ht ?k = None" using packed_no_string [OF inv p(2)] .
    then have none1: "key_pos ht1 ?k = None" using reorganised_key_pos [OF z(2) inv z(1)] by simp
    have i1: "ht_initialized ht1" using z(2) p reorganised_initialized by auto
    have "outcome ht (str_add_post w ht key v flag)
       (res_bind (ZEND_HASH_IF_FULL_DO_RESIZE w1 ht1) (\<lambda>(w, ht). hash_add_to_hash w ht key v))"
      using hash_insert_absent [OF z(1) i1 z(3) none1 v, of w1] none inv
        written_reorganised [OF z(2) fr(1)] fr(2) reorganised_entries [OF z(2)]
      by (auto simp: outcome_def table_full_def absent_map_of intro!: absent split: sum.splits)
    then show ?thesis using p c by (simp add: zend_hash_add_or_update_i_def)
  next
    case h
    have new: "outcome ht (str_add_post w ht key v flag)
       (res_bind (ZEND_HASH_IF_FULL_DO_RESIZE w ht) (\<lambda>(w, ht). hash_add_to_hash w ht key v))"
      if "key_pos ht ?k = None"
      by (rule outcome_mono [OF hash_insert_absent [OF inv h that v]])
        (use that inv in \<open>auto simp: absent_map_of intro!: absent\<close>)
    show ?thesis
    proof (cases "flag AND HASH_ADD_NEW = 0")
      case False
      then show ?thesis
        using h nw new inv by (simp add: zend_hash_add_or_update_i_def absent_map_of)
    next
      case True
      show ?thesis
      proof (cases "key_pos ht ?k")
        case None
        then show ?thesis using h True new zend_hash_find_bucket_inv [OF inv h(2), of key]
          by (simp add: zend_hash_add_or_update_i_def)
      next
        case (Some idx)
        note pos = key_pos_Some [OF Some]
        have old: "map_of (ht_entries ht) ?k = Some (b_val (arData ht ! idx))"
          using map_of_entries [OF inv] Some by simp
        show ?thesis
        proof (cases "flag AND HASH_ADD = 0")
          case False
          then show ?thesis
            using h True Some ni old zend_hash_find_bucket_inv [OF inv h(2), of key]
            by (simp add: zend_hash_add_or_update_i_def hash_update_found_def hash_update_target_def
                str_add_post_def Let_def)
        next
          case add: True
          have "written w ht ?k v (Some (BUCKET idx), call_dtor ht (b_val (arData ht ! idx)) w,
              set_val idx v ht)"
            by (rule written_set_val [OF inv h(1) Some v]) (simp add: events_call_dtor)
          then show ?thesis
            using h True add Some ni old zend_hash_find_bucket_inv [OF inv h(2), of key]
            by (simp add: zend_hash_add_or_update_i_def hash_update_found_def hash_update_target_def
                str_add_post_def Let_def zref_set_def zref_get_def write_events_def events_call_dtor)
        qed
      qed
    qed
  qed
qed

subsection \<open>Insertion with a numeric key\<close>

lemma mark_undef_spec:
  assumes "n \<le> m" "m \<le> length (arData ht)"
  shows "\<exists>D. mark_undef n m ht = ht\<lparr>arData := D\<rparr> \<and> length D = length (arData ht) \<and>
     (\<forall>k. k < n \<or> m \<le> k \<longrightarrow> D ! k = arData ht ! k) \<and> (\<forall>k. n \<le> k \<and> k < m \<longrightarrow> \<not> live (D ! k))"
  using assms
proof (induction m)
  case 0
  then show ?case by (intro exI [of _ "arData ht"]) (simp add: mark_undef_def)
next
  case (Suc m)
  show ?case
  proof (cases "n = Suc m")
    case True
    then show ?thesis by (intro exI [of _ "arData ht"]) (auto simp: mark_undef_def)
  next
    case False
    with Suc obtain D where D: "mark_undef n m ht = ht\<lparr>arData := D\<rparr>" "length D = length (arData ht)"
      "\<forall>k. k < n \<or> m \<le> k \<longrightarrow> D ! k = arData ht ! k" "\<forall>k. n \<le> k \<and> k < m \<longrightarrow> \<not> live (D ! k)"
      by auto
    have "mark_undef n (Suc m) ht = set_val m IS_UNDEF (mark_undef n m ht)"
      using False Suc.prems by (simp add: mark_undef_def)
    also have "\<dots> = ht\<lparr>arData := D[m := (D ! m)\<lparr>b_val := IS_UNDEF\<rparr>]\<rparr>"
      by (simp add: D(1) set_val_def)
    finally show ?thesis
      using D Suc.prems False
      by (intro exI [of _ "D[m := (D ! m)\<lparr>b_val := IS_UNDEF\<rparr>]"])
        (auto simp: nth_list_update live_def less_Suc_eq)
  qed
qed

lemma filter_take_gap:
  assumes "n \<le> m" "m \<le> length D" "\<And>k. n \<le> k \<Longrightarrow> k < m \<Longrightarrow> \<not> P (D ! k)"
  shows "filter P (take m D) = filter P (take n D)"
proof -
  have "take m D = take n D @ take (m - n) (drop n D)"
    using assms(1) by (metis le_add_diff_inverse take_add)
  moreover have "filter P (take (m - n) (drop n D)) = []"
    unfolding filter_empty_conv
  proof
    fix x assume "x \<in> set (take (m - n) (drop n D))"
    then obtain j where "j < m - n" "x = D ! (n + j)"
      using assms(2) by (auto simp: in_set_conv_nth)
    then show "\<not> P x" using assms(3) [of "n + j"] by simp
  qed
  ultimately show ?thesis by simp
qed

text \<open>
  The flags that promise a packed table without a gap behind its used buckets are only safe
  when the promise holds.
\<close>

definition next_promise :: "HashTable \<Rightarrow> zend_ulong \<Rightarrow> u32 \<Rightarrow> bool" where
  "next_promise ht h flag \<longleftrightarrow>
     (flag AND (HASH_ADD_NEW OR HASH_ADD_NEXT) = HASH_ADD_NEW OR HASH_ADD_NEXT \<longrightarrow>
      ht_initialized ht \<and> \<not> ht_packed ht \<or> unat h = nNumUsed ht)"

lemma index_add_to_packed_spec:
  assumes inv: "ht_inv ht" and i: "ht_initialized ht" "ht_packed ht"
    and h: "nNumUsed ht \<le> unat h" "unat h < nTableSize ht" and v: "storable v"
    and flag: "next_promise ht h flag"
  shows "\<exists>res. index_add_to_packed w ht h v flag = Inr res \<and> written w ht (IntKey h) v res \<and>
     events (fst (snd res)) = events w \<and>
     nNextFreeElement (snd (snd res)) = bumped h (nNextFreeElement ht)"
proof -
  let ?i = "unat h"
  have ok: "contents_ok ht" and lay: "packed_layout ht" using inv i by (auto simp: ht_inv_def)
  then have len: "length (arData ht) = nTableSize ht" and nn: "0 \<le> sint (nNextFreeElement ht)"
    by (auto simp: packed_layout_def contents_ok_def next_free_ok_def)
  obtain D where D: "mark_undef (nNumUsed ht) ?i ht = ht\<lparr>arData := D\<rparr>" "length D = length (arData ht)"
      "\<forall>k. k < nNumUsed ht \<or> ?i \<le> k \<longrightarrow> D ! k = arData ht ! k"
      "\<forall>k. nNumUsed ht \<le> k \<and> k < ?i \<longrightarrow> \<not> live (D ! k)"
    using mark_undef_spec [of "nNumUsed ht" ?i ht] h len by auto
  define E where "E = (if nNumUsed ht < ?i then D else arData ht)"
  let ?b = "(arData ht ! ?i)\<lparr>b_h := h, b_key := None, b_val := v\<rparr>"
  have E: "length E = nTableSize ht" "\<And>k. k < nNumUsed ht \<Longrightarrow> E ! k = arData ht ! k"
      "\<And>k. nNumUsed ht \<le> k \<Longrightarrow> k < ?i \<Longrightarrow> \<not> live (E ! k)" "E ! ?i = arData ht ! ?i"
    using D len h by (auto simp: E_def)
  have marked: "(if nNumUsed ht < ?i then mark_undef (nNumUsed ht) ?i ht else ht) = ht\<lparr>arData := E\<rparr>"
    using D(1) by (auto simp: E_def)
  have ht1: "(if flag AND (HASH_ADD_NEW OR HASH_ADD_NEXT) = (HASH_ADD_NEW OR HASH_ADD_NEXT)
              then ht\<lparr>nNumUsed := ?i + 1\<rparr>
              else if ?i \<ge> nNumUsed ht then
                (if ?i > nNumUsed ht then mark_undef (nNumUsed ht) ?i ht else ht)\<lparr>nNumUsed := ?i + 1\<rparr>
              else ht) = ht\<lparr>arData := E, nNumUsed := ?i + 1\<rparr>"
    using flag h(1) i by (auto simp: marked next_promise_def E_def)
  define w' where "w' = fst (snd (projr (index_add_to_packed w ht h v flag)))"
  define ht' where "ht' = snd (snd (projr (index_add_to_packed w ht h v flag)))"
  have r: "index_add_to_packed w ht h v flag = Inr (Some (BUCKET ?i), w', ht')"
    and w': "slots w' = slots w" "events w' = events w"
    and f: "ht_initialized ht'" "ht_packed ht'" "nTableMask ht' = nTableMask ht"
      "nTableSize ht' = nTableSize ht" "nNumUsed ht' = ?i + 1"
      "nNumOfElements ht' = nNumOfElements ht + 1"
      "nInternalPointer ht' = (if nInternalPointer ht = HT_INVALID_IDX then ?i else nInternalPointer ht)"
      "arData ht' = E[?i := ?b]" "arHash ht' = arHash ht"
      "nNextFreeElement ht' = nNextFreeElement (bump_next_free h ht)"
      "ht_static_keys ht' = ht_static_keys ht" "ht_ident ht' = ht_ident ht"
    using h(2) i E(1,4) unfolding w'_def ht'_def index_add_to_packed_def Let_def ht1
    by (simp_all add: bump_next_free_def)
  have key: "bkey ?b = IntKey h" by (simp add: bkey_simps)
  have b: "bucket_ok ?b" "live ?b" using v by (auto simp: bucket_ok_def live_def storable_def)
  note nf = bump_next_free_bounds [OF nn, of h]
  have new: "key_pos ht (IntKey h) = None" using packed_index_pos [OF inv i(2)] h by simp
  then have absent: "bkey ?b \<notin> bkey ` set (ht_buckets ht)" using key_pos_None [OF new inv] key by auto
  have tk: "take (nNumUsed ht) E = take (nNumUsed ht) (arData ht)"
    using E len h by (intro nth_equalityI) auto
  have "ht_buckets ht' = filter live (take ?i E) @ [?b]"
    using f b E h by (simp add: ht_buckets_def take_Suc_conv_app_nth)
  also have "filter live (take ?i E) = ht_buckets ht"
    using filter_take_gap [of "nNumUsed ht" ?i E live] E h tk by (simp add: ht_buckets_def)
  finally have bk: "ht_buckets ht' = ht_buckets ht @ [?b]" .
  have "contents_ok ht'"
    by (rule push_contents [OF ok bk]) (use f h E b absent nf key in auto)
  moreover have "packed_layout ht'"
    using lay f E h len by (auto simp: packed_layout_def nth_list_update less_Suc_eq)
      (metis not_le)+
  ultimately have inv': "ht_inv ht'" using f by (simp add: ht_inv_def)
  have "written w ht (bkey ?b) (b_val ?b) (Some (BUCKET ?i), w', ht')"
    by (rule written_push [OF inv' f(1) bk _ inv f(12) w'(1)]) (use f b new E h in \<open>simp_all add: bkey_simps\<close>)
  then show ?thesis using r w' f by (simp add: bkey_simps bump_next_free_bumped)
qed

lemma index_insert_absent:
  assumes inv: "ht_inv ht" and i: "ht_initialized ht" "\<not> ht_packed ht"
    and new: "key_pos ht (IntKey h) = None" and v: "storable v"
  shows "outcome ht (\<lambda>res. written w ht (IntKey h) v res \<and>
      events (fst (snd res)) = events w @ [] \<and>
      nNextFreeElement (snd (snd res)) = bumped h (nNextFreeElement ht))
     (res_bind (ZEND_HASH_IF_FULL_DO_RESIZE w ht) (\<lambda>(w, ht). index_add_to_hash w ht h v))"
  by (rule resize_then [OF inv i new]; unfold prod.case append_Nil2)
    (rule index_add_to_hash_spec [OF _ _ _ _ _ v]; assumption)

lemma index_insert_packed_to_hash:
  assumes inv: "ht_inv ht" and i: "ht_initialized ht"
    and new: "key_pos ht (IntKey h) = None" and v: "storable v"
  shows "outcome ht (\<lambda>res. written w ht (IntKey h) v res \<and> events (fst (snd res)) = events w \<and>
      nNextFreeElement (snd (snd res)) = bumped h (nNextFreeElement ht))
     (case zend_hash_packed_to_hash w ht of (w, ht) \<Rightarrow>
        res_bind (ZEND_HASH_IF_FULL_DO_RESIZE w ht) (\<lambda>(w, ht). index_add_to_hash w ht h v))"
proof -
  obtain w1 ht1 where c: "zend_hash_packed_to_hash w ht = (w1, ht1)" by fastforce
  note z = zend_hash_packed_to_hash_inv [OF inv i c]
  have fr: "slots w1 = slots w" "events w1 = events w" using packed_to_hash_frame [of w ht] c by auto
  have new1: "key_pos ht1 (IntKey h) = None" using reorganised_key_pos [OF z(2) inv z(1)] new by simp
  have i1: "ht_initialized ht1" using z(2) i reorganised_initialized by auto
  have nx: "nNextFreeElement ht1 = nNextFreeElement ht"
    using z(2) ht_frameD [of ht1 ht] by (simp add: reorganised_def)
  show ?thesis
    using index_insert_absent [OF z(1) i1 z(3) new1 v, of w1]
      written_reorganised [OF z(2) fr(1)] reorganised_entries [OF z(2)]
    by (auto simp: c nx fr outcome_def table_full_def split: sum.splits)
qed

text \<open>The whole routine.\<close>

definition index_add_post ::
  "world \<Rightarrow> HashTable \<Rightarrow> zend_ulong \<Rightarrow> zval \<Rightarrow> u32 \<Rightarrow> zref option \<times> world \<times> HashTable \<Rightarrow> bool" where
  "index_add_post w ht h v flag res \<longleftrightarrow>
     (if flag AND HASH_ADD \<noteq> 0 \<and> map_of (ht_entries ht) (IntKey h) \<noteq> None then res = (None, w, ht)
      else written w ht (IntKey h) v res \<and>
        events (fst (snd res)) = events w @ write_events ht (IntKey h) [])"

lemma index_add_post_absent:
  "map_of (ht_entries ht) (IntKey h) = None \<Longrightarrow> written w ht (IntKey h) v res \<Longrightarrow>
   events (fst (snd res)) = events w \<Longrightarrow> index_add_post w ht h v flag res"
  by (simp add: index_add_post_def write_events_def)

lemma index_add_post_present:
  assumes inv: "ht_inv ht" and i: "ht_initialized ht" and k: "key_pos ht (IntKey h) = Some idx"
    and v: "storable v"
  shows "index_add_post w ht h v flag
     (if flag AND HASH_ADD \<noteq> 0 then (None, w, ht)
      else (Some (BUCKET idx), call_dtor ht (b_val (arData ht ! idx)) w, set_val idx v ht))"
proof -
  have "map_of (ht_entries ht) (IntKey h) = Some (b_val (arData ht ! idx))"
    using map_of_entries [OF inv] k by simp
  moreover have "written w ht (IntKey h) v
      (Some (BUCKET idx), call_dtor ht (b_val (arData ht ! idx)) w, set_val idx v ht)"
    by (rule written_set_val [OF inv i k v]) (simp add: events_call_dtor)
  ultimately show ?thesis
    by (simp add: index_add_post_def write_events_def events_call_dtor)
qed

text \<open>The found branch in hash layout also bumps the next free index; it is above the key already.\<close>

lemma bump_present:
  assumes inv: "ht_inv ht" and k: "key_pos ht (IntKey h) = Some idx"
  shows "bump_next_free h (set_val idx v ht) = set_val idx v ht"
proof -
  note p = key_pos_Some [OF k]
  have "arData ht ! idx \<in> set (ht_buckets ht)"
    using used_bucket_in_set [OF p(1) ht_inv_used_le [OF inv] p(2)] .
  moreover have "b_key (arData ht ! idx) = None" "b_h (arData ht ! idx) = h"
    using p(3) by (cases "b_key (arData ht ! idx)"; simp add: bkey_simps)+
  ultimately have "sint h < sint (nNextFreeElement ht) \<or> nNextFreeElement ht = ZEND_LONG_MAX"
    using inv by (auto simp: ht_inv_def contents_ok_def next_free_ok_def)
  then show ?thesis
  proof
    assume "nNextFreeElement ht = ZEND_LONG_MAX"
    moreover from this have "sint h \<ge> sint (nNextFreeElement ht) \<Longrightarrow> h = ZEND_LONG_MAX"
      using ZEND_LONG_MAX_top by simp
    ultimately show ?thesis by (cases ht) (auto simp: bump_next_free_def set_val_def)
  qed (simp add: bump_next_free_def)
qed

lemma zend_hash_index_add_or_update_i_spec:
  assumes inv: "ht_inv ht" and v: "storable v" and np: "next_promise ht h flag"
    and nw: "flag AND HASH_ADD_NEW \<noteq> 0 \<Longrightarrow> map_of (ht_entries ht) (IntKey h) = None"
  shows "outcome ht (index_add_post w ht h v flag) (zend_hash_index_add_or_update_i w ht h v flag)"
proof -
  let ?k = "IntKey h"
  have ok: "contents_ok ht" using inv by (simp add: ht_inv_def)
  then have sz: "size_ok (nTableSize ht)" by (simp add: contents_ok_def)
  consider (u) "\<not> ht_initialized ht" | (p) "ht_initialized ht" "ht_packed ht"
    | (h) "ht_initialized ht" "\<not> ht_packed ht" by blast
  then show ?thesis
  proof cases
    case u
    note e = uninit_empty [OF inv u]
    define ht1 where "ht1 = zend_hash_real_init_ex ht (unat h < nTableSize ht)"
    note z = zend_hash_real_init_inv [OF inv u, of "unat h < nTableSize ht", folded ht1_def]
    have np1: "unat h < nTableSize ht \<Longrightarrow> next_promise ht1 h flag"
      using np u e z by (simp add: next_promise_def)
    have room: "nNumUsed ht1 < nTableSize ht1" using z size_ok_bounds [OF sz] by simp
    have "\<exists>res. (if unat h < nTableSize ht then index_add_to_packed w ht1 h v flag
          else index_add_to_hash w ht1 h v) = Inr res \<and> written w ht1 ?k v res \<and>
          events (fst (snd res)) = events w"
      using index_add_to_packed_spec [OF z(1,2) _ _ _ v np1, of w] z
        index_add_to_hash_spec [OF z(1,2) _ room z(11) v, of w h]
      by (cases "unat h < nTableSize ht") (simp_all, blast+)
    then obtain res where r: "(if unat h < nTableSize ht then index_add_to_packed w ht1 h v flag
          else index_add_to_hash w ht1 h v) = Inr res" "written w ht1 ?k v res"
          "events (fst (snd res)) = events w" by blast
    have "written w ht ?k v res" using r(2) z e by (auto simp: written_def)
    then have post: "index_add_post w ht h v flag res"
      using e r(3) by (intro index_add_post_absent) simp_all
    have "zend_hash_index_add_or_update_i w ht h v flag = Inr res"
      using r(1) u unfolding zend_hash_index_add_or_update_i_def zend_hash_check_init_def Let_def ht1_def
      by (cases "unat h < nTableSize ht") simp_all
    then show ?thesis using post by simp
  next
    case p
    have lay: "packed_layout ht" using inv p by (simp add: ht_inv_def)
    note pos = packed_index_pos [OF inv p(2), of h]
    show ?thesis
    proof (cases "unat h < nNumUsed ht \<and> live (arData ht ! unat h)")
      case True
      then have "key_pos ht ?k = Some (unat h)" using pos by simp
      from index_add_post_present [OF inv p(1) this v, of w flag] True p show ?thesis
        by (auto simp: zend_hash_index_add_or_update_i_def Let_def live_def)
    next
      case False
      then have none: "key_pos ht ?k = None" using pos by simp
      then have none': "map_of (ht_entries ht) ?k = None" using absent_map_of [OF inv] by simp
      have conv: "outcome ht (index_add_post w ht h v flag)
         (case zend_hash_packed_to_hash w ht of (w, ht) \<Rightarrow>
            res_bind (ZEND_HASH_IF_FULL_DO_RESIZE w ht) (\<lambda>(w, ht). index_add_to_hash w ht h v))"
        by (rule outcome_mono [OF index_insert_packed_to_hash [OF inv p(1) none v]])
          (use none' in \<open>simp add: index_add_post_absent\<close>)
      consider (hole) "unat h < nNumUsed ht" | (inside) "nNumUsed ht \<le> unat h" "unat h < nTableSize ht"
        | (grow) "nTableSize ht \<le> unat h" "unat (drop_bit 1 h) < nTableSize ht \<and> nTableSize ht div 2 < nNumOfElements ht"
        | (far) "nTableSize ht \<le> unat h" "\<not> (unat (drop_bit 1 h) < nTableSize ht \<and> nTableSize ht div 2 < nNumOfElements ht)"
        by linarith
      then show ?thesis
      proof cases
        case hole
        with False have "b_val (arData ht ! unat h) = IS_UNDEF" by (simp add: live_def)
        with conv hole p show ?thesis by (simp add: zend_hash_index_add_or_update_i_def Let_def)
      next
        case inside
        obtain res where "index_add_to_packed w ht h v flag = Inr res" "written w ht ?k v res"
            "events (fst (snd res)) = events w"
          using index_add_to_packed_spec [OF inv p inside v np, of w] by blast
        with inside p none' show ?thesis
          by (simp add: zend_hash_index_add_or_update_i_def Let_def index_add_post_absent)
      next
        case grow
        have used: "nNumUsed ht \<le> nTableSize ht" using ok by (simp add: contents_ok_def)
        have eq: "zend_hash_index_add_or_update_i w ht h v flag =
            res_bind (zend_hash_packed_grow ht) (\<lambda>ht1. index_add_to_packed w ht1 h v flag)"
          using grow p used by (simp add: zend_hash_index_add_or_update_i_def Let_def)
        show ?thesis
        proof (cases "zend_hash_packed_grow ht")
          case (Inl e)
          then have "e = E_ERROR_MEMORY" "HT_MAX_SIZE \<le> nTableSize ht"
            by (auto simp: zend_hash_packed_grow_def Let_def split: if_splits)
          then show ?thesis using Inl eq grow(2) length_entries [OF inv]
            by (auto simp: table_full_def HT_MAX_SIZE_def)
        next
          case (Inr ht1)
          note z = zend_hash_packed_grow_inv [OF inv p Inr]
          have hb: "unat h < nTableSize ht1"
          proof -
            have "unat (drop_bit 1 h) = unat h div 2"
              unfolding unat_drop_bit_eq by (simp add: drop_bit_eq_div)
            then show ?thesis using grow(2) z(4) by linarith
          qed
          have np1: "next_promise ht1 h flag" using np p z by (simp add: next_promise_def)
          have i1: "ht_initialized ht1" using z(2) p reorganised_initialized by auto
          obtain res where "index_add_to_packed w ht1 h v flag = Inr res" "written w ht1 ?k v res"
              "events (fst (snd res)) = events w"
            using index_add_to_packed_spec [OF z(1) i1 z(3) _ hb v np1, of w] z(5) used grow(1) by auto
          then show ?thesis using eq Inr none' written_reorganised [OF z(2)]
            by (simp add: index_add_post_absent)
        qed
      next
        case far
        have "\<not> unat h < nNumUsed ht" using far(1) ok by (simp add: contents_ok_def)
        with far conv p show ?thesis by (auto simp: zend_hash_index_add_or_update_i_def Let_def)
      qed
    qed
  next
    case h
    have new: "outcome ht (index_add_post w ht h v flag)
       (res_bind (ZEND_HASH_IF_FULL_DO_RESIZE w ht) (\<lambda>(w, ht). index_add_to_hash w ht h v))"
      if "key_pos ht ?k = None"
      by (rule outcome_mono [OF index_insert_absent [OF inv h that v]])
        (use that inv in \<open>auto simp: absent_map_of intro!: index_add_post_absent\<close>)
    show ?thesis
    proof (cases "key_pos ht ?k")
      case None
      then show ?thesis using h new zend_hash_index_find_bucket_inv [OF inv h(2), of h]
        by (simp add: zend_hash_index_add_or_update_i_def Let_def)
    next
      case (Some idx)
      then have "map_of (ht_entries ht) ?k \<noteq> None" using map_of_entries [OF inv] by simp
      with nw have "flag AND HASH_ADD_NEW = 0" by blast
      with h Some index_add_post_present [OF inv h(1) Some v, of w flag] bump_present [OF inv Some, of v]
        zend_hash_index_find_bucket_inv [OF inv h(2), of h]
      show ?thesis by (simp add: zend_hash_index_add_or_update_i_def Let_def split: if_splits)
    qed
  qed
qed

subsection \<open>Lookups\<close>

text \<open>In either layout a search returns the bucket of the key.\<close>

lemma find_bucket_pos:
  assumes inv: "ht_inv ht"
  shows "zend_hash_find_bucket ht s = Inr (key_pos ht (StrKey (zs_val s)))"
    "zend_hash_str_find_bucket ht str (zend_inline_hash_func str) = Inr (key_pos ht (StrKey str))"
  using inv zend_hash_find_bucket_inv [OF inv] zend_hash_str_find_bucket_inv [OF inv]
    packed_no_string [OF inv] chain_find_packed [OF inv]
  by (cases "ht_packed ht"; simp add: zend_hash_find_bucket_def zend_hash_str_find_bucket_def Let_def)+

lemma index_find_pos:
  assumes inv: "ht_inv ht"
  shows "zend_hash_index_find ht h = Inr (map_option BUCKET (key_pos ht (IntKey h)))"
    "zend_hash_index_exists ht h = Inr (key_pos ht (IntKey h) \<noteq> None)"
  using zend_hash_index_find_bucket_inv [OF inv, of h] packed_index_pos [OF inv, of h]
  by (cases "ht_packed ht"; auto simp: zend_hash_index_find_def zend_hash_index_exists_def live_def
      split: option.splits)+

lemma find_pos:
  assumes inv: "ht_inv ht"
  shows "zend_hash_find ht key = Inr (map_option BUCKET (key_pos ht (StrKey (zs_val key))))"
    "zend_hash_str_find ht str = Inr (map_option BUCKET (key_pos ht (StrKey str)))"
    "zend_hash_exists ht key = Inr (key_pos ht (StrKey (zs_val key)) \<noteq> None)"
    "zend_hash_str_exists ht str = Inr (key_pos ht (StrKey str) \<noteq> None)"
  by (auto simp: zend_hash_find_def zend_hash_str_find_def zend_hash_exists_def
      zend_hash_str_exists_def find_bucket_pos [OF inv] split: option.splits)

text \<open>Reading through the returned pointer gives the value of the key.\<close>

definition zref_val :: "world \<Rightarrow> HashTable \<Rightarrow> zref option res \<Rightarrow> zval option res" where
  "zref_val w ht m = res_bind m (\<lambda>r. Inr (map_option (zref_get w ht) r))"

lemma zref_val_pos:
  "ht_inv ht \<Longrightarrow> zref_val w ht (Inr (map_option BUCKET (key_pos ht k))) = Inr (map_of (ht_entries ht) k)"
  by (simp add: zref_val_def map_of_entries option.map_comp comp_def zref_get_def)

lemma key_pos_map_of: "ht_inv ht \<Longrightarrow> key_pos ht k \<noteq> None \<longleftrightarrow> map_of (ht_entries ht) k \<noteq> None"
  by (simp add: map_of_entries)

subsection \<open>Indirect elements\<close>

text \<open>
  With the \<open>INDIRECT\<close> flag, a write to a key whose element is \<open>IS_INDIRECT\<close> goes to the slot it
  refers to; the table stays as it is.
\<close>

lemma update_indirect_spec:
  assumes inv: "ht_inv ht" and ind: "map_of (ht_entries ht) (StrKey (zs_val key)) = Some (IS_INDIRECT a)"
    and fl: "flag AND HASH_UPDATE_INDIRECT \<noteq> 0" "flag AND HASH_ADD_NEW = 0"
  shows "zend_hash_add_or_update_i w ht key v flag =
     (if flag AND HASH_ADD \<noteq> 0 \<and> slots w a \<noteq> IS_UNDEF then Inr (None, w, ht)
      else Inr (Some (SLOT a), (call_dtor ht (slots w a) w)\<lparr>slots := (slots w)(a := v)\<rparr>, ht))"
proof -
  let ?k = "StrKey (zs_val key)"
  obtain idx where k: "key_pos ht ?k = Some idx" and b: "b_val (arData ht ! idx) = IS_INDIRECT a"
    using map_of_entries [OF inv, of ?k] ind by (cases "key_pos ht ?k") auto
  have i: "ht_initialized ht" using uninit_empty(5) [OF inv, of ?k] k by auto
  have np: "\<not> ht_packed ht" using packed_no_string [OF inv, of "zs_val key"] k by auto
  have "zend_hash_find_bucket ht key = Inr (Some idx)" using find_bucket_pos(1) [OF inv] k by simp
  then show ?thesis
    using i np fl by (simp add: zend_hash_add_or_update_i_def hash_update_found_def
        hash_update_target_def Let_def b zref_get_def zref_set_def events_call_dtor)
qed

end
