(* ===== verification/Zend_Hash_Init.thy ===== *)
theory Zend_Hash_Init
  imports Zend_Hash_Insert
begin

text \<open>
  Table sizes and initialisation: both ways of rounding a size up to a power of two agree, the
  result is the smallest admissible size, and a new or pre-sized table satisfies the invariant.
\<close>

subsection \<open>Rounding up to a power of two\<close>

text \<open>
  The highest bit of a non-zero word, and the word with every bit below it set.
\<close>

lemma bit_u32: "bit (n :: u32) k \<Longrightarrow> k < 32"
  using bit_imp_le_length [of n k] by simp

lemma highest_bit:
  fixes n :: u32
  assumes "n \<noteq> 0"
  shows "\<exists>k<32. bit n k \<and> (\<forall>j>k. \<not> bit n j)"
proof -
  let ?S = "{k. bit n k}"
  have fin: "finite ?S" by (rule finite_subset [of _ "{..<32}"]) (auto dest: bit_u32)
  obtain k where "bit n k" using assms by (auto simp: bit_eq_iff)
  then have "?S \<noteq> {}" by auto
  then have "Max ?S \<in> ?S" using fin by (rule Max_in [rotated])
  moreover have "\<not> bit n j" if "j > Max ?S" for j
  proof
    assume "bit n j"
    then have "j \<le> Max ?S" using fin by (intro Max_ge) auto
    with that show False by simp
  qed
  ultimately show ?thesis using bit_u32 by blast
qed

lemma highest_bit_bounds:
  fixes n :: u32
  assumes "bit n k" "\<forall>j>k. \<not> bit n j"
  shows "2 ^ k \<le> unat n" "unat n < 2 ^ Suc k"
proof -
  have "bit (unat n) j \<longleftrightarrow> bit n j" for j by (simp add: bit_unsigned_iff)
  then have b: "bit (unat n) k" "\<forall>j>k. \<not> bit (unat n) j" using assms by auto
  have "take_bit (Suc k) (unat n) = unat n"
    by (rule bit_eqI) (use b(2) in \<open>auto simp: bit_take_bit_iff not_less less_Suc_eq_le not_le\<close>)
  then show "unat n < 2 ^ Suc k" by (metis take_bit_nat_less_exp)
  show "2 ^ k \<le> unat n" using b(1) by (simp add: bit_iff_odd) (metis div_less even_zero not_le)
qed

lemma smear_step:
  fixes n a :: u32
  assumes "\<And>i. bit a i = (\<exists>j\<in>{i..<i + m}. bit n j)"
  shows "bit (a OR drop_bit m a) i = (\<exists>j\<in>{i..<i + (m + m)}. bit n j)"
proof -
  have "{i..<i + (m + m)} = {i..<i + m} \<union> {i + m..<i + m + m}" by auto
  moreover have "bit (a OR drop_bit m a) i = (bit a i \<or> bit a (i + m))"
    by (simp add: bit_or_iff bit_drop_bit_eq add.commute)
  ultimately show ?thesis using assms [of i] assms [of "i + m"] by blast
qed

definition smear :: "u32 \<Rightarrow> u32" where
  "smear n = (let n = n OR drop_bit 1 n; n = n OR drop_bit 2 n; n = n OR drop_bit 4 n;
     n = n OR drop_bit 8 n; n = n OR drop_bit 16 n in n)"

lemma bit_smear: "bit (smear n) i = (\<exists>j\<in>{i..<i + 32}. bit n j)"
proof -
  have 1: "bit (n OR drop_bit 1 n) i = (\<exists>j\<in>{i..<i + 2}. bit n j)" for i
    using smear_step [of n 1 n i] by simp
  note 2 = smear_step [of _ 2 n, OF 1, simplified]
  note 4 = smear_step [of _ 4 n, OF 2, simplified]
  note 8 = smear_step [of _ 8 n, OF 4, simplified]
  note 16 = smear_step [of _ 16 n, OF 8, simplified]
  show ?thesis using 16 [of i] by (simp add: smear_def Let_def)
qed

lemma smear_eq_mask:
  assumes "bit n k" "\<forall>j>k. \<not> bit n j"
  shows "smear n = mask (Suc k)"
proof (rule bit_word_eqI)
  fix i assume "i < LENGTH(32)"
  have "bit (smear n) i \<longleftrightarrow> i \<le> k"
    unfolding bit_smear using assms bit_u32 [OF assms(1)] by (auto simp: not_less [symmetric])
  then show "bit (smear n) i = bit (mask (Suc k) :: u32) i"
    using bit_u32 [OF assms(1)] by (auto simp: bit_mask_iff)
qed

lemma builtin_clz_eq:
  assumes "bit n k" "\<forall>j>k. \<not> bit n j"
  shows "builtin_clz n = 31 - k"
proof -
  have k: "k < 32" using bit_u32 [OF assms(1)] .
  have "rev [0..<32] = rev [Suc k..<32] @ k # rev [0..<k]"
    using k by (metis le_add_same_cancel1 less_imp_le_nat plus_1_eq_Suc rev.simps(2) rev_append append.assoc append_Cons append_Nil upt_Suc_append upt_add_eq_append upt_conv_Cons zero_le le_add_diff_inverse)
  then have "map (bit n) (rev [0..<32]) = map (bit n) (rev [Suc k..<32]) @ True # map (bit n) (rev [0..<k])"
    using assms(1) by simp
  moreover have "takeWhile Not (map (bit n) (rev [Suc k..<32]) @ True # ys) = map (bit n) (rev [Suc k..<32])" for ys
    using assms(2) by (subst takeWhile_append2) auto
  ultimately show ?thesis using k by (simp add: builtin_clz_def)
qed

text \<open>The size both computations return.\<close>

lemma check_size_value:
  assumes "unat n < HT_MAX_SIZE"
  shows "\<exists>k. 2 \<le> k \<and> k \<le> 30 \<and> 2 ^ k < max 8 (unat n) \<and> max 8 (unat n) \<le> 2 ^ Suc k \<and>
     zend_hash_check_size n = Inr (2 ^ Suc k) \<and> zend_hash_check_size_clz n = Inr (2 ^ Suc k)"
proof -
  define m where "m = (if n < 8 then 8 else n)"
  have m: "unat m = max 8 (unat n)" by (auto simp: m_def word_less_nat_alt max_def)
  have n_lt: "\<not> 0x80000000 \<le> n" using assms by (simp add: word_le_nat_alt HT_MAX_SIZE_def)
  have m1: "unat (m - 1) = unat m - 1" using m by (intro unat_minus_one) auto
  then have "m - 1 \<noteq> 0" using m by auto
  then obtain k where k: "k < 32" "bit (m - 1) k" "\<forall>j>k. \<not> bit (m - 1) j" using highest_bit by blast
  note b = highest_bit_bounds [OF k(2,3)]
  have m_lt: "unat m - 1 < 2 ^ 31" "7 \<le> unat m - 1" using m assms by (auto simp: HT_MAX_SIZE_def max_def)
  have "(2::nat) ^ k < 2 ^ 31" using b(1) m1 m_lt by linarith
  then have k30: "k \<le> 30" by (simp only: power_strict_increasing_iff)
  have "(2::nat) ^ 2 < 2 ^ Suc k" using b(2) m1 m_lt by simp
  then have k2: "2 \<le> k" by (simp only: power_strict_increasing_iff)
  have sm: "smear (m - 1) + 1 = 2 ^ Suc k"
    unfolding smear_eq_mask [OF k(2,3)] by (simp add: mask_eq_exp_minus_1)
  have check: "zend_hash_check_size n = Inr (smear (m - 1) + 1)"
    using n_lt by (simp add: zend_hash_check_size_def m_def smear_def Let_def)
  have "\<forall>k \<in> set [0..<32]. unat (of_nat (31 - k) XOR 0x1f :: u32) = k" by code_simp
  then have x: "unat (of_nat (31 - k) XOR 0x1f :: u32) = k" using k(1) by simp
  have clz: "zend_hash_check_size_clz n = Inr (2 ^ Suc k)"
  proof -
    have "zend_hash_check_size_clz n = Inr (push_bit (unat (of_nat (31 - k) XOR 0x1f :: u32)) 2)"
      using n_lt builtin_clz_eq [OF k(2,3)]
      by (cases "n < 8") (simp_all add: zend_hash_check_size_clz_def m_def Let_def)
    then show ?thesis by (simp only: x) (simp add: push_bit_eq_mult)
  qed
  have "2 ^ k < max 8 (unat n) \<and> max 8 (unat n) \<le> 2 ^ Suc k" using b m1 m m_lt by linarith
  then show ?thesis using k2 k30 check sm clz by auto
qed

lemma check_size_Inl_iff: "zend_hash_check_size n = Inl e \<longleftrightarrow> HT_MAX_SIZE \<le> unat n \<and> e = E_ERROR_MEMORY"
proof (cases "HT_MAX_SIZE \<le> unat n")
  case True
  then have "0x80000000 \<le> n" by (simp add: word_le_nat_alt HT_MAX_SIZE_def)
  moreover have "\<not> n < 8" using True by (simp add: word_less_nat_alt HT_MAX_SIZE_def)
  ultimately show ?thesis using True by (auto simp: zend_hash_check_size_def)
next
  case False
  then obtain k where "zend_hash_check_size n = Inr (2 ^ Suc k)"
    using check_size_value [of n] by (auto simp: not_le)
  with False show ?thesis by simp
qed

lemma check_size_Inr:
  assumes "zend_hash_check_size n = Inr s"
  shows "size_ok (unat s)" "unat n \<le> unat s" "size_ok m \<Longrightarrow> unat n \<le> m \<Longrightarrow> unat s \<le> m"
    "s = of_nat (unat s)"
proof -
  have "unat n < HT_MAX_SIZE" using check_size_Inl_iff [of n E_ERROR_MEMORY] assms by auto
  then obtain k where k: "2 \<le> k" "k \<le> 30" "2 ^ k < max 8 (unat n)" "max 8 (unat n) \<le> 2 ^ Suc k"
      "s = 2 ^ Suc k"
    using check_size_value [of n] assms by auto
  have u: "unat s = 2 ^ Suc k" using k by (simp only: unat_pow2_32)
  show "size_ok (unat s)" unfolding size_ok_def u using k by (intro exI [of _ "Suc k"]) simp
  show "unat n \<le> unat s" using k u by simp
  show "s = of_nat (unat s)" by simp
  assume m: "size_ok m" "unat n \<le> m"
  then obtain j where j: "3 \<le> j" "m = 2 ^ j" by (auto simp: size_ok_def)
  have "(2::nat) ^ 3 \<le> 2 ^ j" using j(1) by (simp only: power_increasing)
  then have "max 8 (unat n) \<le> m" using m(2) j(2) by simp
  then have "(2::nat) ^ k < 2 ^ j" using k(3) j(2) by linarith
  then have "Suc k \<le> j" by (simp only: power_strict_increasing_iff Suc_le_eq)
  then show "unat s \<le> m" unfolding u j(2) by (simp only: power_increasing)
qed

subsection \<open>New tables\<close>

lemma zend_hash_init_inv:
  assumes "zend_hash_init a n d p = Inr ht"
  shows "ht_inv ht" "ht_entries ht = []" "\<not> ht_initialized ht" "nNextFreeElement ht = 0"
    "pDestructor ht = d" "unat n \<le> nTableSize ht"
proof -
  obtain s where s: "zend_hash_check_size n = Inr s"
    using assms by (auto simp: zend_hash_init_def res_bind_Inr_iff)
  then have ht: "nTableSize ht = unat s" "nNumUsed ht = 0" "nNumOfElements ht = 0" "nNextFreeElement ht = 0"
      "nInternalPointer ht = HT_INVALID_IDX" "\<not> ht_initialized ht" "\<not> ht_packed ht" "pDestructor ht = d"
      "nTableMask ht = HT_MIN_MASK" "arHash ht = [HT_INVALID_IDX, HT_INVALID_IDX]"
    using assms by (auto simp: zend_hash_init_def)
  have "ht_buckets ht = []" using ht by (simp add: ht_buckets_def)
  with ht check_size_Inr [OF s] show "ht_inv ht" "ht_entries ht = []"
    by (auto simp: ht_inv_def contents_ok_def pointer_ok_def next_free_ok_def uninit_layout_def
        ht_entries_alt)
  show "\<not> ht_initialized ht" "nNextFreeElement ht = 0" "pDestructor ht = d" "unat n \<le> nTableSize ht"
    using ht check_size_Inr(2) [OF s] by simp_all
qed

text \<open>
  Pre-sizing keeps the contents and makes room. The flag for the packed layout must match the
  table once it is initialised (the code asserts it).
\<close>

lemma zend_hash_extend_inv:
  assumes inv: "ht_inv ht" and pk: "ht_initialized ht \<Longrightarrow> packed = ht_packed ht" and n: "n \<noteq> 0"
    and r: "zend_hash_extend w ht n packed = Inr (w', ht')"
  shows "ht_inv ht' \<and> ht_initialized ht' \<and> ht_packed ht' = packed \<and> ht_entries ht' = ht_entries ht \<and>
     ht_ident ht' = ht_ident ht \<and> unat n \<le> nTableSize ht'"
proof -
  have used: "nNumUsed ht \<le> nTableSize ht" and ok: "contents_ok ht"
    using inv by (auto simp: ht_inv_def contents_ok_def)
  show ?thesis
  proof (cases "ht_initialized ht")
    case False
    note e = uninit_empty [OF inv False]
    obtain ht1 where h1: "(if unat n > nTableSize ht
                  then res_bind (zend_hash_check_size n) (\<lambda>s. Inr (ht\<lparr>nTableSize := unat s\<rparr>))
                  else Inr ht) = Inr ht1" "ht' = zend_hash_check_init ht1 packed"
      using r False n by (auto simp: zend_hash_extend_def res_bind_Inr_iff split: if_splits)
    have "ht_inv ht1 \<and> \<not> ht_initialized ht1 \<and> ht_ident ht1 = ht_ident ht \<and> unat n \<le> nTableSize ht1"
    proof (cases "unat n > nTableSize ht")
      case True
      then obtain s where s: "zend_hash_check_size n = Inr s" "ht1 = ht\<lparr>nTableSize := unat s\<rparr>"
        using h1 by (auto simp: res_bind_Inr_iff)
      have "ht_buckets ht1 = ht_buckets ht" by (simp add: s ht_buckets_def)
      then have "ht_inv ht1"
        using inv False e check_size_Inr [OF s(1)]
        by (simp add: ht_inv_def contents_ok_def pointer_ok_def next_free_ok_def uninit_layout_def s(2))
      then show ?thesis using False check_size_Inr [OF s(1)] by (simp add: s)
    next
      case False
      with h1 \<open>\<not> ht_initialized ht\<close> inv show ?thesis by simp
    qed
    then show ?thesis
      using zend_hash_real_init_inv [of ht1 packed] e h1(2) by (simp add: zend_hash_check_init_def)
  next
    case i: True
    have len: "nNumUsed ht \<le> length (arData ht)" by (rule ht_inv_used_le [OF inv])
    show ?thesis
    proof (cases "unat n > nTableSize ht")
      case False
      then show ?thesis using r i n inv pk by (auto simp: zend_hash_extend_def split: if_splits)
    next
      case True
      obtain s where s: "zend_hash_check_size n = Inr s"
        using r i n True by (auto simp: zend_hash_extend_def res_bind_Inr_iff split: if_splits)
      note c = check_size_Inr [OF s]
      have le: "nNumUsed ht \<le> unat s" using used True c(2) by linarith
      show ?thesis
      proof (cases packed)
        case True
        then have "ht' = copy_used (arData ht)
             (ht\<lparr>nTableSize := unat s, arData := replicate (unat s) fresh_bucket\<rparr>)"
          using r i n \<open>unat n > nTableSize ht\<close> s by (auto simp: zend_hash_extend_def Let_def)
        from packed_realloc_inv [OF inv i _ c(1) le this] pk [OF i] True c(2)
        show ?thesis
          using reorganised_entries reorganised_ident reorganised_initialized i by simp
      next
        case False
        have p: "\<not> ht_packed ht" using pk [OF i] False by simp
        have "zend_hash_rehash w (moved ht (unat s)) = (w', ht')"
          using r i n \<open>unat n > nTableSize ht\<close> s False
          by (simp add: zend_hash_extend_def Let_def moved_unpacked [OF p])
        from moved_rehash [OF ok i len c(1) le this] False c(2)
        show ?thesis
          using reorganised_entries reorganised_ident reorganised_initialized i by simp
      qed
    qed
  qed
qed

end
