(* ===== verification/Zend_Hash_Delete.thy ===== *)
theory Zend_Hash_Delete
  imports Zend_Hash_Init
begin

text \<open>
  Deletion: the removal of one bucket (\<open>_zend_hash_del_el_ex\<close>) with the unlinking from its
  chain, the shrinking of the used part, the move of the internal pointer and of the iterators,
  and the functions that look the bucket up first. The lemmas show that a deletion keeps the
  invariant and removes exactly the entry of the key, that it moves the internal pointer to the
  next element, and that it releases the key and destroys the value once.
\<close>

subsection \<open>Removing one bucket\<close>

text \<open>The loop that drops the used buckets behind the last present one.\<close>

fun shrink_used :: "Bucket list \<Rightarrow> nat \<Rightarrow> nat" where
  "shrink_used data 0 = 0"
| "shrink_used data (Suc n) =
     (if n > 0 \<and> b_val (data ! (n - 1)) = IS_UNDEF then shrink_used data n else n)"

text \<open>The next present bucket, or the invalid index.\<close>

function next_live :: "Bucket list \<Rightarrow> nat \<Rightarrow> nat \<Rightarrow> nat" where
  "next_live data used new_idx =
     (let new_idx = new_idx + 1 in
      if new_idx \<ge> used then HT_INVALID_IDX
      else if b_val (data ! new_idx) \<noteq> IS_UNDEF then new_idx
      else next_live data used new_idx)"
  by pat_completeness auto
termination by (relation "measure (\<lambda>(data, used, i). used - i)") auto

declare next_live.simps [simp del]

definition del_unlink :: "nat \<Rightarrow> nat option \<Rightarrow> HashTable \<Rightarrow> HashTable" where
  "del_unlink idx prev ht =
     (let p = arData ht ! idx in
      if \<not> ht_packed ht then
        case prev of
          Some q \<Rightarrow> ht\<lparr>arData := (arData ht)[q := (arData ht ! q)\<lparr>b_next := b_next p\<rparr>]\<rparr>
        | None \<Rightarrow> ht\<lparr>arHash := (arHash ht)[hash_slot (nTableMask ht) (b_h p) := b_next p]\<rparr>
      else ht)"

definition zend_hash_del_el_ex :: "world \<Rightarrow> HashTable \<Rightarrow> nat \<Rightarrow> nat option \<Rightarrow> world \<times> HashTable" where
  "zend_hash_del_el_ex w ht idx prev =
     (let ht1 = del_unlink idx prev ht;
          ht2 = (if nNumUsed ht1 - 1 = idx
                 then ht1\<lparr>nNumUsed := shrink_used (arData ht1) (nNumUsed ht1)\<rparr> else ht1);
          ht3 = ht2\<lparr>nNumOfElements := nNumOfElements ht2 - 1\<rparr>;
          (w4, ht4) =
            (if nInternalPointer ht3 = idx \<or> nIteratorsCount ht3 \<noteq> 0 then
               let new_idx = next_live (arData ht3) (nNumUsed ht3) idx;
                   ht4 = (if nInternalPointer ht3 = idx then ht3\<lparr>nInternalPointer := new_idx\<rparr> else ht3)
               in (zend_hash_iterators_update ht4 idx new_idx w, ht4)
             else (w, ht3));
          p = arData ht4 ! idx;
          w5 = (case b_key p of Some key \<Rightarrow> zend_string_release key w4 | None \<Rightarrow> w4);
          ht5 = set_val idx IS_UNDEF ht4
      in (case pDestructor ht4 of
            Some d \<Rightarrow> (emit (Dtor d (b_val p)) w5, ht5)
          | None \<Rightarrow> (w5, ht5)))"

text \<open>The search for the predecessor of a bucket in its chain.\<close>

fun chain_prev :: "Bucket list \<Rightarrow> nat \<Rightarrow> nat \<Rightarrow> nat \<Rightarrow> nat res" where
  "chain_prev data fuel idx i =
     (if i \<ge> length data then Inl UB_OUT_OF_BOUNDS
      else if b_next (data ! i) = idx then Inr i
      else case fuel of 0 \<Rightarrow> Inl UB_CHAIN_LOOP
           | Suc fuel' \<Rightarrow> chain_prev data fuel' idx (b_next (data ! i)))"

declare chain_prev.simps [simp del]

definition zend_hash_del_el :: "world \<Rightarrow> HashTable \<Rightarrow> nat \<Rightarrow> (world \<times> HashTable) res" where
  "zend_hash_del_el w ht idx =
     (if \<not> ht_packed ht then
        let nIndex = hash_slot (nTableMask ht) (b_h (arData ht ! idx));
            i = arHash ht ! nIndex
        in if i \<noteq> idx then
             res_bind (chain_prev (arData ht) (nTableSize ht) idx i)
               (\<lambda>prev. Inr (zend_hash_del_el_ex w ht idx (Some prev)))
           else Inr (zend_hash_del_el_ex w ht idx None)
      else Inr (zend_hash_del_el_ex w ht idx None))"

definition zend_hash_del_bucket :: "world \<Rightarrow> HashTable \<Rightarrow> nat \<Rightarrow> (world \<times> HashTable) res" where
  "zend_hash_del_bucket w ht p = zend_hash_del_el w ht p"

subsection \<open>Deletion by key\<close>

text \<open>The search of the deletions, which remembers the bucket before the one it looks at.\<close>

fun chain_find_prev ::
  "(Bucket \<Rightarrow> bool) \<Rightarrow> Bucket list \<Rightarrow> nat \<Rightarrow> nat option \<Rightarrow> nat \<Rightarrow> (nat \<times> nat option) option res" where
  "chain_find_prev test data fuel prev idx =
     (if idx = HT_INVALID_IDX then Inr None
      else if idx \<ge> length data then Inl UB_OUT_OF_BOUNDS
      else if test (data ! idx) then Inr (Some (idx, prev))
      else case fuel of 0 \<Rightarrow> Inl UB_CHAIN_LOOP
           | Suc fuel' \<Rightarrow> chain_find_prev test data fuel' (Some idx) (b_next (data ! idx)))"

declare chain_find_prev.simps [simp del]

definition zend_hash_del :: "world \<Rightarrow> HashTable \<Rightarrow> zend_string \<Rightarrow> bool ht_res" where
  "zend_hash_del w ht key =
     (let h = zend_string_hash_val key; nIndex = hash_slot (nTableMask ht) h in
      res_bind (chain_find_prev (same_zend_string h key) (arData ht) (nTableSize ht) None (arHash ht ! nIndex))
        (\<lambda>r. case r of
           Some (idx, prev) \<Rightarrow> Inr (True, zend_hash_del_el_ex w ht idx prev)
         | None \<Rightarrow> Inr (False, w, ht)))"

definition zend_hash_del_ind :: "world \<Rightarrow> HashTable \<Rightarrow> zend_string \<Rightarrow> bool ht_res" where
  "zend_hash_del_ind w ht key =
     (let h = zend_string_hash_val key; nIndex = hash_slot (nTableMask ht) h in
      res_bind (chain_find_prev (same_zend_string h key) (arData ht) (nTableSize ht) None (arHash ht ! nIndex))
        (\<lambda>r. case r of
           Some (idx, prev) \<Rightarrow>
             (case b_val (arData ht ! idx) of
                IS_INDIRECT data \<Rightarrow>
                  if slots w data = IS_UNDEF then Inr (False, w, ht)
                  else
                    let w1 = (case pDestructor ht of
                          Some d \<Rightarrow>
                            let tmp = slots w data in
                            emit (Dtor d tmp) (w\<lparr>slots := (slots w)(data := IS_UNDEF)\<rparr>)
                        | None \<Rightarrow> w\<lparr>slots := (slots w)(data := IS_UNDEF)\<rparr>)
                    in Inr (True, w1, ht\<lparr>ht_has_empty_ind := True\<rparr>)
              | _ \<Rightarrow> Inr (True, zend_hash_del_el_ex w ht idx prev))
         | None \<Rightarrow> Inr (False, w, ht)))"

definition zend_hash_str_del_ind :: "world \<Rightarrow> HashTable \<Rightarrow> bytes \<Rightarrow> bool ht_res" where
  "zend_hash_str_del_ind w ht str =
     (let h = zend_inline_hash_func str; nIndex = hash_slot (nTableMask ht) h in
      res_bind (chain_find_prev (same_bytes h str) (arData ht) (nTableSize ht) None (arHash ht ! nIndex))
        (\<lambda>r. case r of
           Some (idx, prev) \<Rightarrow>
             (case b_val (arData ht ! idx) of
                IS_INDIRECT data \<Rightarrow>
                  if slots w data = IS_UNDEF then Inr (False, w, ht)
                  else
                    let w1 = call_dtor ht (slots w data) w
                    in Inr (True, w1\<lparr>slots := (slots w1)(data := IS_UNDEF)\<rparr>, ht\<lparr>ht_has_empty_ind := True\<rparr>)
              | _ \<Rightarrow> Inr (True, zend_hash_del_el_ex w ht idx prev))
         | None \<Rightarrow> Inr (False, w, ht)))"

definition zend_hash_str_del :: "world \<Rightarrow> HashTable \<Rightarrow> bytes \<Rightarrow> bool ht_res" where
  "zend_hash_str_del w ht str =
     (let h = zend_inline_hash_func str; nIndex = hash_slot (nTableMask ht) h in
      res_bind (chain_find_prev (same_bytes h str) (arData ht) (nTableSize ht) None (arHash ht ! nIndex))
        (\<lambda>r. case r of
           Some (idx, prev) \<Rightarrow> Inr (True, zend_hash_del_el_ex w ht idx prev)
         | None \<Rightarrow> Inr (False, w, ht)))"

definition zend_hash_index_del :: "world \<Rightarrow> HashTable \<Rightarrow> zend_ulong \<Rightarrow> bool ht_res" where
  "zend_hash_index_del w ht h =
     (if ht_packed ht then
        if unat h < nNumUsed ht then
          if b_val (arData ht ! unat h) \<noteq> IS_UNDEF
          then Inr (True, zend_hash_del_el_ex w ht (unat h) None)
          else Inr (False, w, ht)
        else Inr (False, w, ht)
      else
        res_bind (chain_find_prev (same_index h) (arData ht) (nTableSize ht) None
                    (arHash ht ! hash_slot (nTableMask ht) h))
          (\<lambda>r. case r of
             Some (idx, prev) \<Rightarrow> Inr (True, zend_hash_del_el_ex w ht idx prev)
           | None \<Rightarrow> Inr (False, w, ht)))"

subsection \<open>The loops\<close>

lemma shrink_used_spec:
  assumes "n > 0"
  shows "shrink_used data n < n \<and> (\<forall>k. shrink_used data n \<le> k \<and> k < n - 1 \<longrightarrow> b_val (data ! k) = IS_UNDEF) \<and>
     (shrink_used data n > 0 \<longrightarrow> b_val (data ! (shrink_used data n - 1)) \<noteq> IS_UNDEF)"
  using assms
proof (induction n)
  case 0
  then show ?case by simp
next
  case (Suc n)
  show ?case
  proof (cases "n > 0 \<and> b_val (data ! (n - 1)) = IS_UNDEF")
    case True
    then have eq: "shrink_used data (Suc n) = shrink_used data n" by simp
    note ih = Suc.IH [OF conjunct1 [OF True]]
    have "b_val (data ! k) = IS_UNDEF" if "shrink_used data n \<le> k" "k < Suc n - 1" for k
    proof (cases "k = n - 1")
      case False
      with that have "k < n - 1" by simp
      with ih that show ?thesis by blast
    qed (use True in simp)
    with ih show ?thesis unfolding eq by auto
  next
    case False
    then show ?thesis by auto
  qed
qed

lemma next_live_spec:
  "(next_live data used i = HT_INVALID_IDX \<and> (\<forall>k. i < k \<and> k < used \<longrightarrow> b_val (data ! k) = IS_UNDEF)) \<or>
   (i < next_live data used i \<and> next_live data used i < used \<and>
    b_val (data ! next_live data used i) \<noteq> IS_UNDEF \<and>
    (\<forall>k. i < k \<and> k < next_live data used i \<longrightarrow> b_val (data ! k) = IS_UNDEF))"
proof (induction data used i rule: next_live.induct)
  case (1 data used i)
  show ?case
  proof (cases "Suc i < used \<and> b_val (data ! Suc i) = IS_UNDEF")
    case True
    then have eq: "next_live data used i = next_live data used (Suc i)"
      by (subst next_live.simps) simp
    have step: "i < k \<Longrightarrow> k = Suc i \<or> Suc i < k" for k by auto
    have ih: "(next_live data used (Suc i) = HT_INVALID_IDX \<and>
        (\<forall>k. Suc i < k \<and> k < used \<longrightarrow> b_val (data ! k) = IS_UNDEF)) \<or>
      (Suc i < next_live data used (Suc i) \<and> next_live data used (Suc i) < used \<and>
       b_val (data ! next_live data used (Suc i)) \<noteq> IS_UNDEF \<and>
       (\<forall>k. Suc i < k \<and> k < next_live data used (Suc i) \<longrightarrow> b_val (data ! k) = IS_UNDEF))"
      using 1 [of "Suc i"] True by simp
    then show ?thesis unfolding eq using True step Suc_lessD by metis
  next
    case False
    then have "next_live data used i = (if Suc i < used then Suc i else HT_INVALID_IDX)"
      by (subst next_live.simps) simp
    with False show ?thesis by auto
  qed
qed

text \<open>The search that remembers the predecessor finds the same bucket.\<close>

lemma chain_find_prev_last_in:
  assumes nxt: "\<And>i. i < n \<Longrightarrow> Q i \<Longrightarrow> b_next (data ! i) = last_in Q i"
    and len: "n \<le> length data" and inv: "n \<le> HT_INVALID_IDX" and fuel: "n \<le> fuel"
    and hd: "P n prev" and pp: "\<And>i. i < n \<Longrightarrow> Q i \<Longrightarrow> P i (Some i)"
  shows "(let j = last_in (\<lambda>j. Q j \<and> test (data ! j)) n in
     if j = HT_INVALID_IDX then chain_find_prev test data fuel prev (last_in Q n) = Inr None
     else \<exists>m q. chain_find_prev test data fuel prev (last_in Q n) = Inr (Some (j, q)) \<and>
        P m q \<and> m \<le> n \<and> last_in Q m = j)"
  using assms
proof (induction n arbitrary: fuel prev rule: less_induct)
  case (less n)
  let ?i = "last_in Q n"
  consider (none) "?i = HT_INVALID_IDX" "\<forall>j<n. \<not> Q j"
    | (some) "?i < n" "Q ?i" "\<forall>j. ?i < j \<and> j < n \<longrightarrow> \<not> Q j"
    using last_in_disj [of Q n] by blast
  then show ?case
  proof cases
    case none
    then have "last_in (\<lambda>j. Q j \<and> test (data ! j)) n = HT_INVALID_IDX"
      by (intro last_in_None) auto
    with none show ?thesis by (subst chain_find_prev.simps) simp
  next
    case some
    then have i: "?i \<noteq> HT_INVALID_IDX" "?i < length data" using less.prems by auto
    show ?thesis
    proof (cases "test (data ! ?i)")
      case True
      with some have "last_in (\<lambda>j. Q j \<and> test (data ! j)) n = ?i"
        by (intro last_in_eqI) auto
      moreover have "chain_find_prev test data fuel prev ?i = Inr (Some (?i, prev))"
        using True i by (subst chain_find_prev.simps) simp
      ultimately show ?thesis using less.prems(5) i by (auto simp: Let_def)
    next
      case False
      from some less.prems obtain fuel' where f: "fuel = Suc fuel'" "?i \<le> fuel'"
        by (cases fuel) auto
      have eq: "last_in (\<lambda>j. Q j \<and> test (data ! j)) n = last_in (\<lambda>j. Q j \<and> test (data ! j)) ?i"
        using some False by (subst last_in_split [of ?i n]) (auto, metis le_neq_implies_less)
      have nx: "b_next (data ! ?i) = last_in Q ?i" using less.prems some by blast
      have st: "chain_find_prev test data fuel prev ?i =
          chain_find_prev test data fuel' (Some ?i) (last_in Q ?i)"
        using False i f nx by (subst chain_find_prev.simps) simp
      have "let j = last_in (\<lambda>j. Q j \<and> test (data ! j)) ?i in
         if j = HT_INVALID_IDX then chain_find_prev test data fuel' (Some ?i) (last_in Q ?i) = Inr None
         else \<exists>m q. chain_find_prev test data fuel' (Some ?i) (last_in Q ?i) = Inr (Some (j, q)) \<and>
            P m q \<and> m \<le> ?i \<and> last_in Q m = j"
        by (rule less.IH) (use some less.prems f in auto)
      moreover have "m \<le> n" if "m \<le> ?i" for m using that some by simp
      ultimately show ?thesis unfolding st eq Let_def by (auto split: if_splits)
    qed
  qed
qed

lemma chain_prev_last_in:
  assumes nxt: "\<And>i. i < n \<Longrightarrow> Q i \<Longrightarrow> b_next (data ! i) = last_in Q i"
    and len: "n \<le> length data" and inv: "n \<le> HT_INVALID_IDX" and fuel: "n \<le> fuel"
    and idx: "idx < n" "Q idx" "last_in Q n \<noteq> idx"
  shows "\<exists>q<n. chain_prev data fuel idx (last_in Q n) = Inr q \<and> Q q \<and> last_in Q q = idx"
  using assms
proof (induction n arbitrary: fuel rule: less_induct)
  case (less n)
  let ?i = "last_in Q n"
  have some: "?i < n" "Q ?i" "\<forall>j. ?i < j \<and> j < n \<longrightarrow> \<not> Q j"
    using last_in_disj [of Q n] less.prems by auto
  then have lt: "idx < ?i" using less.prems by (metis nat_neq_iff)
  have i: "?i < length data" using some less.prems by simp
  have nx: "b_next (data ! ?i) = last_in Q ?i" using less.prems some by blast
  show ?case
  proof (cases "last_in Q ?i = idx")
    case True
    then show ?thesis using some i nx by (subst chain_prev.simps) auto
  next
    case False
    from some less.prems obtain fuel' where f: "fuel = Suc fuel'" "?i \<le> fuel'"
      by (cases fuel) auto
    have "\<exists>q<?i. chain_prev data fuel' idx (last_in Q ?i) = Inr q \<and> Q q \<and> last_in Q q = idx"
      by (rule less.IH) (use some less.prems f lt False in auto)
    moreover have "chain_prev data fuel idx ?i = chain_prev data fuel' idx (last_in Q ?i)"
      using False i f nx by (subst chain_prev.simps) simp
    ultimately show ?thesis using some by auto
  qed
qed

subsection \<open>The removal\<close>

text \<open>The predecessor a removal is given must be the one in the chain.\<close>

definition pred_ok :: "HashTable \<Rightarrow> nat \<Rightarrow> nat option \<Rightarrow> bool" where
  "pred_ok ht idx prev \<longleftrightarrow> (\<not> ht_packed ht \<longrightarrow>
     (let Q = in_slot ht (slot_of ht idx) in
      case prev of None \<Rightarrow> last_in Q (nNumUsed ht) = idx
      | Some q \<Rightarrow> q < nNumUsed ht \<and> Q q \<and> last_in Q q = idx))"

text \<open>The table a removal leaves, field by field.\<close>

definition del_used :: "HashTable \<Rightarrow> nat \<Rightarrow> nat" where
  "del_used ht idx = (if nNumUsed ht - 1 = idx then shrink_used (arData ht) (nNumUsed ht) else nNumUsed ht)"

lemma shrink_used_cong:
  "n \<le> length D \<Longrightarrow> map bucket_core D = map bucket_core E \<Longrightarrow> shrink_used D n = shrink_used E n"
proof (induction n)
  case 0
  then show ?case by simp
next
  case (Suc n)
  have "b_val (D ! (n - 1)) = b_val (E ! (n - 1))"
    using map_core_nth [of D E "n - 1"] Suc.prems by (auto simp: bucket_core_def)
  then show ?case using Suc by simp
qed

lemma next_live_cong:
  "used \<le> length D \<Longrightarrow> map bucket_core D = map bucket_core E \<Longrightarrow> next_live D used i = next_live E used i"
proof (induction D used i rule: next_live.induct)
  case (1 D used i)
  show ?case
  proof (cases "Suc i < used")
    case True
    then have "b_val (D ! Suc i) = b_val (E ! Suc i)"
      using map_core_nth [of D E "Suc i"] 1 by (auto simp: bucket_core_def)
    then show ?thesis using 1 True by (subst (1 2) next_live.simps) (simp add: Let_def)
  next
    case False
    then show ?thesis by (subst (1 2) next_live.simps) simp
  qed
qed

lemma relinked_unlink: "relinked ht (del_unlink idx prev ht)"
proof (cases "ht_packed ht")
  case True
  then show ?thesis by (simp add: del_unlink_def)
next
  case False
  show ?thesis
  proof (cases prev)
    case None
    then show ?thesis
      using False unfolding relinked_def del_unlink_def Let_def
      by (intro exI [of _ "arData ht"] exI [of _ "(arHash ht)
          [hash_slot (nTableMask ht) (b_h (arData ht ! idx)) := b_next (arData ht ! idx)]"]) simp
  next
    case (Some q)
    have "map bucket_core ((arData ht)[q := (arData ht ! q)\<lparr>b_next := b_next (arData ht ! idx)\<rparr>]) =
        map bucket_core (arData ht)"
    proof (cases "q < length (arData ht)")
      case True
      then show ?thesis
        by (auto simp: map_update bucket_core_def intro!: list_update_same_conv [THEN iffD2])
    qed (simp add: list_update_beyond)
    then show ?thesis
      using False Some unfolding relinked_def del_unlink_def Let_def
      by (intro exI [of _ "(arData ht)[q := (arData ht ! q)\<lparr>b_next := b_next (arData ht ! idx)\<rparr>]"]
          exI [of _ "arHash ht"]) simp
  qed
qed

lemma del_el_ex_fields:
  fixes w ht idx prev
  defines "ht1 \<equiv> del_unlink idx prev ht" and "ht' \<equiv> snd (zend_hash_del_el_ex w ht idx prev)"
  assumes "nNumUsed ht \<le> length (arData ht)" "idx < nNumUsed ht"
  shows "arData ht' = (arData ht1)[idx := (arData ht1 ! idx)\<lparr>b_val := IS_UNDEF\<rparr>]"
    "arHash ht' = arHash ht1" "nNumUsed ht' = del_used ht idx"
    "nNumOfElements ht' = nNumOfElements ht - 1" "nTableMask ht' = nTableMask ht"
    "nTableSize ht' = nTableSize ht" "ht_packed ht' = ht_packed ht"
    "ht_initialized ht' = ht_initialized ht" "ht_static_keys ht' = ht_static_keys ht"
    "nNextFreeElement ht' = nNextFreeElement ht" "ht_ident ht' = ht_ident ht"
    "nInternalPointer ht' = (if nInternalPointer ht = idx
       then next_live (arData ht) (del_used ht idx) idx else nInternalPointer ht)"
proof -
  obtain D H where r: "ht1 = ht\<lparr>arData := D, arHash := H\<rparr>"
    and m: "map bucket_core D = map bucket_core (arData ht)" "length H = length (arHash ht)"
    using relinked_unlink [of ht idx prev] unfolding relinked_def ht1_def by blast
  have len: "length D = length (arData ht)" by (rule map_eq_imp_length_eq [OF m(1)])
  have s: "shrink_used D (nNumUsed ht) = shrink_used (arData ht) (nNumUsed ht)"
    by (rule shrink_used_cong) (use assms(3) len m in auto)
  have le: "del_used ht idx \<le> length D"
    using shrink_used_spec [of "nNumUsed ht" "arData ht"] assms(3,4) len by (auto simp: del_used_def)
  note nl = next_live_cong [OF le m(1)]
  have used: "(if nNumUsed ht1 - 1 = idx
      then ht1\<lparr>nNumUsed := shrink_used (arData ht1) (nNumUsed ht1)\<rparr> else ht1) =
      ht1\<lparr>nNumUsed := del_used ht idx\<rparr>"
    by (simp add: r del_used_def s)
  have ht': "ht' = ht\<lparr>arData := D[idx := (D ! idx)\<lparr>b_val := IS_UNDEF\<rparr>], arHash := H,
      nNumUsed := del_used ht idx, nNumOfElements := nNumOfElements ht - 1,
      nInternalPointer := (if nInternalPointer ht = idx
       then next_live (arData ht) (del_used ht idx) idx else nInternalPointer ht)\<rparr>"
    unfolding ht'_def zend_hash_del_el_ex_def ht1_def [symmetric] Let_def used
    unfolding r by (simp add: nl set_val_def split: option.split prod.split)
  show "arData ht' = (arData ht1)[idx := (arData ht1 ! idx)\<lparr>b_val := IS_UNDEF\<rparr>]"
    "arHash ht' = arHash ht1" "nNumUsed ht' = del_used ht idx"
    "nNumOfElements ht' = nNumOfElements ht - 1" "nTableMask ht' = nTableMask ht"
    "nTableSize ht' = nTableSize ht" "ht_packed ht' = ht_packed ht"
    "ht_initialized ht' = ht_initialized ht" "ht_static_keys ht' = ht_static_keys ht"
    "nNextFreeElement ht' = nNextFreeElement ht" "ht_ident ht' = ht_ident ht"
    "nInternalPointer ht' = (if nInternalPointer ht = idx
       then next_live (arData ht) (del_used ht idx) idx else nInternalPointer ht)"
    by (simp_all add: ht' r)
qed

lemma last_in_shrink:
  assumes "m \<le> n" "\<And>k. m \<le> k \<Longrightarrow> k < n \<Longrightarrow> \<not> P k"
  shows "last_in P n = last_in P m"
  using last_in_split [OF assms(1), of P] assms(2) by auto

lemma linked_shrink:
  assumes "linked ht n" "m \<le> n" "\<And>k. m \<le> k \<Longrightarrow> k < n \<Longrightarrow> \<not> live (arData ht ! k)"
  shows "linked ht m"
  using assms last_in_shrink [OF assms(2)] unfolding linked_def by (auto simp: in_slot_def)

lemma linked_unlink:
  assumes l: "linked ht n" and n: "n = nNumUsed ht" "n \<le> length (arData ht)" "n < HT_INVALID_IDX"
    and s: "\<And>h. hash_slot (nTableMask ht) h < length (arHash ht)"
    and np: "\<not> ht_packed ht" and i: "idx < n" "live (arData ht ! idx)"
    and p: "pred_ok ht idx prev"
    and ht': "arData ht' = (arData ht1)[idx := (arData ht1 ! idx)\<lparr>b_val := IS_UNDEF\<rparr>]"
      "arHash ht' = arHash ht1" "nTableMask ht' = nTableMask ht" "ht1 = del_unlink idx prev ht"
  shows "linked ht' n"
proof -
  let ?s = "slot_of ht idx"
  let ?Q = "in_slot ht ?s"
  have Qi: "?Q idx" using i by (simp add: in_slot_def)
  obtain D where D: "arData ht1 = D" "map bucket_core D = map bucket_core (arData ht)"
    using relinked_unlink [of ht idx prev] ht'(4) unfolding relinked_def by auto
  have len: "length D = length (arData ht)" by (rule map_eq_imp_length_eq [OF D(2)])
  have core: "bucket_core (D ! j) = bucket_core (arData ht ! j)" if "j < length D" for j
    by (rule map_core_nth [OF D(2) that])
  have lv: "live (arData ht' ! j) = (j \<noteq> idx \<and> live (arData ht ! j))" if "j < n" for j
    using core [of j] that n len i
    by (auto simp: ht'(1) D(1) nth_list_update live_def bucket_core_def)
  have sl: "slot_of ht' j = slot_of ht j" if "j < n" for j
    using core [of j] that n len i
    by (auto simp: slot_of_def ht'(1,3) D(1) nth_list_update bucket_core_def)
  have ins: "in_slot ht' t j = (j \<noteq> idx \<and> in_slot ht t j)" if "j < n" for t j
    using lv [OF that] sl [OF that] by (auto simp: in_slot_def)
  have other: "last_in (in_slot ht' t) m = last_in (in_slot ht t) m" if "t \<noteq> ?s" "m \<le> n" for t m
    using that ins by (intro last_in_cong) (auto simp: in_slot_def)
  have same: "last_in (in_slot ht' ?s) m =
      (if idx < m \<and> last_in ?Q m = idx then last_in ?Q idx else last_in ?Q m)" if "m \<le> n" for m
  proof -
    have "last_in (in_slot ht' ?s) m = last_in (\<lambda>j. j \<noteq> idx \<and> ?Q j) m"
      using that ins by (intro last_in_cong) auto
    then show ?thesis using last_in_remove [of ?Q idx m] Qi by simp
  qed
  have heads: "arHash ht ! t = last_in (in_slot ht t) n" if "t < length (arHash ht)" for t
    using l that by (simp add: linked_def)
  have nexts: "b_next (arData ht ! j) = last_in (in_slot ht (slot_of ht j)) j"
    if "j < n" "live (arData ht ! j)" for j
    using l that by (simp add: linked_def)
  have s1: "?s = hash_slot (nTableMask ht) (b_h (arData ht ! idx))" by (simp add: slot_of_def)
  have pok: "case prev of None \<Rightarrow> last_in ?Q n = idx | Some q \<Rightarrow> q < n \<and> ?Q q \<and> last_in ?Q q = idx"
    using p np unfolding pred_ok_def Let_def n(1) by blast
  have uniq: "j = q" if "last_in ?Q j = idx" "last_in ?Q q = idx" "?Q q" "?Q j" "idx < j" "idx < q" "j < n" "q < n" for j q
  proof (rule ccontr)
    assume "j \<noteq> q"
    moreover have "\<not> (idx < q \<and> q < j)" using last_in_disj [of ?Q j] that n by auto
    moreover have "\<not> (idx < j \<and> j < q)" using last_in_disj [of ?Q q] that n by auto
    ultimately show False using that by auto
  qed
  show ?thesis
  proof (cases prev)
    case None
    then have hd: "last_in ?Q n = idx" using pok by simp
    have H: "arHash ht' = (arHash ht)[?s := last_in ?Q idx]" and DD: "D = arData ht"
      using np None nexts [OF i] D(1) by (simp_all add: ht'(2,4) del_unlink_def Let_def s1)
    have no: "\<not> (idx < j \<and> last_in ?Q j = idx)" if "j < n" "?Q j" for j
      using last_in_disj [of ?Q n] hd that n i by auto
    show ?thesis unfolding linked_def
    proof (intro conjI allI impI)
      fix t assume "t < length (arHash ht')"
      then show "arHash ht' ! t = last_in (in_slot ht' t) n"
        using H heads [of t] other [of t n] same [of n] hd i by (cases "t = ?s") auto
    next
      fix j assume j: "j < n" "live (arData ht' ! j)"
      then have "j \<noteq> idx" "live (arData ht ! j)" using lv by auto
      then show "b_next (arData ht' ! j) = last_in (in_slot ht' (slot_of ht' j)) j"
        using j nexts [of j] sl [of j] other [of "slot_of ht j" j] same [of j] no [of j] n
        by (cases "slot_of ht j = ?s") (auto simp: ht'(1) D(1) DD in_slot_def)
    qed
  next
    case (Some q)
    then have q: "q < n" "?Q q" "last_in ?Q q = idx" using pok by auto
    have iq: "idx < q" using last_in_less [of ?Q q] q n i by auto
    have H: "arHash ht' = arHash ht"
      and DD: "D = (arData ht)[q := (arData ht ! q)\<lparr>b_next := last_in ?Q idx\<rparr>]"
      using np Some nexts [OF i] D(1) by (simp_all add: ht'(2,4) del_unlink_def Let_def)
    have nohd: "last_in ?Q n \<noteq> idx" using last_in_disj [of ?Q n] q iq n i by auto
    show ?thesis unfolding linked_def
    proof (intro conjI allI impI)
      fix t assume "t < length (arHash ht')"
      then show "arHash ht' ! t = last_in (in_slot ht' t) n"
        using H heads [of t] other [of t n] same [of n] nohd by (cases "t = ?s") auto
    next
      fix j assume j: "j < n" "live (arData ht' ! j)"
      then have jl: "j \<noteq> idx" "live (arData ht ! j)" using lv by auto
      show "b_next (arData ht' ! j) = last_in (in_slot ht' (slot_of ht' j)) j"
      proof (cases "j = q")
        case True
        then show ?thesis
          using j jl q iq same [of q] sl [of q] n by (simp add: ht'(1) D(1) DD in_slot_def)
      next
        case False
        then have "b_next (arData ht' ! j) = b_next (arData ht ! j)"
          using jl by (simp add: ht'(1) D(1) DD)
        moreover have "\<not> (idx < j \<and> last_in ?Q j = idx)" if "slot_of ht j = ?s"
          using uniq [of j q] q iq j jl that False by (auto simp: in_slot_def)
        ultimately show ?thesis
          using j jl nexts [of j] sl [of j] other [of "slot_of ht j" j] same [of j]
          by (cases "slot_of ht j = ?s") auto
      qed
    qed
  qed
qed

text \<open>The removal of the entry at a position, as a deletion from the list of entries.\<close>

lemma entries_remove:
  assumes inv: "ht_inv ht" and i: "idx < nNumUsed ht" "live (arData ht ! idx)"
    and m: "map bucket_core D = map bucket_core (arData ht)"
    and used: "n' \<le> nNumUsed ht" "idx < n' \<or> nNumUsed ht = Suc idx"
      "\<And>k. n' \<le> k \<Longrightarrow> k < nNumUsed ht \<Longrightarrow> k \<noteq> idx \<Longrightarrow> \<not> live (arData ht ! k)"
  defines "D' \<equiv> D[idx := (D ! idx)\<lparr>b_val := IS_UNDEF\<rparr>]"
  shows "map bucket_core (filter live (take n' D')) =
      map bucket_core (filter live (take idx (arData ht))) @
      map bucket_core (filter live (drop (Suc idx) (take (nNumUsed ht) (arData ht))))" (is ?A)
    "ht_cores ht = map bucket_core (filter live (take idx (arData ht))) @ bucket_core (arData ht ! idx) #
      map bucket_core (filter live (drop (Suc idx) (take (nNumUsed ht) (arData ht))))" (is ?B)
proof -
  let ?n = "nNumUsed ht"
  have len: "?n \<le> length (arData ht)" by (rule ht_inv_used_le [OF inv])
  have lD: "length D = length (arData ht)" by (rule map_eq_imp_length_eq [OF m])
  have i': "idx < length (take ?n (arData ht))" "idx < length (take ?n D)" using i len lD by auto
  have "filter live (take n' D') = filter live (take ?n D')"
  proof -
    have "\<not> live (D' ! k)" if "n' \<le> k" "k < ?n" for k
    proof (cases "k = idx")
      case True
      then show ?thesis using i len lD by (simp add: D'_def live_def)
    next
      case False
      then show ?thesis
        using used(3) [OF that False] map_core_nth [OF m, of k] that len lD
        by (simp add: D'_def live_def bucket_core_def)
    qed
    then show ?thesis using filter_take_gap [OF used(1), of D' live] len lD by (simp add: D'_def)
  qed
  also have "\<dots> = filter live ((take ?n D)[idx := (D ! idx)\<lparr>b_val := IS_UNDEF\<rparr>])"
    using i by (simp add: D'_def take_update_swap)
  also have "\<dots> = filter live (take idx (take ?n D)) @ filter live (drop (Suc idx) (take ?n D))"
    by (rule filter_list_remove [OF i'(2)]) (simp add: live_def)
  also have "take idx (take ?n D) = take idx D" using i by (simp add: min_def)
  finally show ?A
    using map_core_filter [OF map_core_take [OF m, of idx]]
      map_core_filter [OF map_core_drop [OF map_core_take [OF m, of ?n], of "Suc idx"]] by simp
  have t: "take idx (take ?n (arData ht)) = take idx (arData ht)" using i by (simp add: min_def)
  show ?B
    using filter_nth_rank(1) [OF i'(1), of live] i t by (simp add: ht_cores_def ht_buckets_def)
qed

text \<open>
  The table as a map from indices to what is in the bucket there; the loops that remove
  elements while they walk over the indices are reasoned about on it.
\<close>

definition snap :: "HashTable \<Rightarrow> nat \<Rightarrow> (zval \<times> zend_ulong \<times> zend_string option) option" where
  "snap ht k = (if k < nNumUsed ht \<and> live (arData ht ! k) then Some (bucket_core (arData ht ! k)) else None)"

definition del_post :: "world \<Rightarrow> HashTable \<Rightarrow> nat \<Rightarrow> world \<times> HashTable \<Rightarrow> bool" where
  "del_post w ht idx res \<longleftrightarrow> (case res of (w', ht') \<Rightarrow>
     ht_inv ht' \<and> ht_initialized ht' \<and> ht_packed ht' = ht_packed ht \<and>
     ht_entries ht' = AList.delete (bkey (arData ht ! idx)) (ht_entries ht) \<and>
     snap ht' = (snap ht)(idx := None) \<and>
     nNumUsed ht' \<le> nNumUsed ht \<and> length (arData ht') = length (arData ht) \<and>
     (\<forall>k < length (arData ht). live (arData ht' ! k) \<longleftrightarrow> k \<noteq> idx \<and> live (arData ht ! k)) \<and>
     (\<forall>k. nNumUsed ht' \<le> k \<and> k < nNumUsed ht \<longrightarrow> \<not> live (arData ht' ! k)) \<and>
     ht_ident ht' = ht_ident ht \<and> slots w' = slots w \<and> nTableSize ht' = nTableSize ht \<and>
     nNextFreeElement ht' = nNextFreeElement ht \<and>
     events w' = events w @
       (case b_key (arData ht ! idx) of None \<Rightarrow> []
        | Some s \<Rightarrow> if zs_interned s then [] else [Str_Release s]) @
       (case pDestructor ht of None \<Rightarrow> [] | Some d \<Rightarrow> [Dtor d (b_val (arData ht ! idx))]))"

lemma zend_string_release_events:
  "events (zend_string_release s w) = events w @ (if zs_interned s then [] else [Str_Release s])"
  by (simp add: zend_string_release_def)

lemma del_el_ex_world:
  assumes "idx < length (arData ht)"
  shows "slots (fst (zend_hash_del_el_ex w ht idx prev)) = slots w"
    "events (fst (zend_hash_del_el_ex w ht idx prev)) = events w @
       (case b_key (arData ht ! idx) of None \<Rightarrow> []
        | Some s \<Rightarrow> if zs_interned s then [] else [Str_Release s]) @
       (case pDestructor ht of None \<Rightarrow> [] | Some d \<Rightarrow> [Dtor d (b_val (arData ht ! idx))])"
proof -
  obtain D H where r: "del_unlink idx prev ht = ht\<lparr>arData := D, arHash := H\<rparr>"
    and m: "map bucket_core D = map bucket_core (arData ht)"
    using relinked_unlink [of ht idx prev] unfolding relinked_def by blast
  have "bucket_core (D ! idx) = bucket_core (arData ht ! idx)"
    using map_core_nth [OF m, of idx] assms map_eq_imp_length_eq [OF m] by simp
  then have c: "b_key (D ! idx) = b_key (arData ht ! idx)" "b_val (D ! idx) = b_val (arData ht ! idx)"
    by (simp_all add: bucket_core_def)
  show "slots (fst (zend_hash_del_el_ex w ht idx prev)) = slots w"
    unfolding zend_hash_del_el_ex_def Let_def r by (simp split: option.split prod.split)
  show "events (fst (zend_hash_del_el_ex w ht idx prev)) = events w @
       (case b_key (arData ht ! idx) of None \<Rightarrow> []
        | Some s \<Rightarrow> if zs_interned s then [] else [Str_Release s]) @
       (case pDestructor ht of None \<Rightarrow> [] | Some d \<Rightarrow> [Dtor d (b_val (arData ht ! idx))])"
    unfolding zend_hash_del_el_ex_def Let_def r
    by (simp add: c zend_string_release_events split: option.split prod.split)
qed

lemma del_used_bounds:
  assumes "idx < nNumUsed ht" "live (arData ht ! idx)"
  shows "del_used ht idx \<le> nNumUsed ht" "idx < del_used ht idx \<or> nNumUsed ht = Suc idx"
    "\<And>k. del_used ht idx \<le> k \<Longrightarrow> k < nNumUsed ht \<Longrightarrow> k \<noteq> idx \<Longrightarrow> \<not> live (arData ht ! k)"
    "\<And>k. live (arData ht ! k) \<Longrightarrow> k < nNumUsed ht \<Longrightarrow> k \<noteq> idx \<Longrightarrow> k < del_used ht idx"
proof -
  note s = shrink_used_spec [of "nNumUsed ht" "arData ht"]
  show "del_used ht idx \<le> nNumUsed ht" using s assms by (auto simp: del_used_def)
  show "idx < del_used ht idx \<or> nNumUsed ht = Suc idx" using assms by (auto simp: del_used_def)
  show *: "\<not> live (arData ht ! k)" if "del_used ht idx \<le> k" "k < nNumUsed ht" "k \<noteq> idx" for k
    using that s assms by (cases "nNumUsed ht - 1 = idx") (auto simp: del_used_def live_def)
  show "k < del_used ht idx" if "live (arData ht ! k)" "k < nNumUsed ht" "k \<noteq> idx" for k
    using * [of k] that by (meson not_less)
qed

lemma zend_hash_del_el_ex_spec:
  assumes inv: "ht_inv ht" and i: "idx < nNumUsed ht" "live (arData ht ! idx)"
    and p: "pred_ok ht idx prev"
  shows "del_post w ht idx (zend_hash_del_el_ex w ht idx prev)"
proof -
  let ?n = "nNumUsed ht" and ?b = "arData ht ! idx"
  have len: "?n \<le> length (arData ht)" by (rule ht_inv_used_le [OF inv])
  define ht' where "ht' = snd (zend_hash_del_el_ex w ht idx prev)"
  define ht1 where "ht1 = del_unlink idx prev ht"
  note f = del_el_ex_fields [OF len i(1), of w prev, folded ht'_def ht1_def]
  obtain D H where ht1: "ht1 = ht\<lparr>arData := D, arHash := H\<rparr>"
    and m: "map bucket_core D = map bucket_core (arData ht)" and lH: "length H = length (arHash ht)"
    using relinked_unlink [of ht idx prev] unfolding relinked_def ht1_def by blast
  have lD: "length D = length (arData ht)" by (rule map_eq_imp_length_eq [OF m])
  have core: "bucket_core (D ! k) = bucket_core (arData ht ! k)" if "k < length (arData ht)" for k
    using map_core_nth [OF m, of k] that lD by simp
  have nth: "k \<noteq> idx \<Longrightarrow> k < length (arData ht) \<Longrightarrow>
      bucket_core (arData ht' ! k) = bucket_core (arData ht ! k)" for k
    using core by (simp add: f(1) ht1)
  note u = del_used_bounds [OF i]
  have ini: "ht_initialized ht" using uninit_empty(1) [OF inv] i by auto
  have ok: "contents_ok ht" using inv by (simp add: ht_inv_def)
  note e = entries_remove [OF inv i m u(1,2,3)]
  have cores: "ht_cores ht' = map bucket_core (filter live (take idx (arData ht))) @
      map bucket_core (filter live (drop (Suc idx) (take ?n (arData ht))))"
    using e(1) by (simp add: ht_cores_def ht_buckets_def f(1,3) ht1)
  have sub: "set (ht_cores ht') \<subseteq> set (ht_cores ht)" unfolding cores using e(2) by auto
  have distinct: "distinct (map (fst \<circ> core_entry) (ht_cores ht))"
    using ok by (simp add: contents_ok_def ht_cores_def comp_def)
  have keys: "distinct (map bkey (ht_buckets ht'))"
  proof -
    have "distinct (map (fst \<circ> core_entry) (ht_cores ht'))"
      using distinct e(2) unfolding cores by auto
    then show ?thesis by (simp add: ht_cores_def comp_def)
  qed
  have lenb: "length (ht_buckets ht') = length (ht_buckets ht) - 1"
  proof -
    have "length (ht_cores ht') = length (ht_cores ht) - 1" using e(2) unfolding cores by simp
    then show ?thesis by (simp add: ht_cores_def)
  qed
  have old: "\<exists>b' \<in> set (ht_buckets ht). bucket_core b = bucket_core b'" if "b \<in> set (ht_buckets ht')" for b
    using that sub by (auto simp: ht_cores_def)
  have all: "\<forall>b \<in> set (ht_buckets ht'). P b"
    if "\<forall>b \<in> set (ht_buckets ht). P b" "\<And>a b. bucket_core a = bucket_core b \<Longrightarrow> P a = P b" for P
    using old that by blast
  have bok: "\<forall>b \<in> set (ht_buckets ht'). bucket_ok b"
    by (rule all) (use ok in \<open>auto simp: contents_ok_def bucket_ok_def bucket_core_def split: option.splits\<close>)
  have st: "\<forall>b \<in> set (ht_buckets ht'). ht_static_keys ht \<longrightarrow> (\<forall>s. b_key b = Some s \<longrightarrow> zs_interned s)"
    by (rule all) (use ok in \<open>auto simp: contents_ok_def bucket_core_def\<close>)
  have "\<forall>b \<in> set (ht_buckets ht'). b_key b = None \<longrightarrow>
      sint (b_h b) < sint (nNextFreeElement ht) \<or> nNextFreeElement ht = ZEND_LONG_MAX"
    by (rule all) (use ok in \<open>auto simp: contents_ok_def next_free_ok_def bucket_core_def\<close>)
  then have nf: "next_free_ok ht'"
    using ok f(10) by (simp add: contents_ok_def next_free_ok_def)
  have ptr: "pointer_ok ht'"
  proof (cases "nInternalPointer ht = idx")
    case True
    then show ?thesis
      using next_live_spec [of "arData ht" "del_used ht idx" idx] f nth u(1) len
      by (auto simp: pointer_ok_def live_def bucket_core_def)
  next
    case False
    then show ?thesis
      using ok f nth u(4) len by (auto simp: pointer_ok_def contents_ok_def live_def bucket_core_def)
  qed
  have ok': "contents_ok ht'"
    using ok f keys lenb bok st nf ptr u(1) by (simp add: contents_ok_def)
  have inv': "ht_inv ht'"
  proof (cases "ht_packed ht")
    case True
    have lay: "packed_layout ht" using inv ini True by (simp add: ht_inv_def)
    have "ht1 = ht" using True by (simp add: ht1_def del_unlink_def)
    then have D: "arData ht' = (arData ht)[idx := ?b\<lparr>b_val := IS_UNDEF\<rparr>]" "arHash ht' = arHash ht"
      using f by simp_all
    have "packed_layout ht'"
      using lay f(3,5,6) u(1) len i unfolding packed_layout_def D
      by (auto simp: nth_list_update live_def)
    with ok' True ini f show ?thesis by (simp add: ht_inv_def)
  next
    case False
    then have lay: "hash_layout ht" using inv ini by (simp add: ht_inv_def)
    then have rdy: "hash_ready ht" and l: "linked ht ?n" by (auto simp: hash_layout_def hash_ready_def)
    have l': "linked ht' ?n"
      by (rule linked_unlink [OF l refl len ht_inv_used_invalid [OF inv] hash_ready_slot [OF rdy]
            False i p f(1,2,5) ht1_def])
    have "linked ht' (del_used ht idx)"
    proof (rule linked_shrink [OF l' u(1)])
      fix k assume k: "del_used ht idx \<le> k" "k < ?n"
      show "\<not> live (arData ht' ! k)"
      proof (cases "k = idx")
        case True
        then show ?thesis using f(1) i len lD by (simp add: ht1 live_def)
      next
        case False
        with k u(3) [OF k False] nth [of k] len show ?thesis by (simp add: live_def bucket_core_def)
      qed
    qed
    then have "hash_layout ht'"
      using lay f lD lH by (simp add: hash_layout_def hash_area_def ht1)
    with ok' False ini f show ?thesis by (simp add: ht_inv_def)
  qed
  have ents: "ht_entries ht' = AList.delete (bkey ?b) (ht_entries ht)"
  proof -
    have "ht_entries ht = map core_entry (map bucket_core (filter live (take idx (arData ht)))) @
        (bkey ?b, b_val ?b) #
        map core_entry (map bucket_core (filter live (drop (Suc idx) (take ?n (arData ht)))))"
      using arg_cong [OF e(2), of "map core_entry"] by (simp add: ht_entries_def del: map_map)
    then show ?thesis
      using alist_delete_middle ht_inv_distinct [OF inv] unfolding ht_entries_def [of ht'] cores
      by (metis map_append)
  qed
  have lives: "\<forall>k < length (arData ht). live (arData ht' ! k) \<longleftrightarrow> k \<noteq> idx \<and> live (arData ht ! k)"
  proof (intro allI impI)
    fix k assume k: "k < length (arData ht)"
    show "live (arData ht' ! k) \<longleftrightarrow> k \<noteq> idx \<and> live (arData ht ! k)"
    proof (cases "k = idx")
      case True
      then show ?thesis using f(1) k lD by (simp add: ht1 live_def)
    next
      case False
      then show ?thesis using nth [OF False k] by (simp add: live_def bucket_core_def)
    qed
  qed
  have dead: "\<forall>k. nNumUsed ht' \<le> k \<and> k < nNumUsed ht \<longrightarrow> \<not> live (arData ht' ! k)"
    using lives u(3) f(3) len by auto
  have lD': "length (arData ht') = length (arData ht)" using f(1) lD by (simp add: ht1)
  have le': "nNumUsed ht' \<le> nNumUsed ht" using u(1) f(3) by simp
  have snap: "snap ht' = (snap ht)(idx := None)"
  proof
    fix k
    show "snap ht' k = ((snap ht)(idx := None)) k"
    proof (cases "k = idx")
      case True
      then show ?thesis using f(1) i len lD by (simp add: snap_def ht1 live_def)
    next
      case False
      show ?thesis
      proof (cases "k < ?n \<and> live (arData ht ! k)")
        case True
        then have "k < nNumUsed ht'" using u(4) [of k] False f(3) by simp
        then show ?thesis
          using True False nth [OF False] len by (auto simp: snap_def live_def bucket_core_def)
      next
        case no: False
        have "\<not> (k < nNumUsed ht' \<and> live (arData ht' ! k))"
          using no nth [OF False] len u(1) f(3) by (auto simp: live_def bucket_core_def)
        then show ?thesis using no False by (simp add: snap_def)
      qed
    qed
  qed
  obtain w' where w': "zend_hash_del_el_ex w ht idx prev = (w', ht')"
    unfolding ht'_def by (metis surjective_pairing)
  have "idx < length (arData ht)" using i len by simp
  note ww = del_el_ex_world [OF this, of w prev, unfolded w' fst_conv]
  show ?thesis
    unfolding w' del_post_def prod.case using inv' ents f(6,7,8,10,11) ini ww snap lives dead lD' le' by simp
qed

subsection \<open>Deletion of a key\<close>

lemma find_prev_pos:
  assumes inv: "ht_inv ht" "\<not> ht_packed ht"
    and h: "\<And>p. bucket_ok p \<Longrightarrow> test p \<Longrightarrow> b_h p = h"
    and key: "\<And>p. bucket_ok p \<Longrightarrow> test p \<longleftrightarrow> bkey p = k"
  shows "case key_pos ht k of
     None \<Rightarrow> chain_find_prev test (arData ht) (nTableSize ht) None
               (arHash ht ! hash_slot (nTableMask ht) h) = Inr None
   | Some j \<Rightarrow> \<exists>prev. chain_find_prev test (arData ht) (nTableSize ht) None
               (arHash ht ! hash_slot (nTableMask ht) h) = Inr (Some (j, prev)) \<and> pred_ok ht j prev"
proof (cases "ht_initialized ht")
  case False
  then have "uninit_layout ht" using inv by (simp add: ht_inv_def)
  then have "arHash ht ! hash_slot (nTableMask ht) h = HT_INVALID_IDX"
    using min_mask_slots [of ht h] by (simp add: uninit_layout_def)
  then show ?thesis
    using uninit_empty(5) [OF inv(1) False, of k] by (subst chain_find_prev.simps) simp
next
  case True
  let ?s = "hash_slot (nTableMask ht) h" and ?n = "nNumUsed ht"
  let ?Q = "in_slot ht ?s"
  let ?find = "chain_find_prev test (arData ht) (nTableSize ht) None (arHash ht ! ?s)"
  have lay: "hash_layout ht" and le: "?n \<le> nTableSize ht" and sz: "size_ok (nTableSize ht)"
    using inv True by (auto simp: ht_inv_def contents_ok_def)
  then have rdy: "hash_ready ht" and l: "linked ht ?n" and d: "length (arData ht) = nTableSize ht"
    by (auto simp: hash_layout_def hash_ready_def hash_area_def)
  let ?P = "\<lambda>m q. (q = None \<and> m = ?n) \<or> (q = Some m \<and> m < ?n \<and> ?Q m)"
  have bok: "bucket_ok (arData ht ! j)" if "j < ?n" "live (arData ht ! j)" for j
    using ht_inv_bucket_ok [OF inv(1) that] .
  have hd: "arHash ht ! ?s = last_in ?Q ?n"
    using l hash_ready_slot [OF rdy] by (simp add: linked_def)
  have same: "last_in (\<lambda>j. ?Q j \<and> test (arData ht ! j)) ?n =
      last_in (\<lambda>j. live (arData ht ! j) \<and> bkey (arData ht ! j) = k) ?n"
    using bok h key by (intro last_in_cong) (auto simp: in_slot_def slot_of_def)
  have found: "let j = last_in (\<lambda>j. ?Q j \<and> test (arData ht ! j)) ?n in
     if j = HT_INVALID_IDX then ?find = Inr None
     else \<exists>m q. ?find = Inr (Some (j, q)) \<and> ?P m q \<and> m \<le> ?n \<and> last_in ?Q m = j"
    unfolding hd
  proof (rule chain_find_prev_last_in)
    show "b_next (arData ht ! i) = last_in ?Q i" if "i < ?n" "?Q i" for i
      using l that by (auto simp: linked_def in_slot_def [of ht ?s i])
  qed (use d le size_ok_less_invalid [OF sz] in auto)
  show ?thesis
  proof (cases "key_pos ht k")
    case None
    then have "last_in (\<lambda>j. ?Q j \<and> test (arData ht ! j)) ?n = HT_INVALID_IDX"
      unfolding same by (simp add: key_pos_def Let_def split: if_splits)
    with found None show ?thesis by (simp add: Let_def)
  next
    case (Some j)
    then have j: "last_in (\<lambda>j. ?Q j \<and> test (arData ht ! j)) ?n = j" "j \<noteq> HT_INVALID_IDX"
      unfolding same by (auto simp: key_pos_def Let_def split: if_splits)
    with found obtain m q where mq: "?find = Inr (Some (j, q))" "?P m q" "last_in ?Q m = j" "m \<le> ?n"
      by (auto simp: Let_def)
    have "?Q j" using last_in_less [of ?Q m] mq j by auto
    then have "slot_of ht j = ?s" by (simp add: in_slot_def)
    then have "pred_ok ht j q" using mq by (auto simp: pred_ok_def Let_def)
    with mq Some show ?thesis by auto
  qed
qed

lemma find_prev_packed:
  assumes "ht_inv ht" "ht_packed ht"
  shows "chain_find_prev test (arData ht) (nTableSize ht) None
     (arHash ht ! hash_slot (nTableMask ht) h) = Inr None"
proof -
  have "nTableMask ht = HT_MIN_MASK" "arHash ht = [HT_INVALID_IDX, HT_INVALID_IDX]"
    using assms by (auto simp: ht_inv_def packed_layout_def uninit_layout_def split: if_splits)
  then have "arHash ht ! hash_slot (nTableMask ht) h = HT_INVALID_IDX"
    using min_mask_slots [of ht h] by simp
  then show ?thesis by (subst chain_find_prev.simps) simp
qed

text \<open>What is destroyed and released with a bucket.\<close>

definition bucket_events :: "HashTable \<Rightarrow> Bucket \<Rightarrow> event list" where
  "bucket_events ht b =
     (case b_key b of None \<Rightarrow> [] | Some s \<Rightarrow> if zs_interned s then [] else [Str_Release s]) @
     (case pDestructor ht of None \<Rightarrow> [] | Some d \<Rightarrow> [Dtor d (b_val b)])"

text \<open>What a deletion of \<open>k\<close> returns and leaves behind.\<close>

definition deleted :: "world \<Rightarrow> HashTable \<Rightarrow> hkey \<Rightarrow> bool \<times> world \<times> HashTable \<Rightarrow> bool" where
  "deleted w ht k res \<longleftrightarrow> (case res of (r, w', ht') \<Rightarrow>
     (r \<longleftrightarrow> map_of (ht_entries ht) k \<noteq> None) \<and> ht_inv ht' \<and>
     ht_entries ht' = AList.delete k (ht_entries ht) \<and> ht_ident ht' = ht_ident ht \<and> slots w' = slots w \<and>
     nNextFreeElement ht' = nNextFreeElement ht \<and>
     events w' = events w @ (case key_pos ht k of None \<Rightarrow> [] | Some i \<Rightarrow> bucket_events ht (arData ht ! i)))"

lemma deleted_absent:
  assumes "ht_inv ht" "key_pos ht k = None"
  shows "deleted w ht k (False, w, ht)"
proof -
  have "map_of (ht_entries ht) k = None" using absent_map_of [OF assms(1)] assms(2) by simp
  then have "AList.delete k (ht_entries ht) = ht_entries ht"
    by (intro alist_delete_absent) (auto simp: map_of_eq_None_iff)
  with assms \<open>map_of (ht_entries ht) k = None\<close> show ?thesis by (simp add: deleted_def)
qed

lemma deleted_present:
  assumes inv: "ht_inv ht" and k: "key_pos ht k = Some j" and p: "pred_ok ht j prev"
  shows "deleted w ht k (True, zend_hash_del_el_ex w ht j prev)"
proof -
  note pos = key_pos_Some [OF k]
  have "map_of (ht_entries ht) k \<noteq> None" using map_of_entries [OF inv, of k] k by simp
  then show ?thesis
    using zend_hash_del_el_ex_spec [OF inv pos(1,2) p, of w] k pos(3)
    by (auto simp: deleted_def del_post_def bucket_events_def split: prod.split)
qed

lemma find_prev_then:
  assumes inv: "ht_inv ht"
    and h: "\<And>p. bucket_ok p \<Longrightarrow> test p \<Longrightarrow> b_h p = h"
    and key: "\<And>p. bucket_ok p \<Longrightarrow> test p \<longleftrightarrow> bkey p = k" and pk: "ht_packed ht \<Longrightarrow> key_pos ht k = None"
    and none: "key_pos ht k = None \<Longrightarrow> P (f None)"
    and some: "\<And>j prev. key_pos ht k = Some j \<Longrightarrow> pred_ok ht j prev \<Longrightarrow> P (f (Some (j, prev)))"
  shows "P (res_bind (chain_find_prev test (arData ht) (nTableSize ht) None
     (arHash ht ! hash_slot (nTableMask ht) h)) f)"
proof (cases "ht_packed ht")
  case True
  then show ?thesis using find_prev_packed [OF inv] pk none by simp
next
  case False
  from find_prev_pos [OF inv False h key] none some show ?thesis
    by (auto split: option.splits)
qed

text \<open>The three searches.\<close>

lemma prev_then:
  assumes inv: "ht_inv ht"
    and none: "key_pos ht k = None \<Longrightarrow> P (f None)"
    and some: "\<And>j prev. key_pos ht k = Some j \<Longrightarrow> pred_ok ht j prev \<Longrightarrow> P (f (Some (j, prev)))"
  shows "k = StrKey (zs_val key) \<Longrightarrow>
      P (res_bind (chain_find_prev (same_zend_string (zend_string_hash_val key) key) (arData ht)
        (nTableSize ht) None (arHash ht ! hash_slot (nTableMask ht) (zend_string_hash_val key))) f)"
    "k = StrKey str \<Longrightarrow>
      P (res_bind (chain_find_prev (same_bytes (zend_inline_hash_func str) str) (arData ht)
        (nTableSize ht) None (arHash ht ! hash_slot (nTableMask ht) (zend_inline_hash_func str))) f)"
    "k = IntKey h \<Longrightarrow> \<not> ht_packed ht \<Longrightarrow>
      P (res_bind (chain_find_prev (same_index h) (arData ht)
        (nTableSize ht) None (arHash ht ! hash_slot (nTableMask ht) h)) f)"
proof -
  note f = find_prev_then [OF inv, where k = k and P = P and f = f, OF _ _ _ none some]
  show "P (res_bind (chain_find_prev (same_zend_string (zend_string_hash_val key) key) (arData ht)
        (nTableSize ht) None (arHash ht ! hash_slot (nTableMask ht) (zend_string_hash_val key))) f)"
    if "k = StrKey (zs_val key)"
    by (rule f) (simp_all add: that same_zend_string_h same_zend_string_iff packed_no_string [OF inv])
  show "P (res_bind (chain_find_prev (same_bytes (zend_inline_hash_func str) str) (arData ht)
        (nTableSize ht) None (arHash ht ! hash_slot (nTableMask ht) (zend_inline_hash_func str))) f)"
    if "k = StrKey str"
    by (rule f) (simp_all add: that str_key_h same_bytes_iff packed_no_string [OF inv])
  show "P (res_bind (chain_find_prev (same_index h) (arData ht)
        (nTableSize ht) None (arHash ht ! hash_slot (nTableMask ht) h)) f)"
    if "k = IntKey h" "\<not> ht_packed ht"
    by (rule f) (use that in \<open>simp_all add: same_index_h same_index_iff\<close>)
qed

lemma zend_hash_del_spec:
  assumes inv: "ht_inv ht"
  shows "\<exists>res. zend_hash_del w ht key = Inr res \<and> deleted w ht (StrKey (zs_val key)) res"
  unfolding zend_hash_del_def Let_def
  by (rule prev_then(1) [OF inv _ _ refl]) (auto intro: deleted_absent [OF inv] deleted_present [OF inv])

lemma zend_hash_str_del_spec:
  assumes inv: "ht_inv ht"
  shows "\<exists>res. zend_hash_str_del w ht str = Inr res \<and> deleted w ht (StrKey str) res"
  unfolding zend_hash_str_del_def Let_def
  by (rule prev_then(2) [OF inv _ _ refl]) (auto intro: deleted_absent [OF inv] deleted_present [OF inv])

lemma zend_hash_index_del_spec:
  assumes inv: "ht_inv ht"
  shows "\<exists>res. zend_hash_index_del w ht h = Inr res \<and> deleted w ht (IntKey h) res"
proof (cases "ht_packed ht")
  case True
  note pos = packed_index_pos [OF inv True, of h]
  show ?thesis
  proof (cases "unat h < nNumUsed ht \<and> live (arData ht ! unat h)")
    case True
    then have k: "key_pos ht (IntKey h) = Some (unat h)" using pos by simp
    have "pred_ok ht (unat h) None" using \<open>ht_packed ht\<close> by (simp add: pred_ok_def)
    from deleted_present [OF inv k this] True \<open>ht_packed ht\<close> show ?thesis
      by (simp add: zend_hash_index_del_def live_def)
  next
    case False
    then have "key_pos ht (IntKey h) = None" using pos by simp
    from deleted_absent [OF inv this, of w] False \<open>ht_packed ht\<close> show ?thesis
      by (auto simp: zend_hash_index_del_def live_def)
  qed
next
  case False
  show ?thesis
    unfolding zend_hash_index_del_def if_not_P [OF False]
    by (rule prev_then(3) [OF inv _ _ refl False])
      (auto intro: deleted_absent [OF inv] deleted_present [OF inv])
qed

text \<open>The indirect deletions clear the slot an \<open>IS_INDIRECT\<close> element refers to.\<close>

definition cleared :: "world \<Rightarrow> HashTable \<Rightarrow> addr \<Rightarrow> bool \<times> world \<times> HashTable \<Rightarrow> bool" where
  "cleared w ht a res \<longleftrightarrow>
     (if slots w a = IS_UNDEF then res = (False, w, ht)
      else fst res \<and> snd (snd res) = ht\<lparr>ht_has_empty_ind := True\<rparr> \<and>
        slots (fst (snd res)) = (slots w)(a := IS_UNDEF) \<and>
        events (fst (snd res)) = events w @ (case pDestructor ht of None \<Rightarrow> [] | Some d \<Rightarrow> [Dtor d (slots w a)]))"

definition deleted_ind :: "world \<Rightarrow> HashTable \<Rightarrow> hkey \<Rightarrow> bool \<times> world \<times> HashTable \<Rightarrow> bool" where
  "deleted_ind w ht k res \<longleftrightarrow>
     (case map_of (ht_entries ht) k of
        Some (IS_INDIRECT a) \<Rightarrow> cleared w ht a res
      | _ \<Rightarrow> deleted w ht k res)"

lemma map_of_key_pos: "ht_inv ht \<Longrightarrow> key_pos ht k = Some j \<Longrightarrow> map_of (ht_entries ht) k = Some (b_val (arData ht ! j))"
  by (simp add: map_of_entries)

lemma deleted_ind_absent:
  "ht_inv ht \<Longrightarrow> key_pos ht k = None \<Longrightarrow> deleted_ind w ht k (False, w, ht)"
  using deleted_absent [of ht k w] absent_map_of [of ht k] by (simp add: deleted_ind_def)

lemma deleted_ind_present:
  assumes inv: "ht_inv ht" and k: "key_pos ht k = Some j" and p: "pred_ok ht j prev"
    and f: "\<And>a. b_val (arData ht ! j) = IS_INDIRECT a \<Longrightarrow> \<exists>res. f a = Inr res \<and> cleared w ht a res"
  shows "\<exists>res. (case b_val (arData ht ! j) of
      IS_INDIRECT a \<Rightarrow> f a | _ \<Rightarrow> Inr (True, zend_hash_del_el_ex w ht j prev)) = Inr res \<and>
     deleted_ind w ht k res"
proof (cases "\<exists>a. b_val (arData ht ! j) = IS_INDIRECT a")
  case True
  then obtain a where a: "b_val (arData ht ! j) = IS_INDIRECT a" by blast
  from f [OF a] show ?thesis by (simp add: deleted_ind_def map_of_key_pos [OF inv k] a)
next
  case False
  with deleted_present [OF inv k p, of w] show ?thesis
    by (cases "b_val (arData ht ! j)") (simp_all add: deleted_ind_def map_of_key_pos [OF inv k])
qed

lemma zend_hash_del_ind_spec:
  assumes inv: "ht_inv ht"
  shows "\<exists>res. zend_hash_del_ind w ht key = Inr res \<and> deleted_ind w ht (StrKey (zs_val key)) res"
  unfolding zend_hash_del_ind_def Let_def
proof (rule prev_then(1) [OF inv _ _ refl], goal_cases)
  case 1
  with deleted_ind_absent [OF inv] show ?case by auto
next
  case (2 j prev)
  then show ?case
    unfolding option.case prod.case
    by (intro deleted_ind_present [OF inv]) (auto simp: cleared_def split: option.splits)
qed

lemma zend_hash_str_del_ind_spec:
  assumes inv: "ht_inv ht"
  shows "\<exists>res. zend_hash_str_del_ind w ht str = Inr res \<and> deleted_ind w ht (StrKey str) res"
  unfolding zend_hash_str_del_ind_def Let_def
proof (rule prev_then(2) [OF inv _ _ refl], goal_cases)
  case 1
  with deleted_ind_absent [OF inv] show ?case by auto
next
  case (2 j prev)
  then show ?case
    unfolding option.case prod.case
    by (intro deleted_ind_present [OF inv]) (auto simp: cleared_def events_call_dtor)
qed

text \<open>A bucket is removed through its address as through its key.\<close>

lemma zend_hash_del_bucket_spec:
  assumes inv: "ht_inv ht" and i: "idx < nNumUsed ht" "live (arData ht ! idx)"
  shows "\<exists>res. zend_hash_del_bucket w ht idx = Inr res \<and> del_post w ht idx res"
proof -
  have ini: "ht_initialized ht" using uninit_empty(1) [OF inv] i by auto
  show ?thesis
  proof (cases "ht_packed ht")
    case True
    then have "pred_ok ht idx None" by (simp add: pred_ok_def)
    from zend_hash_del_el_ex_spec [OF inv i this, of w] True show ?thesis
      by (simp add: zend_hash_del_bucket_def zend_hash_del_el_def)
  next
    case False
    let ?s = "slot_of ht idx" and ?n = "nNumUsed ht"
    let ?Q = "in_slot ht ?s"
    have lay: "hash_layout ht" and le: "?n \<le> nTableSize ht" and sz: "size_ok (nTableSize ht)"
      using inv ini False by (auto simp: ht_inv_def contents_ok_def)
    then have rdy: "hash_ready ht" and l: "linked ht ?n" and d: "length (arData ht) = nTableSize ht"
      by (auto simp: hash_layout_def hash_ready_def hash_area_def)
    have hd: "arHash ht ! ?s = last_in ?Q ?n"
      using l hash_ready_slot [OF rdy] by (simp add: linked_def slot_of_def)
    have s: "hash_slot (nTableMask ht) (b_h (arData ht ! idx)) = ?s" by (simp add: slot_of_def)
    have Q: "?Q idx" using i by (simp add: in_slot_def)
    show ?thesis
    proof (cases "last_in ?Q ?n = idx")
      case True
      then have "pred_ok ht idx None" by (simp add: pred_ok_def Let_def)
      from zend_hash_del_el_ex_spec [OF inv i this, of w] True False show ?thesis
        by (simp add: zend_hash_del_bucket_def zend_hash_del_el_def s hd Let_def)
    next
      case other: False
      have "\<exists>q<?n. chain_prev (arData ht) (nTableSize ht) idx (last_in ?Q ?n) = Inr q \<and> ?Q q \<and> last_in ?Q q = idx"
      proof (rule chain_prev_last_in [OF _ _ _ _ i(1) Q other])
        show "b_next (arData ht ! j) = last_in ?Q j" if "j < ?n" "?Q j" for j
          using l that by (auto simp: linked_def in_slot_def [of ht ?s j])
      qed (use d le size_ok_less_invalid [OF sz] in auto)
      then obtain q where q: "q < ?n" "chain_prev (arData ht) (nTableSize ht) idx (last_in ?Q ?n) = Inr q"
          "?Q q" "last_in ?Q q = idx" by blast
      then have "pred_ok ht idx (Some q)" by (simp add: pred_ok_def Let_def)
      from zend_hash_del_el_ex_spec [OF inv i this, of w] other False q(2) show ?thesis
        by (simp add: zend_hash_del_bucket_def zend_hash_del_el_def s hd Let_def)
    qed
  qed
qed

end
