(* ===== verification/Zend_Hash_Map.thy ===== *)
theory Zend_Hash_Map
  imports Zend_Hash_Delete
begin

text \<open>
  The hash table as an ordered map. The locale states what the clients of the table rely on:
  a lookup gives the entry of the key, a write replaces it in place or appends it, a deletion
  removes it, and nothing but the size can make an operation fail. It is interpreted on the
  interfaces of the table, one for each kind of key, and on the choice between them that the
  loops over the buckets of another table make.
\<close>

subsection \<open>The interface\<close>

locale ordered_map =
  fixes inv :: "'s \<Rightarrow> bool" and entries :: "'s \<Rightarrow> ('k \<times> 'v) list" and key :: "'a \<Rightarrow> 'k"
    and good :: "'v \<Rightarrow> bool" and full :: "'s \<Rightarrow> bool"
    and lookup :: "'a \<Rightarrow> 's \<Rightarrow> 'v option res"
    and put :: "'a \<Rightarrow> 'v \<Rightarrow> 's \<Rightarrow> 's res"
    and remove :: "'a \<Rightarrow> 's \<Rightarrow> 's res"
  assumes distinct_keys: "inv s \<Longrightarrow> distinct (map fst (entries s))"
    and lookup_entries: "inv s \<Longrightarrow> lookup a s = Inr (map_of (entries s) (key a))"
    and put_Inr: "inv s \<Longrightarrow> good v \<Longrightarrow> put a v s = Inr s' \<Longrightarrow>
      inv s' \<and> entries s' = AList.update (key a) v (entries s)"
    and put_Inl: "inv s \<Longrightarrow> good v \<Longrightarrow> put a v s = Inl e \<Longrightarrow> e = E_ERROR_MEMORY \<and> full s"
    and remove_Inr: "inv s \<Longrightarrow>
      \<exists>s'. remove a s = Inr s' \<and> inv s' \<and> entries s' = AList.delete (key a) (entries s)"
begin

text \<open>The contents as a map.\<close>

definition contents :: "'s \<Rightarrow> 'k \<Rightarrow> 'v option" where
  "contents s = map_of (entries s)"

lemma put_contents:
  "inv s \<Longrightarrow> good v \<Longrightarrow> put a v s = Inr s' \<Longrightarrow> contents s' = (contents s)(key a \<mapsto> v)"
  using put_Inr by (simp add: contents_def AList.update_conv')

lemma remove_contents:
  "inv s \<Longrightarrow> remove a s = Inr s' \<Longrightarrow> contents s' = (contents s)(key a := None)"
  using remove_Inr [of s a] by (auto simp: contents_def AList.delete_conv')

lemma lookup_after_put:
  assumes "inv s" "good v" "put a v s = Inr s'"
  shows "lookup b s' = (if key b = key a then Inr (Some v) else lookup b s)"
  using assms put_Inr [OF assms] lookup_entries put_contents [OF assms] by (simp add: contents_def)

lemma lookup_after_remove:
  assumes "inv s" "remove a s = Inr s'"
  shows "lookup b s' = (if key b = key a then Inr None else lookup b s)"
  using assms remove_Inr [OF assms(1), of a] lookup_entries remove_contents [OF assms]
  by (auto simp: contents_def)

text \<open>A sequence of writes, stopped by the first failure.\<close>

fun put_all :: "('a \<times> 'v) list \<Rightarrow> 's \<Rightarrow> 's res" where
  "put_all [] s = Inr s"
| "put_all ((a, v) # kvs) s = res_bind (put a v s) (put_all kvs)"

lemma put_all_append: "put_all (xs @ ys) s = res_bind (put_all xs s) (put_all ys)"
proof (induction xs arbitrary: s)
  case Nil
  then show ?case by simp
next
  case (Cons p xs)
  obtain a v where p: "p = (a, v)" by (cases p)
  show ?case by (cases "put a v s") (simp_all add: p Cons)
qed

lemma put_all_Inr:
  "inv s \<Longrightarrow> \<forall>(a, v) \<in> set kvs. good v \<Longrightarrow> put_all kvs s = Inr s' \<Longrightarrow>
   inv s' \<and> entries s' = fold (\<lambda>(a, v). AList.update (key a) v) kvs (entries s)"
proof (induction kvs arbitrary: s)
  case Nil
  then show ?case by simp
next
  case (Cons p kvs)
  obtain a v where p: "p = (a, v)" by (cases p)
  then obtain s1 where s1: "put a v s = Inr s1" "put_all kvs s1 = Inr s'"
    using Cons.prems by (auto simp: res_bind_Inr_iff)
  have "inv s1 \<and> entries s1 = AList.update (key a) v (entries s)"
    using put_Inr [OF Cons.prems(1) _ s1(1)] Cons.prems(2) p by simp
  then show ?case using Cons.IH [OF _ _ s1(2)] Cons.prems p by simp
qed

text \<open>It fails only when it meets a full table on the way.\<close>

lemma put_all_Inl:
  "inv s \<Longrightarrow> \<forall>(a, v) \<in> set kvs. good v \<Longrightarrow> put_all kvs s = Inl e \<Longrightarrow>
   e = E_ERROR_MEMORY \<and> (\<exists>n \<le> length kvs. \<exists>s'. put_all (take n kvs) s = Inr s' \<and> inv s' \<and> full s')"
proof (induction kvs arbitrary: s)
  case Nil
  then show ?case by simp
next
  case (Cons p kvs)
  obtain a v where p: "p = (a, v)" by (cases p)
  have v: "good v" using Cons.prems(2) p by simp
  show ?case
  proof (cases "put a v s")
    case (Inl e')
    then have "e = E_ERROR_MEMORY \<and> full s"
      using put_Inl [OF Cons.prems(1) v] Cons.prems(3) p by simp
    with Cons.prems(1) show ?thesis by (intro conjI exI [of _ 0]) auto
  next
    case (Inr s1)
    have "inv s1" using put_Inr [OF Cons.prems(1) v Inr] by simp
    then obtain n s' where "e = E_ERROR_MEMORY" "n \<le> length kvs" "put_all (take n kvs) s1 = Inr s'"
        "inv s'" "full s'"
      using Cons.IH [of s1] Cons.prems Inr p by auto
    with Inr p show ?thesis by (intro conjI exI [of _ "Suc n"]) auto
  qed
qed

end

subsection \<open>The table as a state\<close>

text \<open>A table and the rest of the process, with the results of the operations dropped.\<close>

abbreviation st_inv :: "world \<times> HashTable \<Rightarrow> bool" where
  "st_inv s \<equiv> ht_inv (snd s)"

abbreviation st_entries :: "world \<times> HashTable \<Rightarrow> (hkey \<times> zval) list" where
  "st_entries s \<equiv> ht_entries (snd s)"

abbreviation st_full :: "world \<times> HashTable \<Rightarrow> bool" where
  "st_full s \<equiv> table_full (snd s)"

definition drop_result :: "'a ht_res \<Rightarrow> (world \<times> HashTable) res" where
  "drop_result m = res_bind m (\<lambda>(_, s). Inr s)"

lemma drop_result_simps [simp]: "drop_result (Inr (r, s)) = Inr s" "drop_result (Inl e) = Inl e"
  by (simp_all add: drop_result_def)

lemma no_add_flag:
  "HASH_UPDATE AND HASH_ADD = 0" "HASH_UPDATE AND HASH_UPDATE_INDIRECT = 0" "HASH_UPDATE AND HASH_ADD_NEW = 0"
  "HASH_ADD AND HASH_UPDATE_INDIRECT = 0" "HASH_ADD AND HASH_ADD_NEW = 0" "HASH_ADD AND HASH_ADD \<noteq> 0"
  "HASH_UPDATE AND (HASH_ADD_NEW OR HASH_ADD_NEXT) \<noteq> HASH_ADD_NEW OR HASH_ADD_NEXT"
  "HASH_ADD AND (HASH_ADD_NEW OR HASH_ADD_NEXT) \<noteq> HASH_ADD_NEW OR HASH_ADD_NEXT"
  by (simp_all add: hash_masks)

lemma zend_hash_update_spec:
  assumes "ht_inv ht" "storable v"
  shows "outcome ht (\<lambda>res. written w ht (StrKey (zs_val key)) v res \<and>
     events (fst (snd res)) = events w @ write_events ht (StrKey (zs_val key)) (key_events key))
     (zend_hash_update w ht key v)"
  unfolding zend_hash_update_def
  by (rule outcome_mono [OF zend_hash_add_or_update_i_spec [OF assms]])
    (simp_all add: no_add_flag str_add_post_def Let_def)

lemma zend_hash_index_update_spec:
  assumes "ht_inv ht" "storable v"
  shows "outcome ht (\<lambda>res. written w ht (IntKey h) v res \<and>
     events (fst (snd res)) = events w @ write_events ht (IntKey h) [])
     (zend_hash_index_update w ht h v)"
  unfolding zend_hash_index_update_def
  by (rule outcome_mono [OF zend_hash_index_add_or_update_i_spec [OF assms]])
    (simp_all add: no_add_flag index_add_post_def next_promise_def)

text \<open>The operations of the interface.\<close>

definition str_lookup :: "zend_string \<Rightarrow> world \<times> HashTable \<Rightarrow> zval option res" where
  "str_lookup key = (\<lambda>(w, ht). zref_val w ht (zend_hash_find ht key))"

definition str_put :: "zend_string \<Rightarrow> zval \<Rightarrow> world \<times> HashTable \<Rightarrow> (world \<times> HashTable) res" where
  "str_put key v = (\<lambda>(w, ht). drop_result (zend_hash_update w ht key v))"

definition str_remove :: "zend_string \<Rightarrow> world \<times> HashTable \<Rightarrow> (world \<times> HashTable) res" where
  "str_remove key = (\<lambda>(w, ht). drop_result (zend_hash_del w ht key))"

definition idx_lookup :: "zend_ulong \<Rightarrow> world \<times> HashTable \<Rightarrow> zval option res" where
  "idx_lookup h = (\<lambda>(w, ht). zref_val w ht (zend_hash_index_find ht h))"

definition idx_put :: "zend_ulong \<Rightarrow> zval \<Rightarrow> world \<times> HashTable \<Rightarrow> (world \<times> HashTable) res" where
  "idx_put h v = (\<lambda>(w, ht). drop_result (zend_hash_index_update w ht h v))"

definition idx_remove :: "zend_ulong \<Rightarrow> world \<times> HashTable \<Rightarrow> (world \<times> HashTable) res" where
  "idx_remove h = (\<lambda>(w, ht). drop_result (zend_hash_index_del w ht h))"

lemma outcome_drop:
  assumes "outcome ht (\<lambda>res. written w ht k v res \<and> P res) m"
  shows "drop_result m = Inr s' \<Longrightarrow> st_inv s' \<and> st_entries s' = AList.update k v (ht_entries ht)"
    "drop_result m = Inl e \<Longrightarrow> e = E_ERROR_MEMORY \<and> table_full ht"
  using assms by (cases m; auto simp: written_def)+

lemma deleted_drop:
  assumes "\<exists>res. m = Inr res \<and> deleted w ht k res"
  shows "\<exists>s'. drop_result m = Inr s' \<and> st_inv s' \<and> st_entries s' = AList.delete k (ht_entries ht)"
  using assms by (auto simp: deleted_def)

interpretation str_map: ordered_map st_inv st_entries "\<lambda>key. StrKey (zs_val key)" storable st_full
  str_lookup str_put str_remove
proof
  fix s :: "world \<times> HashTable" and v key
  assume inv: "st_inv s"
  obtain w ht where s: "s = (w, ht)" by (cases s)
  show "distinct (map fst (st_entries s))" by (rule ht_inv_distinct [OF inv])
  show "str_lookup key s = Inr (map_of (st_entries s) (StrKey (zs_val key)))"
    using inv by (simp add: s str_lookup_def find_pos zref_val_pos)
  note del = deleted_drop [OF zend_hash_del_spec [of ht w key]]
  show "\<exists>s'. str_remove key s = Inr s' \<and> st_inv s' \<and>
      st_entries s' = AList.delete (StrKey (zs_val key)) (st_entries s)"
    using del inv by (simp add: s str_remove_def)
  assume v: "storable v"
  have "ht_inv ht" using inv s by simp
  note d = outcome_drop [OF zend_hash_update_spec [OF this v, of w key]]
  show "st_inv s' \<and> st_entries s' = AList.update (StrKey (zs_val key)) v (st_entries s)"
    if "str_put key v s = Inr s'" for s'
    using d(1) [of s'] that by (simp add: s str_put_def)
  show "e = E_ERROR_MEMORY \<and> st_full s" if "str_put key v s = Inl e" for e
    using d(2) [of e] that by (simp add: s str_put_def)
qed

interpretation idx_map: ordered_map st_inv st_entries IntKey storable st_full
  idx_lookup idx_put idx_remove
proof
  fix s :: "world \<times> HashTable" and v h
  assume inv: "st_inv s"
  obtain w ht where s: "s = (w, ht)" by (cases s)
  show "distinct (map fst (st_entries s))" by (rule ht_inv_distinct [OF inv])
  show "idx_lookup h s = Inr (map_of (st_entries s) (IntKey h))"
    using inv by (simp add: s idx_lookup_def index_find_pos zref_val_pos)
  note del = deleted_drop [OF zend_hash_index_del_spec [of ht w h]]
  show "\<exists>s'. idx_remove h s = Inr s' \<and> st_inv s' \<and>
      st_entries s' = AList.delete (IntKey h) (st_entries s)"
    using del inv by (simp add: s idx_remove_def)
  assume v: "storable v"
  have "ht_inv ht" using inv s by simp
  note d = outcome_drop [OF zend_hash_index_update_spec [OF this v, of w h]]
  show "st_inv s' \<and> st_entries s' = AList.update (IntKey h) v (st_entries s)"
    if "idx_put h v s = Inr s'" for s'
    using d(1) [of s'] that by (simp add: s idx_put_def)
  show "e = E_ERROR_MEMORY \<and> st_full s" if "idx_put h v s = Inl e" for e
    using d(2) [of e] that by (simp add: s idx_put_def)
qed

end
