(* ===== verification/Zend_Symtable.thy ===== *)
theory Zend_Symtable
  imports Zend_Hash_Map
begin

text \<open>
  The symbol table interface of \<open>zend_hash.h\<close>: a string key that is the decimal notation of an
  integer is replaced by the integer. The first part models the test (\<open>_zend_handle_numeric_str\<close>)
  and the printing of integers (\<open>zend_operators.h\<close>), and shows that one accepts exactly what the
  other prints; the second part has the operations, and shows that they are those of the hash
  table on the normalised key.
\<close>

subsection \<open>Numeric strings\<close>

text \<open>A string is followed by a \<open>NUL\<close>; characters are compared as signed.\<close>

definition char_at :: "bytes \<Rightarrow> nat \<Rightarrow> 8 word" where
  "char_at key i = (if i < length key then key ! i else 0)"

definition is_digit :: "8 word \<Rightarrow> bool" where
  "is_digit c \<longleftrightarrow> sint c \<le> 57 \<and> 48 \<le> sint c"

definition MAX_LENGTH_OF_LONG :: nat where
  "MAX_LENGTH_OF_LONG = 20"

text \<open>The loop of \<open>_zend_handle_numeric_str_ex\<close> over the characters after the first digit.\<close>

fun numeric_loop :: "bool \<Rightarrow> bytes \<Rightarrow> zend_ulong \<Rightarrow> zend_ulong option" where
  "numeric_loop neg [] idx =
     (if neg then if idx - 1 > ZEND_LONG_MAX then None else Some (0 - idx)
      else if idx > ZEND_LONG_MAX then None else Some idx)"
| "numeric_loop neg (c # tmp) idx =
     (if is_digit c then numeric_loop neg tmp (idx * 10 + of_int (sint c - 48)) else None)"

definition zend_handle_numeric_str_ex :: "bytes \<Rightarrow> zend_ulong option res" where
  "zend_handle_numeric_str_ex key =
     (let neg = (char_at key 0 = 45);
          tmp = (if neg then drop 1 key else key)
      in
      if (char_at tmp 0 = 48 \<and> length key > 1) \<or> length tmp > MAX_LENGTH_OF_LONG - 1 then Inr None
      else if tmp = [] then Inl UB_OUT_OF_BOUNDS
      else Inr (numeric_loop neg (drop 1 tmp) (of_int (sint (char_at tmp 0) - 48))))"

definition zend_handle_numeric_str :: "bytes \<Rightarrow> zend_ulong option res" where
  "zend_handle_numeric_str key =
     (if sint (char_at key 0) > 57 then Inr None
      else if sint (char_at key 0) < 48 then
        if char_at key 0 \<noteq> 45 then Inr None
        else if sint (char_at key 1) > 57 \<or> sint (char_at key 1) < 48 then Inr None
        else zend_handle_numeric_str_ex key
      else zend_handle_numeric_str_ex key)"

lemma unat_div_10: "unat (num div 10 :: zend_ulong) = unat num div 10"
  by (simp add: unat_div)

lemma div_10_less: "num div 10 \<noteq> 0 \<Longrightarrow> unat (num div 10 :: zend_ulong) < unat num"
  by (metis unat_div_10 div_less_dividend gr0I div_0 unat_eq_zero numeral_One one_less_numeral_iff
      semiring_norm(76) word_arith_nat_div)

text \<open>Printing, from the end of the buffer to its beginning.\<close>

function zend_print_ulong_to_buf :: "bytes \<Rightarrow> zend_ulong \<Rightarrow> bytes" where
  "zend_print_ulong_to_buf buf num =
     (let buf = (ucast (num mod 10) + 48) # buf; num = num div 10
      in if num > 0 then zend_print_ulong_to_buf buf num else buf)"
  by pat_completeness auto
termination
  by (relation "measure (unat \<circ> snd)") (auto intro: div_10_less)

declare zend_print_ulong_to_buf.simps [simp del]

definition zend_print_long_to_buf :: "bytes \<Rightarrow> zend_ulong \<Rightarrow> bytes" where
  "zend_print_long_to_buf buf num =
     (if sint num < 0 then 45 # zend_print_ulong_to_buf buf (NOT num + 1)
      else zend_print_ulong_to_buf buf num)"

text \<open>One-character strings are interned, the others are new.\<close>

definition zend_long_to_str :: "zend_ulong \<Rightarrow> world \<Rightarrow> zend_string \<times> world" where
  "zend_long_to_str num w =
     (if num \<le> 9 then (\<lparr>zs_val = [ucast num + 48], zs_interned = True\<rparr>, w)
      else zend_string_init (zend_print_long_to_buf [] num) w)"

subsection \<open>Decimal notation\<close>

definition digit :: "nat \<Rightarrow> 8 word" where
  "digit d = of_nat d + 48"

definition digit_val :: "8 word \<Rightarrow> nat" where
  "digit_val c = nat (sint c - 48)"

definition dec_val :: "bytes \<Rightarrow> nat" where
  "dec_val ds = foldl (\<lambda>n c. n * 10 + digit_val c) 0 ds"

fun decimal :: "nat \<Rightarrow> bytes" where
  "decimal n = (if n < 10 then [digit n] else decimal (n div 10) @ [digit (n mod 10)])"

declare decimal.simps [simp del]

lemma less_10_cases: "d < 10 \<Longrightarrow> d = 0 \<or> d = 1 \<or> d = 2 \<or> d = 3 \<or> d = 4 \<or> d = 5 \<or> d = 6 \<or> d = 7 \<or> d = 8 \<or> d = (9::nat)"
  by arith

lemma digit_facts: "d < 10 \<Longrightarrow> is_digit (digit d) \<and> digit_val (digit d) = d \<and> (digit d = 48 \<longleftrightarrow> d = 0) \<and> digit d \<noteq> 45"
  by (drule less_10_cases) (auto simp: digit_def is_digit_def digit_val_def)

lemma is_digit_digit: "is_digit c \<Longrightarrow> digit_val c < 10 \<and> digit (digit_val c) = c"
proof -
  assume "is_digit c"
  then have s: "48 \<le> sint c" "sint c \<le> 57" by (simp_all add: is_digit_def)
  then have "digit (digit_val c) = of_int (sint c)"
    by (simp add: digit_def digit_val_def of_nat_nat)
  then show ?thesis using s by (simp add: digit_val_def)
qed

lemma dec_val_snoc [simp]: "dec_val (ds @ [c]) = dec_val ds * 10 + digit_val c"
  by (simp add: dec_val_def)

lemma decimal_digits: "decimal n \<noteq> [] \<and> (\<forall>c \<in> set (decimal n). is_digit c) \<and> dec_val (decimal n) = n"
proof (induction n rule: decimal.induct)
  case (1 n)
  show ?case
  proof (cases "n < 10")
    case True
    then show ?thesis using digit_facts [of n] by (simp add: decimal.simps [of n] dec_val_def)
  next
    case False
    have "n mod 10 < 10" by simp
    from digit_facts [OF this] 1 [OF False] False show ?thesis
      by (simp add: decimal.simps [of n] ball_Un)
  qed
qed

lemma decimal_hd: "0 < n \<Longrightarrow> hd (decimal n) \<noteq> 48"
proof (induction n rule: decimal.induct)
  case (1 n)
  show ?case
  proof (cases "n < 10")
    case True
    then show ?thesis using 1(2) digit_facts [of n] by (simp add: decimal.simps [of n])
  next
    case False
    then have "hd (decimal (n div 10)) \<noteq> 48" using 1(1) by simp
    then show ?thesis using False decimal_digits [of "n div 10"] by (simp add: decimal.simps [of n])
  qed
qed

text \<open>The notation without leading zeros is unique.\<close>

lemma decimal_dec_val:
  "ds \<noteq> [] \<Longrightarrow> \<forall>c \<in> set ds. is_digit c \<Longrightarrow> hd ds \<noteq> 48 \<or> length ds = 1 \<Longrightarrow> decimal (dec_val ds) = ds"
proof (induction ds rule: rev_induct)
  case Nil
  then show ?case by simp
next
  case (snoc c ds)
  note c = is_digit_digit [of c]
  show ?case
  proof (cases "ds = []")
    case True
    then show ?thesis using snoc.prems c by (simp add: decimal.simps [of "digit_val c"] dec_val_def)
  next
    case False
    have hd: "hd ds \<noteq> 48" using snoc.prems(3) False by simp
    have IH: "decimal (dec_val ds) = ds" using snoc False hd by simp
    have "dec_val ds \<noteq> 0"
    proof
      assume "dec_val ds = 0"
      then have "ds = [digit 0]" using IH by (simp add: decimal.simps)
      then show False using hd by (simp add: digit_def)
    qed
    then have "\<not> dec_val (ds @ [c]) < 10" "dec_val (ds @ [c]) div 10 = dec_val ds"
        "dec_val (ds @ [c]) mod 10 = digit_val c"
      using c snoc.prems by auto
    then have "decimal (dec_val (ds @ [c])) = decimal (dec_val ds) @ [digit (digit_val c)]"
      by (subst decimal.simps) simp
    then show ?thesis using IH c snoc.prems by simp
  qed
qed

lemma dec_val_less: "\<forall>c \<in> set ds. is_digit c \<Longrightarrow> dec_val ds < 10 ^ length ds"
proof (induction ds rule: rev_induct)
  case Nil
  then show ?case by (simp add: dec_val_def)
next
  case (snoc c ds)
  then show ?case using is_digit_digit [of c] by auto
qed

lemma decimal_length: "n < 10 ^ k \<Longrightarrow> 0 < k \<Longrightarrow> length (decimal n) \<le> k"
proof (induction n arbitrary: k rule: decimal.induct)
  case (1 n)
  show ?case
  proof (cases "n < 10")
    case True
    then show ?thesis using 1(3) by (simp add: decimal.simps [of n])
  next
    case False
    obtain j where k: "k = Suc j" using 1(3) by (cases k) auto
    with 1(2) False have j: "k = Suc j" "0 < j" by (cases j; simp)+
    then have "n div 10 < 10 ^ j" using 1(2) by (simp add: less_mult_imp_div_less)
    then have "length (decimal (n div 10)) \<le> j" using 1(1) False j by blast
    then show ?thesis using j False by (simp add: decimal.simps [of n])
  qed
qed

lemma print_ulong_decimal: "zend_print_ulong_to_buf buf num = decimal (unat num) @ buf"
proof (induction buf num rule: zend_print_ulong_to_buf.induct)
  case (1 buf num)
  have "unat (num mod 10) = unat num mod 10" by (simp add: unat_mod)
  then have d: "ucast (num mod 10) + 48 = digit (unat num mod 10)"
    by (metis digit_def of_nat_unat)
  show ?case
  proof (cases "num div 10 > 0")
    case True
    then have "unat num div 10 \<noteq> 0" using unat_div_10 [of num] by (metis unat_eq_zero word_neq_0_conv)
    then have "\<not> unat num < 10" by simp
    then show ?thesis
      using 1 [OF refl refl True] True
      by (simp add: zend_print_ulong_to_buf.simps [of buf num] decimal.simps [of "unat num"] Let_def d
          unat_div_10)
  next
    case False
    then have "unat num div 10 = 0" using unat_div_10 [of num] by (metis unat_0 word_neq_0_conv)
    then have "unat num < 10" by (simp add: div_eq_0_iff)
    then show ?thesis using False
      by (simp add: zend_print_ulong_to_buf.simps [of buf num] decimal.simps [of "unat num"] Let_def d)
  qed
qed

lemma print_long_decimal:
  "zend_print_long_to_buf buf num =
     (if sint num < 0 then 45 # decimal (unat (- num)) else decimal (unat num)) @ buf"
proof -
  have "NOT num + 1 = - num" by (simp add: minus_eq_not_plus_1)
  then show ?thesis by (simp add: zend_print_long_to_buf_def print_ulong_decimal)
qed

subsection \<open>Only canonical numbers are accepted\<close>

lemma foldl_dec: "foldl (\<lambda>n c. n * 10 + digit_val c) m ds = m * 10 ^ length ds + dec_val ds"
proof (induction ds rule: rev_induct)
  case Nil
  then show ?case by (simp add: dec_val_def)
next
  case (snoc c ds)
  then show ?case by (simp add: algebra_simps)
qed

lemma dec_val_Cons: "dec_val (c # ds) = digit_val c * 10 ^ length ds + dec_val ds"
  using foldl_dec [of "digit_val c" ds] by (simp add: dec_val_def)

lemma of_int_digit:
  assumes "is_digit c"
  shows "(of_int (sint c - 48) :: zend_ulong) = of_nat (digit_val c)"
proof -
  have "0 \<le> sint c - 48" using assms by (simp add: is_digit_def)
  from of_nat_nat [OF this] show ?thesis unfolding digit_val_def by (rule sym)
qed

lemma next_digit:
  assumes "is_digit c" "unat idx < 10 ^ k" "k < 19"
  shows "unat (idx * 10 + of_int (sint c - 48) :: zend_ulong) = unat idx * 10 + digit_val c"
    "unat idx * 10 + digit_val c < 10 ^ Suc k"
proof -
  have d: "digit_val c < 10" using is_digit_digit [OF assms(1)] by simp
  then show b: "unat idx * 10 + digit_val c < 10 ^ Suc k" using assms(2) by simp
  have "(10::nat) ^ Suc k \<le> 10 ^ 19" using assms(3) by (intro power_increasing) auto
  then have "unat idx * 10 + digit_val c < 2 ^ 64" using b by simp
  moreover have "idx * 10 + of_int (sint c - 48) = of_nat (unat idx * 10 + digit_val c)"
    by (subst of_int_digit [OF assms(1)]) simp
  ultimately show "unat (idx * 10 + of_int (sint c - 48) :: zend_ulong) = unat idx * 10 + digit_val c"
    by (simp only: unat_of_nat) simp
qed

lemma numeric_loop_eq:
  "unat idx < 10 ^ k \<Longrightarrow> k + length ds \<le> 19 \<Longrightarrow>
   numeric_loop neg ds idx = (if \<forall>c \<in> set ds. is_digit c
     then numeric_loop neg [] (of_nat (unat idx * 10 ^ length ds + dec_val ds)) else None)"
proof (induction ds arbitrary: idx k)
  case Nil
  then show ?case by (simp add: dec_val_def)
next
  case (Cons c ds)
  show ?case
  proof (cases "is_digit c")
    case True
    have k: "k < 19" using Cons.prems(2) by simp
    note n = next_digit [OF True Cons.prems(1) k]
    have "unat (idx * 10 + of_int (sint c - 48)) < 10 ^ Suc k" using n by simp
    from Cons.IH [OF this] Cons.prems(2) True show ?thesis
      by (simp only: n(1)) (simp add: dec_val_Cons algebra_simps)
  next
    case False
    then show ?thesis by simp
  qed
qed

text \<open>The whole test, as a condition on the text.\<close>

lemma not_digit: "\<not> is_digit 45" "\<not> is_digit 0"
  by (simp_all add: is_digit_def)

lemma handle_numeric_cases:
  assumes neg: "neg = (char_at s 0 = 45)" and tmp: "tmp = (if neg then drop 1 s else s)"
  shows "zend_handle_numeric_str s = Inr
    (if tmp \<noteq> [] \<and> (\<forall>c \<in> set tmp. is_digit c) \<and> \<not> (hd tmp = 48 \<and> length s > 1) \<and> length tmp \<le> 19
     then numeric_loop neg [] (of_nat (dec_val tmp)) else None)"
proof (cases "tmp \<noteq> [] \<and> is_digit (hd tmp)")
  case False
  have "char_at s 0 = 45 \<Longrightarrow> \<not> is_digit (char_at s 1)"
    using False not_digit assms by (cases s; cases "tl s") (auto simp: char_at_def)
  moreover have "char_at s 0 \<noteq> 45 \<Longrightarrow> \<not> is_digit (char_at s 0)"
    using False not_digit assms by (cases s) (auto simp: char_at_def)
  ultimately have "zend_handle_numeric_str s = Inr None"
    by (auto simp: zend_handle_numeric_str_def is_digit_def)
  then show ?thesis using False by (cases tmp) auto
next
  case True
  then obtain c ds where t: "tmp = c # ds" and c: "is_digit c" by (cases tmp) auto
  have s: "s = (if neg then 45 # tmp else tmp)"
    using assms t by (cases s) (auto simp: char_at_def split: if_splits)
  have c1: "char_at tmp 0 = c" by (simp add: t char_at_def)
  have "zend_handle_numeric_str s = zend_handle_numeric_str_ex s"
    using c s t by (cases neg) (auto simp: zend_handle_numeric_str_def char_at_def is_digit_def)
  also have "\<dots> = (if (c = 48 \<and> length s > 1) \<or> length tmp > 19 then Inr None
      else Inr (numeric_loop neg ds (of_int (sint c - 48))))"
    unfolding zend_handle_numeric_str_ex_def Let_def neg [symmetric] tmp [symmetric] c1
    using t by (simp add: MAX_LENGTH_OF_LONG_def)
  also have "\<dots> = Inr (if c = 48 \<and> length s > 1 \<or> length tmp > 19 then None
      else if \<forall>c \<in> set ds. is_digit c then numeric_loop neg [] (of_nat (dec_val tmp)) else None)"
  proof (cases "length tmp > 19")
    case False
    have u: "unat (of_int (sint c - 48) :: zend_ulong) = digit_val c"
      using is_digit_digit [OF c] by (simp only: of_int_digit [OF c] unat_of_nat) simp
    have "unat (of_int (sint c - 48) :: zend_ulong) < 10 ^ 1" using u is_digit_digit [OF c] by simp
    from numeric_loop_eq [OF this, of ds neg] False t show ?thesis
      by (simp only: u dec_val_Cons) simp
  qed simp
  finally show ?thesis using t c by auto
qed

lemma split_sign:
  "neg = (char_at s 0 = 45) \<Longrightarrow> tmp = (if neg then drop 1 s else s) \<Longrightarrow> s = (if neg then 45 # tmp else tmp)"
  by (cases s) (auto simp: char_at_def)

lemma handle_numeric_iff:
  "\<exists>r. zend_handle_numeric_str s = Inr r \<and> (\<forall>i. r = Some i \<longleftrightarrow> s = zend_print_long_to_buf [] i)"
proof -
  define neg where "neg = (char_at s 0 = 45)"
  define tmp where "tmp = (if neg then drop 1 s else s)"
  define ok where "ok \<longleftrightarrow> tmp \<noteq> [] \<and> (\<forall>c \<in> set tmp. is_digit c) \<and> \<not> (hd tmp = 48 \<and> length s > 1) \<and>
    length tmp \<le> 19"
  define r where "r = (if ok then numeric_loop neg [] (of_nat (dec_val tmp)) else None)"
  have h: "zend_handle_numeric_str s = Inr r"
    using handle_numeric_cases [OF neg_def tmp_def] by (simp add: r_def ok_def)
  have max: "unat ZEND_LONG_MAX = 2 ^ 63 - 1" by (simp add: ZEND_LONG_MAX_def)
  have "s = zend_print_long_to_buf [] i" if some: "r = Some i" for i
  proof -
    have ok: ok using some by (simp add: r_def split: if_splits)
    note s = split_sign [OF neg_def tmp_def]
    have n: "dec_val tmp < 10 ^ 19"
      using dec_val_less [of tmp] ok power_increasing [of "length tmp" 19 "10::nat"] by (simp add: ok_def)
    have d: "decimal (dec_val tmp) = tmp"
    proof (rule decimal_dec_val)
      show "hd tmp \<noteq> 48 \<or> length tmp = 1"
        using ok s by (cases "length tmp") (auto simp: ok_def split: if_splits)
    qed (use ok in \<open>auto simp: ok_def\<close>)
    have u: "unat (of_nat (dec_val tmp) :: zend_ulong) = dec_val tmp"
      using n by (simp only: unat_of_nat) simp
    show ?thesis
    proof (cases neg)
      case False
      then have i: "i = of_nat (dec_val tmp)" "\<not> i > ZEND_LONG_MAX"
        using some ok by (auto simp: r_def split: if_splits)
      then have "uint i < 2 ^ 63"
        using u max by (simp add: word_less_nat_alt uint_nat)
      then have "\<not> sint i < 0" by (simp add: sint_uint_cases)
      then show ?thesis using False s d u i by (simp add: print_long_decimal)
    next
      case True
      then have i: "i = - of_nat (dec_val tmp)" "\<not> of_nat (dec_val tmp) - 1 > ZEND_LONG_MAX"
        using some ok by (auto simp: r_def split: if_splits)
      have "hd tmp \<noteq> 48" using ok s True by (cases tmp) (auto simp: ok_def)
      moreover have "decimal 0 = [48]" by (simp add: decimal.simps [of 0] digit_def)
      ultimately have pos: "dec_val tmp \<noteq> 0" using d by (metis list.sel(1))
      then have "(of_nat (dec_val tmp) :: zend_ulong) \<noteq> 0" using u by (metis unat_0)
      then have "unat (of_nat (dec_val tmp) - 1 :: zend_ulong) = dec_val tmp - 1"
        using u by (simp add: unat_minus_one)
      then have le: "dec_val tmp \<le> 2 ^ 63" using i(2) max by (simp add: word_less_nat_alt)
      have mi: "- i = of_nat (dec_val tmp)" using i by simp
      have "uint (- i) = int (dec_val tmp)" using mi u by (simp add: uint_nat)
      then have "uint i = 2 ^ 64 - int (dec_val tmp)"
        using pos n uint_word_ariths(4) [of "- i"] by (simp add: zmod_zminus1_eq_if)
      then have "sint i < 0" using le pos by (simp add: sint_uint_cases)
      then show ?thesis using True s d u mi by (simp add: print_long_decimal)
    qed
  qed
  moreover have "r = Some i" if s: "s = zend_print_long_to_buf [] i" for i
  proof -
    define n where "n = unat (if sint i < 0 then - i else i)"
    have s': "s = (if sint i < 0 then 45 # decimal n else decimal n)"
      using s by (simp add: print_long_decimal n_def)
    note d = decimal_digits [of n]
    have hd: "hd (decimal n) \<noteq> 45" using d not_digit by (cases "decimal n") auto
    have neg: "neg \<longleftrightarrow> sint i < 0" using d hd by (cases "decimal n") (simp_all add: neg_def s' char_at_def)
    have tmp: "tmp = decimal n" using neg by (simp add: tmp_def s')
    have u: "sint i < 0 \<Longrightarrow> unat (- i) = nat (2 ^ 64 - uint i)" and ui: "sint i < 0 \<longleftrightarrow> \<not> uint i < 2 ^ 63"
      using uint_word_ariths(4) [of i] uint_bounded [of i]
      by (auto simp: sint_uint_cases zmod_zminus1_eq_if unat_eq_nat_uint split: if_splits)
    have n: "n \<le> 2 ^ 63" "\<not> sint i < 0 \<Longrightarrow> n < 2 ^ 63" "sint i < 0 \<Longrightarrow> 0 < n"
    proof -
      have b: "0 \<le> uint i" "uint i < 2 ^ 64" using uint_bounded [of i] by simp_all
      have "n = (if sint i < 0 then nat (2 ^ 64 - uint i) else nat (uint i))"
        using u by (simp only: n_def unat_eq_nat_uint split: if_split) simp
      then show "n \<le> 2 ^ 63" "\<not> sint i < 0 \<Longrightarrow> n < 2 ^ 63" "sint i < 0 \<Longrightarrow> 0 < n"
        using ui b by (auto simp: nat_less_iff nat_le_iff split: if_splits simp del: nat_uint_eq)
    qed
    have len: "length (decimal n) \<le> 19" by (rule decimal_length) (use n(1) in simp_all)
    have ok: ok
      unfolding ok_def tmp using d len decimal_hd [of n] n(3) s'
      by (cases "n = 0") (auto simp: decimal.simps [of 0])
    have i: "sint i < 0 \<Longrightarrow> - of_nat n = i" "\<not> sint i < 0 \<Longrightarrow> of_nat n = i" by (simp_all add: n_def)
    show ?thesis
    proof (cases "sint i < 0")
      case True
      have "unat (of_nat n - 1 :: zend_ulong) = n - 1"
        using n(1) n(3) [OF True] by (subst unat_minus_one) (auto simp: unat_of_nat n_def True)
      then show ?thesis
        using ok True neg tmp d n(1) i(1) max by (simp add: r_def word_less_nat_alt)
    next
      case False
      moreover have "unat i = n" using False by (simp add: n_def)
      ultimately show ?thesis
        using ok neg tmp d n(2) i(2) max by (simp add: r_def word_less_nat_alt unat_of_nat)
    qed
  qed
  ultimately show ?thesis using h by blast
qed

subsection \<open>Lookups through \<open>IS_INDIRECT\<close>\<close>

definition follow_ind :: "world \<Rightarrow> HashTable \<Rightarrow> zref option \<Rightarrow> zref option" where
  "follow_ind w ht zv = (case zv of
     None \<Rightarrow> None
   | Some r \<Rightarrow> (case zref_get w ht r of
       IS_INDIRECT a \<Rightarrow> if slots w a \<noteq> IS_UNDEF then Some (SLOT a) else None
     | _ \<Rightarrow> zv))"

definition present_ind :: "world \<Rightarrow> HashTable \<Rightarrow> zref option \<Rightarrow> bool" where
  "present_ind w ht zv = (case zv of
     None \<Rightarrow> False
   | Some r \<Rightarrow> (case zref_get w ht r of IS_INDIRECT a \<Rightarrow> slots w a \<noteq> IS_UNDEF | _ \<Rightarrow> True))"

definition zend_hash_find_ind :: "world \<Rightarrow> HashTable \<Rightarrow> zend_string \<Rightarrow> zref option res" where
  "zend_hash_find_ind w ht key = res_bind (zend_hash_find ht key) (\<lambda>zv. Inr (follow_ind w ht zv))"

definition zend_hash_exists_ind :: "world \<Rightarrow> HashTable \<Rightarrow> zend_string \<Rightarrow> bool res" where
  "zend_hash_exists_ind w ht key = res_bind (zend_hash_find ht key) (\<lambda>zv. Inr (present_ind w ht zv))"

definition zend_hash_str_find_ind :: "world \<Rightarrow> HashTable \<Rightarrow> bytes \<Rightarrow> zref option res" where
  "zend_hash_str_find_ind w ht str = res_bind (zend_hash_str_find ht str) (\<lambda>zv. Inr (follow_ind w ht zv))"

definition zend_hash_str_exists_ind :: "world \<Rightarrow> HashTable \<Rightarrow> bytes \<Rightarrow> bool res" where
  "zend_hash_str_exists_ind w ht str = res_bind (zend_hash_str_find ht str) (\<lambda>zv. Inr (present_ind w ht zv))"

subsection \<open>The operations\<close>

definition ZEND_HANDLE_NUMERIC_STR :: "bytes \<Rightarrow> (zend_ulong \<Rightarrow> 'a res) \<Rightarrow> 'a res \<Rightarrow> 'a res" where
  "ZEND_HANDLE_NUMERIC_STR str f g =
     res_bind (zend_handle_numeric_str str) (\<lambda>idx. case idx of Some idx \<Rightarrow> f idx | None \<Rightarrow> g)"

definition zend_symtable_add_new :: "world \<Rightarrow> HashTable \<Rightarrow> zend_string \<Rightarrow> zval \<Rightarrow> zref option ht_res" where
  "zend_symtable_add_new w ht key pData =
     ZEND_HANDLE_NUMERIC_STR (zs_val key) (\<lambda>idx. zend_hash_index_add_new w ht idx pData)
       (zend_hash_add_new w ht key pData)"

definition zend_symtable_update :: "world \<Rightarrow> HashTable \<Rightarrow> zend_string \<Rightarrow> zval \<Rightarrow> zref option ht_res" where
  "zend_symtable_update w ht key pData =
     ZEND_HANDLE_NUMERIC_STR (zs_val key) (\<lambda>idx. zend_hash_index_update w ht idx pData)
       (zend_hash_update w ht key pData)"

definition zend_symtable_update_ind :: "world \<Rightarrow> HashTable \<Rightarrow> zend_string \<Rightarrow> zval \<Rightarrow> zref option ht_res" where
  "zend_symtable_update_ind w ht key pData =
     ZEND_HANDLE_NUMERIC_STR (zs_val key) (\<lambda>idx. zend_hash_index_update w ht idx pData)
       (zend_hash_update_ind w ht key pData)"

definition zend_symtable_del :: "world \<Rightarrow> HashTable \<Rightarrow> zend_string \<Rightarrow> bool ht_res" where
  "zend_symtable_del w ht key =
     ZEND_HANDLE_NUMERIC_STR (zs_val key) (\<lambda>idx. zend_hash_index_del w ht idx)
       (zend_hash_del w ht key)"

definition zend_symtable_del_ind :: "world \<Rightarrow> HashTable \<Rightarrow> zend_string \<Rightarrow> bool ht_res" where
  "zend_symtable_del_ind w ht key =
     ZEND_HANDLE_NUMERIC_STR (zs_val key) (\<lambda>idx. zend_hash_index_del w ht idx)
       (zend_hash_del_ind w ht key)"

definition zend_symtable_find :: "HashTable \<Rightarrow> zend_string \<Rightarrow> zref option res" where
  "zend_symtable_find ht key =
     ZEND_HANDLE_NUMERIC_STR (zs_val key) (\<lambda>idx. zend_hash_index_find ht idx)
       (zend_hash_find ht key)"

definition zend_symtable_find_ind :: "world \<Rightarrow> HashTable \<Rightarrow> zend_string \<Rightarrow> zref option res" where
  "zend_symtable_find_ind w ht key =
     ZEND_HANDLE_NUMERIC_STR (zs_val key) (\<lambda>idx. zend_hash_index_find ht idx)
       (zend_hash_find_ind w ht key)"

definition zend_symtable_exists :: "HashTable \<Rightarrow> zend_string \<Rightarrow> bool res" where
  "zend_symtable_exists ht key =
     ZEND_HANDLE_NUMERIC_STR (zs_val key) (\<lambda>idx. zend_hash_index_exists ht idx)
       (zend_hash_exists ht key)"

definition zend_symtable_exists_ind :: "world \<Rightarrow> HashTable \<Rightarrow> zend_string \<Rightarrow> bool res" where
  "zend_symtable_exists_ind w ht key =
     ZEND_HANDLE_NUMERIC_STR (zs_val key) (\<lambda>idx. zend_hash_index_exists ht idx)
       (zend_hash_exists_ind w ht key)"

definition zend_symtable_str_update :: "world \<Rightarrow> HashTable \<Rightarrow> bytes \<Rightarrow> zval \<Rightarrow> zref option ht_res" where
  "zend_symtable_str_update w ht str pData =
     ZEND_HANDLE_NUMERIC_STR str (\<lambda>idx. zend_hash_index_update w ht idx pData)
       (zend_hash_str_update w ht str pData)"

definition zend_symtable_str_update_ind :: "world \<Rightarrow> HashTable \<Rightarrow> bytes \<Rightarrow> zval \<Rightarrow> zref option ht_res" where
  "zend_symtable_str_update_ind w ht str pData =
     ZEND_HANDLE_NUMERIC_STR str (\<lambda>idx. zend_hash_index_update w ht idx pData)
       (zend_hash_str_update_ind w ht str pData)"

definition zend_symtable_str_del :: "world \<Rightarrow> HashTable \<Rightarrow> bytes \<Rightarrow> bool ht_res" where
  "zend_symtable_str_del w ht str =
     ZEND_HANDLE_NUMERIC_STR str (\<lambda>idx. zend_hash_index_del w ht idx)
       (zend_hash_str_del w ht str)"

definition zend_symtable_str_del_ind :: "world \<Rightarrow> HashTable \<Rightarrow> bytes \<Rightarrow> bool ht_res" where
  "zend_symtable_str_del_ind w ht str =
     ZEND_HANDLE_NUMERIC_STR str (\<lambda>idx. zend_hash_index_del w ht idx)
       (zend_hash_str_del_ind w ht str)"

definition zend_symtable_str_find :: "HashTable \<Rightarrow> bytes \<Rightarrow> zref option res" where
  "zend_symtable_str_find ht str =
     ZEND_HANDLE_NUMERIC_STR str (\<lambda>idx. zend_hash_index_find ht idx)
       (zend_hash_str_find ht str)"

definition zend_symtable_str_exists :: "HashTable \<Rightarrow> bytes \<Rightarrow> bool res" where
  "zend_symtable_str_exists ht str =
     ZEND_HANDLE_NUMERIC_STR str (\<lambda>idx. zend_hash_index_exists ht idx)
       (zend_hash_str_exists ht str)"

subsection \<open>The normalised key\<close>

definition sym_key :: "bytes \<Rightarrow> hkey" where
  "sym_key str = (case zend_handle_numeric_str str of Inr (Some idx) \<Rightarrow> IntKey idx | _ \<Rightarrow> StrKey str)"

lemma sym_key_cases:
  obtains (index) idx where "zend_handle_numeric_str str = Inr (Some idx)" "sym_key str = IntKey idx"
    "str = zend_print_long_to_buf [] idx"
  | (string) "zend_handle_numeric_str str = Inr None" "sym_key str = StrKey str"
proof -
  obtain r where r: "zend_handle_numeric_str str = Inr r" "\<forall>i. r = Some i \<longleftrightarrow> str = zend_print_long_to_buf [] i"
    using handle_numeric_iff [of str] by blast
  show thesis
  proof (cases r)
    case None
    then show ?thesis using string r by (simp add: sym_key_def)
  next
    case (Some idx)
    then show ?thesis using index [of idx] r by (simp add: sym_key_def)
  qed
qed

text \<open>Different strings stay different keys.\<close>

lemma sym_key_inject: "sym_key a = sym_key b \<longleftrightarrow> a = b"
proof
  assume eq: "sym_key a = sym_key b"
  show "a = b"
  proof (cases a rule: sym_key_cases)
    case a: (index i)
    then show ?thesis using eq by (cases b rule: sym_key_cases) (simp_all only: hkey.inject hkey.distinct)
  next
    case a: string
    then show ?thesis using eq by (cases b rule: sym_key_cases) (simp_all only: hkey.inject hkey.distinct)
  qed
qed simp

lemma handle_numeric_then:
  "ZEND_HANDLE_NUMERIC_STR str f g = (case sym_key str of IntKey idx \<Rightarrow> f idx | StrKey _ \<Rightarrow> g)"
  by (cases str rule: sym_key_cases) (simp_all add: ZEND_HANDLE_NUMERIC_STR_def)

lemma sym_key_StrKey: "sym_key str = StrKey s \<Longrightarrow> s = str"
  by (cases str rule: sym_key_cases) (simp_all only: hkey.inject hkey.distinct)

subsection \<open>The operations act on the normalised key\<close>

lemma zend_hash_str_update_spec:
  assumes "ht_inv ht" "storable v"
  shows "outcome ht (written w ht (StrKey str) v) (zend_hash_str_update w ht str v)"
proof -
  define s where "s = \<lparr>zs_val = str, zs_interned = False\<rparr>"
  have "zend_hash_str_update w ht str v = res_bind (zend_hash_update (emit (Str_Init s) w) ht s v)
      (\<lambda>(ret, w2, ht2). Inr (ret, zend_string_release s w2, ht2))"
    by (simp add: zend_hash_str_update_def with_new_string_def zend_string_init_def zend_hash_update_def
        s_def Let_def)
  moreover have "outcome ht (written (emit (Str_Init s) w) ht (StrKey str) v)
      (zend_hash_update (emit (Str_Init s) w) ht s v)"
    using zend_hash_update_spec [OF assms, of "emit (Str_Init s) w" s] by (rule outcome_mono) (simp add: s_def)
  ultimately show ?thesis
    by (cases "zend_hash_update (emit (Str_Init s) w) ht s v") (auto simp: written_def)
qed

lemma symtable_update_spec:
  assumes "ht_inv ht" "storable v"
  shows "outcome ht (written w ht (sym_key (zs_val key)) v) (zend_symtable_update w ht key v)"
    "outcome ht (written w ht (sym_key str) v) (zend_symtable_str_update w ht str v)"
proof -
  have i: "outcome ht (written w ht (IntKey h) v) (zend_hash_index_update w ht h v)" for h
    using zend_hash_index_update_spec [OF assms, of w h] by (rule outcome_mono) simp
  have s: "outcome ht (written w ht (StrKey (zs_val key)) v) (zend_hash_update w ht key v)"
    using zend_hash_update_spec [OF assms, of w key] by (rule outcome_mono) simp
  show "outcome ht (written w ht (sym_key (zs_val key)) v) (zend_symtable_update w ht key v)"
    unfolding zend_symtable_update_def handle_numeric_then
    using i s sym_key_StrKey [of "zs_val key"] by (auto split: hkey.split)
  show "outcome ht (written w ht (sym_key str) v) (zend_symtable_str_update w ht str v)"
    unfolding zend_symtable_str_update_def handle_numeric_then
    using i zend_hash_str_update_spec [OF assms] sym_key_StrKey [of str] by (auto split: hkey.split)
qed

lemma symtable_find_spec:
  assumes "ht_inv ht"
  shows "zend_symtable_find ht key = Inr (map_option BUCKET (key_pos ht (sym_key (zs_val key))))"
    "zend_symtable_str_find ht str = Inr (map_option BUCKET (key_pos ht (sym_key str)))"
    "zend_symtable_exists ht key = Inr (key_pos ht (sym_key (zs_val key)) \<noteq> None)"
    "zend_symtable_str_exists ht str = Inr (key_pos ht (sym_key str) \<noteq> None)"
  using sym_key_StrKey [of str] sym_key_StrKey [of "zs_val key"]
  by (auto simp: zend_symtable_find_def zend_symtable_str_find_def zend_symtable_exists_def
      zend_symtable_str_exists_def handle_numeric_then find_pos [OF assms] index_find_pos [OF assms]
      split: hkey.split)

lemma symtable_del_spec:
  assumes "ht_inv ht"
  shows "\<exists>res. zend_symtable_del w ht key = Inr res \<and> deleted w ht (sym_key (zs_val key)) res"
    "\<exists>res. zend_symtable_str_del w ht str = Inr res \<and> deleted w ht (sym_key str) res"
  using sym_key_StrKey [of str] sym_key_StrKey [of "zs_val key"]
    zend_hash_del_spec [OF assms, of w key] zend_hash_str_del_spec [OF assms, of w str]
    zend_hash_index_del_spec [OF assms, of w]
  by (auto simp: zend_symtable_del_def zend_symtable_str_del_def handle_numeric_then split: hkey.split)

text \<open>The value behind an element, as the \<open>IND\<close> lookups see it.\<close>

definition behind :: "world \<Rightarrow> zval \<Rightarrow> zval option" where
  "behind w v = (case v of IS_INDIRECT a \<Rightarrow> if slots w a \<noteq> IS_UNDEF then Some (slots w a) else None | _ \<Rightarrow> Some v)"

lemma follow_ind_value:
  "map_option (zref_get w ht) (follow_ind w ht r) = Option.bind (map_option (zref_get w ht) r) (behind w)"
  "present_ind w ht r \<longleftrightarrow> Option.bind (map_option (zref_get w ht) r) (behind w) \<noteq> None"
  by (cases r; cases "zref_get w ht (the r)"; simp add: follow_ind_def present_ind_def behind_def zref_get_def)+

lemma symtable_find_ind_spec:
  assumes "ht_inv ht"
  shows "zref_val w ht (zend_symtable_find_ind w ht key) =
      Inr (case sym_key (zs_val key) of
        IntKey i \<Rightarrow> map_of (ht_entries ht) (IntKey i)
      | StrKey s \<Rightarrow> Option.bind (map_of (ht_entries ht) (StrKey s)) (behind w))"
    "zend_symtable_exists_ind w ht key =
      Inr (case sym_key (zs_val key) of
        IntKey i \<Rightarrow> map_of (ht_entries ht) (IntKey i) \<noteq> None
      | StrKey s \<Rightarrow> Option.bind (map_of (ht_entries ht) (StrKey s)) (behind w) \<noteq> None)"
proof -
  have v: "map_option (zref_get w ht) (map_option BUCKET (key_pos ht k)) = map_of (ht_entries ht) k" for k
    using zref_val_pos [OF assms, of w k] by (simp add: zref_val_def)
  show "zref_val w ht (zend_symtable_find_ind w ht key) =
      Inr (case sym_key (zs_val key) of
        IntKey i \<Rightarrow> map_of (ht_entries ht) (IntKey i)
      | StrKey s \<Rightarrow> Option.bind (map_of (ht_entries ht) (StrKey s)) (behind w))"
    using sym_key_StrKey [of "zs_val key"]
    by (auto simp: zend_symtable_find_ind_def handle_numeric_then zref_val_def index_find_pos [OF assms]
        zend_hash_find_ind_def find_pos [OF assms] follow_ind_value v split: hkey.split)
  show "zend_symtable_exists_ind w ht key =
      Inr (case sym_key (zs_val key) of
        IntKey i \<Rightarrow> map_of (ht_entries ht) (IntKey i) \<noteq> None
      | StrKey s \<Rightarrow> Option.bind (map_of (ht_entries ht) (StrKey s)) (behind w) \<noteq> None)"
    using sym_key_StrKey [of "zs_val key"] key_pos_map_of [OF assms]
    by (auto simp: zend_symtable_exists_ind_def handle_numeric_then index_find_pos [OF assms]
        zend_hash_exists_ind_def find_pos [OF assms] follow_ind_value v split: hkey.split)
qed

subsection \<open>The table as a symbol table\<close>

definition sym_lookup :: "zend_string \<Rightarrow> world \<times> HashTable \<Rightarrow> zval option res" where
  "sym_lookup key = (\<lambda>(w, ht). zref_val w ht (zend_symtable_find ht key))"

definition sym_put :: "zend_string \<Rightarrow> zval \<Rightarrow> world \<times> HashTable \<Rightarrow> (world \<times> HashTable) res" where
  "sym_put key v = (\<lambda>(w, ht). drop_result (zend_symtable_update w ht key v))"

definition sym_remove :: "zend_string \<Rightarrow> world \<times> HashTable \<Rightarrow> (world \<times> HashTable) res" where
  "sym_remove key = (\<lambda>(w, ht). drop_result (zend_symtable_del w ht key))"

interpretation sym_map: ordered_map st_inv st_entries "\<lambda>key. sym_key (zs_val key)" storable st_full
  sym_lookup sym_put sym_remove
proof
  fix s :: "world \<times> HashTable" and v key
  assume inv: "st_inv s"
  obtain w ht where s: "s = (w, ht)" by (cases s)
  have inv': "ht_inv ht" using inv s by simp
  show "distinct (map fst (st_entries s))" by (rule ht_inv_distinct [OF inv])
  show "sym_lookup key s = Inr (map_of (st_entries s) (sym_key (zs_val key)))"
    by (simp add: s sym_lookup_def symtable_find_spec [OF inv'] zref_val_pos [OF inv'])
  show "\<exists>s'. sym_remove key s = Inr s' \<and> st_inv s' \<and>
      st_entries s' = AList.delete (sym_key (zs_val key)) (st_entries s)"
    using deleted_drop [OF symtable_del_spec(1) [OF inv', of w key]] by (simp add: s sym_remove_def)
  assume v: "storable v"
  have "outcome ht (\<lambda>res. written w ht (sym_key (zs_val key)) v res \<and> True) (zend_symtable_update w ht key v)"
    using symtable_update_spec(1) [OF inv' v] by simp
  note d = outcome_drop [OF this]
  show "st_inv s' \<and> st_entries s' = AList.update (sym_key (zs_val key)) v (st_entries s)"
    if "sym_put key v s = Inr s'" for s'
    using d(1) [of s'] that by (simp add: s sym_put_def)
  show "e = E_ERROR_MEMORY \<and> st_full s" if "sym_put key v s = Inl e" for e
    using d(2) [of e] that by (simp add: s sym_put_def)
qed

lemma long_to_str_text: "zs_val (fst (zend_long_to_str i w)) = zend_print_long_to_buf [] i"
proof (cases "i \<le> 9")
  case True
  have "unat i \<le> unat (9 :: zend_ulong)" using True by (rule word_le_nat_alt [THEN iffD1])
  then have u: "unat i < 10" by simp
  then have "int (unat i) < 10" by linarith
  then have "int (unat i) < 2 ^ 63" by (rule less_trans) simp
  then have "uint i < 2 ^ 63" unfolding uint_nat .
  then have "\<not> sint i < 0" by (simp add: sint_uint_cases)
  then show ?thesis
    using True u by (simp add: zend_long_to_str_def print_long_decimal decimal.simps [of "unat i"] digit_def)
next
  case False
  then show ?thesis by (simp add: zend_long_to_str_def zend_string_init_def Let_def)
qed

end
