(* ===== verification/Zend_Hash_Iter.thy ===== *)
theory Zend_Hash_Iter
  imports Zend_Hash_Map
begin

text \<open>
  Walking over a table: the functions on a position (\<open>zend_hash_internal_pointer_reset_ex\<close>,
  \<open>zend_hash_move_forward_ex\<close> and their siblings, used with the table's own pointer or an external
  one), which the lemmas show to visit exactly the entries in order, and the table of registered
  iterators \<open>EG(ht_iterators)\<close> with its bookkeeping in the tables.
\<close>

subsection \<open>Positions\<close>

fun first_live_from :: "Bucket list \<Rightarrow> nat list \<Rightarrow> nat" where
  "first_live_from data [] = HT_INVALID_IDX"
| "first_live_from data (idx # is) =
     (if b_val (data ! idx) \<noteq> IS_UNDEF then idx else first_live_from data is)"

definition zend_hash_internal_pointer_reset_ex :: "HashTable \<Rightarrow> nat" where
  "zend_hash_internal_pointer_reset_ex ht = first_live_from (arData ht) [0..<nNumUsed ht]"

text \<open>The loop that counts down, shared by the two functions that have it.\<close>

fun live_below :: "Bucket list \<Rightarrow> nat \<Rightarrow> nat" where
  "live_below data 0 = HT_INVALID_IDX"
| "live_below data (Suc idx) =
     (if b_val (data ! idx) \<noteq> IS_UNDEF then idx else live_below data idx)"

definition zend_hash_internal_pointer_end_ex :: "HashTable \<Rightarrow> nat" where
  "zend_hash_internal_pointer_end_ex ht = live_below (arData ht) (nNumUsed ht)"

definition zend_hash_move_forward_ex :: "HashTable \<Rightarrow> nat \<Rightarrow> bool \<times> nat" where
  "zend_hash_move_forward_ex ht pos =
     (if pos \<noteq> HT_INVALID_IDX then (True, next_live (arData ht) (nNumUsed ht) pos) else (False, pos))"

definition zend_hash_move_backwards_ex :: "HashTable \<Rightarrow> nat \<Rightarrow> bool \<times> nat" where
  "zend_hash_move_backwards_ex ht pos =
     (if pos \<noteq> HT_INVALID_IDX then (True, live_below (arData ht) pos) else (False, pos))"

datatype key_type = HASH_KEY_IS_STRING | HASH_KEY_IS_LONG | HASH_KEY_NON_EXISTENT

text \<open>The key is returned through one of two pointers; the other one is not written.\<close>

definition zend_hash_get_current_key_ex ::
  "HashTable \<Rightarrow> nat \<Rightarrow> key_type \<times> zend_string option \<times> zend_ulong option" where
  "zend_hash_get_current_key_ex ht pos =
     (if pos \<noteq> HT_INVALID_IDX then
        let p = arData ht ! pos in
        case b_key p of
          Some key \<Rightarrow> (HASH_KEY_IS_STRING, Some key, None)
        | None \<Rightarrow> (HASH_KEY_IS_LONG, None, Some (b_h p))
      else (HASH_KEY_NON_EXISTENT, None, None))"

definition zend_hash_get_current_key_zval_ex :: "world \<Rightarrow> HashTable \<Rightarrow> nat \<Rightarrow> zval \<times> world" where
  "zend_hash_get_current_key_zval_ex w ht pos =
     (if pos = HT_INVALID_IDX then (IS_NULL, w)
      else
        let p = arData ht ! pos in
        case b_key p of
          Some key \<Rightarrow> (IS_STRING key, zend_string_addref key w)
        | None \<Rightarrow> (IS_LONG (b_h p), w))"

definition zend_hash_get_current_key_type_ex :: "HashTable \<Rightarrow> nat \<Rightarrow> key_type" where
  "zend_hash_get_current_key_type_ex ht pos =
     (if pos \<noteq> HT_INVALID_IDX then
        if b_key (arData ht ! pos) \<noteq> None then HASH_KEY_IS_STRING else HASH_KEY_IS_LONG
      else HASH_KEY_NON_EXISTENT)"

definition zend_hash_get_current_data_ex :: "HashTable \<Rightarrow> nat \<Rightarrow> zref option" where
  "zend_hash_get_current_data_ex ht pos =
     (if pos \<noteq> HT_INVALID_IDX then Some (BUCKET pos) else None)"

text \<open>What a caller reads at a position.\<close>

definition current_entry :: "HashTable \<Rightarrow> nat \<Rightarrow> (hkey \<times> zval) option" where
  "current_entry ht pos =
     (case zend_hash_get_current_key_ex ht pos of
        (HASH_KEY_IS_STRING, Some key, _) \<Rightarrow> Some (StrKey (zs_val key), b_val (arData ht ! pos))
      | (HASH_KEY_IS_LONG, _, Some h) \<Rightarrow> Some (IntKey h, b_val (arData ht ! pos))
      | _ \<Rightarrow> None)"

text \<open>The loops of a caller: forwards from the first element, backwards from the last.\<close>

fun walk_forward :: "nat \<Rightarrow> HashTable \<Rightarrow> nat \<Rightarrow> (hkey \<times> zval) list" where
  "walk_forward 0 ht pos = []"
| "walk_forward (Suc fuel) ht pos =
     (case current_entry ht pos of None \<Rightarrow> []
      | Some e \<Rightarrow> e # walk_forward fuel ht (snd (zend_hash_move_forward_ex ht pos)))"

fun walk_backwards :: "nat \<Rightarrow> HashTable \<Rightarrow> nat \<Rightarrow> (hkey \<times> zval) list" where
  "walk_backwards 0 ht pos = []"
| "walk_backwards (Suc fuel) ht pos =
     (case current_entry ht pos of None \<Rightarrow> []
      | Some e \<Rightarrow> e # walk_backwards fuel ht (snd (zend_hash_move_backwards_ex ht pos)))"

lemma current_entry_eq:
  "current_entry ht pos =
     (if pos = HT_INVALID_IDX then None else Some (bkey (arData ht ! pos), b_val (arData ht ! pos)))"
  by (cases "b_key (arData ht ! pos)")
    (simp_all add: current_entry_def zend_hash_get_current_key_ex_def Let_def bkey_simps)

text \<open>The entries from an index on.\<close>

definition entries_from :: "HashTable \<Rightarrow> nat \<Rightarrow> (hkey \<times> zval) list" where
  "entries_from ht i = map (\<lambda>b. (bkey b, b_val b)) (filter live (drop i (take (nNumUsed ht) (arData ht))))"

definition entries_below :: "HashTable \<Rightarrow> nat \<Rightarrow> (hkey \<times> zval) list" where
  "entries_below ht i = map (\<lambda>b. (bkey b, b_val b)) (filter live (take i (arData ht)))"

lemma entries_from_step:
  assumes "nNumUsed ht \<le> length (arData ht)" "i < nNumUsed ht"
  shows "entries_from ht i = (if live (arData ht ! i) then [(bkey (arData ht ! i), b_val (arData ht ! i))] else [])
     @ entries_from ht (Suc i)"
proof -
  have "drop i (take (nNumUsed ht) (arData ht)) = arData ht ! i # drop (Suc i) (take (nNumUsed ht) (arData ht))"
    using assms by (intro drop_take_Cons)
  then show ?thesis by (simp add: entries_from_def)
qed

lemma entries_from_end: "nNumUsed ht \<le> i \<Longrightarrow> entries_from ht i = []"
  by (simp add: entries_from_def)

lemma entries_from_gap:
  assumes "nNumUsed ht \<le> length (arData ht)" "i \<le> j" "j \<le> nNumUsed ht"
    "\<And>k. i \<le> k \<Longrightarrow> k < j \<Longrightarrow> \<not> live (arData ht ! k)"
  shows "entries_from ht i = entries_from ht j"
  using assms(2,4)
proof (induction "j - i" arbitrary: i)
  case 0
  then show ?case by simp
next
  case (Suc d)
  then have "i < j" by simp
  then show ?case
    using Suc.hyps(1) [of "Suc i"] Suc.hyps(2) Suc.prems entries_from_step [OF assms(1), of i] assms(3)
    by simp
qed

lemma walk_forward_entries:
  assumes "nNumUsed ht \<le> length (arData ht)" "nNumUsed ht < HT_INVALID_IDX"
    and "pos < nNumUsed ht" "live (arData ht ! pos)" "nNumUsed ht - pos \<le> fuel"
  shows "walk_forward fuel ht pos = entries_from ht pos"
  using assms(3-)
proof (induction fuel arbitrary: pos)
  case 0
  then show ?case by simp
next
  case (Suc fuel)
  let ?n = "nNumUsed ht" and ?x = "next_live (arData ht) (nNumUsed ht) pos"
  have pos: "pos \<noteq> HT_INVALID_IDX" using Suc.prems assms(2) by simp
  have step: "entries_from ht pos = (bkey (arData ht ! pos), b_val (arData ht ! pos)) # entries_from ht (Suc pos)"
    using entries_from_step [OF assms(1) Suc.prems(1)] Suc.prems(2) by simp
  consider (none) "?x = HT_INVALID_IDX" "\<forall>k. pos < k \<and> k < ?n \<longrightarrow> \<not> live (arData ht ! k)"
    | (some) "pos < ?x" "?x < ?n" "live (arData ht ! ?x)" "\<forall>k. pos < k \<and> k < ?x \<longrightarrow> \<not> live (arData ht ! k)"
    using next_live_spec [of "arData ht" ?n pos] unfolding live_def by blast
  then show ?case
  proof cases
    case none
    then have "entries_from ht (Suc pos) = entries_from ht ?n"
      using Suc.prems assms(1) by (intro entries_from_gap) auto
    with none pos step show ?thesis
      by (cases fuel) (simp_all add: current_entry_eq zend_hash_move_forward_ex_def entries_from_end)
  next
    case some
    then have "entries_from ht (Suc pos) = entries_from ht ?x"
      using Suc.prems assms(1) by (intro entries_from_gap) auto
    moreover have "walk_forward fuel ht ?x = entries_from ht ?x"
      using some Suc.prems by (intro Suc.IH) auto
    ultimately show ?thesis
      using pos step by (simp add: current_entry_eq zend_hash_move_forward_ex_def)
  qed
qed

lemma entries_below_Suc:
  "i < length (arData ht) \<Longrightarrow> entries_below ht (Suc i) = entries_below ht i @
     (if live (arData ht ! i) then [(bkey (arData ht ! i), b_val (arData ht ! i))] else [])"
  by (simp add: entries_below_def filter_take_Suc)

lemma live_below_spec:
  assumes "i \<le> length (arData ht)" "i < HT_INVALID_IDX"
  shows "(live_below (arData ht) i = HT_INVALID_IDX \<and> entries_below ht i = []) \<or>
     (live_below (arData ht) i < i \<and> live (arData ht ! live_below (arData ht) i) \<and>
      entries_below ht i = entries_below ht (Suc (live_below (arData ht) i)))"
  using assms
proof (induction i)
  case 0
  then show ?case by (simp add: entries_below_def)
next
  case (Suc i)
  then have i: "i < length (arData ht)" "i < HT_INVALID_IDX" by auto
  show ?case
  proof (cases "live (arData ht ! i)")
    case True
    then show ?thesis by (simp add: live_def)
  next
    case False
    then have "live_below (arData ht) (Suc i) = live_below (arData ht) i"
      "entries_below ht (Suc i) = entries_below ht i"
      using entries_below_Suc [OF i(1)] by (simp_all add: live_def)
    then show ?thesis using Suc.IH i by auto
  qed
qed

lemma walk_backwards_entries:
  assumes "nNumUsed ht \<le> length (arData ht)" "nNumUsed ht < HT_INVALID_IDX"
    and "pos < nNumUsed ht" "live (arData ht ! pos)" "pos < fuel"
  shows "walk_backwards fuel ht pos = rev (entries_below ht (Suc pos))"
  using assms(3-)
proof (induction fuel arbitrary: pos)
  case 0
  then show ?case by simp
next
  case (Suc fuel)
  let ?x = "live_below (arData ht) pos"
  have pos: "pos \<noteq> HT_INVALID_IDX" "pos < length (arData ht)" using Suc.prems assms by auto
  have step: "entries_below ht (Suc pos) = entries_below ht pos @ [(bkey (arData ht ! pos), b_val (arData ht ! pos))]"
    using entries_below_Suc [OF pos(2)] Suc.prems(2) by simp
  consider (none) "?x = HT_INVALID_IDX" "entries_below ht pos = []"
    | (some) "?x < pos" "live (arData ht ! ?x)" "entries_below ht pos = entries_below ht (Suc ?x)"
    using live_below_spec [of pos ht] pos Suc.prems assms by auto
  then show ?case
  proof cases
    case none
    with pos step show ?thesis
      by (cases fuel) (simp_all add: current_entry_eq zend_hash_move_backwards_ex_def)
  next
    case some
    have "walk_backwards fuel ht ?x = rev (entries_below ht (Suc ?x))"
      using some Suc.prems by (intro Suc.IH) auto
    then show ?thesis
      using pos step some by (simp add: current_entry_eq zend_hash_move_backwards_ex_def)
  qed
qed

lemma first_live_from_spec:
  assumes "nNumUsed ht \<le> length (arData ht)"
  shows "(first_live_from (arData ht) [i..<nNumUsed ht] = HT_INVALID_IDX \<and> entries_from ht i = []) \<or>
     (let j = first_live_from (arData ht) [i..<nNumUsed ht] in
      j < nNumUsed ht \<and> live (arData ht ! j) \<and> entries_from ht i = entries_from ht j)"
proof (induction "nNumUsed ht - i" arbitrary: i)
  case 0
  then show ?case by (simp add: entries_from_end)
next
  case (Suc d)
  then have i: "i < nNumUsed ht" by simp
  then have c: "[i..<nNumUsed ht] = i # [Suc i..<nNumUsed ht]" by (simp add: upt_conv_Cons)
  show ?case
  proof (cases "live (arData ht ! i)")
    case True
    then show ?thesis using i by (simp add: c live_def)
  next
    case False
    then have f: "first_live_from (arData ht) [i..<nNumUsed ht] = first_live_from (arData ht) [Suc i..<nNumUsed ht]"
      by (simp add: c live_def)
    have e: "entries_from ht i = entries_from ht (Suc i)"
      using entries_from_step [OF assms i] False by simp
    show ?thesis unfolding f e by (rule Suc.hyps(1)) (use Suc.hyps(2) in simp)
  qed
qed

text \<open>Both walks visit the entries, in order and in reverse order, whatever the layout.\<close>

lemma walk_all:
  assumes inv: "ht_inv ht"
  shows "walk_forward (nNumUsed ht) ht (zend_hash_internal_pointer_reset_ex ht) = ht_entries ht"
    "walk_backwards (nNumUsed ht) ht (zend_hash_internal_pointer_end_ex ht) = rev (ht_entries ht)"
proof -
  note len = ht_inv_used_le [OF inv] and inval = ht_inv_used_invalid [OF inv]
  have e: "entries_from ht 0 = ht_entries ht" "entries_below ht (nNumUsed ht) = ht_entries ht"
    by (simp_all add: entries_from_def entries_below_def ht_entries_alt ht_buckets_def)
  let ?f = "zend_hash_internal_pointer_reset_ex ht"
  have nil: "walk_forward n ht HT_INVALID_IDX = []" "walk_backwards n ht HT_INVALID_IDX = []" for n
    by (cases n; simp add: current_entry_eq)+
  consider (none) "?f = HT_INVALID_IDX" "ht_entries ht = []"
    | (some) "?f < nNumUsed ht" "live (arData ht ! ?f)" "ht_entries ht = entries_from ht ?f"
    using first_live_from_spec [OF len, of 0] e(1)
    by (auto simp: zend_hash_internal_pointer_reset_ex_def Let_def)
  then show "walk_forward (nNumUsed ht) ht ?f = ht_entries ht"
  proof cases
    case none
    then show ?thesis by (simp add: nil)
  next
    case some
    then show ?thesis using walk_forward_entries [OF len inval some(1,2)] by simp
  qed
  let ?l = "zend_hash_internal_pointer_end_ex ht"
  consider (none) "?l = HT_INVALID_IDX" "ht_entries ht = []"
    | (some) "?l < nNumUsed ht" "live (arData ht ! ?l)" "ht_entries ht = entries_below ht (Suc ?l)"
    using live_below_spec [OF len inval] e(2) by (auto simp: zend_hash_internal_pointer_end_ex_def)
  then show "walk_backwards (nNumUsed ht) ht ?l = rev (ht_entries ht)"
  proof cases
    case none
    then show ?thesis by (simp add: nil)
  next
    case some
    then show ?thesis using walk_backwards_entries [OF len inval some(1,2,1)] by simp
  qed
qed

subsection \<open>Registered iterators\<close>

text \<open>
  The iterators refer to tables by address, so these operations work on a store of tables. The
  count in a table saturates at 255 and is then kept.
\<close>

record executor =
  ex_world :: world
  ex_tables :: "addr \<Rightarrow> HashTable"

definition inc_iterators :: "HashTable \<Rightarrow> HashTable" where
  "inc_iterators ht = (if nIteratorsCount ht \<noteq> 255
     then ht\<lparr>nIteratorsCount := nIteratorsCount ht + 1\<rparr> else ht)"

definition dec_iterators :: "HashTable \<Rightarrow> HashTable" where
  "dec_iterators ht = (if nIteratorsCount ht \<noteq> 255
     then ht\<lparr>nIteratorsCount := nIteratorsCount ht - 1\<rparr> else ht)"

definition on_table :: "addr \<Rightarrow> (HashTable \<Rightarrow> HashTable) \<Rightarrow> executor \<Rightarrow> executor" where
  "on_table a f ex = ex\<lparr>ex_tables := (ex_tables ex)(a := f (ex_tables ex a))\<rparr>"

definition set_iterators :: "HashTableIterator list \<Rightarrow> nat \<Rightarrow> executor \<Rightarrow> executor" where
  "set_iterators its used ex =
     ex\<lparr>ex_world := (ex_world ex)\<lparr>ht_iterators := its, ht_iterators_used := used\<rparr>\<rparr>"

fun first_free :: "HashTableIterator list \<Rightarrow> nat option" where
  "first_free [] = None"
| "first_free (it # its) = (if it_ht it = ITER_NULL then Some 0 else map_option Suc (first_free its))"

definition null_iterator :: HashTableIterator where
  "null_iterator = \<lparr>it_ht = ITER_NULL, it_pos = 0\<rparr>"

definition zend_hash_iterator_add :: "addr \<Rightarrow> nat \<Rightarrow> executor \<Rightarrow> nat \<times> executor" where
  "zend_hash_iterator_add a pos ex =
     (let ex1 = on_table a inc_iterators ex;
          its = ht_iterators (ex_world ex1);
          it = \<lparr>it_ht = ITER_HT a, it_pos = pos\<rparr>
      in case first_free its of
           Some idx \<Rightarrow>
             let used = ht_iterators_used (ex_world ex1) in
             (idx, set_iterators (its[idx := it]) (if idx + 1 > used then idx + 1 else used) ex1)
         | None \<Rightarrow>
             let idx = length its in
             (idx, set_iterators (its @ it # replicate 7 null_iterator) (idx + 1) ex1))"

text \<open>The count of the table an iterator refers to, when it refers to one, is given back.\<close>

definition release_iterator :: "iter_ht \<Rightarrow> executor \<Rightarrow> executor" where
  "release_iterator h ex = (case h of ITER_HT b \<Rightarrow> on_table b dec_iterators ex | _ \<Rightarrow> ex)"

definition zend_hash_iterator_pos :: "nat \<Rightarrow> addr \<Rightarrow> executor \<Rightarrow> nat \<times> executor" where
  "zend_hash_iterator_pos idx a ex =
     (let its = ht_iterators (ex_world ex); iter = its ! idx in
      if it_pos iter = HT_INVALID_IDX then (HT_INVALID_IDX, ex)
      else if it_ht iter \<noteq> ITER_HT a then
        let ex1 = on_table a inc_iterators (release_iterator (it_ht iter) ex);
            pos = nInternalPointer (ex_tables ex1 a)
        in (pos, set_iterators (its[idx := \<lparr>it_ht = ITER_HT a, it_pos = pos\<rparr>])
                   (ht_iterators_used (ex_world ex1)) ex1)
      else (it_pos iter, ex))"

text \<open>The loop that drops the free entries at the end of the used ones.\<close>

fun iterators_shrink :: "HashTableIterator list \<Rightarrow> nat \<Rightarrow> nat" where
  "iterators_shrink its 0 = 0"
| "iterators_shrink its (Suc idx) =
     (if it_ht (its ! idx) = ITER_NULL then iterators_shrink its idx else Suc idx)"

definition zend_hash_iterator_del :: "nat \<Rightarrow> executor \<Rightarrow> executor" where
  "zend_hash_iterator_del idx ex =
     (let its = ht_iterators (ex_world ex); iter = its ! idx;
          ex1 = release_iterator (it_ht iter) ex;
          its1 = its[idx := iter\<lparr>it_ht := ITER_NULL\<rparr>];
          used = ht_iterators_used (ex_world ex1)
      in set_iterators its1 (if idx = used - 1 then iterators_shrink its1 idx else used) ex1)"

text \<open>
  The bookkeeping is right when no entry above the used ones is taken, and the count of each
  table is the number of iterators on it unless it is saturated.
\<close>

definition iter_count :: "addr \<Rightarrow> HashTableIterator list \<Rightarrow> nat" where
  "iter_count a its = length (filter (\<lambda>it. it_ht it = ITER_HT a) its)"

definition iterators_ok :: "executor \<Rightarrow> bool" where
  "iterators_ok ex \<longleftrightarrow>
     (let its = ht_iterators (ex_world ex); used = ht_iterators_used (ex_world ex) in
      used \<le> length its \<and> (\<forall>i. used \<le> i \<and> i < length its \<longrightarrow> it_ht (its ! i) = ITER_NULL) \<and>
      (\<forall>a. nIteratorsCount (ex_tables ex a) = 255 \<or>
           nIteratorsCount (ex_tables ex a) = iter_count a its))"

lemma count_inc:
  "nIteratorsCount (inc_iterators ht) = 255 \<or> nIteratorsCount (inc_iterators ht) = nIteratorsCount ht + 1"
  "nIteratorsCount ht = 255 \<Longrightarrow> nIteratorsCount (inc_iterators ht) = 255"
  by (simp_all add: inc_iterators_def)

lemma iter_count_update:
  assumes "i < length its"
  shows "iter_count a (its[i := it]) + (if it_ht (its ! i) = ITER_HT a then 1 else 0) =
     iter_count a its + (if it_ht it = ITER_HT a then 1 else 0)"
  using assms
proof (induction its arbitrary: i)
  case Nil
  then show ?case by simp
next
  case (Cons x its)
  then show ?case by (cases i) (auto simp: iter_count_def)
qed

lemma iter_count_pos: "i < length its \<Longrightarrow> it_ht (its ! i) = ITER_HT a \<Longrightarrow> 0 < iter_count a its"
  by (auto simp: iter_count_def filter_empty_conv dest: nth_mem)

lemma first_free_spec:
  "case first_free its of
     Some i \<Rightarrow> i < length its \<and> it_ht (its ! i) = ITER_NULL
   | None \<Rightarrow> \<forall>it \<in> set its. it_ht it \<noteq> ITER_NULL"
  by (induction its) (auto split: option.splits)

lemma iterators_shrink_spec:
  "iterators_shrink its n \<le> n \<and> (\<forall>i. iterators_shrink its n \<le> i \<and> i < n \<longrightarrow> it_ht (its ! i) = ITER_NULL)"
  by (induction n) (auto simp: less_Suc_eq le_Suc_eq)

lemma zend_hash_iterator_add_ok:
  assumes ok: "iterators_ok ex"
  shows "iterators_ok (snd (zend_hash_iterator_add a pos ex))"
proof -
  let ?its = "ht_iterators (ex_world ex)" and ?it = "\<lparr>it_ht = ITER_HT a, it_pos = pos\<rparr>"
  have cnt: "nIteratorsCount (ex_tables ex b) = 255 \<or> nIteratorsCount (ex_tables ex b) = iter_count b ?its" for b
    using ok by (simp add: iterators_ok_def Let_def)
  have step: "nIteratorsCount (((ex_tables ex)(a := inc_iterators (ex_tables ex a))) b) = 255 \<or>
      nIteratorsCount (((ex_tables ex)(a := inc_iterators (ex_tables ex a))) b) = iter_count b its'"
    if "\<And>b. iter_count b its' = iter_count b ?its + (if a = b then 1 else 0)" for b its'
    using that [of b] cnt [of b] by (auto simp: inc_iterators_def)
  show ?thesis
  proof (cases "first_free ?its")
    case (Some i)
    have i: "i < length ?its" "it_ht (?its ! i) = ITER_NULL" using first_free_spec [of ?its] Some by auto
    have "iter_count b (?its[i := ?it]) = iter_count b ?its + (if a = b then 1 else 0)" for b
      using iter_count_update [OF i(1), of b ?it] i(2) by (auto split: if_splits)
    then show ?thesis
      using ok step [of "?its[i := ?it]"] i Some
      by (auto simp: zend_hash_iterator_add_def iterators_ok_def Let_def on_table_def set_iterators_def
          nth_list_update)
  next
    case None
    have "iter_count b (?its @ ?it # replicate 7 null_iterator) = iter_count b ?its + (if a = b then 1 else 0)" for b
      by (simp add: iter_count_def null_iterator_def)
    then show ?thesis
      using ok step [of "?its @ ?it # replicate 7 null_iterator"] None
      by (auto simp: zend_hash_iterator_add_def iterators_ok_def Let_def on_table_def set_iterators_def
          nth_append nth_Cons null_iterator_def split: nat.split)
  qed
qed

text \<open>Giving a count back makes room for one reference less.\<close>

lemma release_iterator_count:
  assumes ok: "iterators_ok ex" and i: "i < length (ht_iterators (ex_world ex))"
  defines "its \<equiv> ht_iterators (ex_world ex)"
  defines "ex1 \<equiv> release_iterator (it_ht (its ! i)) ex"
  shows "nIteratorsCount (ex_tables ex1 b) = 255 \<or> nIteratorsCount (ex_tables ex1 b) =
     iter_count b its - (if it_ht (its ! i) = ITER_HT b then 1 else 0)"
    "ex_world ex1 = ex_world ex"
  using ok iter_count_pos [of i its b] i
  by (auto simp: iterators_ok_def Let_def ex1_def its_def release_iterator_def on_table_def
      dec_iterators_def split: iter_ht.split)

lemma iter_count_replace:
  assumes "i < length its"
  shows "iter_count b (its[i := it]) =
     iter_count b its - (if it_ht (its ! i) = ITER_HT b then 1 else 0) + (if it_ht it = ITER_HT b then 1 else 0)"
  using iter_count_update [OF assms, of b it] iter_count_pos [OF assms, of b] by (auto split: if_splits)

lemma zend_hash_iterator_pos_ok:
  assumes ok: "iterators_ok ex" and i: "i < ht_iterators_used (ex_world ex)"
  shows "iterators_ok (snd (zend_hash_iterator_pos i a ex))"
proof -
  let ?its = "ht_iterators (ex_world ex)"
  have len: "i < length ?its" using ok i by (simp add: iterators_ok_def Let_def)
  define ex1 where "ex1 = on_table a inc_iterators (release_iterator (it_ht (?its ! i)) ex)"
  define it where "it = \<lparr>it_ht = ITER_HT a, it_pos = nInternalPointer (ex_tables ex1 a)\<rparr>"
  note r = release_iterator_count [OF ok len]
  have cnt: "nIteratorsCount (ex_tables ex1 b) = 255 \<or>
      nIteratorsCount (ex_tables ex1 b) = iter_count b (?its[i := it])" for b
    using r(1) [of b] iter_count_replace [OF len, of b it]
    by (auto simp: ex1_def it_def on_table_def inc_iterators_def)
  have w1: "ex_world ex1 = ex_world ex" using r(2) by (simp add: ex1_def on_table_def)
  have "iterators_ok (set_iterators (?its[i := it]) (ht_iterators_used (ex_world ex1)) ex1)"
    using ok cnt w1 i by (auto simp: iterators_ok_def Let_def set_iterators_def nth_list_update)
  then show ?thesis
    using ok by (simp add: zend_hash_iterator_pos_def Let_def ex1_def it_def)
qed

lemma zend_hash_iterator_del_ok:
  assumes ok: "iterators_ok ex" and i: "i < ht_iterators_used (ex_world ex)"
  shows "iterators_ok (zend_hash_iterator_del i ex)"
proof -
  let ?its = "ht_iterators (ex_world ex)"
  let ?its1 = "?its[i := (?its ! i)\<lparr>it_ht := ITER_NULL\<rparr>]" and ?used = "ht_iterators_used (ex_world ex)"
  have len: "i < length ?its" and used: "?used \<le> length ?its"
    and free: "\<forall>j. ?used \<le> j \<and> j < length ?its \<longrightarrow> it_ht (?its ! j) = ITER_NULL"
    using ok i by (auto simp: iterators_ok_def Let_def)
  define ex1 where "ex1 = release_iterator (it_ht (?its ! i)) ex"
  note r = release_iterator_count [OF ok len, folded ex1_def]
  have cnt: "nIteratorsCount (ex_tables ex1 b) = 255 \<or>
      nIteratorsCount (ex_tables ex1 b) = iter_count b ?its1" for b
    using r(1) [of b] iter_count_replace [OF len, of b "(?its ! i)\<lparr>it_ht := ITER_NULL\<rparr>"] by auto
  define used' where "used' = (if i = ?used - 1 then iterators_shrink ?its1 i else ?used)"
  note sh = iterators_shrink_spec [of ?its1 i]
  have "used' \<le> length ?its1" using sh used len unfolding used'_def by (auto split: if_splits)
  moreover have "it_ht (?its1 ! j) = ITER_NULL" if "used' \<le> j" "j < length ?its1" for j
  proof (cases "?used \<le> j \<or> j = i")
    case True
    then show ?thesis using free that len by (auto simp: nth_list_update)
  next
    case False
    then have "i = ?used - 1" "j < i" using that by (auto simp: used'_def split: if_splits)
    then show ?thesis using sh that by (simp add: used'_def)
  qed
  ultimately have "iterators_ok (set_iterators ?its1 used' ex1)"
    using cnt by (simp add: iterators_ok_def Let_def set_iterators_def)
  then show ?thesis
    using r(2) unfolding zend_hash_iterator_del_def Let_def ex1_def used'_def by (simp only:)
qed

end
