(* ===== verification/Zend_Hash_Ptr.thy ===== *)
theory Zend_Hash_Ptr
  imports Zend_Symtable Zend_Hash_Iter
begin

text \<open>
  Tables of pointers (\<open>zend_hash_*_ptr\<close> of \<open>zend_hash.h\<close>), whose elements are \<open>IS_PTR\<close> values, and
  the unchecked appends (\<open>_zend_hash_append\<close>) of callers that made room and know that the key is
  new. The null pointer is address 0; a pointer read from a value that holds none and a violated
  \<open>ZEND_ASSUME\<close> are errors, which the lemmas rule out.
\<close>

subsection \<open>Pointers in values\<close>

fun Z_PTR_P :: "zval \<Rightarrow> addr res" where
  "Z_PTR_P (IS_PTR p) = Inr p"
| "Z_PTR_P (IS_ARRAY p) = Inr p"
| "Z_PTR_P (IS_OBJECT p) = Inr p"
| "Z_PTR_P (IS_RESOURCE p) = Inr p"
| "Z_PTR_P (IS_REFERENCE p) = Inr p"
| "Z_PTR_P (IS_CONSTANT_AST p) = Inr p"
| "Z_PTR_P (IS_INDIRECT p) = Inr p"
| "Z_PTR_P _ = Inl UB_UNION_MEMBER"

text \<open>\<open>ZEND_ASSUME(Z_PTR_P(zv)); return Z_PTR_P(zv)\<close>, or \<open>NULL\<close> without an element.\<close>

definition assumed_ptr :: "world \<Rightarrow> HashTable \<Rightarrow> zref option \<Rightarrow> addr res" where
  "assumed_ptr w ht zv = (case zv of
     None \<Rightarrow> Inr 0
   | Some r \<Rightarrow> res_bind (Z_PTR_P (zref_get w ht r)) (\<lambda>p. if p = 0 then Inl UB_ASSUME else Inr p))"

definition plain_ptr :: "world \<Rightarrow> HashTable \<Rightarrow> zref option \<Rightarrow> addr res" where
  "plain_ptr w ht zv = (case zv of None \<Rightarrow> Inr 0 | Some r \<Rightarrow> Z_PTR_P (zref_get w ht r))"

definition ptr_of :: "(world \<Rightarrow> HashTable \<Rightarrow> zref option \<Rightarrow> addr res) \<Rightarrow> zref option ht_res \<Rightarrow> addr ht_res" where
  "ptr_of f m = res_bind m (\<lambda>(zv, w, ht). res_bind (f w ht zv) (\<lambda>p. Inr (p, w, ht)))"

subsection \<open>The operations\<close>

definition zend_hash_add_ptr :: "world \<Rightarrow> HashTable \<Rightarrow> zend_string \<Rightarrow> addr \<Rightarrow> addr ht_res" where
  "zend_hash_add_ptr w ht key pData = ptr_of assumed_ptr (zend_hash_add w ht key (IS_PTR pData))"

definition zend_hash_add_new_ptr :: "world \<Rightarrow> HashTable \<Rightarrow> zend_string \<Rightarrow> addr \<Rightarrow> addr ht_res" where
  "zend_hash_add_new_ptr w ht key pData = ptr_of assumed_ptr (zend_hash_add_new w ht key (IS_PTR pData))"

definition zend_hash_str_add_ptr :: "world \<Rightarrow> HashTable \<Rightarrow> bytes \<Rightarrow> addr \<Rightarrow> addr ht_res" where
  "zend_hash_str_add_ptr w ht str pData = ptr_of assumed_ptr (zend_hash_str_add w ht str (IS_PTR pData))"

definition zend_hash_str_add_new_ptr :: "world \<Rightarrow> HashTable \<Rightarrow> bytes \<Rightarrow> addr \<Rightarrow> addr ht_res" where
  "zend_hash_str_add_new_ptr w ht str pData = ptr_of assumed_ptr (zend_hash_str_add_new w ht str (IS_PTR pData))"

definition zend_hash_update_ptr :: "world \<Rightarrow> HashTable \<Rightarrow> zend_string \<Rightarrow> addr \<Rightarrow> addr ht_res" where
  "zend_hash_update_ptr w ht key pData = ptr_of assumed_ptr (zend_hash_update w ht key (IS_PTR pData))"

definition zend_hash_str_update_ptr :: "world \<Rightarrow> HashTable \<Rightarrow> bytes \<Rightarrow> addr \<Rightarrow> addr ht_res" where
  "zend_hash_str_update_ptr w ht str pData = ptr_of assumed_ptr (zend_hash_str_update w ht str (IS_PTR pData))"

definition zend_hash_index_add_ptr :: "world \<Rightarrow> HashTable \<Rightarrow> zend_ulong \<Rightarrow> addr \<Rightarrow> addr ht_res" where
  "zend_hash_index_add_ptr w ht h pData = ptr_of plain_ptr (zend_hash_index_add w ht h (IS_PTR pData))"

definition zend_hash_index_add_new_ptr :: "world \<Rightarrow> HashTable \<Rightarrow> zend_ulong \<Rightarrow> addr \<Rightarrow> addr ht_res" where
  "zend_hash_index_add_new_ptr w ht h pData = ptr_of plain_ptr (zend_hash_index_add_new w ht h (IS_PTR pData))"

definition zend_hash_index_update_ptr :: "world \<Rightarrow> HashTable \<Rightarrow> zend_ulong \<Rightarrow> addr \<Rightarrow> addr ht_res" where
  "zend_hash_index_update_ptr w ht h pData = ptr_of assumed_ptr (zend_hash_index_update w ht h (IS_PTR pData))"

definition zend_hash_next_index_insert_ptr :: "world \<Rightarrow> HashTable \<Rightarrow> addr \<Rightarrow> addr ht_res" where
  "zend_hash_next_index_insert_ptr w ht pData = ptr_of assumed_ptr (zend_hash_next_index_insert w ht (IS_PTR pData))"

definition zend_hash_find_ptr :: "world \<Rightarrow> HashTable \<Rightarrow> zend_string \<Rightarrow> addr res" where
  "zend_hash_find_ptr w ht key = res_bind (zend_hash_find ht key) (assumed_ptr w ht)"

definition zend_hash_str_find_ptr :: "world \<Rightarrow> HashTable \<Rightarrow> bytes \<Rightarrow> addr res" where
  "zend_hash_str_find_ptr w ht str = res_bind (zend_hash_str_find ht str) (assumed_ptr w ht)"

definition zend_hash_index_find_ptr :: "world \<Rightarrow> HashTable \<Rightarrow> zend_ulong \<Rightarrow> addr res" where
  "zend_hash_index_find_ptr w ht h = res_bind (zend_hash_index_find ht h) (assumed_ptr w ht)"

definition zend_symtable_str_find_ptr :: "world \<Rightarrow> HashTable \<Rightarrow> bytes \<Rightarrow> addr res" where
  "zend_symtable_str_find_ptr w ht str =
     ZEND_HANDLE_NUMERIC_STR str (\<lambda>idx. zend_hash_index_find_ptr w ht idx) (zend_hash_str_find_ptr w ht str)"

definition zend_hash_get_current_data_ptr_ex :: "world \<Rightarrow> HashTable \<Rightarrow> nat \<Rightarrow> addr res" where
  "zend_hash_get_current_data_ptr_ex w ht pos = assumed_ptr w ht (zend_hash_get_current_data_ex ht pos)"

subsection \<open>Unchecked appends\<close>

text \<open>The common body; the three functions differ in the value they store.\<close>

definition append_bucket :: "world \<Rightarrow> HashTable \<Rightarrow> zend_string \<Rightarrow> zval \<Rightarrow> (nat \<times> world \<times> HashTable) res" where
  "append_bucket w ht key v =
     (let idx = nNumUsed ht;
          ht1 = ht\<lparr>nNumUsed := idx + 1\<rparr>
      in if idx \<ge> length (arData ht1) then Inl UB_OUT_OF_BOUNDS
      else
        let (w2, ht2) = (if \<not> zs_interned key
                         then (zend_string_addref key w, ht1\<lparr>ht_static_keys := False\<rparr>)
                         else (w, ht1));
            h = zend_string_hash_val key;
            nIndex = HT_HASH_EX (nTableMask ht2) (ucast h OR nTableMask ht2);
            p = (arData ht2 ! idx)\<lparr>b_val := v, b_key := Some key, b_h := h, b_next := arHash ht2 ! nIndex\<rparr>
        in Inr (idx, w2, ht2\<lparr>arData := (arData ht2)[idx := p], arHash := (arHash ht2)[nIndex := idx],
             nNumUsed := idx + 1, nNumOfElements := nNumOfElements ht2 + 1\<rparr>))"

definition zend_hash_append :: "world \<Rightarrow> HashTable \<Rightarrow> zend_string \<Rightarrow> zval \<Rightarrow> (nat \<times> world \<times> HashTable) res" where
  "zend_hash_append w ht key zv = append_bucket w ht key zv"

definition zend_hash_append_ptr :: "world \<Rightarrow> HashTable \<Rightarrow> zend_string \<Rightarrow> addr \<Rightarrow> (nat \<times> world \<times> HashTable) res" where
  "zend_hash_append_ptr w ht key ptr = append_bucket w ht key (IS_PTR ptr)"

definition zend_hash_append_ind :: "world \<Rightarrow> HashTable \<Rightarrow> zend_string \<Rightarrow> addr \<Rightarrow> (world \<times> HashTable) res" where
  "zend_hash_append_ind w ht key ptr =
     res_bind (append_bucket w ht key (IS_INDIRECT ptr)) (\<lambda>(_, w, ht). Inr (w, ht))"

subsection \<open>What they do\<close>

lemma assumed_ptr_BUCKET:
  "b_val (arData ht ! i) = IS_PTR p \<Longrightarrow> p \<noteq> 0 \<Longrightarrow> assumed_ptr w ht (Some (BUCKET i)) = Inr p"
  by (simp add: assumed_ptr_def zref_get_def)

text \<open>A write of a pointer returns it, and the lookup of its key finds it.\<close>

definition ptr_written :: "HashTable \<Rightarrow> hkey \<Rightarrow> addr \<Rightarrow> addr \<times> world \<times> HashTable \<Rightarrow> bool" where
  "ptr_written ht k p res \<longleftrightarrow> (case res of (q, w', ht') \<Rightarrow>
     q = p \<and> ht_inv ht' \<and> ht_entries ht' = AList.update k (IS_PTR p) (ht_entries ht))"

lemma ptr_of_written:
  assumes "outcome ht (written w ht k (IS_PTR p)) m" "p \<noteq> 0"
  shows "outcome ht (ptr_written ht k p) (ptr_of assumed_ptr m)"
  using assms by (cases m) (auto simp: written_def ptr_of_def ptr_written_def assumed_ptr_BUCKET)

lemma storable_ptr [simp]: "storable (IS_PTR p)" "storable (IS_INDIRECT a)"
  by (simp_all add: storable_def)

lemma update_ptr_spec:
  assumes "ht_inv ht" "p \<noteq> 0"
  shows "outcome ht (ptr_written ht (StrKey (zs_val key)) p) (zend_hash_update_ptr w ht key p)"
    "outcome ht (ptr_written ht (StrKey str) p) (zend_hash_str_update_ptr w ht str p)"
    "outcome ht (ptr_written ht (IntKey h) p) (zend_hash_index_update_ptr w ht h p)"
proof -
  have "outcome ht (written w ht (StrKey (zs_val key)) (IS_PTR p)) (zend_hash_update w ht key (IS_PTR p))"
    using zend_hash_update_spec [OF assms(1) storable_ptr(1)] by (rule outcome_mono) simp
  then show "outcome ht (ptr_written ht (StrKey (zs_val key)) p) (zend_hash_update_ptr w ht key p)"
    unfolding zend_hash_update_ptr_def using assms(2) by (rule ptr_of_written)
  show "outcome ht (ptr_written ht (StrKey str) p) (zend_hash_str_update_ptr w ht str p)"
    unfolding zend_hash_str_update_ptr_def
    by (rule ptr_of_written [OF zend_hash_str_update_spec [OF assms(1) storable_ptr(1)] assms(2)])
  have "outcome ht (written w ht (IntKey h) (IS_PTR p)) (zend_hash_index_update w ht h (IS_PTR p))"
    using zend_hash_index_update_spec [OF assms(1) storable_ptr(1)] by (rule outcome_mono) simp
  then show "outcome ht (ptr_written ht (IntKey h) p) (zend_hash_index_update_ptr w ht h p)"
    unfolding zend_hash_index_update_ptr_def using assms(2) by (rule ptr_of_written)
qed

text \<open>An addition returns \<open>NULL\<close> and leaves the table alone when the key is there.\<close>

lemma add_ptr_spec:
  assumes "ht_inv ht" "p \<noteq> 0"
  shows "outcome ht (\<lambda>res. if map_of (ht_entries ht) (StrKey (zs_val key)) \<noteq> None then res = (0, w, ht)
      else ptr_written ht (StrKey (zs_val key)) p res) (zend_hash_add_ptr w ht key p)"
proof -
  let ?k = "StrKey (zs_val key)"
  have o: "outcome ht (str_add_post w ht key (IS_PTR p) HASH_ADD) (zend_hash_add w ht key (IS_PTR p))"
    unfolding zend_hash_add_def
    by (rule zend_hash_add_or_update_i_spec [OF assms(1) storable_ptr(1)]) (simp_all add: no_add_flag)
  show ?thesis
  proof (cases "map_of (ht_entries ht) ?k \<noteq> None")
    case True
    with o show ?thesis
      by (cases "zend_hash_add w ht key (IS_PTR p)")
        (auto simp: zend_hash_add_ptr_def ptr_of_def str_add_post_def Let_def hash_masks assumed_ptr_def)
  next
    case False
    then have "outcome ht (written w ht ?k (IS_PTR p)) (zend_hash_add w ht key (IS_PTR p))"
      using outcome_mono [OF o] by (simp add: str_add_post_def Let_def)
    from ptr_of_written [OF this assms(2)] False show ?thesis by (simp add: zend_hash_add_ptr_def)
  qed
qed

text \<open>On a table of pointers the lookups find the pointers, or \<open>NULL\<close>.\<close>

definition ptr_table :: "HashTable \<Rightarrow> bool" where
  "ptr_table ht \<longleftrightarrow> (\<forall>v \<in> snd ` set (ht_entries ht). \<exists>p. v = IS_PTR p \<and> p \<noteq> 0)"

definition ptr_at :: "HashTable \<Rightarrow> hkey \<Rightarrow> addr" where
  "ptr_at ht k = (case map_of (ht_entries ht) k of Some (IS_PTR p) \<Rightarrow> p | _ \<Rightarrow> 0)"

lemma assumed_ptr_pos:
  assumes "ht_inv ht" "ptr_table ht"
  shows "assumed_ptr w ht (map_option BUCKET (key_pos ht k)) = Inr (ptr_at ht k)"
proof (cases "key_pos ht k")
  case None
  then have "map_of (ht_entries ht) k = None" using absent_map_of [OF assms(1)] by blast
  with None show ?thesis by (simp add: assumed_ptr_def ptr_at_def)
next
  case (Some i)
  then have m: "map_of (ht_entries ht) k = Some (b_val (arData ht ! i))" by (rule map_of_key_pos [OF assms(1)])
  then obtain p where "b_val (arData ht ! i) = IS_PTR p" "p \<noteq> 0"
    using assms(2) map_of_SomeD [OF m] by (force simp: ptr_table_def)
  then show ?thesis using Some m by (simp add: assumed_ptr_BUCKET ptr_at_def)
qed

lemma find_ptr_spec:
  assumes "ht_inv ht" "ptr_table ht"
  shows "zend_hash_find_ptr w ht key = Inr (ptr_at ht (StrKey (zs_val key)))"
    "zend_hash_str_find_ptr w ht str = Inr (ptr_at ht (StrKey str))"
    "zend_hash_index_find_ptr w ht h = Inr (ptr_at ht (IntKey h))"
    "zend_symtable_str_find_ptr w ht str = Inr (ptr_at ht (sym_key str))"
  using assumed_ptr_pos [OF assms] sym_key_StrKey [of str]
  by (auto simp: zend_hash_find_ptr_def zend_hash_str_find_ptr_def zend_hash_index_find_ptr_def
      zend_symtable_str_find_ptr_def handle_numeric_then find_pos [OF assms(1)] index_find_pos [OF assms(1)]
      split: hkey.split)

lemma ptr_table_written:
  assumes "ptr_table ht" "ptr_written ht k p (q, w', ht')" "p \<noteq> 0"
  shows "ptr_table ht'" "ptr_at ht' = (ptr_at ht)(k := p)"
proof -
  have e: "ht_entries ht' = AList.update k (IS_PTR p) (ht_entries ht)" using assms(2) by (simp add: ptr_written_def)
  have "snd ` set (AList.update k v al) \<subseteq> insert v (snd ` set al)" for v :: zval and al :: "(hkey \<times> zval) list"
    by (induction al) (auto split: if_splits)
  then show "ptr_table ht'" using assms(1,3) unfolding ptr_table_def e by blast
  show "ptr_at ht' = (ptr_at ht)(k := p)"
    by (rule ext) (simp add: ptr_at_def e AList.update_conv')
qed

subsection \<open>Appending keeps the invariant\<close>

lemma pointer_inv:
  assumes "ht_inv ht" "pointer_ok (ht\<lparr>nInternalPointer := i\<rparr>)"
  shows "ht_inv (ht\<lparr>nInternalPointer := i\<rparr>)"
proof -
  let ?ht = "ht\<lparr>nInternalPointer := i\<rparr>"
  have b: "ht_buckets ?ht = ht_buckets ht" by (simp add: ht_buckets_def)
  then have "next_free_ok ?ht = next_free_ok ht" by (simp add: next_free_ok_def)
  moreover have "uninit_layout ?ht = uninit_layout ht" "packed_layout ?ht = packed_layout ht"
    by (simp_all add: uninit_layout_def packed_layout_def)
  moreover have "hash_layout ?ht = hash_layout ht"
    by (simp add: hash_layout_def hash_area_def linked_def in_slot_def [abs_def] slot_of_def)
  ultimately show ?thesis using assms b by (simp add: ht_inv_def contents_ok_def)
qed

lemma append_bucket_spec:
  assumes inv: "ht_inv ht" and i: "ht_initialized ht" "\<not> ht_packed ht"
    and room: "nNumUsed ht < nTableSize ht"
    and new: "map_of (ht_entries ht) (StrKey (zs_val key)) = None" and v: "storable v"
  shows "\<exists>w' ht'. append_bucket w ht key v = Inr (nNumUsed ht, w', ht') \<and> ht_inv ht' \<and>
     ht_entries ht' = ht_entries ht @ [(StrKey (zs_val key), v)] \<and>
     nInternalPointer ht' = nInternalPointer ht \<and> b_val (arData ht' ! nNumUsed ht) = v \<and>
     slots w' = slots w \<and> events w' = events w @ key_events key"
proof -
  let ?h = "zend_string_hash_val key" and ?n = "nNumUsed ht"
  let ?s = "hash_slot (nTableMask ht) ?h"
  let ?b = "(arData ht ! ?n)\<lparr>b_val := v, b_key := Some key, b_h := ?h, b_next := arHash ht ! ?s\<rparr>"
  have kp: "key_pos ht (StrKey (zs_val key)) = None" using new absent_map_of [OF inv] by simp
  have slot: "HT_HASH_EX m (ucast h OR m) = hash_slot m h" for m h
    by (simp add: hash_slot_def ucast_or_mask)
  have len: "length (arData ht) = nTableSize ht"
    using inv i by (simp add: ht_inv_def hash_layout_def hash_area_def)
  define w' where "w' = fst (snd (projr (append_bucket w ht key v)))"
  define ht' where "ht' = snd (snd (projr (append_bucket w ht key v)))"
  have r: "append_bucket w ht key v = Inr (?n, w', ht')"
    and w': "slots w' = slots w" "events w' = events w @ key_events key"
    and f: "ht_initialized ht'" "\<not> ht_packed ht'" "nTableMask ht' = nTableMask ht"
      "nTableSize ht' = nTableSize ht" "nNumUsed ht' = ?n + 1"
      "nNumOfElements ht' = nNumOfElements ht + 1" "nInternalPointer ht' = nInternalPointer ht"
      "arData ht' = (arData ht)[?n := ?b]" "arHash ht' = (arHash ht)[?s := ?n]"
      "nNextFreeElement ht' = nNextFreeElement ht"
      "ht_static_keys ht' = (ht_static_keys ht \<and> zs_interned key)"
    using room len i unfolding w'_def ht'_def append_bucket_def Let_def
    by (simp_all add: zend_string_addref_def slot)
  define ht2 where "ht2 = ht'\<lparr>nInternalPointer := (if nInternalPointer ht = HT_INVALID_IDX then ?n
      else nInternalPointer ht)\<rparr>"
  have key: "bkey ?b = StrKey (zs_val key)" by (simp add: bkey_simps)
  have b: "bucket_ok ?b" "live ?b" using v by (auto simp: bucket_ok_def live_def storable_def)
  have push: "ht_inv ht2 \<and> ht_buckets ht2 = ht_buckets ht @ [?b]"
    by (rule push_hash [OF inv i room]) (use f b kp in \<open>simp_all add: key ht2_def\<close>)
  have ht': "ht' = ht2\<lparr>nInternalPointer := nInternalPointer ht\<rparr>" using f(7) by (simp add: ht2_def)
  have "pointer_ok ht" using inv by (simp add: ht_inv_def contents_ok_def)
  then have "pointer_ok (ht2\<lparr>nInternalPointer := nInternalPointer ht\<rparr>)"
    using f(5,8) room len by (auto simp: pointer_ok_def ht2_def nth_list_update)
  then have "ht_inv ht'" unfolding ht' using pointer_inv push by blast
  moreover have "ht_buckets ht' = ht_buckets ht @ [?b]" using push by (simp add: ht2_def ht_buckets_def)
  then have "ht_entries ht' = ht_entries ht @ [(StrKey (zs_val key), v)]"
    by (simp add: ht_entries_alt key)
  ultimately show ?thesis using r w' f room len by auto
qed

end
