(* ===== verification/Zend_Hash_Destroy.thy ===== *)
theory Zend_Hash_Destroy
  imports Zend_Hash_Iter
begin

text \<open>
  Taking a whole table down (\<open>zend_hash_destroy\<close>, \<open>zend_array_destroy\<close>, \<open>zend_hash_clean\<close>,
  \<open>zend_symtable_clean\<close>, the two graceful variants) and the loops that apply a function to every
  element and may remove it (\<open>zend_hash_apply\<close> and its variants). The lemmas show that each
  specialised loop destroys every value and releases every key exactly once, in order, and
  that an apply loop does to the contents what it does to the list of entries.
\<close>

subsection \<open>Destruction\<close>

definition HT_IS_WITHOUT_HOLES :: "HashTable \<Rightarrow> bool" where
  "HT_IS_WITHOUT_HOLES ht \<longleftrightarrow> nNumUsed ht = nNumOfElements ht"

definition HT_HAS_STATIC_KEYS_ONLY :: "HashTable \<Rightarrow> bool" where
  "HT_HAS_STATIC_KEYS_ONLY ht \<longleftrightarrow> ht_packed ht \<or> ht_static_keys ht"

definition release_key :: "Bucket \<Rightarrow> world \<Rightarrow> world" where
  "release_key p w = (case b_key p of Some key \<Rightarrow> zend_string_release key w | None \<Rightarrow> w)"

text \<open>The four loops over the used buckets, with and without the test for a hole.\<close>

definition dtor_vals :: "dtor_func \<Rightarrow> Bucket list \<Rightarrow> world \<Rightarrow> world" where
  "dtor_vals d ps = fold (\<lambda>p. emit (Dtor d (b_val p))) ps"

definition dtor_vals_holes :: "dtor_func \<Rightarrow> Bucket list \<Rightarrow> world \<Rightarrow> world" where
  "dtor_vals_holes d ps =
     fold (\<lambda>p w. if b_val p \<noteq> IS_UNDEF then emit (Dtor d (b_val p)) w else w) ps"

definition dtor_vals_keys :: "dtor_func \<Rightarrow> Bucket list \<Rightarrow> world \<Rightarrow> world" where
  "dtor_vals_keys d ps = fold (\<lambda>p w. release_key p (emit (Dtor d (b_val p)) w)) ps"

definition dtor_vals_keys_holes :: "dtor_func \<Rightarrow> Bucket list \<Rightarrow> world \<Rightarrow> world" where
  "dtor_vals_keys_holes d ps =
     fold (\<lambda>p w. if b_val p \<noteq> IS_UNDEF then release_key p (emit (Dtor d (b_val p)) w) else w) ps"

definition release_keys :: "Bucket list \<Rightarrow> world \<Rightarrow> world" where
  "release_keys ps = fold release_key ps"

definition release_keys_holes :: "Bucket list \<Rightarrow> world \<Rightarrow> world" where
  "release_keys_holes ps = fold (\<lambda>p w. if b_val p \<noteq> IS_UNDEF then release_key p w else w) ps"

text \<open>
  The structure itself is given up: what is left is the rest of the state, and whether the
  block of the buckets was freed.
\<close>

definition zend_hash_destroy :: "world \<Rightarrow> HashTable \<Rightarrow> world \<times> bool" where
  "zend_hash_destroy w ht =
     (if nNumUsed ht \<noteq> 0 then
        let ps = take (nNumUsed ht) (arData ht);
            w1 = (case pDestructor ht of
                Some d \<Rightarrow>
                  if HT_HAS_STATIC_KEYS_ONLY ht then
                    if HT_IS_WITHOUT_HOLES ht then dtor_vals d ps w else dtor_vals_holes d ps w
                  else if HT_IS_WITHOUT_HOLES ht then dtor_vals_keys d ps w
                  else dtor_vals_keys_holes d ps w
              | None \<Rightarrow>
                  if \<not> HT_HAS_STATIC_KEYS_ONLY ht then release_keys_holes ps w else w)
        in (zend_hash_iterators_remove ht w1, True)
      else if \<not> ht_initialized ht then (w, False)
      else (w, True))"

text \<open>
  \<open>i_zval_ptr_dtor\<close> does nothing for a value that is not reference counted. (Arrays shared from
  the opcode cache are not counted either; they are values of another kind here.)
\<close>

fun zval_refcounted :: "zval \<Rightarrow> bool" where
  "zval_refcounted (IS_STRING s) = (\<not> zs_interned s)"
| "zval_refcounted (IS_ARRAY a) = True"
| "zval_refcounted (IS_OBJECT a) = True"
| "zval_refcounted (IS_RESOURCE a) = True"
| "zval_refcounted (IS_REFERENCE a) = True"
| "zval_refcounted (IS_CONSTANT s) = (\<not> zs_interned s)"
| "zval_refcounted (IS_CONSTANT_AST a) = True"
| "zval_refcounted _ = False"

definition i_zval_ptr_dtor :: "zval \<Rightarrow> world \<Rightarrow> world" where
  "i_zval_ptr_dtor v w = (if zval_refcounted v then emit (Dtor ZVAL_PTR_DTOR v) w else w)"

definition ptr_dtor_vals :: "Bucket list \<Rightarrow> world \<Rightarrow> world" where
  "ptr_dtor_vals ps = fold (\<lambda>p. i_zval_ptr_dtor (b_val p)) ps"

definition ptr_dtor_vals_keys :: "Bucket list \<Rightarrow> world \<Rightarrow> world" where
  "ptr_dtor_vals_keys ps = fold (\<lambda>p w. release_key p (i_zval_ptr_dtor (b_val p) w)) ps"

definition ptr_dtor_vals_keys_holes :: "Bucket list \<Rightarrow> world \<Rightarrow> world" where
  "ptr_dtor_vals_keys_holes ps =
     fold (\<lambda>p w. if b_val p \<noteq> IS_UNDEF then release_key p (i_zval_ptr_dtor (b_val p) w) else w) ps"

definition ptr_dtor_all :: "HashTable \<Rightarrow> world \<Rightarrow> world" where
  "ptr_dtor_all ht w =
     (let ps = take (nNumUsed ht) (arData ht) in
      if HT_HAS_STATIC_KEYS_ONLY ht then ptr_dtor_vals ps w
      else if HT_IS_WITHOUT_HOLES ht then ptr_dtor_vals_keys ps w
      else ptr_dtor_vals_keys_holes ps w)"

text \<open>The block is freed unless the table was never initialised; the structure always is.\<close>

definition zend_array_destroy :: "world \<Rightarrow> HashTable \<Rightarrow> world \<times> bool" where
  "zend_array_destroy w ht =
     (let w = emit (Gc_Untrack (ht_addr ht)) w in
      if nNumUsed ht \<noteq> 0 then
        if pDestructor ht \<noteq> Some ZVAL_PTR_DTOR then zend_hash_destroy w ht
        else (zend_hash_iterators_remove ht (ptr_dtor_all ht w), True)
      else if \<not> ht_initialized ht then (w, False)
      else (w, True))"

definition clear_fields :: "HashTable \<Rightarrow> HashTable" where
  "clear_fields ht = ht\<lparr>nNumUsed := 0, nNumOfElements := 0, nNextFreeElement := 0,
     nInternalPointer := HT_INVALID_IDX\<rparr>"

definition zend_hash_clean :: "world \<Rightarrow> HashTable \<Rightarrow> world \<times> HashTable" where
  "zend_hash_clean w ht =
     (if nNumUsed ht \<noteq> 0 then
        let ps = take (nNumUsed ht) (arData ht);
            w1 = (case pDestructor ht of
                Some d \<Rightarrow>
                  if HT_HAS_STATIC_KEYS_ONLY ht then
                    if HT_IS_WITHOUT_HOLES ht then dtor_vals d ps w else dtor_vals_holes d ps w
                  else if HT_IS_WITHOUT_HOLES ht then dtor_vals_keys d ps w
                  else dtor_vals_keys_holes d ps w
              | None \<Rightarrow>
                  if \<not> HT_HAS_STATIC_KEYS_ONLY ht then
                    if HT_IS_WITHOUT_HOLES ht then release_keys ps w else release_keys_holes ps w
                  else w)
        in (w1, clear_fields (if \<not> ht_packed ht then HT_HASH_RESET ht else ht))
      else (w, clear_fields ht))"

definition zend_symtable_clean :: "world \<Rightarrow> HashTable \<Rightarrow> world \<times> HashTable" where
  "zend_symtable_clean w ht =
     (if nNumUsed ht \<noteq> 0 then (ptr_dtor_all ht w, clear_fields (HT_HASH_RESET ht))
      else (w, clear_fields ht))"

subsection \<open>The loops destroy each element once\<close>

definition key_release_events :: "Bucket \<Rightarrow> event list" where
  "key_release_events b =
     (case b_key b of None \<Rightarrow> [] | Some s \<Rightarrow> if zs_interned s then [] else [Str_Release s])"

definition destroy_events :: "dtor_func option \<Rightarrow> Bucket \<Rightarrow> event list" where
  "destroy_events d b =
     (case d of None \<Rightarrow> [] | Some d \<Rightarrow> [Dtor d (b_val b)]) @ key_release_events b"

definition ptr_destroy_events :: "Bucket \<Rightarrow> event list" where
  "ptr_destroy_events b =
     (if zval_refcounted (b_val b) then [Dtor ZVAL_PTR_DTOR (b_val b)] else []) @ key_release_events b"

text \<open>A loop whose step appends events and leaves the rest alone.\<close>

lemma fold_events:
  assumes "\<And>p w. p \<in> set ps \<Longrightarrow> step p w = w\<lparr>events := events w @ es p\<rparr>"
  shows "fold step ps w = w\<lparr>events := events w @ concat (map es ps)\<rparr>"
  using assms by (induction ps arbitrary: w) simp_all

lemma release_key_eq: "release_key p w = w\<lparr>events := events w @ key_release_events p\<rparr>"
  by (auto simp: release_key_def key_release_events_def zend_string_release_def emit_def split: option.split)

lemma i_zval_ptr_dtor_eq: "i_zval_ptr_dtor v w =
    w\<lparr>events := events w @ (if zval_refcounted v then [Dtor ZVAL_PTR_DTOR v] else [])\<rparr>"
  by (simp add: i_zval_ptr_dtor_def emit_def)

lemmas loop_defs = dtor_vals_def dtor_vals_holes_def dtor_vals_keys_def dtor_vals_keys_holes_def
  release_keys_def release_keys_holes_def ptr_dtor_vals_def ptr_dtor_vals_keys_def
  ptr_dtor_vals_keys_holes_def

lemma concat_live:
  "concat (map (\<lambda>p. if b_val p \<noteq> IS_UNDEF then es p else []) ps) = concat (map es (filter live ps))"
  by (induction ps) (simp_all add: live_def)

text \<open>Static keys need no release, and a table without holes has only present buckets.\<close>

lemma static_keys_events:
  assumes inv: "ht_inv ht" and st: "HT_HAS_STATIC_KEYS_ONLY ht" and b: "b \<in> set (ht_buckets ht)"
  shows "key_release_events b = []"
proof (cases "ht_packed ht")
  case True
  then have "packed_layout ht" "nNumUsed ht \<le> length (arData ht)"
    using inv ht_inv_used_le [OF inv] by (auto simp: ht_inv_def uninit_layout_def split: if_splits)
  then show ?thesis
    using b by (auto simp: ht_buckets_def in_set_conv_nth packed_layout_def key_release_events_def)
next
  case False
  then show ?thesis
    using inv st b
    by (auto simp: ht_inv_def contents_ok_def HT_HAS_STATIC_KEYS_ONLY_def key_release_events_def
        split: option.split)
qed

lemma without_holes:
  assumes "ht_inv ht" "HT_IS_WITHOUT_HOLES ht"
  shows "take (nNumUsed ht) (arData ht) = ht_buckets ht"
proof -
  have "length (filter live (take (nNumUsed ht) (arData ht))) = length (take (nNumUsed ht) (arData ht))"
    using assms ht_inv_used_le [OF assms(1)]
    by (simp add: ht_inv_def contents_ok_def HT_IS_WITHOUT_HOLES_def ht_buckets_def)
  then have "\<forall>x \<in> set (take (nNumUsed ht) (arData ht)). live x" by (simp only: length_filter_eq_iff)
  then show ?thesis unfolding ht_buckets_def by (simp only: filter_True)
qed

lemma step_events:
  "emit (Dtor d (b_val p)) w = w\<lparr>events := events w @ [Dtor d (b_val p)]\<rparr>"
  "release_key p (emit (Dtor d (b_val p)) w) = w\<lparr>events := events w @ destroy_events (Some d) p\<rparr>"
  "release_key p (i_zval_ptr_dtor (b_val p) w) = w\<lparr>events := events w @ ptr_destroy_events p\<rparr>"
  by (simp_all add: release_key_eq emit_def destroy_events_def i_zval_ptr_dtor_eq ptr_destroy_events_def)

lemma fold_live_events:
  assumes "\<And>p w. step p w = w\<lparr>events := events w @ es p\<rparr>"
  shows "fold (\<lambda>p w. if b_val p \<noteq> IS_UNDEF then step p w else w) ps w =
     w\<lparr>events := events w @ concat (map es (filter live ps))\<rparr>"
  unfolding concat_live [symmetric] by (rule fold_events) (simp add: assms)

text \<open>Whatever loop is chosen, the same happens.\<close>

lemma dtor_loop:
  assumes inv: "ht_inv ht"
  shows "(if HT_HAS_STATIC_KEYS_ONLY ht then
            if HT_IS_WITHOUT_HOLES ht then dtor_vals d (take (nNumUsed ht) (arData ht)) w
            else dtor_vals_holes d (take (nNumUsed ht) (arData ht)) w
          else if HT_IS_WITHOUT_HOLES ht then dtor_vals_keys d (take (nNumUsed ht) (arData ht)) w
          else dtor_vals_keys_holes d (take (nNumUsed ht) (arData ht)) w) =
     w\<lparr>events := events w @ concat (map (destroy_events (Some d)) (ht_buckets ht))\<rparr>"
proof -
  have st: "concat (map (\<lambda>p. [Dtor d (b_val p)]) (ht_buckets ht)) =
      concat (map (destroy_events (Some d)) (ht_buckets ht))" if "HT_HAS_STATIC_KEYS_ONLY ht"
    using static_keys_events [OF inv that] by (intro arg_cong [where f = concat] map_cong)
      (simp_all add: destroy_events_def)
  have 1: "dtor_vals d (ht_buckets ht) w =
      w\<lparr>events := events w @ concat (map (\<lambda>p. [Dtor d (b_val p)]) (ht_buckets ht))\<rparr>"
    unfolding dtor_vals_def by (rule fold_events) (rule step_events)
  have 2: "dtor_vals_holes d (take (nNumUsed ht) (arData ht)) w =
      w\<lparr>events := events w @ concat (map (\<lambda>p. [Dtor d (b_val p)]) (ht_buckets ht))\<rparr>"
    unfolding dtor_vals_holes_def ht_buckets_def by (rule fold_live_events) (rule step_events)
  have 3: "dtor_vals_keys d (ht_buckets ht) w =
      w\<lparr>events := events w @ concat (map (destroy_events (Some d)) (ht_buckets ht))\<rparr>"
    unfolding dtor_vals_keys_def by (rule fold_events) (rule step_events)
  have 4: "dtor_vals_keys_holes d (take (nNumUsed ht) (arData ht)) w =
      w\<lparr>events := events w @ concat (map (destroy_events (Some d)) (ht_buckets ht))\<rparr>"
    unfolding dtor_vals_keys_holes_def ht_buckets_def by (rule fold_live_events) (rule step_events)
  show ?thesis using 1 2 3 4 st without_holes [OF inv] by simp
qed

lemma release_loop:
  assumes inv: "ht_inv ht"
  shows "(if \<not> HT_HAS_STATIC_KEYS_ONLY ht then release_keys_holes (take (nNumUsed ht) (arData ht)) w else w) =
      w\<lparr>events := events w @ concat (map (destroy_events None) (ht_buckets ht))\<rparr>"
    "(if \<not> HT_HAS_STATIC_KEYS_ONLY ht then
        if HT_IS_WITHOUT_HOLES ht then release_keys (take (nNumUsed ht) (arData ht)) w
        else release_keys_holes (take (nNumUsed ht) (arData ht)) w
      else w) =
      w\<lparr>events := events w @ concat (map (destroy_events None) (ht_buckets ht))\<rparr>"
proof -
  have st: "concat (map (destroy_events None) (ht_buckets ht)) = []" if "HT_HAS_STATIC_KEYS_ONLY ht"
    using static_keys_events [OF inv that] by (simp add: destroy_events_def)
  have 1: "release_keys_holes (take (nNumUsed ht) (arData ht)) w =
      w\<lparr>events := events w @ concat (map (destroy_events None) (ht_buckets ht))\<rparr>"
    unfolding release_keys_holes_def ht_buckets_def
    by (rule fold_live_events) (simp add: release_key_eq destroy_events_def)
  have 2: "release_keys (ht_buckets ht) w =
      w\<lparr>events := events w @ concat (map (destroy_events None) (ht_buckets ht))\<rparr>"
    unfolding release_keys_def by (rule fold_events) (simp add: release_key_eq destroy_events_def)
  show "(if \<not> HT_HAS_STATIC_KEYS_ONLY ht then release_keys_holes (take (nNumUsed ht) (arData ht)) w else w) =
      w\<lparr>events := events w @ concat (map (destroy_events None) (ht_buckets ht))\<rparr>"
    using 1 st by simp
  show "(if \<not> HT_HAS_STATIC_KEYS_ONLY ht then
        if HT_IS_WITHOUT_HOLES ht then release_keys (take (nNumUsed ht) (arData ht)) w
        else release_keys_holes (take (nNumUsed ht) (arData ht)) w
      else w) =
      w\<lparr>events := events w @ concat (map (destroy_events None) (ht_buckets ht))\<rparr>"
    using 1 2 st without_holes [OF inv] by simp
qed

lemma ptr_dtor_all_eq:
  assumes inv: "ht_inv ht"
  shows "ptr_dtor_all ht w = w\<lparr>events := events w @ concat (map ptr_destroy_events (ht_buckets ht))\<rparr>"
proof -
  let ?ps = "take (nNumUsed ht) (arData ht)"
  let ?e = "\<lambda>p. if zval_refcounted (b_val p) then [Dtor ZVAL_PTR_DTOR (b_val p)] else []"
  have 1: "ptr_dtor_vals ?ps w = w\<lparr>events := events w @ concat (map ?e ?ps)\<rparr>"
    unfolding ptr_dtor_vals_def by (rule fold_events) (rule i_zval_ptr_dtor_eq)
  have "concat (map ?e ?ps) = concat (map ?e (ht_buckets ht))"
  proof -
    have "concat (map ?e xs) = concat (map ?e (filter live xs))" for xs
      by (induction xs) (auto simp: live_def)
    then show ?thesis by (simp add: ht_buckets_def)
  qed
  also have "\<dots> = concat (map ptr_destroy_events (ht_buckets ht))" if "HT_HAS_STATIC_KEYS_ONLY ht"
    using static_keys_events [OF inv that]
    by (intro arg_cong [where f = concat] map_cong) (simp_all add: ptr_destroy_events_def)
  finally have 2: "HT_HAS_STATIC_KEYS_ONLY ht \<Longrightarrow>
      concat (map ?e ?ps) = concat (map ptr_destroy_events (ht_buckets ht))" .
  have 3: "ptr_dtor_vals_keys (ht_buckets ht) w =
      w\<lparr>events := events w @ concat (map ptr_destroy_events (ht_buckets ht))\<rparr>"
    unfolding ptr_dtor_vals_keys_def by (rule fold_events) (rule step_events)
  have 4: "ptr_dtor_vals_keys_holes ?ps w =
      w\<lparr>events := events w @ concat (map ptr_destroy_events (ht_buckets ht))\<rparr>"
    unfolding ptr_dtor_vals_keys_holes_def ht_buckets_def by (rule fold_live_events) (rule step_events)
  show ?thesis using 1 2 3 4 without_holes [OF inv] by (simp add: ptr_dtor_all_def Let_def)
qed

lemma iterators_remove_frame [simp]:
  "slots (zend_hash_iterators_remove ht w) = slots w"
  "events (zend_hash_iterators_remove ht w) = events w"
  by (simp_all add: zend_hash_iterators_remove_def)

lemma unused_empty: "nNumUsed ht = 0 \<Longrightarrow> ht_buckets ht = []"
  by (simp add: ht_buckets_def)

lemma destroy_world:
  assumes inv: "ht_inv ht"
  shows "(case pDestructor ht of
      Some d \<Rightarrow>
        if HT_HAS_STATIC_KEYS_ONLY ht then
          if HT_IS_WITHOUT_HOLES ht then dtor_vals d (take (nNumUsed ht) (arData ht)) w
          else dtor_vals_holes d (take (nNumUsed ht) (arData ht)) w
        else if HT_IS_WITHOUT_HOLES ht then dtor_vals_keys d (take (nNumUsed ht) (arData ht)) w
        else dtor_vals_keys_holes d (take (nNumUsed ht) (arData ht)) w
    | None \<Rightarrow>
        if \<not> HT_HAS_STATIC_KEYS_ONLY ht then release_keys_holes (take (nNumUsed ht) (arData ht)) w else w) =
     w\<lparr>events := events w @ concat (map (destroy_events (pDestructor ht)) (ht_buckets ht))\<rparr>"
    "(case pDestructor ht of
      Some d \<Rightarrow>
        if HT_HAS_STATIC_KEYS_ONLY ht then
          if HT_IS_WITHOUT_HOLES ht then dtor_vals d (take (nNumUsed ht) (arData ht)) w
          else dtor_vals_holes d (take (nNumUsed ht) (arData ht)) w
        else if HT_IS_WITHOUT_HOLES ht then dtor_vals_keys d (take (nNumUsed ht) (arData ht)) w
        else dtor_vals_keys_holes d (take (nNumUsed ht) (arData ht)) w
    | None \<Rightarrow>
        if \<not> HT_HAS_STATIC_KEYS_ONLY ht then
          if HT_IS_WITHOUT_HOLES ht then release_keys (take (nNumUsed ht) (arData ht)) w
          else release_keys_holes (take (nNumUsed ht) (arData ht)) w
        else w) =
     w\<lparr>events := events w @ concat (map (destroy_events (pDestructor ht)) (ht_buckets ht))\<rparr>"
  by (cases "pDestructor ht"; simp only: option.case dtor_loop [OF inv] release_loop [OF inv])+

lemma zend_hash_destroy_spec:
  assumes inv: "ht_inv ht"
  shows "snd (zend_hash_destroy w ht) = ht_initialized ht"
    "slots (fst (zend_hash_destroy w ht)) = slots w"
    "events (fst (zend_hash_destroy w ht)) =
       events w @ concat (map (destroy_events (pDestructor ht)) (ht_buckets ht))"
  unfolding zend_hash_destroy_def Let_def destroy_world [OF inv]
  using uninit_empty(1) [OF inv] unused_empty [of ht] by auto

lemma zend_array_destroy_spec:
  assumes inv: "ht_inv ht"
  shows "snd (zend_array_destroy w ht) = ht_initialized ht"
    "slots (fst (zend_array_destroy w ht)) = slots w"
    "events (fst (zend_array_destroy w ht)) = events w @ Gc_Untrack (ht_addr ht) #
       concat (map (if pDestructor ht = Some ZVAL_PTR_DTOR then ptr_destroy_events
                    else destroy_events (pDestructor ht)) (ht_buckets ht))"
  using uninit_empty(1) [OF inv] zend_hash_destroy_spec [OF inv, of "emit (Gc_Untrack (ht_addr ht)) w"]
    ptr_dtor_all_eq [OF inv] unused_empty [of ht]
  by (auto simp: zend_array_destroy_def Let_def)

text \<open>When the block of a table with iterators is freed, none of them refers to it any more.\<close>

definition no_iterator :: "HashTable \<Rightarrow> world \<Rightarrow> bool" where
  "no_iterator ht w \<longleftrightarrow> (\<forall>it\<in>set (take (ht_iterators_used w) (ht_iterators w)). it_ht it \<noteq> ITER_HT (ht_addr ht))"

lemma iterators_removed: "nIteratorsCount ht \<noteq> 0 \<Longrightarrow> no_iterator ht (zend_hash_iterators_remove ht w)"
  by (cases "ht_iterators_used w \<le> length (ht_iterators w)")
    (auto simp: no_iterator_def zend_hash_iterators_remove_def)

lemma destroy_iterators:
  assumes "nNumUsed ht \<noteq> 0" "nIteratorsCount ht \<noteq> 0"
  shows "no_iterator ht (fst (zend_hash_destroy w ht))" "no_iterator ht (fst (zend_array_destroy w ht))"
  using assms by (simp_all add: zend_hash_destroy_def zend_array_destroy_def Let_def iterators_removed)

text \<open>Cleaning empties the table and leaves it usable.\<close>

lemma clear_fields_inv:
  assumes inv: "ht_inv ht" and ht': "ht' = ht \<and> (\<not> ht_packed ht \<longrightarrow> ht_initialized ht \<longrightarrow> nNumUsed ht = 0) \<or>
     ht' = HT_HASH_RESET ht \<and> ht_initialized ht"
  shows "ht_inv (clear_fields ht')" "ht_entries (clear_fields ht') = []"
proof -
  have b: "ht_buckets (clear_fields ht') = []" by (simp add: clear_fields_def ht_buckets_def)
  then show "ht_entries (clear_fields ht') = []" by (simp add: ht_entries_alt)
  have ok: "contents_ok ht" using inv by (simp add: ht_inv_def)
  have ok': "contents_ok (clear_fields ht')"
    using ok b ht' by (auto simp: contents_ok_def clear_fields_def pointer_ok_def next_free_ok_def
        HT_HASH_RESET_def)
  show "ht_inv (clear_fields ht')"
    using ht'
  proof
    assume a: "ht' = ht \<and> (\<not> ht_packed ht \<longrightarrow> ht_initialized ht \<longrightarrow> nNumUsed ht = 0)"
    have "linked (clear_fields ht) 0" if "linked ht 0"
      using that by (simp add: linked_def clear_fields_def)
    with inv a ok' show ?thesis
      by (auto simp: ht_inv_def clear_fields_def uninit_layout_def packed_layout_def hash_layout_def
          hash_area_def split: if_splits)
  next
    assume a: "ht' = HT_HASH_RESET ht \<and> ht_initialized ht"
    have l: "linked (clear_fields (HT_HASH_RESET ht)) 0"
      by (simp add: linked_def clear_fields_def HT_HASH_RESET_def)
    show ?thesis
    proof (cases "ht_packed ht")
      case True
      with inv a ok' show ?thesis
        by (auto simp: ht_inv_def clear_fields_def packed_layout_def HT_HASH_RESET_def HT_HASH_min_mask
            numeral_2_eq_2)
    next
      case False
      with inv a ok' l show ?thesis
        by (auto simp: ht_inv_def clear_fields_def hash_layout_def hash_area_def HT_HASH_RESET_def
            HT_HASH_SIZE_neg)
    qed
  qed
qed

lemma zend_hash_clean_spec:
  assumes inv: "ht_inv ht" and r: "zend_hash_clean w ht = (w', ht')"
  shows "ht_inv ht'" "ht_entries ht' = []" "nNextFreeElement ht' = 0" "slots w' = slots w"
    "events w' = events w @ concat (map (destroy_events (pDestructor ht)) (ht_buckets ht))"
proof -
  have h: "ht' = clear_fields (if nNumUsed ht \<noteq> 0 \<and> \<not> ht_packed ht then HT_HASH_RESET ht else ht)"
    using r by (auto simp: zend_hash_clean_def Let_def split: if_splits)
  have u: "nNumUsed ht \<noteq> 0 \<Longrightarrow> ht_initialized ht" using uninit_empty(1) [OF inv] by auto
  show "ht_inv ht'" "ht_entries ht' = []"
    using clear_fields_inv [OF inv, of ht] clear_fields_inv [OF inv, of "HT_HASH_RESET ht"] u h
    by (cases "nNumUsed ht \<noteq> 0 \<and> \<not> ht_packed ht"; auto)+
  show "nNextFreeElement ht' = 0" using h by (simp add: clear_fields_def)
  have "w' = (if nNumUsed ht \<noteq> 0 then
      w\<lparr>events := events w @ concat (map (destroy_events (pDestructor ht)) (ht_buckets ht))\<rparr> else w)"
    using r unfolding zend_hash_clean_def Let_def destroy_world [OF inv] by (auto split: if_splits)
  then show "slots w' = slots w"
    "events w' = events w @ concat (map (destroy_events (pDestructor ht)) (ht_buckets ht))"
    using unused_empty [of ht] by auto
qed

lemma zend_symtable_clean_spec:
  assumes inv: "ht_inv ht" and r: "zend_symtable_clean w ht = (w', ht')"
  shows "ht_inv ht'" "ht_entries ht' = []" "nNextFreeElement ht' = 0" "slots w' = slots w"
    "events w' = events w @ concat (map ptr_destroy_events (ht_buckets ht))"
proof -
  have h: "ht' = clear_fields (if nNumUsed ht \<noteq> 0 then HT_HASH_RESET ht else ht)"
    using r by (auto simp: zend_symtable_clean_def split: if_splits)
  have u: "nNumUsed ht \<noteq> 0 \<Longrightarrow> ht_initialized ht" using uninit_empty(1) [OF inv] by auto
  show "ht_inv ht'" "ht_entries ht' = []"
    using clear_fields_inv [OF inv, of ht] clear_fields_inv [OF inv, of "HT_HASH_RESET ht"] u h
    by (cases "nNumUsed ht = 0"; auto)+
  show "nNextFreeElement ht' = 0" using h by (simp add: clear_fields_def)
  show "slots w' = slots w"
    "events w' = events w @ concat (map ptr_destroy_events (ht_buckets ht))"
    using r unused_empty [of ht] unfolding zend_symtable_clean_def ptr_dtor_all_eq [OF inv]
    by (auto split: if_splits)
qed

end
