(* ===== verification/Zend_Hash_Copy.thy ===== *)
theory Zend_Hash_Copy
  imports Zend_Hash_Ptr Zend_Hash_Destroy
begin

text \<open>
  Counting, copying, duplicating and merging tables (\<open>zend_array_count\<close>, \<open>zend_hash_copy\<close>,
  \<open>zend_array_dup\<close>, \<open>_zend_hash_merge\<close>, \<open>zend_hash_merge_ex\<close>) and the two conversions between
  symbol and property tables. Source and target are different tables. The copy constructor is a
  parameter: the value it leaves in place of the one it is called on, and the events it logs. The
  references that values refer to are a parameter too: their count and the value they hold.
\<close>

type_synonym copy_ctor_func = "zval \<Rightarrow> zval \<times> event list"
type_synonym refs = "addr \<Rightarrow> nat \<times> zval"

text \<open>\<open>while (Z_TYPE(arData[idx].val) == IS_UNDEF) idx++\<close>: no bound in the code.\<close>

function first_used :: "Bucket list \<Rightarrow> nat \<Rightarrow> nat res" where
  "first_used data idx =
     (if idx \<ge> length data then Inl UB_OUT_OF_BOUNDS
      else if b_val (data ! idx) = IS_UNDEF then first_used data (idx + 1)
      else Inr idx)"
  by pat_completeness auto
termination by (relation "measure (\<lambda>(data, idx). length data - idx)") auto

declare first_used.simps [simp del]

subsection \<open>Counting\<close>

definition zend_array_recalc_elements :: "world \<Rightarrow> HashTable \<Rightarrow> nat" where
  "zend_array_recalc_elements w ht =
     fold (\<lambda>p num. case b_val p of
         IS_UNDEF \<Rightarrow> num
       | IS_INDIRECT a \<Rightarrow> if slots w a = IS_UNDEF then num - 1 else num
       | _ \<Rightarrow> num)
       (take (nNumUsed ht) (arData ht)) (nNumOfElements ht)"

definition zend_array_count :: "world \<Rightarrow> bool \<Rightarrow> HashTable \<Rightarrow> nat \<times> HashTable" where
  "zend_array_count w is_symbol_table ht =
     (if ht_has_empty_ind ht then
        let num = zend_array_recalc_elements w ht in
        (num, if nNumOfElements ht = num then ht\<lparr>ht_has_empty_ind := False\<rparr> else ht)
      else if is_symbol_table then (zend_array_recalc_elements w ht, ht)
      else (nNumOfElements ht, ht))"

subsection \<open>Copying into another table\<close>

definition call_ctor :: "copy_ctor_func \<Rightarrow> zref \<Rightarrow> world \<times> HashTable \<Rightarrow> world \<times> HashTable" where
  "call_ctor f r = (\<lambda>(w, ht).
     let (v, es) = f (zref_get w ht r); (w, ht) = zref_set r v (w, ht) in
     (w\<lparr>events := events w @ es\<rparr>, ht))"

text \<open>\<open>zval_add_ref\<close> (\<open>zend_variables.c\<close>), the constructor most callers pass.\<close>

definition zval_add_ref :: "refs \<Rightarrow> copy_ctor_func" where
  "zval_add_ref rs p =
     (if zval_refcounted p then
        case p of
          IS_REFERENCE r \<Rightarrow>
            if fst (rs r) = 1 then
              (snd (rs r), if zval_refcounted (snd (rs r)) then [Addref (snd (rs r))] else [])
            else (p, [Addref p])
        | _ \<Rightarrow> (p, [Addref p])
      else (p, []))"

text \<open>The update for the key of a bucket.\<close>

definition bucket_update :: "world \<Rightarrow> HashTable \<Rightarrow> Bucket \<Rightarrow> zval \<Rightarrow> zref option ht_res" where
  "bucket_update w target p data =
     (case b_key p of
        Some key \<Rightarrow> zend_hash_update w target key data
      | None \<Rightarrow> zend_hash_index_update w target (b_h p) data)"

text \<open>The body of the loop for one index.\<close>

definition copy_element ::
  "HashTable \<Rightarrow> copy_ctor_func option \<Rightarrow> bool \<Rightarrow> nat \<Rightarrow> world \<times> HashTable \<Rightarrow> (world \<times> HashTable) res" where
  "copy_element source f setTargetPointer idx = (\<lambda>(w, target).
     let p = arData source ! idx in
     if b_val p = IS_UNDEF then Inr (w, target)
     else
       let target = (if setTargetPointer \<and> nInternalPointer source = idx
                     then target\<lparr>nInternalPointer := HT_INVALID_IDX\<rparr> else target);
           data = ind_data w (b_val p)
       in
       if data = IS_UNDEF then Inr (w, target)
       else
         res_bind (bucket_update w target p data) (\<lambda>(new_entry, w, target).
           case (f, new_entry) of
             (Some f, Some r) \<Rightarrow> Inr (call_ctor f r (w, target))
           | (Some f, None) \<Rightarrow> Inl UB_NULL_POINTER
           | (None, _) \<Rightarrow> Inr (w, target)))"

definition zend_hash_copy ::
  "world \<Rightarrow> HashTable \<Rightarrow> HashTable \<Rightarrow> copy_ctor_func option \<Rightarrow> (world \<times> HashTable) res" where
  "zend_hash_copy w target source pCopyConstructor =
     (let setTargetPointer = (nInternalPointer target = HT_INVALID_IDX) in
      res_bind (for_each (copy_element source pCopyConstructor setTargetPointer) [0..<nNumUsed source] (w, target))
        (\<lambda>(w, target).
          if nInternalPointer target = HT_INVALID_IDX \<and> nNumOfElements target > 0 then
            res_bind (first_used (arData target) 0) (\<lambda>idx. Inr (w, target\<lparr>nInternalPointer := idx\<rparr>))
          else Inr (w, target)))"

subsection \<open>Duplicating an array\<close>

text \<open>
  The value an element gets: a reference nobody else holds is replaced by its value, unless that
  is the array itself; what is counted gets another reference.
\<close>

definition dup_data :: "refs \<Rightarrow> addr \<Rightarrow> zval \<Rightarrow> zval \<times> event list" where
  "dup_data rs source data =
     (if zval_refcounted data then
        case data of
          IS_REFERENCE r \<Rightarrow>
            if fst (rs r) = 1 \<and> (case snd (rs r) of IS_ARRAY a \<Rightarrow> a \<noteq> source | _ \<Rightarrow> True) then
              (snd (rs r), if zval_refcounted (snd (rs r)) then [Addref (snd (rs r))] else [])
            else (data, [Addref data])
        | _ \<Rightarrow> (data, [Addref data])
      else (data, []))"

definition is_indirect :: "zval \<Rightarrow> bool" where
  "is_indirect v = (case v of IS_INDIRECT a \<Rightarrow> True | _ \<Rightarrow> False)"

lemma is_indirect_iff [simp]: "is_indirect v \<longleftrightarrow> (\<exists>a. v = IS_INDIRECT a)"
  by (simp add: is_indirect_def split: zval.split)

definition zend_array_dup_element ::
  "refs \<Rightarrow> HashTable \<Rightarrow> nat \<Rightarrow> Bucket \<Rightarrow> nat \<Rightarrow> bool \<Rightarrow> bool \<Rightarrow> bool \<Rightarrow> world \<times> HashTable \<Rightarrow>
   bool \<times> world \<times> HashTable" where
  "zend_array_dup_element rs source idx p q packed static_keys with_holes = (\<lambda>(w, target).
     let data = (if \<not> packed then ind_data w (b_val p) else b_val p) in
     if (if with_holes then data = IS_UNDEF
         else \<not> packed \<and> is_indirect (b_val p) \<and> data = IS_UNDEF)
     then (False, w, target)
     else
       let (v, es) = dup_data rs (ht_addr source) data;
           w = w\<lparr>events := events w @ es\<rparr>;
           b = (arData target ! q)\<lparr>b_val := v, b_h := b_h p\<rparr>
       in
       if packed then (True, w, target\<lparr>arData := (arData target)[q := b\<lparr>b_key := None\<rparr>]\<rparr>)
       else
         let w = (case b_key p of Some key \<Rightarrow> if \<not> static_keys then zend_string_addref key w else w
                  | None \<Rightarrow> w);
             nIndex = hash_slot (nTableMask target) (b_h p);
             b = b\<lparr>b_key := b_key p, b_next := arHash target ! nIndex\<rparr>
         in (True, w, target\<lparr>arData := (arData target)[q := b], arHash := (arHash target)[nIndex := idx]\<rparr>))"

fun zend_array_dup_packed_elements ::
  "refs \<Rightarrow> HashTable \<Rightarrow> bool \<Rightarrow> nat list \<Rightarrow> world \<times> HashTable \<Rightarrow> world \<times> HashTable" where
  "zend_array_dup_packed_elements rs source with_holes [] s = s"
| "zend_array_dup_packed_elements rs source with_holes (i # is) s =
     (let (copied, w, target) =
        zend_array_dup_element rs source 0 (arData source ! i) i True True with_holes s
      in zend_array_dup_packed_elements rs source with_holes is
           (w, if \<not> copied \<and> with_holes then set_val i IS_UNDEF target else target))"

text \<open>The two loops of \<open>zend_array_dup_elements\<close>: up to the first element left out, and the rest.\<close>

fun dup_elements_rest ::
  "refs \<Rightarrow> HashTable \<Rightarrow> bool \<Rightarrow> bool \<Rightarrow> nat list \<Rightarrow> nat \<Rightarrow> world \<times> HashTable \<Rightarrow> nat \<times> world \<times> HashTable" where
  "dup_elements_rest rs source static_keys with_holes [] target_idx s = (target_idx, s)"
| "dup_elements_rest rs source static_keys with_holes (idx # is) target_idx s =
     (let (copied, w, target) =
        zend_array_dup_element rs source target_idx (arData source ! idx) target_idx False static_keys
          with_holes s
      in if copied then
           dup_elements_rest rs source static_keys with_holes is (target_idx + 1)
             (w, if nInternalPointer source = idx then target\<lparr>nInternalPointer := target_idx\<rparr> else target)
         else dup_elements_rest rs source static_keys with_holes is target_idx (w, target))"

fun zend_array_dup_elements ::
  "refs \<Rightarrow> HashTable \<Rightarrow> bool \<Rightarrow> bool \<Rightarrow> nat list \<Rightarrow> nat \<Rightarrow> world \<times> HashTable \<Rightarrow> nat \<times> world \<times> HashTable" where
  "zend_array_dup_elements rs source static_keys with_holes [] n s = (n, s)"
| "zend_array_dup_elements rs source static_keys with_holes (idx # is) n s =
     (let (copied, s) =
        zend_array_dup_element rs source idx (arData source ! idx) idx False static_keys with_holes s
      in if copied then zend_array_dup_elements rs source static_keys with_holes is (idx + 1) s
         else dup_elements_rest rs source static_keys with_holes is idx s)"

definition pointer_to_first :: "HashTable \<Rightarrow> HashTable res" where
  "pointer_to_first target =
     (if nNumOfElements target > 0 \<and> nInternalPointer target = HT_INVALID_IDX then
        res_bind (first_used (arData target) 0) (\<lambda>idx. Inr (target\<lparr>nInternalPointer := idx\<rparr>))
      else Inr target)"

text \<open>
  \<open>a\<close> is the address of the new structure. The flag word is copied with the iterator count in it;
  the flags of the branches are written out.
\<close>

definition zend_array_dup :: "world \<Rightarrow> refs \<Rightarrow> addr \<Rightarrow> HashTable \<Rightarrow> (world \<times> HashTable) res" where
  "zend_array_dup w rs a source =
     (let target = source\<lparr>ht_addr := a, ht_refcount := 1, ht_immutable := False, ht_persistent := False,
            ht_apply_protection := True, pDestructor := Some ZVAL_PTR_DTOR\<rparr>;
          block = HT_ALLOC target
      in
      if nNumUsed source = 0 then
        Inr (w, target\<lparr>ht_initialized := False, ht_packed := False, nApplyCount := 0, ht_static_keys := True,
          nTableMask := HT_MIN_MASK, nNumUsed := 0, nNumOfElements := 0, nNextFreeElement := 0,
          nInternalPointer := HT_INVALID_IDX, arHash := [HT_INVALID_IDX, HT_INVALID_IDX], arData := []\<rparr>)
      else if ht_immutable source then
        res_bind (pointer_to_first (copy_used (arData source) (block\<lparr>arHash := arHash source\<rparr>)))
          (\<lambda>target. Inr (w, target))
      else if ht_packed source then
        let target = HT_HASH_RESET_PACKED (block\<lparr>nApplyCount := 0\<rparr>);
            (w, target) = zend_array_dup_packed_elements rs source (\<not> HT_IS_WITHOUT_HOLES target)
                            [0..<nNumUsed source] (w, target)
        in res_bind (pointer_to_first target) (\<lambda>target. Inr (w, target))
      else
        let target = HT_HASH_RESET (block\<lparr>nApplyCount := 0\<rparr>);
            (idx, w, target) = zend_array_dup_elements rs source (HT_HAS_STATIC_KEYS_ONLY target)
                                 (\<not> HT_IS_WITHOUT_HOLES source) [0..<nNumUsed source] 0 (w, target);
            target = target\<lparr>nNumUsed := idx, nNumOfElements := idx\<rparr>
        in Inr (w, if idx > 0 \<and> nInternalPointer target = HT_INVALID_IDX
                   then target\<lparr>nInternalPointer := 0\<rparr> else target))"

subsection \<open>Merging\<close>

text \<open>\<open>if (t && pCopyConstructor) pCopyConstructor(t)\<close>.\<close>

definition maybe_ctor :: "copy_ctor_func option \<Rightarrow> zref option \<Rightarrow> world \<times> HashTable \<Rightarrow> world \<times> HashTable" where
  "maybe_ctor f t s = (case (t, f) of (Some r, Some f) \<Rightarrow> call_ctor f r s | _ \<Rightarrow> s)"

definition merge_element ::
  "HashTable \<Rightarrow> copy_ctor_func option \<Rightarrow> bool \<Rightarrow> nat \<Rightarrow> world \<times> HashTable \<Rightarrow> (world \<times> HashTable) res" where
  "merge_element source f overwrite idx = (\<lambda>(w, target).
     let p = arData source ! idx in
     if b_val p = IS_UNDEF then Inr (w, target)
     else if ind_data w (b_val p) = IS_UNDEF then Inr (w, target)
     else
       res_bind (case b_key p of
           Some key \<Rightarrow> zend_hash_add_or_update_i w target key (b_val p)
             (if overwrite then HASH_UPDATE OR HASH_UPDATE_INDIRECT else HASH_ADD OR HASH_UPDATE_INDIRECT)
         | None \<Rightarrow>
             if overwrite then zend_hash_index_update w target (b_h p) (b_val p)
             else zend_hash_index_add w target (b_h p) (b_val p))
         (\<lambda>(t, s). Inr (maybe_ctor f t s)))"

text \<open>The common end of the merges.\<close>

definition reset_pointer :: "HashTable \<Rightarrow> HashTable res" where
  "reset_pointer target =
     (if nNumOfElements target > 0 then
        res_bind (first_used (arData target) 0) (\<lambda>idx. Inr (target\<lparr>nInternalPointer := idx\<rparr>))
      else Inr target)"

definition zend_hash_merge ::
  "world \<Rightarrow> HashTable \<Rightarrow> HashTable \<Rightarrow> copy_ctor_func option \<Rightarrow> bool \<Rightarrow> (world \<times> HashTable) res" where
  "zend_hash_merge w target source pCopyConstructor overwrite =
     res_bind (for_each (merge_element source pCopyConstructor overwrite) [0..<nNumUsed source] (w, target))
       (\<lambda>(w, target). res_bind (reset_pointer target) (\<lambda>target. Inr (w, target)))"

text \<open>
  The checker sees the target, the source value and the key; \<open>pParam\<close> is part of it. A bucket with
  a numeric key is passed on to \<open>zend_hash_update\<close> with the null pointer as key.
\<close>

type_synonym merge_checker_func = "HashTable \<Rightarrow> zval \<Rightarrow> zend_ulong \<times> zend_string option \<Rightarrow> bool"

definition zend_hash_replace_checker_wrapper ::
  "HashTable \<Rightarrow> zval \<Rightarrow> Bucket \<Rightarrow> merge_checker_func \<Rightarrow> bool" where
  "zend_hash_replace_checker_wrapper target source_data p merge_checker_func =
     merge_checker_func target source_data (b_h p, b_key p)"

definition merge_ex_element ::
  "HashTable \<Rightarrow> copy_ctor_func option \<Rightarrow> merge_checker_func \<Rightarrow> nat \<Rightarrow> world \<times> HashTable \<Rightarrow>
   (world \<times> HashTable) res" where
  "merge_ex_element source f pMergeSource idx = (\<lambda>(w, target).
     let p = arData source ! idx in
     if b_val p = IS_UNDEF then Inr (w, target)
     else if zend_hash_replace_checker_wrapper target (b_val p) p pMergeSource then
       res_bind (case b_key p of Some key \<Rightarrow> zend_hash_update w target key (b_val p)
                 | None \<Rightarrow> Inl UB_NULL_POINTER)
         (\<lambda>(t, s). Inr (maybe_ctor f t s))
     else Inr (w, target))"

definition zend_hash_merge_ex ::
  "world \<Rightarrow> HashTable \<Rightarrow> HashTable \<Rightarrow> copy_ctor_func option \<Rightarrow> merge_checker_func \<Rightarrow> (world \<times> HashTable) res" where
  "zend_hash_merge_ex w target source pCopyConstructor pMergeSource =
     res_bind (for_each (merge_ex_element source pCopyConstructor pMergeSource) [0..<nNumUsed source] (w, target))
       (\<lambda>(w, target). res_bind (reset_pointer target) (\<lambda>target. Inr (w, target)))"

subsection \<open>Between symbol and property tables\<close>

text \<open>The address of the new table is a parameter; the old table may get another reference.\<close>

definition addref_array :: "HashTable \<Rightarrow> HashTable" where
  "addref_array ht = (if \<not> ht_immutable ht then ht\<lparr>ht_refcount := ht_refcount ht + 1\<rparr> else ht)"

definition to_proptable_element :: "refs \<Rightarrow> Bucket \<Rightarrow> world \<times> HashTable \<Rightarrow> (world \<times> HashTable) res" where
  "to_proptable_element rs p = (\<lambda>(w, new_ht).
     if b_val p = IS_UNDEF then Inr (w, new_ht)
     else
       let (str_key, w) = (case b_key p of
               Some k \<Rightarrow> (k, w)
             | None \<Rightarrow> let (s, w) = zend_long_to_str (b_h p) w in (s, zend_string_delref s w));
           (zv, es) = zval_add_ref rs (b_val p)
       in res_bind (zend_hash_update (w\<lparr>events := events w @ es\<rparr>) new_ht str_key zv) (\<lambda>(_, s). Inr s))"

definition zend_symtable_to_proptable ::
  "world \<Rightarrow> refs \<Rightarrow> addr \<Rightarrow> HashTable \<Rightarrow> (world \<times> HashTable \<times> HashTable option) res" where
  "zend_symtable_to_proptable w rs a ht =
     (if ht_packed ht \<or>
         list_ex (\<lambda>p. b_val p \<noteq> IS_UNDEF \<and> b_key p = None) (take (nNumUsed ht) (arData ht))
      then
        res_bind (zend_hash_init a (of_nat (nNumOfElements ht)) (Some ZVAL_PTR_DTOR) False) (\<lambda>new_ht.
        res_bind (for_each (to_proptable_element rs) (take (nNumUsed ht) (arData ht)) (w, new_ht))
          (\<lambda>(w, new_ht). Inr (w, ht, Some new_ht)))
      else Inr (w, addref_array ht, None))"

definition to_symtable_element :: "refs \<Rightarrow> Bucket \<Rightarrow> world \<times> HashTable \<Rightarrow> (world \<times> HashTable) res" where
  "to_symtable_element rs p = (\<lambda>(w, new_ht).
     if b_val p = IS_UNDEF then Inr (w, new_ht)
     else
       let (zv, es) = zval_add_ref rs (b_val p); w = w\<lparr>events := events w @ es\<rparr> in
       res_bind (case b_key p of
           None \<Rightarrow> zend_hash_index_update w new_ht (b_h p) zv
         | Some str_key \<Rightarrow>
             ZEND_HANDLE_NUMERIC_STR (zs_val str_key)
               (\<lambda>num_key. zend_hash_index_update w new_ht num_key zv)
               (zend_hash_update w new_ht str_key zv)) (\<lambda>(_, s). Inr s))"

fun any_numeric_key :: "Bucket list \<Rightarrow> bool res" where
  "any_numeric_key [] = Inr False"
| "any_numeric_key (p # ps) =
     (if b_val p = IS_UNDEF then any_numeric_key ps
      else case b_key p of
          None \<Rightarrow> any_numeric_key ps
        | Some str_key \<Rightarrow>
            ZEND_HANDLE_NUMERIC_STR (zs_val str_key) (\<lambda>_. Inr True) (any_numeric_key ps))"

definition zend_proptable_to_symtable ::
  "world \<Rightarrow> refs \<Rightarrow> addr \<Rightarrow> HashTable \<Rightarrow> bool \<Rightarrow> (world \<times> HashTable \<times> HashTable option) res" where
  "zend_proptable_to_symtable w rs a ht always_duplicate =
     res_bind (any_numeric_key (take (nNumUsed ht) (arData ht))) (\<lambda>convert.
       if convert then
         res_bind (zend_hash_init a (of_nat (nNumOfElements ht)) (Some ZVAL_PTR_DTOR) False) (\<lambda>new_ht.
         res_bind (for_each (to_symtable_element rs) (take (nNumUsed ht) (arData ht)) (w, new_ht))
           (\<lambda>(w, new_ht). Inr (w, ht, Some new_ht)))
       else if always_duplicate then
         res_bind (zend_array_dup w rs a ht) (\<lambda>(w, new_ht). Inr (w, ht, Some new_ht))
       else Inr (w, addref_array ht, None))"

subsection \<open>A write followed by the constructor\<close>

lemma AList_update_twice: "AList.update k v (AList.update k v' al) = AList.update k v al"
  by (induction al) auto

lemma call_ctor_written:
  assumes "written w ht k v (Some r, w1, ht1)" "storable (fst (f v))" "call_ctor f r (w1, ht1) = (w2, ht2)"
  shows "written w ht k (fst (f v)) (Some r, w2, ht2)" "events w2 = events w1 @ snd (f v)"
proof -
  obtain i where i: "r = BUCKET i" "key_pos ht1 k = Some i" "b_val (arData ht1 ! i) = v"
      and inv: "ht_inv ht1" "ht_initialized ht1" and e: "ht_entries ht1 = AList.update k v (ht_entries ht)"
      and s: "slots w1 = slots w" "ht_ident ht1 = ht_ident ht"
    using assms(1) by (auto simp: written_def)
  have c: "ht2 = set_val i (fst (f v)) ht1" "w2 = w1\<lparr>events := events w1 @ snd (f v)\<rparr>"
    using assms(3) by (auto simp: call_ctor_def zref_get_def zref_set_def i split_beta Let_def)
  have "slots w2 = slots w1" by (simp add: c)
  from written_set_val [OF inv i(2) assms(2) this]
  show "written w ht k (fst (f v)) (Some r, w2, ht2)"
    using e s by (simp add: written_def c i AList_update_twice)
  show "events w2 = events w1 @ snd (f v)" by (simp add: c)
qed

definition ctor_val :: "copy_ctor_func option \<Rightarrow> zval \<Rightarrow> zval" where
  "ctor_val f v = (case f of None \<Rightarrow> v | Some f \<Rightarrow> fst (f v))"

definition ctor_ok :: "copy_ctor_func option \<Rightarrow> bool" where
  "ctor_ok f \<longleftrightarrow> (\<forall>v. storable v \<longrightarrow> storable (ctor_val f v))"

lemma maybe_ctor_written:
  assumes "written w ht k v (t, w1, ht1)" "ctor_ok f" "storable v" "maybe_ctor f t (w1, ht1) = (w2, ht2)"
  shows "written w ht k (ctor_val f v) (t, w2, ht2)"
proof (cases f)
  case None
  then show ?thesis using assms by (simp add: maybe_ctor_def ctor_val_def split: option.splits)
next
  case (Some g)
  obtain r where r: "t = Some r" using assms(1) by (auto simp: written_def)
  have g: "storable (fst (g v))" using assms(2,3) by (auto simp: ctor_ok_def ctor_val_def Some)
  show ?thesis
    using call_ctor_written(1) [where f = g, OF assms(1) [unfolded r] g] assms(4)
    by (simp add: r Some maybe_ctor_def ctor_val_def)
qed

lemma bucket_update_spec:
  assumes "ht_inv target" "storable data"
  shows "outcome target (written w target (bkey p) data) (bucket_update w target p data)"
proof (cases "b_key p")
  case None
  then show ?thesis
    using outcome_mono [OF zend_hash_index_update_spec [OF assms, of w "b_h p"]]
    by (simp add: bucket_update_def bkey_simps)
next
  case (Some key)
  then show ?thesis
    using outcome_mono [OF zend_hash_update_spec [OF assms, of w key]]
    by (simp add: bucket_update_def bkey_simps)
qed

subsection \<open>Copying writes every element\<close>

text \<open>What a copy takes from a source: the elements whose value, behind a slot, is present.\<close>

definition copy_entry :: "world \<Rightarrow> copy_ctor_func option \<Rightarrow> Bucket \<Rightarrow> (hkey \<times> zval) option" where
  "copy_entry w f p = (let d = ind_data w (b_val p) in
     if b_val p = IS_UNDEF \<or> d = IS_UNDEF then None else Some (bkey p, ctor_val f d))"

definition put_entry :: "(hkey \<times> zval) option \<Rightarrow> (hkey \<times> zval) list \<Rightarrow> (hkey \<times> zval) list" where
  "put_entry e al = (case e of None \<Rightarrow> al | Some (k, v) \<Rightarrow> AList.update k v al)"

definition copyable :: "world \<Rightarrow> HashTable \<Rightarrow> bool" where
  "copyable w ht \<longleftrightarrow> (\<forall>p \<in> set (ht_buckets ht). ind_data w (b_val p) \<noteq> UNINIT)"

lemma no_pointer_inv: "ht_inv ht \<Longrightarrow> ht_inv (ht\<lparr>nInternalPointer := HT_INVALID_IDX\<rparr>)"
  by (rule pointer_inv) (simp_all add: pointer_ok_def)

lemma pointer_same [simp]:
  "ht_entries (ht\<lparr>nInternalPointer := i\<rparr>) = ht_entries ht"
  "ht_buckets (ht\<lparr>nInternalPointer := i\<rparr>) = ht_buckets ht"
  by (simp_all add: ht_entries_alt ht_buckets_def)

text \<open>What every step of a copy into \<open>target\<close> keeps.\<close>

definition step_inv :: "world \<Rightarrow> HashTable \<Rightarrow> world \<times> HashTable \<Rightarrow> bool" where
  "step_inv w target = (\<lambda>(w', ht'). ht_inv ht' \<and> slots w' = slots w \<and> ht_ident ht' = ht_ident target)"

lemma ind_data_slots: "slots w' = slots w \<Longrightarrow> ind_data w' v = ind_data w v"
  by (simp add: ind_data_def split: zval.split)

lemma copy_element_spec:
  assumes ok: "copyable w0 source" "ctor_ok f"
    and i: "i < nNumUsed source" "nNumUsed source \<le> length (arData source)"
    and s: "step_inv w0 t0 (w, target)"
  shows "case copy_element source f stp i (w, target) of
      Inl e \<Rightarrow> e = E_ERROR_MEMORY \<and> table_full target
    | Inr s' \<Rightarrow> step_inv w0 t0 s' \<and>
        st_entries s' = put_entry (copy_entry w0 f (arData source ! i)) (ht_entries target)"
proof -
  let ?p = "arData source ! i"
  have sl: "slots w = slots w0" and inv: "ht_inv target" and idn: "ht_ident target = ht_ident t0"
    using s by (auto simp: step_inv_def)
  have ind: "ind_data w v = ind_data w0 v" for v by (rule ind_data_slots [OF sl])
  show ?thesis
  proof (cases "b_val ?p = IS_UNDEF \<or> ind_data w0 (b_val ?p) = IS_UNDEF")
    case True
    then show ?thesis using s no_pointer_inv [OF inv] idn sl
      by (auto simp: copy_element_def copy_entry_def put_entry_def ind Let_def step_inv_def)
  next
    case False
    have "?p \<in> set (ht_buckets source)"
      using used_bucket_in_set [of i source] i False by (simp add: live_def)
    then have d: "storable (ind_data w0 (b_val ?p))" using ok(1) False by (auto simp: copyable_def storable_def)
    define t1 where "t1 = (if stp \<and> nInternalPointer source = i then target\<lparr>nInternalPointer := HT_INVALID_IDX\<rparr>
        else target)"
    have t1: "ht_inv t1" "ht_entries t1 = ht_entries target" "ht_ident t1 = ht_ident target"
      using inv no_pointer_inv by (auto simp: t1_def)
    note u = bucket_update_spec [OF t1(1) d, of w ?p]
    have unf: "copy_element source f stp i (w, target) =
        res_bind (bucket_update w t1 ?p (ind_data w0 (b_val ?p))) (\<lambda>(new_entry, w, target).
           case (f, new_entry) of
             (Some f, Some r) \<Rightarrow> Inr (call_ctor f r (w, target))
           | (Some f, None) \<Rightarrow> Inl UB_NULL_POINTER
           | (None, _) \<Rightarrow> Inr (w, target))"
      using False by (simp add: copy_element_def ind Let_def t1_def)
    show ?thesis
    proof (cases "bucket_update w t1 ?p (ind_data w0 (b_val ?p))")
      case (Inl e)
      then show ?thesis using u t1(2) unfolding unf by (simp add: table_full_def)
    next
      case (Inr a)
      obtain r w1 ht1 where a: "a = (Some r, w1, ht1)"
        using u Inr by (cases a) (auto simp: written_def)
      have wr: "written w t1 (bkey ?p) (ind_data w0 (b_val ?p)) (Some r, w1, ht1)" using u Inr a by simp
      have run: "copy_element source f stp i (w, target) = Inr (maybe_ctor f (Some r) (w1, ht1))"
        unfolding unf Inr by (simp add: a maybe_ctor_def split: option.split)
      obtain w2 ht2 where m: "maybe_ctor f (Some r) (w1, ht1) = (w2, ht2)" by fastforce
      note wr2 = maybe_ctor_written [OF wr ok(2) d m]
      then show ?thesis unfolding run m using False t1 sl idn
        by (auto simp: written_def step_inv_def copy_entry_def put_entry_def Let_def)
    qed
  qed
qed

definition put_entries :: "(hkey \<times> zval) option list \<Rightarrow> (hkey \<times> zval) list \<Rightarrow> (hkey \<times> zval) list" where
  "put_entries es al = fold put_entry es al"

lemma put_entries_length: "length (put_entries es al) \<le> length al + length es"
proof (induction es arbitrary: al)
  case Nil
  then show ?case by (simp add: put_entries_def)
next
  case (Cons e es)
  have "length (AList.update k v al) \<le> Suc (length al)" for k :: hkey and v :: zval and al
    by (induction al) auto
  then have "length (put_entry e al) \<le> Suc (length al)"
    by (auto simp: put_entry_def split: option.split prod.split)
  then show ?case using Cons [of "put_entry e al"] by (simp add: put_entries_def)
qed

lemma put_entries_live:
  "put_entries (map (copy_entry w f) ps) al = put_entries (map (copy_entry w f) (filter live ps)) al"
  by (induction ps arbitrary: al)
    (auto simp: put_entries_def put_entry_def copy_entry_def live_def Let_def)

lemma first_used_spec:
  assumes "k < length data" "live (data ! k)" "j \<le> k"
  shows "\<exists>i. first_used data j = Inr i \<and> j \<le> i \<and> i \<le> k \<and> live (data ! i)"
  using assms(3)
proof (induction "k - j" arbitrary: j)
  case 0
  then show ?case using assms(1,2) by (simp add: first_used.simps [of data j] live_def)
next
  case (Suc m)
  then have jk: "j < k" by simp
  show ?case
  proof (cases "b_val (data ! j) = IS_UNDEF")
    case True
    have "m = k - (j + 1)" "j + 1 \<le> k" using Suc.hyps(2) by simp_all
    from Suc.hyps(1) [OF this] obtain i where
      "first_used data (j + 1) = Inr i" "j + 1 \<le> i" "i \<le> k" "live (data ! i)" by blast
    moreover have "first_used data j = first_used data (j + 1)"
      using True jk assms(1) by (simp add: first_used.simps [of data j])
    ultimately show ?thesis by auto
  next
    case False
    then show ?thesis using jk assms(1) by (auto simp: first_used.simps [of data j] live_def)
  qed
qed

lemma first_used_table:
  assumes inv: "ht_inv ht" and n: "nNumOfElements ht > 0"
  obtains i where "first_used (arData ht) 0 = Inr i" "ht_inv (ht\<lparr>nInternalPointer := i\<rparr>)" "i \<noteq> HT_INVALID_IDX"
proof -
  have "ht_buckets ht \<noteq> []" using inv n by (auto simp: ht_inv_def contents_ok_def)
  then obtain b where "b \<in> set (ht_buckets ht)" by (cases "ht_buckets ht") auto
  then obtain k where k: "k < nNumUsed ht" "k < length (arData ht)" "live (arData ht ! k)"
    by (auto simp: ht_buckets_def in_set_conv_nth)
  obtain i where i: "first_used (arData ht) 0 = Inr i" "i \<le> k" "live (arData ht ! i)"
    using first_used_spec [OF k(2,3), of 0] by blast
  have "pointer_ok (ht\<lparr>nInternalPointer := i\<rparr>)" using i k by (simp add: pointer_ok_def)
  moreover have "i \<noteq> HT_INVALID_IDX" using i k ht_inv_used_invalid [OF inv] by simp
  ultimately show thesis using that pointer_inv [OF inv] i by blast
qed

lemma st_pointer:
  assumes "step_inv w t (w', ht')" "ht_inv (ht'\<lparr>nInternalPointer := i\<rparr>)"
  shows "step_inv w t (w', ht'\<lparr>nInternalPointer := i\<rparr>)"
  using assms by (simp add: step_inv_def)

text \<open>
  A copy puts every source element into the target, in order, and moves the internal pointer to
  the first element if it has no place. Only a full target makes it fail.
\<close>

lemma zend_hash_copy_spec:
  assumes inv: "ht_inv target" "ht_inv source" and ok: "copyable w source" "ctor_ok f"
  shows "case zend_hash_copy w target source f of
      Inl e \<Rightarrow> e = E_ERROR_MEMORY \<and>
        HT_MAX_SIZE div 2 < length (ht_entries target) + nNumUsed source
    | Inr (w', target') \<Rightarrow> ht_inv target' \<and> slots w' = slots w \<and> ht_ident target' = ht_ident target \<and>
        ht_entries target' = put_entries (map (copy_entry w f) (ht_buckets source)) (ht_entries target) \<and>
        (ht_entries target' \<noteq> [] \<longrightarrow> nInternalPointer target' \<noteq> HT_INVALID_IDX)"
proof -
  let ?ps = "take (nNumUsed source) (arData source)"
  let ?g = "\<lambda>i. put_entry (copy_entry w f (arData source ! i))"
  let ?stp = "nInternalPointer target = HT_INVALID_IDX"
  have len: "nNumUsed source \<le> length (arData source)" by (rule ht_inv_used_le [OF inv(2)])
  have l: "case for_each (copy_element source f ?stp) [0..<nNumUsed source] (w, target) of
      Inl e \<Rightarrow> \<exists>js ks s0. [0..<nNumUsed source] = js @ ks \<and> step_inv w target s0 \<and>
        st_entries s0 = fold ?g js (st_entries (w, target)) \<and> (e = E_ERROR_MEMORY \<and> table_full (snd s0))
    | Inr s' \<Rightarrow> step_inv w target s' \<and> st_entries s' = fold ?g [0..<nNumUsed source] (st_entries (w, target))"
  proof (rule for_each_spec)
    show "step_inv w target (w, target)" using inv by (simp add: step_inv_def)
    fix i s assume "i \<in> set [0..<nNumUsed source]" "step_inv w target s"
    then show "case copy_element source f ?stp i s of Inl e \<Rightarrow> e = E_ERROR_MEMORY \<and> table_full (snd s)
        | Inr s' \<Rightarrow> step_inv w target s' \<and> st_entries s' = ?g i (st_entries s)"
      using copy_element_spec [OF ok _ len, of i target "fst s" "snd s" ?stp] by (cases s) (simp split: sum.splits)
  qed
  have g: "fold ?g js al = put_entries (map (\<lambda>i. copy_entry w f (arData source ! i)) js) al" for js al
    by (simp add: put_entries_def fold_map comp_def)
  have src: "put_entries (map (\<lambda>i. copy_entry w f (arData source ! i)) [0..<nNumUsed source]) al =
      put_entries (map (copy_entry w f) (ht_buckets source)) al" for al
  proof -
    have "map (\<lambda>i. copy_entry w f (arData source ! i)) [0..<nNumUsed source] = map (copy_entry w f) ?ps"
      by (rule nth_equalityI) (use len in auto)
    then show ?thesis unfolding ht_buckets_def by (simp only: put_entries_live [of w f ?ps])
  qed
  show ?thesis
  proof (cases "for_each (copy_element source f ?stp) [0..<nNumUsed source] (w, target)")
    case (Inl e)
    obtain js ks s0 where js: "[0..<nNumUsed source] = js @ ks" "table_full (snd s0)" "e = E_ERROR_MEMORY"
        "st_entries s0 = fold ?g js (ht_entries target)" using l Inl by auto
    have "length js \<le> nNumUsed source" using arg_cong [OF js(1), of length] by simp
    moreover have "length (st_entries s0) \<le> length (ht_entries target) + length js"
      unfolding js(4) g using put_entries_length [of "map (\<lambda>i. copy_entry w f (arData source ! i)) js"] by simp
    ultimately show ?thesis using js Inl by (simp add: zend_hash_copy_def table_full_def)
  next
    case (Inr s')
    obtain w1 t1 where s': "s' = (w1, t1)" by (cases s')
    have st: "step_inv w target (w1, t1)"
      and e: "ht_entries t1 = put_entries (map (copy_entry w f) (ht_buckets source)) (ht_entries target)"
      using l Inr s' by (auto simp: g src)
    have inv1: "ht_inv t1" using st by (simp add: step_inv_def)
    have n1: "nNumOfElements t1 = length (ht_entries t1)" using length_entries [OF inv1] by simp
    show ?thesis
    proof (cases "nInternalPointer t1 = HT_INVALID_IDX \<and> nNumOfElements t1 > 0")
      case True
      obtain i where i: "first_used (arData t1) 0 = Inr i" "ht_inv (t1\<lparr>nInternalPointer := i\<rparr>)"
          "i \<noteq> HT_INVALID_IDX"
        using first_used_table [OF inv1] True by blast
      then show ?thesis using Inr s' True i st e by (simp add: zend_hash_copy_def step_inv_def ht_ident_def)
    next
      case False
      then show ?thesis using Inr s' st e n1 by (auto simp: zend_hash_copy_def step_inv_def)
    qed
  qed
qed

subsection \<open>Counting skips the empty slots\<close>

definition present :: "world \<Rightarrow> zval \<Rightarrow> bool" where
  "present w v \<longleftrightarrow> ind_data w v \<noteq> IS_UNDEF"

lemma recalc_fold:
  "n \<ge> length (filter live ps) \<Longrightarrow>
   fold (\<lambda>p num. case b_val p of IS_UNDEF \<Rightarrow> num
       | IS_INDIRECT a \<Rightarrow> if slots w a = IS_UNDEF then num - 1 else num | _ \<Rightarrow> num) ps n +
     length (filter (\<lambda>p. live p \<and> \<not> present w (b_val p)) ps) = n"
proof (induction ps arbitrary: n)
  case Nil
  then show ?case by simp
next
  case (Cons p ps)
  show ?case
  proof (cases "live p \<and> \<not> present w (b_val p)")
    case True
    then obtain a where a: "b_val p = IS_INDIRECT a" "slots w a = IS_UNDEF"
      by (cases "b_val p") (auto simp: live_def present_def ind_data_def)
    have "length (filter live ps) \<le> n - 1" "0 < n" using Cons.prems True by auto
    then show ?thesis using Cons.IH [of "n - 1"] True a by simp
  next
    case False
    then have "(case b_val p of IS_UNDEF \<Rightarrow> n
       | IS_INDIRECT a \<Rightarrow> if slots w a = IS_UNDEF then n - 1 else n | _ \<Rightarrow> n) = n"
      by (cases "b_val p") (auto simp: live_def present_def ind_data_def)
    moreover have "length (filter live ps) \<le> n" using Cons.prems by (simp split: if_splits)
    ultimately show ?thesis using Cons.IH [of n] False by simp
  qed
qed

lemma zend_array_recalc_elements_spec:
  assumes inv: "ht_inv ht"
  shows "zend_array_recalc_elements w ht = length (filter (present w) (map snd (ht_entries ht)))"
proof -
  let ?ps = "take (nNumUsed ht) (arData ht)"
  have n: "nNumOfElements ht = length (filter live ?ps)"
    using inv by (simp add: ht_inv_def contents_ok_def ht_buckets_def)
  have "zend_array_recalc_elements w ht + length (filter (\<lambda>p. live p \<and> \<not> present w (b_val p)) ?ps)
      = nNumOfElements ht"
    unfolding zend_array_recalc_elements_def by (rule recalc_fold) (simp add: n)
  moreover have "length (filter (\<lambda>p. live p \<and> \<not> present w (b_val p)) ps) +
      length (filter (\<lambda>p. live p \<and> present w (b_val p)) ps) = length (filter live ps)" for ps
    by (induction ps) auto
  moreover have "length (filter (present w) (map snd (ht_entries ht))) =
      length (filter (\<lambda>p. live p \<and> present w (b_val p)) ?ps)"
  proof -
    have "map snd (ht_entries ht) = map b_val (ht_buckets ht)" by (simp add: ht_entries_alt comp_def)
    then show ?thesis by (simp add: ht_buckets_def filter_map comp_def conj_commute)
  qed
  ultimately show ?thesis using n by (metis add.commute add_right_cancel)
qed

subsection \<open>Merging\<close>

text \<open>Without an \<open>IS_INDIRECT\<close> element under the key the \<open>INDIRECT\<close> flag makes no difference.\<close>

lemma no_indirect_flag:
  assumes inv: "ht_inv ht" and no: "\<And>a. map_of (ht_entries ht) (StrKey (zs_val key)) \<noteq> Some (IS_INDIRECT a)"
  shows "zend_hash_add_or_update_i w ht key v (HASH_UPDATE OR HASH_UPDATE_INDIRECT) = zend_hash_update w ht key v"
    "zend_hash_add_or_update_i w ht key v (HASH_ADD OR HASH_UPDATE_INDIRECT) = zend_hash_add w ht key v"
proof -
  have t: "hash_update_found w ht idx v (HASH_UPDATE OR HASH_UPDATE_INDIRECT) = hash_update_found w ht idx v HASH_UPDATE"
    "hash_update_found w ht idx v (HASH_ADD OR HASH_UPDATE_INDIRECT) = hash_update_found w ht idx v HASH_ADD"
    if "zend_hash_find_bucket ht key = Inr (Some idx)" for idx
  proof -
    have "key_pos ht (StrKey (zs_val key)) = Some idx"
      using find_bucket_pos(1) [OF inv, of key] that by simp
    then have "b_val (arData ht ! idx) \<noteq> IS_INDIRECT a" for a
      using no [of a] map_of_key_pos [OF inv, of "StrKey (zs_val key)" idx] by auto
    then show "hash_update_found w ht idx v (HASH_UPDATE OR HASH_UPDATE_INDIRECT) = hash_update_found w ht idx v HASH_UPDATE"
      "hash_update_found w ht idx v (HASH_ADD OR HASH_UPDATE_INDIRECT) = hash_update_found w ht idx v HASH_ADD"
      by (cases "b_val (arData ht ! idx)"; simp add: hash_update_found_def hash_update_target_def hash_masks)+
  qed
  have f: "(HASH_UPDATE OR HASH_UPDATE_INDIRECT) AND HASH_ADD_NEW = 0" "HASH_UPDATE AND HASH_ADD_NEW = 0"
    "(HASH_ADD OR HASH_UPDATE_INDIRECT) AND HASH_ADD_NEW = 0" "HASH_ADD AND HASH_ADD_NEW = 0"
    by (simp_all add: hash_masks)
  show "zend_hash_add_or_update_i w ht key v (HASH_UPDATE OR HASH_UPDATE_INDIRECT) = zend_hash_update w ht key v"
    "zend_hash_add_or_update_i w ht key v (HASH_ADD OR HASH_UPDATE_INDIRECT) = zend_hash_add w ht key v"
    unfolding zend_hash_update_def zend_hash_add_def zend_hash_add_or_update_i_def Let_def
    using t by (cases "zend_hash_find_bucket ht key"; auto simp: f split: option.split)+
qed

text \<open>
  One element of a merge, on the entries of the target and the slots: an empty \<open>INDIRECT\<close> element is
  left out; a new key is appended. Under a string key that is present with an \<open>INDIRECT\<close> element, the
  slot is written, if the merge overwrites or the slot is empty; elsewhere an overwriting merge
  replaces and the other one keeps what is there.
\<close>

definition merge_entry :: "copy_ctor_func option \<Rightarrow> bool \<Rightarrow> hkey \<times> zval \<Rightarrow>
    (hkey \<times> zval) list \<times> (addr \<Rightarrow> zval) \<Rightarrow> (hkey \<times> zval) list \<times> (addr \<Rightarrow> zval)" where
  "merge_entry f overwrite = (\<lambda>(k, v) (al, sl).
     if (case v of IS_INDIRECT b \<Rightarrow> sl b = IS_UNDEF | _ \<Rightarrow> False) then (al, sl)
     else case (k, map_of al k) of
       (_, None) \<Rightarrow> (al @ [(k, ctor_val f v)], sl)
     | (StrKey s, Some (IS_INDIRECT a)) \<Rightarrow>
         if overwrite \<or> sl a = IS_UNDEF then (al, sl(a := ctor_val f v)) else (al, sl)
     | _ \<Rightarrow> if overwrite then (AList.update k (ctor_val f v) al, sl) else (al, sl))"

lemma update_absent: "map_of al k = None \<Longrightarrow> AList.update k v al = al @ [(k, v)]"
  by (induction al) auto

lemma outcome_res_bind:
  assumes "outcome ht P m" "\<And>x. P x \<Longrightarrow> \<exists>y. g x = Inr y \<and> Q y"
  shows "outcome ht Q (res_bind m g)"
  using assms by (cases m) (auto dest!: assms(2))

definition slot_of_key :: "HashTable \<Rightarrow> hkey \<Rightarrow> addr option" where
  "slot_of_key ht k = (case (k, map_of (ht_entries ht) k) of (StrKey s, Some (IS_INDIRECT a)) \<Rightarrow> Some a | _ \<Rightarrow> None)"

definition merge_post :: "world \<Rightarrow> HashTable \<Rightarrow> bool \<Rightarrow> hkey \<Rightarrow> zval \<Rightarrow> zref option \<times> world \<times> HashTable \<Rightarrow> bool" where
  "merge_post w target overwrite k v res \<longleftrightarrow> (case slot_of_key target k of
     Some a \<Rightarrow> if overwrite \<or> slots w a = IS_UNDEF
               then \<exists>w'. res = (Some (SLOT a), w', target) \<and> slots w' = (slots w)(a := v)
               else res = (None, w, target)
   | None \<Rightarrow> if \<not> overwrite \<and> map_of (ht_entries target) k \<noteq> None then res = (None, w, target)
             else written w target k v res)"

lemma slot_of_key_int [simp]: "slot_of_key ht (IntKey h) = None"
  by (simp add: slot_of_key_def)

lemma slot_of_key_iff: "slot_of_key ht (StrKey s) = Some a \<longleftrightarrow> map_of (ht_entries ht) (StrKey s) = Some (IS_INDIRECT a)"
  by (auto simp: slot_of_key_def split: option.split zval.split)

lemma merge_put:
  assumes inv: "ht_inv target" and v: "storable v"
  shows "outcome target (merge_post w target overwrite (bkey p) v)
    (case b_key p of
       Some key \<Rightarrow> zend_hash_add_or_update_i w target key v
         (if overwrite then HASH_UPDATE OR HASH_UPDATE_INDIRECT else HASH_ADD OR HASH_UPDATE_INDIRECT)
     | None \<Rightarrow> if overwrite then zend_hash_index_update w target (b_h p) v
               else zend_hash_index_add w target (b_h p) v)"
proof (cases "b_key p")
  case None
  have "outcome target (index_add_post w target (b_h p) v HASH_ADD) (zend_hash_index_add w target (b_h p) v)"
    unfolding zend_hash_index_add_def
    by (rule zend_hash_index_add_or_update_i_spec [OF inv v]) (simp_all add: no_add_flag next_promise_def)
  note add = outcome_mono [OF this]
  note upd = outcome_mono [OF zend_hash_index_update_spec [OF inv v, of w "b_h p"]]
  show ?thesis
    by (cases overwrite; simp only: None option.case if_True if_False simp_thms bkey_simps(1) [OF None];
      (rule upd | rule add)) (auto simp: index_add_post_def hash_masks merge_post_def)
next
  case (Some key)
  let ?k = "StrKey (zs_val key)"
  show ?thesis
  proof (cases "slot_of_key target ?k")
    case None
    then have "map_of (ht_entries target) ?k \<noteq> Some (IS_INDIRECT a)" for a
      using slot_of_key_iff [of target "zs_val key" a] by auto
    note f = no_indirect_flag [OF inv this, where w = w and v = v]
    have "outcome target (str_add_post w target key v HASH_ADD) (zend_hash_add w target key v)"
      unfolding zend_hash_add_def
      by (rule zend_hash_add_or_update_i_spec [OF inv v]) (simp_all add: no_add_flag)
    note add = outcome_mono [OF this]
    note upd = outcome_mono [OF zend_hash_update_spec [OF inv v, of w key]]
    show ?thesis
      by (cases overwrite; simp only: Some option.case if_True if_False simp_thms bkey_simps(2) [OF Some] f;
        (rule upd | rule add)) (auto simp: str_add_post_def Let_def hash_masks merge_post_def None)
  next
    case a: (Some a)
    then have "map_of (ht_entries target) ?k = Some (IS_INDIRECT a)" by (simp add: slot_of_key_iff)
    note u = update_indirect_spec [OF inv this, where w = w and v = v]
    show ?thesis
      by (cases overwrite) (auto simp: Some bkey_simps(2) [OF Some] u hash_masks merge_post_def a)
  qed
qed

definition merge_inv :: "HashTable \<Rightarrow> world \<times> HashTable \<Rightarrow> bool" where
  "merge_inv t s \<longleftrightarrow> ht_inv (snd s) \<and> ht_ident (snd s) = ht_ident t"

definition merge_view :: "world \<times> HashTable \<Rightarrow> (hkey \<times> zval) list \<times> (addr \<Rightarrow> zval)" where
  "merge_view s = (ht_entries (snd s), slots (fst s))"

lemma merge_post_view:
  assumes p: "merge_post w target overwrite k v (t, w1, t1)" and inv: "ht_inv target"
    and f: "ctor_ok f" "storable v" and m: "maybe_ctor f t (w1, t1) = (w2, t2)"
    and v: "\<And>b. v = IS_INDIRECT b \<Longrightarrow> slots w b \<noteq> IS_UNDEF"
  shows "ht_inv t2 \<and> ht_ident t2 = ht_ident target \<and>
    (ht_entries t2, slots w2) = merge_entry f overwrite (k, v) (ht_entries target, slots w)"
proof -
  have nv: "\<not> (case v of IS_INDIRECT b \<Rightarrow> slots w b = IS_UNDEF | _ \<Rightarrow> False)" using v by (auto split: zval.split)
  show ?thesis
  proof (cases "slot_of_key target k")
    case (Some a)
    then obtain s where k: "k = StrKey s" and e: "map_of (ht_entries target) k = Some (IS_INDIRECT a)"
      by (cases k) (auto simp: slot_of_key_iff)
    show ?thesis
    proof (cases "overwrite \<or> slots w a = IS_UNDEF")
      case True
      then have r: "t = Some (SLOT a)" "t1 = target" "slots w1 = (slots w)(a := v)"
        using p Some by (auto simp: merge_post_def)
      have "t2 = target \<and> slots w2 = (slots w)(a := ctor_val f v)"
        using m r by (cases f) (auto simp: maybe_ctor_def call_ctor_def zref_get_def zref_set_def ctor_val_def split_beta Let_def)
      then show ?thesis using inv True nv k e by (simp add: merge_entry_def)
    next
      case False
      then have "t = None" "w1 = w" "t1 = target" using p Some by (auto simp: merge_post_def)
      then show ?thesis using m inv False nv k e by (simp add: merge_entry_def maybe_ctor_def)
    qed
  next
    case None
    then have ni: "k = StrKey s \<Longrightarrow> map_of (ht_entries target) k \<noteq> Some (IS_INDIRECT a)" for s a
      using slot_of_key_iff [of target s a] by auto
    have me: "merge_entry f overwrite (k, v) (ht_entries target, slots w) =
        (if \<not> overwrite \<and> map_of (ht_entries target) k \<noteq> None then (ht_entries target, slots w)
         else (AList.update k (ctor_val f v) (ht_entries target), slots w))"
      using nv ni by (cases k; cases "map_of (ht_entries target) k")
        (auto simp: merge_entry_def update_absent split: zval.split)
    show ?thesis
    proof (cases "\<not> overwrite \<and> map_of (ht_entries target) k \<noteq> None")
      case True
      then have "t = None" "w1 = w" "t1 = target" using p None by (auto simp: merge_post_def)
      then show ?thesis using m inv True unfolding me by (simp add: maybe_ctor_def)
    next
      case False
      then have "written w target k v (t, w1, t1)" using p None by (auto simp: merge_post_def)
      from maybe_ctor_written [OF this f m] show ?thesis using False me unfolding written_def by auto
    qed
  qed
qed

lemma merge_element_spec:
  assumes src: "ht_inv source" and f: "ctor_ok f" and i: "i < nNumUsed source" and s: "merge_inv t0 (w, target)"
  shows "case merge_element source f overwrite i (w, target) of
      Inl e \<Rightarrow> e = E_ERROR_MEMORY \<and> table_full target
    | Inr s' \<Rightarrow> merge_inv t0 s' \<and> merge_view s' =
        (if live (arData source ! i)
         then merge_entry f overwrite (bkey (arData source ! i), b_val (arData source ! i)) (merge_view (w, target))
         else merge_view (w, target))"
proof -
  let ?p = "arData source ! i"
  have inv: "ht_inv target" and idn: "ht_ident target = ht_ident t0" using s by (auto simp: merge_inv_def)
  have len: "nNumUsed source \<le> length (arData source)" by (rule ht_inv_used_le [OF src(1)])
  show ?thesis
  proof (cases "b_val ?p = IS_UNDEF \<or> ind_data w (b_val ?p) = IS_UNDEF")
    case True
    then have "merge_element source f overwrite i (w, target) = Inr (w, target)"
      by (auto simp: merge_element_def Let_def)
    moreover have "merge_entry f overwrite (bkey ?p, b_val ?p) (merge_view (w, target)) = merge_view (w, target)"
      if "live ?p"
      using True that by (auto simp: live_def ind_data_def merge_entry_def merge_view_def split: zval.splits)
    ultimately show ?thesis using s by simp
  next
    case False
    then have lv: "live ?p" by (simp add: live_def)
    then have b: "?p \<in> set (ht_buckets source)" using used_bucket_in_set [of i source] i len by simp
    then have v: "storable (b_val ?p)"
      using src(1) False by (auto simp: ht_inv_def contents_ok_def bucket_ok_def storable_def)
    define m where "m = (case b_key ?p of
       Some key \<Rightarrow> zend_hash_add_or_update_i w target key (b_val ?p)
         (if overwrite then HASH_UPDATE OR HASH_UPDATE_INDIRECT else HASH_ADD OR HASH_UPDATE_INDIRECT)
     | None \<Rightarrow> if overwrite then zend_hash_index_update w target (b_h ?p) (b_val ?p)
               else zend_hash_index_add w target (b_h ?p) (b_val ?p))"
    have unf: "merge_element source f overwrite i (w, target) = res_bind m (\<lambda>(t, s). Inr (maybe_ctor f t s))"
      using False by (simp add: merge_element_def m_def Let_def)
    note put = merge_put [OF inv v, of w overwrite ?p, folded m_def]
    show ?thesis
    proof (cases m)
      case (Inl e)
      then show ?thesis using put unfolding unf by simp
    next
      case (Inr a)
      obtain t w1 t1 where a: "a = (t, w1, t1)" by (cases a)
      obtain w2 t2 where m2: "maybe_ctor f t (w1, t1) = (w2, t2)" by fastforce
      have "merge_post w target overwrite (bkey ?p) (b_val ?p) (t, w1, t1)" using put Inr a by simp
      moreover have "slots w b \<noteq> IS_UNDEF" if "b_val ?p = IS_INDIRECT b" for b
        using False that by (simp add: ind_data_def)
      ultimately have "ht_inv t2 \<and> ht_ident t2 = ht_ident target \<and>
         (ht_entries t2, slots w2) = merge_entry f overwrite (bkey ?p, b_val ?p) (ht_entries target, slots w)"
        by (rule merge_post_view [OF _ inv f v m2])
      then show ?thesis using Inr a m2 lv idn unfolding unf by (simp add: merge_inv_def merge_view_def)
    qed
  qed
qed

lemma merge_entry_length: "length (fst (merge_entry f ow e s)) \<le> Suc (length (fst s))"
proof -
  have "length (AList.update k v al) \<le> Suc (length al)" for k :: hkey and v :: zval and al
    by (induction al) auto
  then show ?thesis
    by (auto simp: merge_entry_def split: prod.split option.split hkey.split zval.split)
qed

lemma merge_fold_length:
  "length (fst (fold (\<lambda>i s. if P i then merge_entry f ow (h i) s else s) js s)) \<le> length (fst s) + length js"
proof (induction js arbitrary: s)
  case Nil
  then show ?case by simp
next
  case (Cons j js)
  show ?case using Cons [of "if P j then merge_entry f ow (h j) s else s"] merge_entry_length [of f ow "h j" s]
    by (auto split: if_splits)
qed

text \<open>The pointer a merge leaves: the first element.\<close>

definition at_first :: "HashTable \<Rightarrow> bool" where
  "at_first ht \<longleftrightarrow> ht_entries ht \<noteq> [] \<longrightarrow> nInternalPointer ht < nNumUsed ht \<and>
     live (arData ht ! nInternalPointer ht) \<and> (\<forall>k < nInternalPointer ht. \<not> live (arData ht ! k))"

lemma first_used_least: "first_used data j = Inr i \<Longrightarrow> \<forall>k. j \<le> k \<longrightarrow> k < i \<longrightarrow> \<not> live (data ! k)"
proof (induction data j arbitrary: i rule: first_used.induct)
  case (1 data j)
  show ?case
  proof (cases "j < length data \<and> b_val (data ! j) = IS_UNDEF")
    case True
    then have "first_used data (j + 1) = Inr i" using "1.prems" by (simp add: first_used.simps [of data j])
    then have "\<forall>k. j + 1 \<le> k \<longrightarrow> k < i \<longrightarrow> \<not> live (data ! k)" using "1.IH" True by simp
    then show ?thesis using True by (metis Suc_eq_plus1 le_antisym live_def not_less_eq_eq)
  next
    case False
    then show ?thesis using "1.prems" by (auto simp: first_used.simps [of data j] split: if_splits)
  qed
qed


lemma reset_pointer_spec:
  assumes inv: "ht_inv t"
  shows "\<exists>t'. reset_pointer t = Inr t' \<and> ht_inv t' \<and> ht_ident t' = ht_ident t \<and> ht_entries t' = ht_entries t \<and> at_first t'"
proof (cases "nNumOfElements t > 0")
  case False
  then have "ht_entries t = []" using inv by (simp add: ht_inv_def contents_ok_def ht_entries_alt)
  then show ?thesis using False inv by (simp add: reset_pointer_def at_first_def)
next
  case True
  from first_used_table [OF inv True] obtain i where
    i: "first_used (arData t) 0 = Inr i" "ht_inv (t\<lparr>nInternalPointer := i\<rparr>)" "i \<noteq> HT_INVALID_IDX" by blast
  have "pointer_ok (t\<lparr>nInternalPointer := i\<rparr>)" using i(2) by (simp add: ht_inv_def contents_ok_def)
  then have "at_first (t\<lparr>nInternalPointer := i\<rparr>)"
    using first_used_least [OF i(1)] i(3) by (simp add: at_first_def pointer_ok_def)
  then show ?thesis using True i(1,2) by (simp add: reset_pointer_def)
qed

lemma zend_hash_merge_spec:
  assumes inv: "ht_inv target" "ht_inv source" and f: "ctor_ok f"
  shows "case zend_hash_merge w target source f overwrite of
      Inl e \<Rightarrow> e = E_ERROR_MEMORY \<and> HT_MAX_SIZE div 2 < length (ht_entries target) + nNumUsed source
    | Inr (w', target') \<Rightarrow> ht_inv target' \<and> ht_ident target' = ht_ident target \<and> at_first target' \<and>
        (ht_entries target', slots w') = fold (merge_entry f overwrite) (ht_entries source) (ht_entries target, slots w)"
proof -
  let ?D = "arData source"
  let ?g = "\<lambda>i s. if live (?D ! i) then merge_entry f overwrite (bkey (?D ! i), b_val (?D ! i)) s else s"
  have len: "nNumUsed source \<le> length ?D" by (rule ht_inv_used_le [OF inv(2)])
  have l: "case for_each (merge_element source f overwrite) [0..<nNumUsed source] (w, target) of
      Inl e \<Rightarrow> \<exists>js ks s0. [0..<nNumUsed source] = js @ ks \<and> merge_inv target s0 \<and>
        merge_view s0 = fold ?g js (merge_view (w, target)) \<and> (e = E_ERROR_MEMORY \<and> table_full (snd s0))
    | Inr s' \<Rightarrow> merge_inv target s' \<and> merge_view s' = fold ?g [0..<nNumUsed source] (merge_view (w, target))"
  proof (rule for_each_spec)
    show "merge_inv target (w, target)" using inv by (simp add: merge_inv_def)
    fix i s assume "i \<in> set [0..<nNumUsed source]" "merge_inv target s"
    then show "case merge_element source f overwrite i s of Inl e \<Rightarrow> e = E_ERROR_MEMORY \<and> table_full (snd s)
        | Inr s' \<Rightarrow> merge_inv target s' \<and> merge_view s' = ?g i (merge_view s)"
      using merge_element_spec [OF inv(2) f, of i target "fst s" "snd s" overwrite]
      by (auto split: sum.splits)
  qed
  have src: "fold ?g [0..<nNumUsed source] al = fold (merge_entry f overwrite) (ht_entries source) al" for al
  proof -
    have "fold ?g [0..<nNumUsed source] al =
        fold (\<lambda>p al. if live p then merge_entry f overwrite (bkey p, b_val p) al else al)
          (map (\<lambda>i. ?D ! i) [0..<nNumUsed source]) al"
      by (simp add: fold_map comp_def)
    also have "map (\<lambda>i. ?D ! i) [0..<nNumUsed source] = take (nNumUsed source) ?D"
      by (rule nth_equalityI) (use len in auto)
    also have "fold (\<lambda>p al. if live p then merge_entry f overwrite (bkey p, b_val p) al else al) ps al =
        fold (merge_entry f overwrite) (map (\<lambda>b. (bkey b, b_val b)) (filter live ps)) al" for ps al
      by (induction ps arbitrary: al) auto
    finally show ?thesis by (simp add: ht_entries_alt ht_buckets_def)
  qed
  show ?thesis
  proof (cases "for_each (merge_element source f overwrite) [0..<nNumUsed source] (w, target)")
    case (Inl e)
    obtain js ks s0 where js: "[0..<nNumUsed source] = js @ ks" "table_full (snd s0)" "e = E_ERROR_MEMORY"
        "merge_view s0 = fold ?g js (merge_view (w, target))" using l Inl by auto
    have "length js \<le> nNumUsed source" using arg_cong [OF js(1), of length] by simp
    moreover have "length (fst (merge_view s0)) \<le> length (fst (merge_view (w, target))) + length js"
      unfolding js(4) by (rule merge_fold_length)
    ultimately show ?thesis using js Inl by (simp add: zend_hash_merge_def table_full_def merge_view_def)
  next
    case (Inr s')
    obtain w1 t1 where s': "s' = (w1, t1)" by (cases s')
    have st: "ht_inv t1" "ht_ident t1 = ht_ident target"
      and e: "(ht_entries t1, slots w1) = fold (merge_entry f overwrite) (ht_entries source) (ht_entries target, slots w)"
      using l Inr s' by (auto simp: src merge_inv_def merge_view_def)
    from reset_pointer_spec [OF st(1)] obtain t2 where
      "reset_pointer t1 = Inr t2" "ht_inv t2" "ht_ident t2 = ht_ident t1" "ht_entries t2 = ht_entries t1" "at_first t2" by blast
    then show ?thesis using Inr s' e st by (simp add: zend_hash_merge_def)
  qed
qed


end
