(* ===== verification/Zend_Hash_Apply.thy ===== *)
theory Zend_Hash_Apply
  imports Zend_Hash_Destroy
begin

text \<open>
  The loops that walk over the buckets by index and may remove the one they are at:
  \<open>zend_hash_graceful_destroy\<close> and its reverse, \<open>zend_hash_apply\<close> and its variants. The callback
  is a parameter: a function from the element (and its key, for the variant that passes it) to
  the result code and the value it leaves in the element. It does not reach the table otherwise.
\<close>

type_synonym core = "zval \<times> zend_ulong \<times> zend_string option"

definition ZEND_HASH_APPLY_KEEP :: u32 where "ZEND_HASH_APPLY_KEEP = 0"
definition ZEND_HASH_APPLY_REMOVE :: u32 where "ZEND_HASH_APPLY_REMOVE = 1"
definition ZEND_HASH_APPLY_STOP :: u32 where "ZEND_HASH_APPLY_STOP = 2"

subsection \<open>Graceful destruction\<close>

fun graceful_loop :: "nat list \<Rightarrow> world \<times> HashTable \<Rightarrow> (world \<times> HashTable) res" where
  "graceful_loop [] s = Inr s"
| "graceful_loop (idx # is) (w, ht) =
     (if \<not> idx < nNumUsed ht then Inr (w, ht)
      else if b_val (arData ht ! idx) = IS_UNDEF then graceful_loop is (w, ht)
      else res_bind (zend_hash_del_el w ht idx) (graceful_loop is))"

fun graceful_reverse_loop :: "nat \<Rightarrow> world \<times> HashTable \<Rightarrow> (world \<times> HashTable) res" where
  "graceful_reverse_loop 0 s = Inr s"
| "graceful_reverse_loop (Suc idx) (w, ht) =
     (if b_val (arData ht ! idx) = IS_UNDEF then graceful_reverse_loop idx (w, ht)
      else res_bind (zend_hash_del_el w ht idx) (graceful_reverse_loop idx))"

text \<open>The table is left empty, its block freed when there was one.\<close>

definition zend_hash_graceful_destroy :: "world \<Rightarrow> HashTable \<Rightarrow> (world \<times> HashTable \<times> bool) res" where
  "zend_hash_graceful_destroy w ht =
     res_bind (graceful_loop [0..<nNumUsed ht] (w, ht)) (\<lambda>(w, ht). Inr (w, ht, ht_initialized ht))"

definition zend_hash_graceful_reverse_destroy :: "world \<Rightarrow> HashTable \<Rightarrow> (world \<times> HashTable \<times> bool) res" where
  "zend_hash_graceful_reverse_destroy w ht =
     res_bind (graceful_reverse_loop (nNumUsed ht) (w, ht)) (\<lambda>(w, ht). Inr (w, ht, ht_initialized ht))"

subsection \<open>Application of a callback\<close>

definition HASH_PROTECT_RECURSION :: "HashTable \<Rightarrow> HashTable res" where
  "HASH_PROTECT_RECURSION ht =
     (if ht_apply_protection ht then
        if nApplyCount ht \<ge> 3 then Inl E_ERROR_NESTING
        else Inr (ht\<lparr>nApplyCount := nApplyCount ht + 1\<rparr>)
      else Inr ht)"

definition HASH_UNPROTECT_RECURSION :: "HashTable \<Rightarrow> HashTable" where
  "HASH_UNPROTECT_RECURSION ht =
     (if ht_apply_protection ht then ht\<lparr>nApplyCount := nApplyCount ht - 1\<rparr> else ht)"

text \<open>The body of the loops for one index; the flag says whether to stop.\<close>

definition apply_step ::
  "(core \<Rightarrow> u32 \<times> zval) \<Rightarrow> nat \<Rightarrow> world \<times> HashTable \<Rightarrow> (bool \<times> world \<times> HashTable) res" where
  "apply_step f idx = (\<lambda>(w, ht).
     let p = arData ht ! idx in
     if b_val p = IS_UNDEF then Inr (False, w, ht)
     else
       let (result, v) = f (bucket_core p); ht1 = set_val idx v ht in
       res_bind (if result AND ZEND_HASH_APPLY_REMOVE \<noteq> 0 then zend_hash_del_el w ht1 idx else Inr (w, ht1))
         (\<lambda>s. Inr (result AND ZEND_HASH_APPLY_STOP \<noteq> 0, s)))"

fun apply_forward ::
  "(core \<Rightarrow> u32 \<times> zval) \<Rightarrow> nat list \<Rightarrow> world \<times> HashTable \<Rightarrow> (world \<times> HashTable) res" where
  "apply_forward f [] s = Inr s"
| "apply_forward f (idx # is) (w, ht) =
     (if \<not> idx < nNumUsed ht then Inr (w, ht)
      else res_bind (apply_step f idx (w, ht))
             (\<lambda>(stop, s). if stop then Inr s else apply_forward f is s))"

fun apply_reverse ::
  "(core \<Rightarrow> u32 \<times> zval) \<Rightarrow> nat \<Rightarrow> world \<times> HashTable \<Rightarrow> (world \<times> HashTable) res" where
  "apply_reverse f 0 s = Inr s"
| "apply_reverse f (Suc idx) s =
     res_bind (apply_step f idx s) (\<lambda>(stop, s). if stop then Inr s else apply_reverse f idx s)"

definition zend_hash_apply ::
  "world \<Rightarrow> HashTable \<Rightarrow> (zval \<Rightarrow> u32 \<times> zval) \<Rightarrow> (world \<times> HashTable) res" where
  "zend_hash_apply w ht apply_func =
     res_bind (HASH_PROTECT_RECURSION ht) (\<lambda>ht.
       res_bind (apply_forward (\<lambda>(v, h, k). apply_func v) [0..<nNumUsed ht] (w, ht))
         (\<lambda>(w, ht). Inr (w, HASH_UNPROTECT_RECURSION ht)))"

definition zend_hash_apply_with_argument ::
  "world \<Rightarrow> HashTable \<Rightarrow> (zval \<Rightarrow> 'a \<Rightarrow> u32 \<times> zval) \<Rightarrow> 'a \<Rightarrow> (world \<times> HashTable) res" where
  "zend_hash_apply_with_argument w ht apply_func argument =
     res_bind (HASH_PROTECT_RECURSION ht) (\<lambda>ht.
       res_bind (apply_forward (\<lambda>(v, h, k). apply_func v argument) [0..<nNumUsed ht] (w, ht))
         (\<lambda>(w, ht). Inr (w, HASH_UNPROTECT_RECURSION ht)))"

definition zend_hash_apply_with_arguments ::
  "world \<Rightarrow> HashTable \<Rightarrow> (zval \<Rightarrow> 'a \<Rightarrow> zend_ulong \<times> zend_string option \<Rightarrow> u32 \<times> zval) \<Rightarrow> 'a \<Rightarrow>
   (world \<times> HashTable) res" where
  "zend_hash_apply_with_arguments w ht apply_func args =
     res_bind (HASH_PROTECT_RECURSION ht) (\<lambda>ht.
       res_bind (apply_forward (\<lambda>(v, h, k). apply_func v args (h, k)) [0..<nNumUsed ht] (w, ht))
         (\<lambda>(w, ht). Inr (w, HASH_UNPROTECT_RECURSION ht)))"

definition zend_hash_reverse_apply ::
  "world \<Rightarrow> HashTable \<Rightarrow> (zval \<Rightarrow> u32 \<times> zval) \<Rightarrow> (world \<times> HashTable) res" where
  "zend_hash_reverse_apply w ht apply_func =
     res_bind (HASH_PROTECT_RECURSION ht) (\<lambda>ht.
       res_bind (apply_reverse (\<lambda>(v, h, k). apply_func v) (nNumUsed ht) (w, ht))
         (\<lambda>(w, ht). Inr (w, HASH_UNPROTECT_RECURSION ht)))"

subsection \<open>The contents by index\<close>

lemma ht_cores_snap:
  assumes "nNumUsed ht \<le> length (arData ht)" "nNumUsed ht \<le> n"
  shows "ht_cores ht = List.map_filter (snap ht) [0..<n]"
proof -
  have "[0..<n] = [0..<nNumUsed ht] @ [nNumUsed ht..<n]"
    using assms(2) by (metis le_add_diff_inverse upt_add_eq_append zero_le)
  moreover have "List.map_filter (snap ht) [nNumUsed ht..<n] = []"
    by (auto simp: List.map_filter_def snap_def filter_empty_conv)
  moreover have "List.map_filter (snap ht) [0..<m] =
      map bucket_core (filter live (take m (arData ht)))" if "m \<le> nNumUsed ht" for m
    using that assms(1)
  proof (induction m)
    case 0
    then show ?case by (simp add: List.map_filter_def)
  next
    case (Suc m)
    then show ?case
      by (cases "bucket_core (arData ht ! m)") (simp add: List.map_filter_def snap_def filter_take_Suc)
  qed
  ultimately show ?thesis
    by (simp add: ht_cores_def ht_buckets_def List.map_filter_def)
qed

lemma snap_set_val:
  assumes "idx < nNumUsed ht" "nNumUsed ht \<le> length (arData ht)" "live (arData ht ! idx)" "v \<noteq> IS_UNDEF"
  shows "snap (set_val idx v ht) =
    (snap ht)(idx := Some (v, b_h (arData ht ! idx), b_key (arData ht ! idx)))"
proof
  fix k
  show "snap (set_val idx v ht) k =
    ((snap ht)(idx := Some (v, b_h (arData ht ! idx), b_key (arData ht ! idx)))) k"
    using assms set_val_nth [of k ht idx v]
    by (cases "k < nNumUsed ht") (auto simp: snap_def live_def bucket_core_def)
qed

text \<open>
  What the loops keep: the table is sound, the buckets dropped from the used ones are dead, and
  the fields of its identity stay as they are.
\<close>

definition walking :: "HashTable \<Rightarrow> HashTable \<Rightarrow> bool" where
  "walking ht0 ht \<longleftrightarrow> ht_inv ht \<and> ht_ident ht = ht_ident ht0 \<and> nNumUsed ht \<le> nNumUsed ht0 \<and>
     length (arData ht) = length (arData ht0) \<and> nNextFreeElement ht = nNextFreeElement ht0 \<and>
     ht_initialized ht = ht_initialized ht0 \<and> nNumUsed ht0 \<le> length (arData ht0) \<and>
     (\<forall>k. nNumUsed ht \<le> k \<and> k < nNumUsed ht0 \<longrightarrow> \<not> live (arData ht ! k))"

lemma walking_refl: "ht_inv ht \<Longrightarrow> walking ht ht"
  using ht_inv_used_le by (auto simp: walking_def)

lemma walking_inv:
  assumes "walking ht0 ht"
  shows "ht_inv ht" "ht_ident ht = ht_ident ht0" "nNumUsed ht \<le> nNumUsed ht0"
    "nNumUsed ht0 \<le> length (arData ht)"
    "\<And>k. nNumUsed ht \<le> k \<Longrightarrow> k < nNumUsed ht0 \<Longrightarrow> \<not> live (arData ht ! k)"
  using assms by (auto simp: walking_def)

lemma walking_delete:
  assumes w: "walking ht0 ht" and i: "idx < nNumUsed ht" "live (arData ht ! idx)"
  shows "\<exists>w' ht'. zend_hash_del_el w ht idx = Inr (w', ht') \<and> walking ht0 ht' \<and>
     snap ht' = (snap ht)(idx := None) \<and> slots w' = slots w \<and>
     events w' = events w @ bucket_events ht (arData ht ! idx)"
proof -
  note wi = walking_inv [OF w]
  obtain w' ht' where r: "zend_hash_del_el w ht idx = Inr (w', ht')" "del_post w ht idx (w', ht')"
    using zend_hash_del_bucket_spec [OF wi(1) i, of w] by (auto simp: zend_hash_del_bucket_def)
  have ini: "ht_initialized ht" using uninit_empty(1) [OF wi(1)] i by auto
  have "\<not> live (arData ht' ! k)" if k: "nNumUsed ht' \<le> k" "k < nNumUsed ht0" for k
    using k r(2) wi(4) wi(5) [of k] by (cases "k < nNumUsed ht") (auto simp: del_post_def)
  then show ?thesis
    using r w ini by (auto simp: walking_def del_post_def bucket_events_def)
qed

lemma walking_set_val:
  assumes w: "walking ht0 ht" and i: "idx < nNumUsed ht" "live (arData ht ! idx)" and v: "storable v"
  shows "walking ht0 (set_val idx v ht)" "live (arData (set_val idx v ht) ! idx)"
    "snap (set_val idx v ht) = (snap ht)(idx := Some (v, snd (the (snap ht idx))))"
proof -
  note wi = walking_inv [OF w]
  have len: "nNumUsed ht \<le> length (arData ht)" using wi by simp
  show l: "live (arData (set_val idx v ht) ! idx)"
    using i len v by (simp add: set_val_nth live_def storable_def)
  show "walking ht0 (set_val idx v ht)"
    using w set_val_inv(1) [OF wi(1) i v] wi i len
    by (auto simp: walking_def set_val_nth live_def)
  show "snap (set_val idx v ht) = (snap ht)(idx := Some (v, snd (the (snap ht idx))))"
    using snap_set_val [OF i(1) len i(2), of v] v i
    by (simp add: storable_def) (simp add: snap_def bucket_core_def)
qed

text \<open>One step of an apply loop, on the map from indices to contents.\<close>

definition step_core :: "(core \<Rightarrow> u32 \<times> zval) \<Rightarrow> core \<Rightarrow> core option" where
  "step_core f c = (let (result, v) = f c in
     if result AND ZEND_HASH_APPLY_REMOVE \<noteq> 0 then None else Some (v, snd c))"

definition stops :: "(core \<Rightarrow> u32 \<times> zval) \<Rightarrow> core \<Rightarrow> bool" where
  "stops f c \<longleftrightarrow> fst (f c) AND ZEND_HASH_APPLY_STOP \<noteq> 0"

lemma snap_dead: "\<not> live (arData ht ! k) \<Longrightarrow> snap ht k = None"
  by (simp add: snap_def)

lemma apply_step_spec:
  assumes w: "walking ht0 ht" and i: "idx < nNumUsed ht0" and f: "\<forall>c. storable (snd (f c))"
  shows "\<exists>w' ht'. walking ht0 ht' \<and> slots w' = slots w \<and>
     (case snap ht idx of
        None \<Rightarrow> apply_step f idx (w, ht) = Inr (False, w', ht') \<and> snap ht' = snap ht
      | Some c \<Rightarrow> apply_step f idx (w, ht) = Inr (stops f c, w', ht') \<and>
          snap ht' = (snap ht)(idx := step_core f c))"
proof -
  note wi = walking_inv [OF w]
  show ?thesis
  proof (cases "live (arData ht ! idx)")
    case False
    then have "apply_step f idx (w, ht) = Inr (False, w, ht)" by (simp add: apply_step_def live_def)
    with w snap_dead [OF False] show ?thesis by auto
  next
    case True
    then have idx: "idx < nNumUsed ht" using wi(5) [of idx] i by (meson not_less)
    let ?c = "bucket_core (arData ht ! idx)"
    obtain result v where fc: "f ?c = (result, v)" by fastforce
    have v: "storable v" using spec [OF f, of ?c] fc by simp
    note sv = walking_set_val [OF w idx True v]
    have c: "snap ht idx = Some ?c" using idx True by (simp add: snap_def)
    show ?thesis
    proof (cases "result AND ZEND_HASH_APPLY_REMOVE = 0")
      case rem: True
      then have "apply_step f idx (w, ht) = Inr (stops f ?c, w, set_val idx v ht)"
        using True fc by (simp add: apply_step_def live_def Let_def stops_def)
      moreover have "step_core f ?c = Some (v, snd ?c)" using fc rem by (simp add: step_core_def)
      ultimately show ?thesis using sv c by auto
    next
      case rem: False
      have "idx < nNumUsed (set_val idx v ht)" using idx by simp
      from walking_delete [OF sv(1) this sv(2), of w]
      obtain w' ht' where d: "zend_hash_del_el w (set_val idx v ht) idx = Inr (w', ht')" "walking ht0 ht'"
          "snap ht' = (snap (set_val idx v ht))(idx := None)" "slots w' = slots w" by blast
      then have "apply_step f idx (w, ht) = Inr (stops f ?c, w', ht')"
        using True fc rem by (simp add: apply_step_def live_def Let_def stops_def)
      moreover have "step_core f ?c = None" using fc rem by (simp add: step_core_def)
      ultimately show ?thesis using sv c d by auto
    qed
  qed
qed

text \<open>What the loop over a list of indices does to the map.\<close>

fun apply_snap :: "(core \<Rightarrow> u32 \<times> zval) \<Rightarrow> nat list \<Rightarrow> (nat \<Rightarrow> core option) \<Rightarrow> nat \<Rightarrow> core option" where
  "apply_snap f [] m = m"
| "apply_snap f (i # is) m =
     (case m i of None \<Rightarrow> apply_snap f is m
      | Some c \<Rightarrow> if stops f c then m(i := step_core f c)
                  else apply_snap f is (m(i := step_core f c)))"

lemma apply_snap_dead: "\<forall>i \<in> set is. m i = None \<Longrightarrow> apply_snap f is m = m"
  by (induction "is") auto

lemma apply_forward_spec:
  assumes w: "walking ht0 ht" and i: "\<forall>i \<in> set is. i < nNumUsed ht0" "sorted is"
    and f: "\<forall>c. storable (snd (f c))"
  shows "\<exists>w' ht'. apply_forward f is (w, ht) = Inr (w', ht') \<and> walking ht0 ht' \<and>
     slots w' = slots w \<and> snap ht' = apply_snap f is (snap ht)"
  using w i
proof (induction "is" arbitrary: w ht)
  case Nil
  then show ?case by simp
next
  case (Cons i "is")
  show ?case
  proof (cases "i < nNumUsed ht")
    case False
    then have "\<forall>j \<in> set (i # is). snap ht j = None" using Cons.prems(3) by (auto simp: snap_def)
    then have "apply_snap f (i # is) (snap ht) = snap ht" by (rule apply_snap_dead)
    with False Cons.prems show ?thesis by simp
  next
    case True
    from apply_step_spec [OF Cons.prems(1) _ f, of i w] Cons.prems(2)
    obtain w1 ht1 where s: "walking ht0 ht1" "slots w1 = slots w"
      "case snap ht i of
        None \<Rightarrow> apply_step f i (w, ht) = Inr (False, w1, ht1) \<and> snap ht1 = snap ht
      | Some c \<Rightarrow> apply_step f i (w, ht) = Inr (stops f c, w1, ht1) \<and>
          snap ht1 = (snap ht)(i := step_core f c)" by auto
    from Cons.IH [OF s(1), of w1] Cons.prems
    obtain w2 ht2 where r: "apply_forward f is (w1, ht1) = Inr (w2, ht2)" "walking ht0 ht2"
        "slots w2 = slots w1" "snap ht2 = apply_snap f is (snap ht1)" by auto
    show ?thesis
    proof (cases "snap ht i")
      case None
      with s r True show ?thesis by auto
    next
      case (Some c)
      with s r True show ?thesis by (cases "stops f c") auto
    qed
  qed
qed

lemma apply_reverse_spec:
  assumes w: "walking ht0 ht" and n: "n \<le> nNumUsed ht0" and f: "\<forall>c. storable (snd (f c))"
  shows "\<exists>w' ht'. apply_reverse f n (w, ht) = Inr (w', ht') \<and> walking ht0 ht' \<and>
     slots w' = slots w \<and> snap ht' = apply_snap f (rev [0..<n]) (snap ht)"
  using w n
proof (induction n arbitrary: w ht)
  case 0
  then show ?case by simp
next
  case (Suc n)
  from apply_step_spec [OF Suc.prems(1) _ f, of n w] Suc.prems(2)
  obtain w1 ht1 where s: "walking ht0 ht1" "slots w1 = slots w"
    "case snap ht n of
      None \<Rightarrow> apply_step f n (w, ht) = Inr (False, w1, ht1) \<and> snap ht1 = snap ht
    | Some c \<Rightarrow> apply_step f n (w, ht) = Inr (stops f c, w1, ht1) \<and>
        snap ht1 = (snap ht)(n := step_core f c)" by auto
  from Suc.IH [OF s(1), of w1] Suc.prems
  obtain w2 ht2 where r: "apply_reverse f n (w1, ht1) = Inr (w2, ht2)" "walking ht0 ht2"
      "slots w2 = slots w1" "snap ht2 = apply_snap f (rev [0..<n]) (snap ht1)" by auto
  show ?case
  proof (cases "snap ht n")
    case None
    with s r show ?thesis by auto
  next
    case (Some c)
    with s r show ?thesis by (cases "stops f c") auto
  qed
qed

text \<open>The same on the list of elements, in the order of the walk.\<close>

fun apply_cores :: "(core \<Rightarrow> u32 \<times> zval) \<Rightarrow> core list \<Rightarrow> core list" where
  "apply_cores f [] = []"
| "apply_cores f (c # cs) =
     (case step_core f c of None \<Rightarrow> [] | Some c' \<Rightarrow> [c']) @
     (if stops f c then cs else apply_cores f cs)"

lemma map_filter_cong: "(\<And>x. x \<in> set xs \<Longrightarrow> f x = g x) \<Longrightarrow> List.map_filter f xs = List.map_filter g xs"
  by (induction xs) (simp_all add: List.map_filter_def)

lemma apply_snap_other: "i \<notin> set is \<Longrightarrow> apply_snap f is m i = m i"
  by (induction "is" arbitrary: m) (auto split: option.splits)

lemma map_filter_Cons:
  "List.map_filter f (x # xs) = (case f x of None \<Rightarrow> [] | Some y \<Rightarrow> [y]) @ List.map_filter f xs"
  by (simp add: List.map_filter_def split: option.split)

lemma map_filter_snap:
  "distinct is \<Longrightarrow> List.map_filter (apply_snap f is m) is = apply_cores f (List.map_filter m is)"
proof (induction "is" arbitrary: m)
  case Nil
  then show ?case by (simp add: List.map_filter_def)
next
  case (Cons i "is")
  have upd: "List.map_filter (m(i := x)) is = List.map_filter m is" for x
    using Cons.prems by (intro map_filter_cong) auto
  have at_i: "apply_snap f is (m(i := x)) i = x" for x
    using Cons.prems apply_snap_other by simp
  show ?case
  proof (cases "m i")
    case None
    then have "apply_snap f is m i = None" using Cons.prems apply_snap_other by simp
    with None Cons show ?thesis by (simp add: map_filter_Cons)
  next
    case (Some c)
    then show ?thesis
      using Cons at_i upd by (auto simp: map_filter_Cons split: option.split)
  qed
qed

lemma map_filter_rev: "List.map_filter f (rev xs) = rev (List.map_filter f xs)"
  by (simp add: List.map_filter_def rev_map rev_filter)

lemma walking_cores:
  "walking ht0 ht \<Longrightarrow> ht_cores ht = List.map_filter (snap ht) [0..<nNumUsed ht0]"
  using walking_inv [of ht0 ht] by (intro ht_cores_snap) auto

lemma apply_forward_cores:
  assumes inv: "ht_inv ht" and f: "\<forall>c. storable (snd (f c))"
  shows "\<exists>w' ht'. apply_forward f [0..<nNumUsed ht] (w, ht) = Inr (w', ht') \<and> ht_inv ht' \<and>
     ht_ident ht' = ht_ident ht \<and> slots w' = slots w \<and> ht_cores ht' = apply_cores f (ht_cores ht)"
proof -
  have i: "\<forall>i \<in> set [0..<nNumUsed ht]. i < nNumUsed ht" "sorted [0..<nNumUsed ht]" by auto
  obtain w' ht' where r: "apply_forward f [0..<nNumUsed ht] (w, ht) = Inr (w', ht')" "walking ht ht'"
      "slots w' = slots w" "snap ht' = apply_snap f [0..<nNumUsed ht] (snap ht)"
    using apply_forward_spec [OF walking_refl [OF inv] i f, of w] by blast
  have "ht_cores ht' = apply_cores f (ht_cores ht)"
    unfolding walking_cores [OF r(2)] walking_cores [OF walking_refl [OF inv]] r(4)
    by (rule map_filter_snap) simp
  with r walking_inv [OF r(2)] show ?thesis by auto
qed

lemma apply_reverse_cores:
  assumes inv: "ht_inv ht" and f: "\<forall>c. storable (snd (f c))"
  shows "\<exists>w' ht'. apply_reverse f (nNumUsed ht) (w, ht) = Inr (w', ht') \<and> ht_inv ht' \<and>
     ht_ident ht' = ht_ident ht \<and> slots w' = slots w \<and>
     ht_cores ht' = rev (apply_cores f (rev (ht_cores ht)))"
proof -
  obtain w' ht' where r: "apply_reverse f (nNumUsed ht) (w, ht) = Inr (w', ht')" "walking ht ht'"
      "slots w' = slots w" "snap ht' = apply_snap f (rev [0..<nNumUsed ht]) (snap ht)"
    using apply_reverse_spec [OF walking_refl [OF inv] _ f, of "nNumUsed ht" w] by auto
  have "List.map_filter (snap ht') (rev [0..<nNumUsed ht]) =
      apply_cores f (List.map_filter (snap ht) (rev [0..<nNumUsed ht]))"
    unfolding r(4) by (rule map_filter_snap) simp
  then have "rev (ht_cores ht') = apply_cores f (rev (ht_cores ht))"
    unfolding map_filter_rev walking_cores [OF r(2)] walking_cores [OF walking_refl [OF inv]] .
  with r walking_inv [OF r(2)] show ?thesis by (auto simp: rev_swap)
qed

text \<open>Protection against recursion: at most three walks over one table at a time.\<close>

lemma protect_spec:
  "HASH_PROTECT_RECURSION ht = Inl e \<longleftrightarrow> ht_apply_protection ht \<and> 3 \<le> nApplyCount ht \<and> e = E_ERROR_NESTING"
  "HASH_PROTECT_RECURSION ht = Inr ht' \<Longrightarrow>
     ht' = ht\<lparr>nApplyCount := nApplyCount ht + (if ht_apply_protection ht then 1 else 0)\<rparr>"
  by (auto simp: HASH_PROTECT_RECURSION_def split: if_splits)

lemma apply_count_inv:
  "ht_inv (ht\<lparr>nApplyCount := n\<rparr>) = ht_inv ht" "ht_cores (ht\<lparr>nApplyCount := n\<rparr>) = ht_cores ht"
  "ht_buckets (ht\<lparr>nApplyCount := n\<rparr>) = ht_buckets ht"
proof -
  show b: "ht_buckets (ht\<lparr>nApplyCount := n\<rparr>) = ht_buckets ht" by (simp add: ht_buckets_def)
  then show "ht_cores (ht\<lparr>nApplyCount := n\<rparr>) = ht_cores ht" by (simp add: ht_cores_def)
  have "linked (ht\<lparr>nApplyCount := n\<rparr>) m = linked ht m" for m by (rule linked_cong) simp_all
  with b show "ht_inv (ht\<lparr>nApplyCount := n\<rparr>) = ht_inv ht"
    by (simp add: ht_inv_def contents_ok_def uninit_layout_def packed_layout_def hash_layout_def
        hash_area_def pointer_ok_def next_free_ok_def)
qed

text \<open>A protected walk around a loop that keeps the identity of the table.\<close>

lemma protected_walk:
  assumes inv: "ht_inv ht"
    and loop: "\<And>ht. ht_inv ht \<Longrightarrow> \<exists>w' ht'. loop (w, ht) (nNumUsed ht) = Inr (w', ht') \<and> ht_inv ht' \<and>
      ht_ident ht' = ht_ident ht \<and> slots w' = slots w \<and> ht_cores ht' = g (ht_cores ht)"
  shows "case res_bind (HASH_PROTECT_RECURSION ht) (\<lambda>ht. res_bind (loop (w, ht) (nNumUsed ht))
       (\<lambda>(w, ht). Inr (w, HASH_UNPROTECT_RECURSION ht))) of
      Inl e \<Rightarrow> e = E_ERROR_NESTING \<and> ht_apply_protection ht \<and> 3 \<le> nApplyCount ht
    | Inr (w', ht') \<Rightarrow> ht_inv ht' \<and> ht_ident ht' = ht_ident ht \<and> slots w' = slots w \<and>
        ht_cores ht' = g (ht_cores ht)"
proof (cases "HASH_PROTECT_RECURSION ht")
  case (Inl e)
  then show ?thesis using protect_spec(1) [of ht e] by simp
next
  case (Inr ht1)
  note ht1 = protect_spec(2) [OF Inr]
  have inv1: "ht_inv ht1" and c1: "ht_cores ht1 = ht_cores ht"
    using inv by (auto simp: ht1 apply_count_inv)
  from loop [OF inv1] obtain w' ht' where r: "loop (w, ht1) (nNumUsed ht1) = Inr (w', ht')" "ht_inv ht'"
      "ht_ident ht' = ht_ident ht1" "slots w' = slots w" "ht_cores ht' = g (ht_cores ht1)" by blast
  have "ht_ident (HASH_UNPROTECT_RECURSION ht') = ht_ident ht"
    using r(3) by (auto simp: ht1 ht_ident_def HASH_UNPROTECT_RECURSION_def)
  then show ?thesis
    using Inr r c1 by (auto simp: HASH_UNPROTECT_RECURSION_def apply_count_inv)
qed

definition applied ::
  "world \<Rightarrow> HashTable \<Rightarrow> (core list \<Rightarrow> core list) \<Rightarrow> (world \<times> HashTable) res \<Rightarrow> bool" where
  "applied w ht g m \<longleftrightarrow> (case m of
     Inl e \<Rightarrow> e = E_ERROR_NESTING \<and> ht_apply_protection ht \<and> 3 \<le> nApplyCount ht
   | Inr (w', ht') \<Rightarrow> ht_inv ht' \<and> ht_ident ht' = ht_ident ht \<and> slots w' = slots w \<and>
       ht_cores ht' = g (ht_cores ht))"

lemma zend_hash_apply_spec:
  assumes inv: "ht_inv ht" and f: "\<forall>v. storable (snd (f v))"
  shows "applied w ht (apply_cores (\<lambda>(v, h, k). f v)) (zend_hash_apply w ht f)"
  unfolding applied_def zend_hash_apply_def
  by (rule protected_walk [OF inv, where loop = "\<lambda>s n. apply_forward (\<lambda>(v, h, k). f v) [0..<n] s"])
    (rule apply_forward_cores, assumption, use f in auto)

lemma zend_hash_apply_with_argument_spec:
  assumes inv: "ht_inv ht" and f: "\<forall>v. storable (snd (f v a))"
  shows "applied w ht (apply_cores (\<lambda>(v, h, k). f v a)) (zend_hash_apply_with_argument w ht f a)"
  unfolding applied_def zend_hash_apply_with_argument_def
  by (rule protected_walk [OF inv, where loop = "\<lambda>s n. apply_forward (\<lambda>(v, h, k). f v a) [0..<n] s"])
    (rule apply_forward_cores, assumption, use f in auto)

lemma zend_hash_apply_with_arguments_spec:
  assumes inv: "ht_inv ht" and f: "\<forall>v k. storable (snd (f v a k))"
  shows "applied w ht (apply_cores (\<lambda>(v, h, k). f v a (h, k))) (zend_hash_apply_with_arguments w ht f a)"
  unfolding applied_def zend_hash_apply_with_arguments_def
  by (rule protected_walk [OF inv, where loop = "\<lambda>s n. apply_forward (\<lambda>(v, h, k). f v a (h, k)) [0..<n] s"])
    (rule apply_forward_cores, assumption, use f in auto)

lemma zend_hash_reverse_apply_spec:
  assumes inv: "ht_inv ht" and f: "\<forall>v. storable (snd (f v))"
  shows "applied w ht (\<lambda>cs. rev (apply_cores (\<lambda>(v, h, k). f v) (rev cs))) (zend_hash_reverse_apply w ht f)"
  unfolding applied_def zend_hash_reverse_apply_def
  by (rule protected_walk [OF inv, where loop = "\<lambda>s n. apply_reverse (\<lambda>(v, h, k). f v) n s"])
    (rule apply_reverse_cores, assumption, use f in auto)

subsection \<open>Graceful destruction empties the table\<close>

text \<open>The events of the removal of one element.\<close>

definition core_events :: "dtor_func option \<Rightarrow> core \<Rightarrow> event list" where
  "core_events d = (\<lambda>(v, h, k).
     (case k of None \<Rightarrow> [] | Some s \<Rightarrow> if zs_interned s then [] else [Str_Release s]) @
     (case d of None \<Rightarrow> [] | Some d \<Rightarrow> [Dtor d v]))"

lemma bucket_events_core: "bucket_events ht b = core_events (pDestructor ht) (bucket_core b)"
  by (simp add: bucket_events_def core_events_def bucket_core_def)

fun remove_snap :: "nat list \<Rightarrow> (nat \<Rightarrow> core option) \<Rightarrow> nat \<Rightarrow> core option" where
  "remove_snap [] m = m"
| "remove_snap (i # is) m = remove_snap is (m(i := None))"

lemma remove_snap_eq: "remove_snap is m = (\<lambda>k. if k \<in> set is then None else m k)"
  by (induction "is" arbitrary: m) auto

lemma ident_dtor: "ht_ident a = ht_ident b \<Longrightarrow> pDestructor a = pDestructor b"
  by (simp add: ht_ident_def)

lemma walking_dtor: "walking ht0 ht \<Longrightarrow> pDestructor ht = pDestructor ht0"
  by (rule ident_dtor) (simp add: walking_def)

lemma graceful_loop_spec:
  assumes w: "walking ht0 ht" and i: "\<forall>i \<in> set is. i < nNumUsed ht0" "sorted is" "distinct is"
  shows "\<exists>w' ht'. graceful_loop is (w, ht) = Inr (w', ht') \<and> walking ht0 ht' \<and> slots w' = slots w \<and>
     snap ht' = remove_snap is (snap ht) \<and>
     events w' = events w @ concat (map (core_events (pDestructor ht0)) (List.map_filter (snap ht) is))"
  using w i
proof (induction "is" arbitrary: w ht)
  case Nil
  then show ?case by (simp add: List.map_filter_def)
next
  case (Cons i "is")
  note wi = walking_inv [OF Cons.prems(1)]
  have ih: "\<exists>w' ht'. graceful_loop is (w1, ht1) = Inr (w', ht') \<and> walking ht0 ht' \<and> slots w' = slots w1 \<and>
     snap ht' = remove_snap is (snap ht1) \<and>
     events w' = events w1 @ concat (map (core_events (pDestructor ht0)) (List.map_filter (snap ht1) is))"
    if "walking ht0 ht1" for w1 ht1
    using Cons.IH [OF that] Cons.prems by simp
  show ?case
  proof (cases "i < nNumUsed ht")
    case False
    then have none: "\<forall>j \<in> set (i # is). snap ht j = None" using Cons.prems(3) by (auto simp: snap_def)
    then have "remove_snap (i # is) (snap ht) = snap ht" by (auto simp: remove_snap_eq)
    moreover have "List.map_filter (snap ht) (i # is) = []"
      using none by (simp add: List.map_filter_def)
    ultimately show ?thesis using False Cons.prems(1) by simp
  next
    case True
    show ?thesis
    proof (cases "live (arData ht ! i)")
      case False
      then have "snap ht i = None" by (simp add: snap_def)
      moreover from this have "(snap ht)(i := None) = snap ht" by auto
      ultimately show ?thesis
        using ih [OF Cons.prems(1), of w] True False by (simp add: live_def map_filter_Cons)
    next
      case lv: True
      from walking_delete [OF Cons.prems(1) True lv, of w]
      obtain w1 ht1 where d: "zend_hash_del_el w ht i = Inr (w1, ht1)" "walking ht0 ht1"
        "snap ht1 = (snap ht)(i := None)" "slots w1 = slots w"
        "events w1 = events w @ bucket_events ht (arData ht ! i)" by blast
      have rest: "List.map_filter ((snap ht)(i := None)) is = List.map_filter (snap ht) is"
        using Cons.prems(4) by (intro map_filter_cong) auto
      have "snap ht i = Some (bucket_core (arData ht ! i))" using True lv by (simp add: snap_def)
      then show ?thesis
        using ih [OF d(2), of w1] d True lv rest walking_dtor [OF Cons.prems(1)]
        by (auto simp: live_def map_filter_Cons bucket_events_core)
    qed
  qed
qed

lemma graceful_reverse_loop_spec:
  assumes w: "walking ht0 ht" and n: "n \<le> nNumUsed ht0"
  shows "\<exists>w' ht'. graceful_reverse_loop n (w, ht) = Inr (w', ht') \<and> walking ht0 ht' \<and> slots w' = slots w \<and>
     snap ht' = remove_snap (rev [0..<n]) (snap ht) \<and>
     events w' = events w @
       concat (map (core_events (pDestructor ht0)) (List.map_filter (snap ht) (rev [0..<n])))"
  using w n
proof (induction n arbitrary: w ht)
  case 0
  then show ?case by (simp add: List.map_filter_def)
next
  case (Suc n)
  note wi = walking_inv [OF Suc.prems(1)]
  have ih: "\<exists>w' ht'. graceful_reverse_loop n (w1, ht1) = Inr (w', ht') \<and> walking ht0 ht' \<and> slots w' = slots w1 \<and>
     snap ht' = remove_snap (rev [0..<n]) (snap ht1) \<and>
     events w' = events w1 @
       concat (map (core_events (pDestructor ht0)) (List.map_filter (snap ht1) (rev [0..<n])))"
    if "walking ht0 ht1" for w1 ht1
    using Suc.IH [OF that] Suc.prems by simp
  show ?case
  proof (cases "live (arData ht ! n)")
    case False
    then have "snap ht n = None" by (simp add: snap_def)
    moreover from this have "(snap ht)(n := None) = snap ht" by auto
    ultimately show ?thesis
      using ih [OF Suc.prems(1), of w] False by (simp add: live_def map_filter_Cons)
  next
    case lv: True
    then have n: "n < nNumUsed ht" using wi(5) [of n] Suc.prems(2) by (meson not_less Suc_le_lessD)
    from walking_delete [OF Suc.prems(1) n lv, of w]
    obtain w1 ht1 where d: "zend_hash_del_el w ht n = Inr (w1, ht1)" "walking ht0 ht1"
      "snap ht1 = (snap ht)(n := None)" "slots w1 = slots w"
      "events w1 = events w @ bucket_events ht (arData ht ! n)" by blast
    have rest: "List.map_filter ((snap ht)(n := None)) (rev [0..<n]) = List.map_filter (snap ht) (rev [0..<n])"
      by (intro map_filter_cong) auto
    have "snap ht n = Some (bucket_core (arData ht ! n))" using n lv by (simp add: snap_def)
    then show ?thesis
      using ih [OF d(2), of w1] d lv rest walking_dtor [OF Suc.prems(1)]
      by (auto simp: live_def map_filter_Cons bucket_events_core)
  qed
qed

lemma graceful_spec:
  assumes inv: "ht_inv ht"
  shows "\<exists>w' ht'. zend_hash_graceful_destroy w ht = Inr (w', ht', ht_initialized ht) \<and> ht_inv ht' \<and>
      ht_entries ht' = [] \<and> slots w' = slots w \<and>
      events w' = events w @ concat (map (core_events (pDestructor ht)) (ht_cores ht))"
    "\<exists>w' ht'. zend_hash_graceful_reverse_destroy w ht = Inr (w', ht', ht_initialized ht) \<and> ht_inv ht' \<and>
      ht_entries ht' = [] \<and> slots w' = slots w \<and>
      events w' = events w @ concat (map (core_events (pDestructor ht)) (rev (ht_cores ht)))"
proof -
  note wr = walking_refl [OF inv]
  note c = walking_cores [OF wr]
  have empty: "ht_entries ht' = []" if "walking ht ht'" "\<forall>k < nNumUsed ht. snap ht' k = None" for ht'
  proof -
    have "ht_cores ht' = []"
      unfolding walking_cores [OF that(1)] using that(2) by (simp add: List.map_filter_def filter_empty_conv)
    then show ?thesis by (simp add: ht_entries_def)
  qed
  obtain w' ht' where r: "graceful_loop [0..<nNumUsed ht] (w, ht) = Inr (w', ht')" "walking ht ht'"
      "slots w' = slots w" "snap ht' = remove_snap [0..<nNumUsed ht] (snap ht)"
      "events w' = events w @ concat (map (core_events (pDestructor ht)) (ht_cores ht))"
    using graceful_loop_spec [OF wr, of "[0..<nNumUsed ht]" w] c by auto
  have "ht_entries ht' = []" by (rule empty [OF r(2)]) (simp add: r(4) remove_snap_eq)
  then show "\<exists>w' ht'. zend_hash_graceful_destroy w ht = Inr (w', ht', ht_initialized ht) \<and> ht_inv ht' \<and>
      ht_entries ht' = [] \<and> slots w' = slots w \<and>
      events w' = events w @ concat (map (core_events (pDestructor ht)) (ht_cores ht))"
    using r by (simp add: zend_hash_graceful_destroy_def walking_def)
  obtain w2 ht2 where r2: "graceful_reverse_loop (nNumUsed ht) (w, ht) = Inr (w2, ht2)" "walking ht ht2"
      "slots w2 = slots w" "snap ht2 = remove_snap (rev [0..<nNumUsed ht]) (snap ht)"
      "events w2 = events w @ concat (map (core_events (pDestructor ht)) (rev (ht_cores ht)))"
    using graceful_reverse_loop_spec [OF wr, of "nNumUsed ht" w] c by (auto simp: map_filter_rev)
  have "ht_entries ht2 = []" by (rule empty [OF r2(2)]) (simp add: r2(4) remove_snap_eq)
  then show "\<exists>w' ht'. zend_hash_graceful_reverse_destroy w ht = Inr (w', ht', ht_initialized ht) \<and> ht_inv ht' \<and>
      ht_entries ht' = [] \<and> slots w' = slots w \<and>
      events w' = events w @ concat (map (core_events (pDestructor ht)) (rev (ht_cores ht)))"
    using r2 by (simp add: zend_hash_graceful_reverse_destroy_def walking_def)
qed

end
