(* ===== verification/Zend_Array_Dup.thy ===== *)
theory Zend_Array_Dup
  imports Zend_Hash_Copy Zend_Hash_Apply
begin

text \<open>
  What \<open>zend_array_dup\<close> produces: a separate table with the elements of the source in order, without
  the slots that are empty, with sole references replaced by their values and one more reference
  on everything that is counted.
\<close>

subsection \<open>The elements of a duplicate\<close>

text \<open>
  A reference nobody else holds is replaced by its value, unless that is the array itself; and a
  counted value gets one more reference.
\<close>

definition dup_val :: "refs \<Rightarrow> addr \<Rightarrow> zval \<Rightarrow> zval" where
  "dup_val rs self v = (case v of
     IS_REFERENCE r \<Rightarrow> if fst (rs r) = 1 \<and> snd (rs r) \<noteq> IS_ARRAY self then snd (rs r) else v
   | _ \<Rightarrow> v)"

definition addref_events :: "zval \<Rightarrow> event list" where
  "addref_events v = (if zval_refcounted v then [Addref v] else [])"

lemma dup_data_eq: "dup_data rs self v = (dup_val rs self v, addref_events (dup_val rs self v))"
  by (cases v) (auto simp: dup_data_def dup_val_def addref_events_def split: zval.split)

definition dup_source_val :: "world \<Rightarrow> HashTable \<Rightarrow> Bucket \<Rightarrow> zval" where
  "dup_source_val w source p = (if ht_packed source then b_val p else ind_data w (b_val p))"

definition dup_core :: "world \<Rightarrow> refs \<Rightarrow> HashTable \<Rightarrow> Bucket \<Rightarrow> core option" where
  "dup_core w rs source p =
     (if b_val p = IS_UNDEF \<or> dup_source_val w source p = IS_UNDEF then None
      else Some (dup_val rs (ht_addr source) (dup_source_val w source p), b_h p, b_key p))"

definition dup_events :: "world \<Rightarrow> refs \<Rightarrow> HashTable \<Rightarrow> bool \<Rightarrow> Bucket \<Rightarrow> event list" where
  "dup_events w rs source static_keys p =
     (if dup_core w rs source p = None then []
      else addref_events (dup_val rs (ht_addr source) (dup_source_val w source p)) @
        (case b_key p of None \<Rightarrow> []
         | Some s \<Rightarrow> if static_keys \<or> zs_interned s then [] else [Str_Addref s]))"

abbreviation dup_cores :: "world \<Rightarrow> refs \<Rightarrow> HashTable \<Rightarrow> Bucket list \<Rightarrow> core list" where
  "dup_cores w rs source ps \<equiv> List.map_filter (dup_core w rs source) ps"

text \<open>No uninitialised memory behind a slot or a reference.\<close>

definition dup_ok :: "world \<Rightarrow> refs \<Rightarrow> HashTable \<Rightarrow> bool" where
  "dup_ok w rs source \<longleftrightarrow> (\<forall>p \<in> set (ht_buckets source). dup_source_val w source p \<noteq> IS_UNDEF \<longrightarrow>
     storable (dup_val rs (ht_addr source) (dup_source_val w source p)))"

lemma map_filter_append: "List.map_filter f (xs @ ys) = List.map_filter f xs @ List.map_filter f ys"
  by (induction xs) (simp_all add: map_filter_Cons List.map_filter_def)

lemma map_filter_Nil: "List.map_filter f [] = []"
  by (simp add: List.map_filter_def)

lemma dup_core_dead: "\<not> live p \<Longrightarrow> dup_core w rs source p = None"
  by (simp add: dup_core_def live_def)

lemma dup_core_SomeD:
  "dup_core w rs source p = Some c \<Longrightarrow> live p \<and> snd c = (b_h p, b_key p)"
  by (auto simp: dup_core_def live_def split: if_splits)

lemma dup_cores_length: "length (dup_cores w rs source ps) \<le> length ps"
  by (induction ps) (auto simp: map_filter_Cons map_filter_Nil split: option.split)

lemma dup_cores_live: "dup_cores w rs source (filter live ps) = dup_cores w rs source ps"
  by (induction ps) (auto simp: map_filter_Cons dup_core_dead split: option.split)

lemma dup_cores_snd:
  "\<exists>qs. map snd (dup_cores w rs source ps) = map snd (map bucket_core qs) \<and> set qs \<subseteq> set (filter live ps) \<and>
     (distinct (map bkey (filter live ps)) \<longrightarrow> distinct (map bkey qs))"
proof (induction ps)
  case Nil
  show ?case by (rule exI [of _ "[]"]) (simp add: map_filter_Nil)
next
  case (Cons p ps)
  then obtain qs where qs: "map snd (dup_cores w rs source ps) = map snd (map bucket_core qs)"
      "set qs \<subseteq> set (filter live ps)" "distinct (map bkey (filter live ps)) \<longrightarrow> distinct (map bkey qs)" by blast
  show ?case
  proof (cases "dup_core w rs source p")
    case None
    then show ?thesis using qs by (intro exI [of _ qs]) (auto simp: map_filter_Cons)
  next
    case (Some c)
    note c = dup_core_SomeD [OF Some]
    show ?thesis
      by (rule exI [of _ "p # qs"]) (use qs Some c in \<open>auto simp: map_filter_Cons bucket_core_def\<close>)
  qed
qed

subsection \<open>One element into a hash\<close>

definition dup_pushed ::
  "world \<Rightarrow> refs \<Rightarrow> HashTable \<Rightarrow> bool \<Rightarrow> HashTable \<Rightarrow> Bucket list \<Rightarrow> nat \<Rightarrow> world \<times> HashTable \<Rightarrow> bool" where
  "dup_pushed w0 rs source sk t0 ps q = (\<lambda>(w, t).
     slots w = slots w0 \<and> events w = events w0 @ concat (map (dup_events w0 rs source sk) ps) \<and>
     ht_meta t = ht_meta t0 \<and> hash_ready t \<and> linked t q \<and>
     q = length (dup_cores w0 rs source ps) \<and>
     map bucket_core (take q (arData t)) = dup_cores w0 rs source ps \<and> drop q (arData t) = drop q (arData t0))"

lemma dup_element_left_out:
  assumes "dup_core w0 rs source p = None" "\<not> ht_packed source" "wh \<or> live p" "slots w = slots w0"
  shows "zend_array_dup_element rs source idx p q False sk wh (w, t) = (False, w, t)"
proof -
  have i: "ind_data w (b_val p) = ind_data w0 (b_val p)" by (rule ind_data_slots [OF assms(4)])
  have n: "b_val p = IS_UNDEF \<or> ind_data w0 (b_val p) = IS_UNDEF"
    using assms(1,2) by (auto simp: dup_core_def dup_source_val_def split: if_splits)
  then have "ind_data w0 (b_val p) = IS_UNDEF" by (auto simp: ind_data_def)
  moreover have "\<exists>a. b_val p = IS_INDIRECT a" if "\<not> wh"
    using that assms(3) n by (cases "b_val p") (auto simp: live_def ind_data_def)
  ultimately show ?thesis by (simp add: zend_array_dup_element_def i)
qed

lemma dup_element_pushed:
  assumes c: "dup_core w0 rs source p = Some c" "\<not> ht_packed source"
    and s: "dup_pushed w0 rs source sk t0 ps q (w, t)" and q: "q < nTableSize t0"
    and v: "storable (fst c)"
  shows "\<exists>w' t'. zend_array_dup_element rs source q p q False sk wh (w, t) = (True, w', t') \<and>
     dup_pushed w0 rs source sk t0 (ps @ [p]) (q + 1) (w', t') \<and> nInternalPointer t' = nInternalPointer t"
proof -
  have sl: "slots w = slots w0" and st: "ht_meta t = ht_meta t0" "hash_ready t" "linked t q"
      and n: "q = length (dup_cores w0 rs source ps)"
      and d: "map bucket_core (take q (arData t)) = dup_cores w0 rs source ps"
      and ev: "events w = events w0 @ concat (map (dup_events w0 rs source sk) ps)"
      and dr: "drop q (arData t) = drop q (arData t0)"
    using s by (auto simp: dup_pushed_def)
  let ?v = "ind_data w0 (b_val p)" and ?n = "hash_slot (nTableMask t) (b_h p)"
  have i: "ind_data w (b_val p) = ?v" by (rule ind_data_slots [OF sl])
  have pv: "b_val p \<noteq> IS_UNDEF" "?v \<noteq> IS_UNDEF" "c = (dup_val rs (ht_addr source) ?v, b_h p, b_key p)"
      "dup_source_val w0 source p = ?v"
    using c by (auto simp: dup_core_def dup_source_val_def split: if_splits)
  let ?b = "(arData t ! q)\<lparr>b_val := fst c, b_h := b_h p, b_key := b_key p, b_next := arHash t ! ?n\<rparr>"
  let ?t = "t\<lparr>arData := (arData t)[q := ?b], arHash := (arHash t)[?n := q]\<rparr>"
  let ?w1 = "w\<lparr>events := events w @ addref_events (dup_val rs (ht_addr source) ?v)\<rparr>"
  define w' where "w' = (case b_key p of Some key \<Rightarrow> if \<not> sk then zend_string_addref key ?w1 else ?w1 | None \<Rightarrow> ?w1)"
  have run: "zend_array_dup_element rs source q p q False sk wh (w, t) = (True, w', ?t)"
    using pv by (simp add: zend_array_dup_element_def dup_data_eq i Let_def split_beta w'_def)
  have len: "q < length (arData t)" "length (arData t) = nTableSize t"
    using q st(2) ht_metaD(14) [OF st(1)] by (auto simp: hash_ready_def hash_area_def)
  have ready: "hash_ready ?t" using st(2) by (simp add: hash_ready_def hash_area_def)
  have linked: "linked ?t (Suc q)"
    by (rule linked_push [OF st(3) len(1), of ?n ?b])
      (use v hash_ready_slot [OF st(2)] in \<open>simp_all add: live_def storable_def\<close>)
  have core: "map bucket_core (take (q + 1) (arData ?t)) = dup_cores w0 rs source (ps @ [p])"
    using len d c(1) pv(3)
    by (simp add: take_Suc_conv_app_nth map_filter_append map_filter_Cons map_filter_Nil bucket_core_def)
  have ev': "slots w' = slots w0 \<and> events w' = events w0 @ concat (map (dup_events w0 rs source sk) (ps @ [p]))"
    using sl ev c(1) pv(4)
    by (auto simp: w'_def dup_events_def zend_string_addref_def emit_def split: option.split)
  have n': "q + 1 = length (dup_cores w0 rs source (ps @ [p]))"
    using n c(1) by (simp add: map_filter_append map_filter_Cons map_filter_Nil)
  have dr': "drop (q + 1) (arData ?t) = drop (q + 1) (arData t0)"
    using arg_cong [OF dr, of "drop 1"] by simp
  have "dup_pushed w0 rs source sk t0 (ps @ [p]) (q + 1) (w', ?t)"
    using ev' st(1) ready linked core n' dr' by (simp add: dup_pushed_def)
  then show ?thesis using run by (intro exI [of _ w'] exI [of _ ?t]) simp
qed

lemma dup_pushed_skip:
  "dup_core w0 rs source p = None \<Longrightarrow> dup_pushed w0 rs source sk t0 ps q s \<Longrightarrow>
   dup_pushed w0 rs source sk t0 (ps @ [p]) q s"
  by (auto simp: dup_pushed_def map_filter_append map_filter_Cons map_filter_Nil dup_events_def)

lemma dup_pushed_pointer:
  "dup_pushed w0 rs source sk t0 ps q (w, t\<lparr>nInternalPointer := i\<rparr>) = dup_pushed w0 rs source sk t0 ps q (w, t)"
  by (simp add: dup_pushed_def hash_ready_def hash_area_def
      linked_cong [of "t\<lparr>nInternalPointer := i\<rparr>" t])

subsection \<open>The loops\<close>

text \<open>What the loops have in common: the source and the size of the target.\<close>

definition dup_hash :: "world \<Rightarrow> refs \<Rightarrow> HashTable \<Rightarrow> bool \<Rightarrow> HashTable \<Rightarrow> bool" where
  "dup_hash w0 rs source wh t0 \<longleftrightarrow> \<not> ht_packed source \<and> dup_ok w0 rs source \<and>
     nNumUsed source \<le> length (arData source) \<and> nNumUsed source \<le> nTableSize t0 \<and>
     (wh \<or> (\<forall>i < nNumUsed source. live (arData source ! i)))"

lemma dup_hash_storable:
  assumes "dup_hash w0 rs source wh t0" "i < nNumUsed source" "dup_core w0 rs source (arData source ! i) = Some c"
  shows "storable (fst c)"
proof -
  have "arData source ! i \<in> set (ht_buckets source)"
    using used_bucket_in_set [of i source] assms dup_core_SomeD [OF assms(3)] by (simp add: dup_hash_def)
  then show ?thesis using assms(1,3) by (auto simp: dup_hash_def dup_ok_def dup_core_def split: if_splits)
qed

lemma dup_elements_rest_spec:
  assumes h: "dup_hash w0 rs source wh t0"
  shows "i \<le> nNumUsed source \<Longrightarrow> q \<le> i \<Longrightarrow> dup_pushed w0 rs source sk t0 (take i (arData source)) q (w, t) \<Longrightarrow>
    \<exists>q' w' t'. dup_elements_rest rs source sk wh [i..<nNumUsed source] q (w, t) = (q', w', t') \<and>
      dup_pushed w0 rs source sk t0 (take (nNumUsed source) (arData source)) q' (w', t') \<and>
      nInternalPointer t' =
        (if i \<le> nInternalPointer source \<and> nInternalPointer source < nNumUsed source \<and>
            dup_core w0 rs source (arData source ! nInternalPointer source) \<noteq> None
         then length (dup_cores w0 rs source (take (nInternalPointer source) (arData source)))
         else nInternalPointer t)"
proof (induction "nNumUsed source - i" arbitrary: i q w t)
  case 0
  then have "i = nNumUsed source" by simp
  with 0 show ?case by auto
next
  case (Suc m)
  then have i: "i < nNumUsed source" by simp
  then have upt: "[i..<nNumUsed source] = i # [i + 1..<nNumUsed source]" by (simp add: upt_conv_Cons)
  have len: "i < length (arData source)" using h i by (simp add: dup_hash_def)
  have tk: "take (i + 1) (arData source) = take i (arData source) @ [arData source ! i]"
    using len by (simp add: take_Suc_conv_app_nth)
  have m: "m = nNumUsed source - (i + 1)" "i + 1 \<le> nNumUsed source" using Suc.hyps(2) i by simp_all
  have sl: "slots w = slots w0" using Suc.prems(3) by (simp add: dup_pushed_def)
  let ?p = "arData source ! i"
  have np: "\<not> ht_packed source" and wl: "wh \<or> live ?p" using h i by (auto simp: dup_hash_def)
  show ?case
  proof (cases "dup_core w0 rs source ?p")
    case None
    have "dup_elements_rest rs source sk wh [i..<nNumUsed source] q (w, t) =
        dup_elements_rest rs source sk wh [i + 1..<nNumUsed source] q (w, t)"
      by (simp add: upt dup_element_left_out [OF None np wl sl])
    moreover have "dup_pushed w0 rs source sk t0 (take (i + 1) (arData source)) q (w, t)"
      unfolding tk by (rule dup_pushed_skip [OF None Suc.prems(3)])
    moreover have "nInternalPointer source = i \<Longrightarrow>
        dup_core w0 rs source (arData source ! nInternalPointer source) = None" using None by simp
    ultimately show ?thesis using Suc.hyps(1) [OF m, of q w t] Suc.prems(2)
      by (auto simp: Suc_le_eq nat_less_le)
  next
    case (Some c)
    have q: "q < nTableSize t0" using h i Suc.prems(2) by (simp add: dup_hash_def)
    obtain w1 t1 where e: "zend_array_dup_element rs source q ?p q False sk wh (w, t) = (True, w1, t1)"
        "dup_pushed w0 rs source sk t0 (take i (arData source) @ [?p]) (q + 1) (w1, t1)"
        "nInternalPointer t1 = nInternalPointer t"
      using dup_element_pushed [OF Some np Suc.prems(3) q dup_hash_storable [OF h i Some], of wh] by blast
    define t2 where "t2 = (if nInternalPointer source = i then t1\<lparr>nInternalPointer := q\<rparr> else t1)"
    have unf: "dup_elements_rest rs source sk wh [i..<nNumUsed source] q (w, t) =
        dup_elements_rest rs source sk wh [i + 1..<nNumUsed source] (q + 1) (w1, t2)"
      by (simp add: upt e(1) t2_def)
    have p2: "dup_pushed w0 rs source sk t0 (take (i + 1) (arData source)) (q + 1) (w1, t2)"
      unfolding tk using e(2) by (simp add: t2_def dup_pushed_pointer)
    have qn: "q = length (dup_cores w0 rs source (take i (arData source)))"
      using Suc.prems(3) by (simp add: dup_pushed_def)
    have ptr: "nInternalPointer t2 = (if nInternalPointer source = i then q else nInternalPointer t)"
      using e(3) by (simp add: t2_def)
    from Suc.hyps(1) [OF m _ p2] Suc.prems(2) obtain q' w' t' where
      r: "dup_elements_rest rs source sk wh [i + 1..<nNumUsed source] (q + 1) (w1, t2) = (q', w', t')"
        "dup_pushed w0 rs source sk t0 (take (nNumUsed source) (arData source)) q' (w', t')"
        "nInternalPointer t' =
        (if i + 1 \<le> nInternalPointer source \<and> nInternalPointer source < nNumUsed source \<and>
            dup_core w0 rs source (arData source ! nInternalPointer source) \<noteq> None
         then length (dup_cores w0 rs source (take (nInternalPointer source) (arData source)))
         else nInternalPointer t2)" by auto
    have "nInternalPointer t' =
        (if i \<le> nInternalPointer source \<and> nInternalPointer source < nNumUsed source \<and>
            dup_core w0 rs source (arData source ! nInternalPointer source) \<noteq> None
         then length (dup_cores w0 rs source (take (nInternalPointer source) (arData source)))
         else nInternalPointer t)"
      using r(3) ptr qn i Some by (cases "nInternalPointer source = i") (auto simp: Suc_le_eq nat_less_le)
    then show ?thesis using unf r by auto
  qed
qed

lemma dup_cores_prefix:
  assumes "length (dup_cores w rs source (take i D)) = i" "i \<le> length D" "j \<le> i"
  shows "length (dup_cores w rs source (take j D)) = j"
proof -
  have "take i D = take j D @ drop j (take i D)" using assms(3) by (metis append_take_drop_id min.absorb1 take_take)
  then have "length (dup_cores w rs source (take j D)) + length (dup_cores w rs source (drop j (take i D))) = i"
    using assms(1) by (metis length_append map_filter_append)
  moreover have "length (dup_cores w rs source (take j D)) \<le> j"
    using dup_cores_length [of w rs source "take j D"] by simp
  moreover have "length (dup_cores w rs source (drop j (take i D))) \<le> i - j"
    using dup_cores_length [of w rs source "drop j (take i D)"] assms(2,3) by simp
  ultimately show ?thesis using assms(3) by linarith
qed

lemma zend_array_dup_elements_spec:
  assumes h: "dup_hash w0 rs source wh t0"
  shows "i \<le> nNumUsed source \<Longrightarrow> dup_pushed w0 rs source sk t0 (take i (arData source)) i (w, t) \<Longrightarrow>
    nInternalPointer t = nInternalPointer source \<Longrightarrow>
    \<exists>q' w' t'. zend_array_dup_elements rs source sk wh [i..<nNumUsed source] i (w, t) = (q', w', t') \<and>
      dup_pushed w0 rs source sk t0 (take (nNumUsed source) (arData source)) q' (w', t') \<and>
      nInternalPointer t' =
        (if nInternalPointer source < nNumUsed source \<and>
            dup_core w0 rs source (arData source ! nInternalPointer source) \<noteq> None
         then length (dup_cores w0 rs source (take (nInternalPointer source) (arData source)))
         else nInternalPointer source)"
proof (induction "nNumUsed source - i" arbitrary: i w t)
  case 0
  then have "i = nNumUsed source" by simp
  moreover have "length (dup_cores w0 rs source (take i (arData source))) = i"
    using "0.prems"(2) by (simp add: dup_pushed_def)
  ultimately show ?case using 0 dup_cores_prefix [of w0 rs source i "arData source" "nInternalPointer source"] h
    by (auto simp: dup_hash_def)
next
  case (Suc m)
  then have i: "i < nNumUsed source" by simp
  then have upt: "[i..<nNumUsed source] = i # [i + 1..<nNumUsed source]" by (simp add: upt_conv_Cons)
  have len: "i < length (arData source)" using h i by (simp add: dup_hash_def)
  have tk: "take (i + 1) (arData source) = take i (arData source) @ [arData source ! i]"
    using len by (simp add: take_Suc_conv_app_nth)
  have m: "m = nNumUsed source - (i + 1)" "i + 1 \<le> nNumUsed source" using Suc.hyps(2) i by simp_all
  have sl: "slots w = slots w0" and n: "length (dup_cores w0 rs source (take i (arData source))) = i"
    using Suc.prems(2) by (simp_all add: dup_pushed_def)
  let ?p = "arData source ! i"
  have np: "\<not> ht_packed source" and wl: "wh \<or> live ?p" using h i by (auto simp: dup_hash_def)
  show ?case
  proof (cases "dup_core w0 rs source ?p")
    case None
    have "zend_array_dup_elements rs source sk wh [i..<nNumUsed source] i (w, t) =
        dup_elements_rest rs source sk wh [i + 1..<nNumUsed source] i (w, t)"
      by (simp add: upt dup_element_left_out [OF None np wl sl])
    moreover have "dup_pushed w0 rs source sk t0 (take (i + 1) (arData source)) i (w, t)"
      unfolding tk by (rule dup_pushed_skip [OF None Suc.prems(2)])
    note dup_elements_rest_spec [OF h m(2) _ this]
    then obtain q' w' t' where
      r: "dup_elements_rest rs source sk wh [i + 1..<nNumUsed source] i (w, t) = (q', w', t')"
        "dup_pushed w0 rs source sk t0 (take (nNumUsed source) (arData source)) q' (w', t')"
        "nInternalPointer t' =
        (if i + 1 \<le> nInternalPointer source \<and> nInternalPointer source < nNumUsed source \<and>
            dup_core w0 rs source (arData source ! nInternalPointer source) \<noteq> None
         then length (dup_cores w0 rs source (take (nInternalPointer source) (arData source)))
         else nInternalPointer t)" by auto
    have "nInternalPointer t' =
        (if nInternalPointer source < nNumUsed source \<and>
            dup_core w0 rs source (arData source ! nInternalPointer source) \<noteq> None
         then length (dup_cores w0 rs source (take (nInternalPointer source) (arData source)))
         else nInternalPointer source)"
    proof (cases "nInternalPointer source < i")
      case True
      then have "length (dup_cores w0 rs source (take (nInternalPointer source) (arData source))) =
          nInternalPointer source"
        by (intro dup_cores_prefix [OF n]) (use len in auto)
      then show ?thesis using r(3) Suc.prems(3) True by simp
    next
      case False
      then show ?thesis using r(3) Suc.prems(3) None
        by (cases "nInternalPointer source = i") (auto simp: Suc_le_eq nat_less_le)
    qed
    with r calculation show ?thesis by auto
  next
    case (Some c)
    have q: "i < nTableSize t0" using h i by (simp add: dup_hash_def)
    obtain w1 t1 where e: "zend_array_dup_element rs source i ?p i False sk wh (w, t) = (True, w1, t1)"
        "dup_pushed w0 rs source sk t0 (take i (arData source) @ [?p]) (i + 1) (w1, t1)"
        "nInternalPointer t1 = nInternalPointer t"
      using dup_element_pushed [OF Some np Suc.prems(2) q dup_hash_storable [OF h i Some], of wh] by blast
    have unf: "zend_array_dup_elements rs source sk wh [i..<nNumUsed source] i (w, t) =
        zend_array_dup_elements rs source sk wh [i + 1..<nNumUsed source] (i + 1) (w1, t1)"
      by (simp add: upt e(1))
    show ?thesis
      unfolding unf by (rule Suc.hyps(1) [OF m]) (use e tk Suc.prems(3) in simp_all)
  qed
qed

subsection \<open>The contents of a duplicate\<close>

lemma dup_cores_member:
  assumes "c \<in> set (dup_cores w rs source ps)"
  obtains p where "p \<in> set ps" "dup_core w rs source p = Some c"
  using assms by (induction ps) (auto simp: map_filter_Cons map_filter_Nil split: option.splits)

lemma bkey_core: "bkey b = (case snd (bucket_core b) of (h, None) \<Rightarrow> IntKey h | (h, Some s) \<Rightarrow> StrKey (zs_val s))"
  by (cases "b_key b") (simp_all add: bkey_simps bucket_core_def)

lemma dup_contents:
  assumes ok: "contents_ok source" and d: "dup_ok w rs source"
    and c: "ht_cores t = dup_cores w rs source (ht_buckets source)"
    and f: "nTableSize t = nTableSize source" "nNumUsed t \<le> nTableSize t" "nNumOfElements t = length (ht_cores t)"
      "ht_static_keys t \<Longrightarrow> ht_static_keys source" "nNextFreeElement t = nNextFreeElement source" "pointer_ok t"
  shows "contents_ok t"
proof -
  have m: "\<exists>p \<in> set (ht_buckets source). dup_core w rs source p = Some (bucket_core b)"
    if "b \<in> set (ht_buckets t)" for b
  proof -
    have "bucket_core b \<in> set (dup_cores w rs source (ht_buckets source))"
      using that unfolding c [symmetric] by (simp add: ht_cores_def)
    then show ?thesis by (rule dup_cores_member) blast
  qed
  have keys: "distinct (map bkey (ht_buckets t))"
  proof -
    obtain qs where qs: "map snd (dup_cores w rs source (ht_buckets source)) = map snd (map bucket_core qs)"
        "distinct (map bkey (filter live (ht_buckets source))) \<longrightarrow> distinct (map bkey qs)"
      using dup_cores_snd by blast
    have k: "map bkey xs = map (\<lambda>x. case x of (h, None) \<Rightarrow> IntKey h | (h, Some s) \<Rightarrow> StrKey (zs_val s))
        (map snd (map bucket_core xs))" for xs
      by (induction xs) (simp_all add: bkey_core)
    have "map snd (map bucket_core (ht_buckets t)) = map snd (map bucket_core qs)"
      using qs(1) c by (simp add: ht_cores_def)
    then have "map bkey (ht_buckets t) = map bkey qs" by (simp only: k)
    moreover have "filter live (ht_buckets source) = ht_buckets source" by (simp add: ht_buckets_def)
    ultimately show ?thesis using qs(2) ok by (simp add: contents_ok_def)
  qed
  have b: "bucket_ok b \<and> (b_key b = None \<longrightarrow> sint (b_h b) < sint (nNextFreeElement source) \<or>
        nNextFreeElement source = ZEND_LONG_MAX) \<and>
      (ht_static_keys source \<longrightarrow> (\<forall>s. b_key b = Some s \<longrightarrow> zs_interned s))" if mem: "b \<in> set (ht_buckets t)" for b
  proof -
    obtain p where p: "p \<in> set (ht_buckets source)" "dup_core w rs source p = Some (bucket_core b)"
      using bspec [OF _ mem] m [OF mem] by blast
    have e: "b_h b = b_h p" "b_key b = b_key p" using dup_core_SomeD [OF p(2)] by (simp_all add: bucket_core_def)
    have v: "storable (b_val b)"
      using p d by (auto simp: dup_ok_def dup_core_def bucket_core_def split: if_splits)
    have "bucket_ok p" using ok p(1) by (simp add: contents_ok_def)
    then have "bucket_ok b" using v e by (simp add: bucket_ok_def storable_def split: option.splits)
    moreover have "b_key p = None \<longrightarrow> sint (b_h p) < sint (nNextFreeElement source) \<or> nNextFreeElement source = ZEND_LONG_MAX"
      using ok p(1) by (simp add: contents_ok_def next_free_ok_def)
    moreover have "ht_static_keys source \<longrightarrow> (\<forall>s. b_key p = Some s \<longrightarrow> zs_interned s)"
      using ok p(1) by (simp add: contents_ok_def)
    ultimately show ?thesis by (simp add: e)
  qed
  have nf: "next_free_ok t" using b ok by (simp add: next_free_ok_def f(5) contents_ok_def)
  show ?thesis
    using ok f keys b nf by (simp add: contents_ok_def ht_cores_def)
qed

subsection \<open>The packed loop\<close>

lemma dup_packed_elements_spec:
  assumes lay: "ht_packed source" "\<forall>k < nNumUsed source. live (arData source ! k) \<longrightarrow> b_key (arData source ! k) = None"
    and wh: "wh \<or> (\<forall>k < nNumUsed source. live (arData source ! k))"
  shows "i \<le> nNumUsed source \<Longrightarrow> nNumUsed source \<le> length (arData t) \<Longrightarrow>
    \<exists>w' D. zend_array_dup_packed_elements rs source wh [i..<nNumUsed source] (w, t) = (w', t\<lparr>arData := D\<rparr>) \<and>
      length D = length (arData t) \<and> slots w' = slots w \<and>
      events w' = events w @ concat (map (\<lambda>k. dup_events w0 rs source True (arData source ! k)) [i..<nNumUsed source]) \<and>
      (\<forall>k. i \<le> k \<and> k < nNumUsed source \<longrightarrow>
         (case dup_core w0 rs source (arData source ! k) of None \<Rightarrow> \<not> live (D ! k) | Some c \<Rightarrow> bucket_core (D ! k) = c)) \<and>
      (\<forall>k < i. D ! k = arData t ! k)"
proof (induction "nNumUsed source - i" arbitrary: i w t)
  case 0
  then show ?case by (intro exI [of _ w] exI [of _ "arData t"]) auto
next
  case (Suc m)
  then have i: "i < nNumUsed source" by simp
  then have upt: "[i..<nNumUsed source] = i # [i + 1..<nNumUsed source]" by (simp add: upt_conv_Cons)
  have m: "m = nNumUsed source - (i + 1)" "i + 1 \<le> nNumUsed source" using Suc.hyps(2) i by simp_all
  have len: "i < length (arData t)" using Suc.prems i by simp
  let ?p = "arData source ! i"
  have sv: "dup_source_val w0 source ?p = b_val ?p" using lay(1) by (simp add: dup_source_val_def)
  show ?case
  proof (cases "b_val ?p = IS_UNDEF")
    case True
    then have wh': wh using wh i by (auto simp: live_def)
    have none: "dup_core w0 rs source ?p = None" using True by (simp add: dup_core_def)
    define t1 where "t1 = set_val i IS_UNDEF t"
    have unf: "zend_array_dup_packed_elements rs source wh [i..<nNumUsed source] (w, t) =
        zend_array_dup_packed_elements rs source wh [i + 1..<nNumUsed source] (w, t1)"
      using True wh' by (simp add: upt zend_array_dup_element_def t1_def)
    have t1: "nNumUsed source \<le> length (arData t1)" "length (arData t1) = length (arData t)"
        "\<And>D. t1\<lparr>arData := D\<rparr> = t\<lparr>arData := D\<rparr>" "\<not> live (arData t1 ! i)"
        "\<And>k. k < i \<Longrightarrow> arData t1 ! k = arData t ! k"
      using Suc.prems len by (simp_all add: t1_def set_val_def live_def)
    obtain w' D where r: "zend_array_dup_packed_elements rs source wh [i + 1..<nNumUsed source] (w, t1) = (w', t\<lparr>arData := D\<rparr>)"
        "length D = length (arData t1)" "slots w' = slots w"
        "events w' = events w @ concat (map (\<lambda>k. dup_events w0 rs source True (arData source ! k)) [i + 1..<nNumUsed source])"
        "\<forall>k. i + 1 \<le> k \<and> k < nNumUsed source \<longrightarrow>
         (case dup_core w0 rs source (arData source ! k) of None \<Rightarrow> \<not> live (D ! k) | Some c \<Rightarrow> bucket_core (D ! k) = c)"
        "\<forall>k < i + 1. D ! k = arData t1 ! k"
      using Suc.hyps(1) [OF m t1(1), of w] unfolding t1(3) by blast
    have "\<forall>k. i \<le> k \<and> k < nNumUsed source \<longrightarrow>
         (case dup_core w0 rs source (arData source ! k) of None \<Rightarrow> \<not> live (D ! k) | Some c \<Rightarrow> bucket_core (D ! k) = c)"
    proof (intro allI impI)
      fix k assume k: "i \<le> k \<and> k < nNumUsed source"
      show "case dup_core w0 rs source (arData source ! k) of None \<Rightarrow> \<not> live (D ! k) | Some c \<Rightarrow> bucket_core (D ! k) = c"
        using r(5,6) k none t1(4) by (cases "k = i") auto
    qed
    moreover have "events w' = events w @ concat (map (\<lambda>k. dup_events w0 rs source True (arData source ! k)) [i..<nNumUsed source])"
      using r(4) none by (simp add: upt dup_events_def)
    moreover have "\<forall>k < i. D ! k = arData t ! k" using r(6) t1(5) by simp
    ultimately show ?thesis using unf r(1-3) t1(2) by auto
  next
    case False
    let ?dd = "(dup_val rs (ht_addr source) (b_val ?p), addref_events (dup_val rs (ht_addr source) (b_val ?p)))"
    have some: "dup_core w0 rs source ?p = Some (fst ?dd, b_h ?p, b_key ?p)"
      using False by (simp add: dup_core_def sv)
    have key: "b_key ?p = None" using lay(2) i False by (simp add: live_def)
    define w1 where "w1 = w\<lparr>events := events w @ snd ?dd\<rparr>"
    define t1 where "t1 = t\<lparr>arData := (arData t)[i := (arData t ! i)\<lparr>b_val := fst ?dd, b_h := b_h ?p, b_key := None\<rparr>]\<rparr>"
    have unf: "zend_array_dup_packed_elements rs source wh [i..<nNumUsed source] (w, t) =
        zend_array_dup_packed_elements rs source wh [i + 1..<nNumUsed source] (w1, t1)"
      using False by (simp add: upt zend_array_dup_element_def dup_data_eq Let_def split_beta w1_def t1_def)
    have t1: "nNumUsed source \<le> length (arData t1)" "length (arData t1) = length (arData t)"
        "\<And>D. t1\<lparr>arData := D\<rparr> = t\<lparr>arData := D\<rparr>" "bucket_core (arData t1 ! i) = (fst ?dd, b_h ?p, b_key ?p)"
        "\<And>k. k < i \<Longrightarrow> arData t1 ! k = arData t ! k"
      using Suc.prems len key by (simp_all add: t1_def bucket_core_def)
    obtain w' D where r: "zend_array_dup_packed_elements rs source wh [i + 1..<nNumUsed source] (w1, t1) = (w', t\<lparr>arData := D\<rparr>)"
        "length D = length (arData t1)" "slots w' = slots w1"
        "events w' = events w1 @ concat (map (\<lambda>k. dup_events w0 rs source True (arData source ! k)) [i + 1..<nNumUsed source])"
        "\<forall>k. i + 1 \<le> k \<and> k < nNumUsed source \<longrightarrow>
         (case dup_core w0 rs source (arData source ! k) of None \<Rightarrow> \<not> live (D ! k) | Some c \<Rightarrow> bucket_core (D ! k) = c)"
        "\<forall>k < i + 1. D ! k = arData t1 ! k"
      using Suc.hyps(1) [OF m t1(1), of w1] unfolding t1(3) by blast
    have "\<forall>k. i \<le> k \<and> k < nNumUsed source \<longrightarrow>
         (case dup_core w0 rs source (arData source ! k) of None \<Rightarrow> \<not> live (D ! k) | Some c \<Rightarrow> bucket_core (D ! k) = c)"
    proof (intro allI impI)
      fix k assume k: "i \<le> k \<and> k < nNumUsed source"
      show "case dup_core w0 rs source (arData source ! k) of None \<Rightarrow> \<not> live (D ! k) | Some c \<Rightarrow> bucket_core (D ! k) = c"
        using r(5,6) k some t1(4) by (cases "k = i") auto
    qed
    moreover have "events w' = events w @ concat (map (\<lambda>k. dup_events w0 rs source True (arData source ! k)) [i..<nNumUsed source])"
      using r(4) some key by (simp add: upt dup_events_def sv w1_def)
    moreover have "\<forall>k < i. D ! k = arData t ! k" using r(6) t1(5) by simp
    ultimately show ?thesis using unf r(1-3) t1(2) by (auto simp: w1_def)
  qed
qed

subsection \<open>The duplicate as a whole\<close>

text \<open>
  The internal pointer of the copy is right unless the element it is on is left out: then the code
  keeps the index of the source, where the copy may have nothing.
\<close>

definition pointer_kept :: "world \<Rightarrow> refs \<Rightarrow> HashTable \<Rightarrow> bool" where
  "pointer_kept w rs source \<longleftrightarrow> nInternalPointer source = HT_INVALID_IDX \<or>
     dup_core w rs source (arData source ! nInternalPointer source) \<noteq> None"

definition stale_pointer :: "HashTable \<Rightarrow> HashTable \<Rightarrow> bool" where
  "stale_pointer source t \<longleftrightarrow> nInternalPointer t = nInternalPointer source \<and> nNumUsed t = length (ht_cores t) \<and>
     (\<forall>k. nNumUsed t \<le> k \<longrightarrow> k < nTableSize source \<longrightarrow> b_val (arData t ! k) = UNINIT)"

definition duplicated :: "world \<Rightarrow> refs \<Rightarrow> addr \<Rightarrow> HashTable \<Rightarrow> (world \<times> HashTable) res \<Rightarrow> bool" where
  "duplicated w rs a source m \<longleftrightarrow> (\<exists>w' t. m = Inr (w', t) \<and> slots w' = slots w \<and>
     ht_addr t = a \<and> ht_refcount t = 1 \<and> \<not> ht_immutable t \<and> pDestructor t = Some ZVAL_PTR_DTOR \<and>
     ht_cores t = dup_cores w rs source (ht_buckets source) \<and>
     events w' = events w @ concat (map (dup_events w rs source (HT_HAS_STATIC_KEYS_ONLY source)) (ht_buckets source)) \<and>
     ht_inv (t\<lparr>nInternalPointer := HT_INVALID_IDX\<rparr>) \<and> (pointer_kept w rs source \<longrightarrow> ht_inv t) \<and>
     (nNumUsed source \<noteq> 0 \<and> \<not> ht_packed source \<and> \<not> pointer_kept w rs source \<longrightarrow>
       stale_pointer source t))"

lemma pointer_to_first_spec:
  assumes inv: "ht_inv (t\<lparr>nInternalPointer := HT_INVALID_IDX\<rparr>)" and p: "pointer_ok t"
  shows "\<exists>i. pointer_to_first t = Inr (t\<lparr>nInternalPointer := i\<rparr>) \<and> ht_inv (t\<lparr>nInternalPointer := i\<rparr>)"
proof -
  let ?t = "t\<lparr>nInternalPointer := HT_INVALID_IDX\<rparr>"
  show ?thesis
  proof (cases "nNumOfElements t > 0 \<and> nInternalPointer t = HT_INVALID_IDX")
    case True
    then obtain i where i: "first_used (arData ?t) 0 = Inr i" "ht_inv (?t\<lparr>nInternalPointer := i\<rparr>)"
      using first_used_table [OF inv] by auto
    then show ?thesis using True by (intro exI [of _ i]) (simp add: pointer_to_first_def)
  next
    case False
    have "ht_inv (?t\<lparr>nInternalPointer := nInternalPointer t\<rparr>)"
      by (rule pointer_inv [OF inv]) (use p in \<open>simp add: pointer_ok_def\<close>)
    then show ?thesis using False by (intro exI [of _ "nInternalPointer t"]) (auto simp: pointer_to_first_def)
  qed
qed

lemma layout_pointer:
  "uninit_layout (t\<lparr>nInternalPointer := i\<rparr>) = uninit_layout t"
  "packed_layout (t\<lparr>nInternalPointer := i\<rparr>) = packed_layout t"
  "hash_layout (t\<lparr>nInternalPointer := i\<rparr>) = hash_layout t"
  by (simp_all add: uninit_layout_def packed_layout_def hash_layout_def hash_area_def
      linked_cong [of "t\<lparr>nInternalPointer := i\<rparr>" t])

lemma dup_events_live:
  "concat (map (dup_events w rs source sk) (filter live ps)) = concat (map (dup_events w rs source sk) ps)"
  by (induction ps) (auto simp: dup_events_def dup_core_dead)

lemma dup_empty:
  assumes inv: "ht_inv source" and n: "nNumUsed source = 0"
  shows "duplicated w rs a source (zend_array_dup w rs a source)"
proof -
  define t where "t = snd (projr (zend_array_dup w rs a source))"
  have b: "ht_buckets source = []" using n by (rule unused_empty)
  have r: "zend_array_dup w rs a source = Inr (w, t)"
    and f: "ht_addr t = a" "ht_refcount t = 1" "\<not> ht_immutable t" "pDestructor t = Some ZVAL_PTR_DTOR"
      "\<not> ht_initialized t" "\<not> ht_packed t" "nTableMask t = HT_MIN_MASK" "nNumUsed t = 0" "nNumOfElements t = 0"
      "nNextFreeElement t = 0" "nInternalPointer t = HT_INVALID_IDX" "arHash t = [HT_INVALID_IDX, HT_INVALID_IDX]"
      "nTableSize t = nTableSize source"
    using n unfolding t_def zend_array_dup_def Let_def by simp_all
  have bt: "ht_buckets t = []" using f by (simp add: ht_buckets_def)
  have "size_ok (nTableSize source)" using inv by (simp add: ht_inv_def contents_ok_def)
  then have "ht_inv t"
    using f bt by (simp add: ht_inv_def contents_ok_def uninit_layout_def pointer_ok_def next_free_ok_def)
  moreover from this have "ht_inv (t\<lparr>nInternalPointer := HT_INVALID_IDX\<rparr>)" by (rule no_pointer_inv)
  ultimately show ?thesis
    using r f b bt n unfolding duplicated_def by (auto simp: ht_cores_def map_filter_Nil)
qed

lemma dup_packed:
  assumes inv: "ht_inv source" and n: "nNumUsed source \<noteq> 0" and im: "\<not> ht_immutable source"
    and p: "ht_packed source" and d: "dup_ok w rs source"
  shows "duplicated w rs a source (zend_array_dup w rs a source)"
proof -
  have ok: "contents_ok source" using inv by (simp add: ht_inv_def)
  have init: "ht_initialized source" using inv n by (auto simp: ht_inv_def uninit_layout_def split: if_splits)
  have lay: "packed_layout source" using inv init p by (simp add: ht_inv_def)
  let ?N = "nNumUsed source"
  have len: "?N \<le> length (arData source)" by (rule ht_inv_used_le [OF inv])
  have sz: "size_ok (nTableSize source)" "?N \<le> nTableSize source" using ok by (auto simp: contents_ok_def)
  define t0 where "t0 = HT_HASH_RESET_PACKED ((HT_ALLOC (source\<lparr>ht_addr := a, ht_refcount := 1,
      ht_immutable := False, ht_persistent := False, ht_apply_protection := True,
      pDestructor := Some ZVAL_PTR_DTOR\<rparr>))\<lparr>nApplyCount := 0\<rparr>)"
  let ?wh = "\<not> HT_IS_WITHOUT_HOLES t0"
  have f0: "nNumUsed t0 = ?N" "nTableSize t0 = nTableSize source" "nTableMask t0 = HT_MIN_MASK"
      "length (arData t0) = nTableSize source" "nNumOfElements t0 = nNumOfElements source"
      "ht_packed t0" "ht_initialized t0" "nInternalPointer t0 = nInternalPointer source"
      "arHash t0 = [HT_INVALID_IDX, HT_INVALID_IDX]" "nNextFreeElement t0 = nNextFreeElement source"
      "ht_static_keys t0 = ht_static_keys source" "ht_addr t0 = a" "ht_refcount t0 = 1" "\<not> ht_immutable t0"
      "pDestructor t0 = Some ZVAL_PTR_DTOR"
    using p init lay by (simp_all add: t0_def HT_HASH_RESET_PACKED_def HT_ALLOC_def packed_layout_def
        HT_HASH_min_mask numeral_2_eq_2)
  have keys: "\<forall>k < ?N. live (arData source ! k) \<longrightarrow> b_key (arData source ! k) = None"
    using lay by (simp add: packed_layout_def)
  have nh: "?wh \<or> (\<forall>k < ?N. live (arData source ! k))"
  proof (cases ?wh)
    case False
    then have "HT_IS_WITHOUT_HOLES source" using f0 by (simp add: HT_IS_WITHOUT_HOLES_def)
    from without_holes [OF inv this] have s: "take ?N (arData source) = ht_buckets source" .
    have "live (arData source ! k)" if "k < ?N" for k
    proof -
      have "arData source ! k \<in> set (take ?N (arData source))" using that len by (auto simp: in_set_conv_nth)
      then show ?thesis unfolding s by (simp add: ht_buckets_def)
    qed
    then show ?thesis by blast
  qed simp
  obtain w' D where l: "zend_array_dup_packed_elements rs source ?wh [0..<?N] (w, t0) = (w', t0\<lparr>arData := D\<rparr>)"
      "length D = nTableSize source" "slots w' = slots w"
      "events w' = events w @ concat (map (\<lambda>k. dup_events w rs source True (arData source ! k)) [0..<?N])"
      "\<And>k. k < ?N \<Longrightarrow> (case dup_core w rs source (arData source ! k) of None \<Rightarrow> \<not> live (D ! k) | Some c \<Rightarrow> bucket_core (D ! k) = c)"
    using dup_packed_elements_spec [OF p keys nh, of 0 t0 rs w w] f0(4) sz by auto
  define t1 where "t1 = t0\<lparr>arData := D\<rparr>"
  have lv: "live (D ! k) \<longleftrightarrow> dup_core w rs source (arData source ! k) \<noteq> None" if "k < ?N" for k
  proof (cases "dup_core w rs source (arData source ! k)")
    case None
    then show ?thesis using l(5) [OF that] by simp
  next
    case (Some c)
    then have "arData source ! k \<in> set (ht_buckets source)"
      using used_bucket_in_set [of k source] that len dup_core_SomeD [OF Some] by simp
    then have "storable (fst c)" using d Some by (auto simp: dup_ok_def dup_core_def split: if_splits)
    then show ?thesis using l(5) [OF that] Some by (auto simp: bucket_core_def live_def storable_def)
  qed
  have cores: "map bucket_core (filter live (take j D)) = dup_cores w rs source (take j (arData source))" if "j \<le> ?N" for j
    using that
  proof (induction j)
    case 0
    then show ?case by (simp add: map_filter_Nil)
  next
    case (Suc j)
    then have j: "j < ?N" "j < length D" "j < length (arData source)" using l(2) sz len by auto
    show ?case using Suc.IH j(1) lv [OF j(1)] l(5) [OF j(1)] j
      by (auto simp: take_Suc_conv_app_nth map_filter_append map_filter_Cons map_filter_Nil split: option.splits)
  qed
  have ct: "ht_cores t1 = dup_cores w rs source (ht_buckets source)"
    using cores [of ?N] f0(1) by (simp add: t1_def ht_cores_def ht_buckets_def dup_cores_live)
  have sv: "dup_core w rs source q \<noteq> None" if "live q" for q
    using that p by (simp add: dup_core_def dup_source_val_def live_def)
  have "length (dup_cores w rs source ps) = length (filter live ps)" for ps
  proof (induction ps)
    case Nil
    then show ?case by (simp add: map_filter_Nil)
  next
    case (Cons q ps)
    then show ?case using sv [of q] by (auto simp: map_filter_Cons dup_core_dead split: option.split)
  qed
  then have "length (ht_cores t1) = nNumOfElements t1"
    using ok f0(5) unfolding ct by (simp add: t1_def contents_ok_def ht_buckets_def)
  then have nel: "nNumOfElements t1 = length (ht_cores t1)" by simp
  have ptr: "pointer_ok t1"
    using ok lv sv f0(1,8) by (auto simp: contents_ok_def pointer_ok_def t1_def)
  have okt: "contents_ok t1"
    by (rule dup_contents [OF ok d ct]) (use f0 sz nel ptr in \<open>simp_all add: t1_def\<close>)
  have layt: "packed_layout t1"
  proof -
    have "b_key (D ! k) = None \<and> b_h (D ! k) = of_nat k" if k: "k < ?N" "live (D ! k)" for k
    proof -
      obtain c where c: "dup_core w rs source (arData source ! k) = Some c" using lv k by blast
      note dc = dup_core_SomeD [OF c]
      have "bucket_core (D ! k) = c" using l(5) [OF k(1)] c by simp
      then have "b_h (D ! k) = b_h (arData source ! k) \<and> b_key (D ! k) = b_key (arData source ! k)"
        using dc by (auto simp: bucket_core_def)
      then show ?thesis using lay dc k(1) by (simp add: packed_layout_def)
    qed
    then show ?thesis using f0 l(2) by (simp add: packed_layout_def t1_def)
  qed
  have invt: "ht_inv t1" using okt layt f0 by (simp add: ht_inv_def t1_def)
  obtain i where i: "pointer_to_first t1 = Inr (t1\<lparr>nInternalPointer := i\<rparr>)" "ht_inv (t1\<lparr>nInternalPointer := i\<rparr>)"
    using pointer_to_first_spec [OF no_pointer_inv [OF invt] ptr] by blast
  have run: "zend_array_dup w rs a source = Inr (w', t1\<lparr>nInternalPointer := i\<rparr>)"
    using n im p l(1) i(1) unfolding zend_array_dup_def Let_def t0_def [symmetric]
    by (simp add: t1_def)
  have ev: "concat (map (\<lambda>k. dup_events w rs source True (arData source ! k)) [0..<?N]) =
      concat (map (dup_events w rs source (HT_HAS_STATIC_KEYS_ONLY source)) (ht_buckets source))"
  proof -
    have "map (\<lambda>k. dup_events w rs source True (arData source ! k)) [0..<?N] =
        map (dup_events w rs source True) (take ?N (arData source))"
      by (rule nth_equalityI) (use len in auto)
    then show ?thesis using p dup_events_live by (simp add: ht_buckets_def HT_HAS_STATIC_KEYS_ONLY_def)
  qed
  have "ht_inv ((t1\<lparr>nInternalPointer := i\<rparr>)\<lparr>nInternalPointer := HT_INVALID_IDX\<rparr>)" by (rule no_pointer_inv [OF i(2)])
  then show ?thesis
    unfolding duplicated_def run using l(3,4) ev i(2) ct f0 p
    by (intro exI [of _ w'] exI [of _ "t1\<lparr>nInternalPointer := i\<rparr>"]) (simp add: ht_cores_def t1_def)
qed

lemma dup_hashed:
  assumes inv: "ht_inv source" and n: "nNumUsed source \<noteq> 0" and im: "\<not> ht_immutable source"
    and p: "\<not> ht_packed source" and d: "dup_ok w rs source"
  shows "duplicated w rs a source (zend_array_dup w rs a source)"
proof -
  have ok: "contents_ok source" using inv by (simp add: ht_inv_def)
  have init: "ht_initialized source" using inv n by (auto simp: ht_inv_def uninit_layout_def split: if_splits)
  have lay: "hash_layout source" using inv init p by (simp add: ht_inv_def)
  let ?N = "nNumUsed source" and ?P = "nInternalPointer source"
  have len: "?N \<le> length (arData source)" by (rule ht_inv_used_le [OF inv])
  have sz: "size_ok (nTableSize source)" "?N \<le> nTableSize source" using ok by (auto simp: contents_ok_def)
  define t0 where "t0 = HT_HASH_RESET ((HT_ALLOC (source\<lparr>ht_addr := a, ht_refcount := 1,
      ht_immutable := False, ht_persistent := False, ht_apply_protection := True,
      pDestructor := Some ZVAL_PTR_DTOR\<rparr>))\<lparr>nApplyCount := 0\<rparr>)"
  have area: "hash_area source" using lay by (simp add: hash_layout_def)
  have f0: "nTableSize t0 = nTableSize source" "nInternalPointer t0 = ?P" "ht_initialized t0" "\<not> ht_packed t0"
      "nNextFreeElement t0 = nNextFreeElement source" "ht_static_keys t0 = ht_static_keys source" "ht_addr t0 = a"
      "ht_refcount t0 = 1" "\<not> ht_immutable t0" "pDestructor t0 = Some ZVAL_PTR_DTOR"
      "length (arData t0) = nTableSize source"
    using p init by (simp_all add: t0_def HT_HASH_RESET_def HT_ALLOC_def)
  have ready: "hash_ready t0"
    unfolding t0_def by (rule hash_ready_reset) (use area in \<open>simp add: hash_area_def HT_ALLOC_def\<close>)
  have linked0: "linked t0 0" unfolding t0_def by (rule linked_0)
  let ?sk = "HT_HAS_STATIC_KEYS_ONLY t0" and ?wh = "\<not> HT_IS_WITHOUT_HOLES source"
  have sk: "?sk = HT_HAS_STATIC_KEYS_ONLY source" using f0 p by (simp add: HT_HAS_STATIC_KEYS_ONLY_def)
  have nh: "?wh \<or> (\<forall>k < ?N. live (arData source ! k))"
  proof (cases ?wh)
    case False
    then have s: "take ?N (arData source) = ht_buckets source" using without_holes [OF inv] by simp
    have "live (arData source ! k)" if "k < ?N" for k
    proof -
      have "arData source ! k \<in> set (take ?N (arData source))" using that len by (auto simp: in_set_conv_nth)
      then show ?thesis unfolding s by (simp add: ht_buckets_def)
    qed
    then show ?thesis by blast
  qed simp
  have h: "dup_hash w rs source ?wh t0" using p d len sz nh f0 by (simp add: dup_hash_def)
  have start: "dup_pushed w rs source ?sk t0 (take 0 (arData source)) 0 (w, t0)"
    using ready linked0 by (simp add: dup_pushed_def map_filter_Nil)
  obtain q w' t' where r: "zend_array_dup_elements rs source ?sk ?wh [0..<?N] 0 (w, t0) = (q, w', t')"
      "dup_pushed w rs source ?sk t0 (take ?N (arData source)) q (w', t')"
      "nInternalPointer t' = (if ?P < ?N \<and> dup_core w rs source (arData source ! ?P) \<noteq> None
         then length (dup_cores w rs source (take ?P (arData source))) else ?P)"
    using zend_array_dup_elements_spec [OF h _ start f0(2)] by auto
  have all: "dup_cores w rs source (take ?N (arData source)) = dup_cores w rs source (ht_buckets source)"
    by (simp add: ht_buckets_def dup_cores_live)
  have g: "slots w' = slots w" "ht_meta t' = ht_meta t0" "hash_ready t'" "linked t' q"
      "q = length (dup_cores w rs source (ht_buckets source))"
      "map bucket_core (take q (arData t')) = dup_cores w rs source (ht_buckets source)"
      "events w' = events w @ concat (map (dup_events w rs source ?sk) (take ?N (arData source)))"
    using r(2) all by (auto simp: dup_pushed_def)
  note mt = ht_metaD [OF g(2)]
  define t1 where "t1 = t'\<lparr>nNumUsed := q, nNumOfElements := q\<rparr>"
  define i where "i = (if q > 0 \<and> nInternalPointer t1 = HT_INVALID_IDX then 0 else nInternalPointer t1)"
  define t where "t = t1\<lparr>nInternalPointer := i\<rparr>"
  have upd: "x\<lparr>nInternalPointer := nInternalPointer x\<rparr> = x" for x :: HashTable by simp
  have run: "zend_array_dup w rs a source = Inr (w', t)"
    using n im p r(1) unfolding zend_array_dup_def Let_def t0_def [symmetric]
    by (auto simp: t_def t1_def i_def)
  have qN: "q \<le> ?N" "q \<le> nTableSize source"
    using dup_cores_length [of w rs source "take ?N (arData source)"] len sz unfolding g(5) all by simp_all
  have lent: "length (arData t') = nTableSize source"
    using g(3) mt(14) f0(1) by (simp add: hash_ready_def hash_area_def)
  have lv: "live (arData t' ! k)" if "k < q" for k
  proof -
    have k: "bucket_core (arData t' ! k) = dup_cores w rs source (ht_buckets source) ! k"
      using that g(6) lent qN by (metis length_map length_take min.absorb2 nth_map nth_take g(5))
    have "dup_cores w rs source (ht_buckets source) ! k \<in> set (dup_cores w rs source (ht_buckets source))"
      using that g(5) by simp
    then obtain p where "p \<in> set (ht_buckets source)"
        "dup_core w rs source p = Some (bucket_core (arData t' ! k))"
      unfolding k [symmetric] by (rule dup_cores_member)
    then have "storable (b_val (arData t' ! k))"
      using d by (auto simp: dup_ok_def dup_core_def bucket_core_def split: if_splits)
    then show ?thesis by (simp add: live_def storable_def)
  qed
  have bt: "ht_buckets (t1\<lparr>nInternalPointer := j\<rparr>) = take q (arData t')" for j
  proof -
    have "filter live (take q (arData t')) = take q (arData t')"
      by (rule filter_live_all) (use lv in auto)
    then show ?thesis by (simp add: ht_buckets_def t1_def)
  qed
  have ct: "ht_cores (t1\<lparr>nInternalPointer := j\<rparr>) = dup_cores w rs source (ht_buckets source)" for j
    unfolding ht_cores_def bt by (rule g(6))
  have layt: "hash_layout (t1\<lparr>nInternalPointer := j\<rparr>)" for j
    unfolding layout_pointer using g(3,4)
    by (simp add: hash_layout_def t1_def hash_ready_def hash_area_def
        linked_cong [of "t'\<lparr>nNumUsed := q, nNumOfElements := q\<rparr>" t'])
  have invj: "ht_inv (t1\<lparr>nInternalPointer := j\<rparr>)" if "pointer_ok (t1\<lparr>nInternalPointer := j\<rparr>)" for j
  proof -
    have "contents_ok (t1\<lparr>nInternalPointer := j\<rparr>)"
      by (rule dup_contents [OF ok d ct _ _ _ _ _ that])
        (use ct [of j] g(5) mt f0 qN in \<open>simp_all add: t1_def\<close>)
    then show ?thesis using layt [of j] mt f0 by (simp add: ht_inv_def t1_def)
  qed
  have "ht_inv (t1\<lparr>nInternalPointer := HT_INVALID_IDX\<rparr>)" by (rule invj) (simp add: pointer_ok_def)
  then have inv1: "ht_inv (t\<lparr>nInternalPointer := HT_INVALID_IDX\<rparr>)" by (simp add: t_def)
  have "pointer_ok t" if k: "pointer_kept w rs source"
  proof (cases "?P < ?N")
    case False
    then have "?P = HT_INVALID_IDX" using ok by (auto simp: contents_ok_def pointer_ok_def)
    then have "nInternalPointer t1 = HT_INVALID_IDX" using r(3) False by (simp add: t1_def)
    then show ?thesis using lv [of 0] by (auto simp: pointer_ok_def t_def i_def t1_def)
  next
    case True
    have "?P \<noteq> HT_INVALID_IDX" using True ht_inv_used_invalid [OF inv] by simp
    then obtain c where c: "dup_core w rs source (arData source ! ?P) = Some c" using k by (auto simp: pointer_kept_def)
    have P: "nInternalPointer t1 = length (dup_cores w rs source (take ?P (arData source)))"
      using r(3) True c by (simp add: t1_def)
    have "take ?N (arData source) = take ?P (arData source) @ drop ?P (take ?N (arData source))"
      using True by (metis append_take_drop_id less_imp_le min.absorb1 take_take)
    moreover have "drop ?P (take ?N (arData source)) = arData source ! ?P # drop (Suc ?P) (take ?N (arData source))"
      by (rule drop_take_Cons [OF True len])
    ultimately have e: "take ?N (arData source) =
        take ?P (arData source) @ arData source ! ?P # drop (Suc ?P) (take ?N (arData source))"
      by (rule trans [OF _ arg_cong [where f = "(@) (take ?P (arData source))"]])
    have "dup_cores w rs source (take ?N (arData source)) = dup_cores w rs source (take ?P (arData source)) @
        c # dup_cores w rs source (drop (Suc ?P) (take ?N (arData source)))"
      by (subst e) (simp add: map_filter_append map_filter_Cons c)
    then have "length (dup_cores w rs source (take ?P (arData source))) < q" unfolding g(5) all [symmetric] by simp
    then have "nInternalPointer t1 < q" "q < HT_INVALID_IDX"
      using P qN size_ok_less_invalid [OF sz(1)] by auto
    then show ?thesis using lv by (simp add: pointer_ok_def t_def i_def t1_def)
  qed
  then have "pointer_kept w rs source \<longrightarrow> ht_inv t" using invj [of i] by (simp add: t_def)
  moreover have "events w' = events w @ concat (map (dup_events w rs source (HT_HAS_STATIC_KEYS_ONLY source)) (ht_buckets source))"
    unfolding g(7) sk ht_buckets_def dup_events_live ..
  moreover have "stale_pointer source t" if k: "\<not> pointer_kept w rs source"
  proof -
    have P: "?P \<noteq> HT_INVALID_IDX" "dup_core w rs source (arData source ! ?P) = None" 
      using k unfolding pointer_kept_def by blast+
    then have "nInternalPointer t = ?P" using r(3) by (simp add: t_def i_def t1_def)
    moreover have "b_val (arData t ! k) = UNINIT" if k: "q \<le> k" "k < nTableSize source" for k
    proof -
      have "arData t0 ! k = fresh_bucket" using k(2) by (simp add: t0_def HT_HASH_RESET_def HT_ALLOC_def)
      moreover have "drop q (arData t') = drop q (arData t0)"
        using r(2) unfolding dup_pushed_def prod.case by (elim conjE)
      then have "drop q (arData t') ! (k - q) = drop q (arData t0) ! (k - q)" by simp
      then have "arData t' ! k = arData t0 ! k" using k lent f0(11) by simp
      ultimately show ?thesis by (simp add: t_def t1_def fresh_bucket_def)
    qed
    ultimately show ?thesis using g(5) ct [of i] by (simp add: stale_pointer_def t_def t1_def)
  qed
  ultimately show ?thesis
    unfolding duplicated_def run using g(1) inv1 ct [of i] mt f0
    by (intro exI [of _ w'] exI [of _ t]) (simp add: t_def t1_def)
qed

text \<open>An immutable array has nothing that is counted: its copy is the same contents.\<close>

lemma dup_immutable:
  assumes inv: "ht_inv source" and n: "nNumUsed source \<noteq> 0" and im: "ht_immutable source"
  shows "\<exists>t. zend_array_dup w rs a source = Inr (w, t) \<and> ht_addr t = a \<and> ht_refcount t = 1 \<and>
    \<not> ht_immutable t \<and> ht_cores t = ht_cores source \<and> ht_inv t"
proof -
  have ok: "contents_ok source" using inv by (simp add: ht_inv_def)
  have init: "ht_initialized source" using inv n by (auto simp: ht_inv_def uninit_layout_def split: if_splits)
  let ?N = "nNumUsed source"
  have len: "?N \<le> length (arData source)" by (rule ht_inv_used_le [OF inv])
  have sz: "size_ok (nTableSize source)" "?N \<le> nTableSize source" using ok by (auto simp: contents_ok_def)
  define t where "t = copy_used (arData source) ((HT_ALLOC (source\<lparr>ht_addr := a, ht_refcount := 1,
      ht_immutable := False, ht_persistent := False, ht_apply_protection := True,
      pDestructor := Some ZVAL_PTR_DTOR\<rparr>))\<lparr>arHash := arHash source\<rparr>)"
  have f: "nNumUsed t = ?N" "nTableSize t = nTableSize source" "nTableMask t = nTableMask source"
      "nNumOfElements t = nNumOfElements source" "ht_packed t = ht_packed source" "ht_initialized t"
      "nInternalPointer t = nInternalPointer source" "arHash t = arHash source"
      "nNextFreeElement t = nNextFreeElement source" "ht_static_keys t = ht_static_keys source"
      "ht_addr t = a" "ht_refcount t = 1" "\<not> ht_immutable t" "length (arData t) = nTableSize source"
      "take ?N (arData t) = take ?N (arData source)"
    using init len sz by (simp_all add: t_def copy_used_def HT_ALLOC_def)
  have nth: "arData t ! k = arData source ! k" if "k < ?N" for k
    using f(15) that by (metis nth_take)
  have b: "ht_buckets t = ht_buckets source" using f by (simp add: ht_buckets_def)
  have ptr: "pointer_ok t" using ok nth f by (auto simp: contents_ok_def pointer_ok_def)
  have okt: "contents_ok t"
    using ok f b ptr by (simp add: contents_ok_def next_free_ok_def)
  have "ht_inv t"
  proof (cases "ht_packed source")
    case True
    then have "packed_layout t" using inv init f nth by (simp add: ht_inv_def packed_layout_def)
    then show ?thesis using okt f True by (simp add: ht_inv_def)
  next
    case False
    then have lay: "hash_layout source" using inv init by (simp add: ht_inv_def)
    have slot: "slot_of t j = slot_of source j" "in_slot t s j = in_slot source s j" if "j < ?N" for s j
      using nth [OF that] f by (simp_all add: in_slot_def slot_of_def)
    have "last_in (in_slot t s) m = last_in (in_slot source s) m" if "m \<le> ?N" for s m
      by (rule last_in_cong) (use slot that in auto)
    then have "linked t ?N"
      using lay nth slot unfolding hash_layout_def linked_def f(8) by simp
    then have "hash_layout t" using lay f by (simp add: hash_layout_def hash_area_def)
    then show ?thesis using okt f False by (simp add: ht_inv_def)
  qed
  then obtain i where i: "pointer_to_first t = Inr (t\<lparr>nInternalPointer := i\<rparr>)" "ht_inv (t\<lparr>nInternalPointer := i\<rparr>)"
    using pointer_to_first_spec [OF no_pointer_inv ptr] by blast
  have run: "zend_array_dup w rs a source = Inr (w, t\<lparr>nInternalPointer := i\<rparr>)"
    using n im i(1) unfolding zend_array_dup_def Let_def t_def by simp
  show ?thesis
    by (rule exI [of _ "t\<lparr>nInternalPointer := i\<rparr>"], intro conjI, rule run)
      (use i(2) f b in \<open>simp_all add: ht_cores_def\<close>)
qed

lemma zend_array_dup_spec:
  assumes "ht_inv source" "dup_ok w rs source" "nNumUsed source = 0 \<or> \<not> ht_immutable source"
  shows "duplicated w rs a source (zend_array_dup w rs a source)"
proof (cases "nNumUsed source = 0")
  case True
  show ?thesis by (rule dup_empty [OF assms(1) True])
next
  case False
  then have im: "\<not> ht_immutable source" using assms(3) by simp
  show ?thesis
    using dup_packed [OF assms(1) False im _ assms(2)] dup_hashed [OF assms(1) False im _ assms(2)]
    by (cases "ht_packed source") simp_all
qed

end
