(* ===== verification/Zend_Hash_Convert.thy ===== *)
theory Zend_Hash_Convert
  imports Zend_Array_Dup
begin

text \<open>
  What the conversions between symbol tables (numeric strings are integer keys) and property tables
  (all keys are strings) produce, and that one undoes the other.
\<close>

subsection \<open>A loop of writes\<close>

definition put_pairs :: "(hkey \<times> zval) list \<Rightarrow> (hkey \<times> zval) list \<Rightarrow> (hkey \<times> zval) list" where
  "put_pairs es al = fold (\<lambda>(k, v). AList.update k v) es al"

lemma put_pairs_distinct:
  "distinct (map fst (al @ es)) \<Longrightarrow> put_pairs es al = al @ es"
proof (induction es arbitrary: al)
  case Nil
  then show ?case by (simp add: put_pairs_def)
next
  case (Cons e es)
  obtain k v where e: "e = (k, v)" by (cases e)
  have "AList.update k v al = al @ [(k, v)]" by (rule alist_update_new) (use Cons.prems e in auto)
  then show ?case using Cons.IH [of "al @ [(k, v)]"] Cons.prems by (simp add: put_pairs_def e)
qed

definition conv_entry :: "refs \<Rightarrow> (hkey \<Rightarrow> hkey) \<Rightarrow> hkey \<times> zval \<Rightarrow> hkey \<times> zval" where
  "conv_entry rs kf = (\<lambda>(k, v). (kf k, fst (zval_add_ref rs v)))"

definition refs_ok :: "refs \<Rightarrow> bool" where
  "refs_ok rs \<longleftrightarrow> (\<forall>r. storable (snd (rs r)))"

lemma zval_add_ref_storable: "refs_ok rs \<Longrightarrow> storable v \<Longrightarrow> storable (fst (zval_add_ref rs v))"
  by (auto simp: zval_add_ref_def refs_ok_def split: zval.split)

lemma convert_loop:
  fixes w :: world
  assumes inv: "ht_inv ht" and t: "ht_inv t0"
    and body: "\<And>p w t. live p \<Longrightarrow> storable (b_val p) \<Longrightarrow> ht_inv t \<Longrightarrow>
      outcome t (\<lambda>(w', t'). ht_inv t' \<and> slots w' = slots w \<and>
        ht_entries t' = put_pairs [conv_entry rs kf (bkey p, b_val p)] (ht_entries t)) (body p (w, t))"
    and dead: "\<And>p s. \<not> live p \<Longrightarrow> body p s = Inr s"
  shows "case for_each body (take (nNumUsed ht) (arData ht)) (w, t0) of
      Inl e \<Rightarrow> e = E_ERROR_MEMORY \<and> HT_MAX_SIZE div 2 < length (ht_entries t0) + nNumUsed ht
    | Inr (w', t') \<Rightarrow> ht_inv t' \<and> slots w' = slots w \<and>
        ht_entries t' = put_pairs (map (conv_entry rs kf) (ht_entries ht)) (ht_entries t0)"
proof -
  let ?ps = "take (nNumUsed ht) (arData ht)"
  let ?g = "\<lambda>p al. if live p then put_pairs [conv_entry rs kf (bkey p, b_val p)] al else al"
  let ?I = "\<lambda>(w' :: world, t'). ht_inv t' \<and> slots w' = slots w"
  have l: "case for_each body ?ps (w, t0) of
      Inl e \<Rightarrow> \<exists>js ks s0. ?ps = js @ ks \<and> ?I s0 \<and> st_entries s0 = fold ?g js (st_entries (w, t0)) \<and>
        (e = E_ERROR_MEMORY \<and> table_full (snd s0))
    | Inr s' \<Rightarrow> ?I s' \<and> st_entries s' = fold ?g ?ps (st_entries (w, t0))"
  proof (rule for_each_spec)
    show "?I (w, t0)" using t by simp
    fix p s assume p: "p \<in> set ?ps" and s: "?I s"
    obtain w1 t1 where s1: "s = (w1, t1)" by (cases s)
    show "case body p s of Inl e \<Rightarrow> e = E_ERROR_MEMORY \<and> table_full (snd s)
        | Inr s' \<Rightarrow> ?I s' \<and> st_entries s' = ?g p (st_entries s)"
    proof (cases "live p")
      case True
      then have "p \<in> set (ht_buckets ht)" using p by (simp add: ht_buckets_def)
      then have "storable (b_val p)"
        using inv True by (auto simp: ht_inv_def contents_ok_def bucket_ok_def storable_def live_def)
      from body [OF True this, of t1 w1] s True show ?thesis by (cases "body p s") (auto simp: s1)
    next
      case False
      then show ?thesis using dead s by simp
    qed
  qed
  have g: "fold ?g ps al = put_pairs (map (conv_entry rs kf) (map (\<lambda>b. (bkey b, b_val b)) (filter live ps))) al" for ps al
    by (induction ps arbitrary: al) (auto simp: put_pairs_def)
  show ?thesis
  proof (cases "for_each body ?ps (w, t0)")
    case (Inl e)
    obtain js ks s0 where js: "?ps = js @ ks" "table_full (snd s0)" "e = E_ERROR_MEMORY"
        "st_entries s0 = fold ?g js (ht_entries t0)" using l Inl by auto
    have "length js \<le> nNumUsed ht" using arg_cong [OF js(1), of length] by simp
    have "length (put_pairs es al) \<le> length al + length es" for es al
    proof (induction es arbitrary: al)
      case Nil
      then show ?case by (simp add: put_pairs_def)
    next
      case (Cons e es)
      obtain k v where e: "e = (k, v)" by (cases e)
      have "length (AList.update k v al) \<le> Suc (length al)" by (induction al) auto
      moreover have "length (put_pairs es (AList.update k v al)) \<le> length (AList.update k v al) + length es"
        by (rule Cons.IH)
      moreover have "put_pairs (e # es) al = put_pairs es (AList.update k v al)" by (simp add: put_pairs_def e)
      ultimately show ?case by simp
    qed
    then have "length (st_entries s0) \<le> length (ht_entries t0) + length (filter live js)"
      unfolding js(4) g by (metis length_map)
    then have "length (st_entries s0) \<le> length (ht_entries t0) + length js"
      using length_filter_le [of live js] by linarith
    moreover have "HT_MAX_SIZE div 2 < length (st_entries s0)" using js(2) by (simp only: table_full_def)
    ultimately have "HT_MAX_SIZE div 2 < length (ht_entries t0) + nNumUsed ht"
      using \<open>length js \<le> nNumUsed ht\<close> by linarith
    then show ?thesis using js(3) Inl by simp
  next
    case (Inr s')
    obtain w1 t1 where s': "s' = (w1, t1)" by (cases s')
    have "map (conv_entry rs kf) (ht_entries ht) =
        map (conv_entry rs kf) (map (\<lambda>b. (bkey b, b_val b)) (filter live ?ps))"
      by (simp add: ht_entries_alt ht_buckets_def)
    then show ?thesis using l Inr s' unfolding g by simp
  qed
qed

subsection \<open>The two loops\<close>

text \<open>The key an element gets in a property table, and back in a symbol table.\<close>

definition prop_key :: "hkey \<Rightarrow> hkey" where
  "prop_key k = (case k of IntKey h \<Rightarrow> StrKey (zend_print_long_to_buf [] h) | StrKey s \<Rightarrow> StrKey s)"

definition symbol_key :: "hkey \<Rightarrow> hkey" where
  "symbol_key k = (case k of IntKey h \<Rightarrow> IntKey h | StrKey s \<Rightarrow> sym_key s)"

lemma to_proptable_element_spec:
  assumes p: "live p" "storable (b_val p)" and t: "ht_inv t" and rs: "refs_ok rs"
  shows "outcome t (\<lambda>(w', t'). ht_inv t' \<and> slots w' = slots w \<and>
      ht_entries t' = put_pairs [conv_entry rs prop_key (bkey p, b_val p)] (ht_entries t))
    (to_proptable_element rs p (w, t))"
proof -
  define kw where "kw = (case b_key p of Some k \<Rightarrow> (k, w)
      | None \<Rightarrow> let (s, w) = zend_long_to_str (b_h p) w in (s, zend_string_delref s w))"
  define w1 where "w1 = (snd kw)\<lparr>events := events (snd kw) @ snd (zval_add_ref rs (b_val p))\<rparr>"
  have k: "StrKey (zs_val (fst kw)) = prop_key (bkey p)"
  proof (cases "b_key p")
    case None
    then show ?thesis using long_to_str_text [of "b_h p" w] by (simp add: kw_def prop_key_def bkey_simps split_beta Let_def)
  qed (simp add: kw_def prop_key_def bkey_simps)
  have sl: "slots w1 = slots w"
    by (cases "b_key p") (simp_all add: w1_def kw_def split_beta Let_def zend_long_to_str_def zend_string_init_def)
  have unf: "to_proptable_element rs p (w, t) =
      res_bind (zend_hash_update w1 t (fst kw) (fst (zval_add_ref rs (b_val p)))) (\<lambda>(_, s). Inr s)"
    using p(1) by (cases "b_key p") (simp_all add: to_proptable_element_def live_def kw_def split_beta Let_def w1_def)
  note u = zend_hash_update_spec [OF t zval_add_ref_storable [OF rs p(2)], of w1 "fst kw"]
  show ?thesis
    unfolding unf using u sl
    by (cases "zend_hash_update w1 t (fst kw) (fst (zval_add_ref rs (b_val p)))")
      (auto simp: written_def put_pairs_def conv_entry_def k)
qed

lemma to_symtable_element_spec:
  assumes p: "live p" "storable (b_val p)" and t: "ht_inv t" and rs: "refs_ok rs"
  shows "outcome t (\<lambda>(w', t'). ht_inv t' \<and> slots w' = slots w \<and>
      ht_entries t' = put_pairs [conv_entry rs symbol_key (bkey p, b_val p)] (ht_entries t))
    (to_symtable_element rs p (w, t))"
proof -
  let ?v = "fst (zval_add_ref rs (b_val p))"
  define w1 where "w1 = w\<lparr>events := events w @ snd (zval_add_ref rs (b_val p))\<rparr>"
  define m where "m = (case b_key p of
           None \<Rightarrow> zend_hash_index_update w1 t (b_h p) ?v
         | Some str_key \<Rightarrow>
             ZEND_HANDLE_NUMERIC_STR (zs_val str_key)
               (\<lambda>num_key. zend_hash_index_update w1 t num_key ?v) (zend_hash_update w1 t str_key ?v))"
  have unf: "to_symtable_element rs p (w, t) = res_bind m (\<lambda>(_, s). Inr s)"
    using p(1) by (simp add: to_symtable_element_def live_def split_beta Let_def w1_def m_def cong: option.case_cong)
  note v = zval_add_ref_storable [OF rs p(2)]
  have "outcome t (written w1 t (symbol_key (bkey p)) ?v) m"
  proof (cases "b_key p")
    case None
    then show ?thesis using outcome_mono [OF zend_hash_index_update_spec [OF t v, of w1 "b_h p"]]
      by (simp add: m_def symbol_key_def bkey_simps)
  next
    case (Some s)
    have "outcome t (written w1 t (sym_key (zs_val s)) ?v) m"
    proof (cases "sym_key (zs_val s)")
      case (IntKey i)
      then show ?thesis using outcome_mono [OF zend_hash_index_update_spec [OF t v, of w1 i]] Some
        by (simp add: m_def handle_numeric_then)
    next
      case (StrKey r)
      then show ?thesis using outcome_mono [OF zend_hash_update_spec [OF t v, of w1 s]] Some sym_key_StrKey [OF StrKey]
        by (simp add: m_def handle_numeric_then)
    qed
    then show ?thesis using Some by (simp add: symbol_key_def bkey_simps)
  qed
  then show ?thesis unfolding unf
    by (cases m) (auto simp: written_def put_pairs_def conv_entry_def w1_def)
qed

subsection \<open>The conversions\<close>

lemma size_of_count: "ht_inv ht \<Longrightarrow> unat (of_nat (nNumOfElements ht) :: u32) = nNumOfElements ht"
proof -
  assume inv: "ht_inv ht"
  then have "nNumOfElements ht \<le> nNumUsed ht" "nNumUsed ht \<le> nTableSize ht" "size_ok (nTableSize ht)"
    using length_filter_le [of live "take (nNumUsed ht) (arData ht)"]
    by (auto simp: ht_inv_def contents_ok_def ht_buckets_def)
  then have "nNumOfElements ht \<le> 2147483648" using size_ok_bounds [of "nTableSize ht"] by simp
  then have "nNumOfElements ht < 2 ^ 32" by simp
  then show ?thesis by (simp only: unat_of_nat) simp
qed

text \<open>Keys of a symbol table: no string that would be an integer.\<close>

definition symbolic :: "HashTable \<Rightarrow> bool" where
  "symbolic ht \<longleftrightarrow> (\<forall>s. StrKey s \<in> fst ` set (ht_entries ht) \<longrightarrow> sym_key s = StrKey s)"

definition stringy :: "HashTable \<Rightarrow> bool" where
  "stringy ht \<longleftrightarrow> (\<forall>h. IntKey h \<notin> fst ` set (ht_entries ht))"

lemma sym_key_print: "sym_key (zend_print_long_to_buf [] h) = IntKey h"
proof -
  obtain r where "zend_handle_numeric_str (zend_print_long_to_buf [] h) = Inr r"
      "\<forall>i. r = Some i \<longleftrightarrow> zend_print_long_to_buf [] h = zend_print_long_to_buf [] i"
    using handle_numeric_iff [of "zend_print_long_to_buf [] h"] by blast
  moreover from this(2) have "r = Some h" by blast
  ultimately show ?thesis by (simp add: sym_key_def)
qed

lemma symbol_prop_key: "symbolic ht \<Longrightarrow> k \<in> fst ` set (ht_entries ht) \<Longrightarrow> symbol_key (prop_key k) = k"
  by (cases k) (auto simp: prop_key_def symbol_key_def sym_key_print symbolic_def)

lemma prop_key_inj: "symbolic ht \<Longrightarrow> inj_on prop_key (fst ` set (ht_entries ht))"
  by (rule inj_on_inverseI [where g = symbol_key]) (rule symbol_prop_key)

lemma symbol_key_inj: "stringy ht \<Longrightarrow> inj_on symbol_key (fst ` set (ht_entries ht))"
proof (rule inj_onI)
  fix a b
  assume s: "stringy ht" and a: "a \<in> fst ` set (ht_entries ht)" and b: "b \<in> fst ` set (ht_entries ht)"
    and e: "symbol_key a = symbol_key b"
  obtain x where x: "a = StrKey x" using s a by (cases a) (auto simp: stringy_def)
  obtain y where y: "b = StrKey y" using s b by (cases b) (auto simp: stringy_def)
  show "a = b" using e sym_key_inject by (simp add: x y symbol_key_def)
qed

lemma conv_entries:
  assumes "ht_inv ht" "inj_on kf (fst ` set (ht_entries ht))"
  shows "put_pairs (map (conv_entry rs kf) (ht_entries ht)) [] = map (conv_entry rs kf) (ht_entries ht)"
proof -
  have e: "map fst (map (conv_entry rs kf) (ht_entries ht)) = map kf (map fst (ht_entries ht))"
    by (simp add: conv_entry_def split_beta comp_def)
  have "distinct (map kf (map fst (ht_entries ht)))"
    using assms(2) ht_inv_distinct [OF assms(1)] by (subst distinct_map) simp
  then have "distinct (map fst ([] @ map (conv_entry rs kf) (ht_entries ht)))" unfolding append_Nil e .
  from put_pairs_distinct [OF this] show ?thesis by simp
qed

text \<open>A conversion gives up only when the table is of the maximal size.\<close>

lemma table_init:
  assumes "ht_inv ht" "nNumOfElements ht < HT_MAX_SIZE"
  obtains t where "zend_hash_init a (of_nat (nNumOfElements ht)) (Some ZVAL_PTR_DTOR) False = Inr t"
    "ht_inv t" "ht_entries t = []"
proof (cases "zend_hash_init a (of_nat (nNumOfElements ht)) (Some ZVAL_PTR_DTOR) False")
  case (Inl e)
  have "\<not> 0x80000000 \<le> (of_nat (nNumOfElements ht) :: u32)"
    using assms(2) size_of_count [OF assms(1)] by (simp add: word_le_nat_alt HT_MAX_SIZE_def)
  then show ?thesis using Inl
    by (auto simp: zend_hash_init_def zend_hash_check_size_def res_bind_Inl_iff Let_def split: if_splits)
next
  case (Inr t)
  then show ?thesis using that zend_hash_init_inv [OF Inr] by blast
qed

text \<open>Whether a conversion is needed at all.\<close>

lemma needs_proptable:
  assumes inv: "ht_inv ht"
    and n: "\<not> (ht_packed ht \<or> list_ex (\<lambda>p. b_val p \<noteq> IS_UNDEF \<and> b_key p = None) (take (nNumUsed ht) (arData ht)))"
  shows "stringy ht"
proof -
  have keys: "b_key b \<noteq> None" if "b \<in> set (ht_buckets ht)" for b
    using that n by (auto simp: list_ex_iff ht_buckets_def live_def)
  have "bkey b \<noteq> IntKey h" if mem: "b \<in> set (ht_buckets ht)" for b h
  proof -
    obtain s where "b_key b = Some s" using keys [OF mem] by auto
    then show ?thesis using bkey_simps(2) [of b] by simp
  qed
  then show ?thesis unfolding stringy_def ht_entries_alt by (auto dest: sym)
qed

lemma any_numeric_key_spec:
  "any_numeric_key ps = Inr (\<exists>p \<in> set (filter live ps). \<exists>s. b_key p = Some s \<and> sym_key (zs_val s) \<noteq> StrKey (zs_val s))"
proof (induction ps)
  case Nil
  then show ?case by simp
next
  case (Cons p ps)
  show ?case
  proof (cases "b_val p = IS_UNDEF \<or> b_key p = None")
    case True
    then show ?thesis using Cons by (auto simp: live_def)
  next
    case False
    then obtain s where s: "b_key p = Some s" by auto
    show ?thesis
    proof (cases "sym_key (zs_val s)")
      case (IntKey i)
      then show ?thesis using Cons False s by (simp add: handle_numeric_then live_def)
    next
      case (StrKey r)
      then show ?thesis using Cons False s sym_key_StrKey [OF StrKey] by (simp add: handle_numeric_then live_def)
    qed
  qed
qed

lemma symbolic_iff:
  "symbolic ht \<longleftrightarrow> \<not> (\<exists>p \<in> set (ht_buckets ht). \<exists>s. b_key p = Some s \<and> sym_key (zs_val s) \<noteq> StrKey (zs_val s))"
proof -
  have "StrKey s \<in> fst ` set (ht_entries ht) \<longleftrightarrow> (\<exists>p \<in> set (ht_buckets ht). \<exists>k. b_key p = Some k \<and> zs_val k = s)" for s
  proof -
    have "bkey p = StrKey s \<longleftrightarrow> (\<exists>k. b_key p = Some k \<and> zs_val k = s)" for p
      by (cases "b_key p") (auto simp: bkey_simps)
    then show ?thesis by (force simp: ht_entries_alt)
  qed
  then show ?thesis by (auto simp: symbolic_def)
qed

text \<open>
  The table that results: the table itself with another reference, or a new one. Failure needs more
  than half of the maximal number of elements.
\<close>

definition converted :: "world \<Rightarrow> HashTable \<Rightarrow> (hkey \<times> zval) list \<Rightarrow> (world \<times> HashTable \<times> HashTable option) res \<Rightarrow> bool" where
  "converted w ht es m \<longleftrightarrow> (case m of
     Inl e \<Rightarrow> e = E_ERROR_MEMORY \<and> HT_MAX_SIZE div 2 < nNumUsed ht
   | Inr (w', ht', None) \<Rightarrow> w' = w \<and> ht' = addref_array ht
   | Inr (w', ht', Some t) \<Rightarrow> ht' = ht \<and> slots w' = slots w \<and> ht_inv t \<and> ht_entries t = es)"

lemma used_bound: "ht_inv ht \<Longrightarrow> nNumOfElements ht \<le> nNumUsed ht"
  using length_filter_le [of live "take (nNumUsed ht) (arData ht)"]
  by (auto simp: ht_inv_def contents_ok_def ht_buckets_def)

lemma convert_run:
  assumes inv: "ht_inv ht" and inj: "inj_on kf (fst ` set (ht_entries ht))"
    and body: "\<And>p w t. live p \<Longrightarrow> storable (b_val p) \<Longrightarrow> ht_inv t \<Longrightarrow>
      outcome t (\<lambda>(w', t'). ht_inv t' \<and> slots w' = slots w \<and>
        ht_entries t' = put_pairs [conv_entry rs kf (bkey p, b_val p)] (ht_entries t)) (body p (w, t))"
    and dead: "\<And>p s. \<not> live p \<Longrightarrow> body p s = Inr s"
  shows "converted w ht (map (conv_entry rs kf) (ht_entries ht))
    (res_bind (zend_hash_init a (of_nat (nNumOfElements ht)) (Some ZVAL_PTR_DTOR) False) (\<lambda>new_ht.
     res_bind (for_each body (take (nNumUsed ht) (arData ht)) (w, new_ht))
       (\<lambda>(w, new_ht). Inr (w, ht, Some new_ht))))"
proof (cases "nNumOfElements ht < HT_MAX_SIZE")
  case True
  obtain t where t: "zend_hash_init a (of_nat (nNumOfElements ht)) (Some ZVAL_PTR_DTOR) False = Inr t"
      "ht_inv t" "ht_entries t = []" by (rule table_init [OF inv True])
  note l = convert_loop [where body = body and kf = kf and rs = rs and w = w, OF inv t(2) body dead]
  show ?thesis
    using l t conv_entries [OF inv inj, of rs]
    by (cases "for_each body (take (nNumUsed ht) (arData ht)) (w, t)") (auto simp: converted_def)
next
  case False
  have n: "HT_MAX_SIZE div 2 < nNumUsed ht" using False used_bound [OF inv] by (simp add: HT_MAX_SIZE_def)
  have "0x80000000 \<le> (of_nat (nNumOfElements ht) :: u32)"
    using False size_of_count [OF inv] by (simp add: word_le_nat_alt HT_MAX_SIZE_def)
  moreover have "\<not> (of_nat (nNumOfElements ht) :: u32) < 8"
    using False size_of_count [OF inv] by (simp add: word_less_nat_alt HT_MAX_SIZE_def)
  ultimately show ?thesis
    using n by (simp add: zend_hash_init_def zend_hash_check_size_def Let_def converted_def)
qed

lemma zend_symtable_to_proptable_spec:
  assumes inv: "ht_inv ht" and rs: "refs_ok rs" and sym: "symbolic ht"
  shows "converted w ht (map (conv_entry rs prop_key) (ht_entries ht)) (zend_symtable_to_proptable w rs a ht)"
    "zend_symtable_to_proptable w rs a ht = Inr (w', ht', None) \<Longrightarrow> stringy ht"
proof -
  let ?c = "ht_packed ht \<or> list_ex (\<lambda>p. b_val p \<noteq> IS_UNDEF \<and> b_key p = None) (take (nNumUsed ht) (arData ht))"
  show "converted w ht (map (conv_entry rs prop_key) (ht_entries ht)) (zend_symtable_to_proptable w rs a ht)"
  proof (cases ?c)
    case True
    then show ?thesis
      unfolding zend_symtable_to_proptable_def using to_proptable_element_spec [OF _ _ _ rs]
      by (simp only: if_True, intro convert_run [OF inv prop_key_inj [OF sym]])
        (auto simp: to_proptable_element_def live_def)
  next
    case False
    then show ?thesis unfolding zend_symtable_to_proptable_def by (simp only: if_False) (simp add: converted_def)
  qed
  show "stringy ht" if "zend_symtable_to_proptable w rs a ht = Inr (w', ht', None)"
    using that needs_proptable [OF inv]
    by (auto simp: zend_symtable_to_proptable_def res_bind_Inr_iff split: if_splits)
qed

lemma zend_proptable_to_symtable_spec:
  assumes inv: "ht_inv ht" and rs: "refs_ok rs" and str: "stringy ht"
  shows "converted w ht (map (conv_entry rs symbol_key) (ht_entries ht))
      (zend_proptable_to_symtable w rs a ht False)"
    "zend_proptable_to_symtable w rs a ht False = Inr (w', ht', None) \<Longrightarrow> symbolic ht"
proof -
  have any: "any_numeric_key (take (nNumUsed ht) (arData ht)) = Inr (\<not> symbolic ht)"
    unfolding any_numeric_key_spec symbolic_iff ht_buckets_def by auto
  show "converted w ht (map (conv_entry rs symbol_key) (ht_entries ht))
      (zend_proptable_to_symtable w rs a ht False)"
  proof (cases "symbolic ht")
    case True
    then show ?thesis by (simp add: zend_proptable_to_symtable_def any converted_def)
  next
    case False
    then show ?thesis
      unfolding zend_proptable_to_symtable_def any using to_symtable_element_spec [OF _ _ _ rs]
      by (simp only: res_bind_simps if_True simp_thms, intro convert_run [OF inv symbol_key_inj [OF str]])
        (auto simp: to_symtable_element_def live_def)
  qed
  show "symbolic ht" if "zend_proptable_to_symtable w rs a ht False = Inr (w', ht', None)"
    using that by (auto simp: zend_proptable_to_symtable_def any res_bind_Inr_iff split: if_splits)
qed

end
