(* ===== verification/Zend_Sort.thy ===== *)
theory Zend_Sort
  imports Prelude
begin

text \<open>
  The sorting routines of the engine (\<open>Zend/zend_sort.c\<close>): insertion sort with special cases for
  up to five elements, and the hybrid of quicksort and insertion sort behind the PHP array
  functions. An array is a list, a pointer into it an index; the element size plays no role. The
  comparison returns an \<open>int\<close> of which the code only asks whether it is positive; the swap function
  gets the two elements and leaves two others. A comparison or a swap outside the array is an
  error.

  The lemmas hold for any comparison: every routine ends, stays inside its array and only
  permutes what it was given. If the comparison is a total preorder, the result is sorted.
\<close>

subsection \<open>Access to the array\<close>

type_synonym 'a compare_func = "'a \<Rightarrow> 'a \<Rightarrow> int"
type_synonym 'a swap_func = "'a \<Rightarrow> 'a \<Rightarrow> 'a \<times> 'a"

text \<open>\<open>cmp(a, b) > 0\<close> and \<open>swp(a, b)\<close> for two positions.\<close>

definition cmp_gt :: "'a compare_func \<Rightarrow> 'a list \<Rightarrow> nat \<Rightarrow> nat \<Rightarrow> bool res" where
  "cmp_gt cmp xs a b =
     (if a < length xs \<and> b < length xs then Inr (cmp (xs ! a) (xs ! b) > 0) else Inl UB_OUT_OF_BOUNDS)"

definition swp_at :: "'a swap_func \<Rightarrow> 'a list \<Rightarrow> nat \<Rightarrow> nat \<Rightarrow> 'a list res" where
  "swp_at swp xs a b =
     (if a < length xs \<and> b < length xs
      then Inr (xs[a := fst (swp (xs ! a) (xs ! b)), b := snd (swp (xs ! a) (xs ! b))])
      else Inl UB_OUT_OF_BOUNDS)"

lemma res_bind_cong [fundef_cong]:
  "m = m' \<Longrightarrow> (\<And>x. m' = Inr x \<Longrightarrow> f x = g x) \<Longrightarrow> res_bind m f = res_bind m' g"
  by (cases m') auto

lemma cmp_gt_Inr: "cmp_gt cmp xs a b = Inr g \<Longrightarrow> a < length xs \<and> b < length xs"
  by (simp add: cmp_gt_def split: if_splits)

lemma swp_at_Inr: "swp_at swp xs a b = Inr ys \<Longrightarrow> a < length xs \<and> b < length xs \<and> length ys = length xs"
  by (auto simp: swp_at_def split: if_splits)

subsection \<open>Two to five elements\<close>

definition zend_sort_2 :: "'a compare_func \<Rightarrow> 'a swap_func \<Rightarrow> 'a list \<Rightarrow> nat \<Rightarrow> nat \<Rightarrow> 'a list res" where
  "zend_sort_2 cmp swp xs a b =
     res_bind (cmp_gt cmp xs a b) (\<lambda>g. if g then swp_at swp xs a b else Inr xs)"

definition zend_sort_3 ::
  "'a compare_func \<Rightarrow> 'a swap_func \<Rightarrow> 'a list \<Rightarrow> nat \<Rightarrow> nat \<Rightarrow> nat \<Rightarrow> 'a list res" where
  "zend_sort_3 cmp swp xs a b c =
     res_bind (cmp_gt cmp xs a b) (\<lambda>ab.
       if \<not> ab then
         res_bind (cmp_gt cmp xs b c) (\<lambda>bc.
           if \<not> bc then Inr xs
           else res_bind (swp_at swp xs b c) (\<lambda>xs.
             res_bind (cmp_gt cmp xs a b) (\<lambda>ab.
               if ab then swp_at swp xs a b else Inr xs)))
       else
         res_bind (cmp_gt cmp xs c b) (\<lambda>cb.
           if \<not> cb then swp_at swp xs a c
           else res_bind (swp_at swp xs a b) (\<lambda>xs.
             res_bind (cmp_gt cmp xs b c) (\<lambda>bc.
               if bc then swp_at swp xs b c else Inr xs))))"

definition zend_sort_4 ::
  "'a compare_func \<Rightarrow> 'a swap_func \<Rightarrow> 'a list \<Rightarrow> nat \<Rightarrow> nat \<Rightarrow> nat \<Rightarrow> nat \<Rightarrow> 'a list res" where
  "zend_sort_4 cmp swp xs a b c d =
     res_bind (zend_sort_3 cmp swp xs a b c) (\<lambda>xs.
     res_bind (cmp_gt cmp xs c d) (\<lambda>cd.
       if cd then
         res_bind (swp_at swp xs c d) (\<lambda>xs.
         res_bind (cmp_gt cmp xs b c) (\<lambda>bc.
           if bc then
             res_bind (swp_at swp xs b c) (\<lambda>xs.
             res_bind (cmp_gt cmp xs a b) (\<lambda>ab.
               if ab then swp_at swp xs a b else Inr xs))
           else Inr xs))
       else Inr xs))"

definition zend_sort_5 ::
  "'a compare_func \<Rightarrow> 'a swap_func \<Rightarrow> 'a list \<Rightarrow> nat \<Rightarrow> nat \<Rightarrow> nat \<Rightarrow> nat \<Rightarrow> nat \<Rightarrow> 'a list res" where
  "zend_sort_5 cmp swp xs a b c d e =
     res_bind (zend_sort_4 cmp swp xs a b c d) (\<lambda>xs.
     res_bind (cmp_gt cmp xs d e) (\<lambda>de.
       if de then
         res_bind (swp_at swp xs d e) (\<lambda>xs.
         res_bind (cmp_gt cmp xs c d) (\<lambda>cd.
           if cd then
             res_bind (swp_at swp xs c d) (\<lambda>xs.
             res_bind (cmp_gt cmp xs b c) (\<lambda>bc.
               if bc then
                 res_bind (swp_at swp xs b c) (\<lambda>xs.
                 res_bind (cmp_gt cmp xs a b) (\<lambda>ab.
                   if ab then swp_at swp xs a b else Inr xs))
               else Inr xs))
           else Inr xs))
       else Inr xs))"

subsection \<open>Insertion sort\<close>

text \<open>The search for the place of element \<open>i\<close>, one step at a time: the \<open>while (j != start)\<close> loop.\<close>

function insert_place :: "'a compare_func \<Rightarrow> 'a list \<Rightarrow> nat \<Rightarrow> nat \<Rightarrow> nat \<Rightarrow> nat res" where
  "insert_place cmp xs start i j =
     (if j = start then Inr j
      else if j = 0 then Inl UB_OUT_OF_BOUNDS
      else let j = j - 1 in
        res_bind (cmp_gt cmp xs j i) (\<lambda>g. if \<not> g then Inr (j + 1) else insert_place cmp xs start i j))"
  by pat_completeness auto
termination by (relation "measure (\<lambda>(cmp, xs, start, i, j). j)") auto

text \<open>And two at a time: the \<open>do ... while (1)\<close> loop.\<close>

function insert_place_2 :: "'a compare_func \<Rightarrow> 'a list \<Rightarrow> nat \<Rightarrow> nat \<Rightarrow> nat \<Rightarrow> nat res" where
  "insert_place_2 cmp xs start i j =
     (if j < 2 then Inl UB_OUT_OF_BOUNDS
      else let j = j - 2 in
        res_bind (cmp_gt cmp xs j i) (\<lambda>g.
          if \<not> g then
            let j = j + 1 in
            res_bind (cmp_gt cmp xs j i) (\<lambda>g. if \<not> g then Inr (j + 1) else Inr j)
          else if j = start then Inr j
          else if j = start + 1 then
            let j = j - 1 in
            res_bind (cmp_gt cmp xs i j) (\<lambda>g. if g then Inr (j + 1) else Inr j)
          else insert_place_2 cmp xs start i j))"
  by pat_completeness auto
termination by (relation "measure (\<lambda>(cmp, xs, start, i, j). j)") auto

declare insert_place.simps [simp del] insert_place_2.simps [simp del]

text \<open>\<open>for (k = i; k > j; k -= siz) swp(k, k - siz)\<close>.\<close>

function shift_down :: "'a swap_func \<Rightarrow> 'a list \<Rightarrow> nat \<Rightarrow> nat \<Rightarrow> 'a list res" where
  "shift_down swp xs k j =
     (if k > j then res_bind (swp_at swp xs k (k - 1)) (\<lambda>xs. shift_down swp xs (k - 1) j) else Inr xs)"
  by pat_completeness auto
termination by (relation "measure (\<lambda>(swp, xs, k, j). k)") auto

declare shift_down.simps [simp del]

definition insert_step ::
  "('a list \<Rightarrow> nat \<Rightarrow> nat \<Rightarrow> nat res) \<Rightarrow> 'a compare_func \<Rightarrow> 'a swap_func \<Rightarrow> nat \<Rightarrow> 'a list \<Rightarrow> 'a list res" where
  "insert_step place cmp swp i xs =
     (if i = 0 then Inl UB_OUT_OF_BOUNDS
      else res_bind (cmp_gt cmp xs (i - 1) i) (\<lambda>g.
        if \<not> g then Inr xs
        else res_bind (place xs i (i - 1)) (\<lambda>j. shift_down swp xs i j)))"

fun insert_loop :: "(nat \<Rightarrow> 'a list \<Rightarrow> 'a list res) \<Rightarrow> nat list \<Rightarrow> 'a list \<Rightarrow> 'a list res" where
  "insert_loop step [] xs = Inr xs"
| "insert_loop step (i # is) xs = res_bind (step i xs) (insert_loop step is)"

definition zend_insert_sort ::
  "'a compare_func \<Rightarrow> 'a swap_func \<Rightarrow> 'a list \<Rightarrow> nat \<Rightarrow> nat \<Rightarrow> 'a list res" where
  "zend_insert_sort cmp swp xs base nmemb =
     (if nmemb \<le> 1 then Inr xs
      else if nmemb = 2 then zend_sort_2 cmp swp xs base (base + 1)
      else if nmemb = 3 then zend_sort_3 cmp swp xs base (base + 1) (base + 2)
      else if nmemb = 4 then zend_sort_4 cmp swp xs base (base + 1) (base + 2) (base + 3)
      else if nmemb = 5 then zend_sort_5 cmp swp xs base (base + 1) (base + 2) (base + 3) (base + 4)
      else
        let end = base + nmemb; sentry = base + 6 in
        res_bind (insert_loop (insert_step (\<lambda>xs. insert_place cmp xs base) cmp swp) [base + 1..<sentry] xs)
          (insert_loop (insert_step (\<lambda>xs. insert_place_2 cmp xs base) cmp swp) [sentry..<end]))"

subsection \<open>The hybrid sort\<close>

text \<open>
  The two inner loops of the partition; the flag says that the indices met (\<open>goto done\<close>).
\<close>

function scan_up :: "'a compare_func \<Rightarrow> 'a list \<Rightarrow> nat \<Rightarrow> nat \<Rightarrow> nat \<Rightarrow> (bool \<times> nat) res" where
  "scan_up cmp xs pivot i j =
     res_bind (cmp_gt cmp xs pivot i) (\<lambda>g.
       if g then if i + 1 = j then Inr (True, i + 1) else scan_up cmp xs pivot (i + 1) j
       else Inr (False, i))"
  by pat_completeness auto
termination
  by (relation "measure (\<lambda>(cmp, xs, pivot, i, j). length xs - i)") (auto dest: cmp_gt_Inr)

function scan_down :: "'a compare_func \<Rightarrow> 'a list \<Rightarrow> nat \<Rightarrow> nat \<Rightarrow> nat \<Rightarrow> (bool \<times> nat) res" where
  "scan_down cmp xs pivot i j =
     res_bind (cmp_gt cmp xs j pivot) (\<lambda>g.
       if g then
         if j = 0 then Inl UB_OUT_OF_BOUNDS
         else if j - 1 = i then Inr (True, j - 1) else scan_down cmp xs pivot i (j - 1)
       else Inr (False, j))"
  by pat_completeness auto
termination by (relation "measure (\<lambda>(cmp, xs, pivot, i, j). j)") auto

declare scan_up.simps [simp del] scan_down.simps [simp del]

lemma scan_up_ge: "scan_up cmp xs pivot i j = Inr (d, i') \<Longrightarrow> i \<le> i'"
proof (induction cmp xs pivot i j rule: scan_up.induct)
  case (1 cmp xs pivot i j)
  from 1(2) show ?case
    unfolding scan_up.simps [of cmp xs pivot i j]
    using 1(1) by (fastforce simp: res_bind_Inr_iff split: if_splits)
qed

function partition_loop ::
  "'a compare_func \<Rightarrow> 'a swap_func \<Rightarrow> 'a list \<Rightarrow> nat \<Rightarrow> nat \<Rightarrow> nat \<Rightarrow> ('a list \<times> nat) res" where
  "partition_loop cmp swp xs pivot i j =
     res_bind (scan_up cmp xs pivot i j) (\<lambda>(done, i).
       if done then Inr (xs, i)
       else if j = 0 then Inl UB_OUT_OF_BOUNDS
       else let j = j - 1 in
         if j = i then Inr (xs, i)
         else res_bind (scan_down cmp xs pivot i j) (\<lambda>(done, j).
           if done then Inr (xs, i)
           else res_bind (swp_at swp xs i j) (\<lambda>xs.
             let i = i + 1 in
             if i = j then Inr (xs, i) else partition_loop cmp swp xs pivot i j)))"
  by pat_completeness auto
termination
  by (relation "measure (\<lambda>(cmp, swp, xs, pivot, i, j). length xs - i)")
    (auto dest!: swp_at_Inr scan_up_ge)

declare partition_loop.simps [simp del]

text \<open>One round of the outer loop: choice of the pivot, partition, and the pivot in its place.\<close>

definition zend_sort_partition ::
  "'a compare_func \<Rightarrow> 'a swap_func \<Rightarrow> 'a list \<Rightarrow> nat \<Rightarrow> nat \<Rightarrow> ('a list \<times> nat) res" where
  "zend_sort_partition cmp swp xs start nmemb =
     (let end = start + nmemb; offset = nmemb div 2; pivot = start + offset in
      res_bind (if nmemb div 1024 \<noteq> 0
                then let delta = offset div 2 in
                  zend_sort_5 cmp swp xs start (start + delta) pivot (pivot + delta) (end - 1)
                else zend_sort_3 cmp swp xs start pivot (end - 1)) (\<lambda>xs.
      res_bind (swp_at swp xs (start + 1) pivot) (\<lambda>xs.
      res_bind (partition_loop cmp swp xs (start + 1) (start + 2) (end - 1)) (\<lambda>(xs, i).
        if i = 0 then Inl UB_OUT_OF_BOUNDS
        else res_bind (swp_at swp xs (start + 1) (i - 1)) (\<lambda>xs. Inr (xs, i))))))"

text \<open>The partition leaves both sides shorter, so the loop and the recursion end.\<close>

lemma scan_up_bounds: "scan_up cmp xs pivot i j = Inr (d, i') \<Longrightarrow> i < j \<Longrightarrow> i' \<le> j \<and> (\<not> d \<longrightarrow> i' < j)"
proof (induction cmp xs pivot i j rule: scan_up.induct)
  case (1 cmp xs pivot i j)
  from 1(2,3) show ?case
    unfolding scan_up.simps [of cmp xs pivot i j]
    using 1(1) by (fastforce simp: res_bind_Inr_iff split: if_splits)
qed

lemma scan_down_bounds:
  "scan_down cmp xs pivot i j = Inr (d, j') \<Longrightarrow> i < j \<Longrightarrow> i \<le> j' \<and> j' \<le> j \<and> (\<not> d \<longrightarrow> i < j')"
proof (induction cmp xs pivot i j rule: scan_down.induct)
  case (1 cmp xs pivot i j)
  from 1(2,3) show ?case
    unfolding scan_down.simps [of cmp xs pivot i j]
    using 1(1) by (fastforce simp: res_bind_Inr_iff split: if_splits)
qed

lemma partition_loop_bounds:
  "partition_loop cmp swp xs pivot i j = Inr (ys, k) \<Longrightarrow> i < j \<Longrightarrow> i \<le> k \<and> k \<le> j"
proof (induction cmp swp xs pivot i j rule: partition_loop.induct)
  case (1 cmp swp xs pivot i j)
  obtain d i1 where up: "scan_up cmp xs pivot i j = Inr (d, i1)"
    using 1(2) unfolding partition_loop.simps [of cmp swp xs pivot i j]
    by (auto simp: res_bind_Inr_iff)
  note u = scan_up_ge [OF up] scan_up_bounds [OF up 1(3)]
  show ?case
  proof (cases "d \<or> j - 1 = i1")
    case True
    then show ?thesis using 1(2,3) u unfolding partition_loop.simps [of cmp swp xs pivot i j]
      by (auto simp: up Let_def split: if_splits)
  next
    case False
    obtain jp where jp: "j = Suc jp" using 1(3) by (cases j) auto
    with False have j: "i1 < jp" using u by auto
    note up = up [unfolded jp]
    obtain e j1 where down: "scan_down cmp xs pivot i1 jp = Inr (e, j1)"
      using 1(2) False j unfolding partition_loop.simps [of cmp swp xs pivot i j]
      by (auto simp: up jp res_bind_Inr_iff Let_def)
    note w = scan_down_bounds [OF down j]
    show ?thesis
    proof (cases e)
      case True
      then show ?thesis using 1(2) u w False j jp unfolding partition_loop.simps [of cmp swp xs pivot i j]
        by (auto simp: up jp down Let_def)
    next
      case ne: False
      obtain zs where zs: "swp_at swp xs i1 j1 = Inr zs"
        using 1(2) False j ne unfolding partition_loop.simps [of cmp swp xs pivot i j]
        by (auto simp: up jp down res_bind_Inr_iff Let_def)
      show ?thesis
      proof (cases "i1 + 1 = j1")
        case True
        then show ?thesis using 1(2) u w False j jp ne unfolding partition_loop.simps [of cmp swp xs pivot i j]
          by (auto simp: up jp down zs Let_def)
      next
        case nj: False
        have "partition_loop cmp swp zs pivot (i1 + 1) j1 = Inr (ys, k)"
          using 1(2) False j ne nj unfolding partition_loop.simps [of cmp swp xs pivot i j]
          by (simp add: up jp down zs Let_def)
        then have "i1 + 1 \<le> k \<and> k \<le> j1"
          using 1(1) [unfolded jp, OF up refl _ _ refl _ _ refl _ zs refl] False j ne nj w down jp by simp
        then show ?thesis using u w jp by auto
      qed
    qed
  qed
qed

lemma zend_sort_partition_bounds:
  assumes "zend_sort_partition cmp swp xs base n = Inr (ys, i)" "16 < n"
  shows "base + 2 \<le> i \<and> i < base + n"
proof -
  obtain zs k where "partition_loop cmp swp zs (base + 1) (base + 2) (base + n - 1) = Inr (k, i)"
    using assms(1) by (auto simp: zend_sort_partition_def Let_def res_bind_Inr_iff split: if_splits)
  moreover have "base + 2 < base + n - 1" using assms(2) by linarith
  ultimately have "base + 2 \<le> i \<and> i \<le> base + n - 1" by (rule partition_loop_bounds)
  then show ?thesis using assms(2) by linarith
qed

function zend_sort :: "'a compare_func \<Rightarrow> 'a swap_func \<Rightarrow> 'a list \<Rightarrow> nat \<Rightarrow> nat \<Rightarrow> 'a list res" where
  "zend_sort cmp swp xs base nmemb =
     (if nmemb \<le> 16 then zend_insert_sort cmp swp xs base nmemb
      else res_bind (zend_sort_partition cmp swp xs base nmemb) (\<lambda>(xs, i).
        let start = base; end = base + nmemb in
        if (i - 1) - start < end - i then
          res_bind (zend_sort cmp swp xs start (i - start - 1)) (\<lambda>xs. zend_sort cmp swp xs i (end - i))
        else
          res_bind (zend_sort cmp swp xs i (end - i)) (\<lambda>xs. zend_sort cmp swp xs start (i - start - 1))))"
  by pat_completeness auto
termination
  by (relation "measure (\<lambda>(cmp, swp, xs, base, nmemb). nmemb)")
    (auto dest!: zend_sort_partition_bounds)

declare zend_sort.simps [simp del]

subsection \<open>What a swap function does\<close>

text \<open>
  A swap function exchanges one part of its two elements and leaves the rest of each where it is;
  the comparison looks at that part only.
\<close>

locale sorting =
  fixes part :: "'a \<Rightarrow> 'p" and rest :: "'a \<Rightarrow> 'r" and swp :: "'a swap_func"
    and cmp :: "'a compare_func" and gt :: "'p \<Rightarrow> 'p \<Rightarrow> bool"
  assumes part_swp: "part (fst (swp x y)) = part y" "part (snd (swp x y)) = part x"
    and rest_swp: "rest (fst (swp x y)) = rest x" "rest (snd (swp x y)) = rest y"
    and cmp_part: "cmp x y > 0 \<longleftrightarrow> gt (part x) (part y)"
begin

text \<open>The elements from \<open>b\<close> to before \<open>e\<close> are permuted, the others untouched.\<close>

definition permuted :: "nat \<Rightarrow> nat \<Rightarrow> 'a list \<Rightarrow> 'a list \<Rightarrow> bool" where
  "permuted b e xs ys \<longleftrightarrow> length ys = length xs \<and> map rest ys = map rest xs \<and>
     mset (map part ys) = mset (map part xs) \<and>
     (\<forall>k < length xs. k < b \<or> e \<le> k \<longrightarrow> part (ys ! k) = part (xs ! k))"

definition runs :: "nat \<Rightarrow> nat \<Rightarrow> 'a list \<Rightarrow> 'a list res \<Rightarrow> bool" where
  "runs b e xs m \<longleftrightarrow> (\<exists>ys. m = Inr ys \<and> permuted b e xs ys)"

lemma permuted_refl [simp]: "permuted b e xs xs"
  by (simp add: permuted_def)

lemma permuted_trans: "permuted b e xs ys \<Longrightarrow> permuted b e ys zs \<Longrightarrow> permuted b e xs zs"
  by (simp add: permuted_def)

lemma permuted_mono: "permuted b e xs ys \<Longrightarrow> b' \<le> b \<Longrightarrow> e \<le> e' \<Longrightarrow> permuted b' e' xs ys"
  by (auto simp: permuted_def)

lemma permuted_length: "permuted b e xs ys \<Longrightarrow> length ys = length xs"
  by (simp add: permuted_def)

lemma permuted_outside: "permuted b e xs ys \<Longrightarrow> k < length xs \<Longrightarrow> k < b \<or> e \<le> k \<Longrightarrow> part (ys ! k) = part (xs ! k)"
  by (auto simp: permuted_def)

lemma swp_part:
  assumes "a < length xs" "c < length xs"
  shows "\<exists>ys. swp_at swp xs a c = Inr ys \<and> length ys = length xs \<and> map rest ys = map rest xs \<and>
     map part ys = (map part xs)[a := part (xs ! c), c := part (xs ! a)]"
  using assms
  by (auto simp: swp_at_def map_update part_swp rest_swp intro!: nth_equalityI simp: nth_list_update)

lemma mset_swap_parts:
  "a < length ps \<Longrightarrow> c < length ps \<Longrightarrow> mset (ps[a := ps ! c, c := ps ! a]) = mset ps"
  by (rule mset_swap)

lemma runs_Inr: "runs b e xs (Inr xs)"
  by (simp add: runs_def)

lemma runs_swp:
  assumes "b \<le> a" "a < e" "b \<le> c" "c < e" "e \<le> length xs"
  shows "runs b e xs (swp_at swp xs a c)"
proof -
  have l: "a < length xs" "c < length xs" using assms by auto
  obtain ys where ys: "swp_at swp xs a c = Inr ys" "length ys = length xs" "map rest ys = map rest xs"
      "map part ys = (map part xs)[a := part (xs ! c), c := part (xs ! a)]"
    using swp_part [OF l] by blast
  have "part (ys ! k) = part (xs ! k)" if "k < length xs" "k < b \<or> e \<le> k" for k
  proof -
    have "part (ys ! k) = map part ys ! k" using that ys(2) by simp
    also have "\<dots> = part (xs ! k)" using that assms unfolding ys(4) by (auto simp: nth_list_update)
    finally show ?thesis .
  qed
  moreover have "mset (map part ys) = mset (map part xs)"
    unfolding ys(4) using mset_swap_parts [of a "map part xs" c] l by simp
  ultimately show ?thesis using ys unfolding runs_def permuted_def by blast
qed

lemma runs_bind:
  assumes "runs b e xs m" "\<And>ys. length ys = length xs \<Longrightarrow> runs b e ys (f ys)"
  shows "runs b e xs (res_bind m f)"
proof -
  obtain ys where ys: "m = Inr ys" "permuted b e xs ys" using assms(1) by (auto simp: runs_def)
  from assms(2) [OF permuted_length [OF ys(2)]] obtain zs where "f ys = Inr zs" "permuted b e ys zs"
    by (auto simp: runs_def)
  then show ?thesis using ys permuted_trans by (auto simp: runs_def)
qed

lemma runs_cmp:
  assumes "a < length xs" "c < length xs" "\<And>g. runs b e xs (f g)"
  shows "runs b e xs (res_bind (cmp_gt cmp xs a c) f)"
  using assms by (simp add: cmp_gt_def)

lemma runs_if: "(c \<Longrightarrow> runs b e xs m) \<Longrightarrow> (\<not> c \<Longrightarrow> runs b e xs n) \<Longrightarrow> runs b e xs (if c then m else n)"
  by simp

lemma runs_length: "runs b e xs m \<Longrightarrow> m = Inr ys \<Longrightarrow> length ys = length xs"
  by (auto simp: runs_def permuted_length)

lemma runs_mono: "runs b e xs m \<Longrightarrow> b' \<le> b \<Longrightarrow> e \<le> e' \<Longrightarrow> runs b' e' xs m"
  by (auto simp: runs_def intro: permuted_mono)

lemmas runs_intros = runs_Inr runs_if runs_cmp runs_swp runs_bind

subsection \<open>Every routine permutes its range\<close>

lemma sort_2_runs:
  "b \<le> p \<Longrightarrow> p < e \<Longrightarrow> b \<le> q \<Longrightarrow> q < e \<Longrightarrow> e \<le> length xs \<Longrightarrow> runs b e xs (zend_sort_2 cmp swp xs p q)"
  unfolding zend_sort_2_def by (intro runs_intros) simp_all

lemma sort_3_runs:
  "b \<le> p \<Longrightarrow> p < e \<Longrightarrow> b \<le> q \<Longrightarrow> q < e \<Longrightarrow> b \<le> r \<Longrightarrow> r < e \<Longrightarrow> e \<le> length xs \<Longrightarrow>
   runs b e xs (zend_sort_3 cmp swp xs p q r)"
  unfolding zend_sort_3_def by (intro runs_intros) simp_all

lemma sort_4_runs:
  "b \<le> p \<Longrightarrow> p < e \<Longrightarrow> b \<le> q \<Longrightarrow> q < e \<Longrightarrow> b \<le> r \<Longrightarrow> r < e \<Longrightarrow> b \<le> s \<Longrightarrow> s < e \<Longrightarrow> e \<le> length xs \<Longrightarrow>
   runs b e xs (zend_sort_4 cmp swp xs p q r s)"
  unfolding zend_sort_4_def by (intro runs_intros sort_3_runs) simp_all

lemma sort_5_runs:
  "b \<le> p \<Longrightarrow> p < e \<Longrightarrow> b \<le> q \<Longrightarrow> q < e \<Longrightarrow> b \<le> r \<Longrightarrow> r < e \<Longrightarrow> b \<le> s \<Longrightarrow> s < e \<Longrightarrow> b \<le> t \<Longrightarrow> t < e \<Longrightarrow>
   e \<le> length xs \<Longrightarrow> runs b e xs (zend_sort_5 cmp swp xs p q r s t)"
  unfolding zend_sort_5_def by (intro runs_intros sort_4_runs) simp_all

subsection \<open>Insertion\<close>

lemma insert_place_spec:
  "start \<le> j \<Longrightarrow> j \<le> i \<Longrightarrow> i < length xs \<Longrightarrow> \<exists>r. insert_place cmp xs start i j = Inr r \<and> start \<le> r \<and> r \<le> j \<and>
     (\<forall>k. r \<le> k \<and> k < j \<longrightarrow> gt (part (xs ! k)) (part (xs ! i))) \<and>
     (start < r \<longrightarrow> \<not> gt (part (xs ! (r - 1))) (part (xs ! i)))"
proof (induction j)
  case 0
  then show ?case by (subst insert_place.simps) simp
next
  case (Suc j)
  show ?case
  proof (cases "Suc j = start")
    case True
    then show ?thesis by (subst insert_place.simps) auto
  next
    case ne: False
    then have c: "cmp_gt cmp xs j i = Inr (gt (part (xs ! j)) (part (xs ! i)))"
      using Suc.prems by (simp add: cmp_gt_def cmp_part)
    show ?thesis
    proof (cases "gt (part (xs ! j)) (part (xs ! i))")
      case True
      obtain r where "insert_place cmp xs start i j = Inr r" "start \<le> r" "r \<le> j"
          "\<forall>k. r \<le> k \<and> k < j \<longrightarrow> gt (part (xs ! k)) (part (xs ! i))"
          "start < r \<longrightarrow> \<not> gt (part (xs ! (r - 1))) (part (xs ! i))"
        using Suc.IH Suc.prems ne by auto
      then show ?thesis
        using True c ne by (auto simp: insert_place.simps [of cmp xs start i "Suc j"] less_Suc_eq)
    next
      case False
      then show ?thesis
        using c ne Suc.prems by (auto simp: insert_place.simps [of cmp xs start i "Suc j"])
    qed
  qed
qed

text \<open>The double steps compare every other element; the last comparison may be the other way round.\<close>

lemma insert_place_2_spec:
  "start + 2 \<le> j \<Longrightarrow> j \<le> i \<Longrightarrow> i < length xs \<Longrightarrow> \<exists>r. insert_place_2 cmp xs start i j = Inr r \<and> start \<le> r \<and> r \<le> j \<and>
     (r < j \<longrightarrow> gt (part (xs ! r)) (part (xs ! i)) \<or> (r = start \<and> \<not> gt (part (xs ! i)) (part (xs ! r)))) \<and>
     (start < r \<longrightarrow> \<not> gt (part (xs ! (r - 1))) (part (xs ! i)) \<or>
        (r = start + 1 \<and> gt (part (xs ! i)) (part (xs ! start))))"
proof (induction j rule: less_induct)
  case (less j)
  define j' where "j' = j - 2"
  have j': "\<not> j < 2" "start \<le> j'" "j = j' + 2" "j' + 2 \<le> i" using less.prems by (auto simp: j'_def)
  have c: "cmp_gt cmp xs k i = Inr (gt (part (xs ! k)) (part (xs ! i)))"
    "cmp_gt cmp xs i k = Inr (gt (part (xs ! i)) (part (xs ! k)))" if "k < i" for k
    using that less.prems by (simp_all add: cmp_gt_def cmp_part)
  note unf = insert_place_2.simps [of cmp xs start i j]
  show ?case
  proof (cases "\<not> gt (part (xs ! j')) (part (xs ! i)) \<or> j' = start \<or> j' = start + 1")
    case True
    then show ?thesis
      unfolding unf using j' c [of j'] c [of "j' + 1"] c [of "j' - 1"]
      by (auto simp: j'_def [symmetric] Let_def)
  next
    case False
    then have "start + 2 \<le> j'" "j' < j" using j' by auto
    from less.IH [OF this(2,1)] j' less.prems obtain r where
        "insert_place_2 cmp xs start i j' = Inr r" "start \<le> r" "r \<le> j'"
        "r < j' \<longrightarrow> gt (part (xs ! r)) (part (xs ! i)) \<or> (r = start \<and> \<not> gt (part (xs ! i)) (part (xs ! r)))"
        "start < r \<longrightarrow> \<not> gt (part (xs ! (r - 1))) (part (xs ! i)) \<or>
          (r = start + 1 \<and> gt (part (xs ! i)) (part (xs ! start)))"
      by auto
    moreover have "insert_place_2 cmp xs start i j = insert_place_2 cmp xs start i j'"
      unfolding unf using False j' c [of j'] by (simp add: j'_def [symmetric] Let_def)
    ultimately show ?thesis using False j' by (cases "r < j'") auto
  qed
qed

lemma shift_down_spec:
  "j \<le> k \<Longrightarrow> k < length xs \<Longrightarrow> \<exists>ys. shift_down swp xs k j = Inr ys \<and> permuted j (k + 1) xs ys \<and>
     (\<forall>m < length xs. part (ys ! m) = (if m = j then part (xs ! k)
        else if j < m \<and> m \<le> k then part (xs ! (m - 1)) else part (xs ! m)))"
proof (induction k arbitrary: xs)
  case 0
  then show ?case by (subst shift_down.simps) simp
next
  case (Suc k)
  show ?case
  proof (cases "j = Suc k")
    case True
    then show ?thesis by (subst shift_down.simps) simp
  next
    case False
    with Suc.prems have jk: "j \<le> k" by simp
    obtain ys where ys: "swp_at swp xs (Suc k) k = Inr ys" "length ys = length xs"
        "map part ys = (map part xs)[Suc k := part (xs ! k), k := part (xs ! Suc k)]"
      using swp_part [of "Suc k" xs k] Suc.prems by auto
    have p: "permuted j (Suc k + 1) xs ys"
      using runs_swp [of j "Suc k" "Suc k + 1" k xs] ys(1) Suc.prems jk by (auto simp: runs_def)
    have y: "part (ys ! m) = (if m = k then part (xs ! Suc k) else if m = Suc k then part (xs ! k)
        else part (xs ! m))" if "m < length xs" for m
    proof -
      have "part (ys ! m) = map part ys ! m" using that ys(2) by simp
      also have "\<dots> = (if m = k then part (xs ! Suc k) else if m = Suc k then part (xs ! k)
          else part (xs ! m))" using that unfolding ys(3) by (auto simp: nth_list_update)
      finally show ?thesis .
    qed
    have "k < length ys" using Suc.prems ys(2) by simp
    from Suc.IH [OF jk this] obtain zs where zs: "shift_down swp ys k j = Inr zs" "permuted j (k + 1) ys zs"
        "\<forall>m < length ys. part (zs ! m) = (if m = j then part (ys ! k)
          else if j < m \<and> m \<le> k then part (ys ! (m - 1)) else part (ys ! m))" by blast
    have "permuted j (Suc k + 1) xs zs"
      using permuted_trans [OF p] permuted_mono [OF zs(2)] by simp
    moreover have "shift_down swp xs (Suc k) j = Inr zs"
      using jk ys zs(1) by (simp add: shift_down.simps [of swp xs "Suc k" j])
    moreover have "part (zs ! m) = (if m = j then part (xs ! Suc k)
        else if j < m \<and> m \<le> Suc k then part (xs ! (m - 1)) else part (xs ! m))" if "m < length xs" for m
      using zs(3) that ys(2) y [of m] y [of "m - 1"] y [of k] Suc.prems jk by auto
    ultimately show ?thesis by blast
  qed
qed

subsection \<open>Sorted ranges\<close>

definition ordered :: "'a list \<Rightarrow> nat \<Rightarrow> nat \<Rightarrow> bool" where
  "ordered xs b e \<longleftrightarrow> (\<forall>k l. b \<le> k \<and> k < l \<and> l < e \<longrightarrow> \<not> gt (part (xs ! k)) (part (xs ! l)))"

lemma orderedD: "ordered xs b e \<Longrightarrow> b \<le> k \<Longrightarrow> k < l \<Longrightarrow> l < e \<Longrightarrow> \<not> gt (part (xs ! k)) (part (xs ! l))"
  by (simp add: ordered_def)

text \<open>The comparison of a total preorder.\<close>

definition preorder :: bool where
  "preorder \<longleftrightarrow> (\<forall>p q. gt p q \<longrightarrow> \<not> gt q p) \<and> (\<forall>p q r. \<not> gt p q \<longrightarrow> \<not> gt q r \<longrightarrow> \<not> gt p r)"

lemma preorderD:
  assumes preorder
  shows "gt p q \<Longrightarrow> \<not> gt q p" "\<not> gt p q \<Longrightarrow> \<not> gt q r \<Longrightarrow> \<not> gt p r"
  using assms unfolding preorder_def by blast+

lemma ordered_trivial: "e \<le> b + 1 \<Longrightarrow> ordered xs b e"
  by (auto simp: ordered_def)

text \<open>One insertion, given that the search found a place.\<close>

definition finds_place :: "('a list \<Rightarrow> nat \<Rightarrow> nat \<Rightarrow> nat res) \<Rightarrow> nat \<Rightarrow> nat \<Rightarrow> 'a list \<Rightarrow> bool" where
  "finds_place place start i xs \<longleftrightarrow>
     (\<exists>r. place xs i (i - 1) = Inr r \<and> start \<le> r \<and> r \<le> i - 1 \<and>
       (preorder \<longrightarrow> ordered xs start i \<longrightarrow> gt (part (xs ! (i - 1))) (part (xs ! i)) \<longrightarrow>
          (\<forall>k. start \<le> k \<and> k < r \<longrightarrow> \<not> gt (part (xs ! k)) (part (xs ! i))) \<and>
          (\<forall>k. r \<le> k \<and> k < i \<longrightarrow> \<not> gt (part (xs ! i)) (part (xs ! k)))))"

lemma insert_step_spec:
  assumes i: "start < i" "i < length xs" and place: "finds_place place start i xs"
  shows "\<exists>ys. insert_step place cmp swp i xs = Inr ys \<and> permuted start (i + 1) xs ys \<and>
     (preorder \<longrightarrow> ordered xs start i \<longrightarrow> ordered ys start (i + 1))"
proof (cases "gt (part (xs ! (i - 1))) (part (xs ! i))")
  case False
  have c: "cmp_gt cmp xs (i - 1) i = Inr False" using i False by (simp add: cmp_gt_def cmp_part)
  have "\<not> gt (part (xs ! k)) (part (xs ! i))" if "preorder" "ordered xs start i" "start \<le> k" "k < i" for k
  proof (cases "k = i - 1")
    case False
    then have "\<not> gt (part (xs ! k)) (part (xs ! (i - 1)))" using that by (simp add: ordered_def)
    then show ?thesis using preorderD(2) [OF that(1)] \<open>\<not> gt (part (xs ! (i - 1))) (part (xs ! i))\<close> by blast
  qed (use False in simp)
  then have "preorder \<longrightarrow> ordered xs start i \<longrightarrow> ordered xs start (i + 1)"
    by (auto simp: ordered_def less_Suc_eq)
  then show ?thesis using i c by (simp add: insert_step_def)
next
  case True
  have c: "cmp_gt cmp xs (i - 1) i = Inr True" using i True by (simp add: cmp_gt_def cmp_part)
  obtain r where r: "place xs i (i - 1) = Inr r" "start \<le> r" "r \<le> i - 1"
      "preorder \<Longrightarrow> ordered xs start i \<Longrightarrow> start \<le> k \<Longrightarrow> k < r \<Longrightarrow> \<not> gt (part (xs ! k)) (part (xs ! i))"
      "preorder \<Longrightarrow> ordered xs start i \<Longrightarrow> r \<le> k \<Longrightarrow> k < i \<Longrightarrow> \<not> gt (part (xs ! i)) (part (xs ! k))" for k
    using place True unfolding finds_place_def by blast
  obtain ys where ys: "shift_down swp xs i r = Inr ys" "permuted r (i + 1) xs ys"
      "\<forall>m < length xs. part (ys ! m) = (if m = r then part (xs ! i)
        else if r < m \<and> m \<le> i then part (xs ! (m - 1)) else part (xs ! m))"
  proof -
    have "r \<le> i" using r(3) by linarith
    then show thesis using shift_down_spec [of r i xs] i that by blast
  qed
  have "ordered ys start (i + 1)" if o: "preorder" "ordered xs start i"
    unfolding ordered_def
  proof (intro allI impI, elim conjE)
    fix k l assume kl: "start \<le> k" "k < l" "l < i + 1"
    have y: "part (ys ! m) = (if m = r then part (xs ! i)
        else if r < m \<and> m \<le> i then part (xs ! (m - 1)) else part (xs ! m))" if "m \<le> i" for m
      using ys(3) that i by simp
    have x: "\<not> gt (part (xs ! a)) (part (xs ! b))" if "start \<le> a" "a < b" "b < i" for a b
      using o(2) that by (simp add: ordered_def)
    consider "l < r" | "k < r" "l = r" | "k < r" "r < l" | "k = r" | "r < k" using kl by linarith
    then show "\<not> gt (part (ys ! k)) (part (ys ! l))"
    proof cases
      case 1
      then show ?thesis using y [of k] y [of l] kl x [of k l] r i by simp
    next
      case 2
      then show ?thesis using y [of k] y [of l] kl r(4) [OF o, of k] i by simp
    next
      case 3
      then show ?thesis using y [of k] y [of l] kl x [of k "l - 1"] r i by simp
    next
      case 4
      then show ?thesis using y [of k] y [of l] kl r(5) [OF o, of "l - 1"] i by simp
    next
      case 5
      then show ?thesis using y [of k] y [of l] kl x [of "k - 1" "l - 1"] r i by simp
    qed
  qed
  then show ?thesis
    using i c r(1) ys(1) permuted_mono [OF ys(2) r(2) order_refl] by (auto simp: insert_step_def)
qed

lemma insert_place_finds:
  assumes "start < i" "i < length xs"
  shows "finds_place (\<lambda>xs. insert_place cmp xs start) start i xs"
proof -
  obtain r where r: "insert_place cmp xs start i (i - 1) = Inr r" "start \<le> r" "r \<le> i - 1"
      "\<forall>k. r \<le> k \<and> k < i - 1 \<longrightarrow> gt (part (xs ! k)) (part (xs ! i))"
      "start < r \<longrightarrow> \<not> gt (part (xs ! (r - 1))) (part (xs ! i))"
  proof -
    have "start \<le> i - 1" "i - 1 \<le> i" using assms by linarith+
    then show thesis using insert_place_spec [of start "i - 1" i xs] assms that by blast
  qed
  have "\<not> gt (part (xs ! k)) (part (xs ! i))"
    if o: "preorder" "ordered xs start i" and k: "start \<le> k" "k < r" for k
  proof (cases "k = r - 1")
    case True
    then show ?thesis using r k by simp
  next
    case False
    then have "\<not> gt (part (xs ! k)) (part (xs ! (r - 1)))"
      by (intro orderedD [OF o(2)]) (use k r(3) assms in linarith)+
    then show ?thesis using preorderD(2) [OF o(1)] r(5) k by (metis le_less_trans)
  qed
  moreover have "\<not> gt (part (xs ! i)) (part (xs ! k))"
    if "preorder" "gt (part (xs ! (i - 1))) (part (xs ! i))" "r \<le> k" "k < i" for k
    using r(4) that preorderD(1) [OF that(1)] by (cases "k = i - 1") auto
  ultimately show ?thesis using r(1-3) unfolding finds_place_def by blast
qed

lemma insert_place_2_finds:
  assumes "start + 3 \<le> i" "i < length xs"
  shows "finds_place (\<lambda>xs. insert_place_2 cmp xs start) start i xs"
proof -
  obtain r where r: "insert_place_2 cmp xs start i (i - 1) = Inr r" "start \<le> r" "r \<le> i - 1"
      "r < i - 1 \<longrightarrow> gt (part (xs ! r)) (part (xs ! i)) \<or> (r = start \<and> \<not> gt (part (xs ! i)) (part (xs ! r)))"
      "start < r \<longrightarrow> \<not> gt (part (xs ! (r - 1))) (part (xs ! i)) \<or>
        (r = start + 1 \<and> gt (part (xs ! i)) (part (xs ! start)))"
  proof -
    have "start + 2 \<le> i - 1" "i - 1 \<le> i" using assms by linarith+
    then show thesis using insert_place_2_spec [of start "i - 1" i xs] assms that by blast
  qed
  have "\<not> gt (part (xs ! k)) (part (xs ! i))"
    if o: "preorder" "ordered xs start i" and k: "start \<le> k" "k < r" for k
  proof -
    have l: "\<not> gt (part (xs ! (r - 1))) (part (xs ! i))"
      using r(5) k preorderD(1) [OF o(1)] by auto
    show ?thesis
    proof (cases "k = r - 1")
      case False
      then have "\<not> gt (part (xs ! k)) (part (xs ! (r - 1)))"
      by (intro orderedD [OF o(2)]) (use k r(3) assms in linarith)+
      then show ?thesis using preorderD(2) [OF o(1)] l by blast
    qed (use l in simp)
  qed
  moreover have "\<not> gt (part (xs ! i)) (part (xs ! k))"
    if o: "preorder" "ordered xs start i" and g: "gt (part (xs ! (i - 1))) (part (xs ! i))" and k: "r \<le> k" "k < i" for k
  proof -
    have l: "\<not> gt (part (xs ! i)) (part (xs ! r))"
      using r(3,4) g preorderD(1) [OF o(1)] by (cases "r = i - 1") auto
    show ?thesis
    proof (cases "k = r")
      case False
      then have "\<not> gt (part (xs ! r)) (part (xs ! k))" using o(2) k r(2) by (simp add: ordered_def)
      then show ?thesis using preorderD(2) [OF o(1)] l by blast
    qed (use l in simp)
  qed
  ultimately show ?thesis using r(1-3) unfolding finds_place_def by blast
qed

lemma insert_loop_spec:
  assumes "b < m" "m \<le> e" "e \<le> length xs"
    and place: "\<And>i xs. m \<le> i \<Longrightarrow> i < e \<Longrightarrow> e \<le> length xs \<Longrightarrow> finds_place place b i xs"
  shows "\<exists>ys. insert_loop (insert_step place cmp swp) [m..<e] xs = Inr ys \<and> permuted b e xs ys \<and>
     (preorder \<longrightarrow> ordered xs b m \<longrightarrow> ordered ys b e)"
  using assms
proof (induction "e - m" arbitrary: m xs)
  case 0
  then show ?case by auto
next
  case (Suc d)
  then have me: "m < e" by simp
  then have upt: "[m..<e] = m # [Suc m..<e]" by (rule upt_conv_Cons)
  obtain ys where ys: "insert_step place cmp swp m xs = Inr ys" "permuted b (m + 1) xs ys"
      "preorder \<longrightarrow> ordered xs b m \<longrightarrow> ordered ys b (m + 1)"
    using insert_step_spec [OF Suc.prems(1), of xs place] Suc.prems me by auto
  have d: "d = e - Suc m" using Suc.hyps(2) by simp
  obtain zs where zs: "insert_loop (insert_step place cmp swp) [Suc m..<e] ys = Inr zs" "permuted b e ys zs"
      "preorder \<longrightarrow> ordered ys b (Suc m) \<longrightarrow> ordered zs b e"
    using Suc.hyps(1) [OF d, of ys] Suc.prems me permuted_length [OF ys(2)] by auto
  have "permuted b e xs zs"
    using permuted_trans [OF permuted_mono [OF ys(2) order_refl] zs(2)] me by simp
  then show ?case using ys zs by (auto simp: upt)
qed

subsection \<open>Two to five elements are ordered\<close>

definition chain :: "'a list \<Rightarrow> nat list \<Rightarrow> bool" where
  "chain xs ps \<longleftrightarrow> (\<forall>k l. k < l \<and> l < length ps \<longrightarrow> \<not> gt (part (xs ! (ps ! k))) (part (xs ! (ps ! l))))"

lemma chain_Nil: "chain xs []"
  by (simp add: chain_def)

lemma chain_Cons: "chain xs (p # ps) \<longleftrightarrow> (\<forall>q \<in> set ps. \<not> gt (part (xs ! p)) (part (xs ! q))) \<and> chain xs ps"
proof
  assume c: "chain xs (p # ps)"
  have "\<not> gt (part (xs ! p)) (part (xs ! q))" if q: "q \<in> set ps" for q
  proof -
    obtain l where "l < length ps" "q = ps ! l" using q by (auto simp: in_set_conv_nth)
    then show ?thesis using c [unfolded chain_def, rule_format, of 0 "Suc l"] by simp
  qed
  moreover have "chain xs ps"
    unfolding chain_def
  proof (intro allI impI, elim conjE)
    fix k l assume "k < l" "l < length ps"
    then show "\<not> gt (part (xs ! (ps ! k))) (part (xs ! (ps ! l)))"
      using c [unfolded chain_def, rule_format, of "Suc k" "Suc l"] by simp
  qed
  ultimately show "(\<forall>q \<in> set ps. \<not> gt (part (xs ! p)) (part (xs ! q))) \<and> chain xs ps" by blast
next
  assume c: "(\<forall>q \<in> set ps. \<not> gt (part (xs ! p)) (part (xs ! q))) \<and> chain xs ps"
  show "chain xs (p # ps)"
    unfolding chain_def
  proof (intro allI impI, elim conjE)
    fix k l assume kl: "k < l" "l < length (p # ps)"
    then show "\<not> gt (part (xs ! ((p # ps) ! k))) (part (xs ! ((p # ps) ! l)))"
      using c by (cases k; cases l) (auto simp: chain_def)
  qed
qed

lemmas chain_simps = chain_Nil chain_Cons

lemma chain_append:
  "chain xs (ps @ [q]) \<longleftrightarrow> chain xs ps \<and> (\<forall>p \<in> set ps. \<not> gt (part (xs ! p)) (part (xs ! q)))"
  by (induction ps) (auto simp: chain_simps)

lemma chain_cong: "(\<And>p. p \<in> set ps \<Longrightarrow> part (ys ! p) = part (xs ! p)) \<Longrightarrow> chain ys ps = chain xs ps"
  by (auto simp: chain_def)

lemma cmp_gt_parts: "a < length xs \<Longrightarrow> b < length xs \<Longrightarrow> cmp_gt cmp xs a b = Inr (gt (part (xs ! a)) (part (xs ! b)))"
  by (simp add: cmp_gt_def cmp_part)

lemma swp_at_parts:
  assumes "a < length xs" "c < length xs"
  obtains ys where "swp_at swp xs a c = Inr ys" "length ys = length xs" "part (ys ! a) = part (xs ! c)"
    "part (ys ! c) = part (xs ! a)" "\<And>k. k \<noteq> a \<Longrightarrow> k \<noteq> c \<Longrightarrow> part (ys ! k) = part (xs ! k)"
  using assms by (auto simp: swp_at_def part_swp nth_list_update)

text \<open>
  The tail of each of these routines moves the last element down past the larger ones.
\<close>

fun bubble :: "'a list \<Rightarrow> nat list \<Rightarrow> 'a list res" where
  "bubble xs (d # c # ps) =
     res_bind (cmp_gt cmp xs c d) (\<lambda>g.
       if g then res_bind (swp_at swp xs c d) (\<lambda>xs. bubble xs (c # ps)) else Inr xs)"
| "bubble xs [d] = Inr xs"
| "bubble xs [] = Inr xs"

lemma bubble_spec:
  assumes "distinct (d # cs)" "\<forall>p \<in> set (d # cs). p < length xs"
  shows "\<exists>ys. bubble xs (d # cs) = Inr ys \<and> length ys = length xs \<and>
     (\<forall>p. p \<notin> set (d # cs) \<longrightarrow> part (ys ! p) = part (xs ! p)) \<and>
     (\<forall>p \<in> set (d # cs). \<exists>q \<in> set (d # cs). part (ys ! p) = part (xs ! q)) \<and>
     (preorder \<longrightarrow> chain xs (rev cs) \<longrightarrow> chain ys (rev (d # cs)))"
  using assms
proof (induction cs arbitrary: d xs)
  case Nil
  then show ?case by (auto simp: chain_simps)
next
  case (Cons c ps)
  have l: "c < length xs" "d < length xs" "c \<noteq> d" using Cons.prems by auto
  show ?case
  proof (cases "gt (part (xs ! c)) (part (xs ! d))")
    case False
    have "chain xs (rev (d # c # ps))" if o: preorder "chain xs (rev (c # ps))"
    proof -
      have "\<not> gt (part (xs ! p)) (part (xs ! d))" if "p \<in> set (c # ps)" for p
        using that o(2) False preorderD(2) [OF o(1), of "part (xs ! p)" "part (xs ! c)"] by (auto simp: chain_append)
      then show ?thesis using o(2) by (subst rev.simps(2), subst chain_append) auto
    qed
    then show ?thesis using l False by (auto simp: cmp_gt_parts)
  next
    case True
    obtain zs where zs: "swp_at swp xs c d = Inr zs" "length zs = length xs" "part (zs ! c) = part (xs ! d)"
        "part (zs ! d) = part (xs ! c)" "\<And>k. k \<noteq> c \<Longrightarrow> k \<noteq> d \<Longrightarrow> part (zs ! k) = part (xs ! k)"
      using swp_at_parts [OF l(1,2)] by blast
    obtain ys where ys: "bubble zs (c # ps) = Inr ys" "length ys = length zs"
        "\<And>p. p \<notin> set (c # ps) \<Longrightarrow> part (ys ! p) = part (zs ! p)"
        "\<And>p. p \<in> set (c # ps) \<Longrightarrow> \<exists>q \<in> set (c # ps). part (ys ! p) = part (zs ! q)"
        "preorder \<Longrightarrow> chain zs (rev ps) \<Longrightarrow> chain ys (rev (c # ps))"
    proof -
      have "distinct (c # ps)" "\<forall>p \<in> set (c # ps). p < length zs" using Cons.prems zs(2) by auto
      from Cons.IH [OF this] show thesis using that by blast
    qed
    have z: "part (zs ! q) = (if q = c then part (xs ! d) else part (xs ! q))" if "q \<in> set (c # ps)" for q
      using that zs(3,5) Cons.prems(1) by auto
    have yd: "part (ys ! d) = part (xs ! c)" using ys(3) [of d] zs(4) Cons.prems(1) by simp
    have img: "\<exists>q \<in> set (d # c # ps). part (ys ! p) = part (xs ! q) \<and> (p \<noteq> d \<longrightarrow> q \<noteq> c)"
      if p: "p \<in> set (d # c # ps)" for p
    proof (cases "p = d")
      case True
      then show ?thesis using yd by auto
    next
      case False
      then obtain q where q: "q \<in> set (c # ps)" "part (ys ! p) = part (zs ! q)" using ys(4) p by auto
      then show ?thesis using z [OF q(1)] Cons.prems(1) by (cases "q = c") auto
    qed
    have "chain ys (rev (d # c # ps))" if o: preorder "chain xs (rev (c # ps))"
    proof -
      have le: "\<not> gt (part (xs ! q)) (part (xs ! c))" if "q \<in> set (d # c # ps)" "q \<noteq> c" for q
        using that o(2) preorderD(1) [OF o(1) True] by (auto simp: chain_append)
      have "chain zs (rev ps) = chain xs (rev ps)"
        using z Cons.prems(1) by (intro chain_cong) auto
      then have "chain ys (rev (c # ps))" using ys(5) o by (simp add: chain_append)
      moreover have "\<not> gt (part (ys ! p)) (part (ys ! d))" if "p \<in> set (c # ps)" for p
        using img [of p] that le yd Cons.prems(1) by fastforce
      ultimately show ?thesis by (subst rev.simps(2), subst chain_append) auto
    qed
    then have ch: "preorder \<longrightarrow> chain xs (rev (c # ps)) \<longrightarrow> chain ys (rev (d # c # ps))" by blast
    have b: "bubble xs (d # c # ps) = Inr ys" using True l zs(1) ys(1) by (simp add: cmp_gt_parts)
    have out: "\<forall>p. p \<notin> set (d # c # ps) \<longrightarrow> part (ys ! p) = part (xs ! p)"
      using ys(3) zs(5) by simp
    have inside: "\<forall>p \<in> set (d # c # ps). \<exists>q \<in> set (d # c # ps). part (ys ! p) = part (xs ! q)"
      using img by blast
    have len: "length ys = length xs" using ys(2) zs(2) by simp
    show ?thesis by (rule exI [of _ ys], intro conjI) (rule b, rule len, rule out, rule inside, rule ch)
  qed
qed

lemma sort_2_bubble: "zend_sort_2 cmp swp xs a b = bubble xs [b, a]"
  by (simp add: zend_sort_2_def) (rule arg_cong [of _ _ "res_bind _"], rule ext, simp split: sum.split add: res_bind_def)

lemma sort_2_chain:
  assumes "distinct [a, b]" "\<forall>p \<in> set [a, b]. p < length xs" preorder
  shows "\<exists>ys. zend_sort_2 cmp swp xs a b = Inr ys \<and> length ys = length xs \<and> chain ys [a, b]"
  using bubble_spec [of b "[a]" xs] assms by (auto simp: sort_2_bubble chain_simps)

lemma sort_3_chain:
  assumes d: "distinct [a, b, c]" and l: "\<forall>p \<in> set [a, b, c]. p < length xs" and o: preorder
  shows "\<exists>ys. zend_sort_3 cmp swp xs a b c = Inr ys \<and> length ys = length xs \<and> chain ys [a, b, c]"
proof (cases "gt (part (xs ! a)) (part (xs ! b))")
  case False
  have "zend_sort_3 cmp swp xs a b c = bubble xs [c, b, a]"
    using l False by (simp add: zend_sort_3_def cmp_gt_parts)
      (auto simp: res_bind_def split: sum.split)
  moreover have "chain xs (rev [b, a])" using False by (simp add: chain_simps)
  ultimately show ?thesis using bubble_spec [of c "[b, a]" xs] d l o by auto
next
  case ab: True
  show ?thesis
  proof (cases "gt (part (xs ! c)) (part (xs ! b))")
    case False
    obtain ys where ys: "swp_at swp xs a c = Inr ys" "length ys = length xs" "part (ys ! a) = part (xs ! c)"
        "part (ys ! c) = part (xs ! a)" "\<And>k. k \<noteq> a \<Longrightarrow> k \<noteq> c \<Longrightarrow> part (ys ! k) = part (xs ! k)"
      using swp_at_parts [of a xs c] l by auto
    have "chain ys [a, b, c]"
      using ys d False preorderD(1) [OF o ab] preorderD(2) [OF o False preorderD(1) [OF o ab]]
      by (simp add: chain_simps)
    then show ?thesis using l ab False ys by (simp add: zend_sort_3_def cmp_gt_parts)
  next
    case cb: True
    obtain ys where ys: "swp_at swp xs a b = Inr ys" "length ys = length xs" "part (ys ! a) = part (xs ! b)"
        "part (ys ! b) = part (xs ! a)" "\<And>k. k \<noteq> a \<Longrightarrow> k \<noteq> b \<Longrightarrow> part (ys ! k) = part (xs ! k)"
      using swp_at_parts [of a xs b] l by auto
    have r: "zend_sort_3 cmp swp xs a b c = bubble ys [c, b]"
      using l ab cb ys(1,2) by (simp add: zend_sort_3_def cmp_gt_parts)
        (auto simp: res_bind_def split: sum.split)
    obtain zs where zs: "bubble ys [c, b] = Inr zs" "length zs = length ys" "part (zs ! a) = part (ys ! a)"
        "\<forall>p \<in> {b, c}. \<exists>q \<in> {b, c}. part (zs ! p) = part (ys ! q)" "chain zs [b, c]"
      using bubble_spec [of c "[b]" ys] d l o ys(2) by (auto simp: chain_simps)
    have "\<not> gt (part (zs ! a)) (part (zs ! p))" if "p \<in> {b, c}" for p
      using zs(3,4) that ys d preorderD(1) [OF o ab] preorderD(1) [OF o cb] by fastforce
    then have "chain zs [a, b, c]" using zs(5) by (simp add: chain_simps)
    then show ?thesis using r zs(1,2) ys(2) by simp
  qed
qed

lemma sort_4_chain:
  assumes d: "distinct [a, b, c, d]" and l: "\<forall>p \<in> set [a, b, c, d]. p < length xs" and o: preorder
  shows "\<exists>ys. zend_sort_4 cmp swp xs a b c d = Inr ys \<and> length ys = length xs \<and> chain ys [a, b, c, d]"
proof -
  obtain ys where ys: "zend_sort_3 cmp swp xs a b c = Inr ys" "length ys = length xs" "chain ys [a, b, c]"
    using sort_3_chain [of a b c xs] assms by auto
  have "zend_sort_4 cmp swp xs a b c d = bubble ys [d, c, b, a]"
    by (simp add: zend_sort_4_def ys(1)) (auto simp: res_bind_def split: sum.split)
  then show ?thesis using bubble_spec [of d "[c, b, a]" ys] d l o ys by auto
qed

lemma sort_5_chain:
  assumes d: "distinct [a, b, c, d, e]" and l: "\<forall>p \<in> set [a, b, c, d, e]. p < length xs" and o: preorder
  shows "\<exists>ys. zend_sort_5 cmp swp xs a b c d e = Inr ys \<and> length ys = length xs \<and> chain ys [a, b, c, d, e]"
proof -
  obtain ys where ys: "zend_sort_4 cmp swp xs a b c d = Inr ys" "length ys = length xs" "chain ys [a, b, c, d]"
    using sort_4_chain [of a b c d xs] assms by auto
  have "zend_sort_5 cmp swp xs a b c d e = bubble ys [e, d, c, b, a]"
    by (simp add: zend_sort_5_def ys(1)) (auto simp: res_bind_def split: sum.split)
  then show ?thesis using bubble_spec [of e "[d, c, b, a]" ys] d l o ys by auto
qed

subsection \<open>Insertion sort\<close>

lemma chain_ordered:
  "chain xs [b..<e] \<Longrightarrow> ordered xs b e"
  unfolding ordered_def
proof (intro allI impI, elim conjE)
  fix k l assume c: "chain xs [b..<e]" and kl: "b \<le> k" "k < l" "l < e"
  then have "k - b < l - b" "l - b < e - b" by linarith+
  then show "\<not> gt (part (xs ! k)) (part (xs ! l))"
    using c [unfolded chain_def, rule_format, of "k - b" "l - b"] kl by auto
qed

lemma upt_small:
  "[b..<b + 2] = [b, b + 1]" "[b..<b + 3] = [b, b + 1, b + 2]" "[b..<b + 4] = [b, b + 1, b + 2, b + 3]"
  "[b..<b + 5] = [b, b + 1, b + 2, b + 3, b + 4]"
  by (simp_all add: upt_rec eval_nat_numeral)

lemma zend_insert_sort_spec:
  assumes "b + n \<le> length xs"
  shows "\<exists>ys. zend_insert_sort cmp swp xs b n = Inr ys \<and> permuted b (b + n) xs ys \<and>
     (preorder \<longrightarrow> ordered ys b (b + n))"
proof -
  have small: ?thesis
    if r: "runs b (b + n) xs m" "zend_insert_sort cmp swp xs b n = m"
      and c: "preorder \<Longrightarrow> \<exists>ys. m = Inr ys \<and> length ys = length xs \<and> chain ys [b..<b + n]" for m
    using r c chain_ordered by (fastforce simp: runs_def)
  consider "n \<le> 1" | "n = 2" | "n = 3" | "n = 4" | "n = 5" | "6 \<le> n" by linarith
  then show ?thesis
  proof cases
    case 1
    then show ?thesis by (auto simp: zend_insert_sort_def intro: ordered_trivial)
  next
    case 2
    then show ?thesis
      using sort_2_chain [of b "b + 1" xs] sort_2_runs [of b b "b + 2" "b + 1" xs] assms
      by (intro small) (auto simp: zend_insert_sort_def upt_small)
  next
    case 3
    then show ?thesis
      using sort_3_chain [of b "b + 1" "b + 2" xs] sort_3_runs [of b b "b + 3" "b + 1" "b + 2" xs] assms
      by (intro small) (auto simp: zend_insert_sort_def upt_small)
  next
    case 4
    then show ?thesis
      using sort_4_chain [of b "b + 1" "b + 2" "b + 3" xs]
        sort_4_runs [of b b "b + 4" "b + 1" "b + 2" "b + 3" xs] assms
      by (intro small) (auto simp: zend_insert_sort_def upt_small)
  next
    case 5
    then show ?thesis
      using sort_5_chain [of b "b + 1" "b + 2" "b + 3" "b + 4" xs]
        sort_5_runs [of b b "b + 5" "b + 1" "b + 2" "b + 3" "b + 4" xs] assms
      by (intro small) (auto simp: zend_insert_sort_def upt_small)
  next
    case 6
    obtain ys where ys: "insert_loop (insert_step (\<lambda>xs. insert_place cmp xs b) cmp swp) [b + 1..<b + 6] xs = Inr ys"
        "permuted b (b + 6) xs ys" "preorder \<longrightarrow> ordered xs b (b + 1) \<longrightarrow> ordered ys b (b + 6)"
      using insert_loop_spec [of b "b + 1" "b + 6" xs "\<lambda>xs. insert_place cmp xs b"] insert_place_finds [of b] 6 assms
      by auto
    obtain zs where zs: "insert_loop (insert_step (\<lambda>xs. insert_place_2 cmp xs b) cmp swp) [b + 6..<b + n] ys = Inr zs"
        "permuted b (b + n) ys zs" "preorder \<longrightarrow> ordered ys b (b + 6) \<longrightarrow> ordered zs b (b + n)"
      using insert_loop_spec [of b "b + 6" "b + n" ys "\<lambda>xs. insert_place_2 cmp xs b"] insert_place_2_finds [of b] 6
        assms permuted_length [OF ys(2)] by auto
    have "permuted b (b + n) xs zs"
      using permuted_trans [OF permuted_mono [OF ys(2) order_refl] zs(2)] 6 by simp
    then show ?thesis
      using 6 ys zs ordered_trivial [of "b + 1" b xs] by (auto simp: zend_insert_sort_def Let_def)
  qed
qed

subsection \<open>Partition\<close>

lemma permuted_elems:
  assumes p: "permuted b e xs ys" and k: "b \<le> k" "k < e" "e \<le> length xs"
  obtains l where "b \<le> l" "l < e" "part (ys ! k) = part (xs ! l)"
proof -
  let ?mid = "\<lambda>zs. drop b (take e (map part zs))"
  have len: "length ys = length xs" and m: "mset (map part ys) = mset (map part xs)"
    using p by (auto simp: permuted_def)
  have split: "map part zs = take b (map part zs) @ ?mid zs @ drop e (map part zs)" for zs :: "'a list"
  proof -
    have "take b (take e (map part zs)) = take b (map part zs)" using k by (simp add: min_absorb1)
    then show ?thesis by (metis append.assoc append_take_drop_id)
  qed
  have "take b (map part ys) = take b (map part xs)"
    by (rule nth_equalityI) (use len permuted_outside [OF p] in auto)
  moreover have "drop e (map part ys) = drop e (map part xs)"
    by (rule nth_equalityI) (use len permuted_outside [OF p] in auto)
  ultimately have "mset (?mid ys) = mset (?mid xs)"
    using m split [of xs] split [of ys] by (metis add_left_cancel add_right_cancel mset_append)
  then have s: "set (?mid ys) = set (?mid xs)" by (rule mset_eq_setD)
  have "?mid ys ! (k - b) = part (ys ! k)" "k - b < length (?mid ys)" using k len by (auto simp: add_diff_inverse_nat)
  then have "part (ys ! k) \<in> set (?mid xs)" using s by (metis nth_mem)
  then obtain j where "j < length (?mid xs)" "part (ys ! k) = ?mid xs ! j" by (metis in_set_conv_nth)
  then show thesis using that [of "b + j"] k by auto
qed

lemma scan_up_spec:
  "pivot < length xs \<Longrightarrow> i < j \<Longrightarrow> j \<le> length xs \<Longrightarrow> \<exists>d i'. scan_up cmp xs pivot i j = Inr (d, i') \<and>
     i \<le> i' \<and> i' \<le> j \<and> (if d then i' = j else i' < j \<and> \<not> gt (part (xs ! pivot)) (part (xs ! i'))) \<and>
     (\<forall>k. i \<le> k \<and> k < i' \<longrightarrow> gt (part (xs ! pivot)) (part (xs ! k)))"
proof (induction "j - i" arbitrary: i)
  case 0
  then show ?case by simp
next
  case (Suc n)
  note unf = scan_up.simps [of cmp xs pivot i j] cmp_gt_parts [of pivot xs i]
  show ?case
  proof (cases "gt (part (xs ! pivot)) (part (xs ! i))")
    case False
    then have "scan_up cmp xs pivot i j = Inr (False, i)" using Suc.prems by (simp add: unf)
    then show ?thesis using Suc.prems False by (intro exI [of _ False] exI [of _ i]) auto
  next
    case True
    show ?thesis
    proof (cases "i + 1 = j")
      case True
      then have "scan_up cmp xs pivot i j = Inr (True, j)"
        using Suc.prems \<open>gt (part (xs ! pivot)) (part (xs ! i))\<close> by (simp add: unf)
      moreover have "k = i" if "i \<le> k" "k < j" for k using that True by linarith
      ultimately show ?thesis using \<open>gt (part (xs ! pivot)) (part (xs ! i))\<close> Suc.prems by auto
    next
      case False
      then obtain d i' where "scan_up cmp xs pivot (i + 1) j = Inr (d, i')" "i + 1 \<le> i'" "i' \<le> j"
          "if d then i' = j else i' < j \<and> \<not> gt (part (xs ! pivot)) (part (xs ! i'))"
          "\<forall>k. i + 1 \<le> k \<and> k < i' \<longrightarrow> gt (part (xs ! pivot)) (part (xs ! k))"
      proof -
        have "n = j - (i + 1)" "i + 1 < j" using Suc.hyps(2) Suc.prems False by linarith+
        from Suc.hyps(1) [OF this(1) Suc.prems(1) this(2) Suc.prems(3)] show thesis using that by blast
      qed
      moreover have "\<forall>k. i \<le> k \<and> k < i' \<longrightarrow> gt (part (xs ! pivot)) (part (xs ! k))"
        using calculation(5) True by (metis Suc_eq_plus1 le_antisym not_less_eq_eq)
      ultimately show ?thesis using Suc.prems True False by (auto simp: unf)
    qed
  qed
qed

lemma scan_down_spec:
  "pivot < length xs \<Longrightarrow> i < j \<Longrightarrow> j < length xs \<Longrightarrow> \<exists>d j'. scan_down cmp xs pivot i j = Inr (d, j') \<and>
     j' \<le> j \<and> (if d then j' = i else i < j' \<and> \<not> gt (part (xs ! j')) (part (xs ! pivot))) \<and>
     (\<forall>k. j' < k \<and> k \<le> j \<longrightarrow> gt (part (xs ! k)) (part (xs ! pivot)))"
proof (induction j)
  case 0
  then show ?case by simp
next
  case (Suc j)
  note unf = scan_down.simps [of cmp xs pivot i "Suc j"] cmp_gt_parts [of "Suc j" xs pivot]
  show ?case
  proof (cases "gt (part (xs ! Suc j)) (part (xs ! pivot))")
    case False
    then have "scan_down cmp xs pivot i (Suc j) = Inr (False, Suc j)" using Suc.prems by (simp add: unf)
    then show ?thesis using Suc.prems False by (intro exI [of _ False] exI [of _ "Suc j"]) auto
  next
    case True
    show ?thesis
    proof (cases "j = i")
      case True
      then have "scan_down cmp xs pivot i (Suc j) = Inr (True, i)"
        using Suc.prems \<open>gt (part (xs ! Suc j)) (part (xs ! pivot))\<close> by (subst scan_down.simps) (simp add: cmp_gt_parts)
      moreover have "k = Suc j" if "i < k" "k \<le> Suc j" for k using that True by linarith
      ultimately show ?thesis using \<open>gt (part (xs ! Suc j)) (part (xs ! pivot))\<close> Suc.prems by auto
    next
      case False
      then obtain d j' where "scan_down cmp xs pivot i j = Inr (d, j')" "j' \<le> j"
          "if d then j' = i else i < j' \<and> \<not> gt (part (xs ! j')) (part (xs ! pivot))"
          "\<forall>k. j' < k \<and> k \<le> j \<longrightarrow> gt (part (xs ! k)) (part (xs ! pivot))"
        using Suc by auto
      then show ?thesis using Suc.prems True False by (auto simp: unf le_Suc_eq)
    qed
  qed
qed

text \<open>Not above, and not below, the pivot.\<close>

definition low :: "'p \<Rightarrow> 'p \<Rightarrow> bool" where
  "low pv q \<longleftrightarrow> gt pv q \<or> \<not> gt q pv"

definition high :: "'p \<Rightarrow> 'p \<Rightarrow> bool" where
  "high pv q \<longleftrightarrow> gt q pv \<or> \<not> gt pv q"

lemma partition_loop_spec:
  "pivot < i \<Longrightarrow> i < j \<Longrightarrow> j < length xs \<Longrightarrow> \<exists>ys k. partition_loop cmp swp xs pivot i j = Inr (ys, k) \<and>
     permuted i j xs ys \<and> i \<le> k \<and> k \<le> j \<and>
     (\<forall>m. i \<le> m \<and> m < k \<longrightarrow> low (part (xs ! pivot)) (part (ys ! m))) \<and>
     (\<forall>m. k \<le> m \<and> m < j \<longrightarrow> high (part (xs ! pivot)) (part (ys ! m)))"
proof (induction "j - i" arbitrary: i j xs rule: less_induct)
  case less
  let ?pv = "part (xs ! pivot)"
  obtain d i1 where up: "scan_up cmp xs pivot i j = Inr (d, i1)" "i \<le> i1" "i1 \<le> j"
      "if d then i1 = j else i1 < j \<and> \<not> gt ?pv (part (xs ! i1))"
      "\<forall>k. i \<le> k \<and> k < i1 \<longrightarrow> gt ?pv (part (xs ! k))"
    using scan_up_spec [of pivot xs i j] less.prems by auto
  obtain jp where jp: "j = Suc jp" using less.prems by (cases j) auto
  note unf = partition_loop.simps [of cmp swp xs pivot i "Suc jp"]
  show ?case
  proof (cases "d \<or> jp = i1")
    case True
    then have "partition_loop cmp swp xs pivot i j = Inr (xs, i1)"
      using up(1) jp by (auto simp: unf Let_def)
    then show ?thesis using up True jp by (auto simp: low_def high_def less_Suc_eq split: if_splits)
  next
    case nd: False
    then have i1: "i1 < jp" "\<not> gt ?pv (part (xs ! i1))" using up(3,4) jp by auto
    obtain e j1 where down: "scan_down cmp xs pivot i1 jp = Inr (e, j1)" "j1 \<le> jp"
        "if e then j1 = i1 else i1 < j1 \<and> \<not> gt (part (xs ! j1)) ?pv"
        "\<forall>k. j1 < k \<and> k \<le> jp \<longrightarrow> gt (part (xs ! k)) ?pv"
      using scan_down_spec [of pivot xs i1 jp] i1 less.prems jp by auto
    show ?thesis
    proof (cases e)
      case True
      then have "partition_loop cmp swp xs pivot i j = Inr (xs, i1)"
        using up(1) jp nd down(1) by (auto simp: unf Let_def)
      moreover have "high ?pv (part (xs ! m))" if "i1 \<le> m" "m < j" for m
        using that True down(3,4) i1 jp by (cases "m = i1") (auto simp: high_def)
      ultimately show ?thesis using up by (auto simp: low_def)
    next
      case ne: False
      then have j1: "i1 < j1" "\<not> gt (part (xs ! j1)) ?pv" using down(3) by auto
      have l: "i1 < length xs" "j1 < length xs" using j1 down(2) jp less.prems by auto
      obtain zs where zs: "swp_at swp xs i1 j1 = Inr zs" "length zs = length xs" "part (zs ! i1) = part (xs ! j1)"
          "part (zs ! j1) = part (xs ! i1)" "\<And>k. k \<noteq> i1 \<Longrightarrow> k \<noteq> j1 \<Longrightarrow> part (zs ! k) = part (xs ! k)"
        using swp_at_parts [OF l] by blast
      have pz: "permuted i j xs zs"
        using runs_swp [of i i1 j j1 xs] zs(1) up(2) i1 j1 down(2) jp less.prems by (auto simp: runs_def)
      have lo: "low ?pv (part (zs ! m))" if "i \<le> m" "m \<le> i1" for m
        using that zs(3) zs(5) [of m] up(5) j1 by (cases "m = i1") (auto simp: low_def)
      have hi: "high ?pv (part (zs ! m))" if "j1 \<le> m" "m < j" for m
        using that zs(4) zs(5) [of m] down(4) i1 j1 jp by (cases "m = j1") (auto simp: high_def)
      show ?thesis
      proof (cases "i1 + 1 = j1")
        case True
        then have "partition_loop cmp swp xs pivot i j = Inr (zs, i1 + 1)"
          using up(1) jp nd down(1) ne zs(1) by (auto simp: unf Let_def)
        then show ?thesis using pz lo hi True up i1 jp by (intro exI [of _ zs] exI [of _ "i1 + 1"]) auto
      next
        case False
        have "part (zs ! pivot) = ?pv" using zs(5) [of pivot] less.prems up(2) j1 by simp
        then obtain ys k where ys: "partition_loop cmp swp zs pivot (i1 + 1) j1 = Inr (ys, k)"
            "permuted (i1 + 1) j1 zs ys" "i1 + 1 \<le> k" "k \<le> j1"
            "\<forall>m. i1 + 1 \<le> m \<and> m < k \<longrightarrow> low ?pv (part (ys ! m))"
            "\<forall>m. k \<le> m \<and> m < j1 \<longrightarrow> high ?pv (part (ys ! m))"
        proof -
          have lt: "j1 - (i1 + 1) < j - i" using j1 down(2) jp up(2) less.prems by arith
          have pre: "pivot < i1 + 1" "i1 + 1 < j1" "j1 < length zs"
            using False j1 down(2) jp up(2) less.prems zs(2) by auto
          from less.hyps [OF lt pre] \<open>part (zs ! pivot) = ?pv\<close> show thesis using that by metis
        qed
        have out: "part (ys ! m) = part (zs ! m)" if "m < length xs" "m < i1 + 1 \<or> j1 \<le> m" for m
          using permuted_outside [OF ys(2)] that zs(2) by simp
        have "partition_loop cmp swp xs pivot i j = Inr (ys, k)"
          using up(1) jp nd down(1) ne zs(1) ys(1) False by (auto simp: unf Let_def)
        moreover have "permuted i j xs ys"
          by (rule permuted_trans [OF pz permuted_mono [OF ys(2)]]) (use up(2) down(2) jp in auto)
        moreover have "low ?pv (part (ys ! m))" if "i \<le> m" "m < k" for m
          using lo [of m] ys(5) out [of m] that ys(4) l by (cases "m \<le> i1") auto
        moreover have "high ?pv (part (ys ! m))" if "k \<le> m" "m < j" for m
          using hi [of m] ys(6) out [of m] that less.prems by (cases "m < j1") auto
        ultimately show ?thesis using ys(3,4) up(2) down(2) jp
          by (intro exI [of _ ys] exI [of _ k]) auto
      qed
    qed
  qed
qed

lemma zend_sort_partition_spec:
  assumes n: "16 < n" and len: "b + n \<le> length xs"
  shows "\<exists>ys i. zend_sort_partition cmp swp xs b n = Inr (ys, i) \<and> permuted b (b + n) xs ys \<and>
     b + 2 \<le> i \<and> i < b + n \<and>
     (preorder \<longrightarrow> (\<forall>m. b \<le> m \<and> m < i - 1 \<longrightarrow> \<not> gt (part (ys ! m)) (part (ys ! (i - 1)))) \<and>
       (\<forall>m. i \<le> m \<and> m < b + n \<longrightarrow> \<not> gt (part (ys ! (i - 1))) (part (ys ! m))))"
proof -
  let ?e = "b + n" and ?o = "n div 2"
  have o: "8 \<le> ?o" "?o + 8 \<le> n" "?o + ?o \<le> n" using n by linarith+
  define m1 where "m1 = (if n div 1024 \<noteq> 0
     then zend_sort_5 cmp swp xs b (b + ?o div 2) (b + ?o) (b + ?o + ?o div 2) (?e - 1)
     else zend_sort_3 cmp swp xs b (b + ?o) (?e - 1))"
  have d: "4 \<le> ?o div 2" "?o div 2 + ?o div 2 \<le> ?o" using o by linarith+
  have "runs b ?e xs m1"
    unfolding m1_def using o d len by (intro runs_if sort_5_runs sort_3_runs) linarith+
  then obtain x1 where x1: "m1 = Inr x1" "permuted b ?e xs x1" by (auto simp: runs_def)
  have l1: "length x1 = length xs" using permuted_length [OF x1(2)] .
  have ends: "\<not> gt (part (x1 ! b)) (part (x1 ! (b + ?o)))" "\<not> gt (part (x1 ! (b + ?o))) (part (x1 ! (?e - 1)))"
    if preorder
  proof -
    have "distinct [b, b + ?o div 2, b + ?o, b + ?o + ?o div 2, ?e - 1]"
      "distinct [b, b + ?o, ?e - 1]" using o d by auto
    note dist = this
    have "\<not> gt (part (x1 ! b)) (part (x1 ! (b + ?o))) \<and> \<not> gt (part (x1 ! (b + ?o))) (part (x1 ! (?e - 1)))"
    proof (cases "n div 1024 = 0")
      case True
      have "\<forall>p \<in> set [b, b + ?o, ?e - 1]. p < length xs" using o len by auto
      from sort_3_chain [OF dist(2) this that] x1(1) True have "chain x1 [b, b + ?o, ?e - 1]"
        by (simp add: m1_def)
      then show ?thesis by (simp add: chain_simps)
    next
      case False
      have "b + ?o + ?o div 2 < length xs" "b + ?o div 2 < length xs" "b + ?o < length xs" "?e - 1 < length xs"
          "b < length xs"
        using o d len by linarith+
      then have "\<forall>p \<in> set [b, b + ?o div 2, b + ?o, b + ?o + ?o div 2, ?e - 1]. p < length xs" by simp
      from sort_5_chain [OF dist(1) this that] x1(1) False
      have "chain x1 [b, b + ?o div 2, b + ?o, b + ?o + ?o div 2, ?e - 1]" by (simp add: m1_def)
      then show ?thesis by (simp add: chain_simps)
    qed
    then show "\<not> gt (part (x1 ! b)) (part (x1 ! (b + ?o)))" "\<not> gt (part (x1 ! (b + ?o))) (part (x1 ! (?e - 1)))"
      by auto
  qed
  obtain x2 where x2: "swp_at swp x1 (b + 1) (b + ?o) = Inr x2" "length x2 = length x1"
      "part (x2 ! (b + 1)) = part (x1 ! (b + ?o))"
      "\<And>k. k \<noteq> b + 1 \<Longrightarrow> k \<noteq> b + ?o \<Longrightarrow> part (x2 ! k) = part (x1 ! k)"
    using swp_at_parts [of "b + 1" x1 "b + ?o"] o len l1 by auto
  have p2: "permuted b ?e x1 x2"
    using runs_swp [of b "b + 1" ?e "b + ?o" x1] x2(1) o len l1 by (auto simp: runs_def)
  let ?pv = "part (x2 ! (b + 1))"
  obtain x3 i where x3: "partition_loop cmp swp x2 (b + 1) (b + 2) (?e - 1) = Inr (x3, i)"
      "permuted (b + 2) (?e - 1) x2 x3" "b + 2 \<le> i" "i \<le> ?e - 1"
      "\<forall>m. b + 2 \<le> m \<and> m < i \<longrightarrow> low ?pv (part (x3 ! m))"
      "\<forall>m. i \<le> m \<and> m < ?e - 1 \<longrightarrow> high ?pv (part (x3 ! m))"
  proof -
    have "b + 1 < b + 2" "b + 2 < ?e - 1" "?e - 1 < length x2" using n len x2(2) l1 by linarith+
    from partition_loop_spec [OF this] show thesis using that by blast
  qed
  have l3: "length x3 = length xs" using permuted_length [OF x3(2)] x2(2) l1 by simp
  have p3: "permuted b ?e x2 x3" by (rule permuted_mono [OF x3(2)]) linarith+
  have out: "part (x3 ! k) = part (x2 ! k)" if "k < length xs" "k < b + 2 \<or> ?e - 1 \<le> k" for k
    using permuted_outside [OF x3(2)] that x2(2) l1 by simp
  obtain x4 where x4: "swp_at swp x3 (b + 1) (i - 1) = Inr x4" "length x4 = length x3"
      "part (x4 ! (b + 1)) = part (x3 ! (i - 1))" "part (x4 ! (i - 1)) = part (x3 ! (b + 1))"
      "\<And>k. k \<noteq> b + 1 \<Longrightarrow> k \<noteq> i - 1 \<Longrightarrow> part (x4 ! k) = part (x3 ! k)"
  proof -
    have "b + 1 < length x3" "i - 1 < length x3" using x3(3,4) len l3 n by linarith+
    from swp_at_parts [OF this] show thesis using that by blast
  qed
  have p4: "permuted b ?e x3 x4"
    using runs_swp [of b "b + 1" ?e "i - 1" x3] x4(1) x3(3,4) len l3 n by (auto simp: runs_def)
  have r: "zend_sort_partition cmp swp xs b n = Inr (x4, i)"
    unfolding zend_sort_partition_def Let_def m1_def [symmetric] x1(1) res_bind_simps x2(1) x3(1) prod.case
    using x3(3) x4(1) by simp
  have pv: "part (x4 ! (i - 1)) = ?pv" using x4(4) out [of "b + 1"] len n by simp
  have "\<not> gt (part (x4 ! m)) ?pv" if o': preorder and m: "b \<le> m" "m < i - 1" for m
  proof -
    have lo: "\<not> gt (part (x3 ! k)) ?pv" if "b + 2 \<le> k" "k < i" for k
      using x3(5) that preorderD(1) [OF o'] by (auto simp: low_def)
    consider "m = b" | "m = b + 1" | "b + 2 \<le> m" using m by linarith
    then show ?thesis
    proof cases
      case 1
      then have "part (x4 ! m) = part (x1 ! b)" using x4(5) [of b] x2(4) [of b] out [of b] m o len by simp
      then show ?thesis using ends(1) [OF o'] x2(3) by simp
    next
      case 2
      then show ?thesis using x4(3) lo [of "i - 1"] m by simp
    next
      case 3
      then show ?thesis using x4(5) [of m] lo [of m] m by simp
    qed
  qed
  moreover have "\<not> gt ?pv (part (x4 ! m))" if o': preorder and m: "i \<le> m" "m < ?e" for m
  proof (cases "m = ?e - 1")
    case True
    then have "part (x4 ! m) = part (x1 ! m)"
      using x4(5) [of m] x2(4) [of m] out [of m] m x3(3) o len by simp
    then show ?thesis using ends(2) [OF o'] x2(3) True by simp
  next
    case False
    then have "high ?pv (part (x3 ! m))" using x3(6) m by simp
    then show ?thesis using x4(5) [of m] m x3(3) preorderD(1) [OF o'] by (auto simp: high_def)
  qed
  moreover have "permuted b ?e xs x4"
    using permuted_trans [OF permuted_trans [OF x1(2) p2] permuted_trans [OF p3 p4]] .
  moreover have "i < b + n" using x3(4) n by linarith
  ultimately show ?thesis using r x3(3) pv by (intro exI [of _ x4] exI [of _ i]) simp
qed

subsection \<open>The hybrid sort\<close>

text \<open>Sorting both sides of a pivot that is in its place, in either order, sorts the whole.\<close>

lemma ordered_cong:
  "(\<And>m. b \<le> m \<Longrightarrow> m < e \<Longrightarrow> part (ys ! m) = part (xs ! m)) \<Longrightarrow> ordered xs b e \<Longrightarrow> ordered ys b e"
  by (auto simp: ordered_def)

lemma ordered_join:
  assumes o: preorder
    and lo: "\<And>m. b \<le> m \<Longrightarrow> m < p \<Longrightarrow> \<not> gt (part (xs ! m)) (part (xs ! p))"
    and hi: "\<And>m. p < m \<Longrightarrow> m < e \<Longrightarrow> \<not> gt (part (xs ! p)) (part (xs ! m))"
    and left: "\<And>m. b \<le> m \<Longrightarrow> m < p \<Longrightarrow> \<exists>j. b \<le> j \<and> j < p \<and> part (zs ! m) = part (xs ! j)"
    and right: "\<And>m. p < m \<Longrightarrow> m < e \<Longrightarrow> \<exists>j. p < j \<and> j < e \<and> part (zs ! m) = part (xs ! j)"
    and pv: "part (zs ! p) = part (xs ! p)"
    and ord: "ordered zs b p" "ordered zs (p + 1) e"
  shows "ordered zs b e"
  unfolding ordered_def
proof (intro allI impI, elim conjE)
  fix k l assume kl: "b \<le> k" "k < l" "l < e"
  have lo': "\<not> gt (part (zs ! m)) (part (zs ! p))" if "b \<le> m" "m < p" for m
    using left [OF that] lo pv by auto
  have hi': "\<not> gt (part (zs ! p)) (part (zs ! m))" if "p < m" "m < e" for m
    using right [OF that] hi pv by auto
  consider "l < p" | "l = p" | "k < p" "p < l" | "k = p" | "p < k" using kl by linarith
  then show "\<not> gt (part (zs ! k)) (part (zs ! l))"
  proof cases
    case 1
    then show ?thesis using orderedD [OF ord(1), of k l] kl by simp
  next
    case 2
    then show ?thesis using lo' [of k] kl by simp
  next
    case 3
    then show ?thesis
      using lo' [of k] hi' [of l] preorderD(2) [OF o, of "part (zs ! k)" "part (zs ! p)"] kl by simp
  next
    case 4
    then show ?thesis using hi' [of l] kl by simp
  next
    case 5
    then show ?thesis using orderedD [OF ord(2), of k l] kl by simp
  qed
qed

text \<open>Two disjoint ranges, one after the other.\<close>

lemma permuted_two:
  assumes p1: "permuted b e xs ys" and p2: "permuted b' e' ys zs" and dis: "e \<le> b' \<or> e' \<le> b"
    and le: "e \<le> length xs" "e' \<le> length xs"
  shows "b \<le> m \<Longrightarrow> m < e \<Longrightarrow> \<exists>j. b \<le> j \<and> j < e \<and> part (zs ! m) = part (xs ! j)"
    "b' \<le> m \<Longrightarrow> m < e' \<Longrightarrow> \<exists>j. b' \<le> j \<and> j < e' \<and> part (zs ! m) = part (xs ! j)"
    "m < length xs \<Longrightarrow> m < b \<or> e \<le> m \<Longrightarrow> m < b' \<or> e' \<le> m \<Longrightarrow> part (zs ! m) = part (xs ! m)"
    "ordered ys b e \<Longrightarrow> ordered zs b e"
proof -
  have len: "length ys = length xs" using permuted_length [OF p1] .
  have y: "part (zs ! m) = part (ys ! m)" if "m < length xs" "m < b' \<or> e' \<le> m" for m
    using permuted_outside [OF p2] that len by simp
  have x: "part (ys ! m) = part (xs ! m)" if "m < length xs" "m < b \<or> e \<le> m" for m
    using permuted_outside [OF p1] that by simp
  show "\<exists>j. b \<le> j \<and> j < e \<and> part (zs ! m) = part (xs ! j)" if m: "b \<le> m" "m < e"
    using permuted_elems [OF p1 m le(1)] y [of m] m dis le by (metis le_trans less_le_trans not_less)
  show "\<exists>j. b' \<le> j \<and> j < e' \<and> part (zs ! m) = part (xs ! j)" if m: "b' \<le> m" "m < e'"
  proof -
    have "e' \<le> length ys" using le len by simp
    from permuted_elems [OF p2 m this] obtain j where j: "b' \<le> j" "j < e'" "part (zs ! m) = part (ys ! j)" .
    then have "part (ys ! j) = part (xs ! j)" using x [of j] dis le by (metis le_trans less_le_trans not_less)
    with j show ?thesis by auto
  qed
  show "part (zs ! m) = part (xs ! m)" if "m < length xs" "m < b \<or> e \<le> m" "m < b' \<or> e' \<le> m"
    using that x y by simp
  show "ordered zs b e" if "ordered ys b e"
    using that by (rule ordered_cong [rotated]) (use y dis le in \<open>metis le_trans less_le_trans not_less\<close>)
qed

theorem zend_sort_spec:
  "b + n \<le> length xs \<Longrightarrow> \<exists>ys. zend_sort cmp swp xs b n = Inr ys \<and> permuted b (b + n) xs ys \<and>
     (preorder \<longrightarrow> ordered ys b (b + n))"
proof (induction n arbitrary: b xs rule: less_induct)
  case (less n)
  show ?case
  proof (cases "n \<le> 16")
    case True
    then show ?thesis using zend_insert_sort_spec [OF less.prems] by (simp add: zend_sort.simps [of cmp swp xs b n])
  next
    case False
    let ?e = "b + n"
    obtain xs1 i where part: "zend_sort_partition cmp swp xs b n = Inr (xs1, i)" "permuted b ?e xs xs1"
        "b + 2 \<le> i" "i < ?e"
        "\<And>m. preorder \<Longrightarrow> b \<le> m \<Longrightarrow> m < i - 1 \<Longrightarrow> \<not> gt (part (xs1 ! m)) (part (xs1 ! (i - 1)))"
        "\<And>m. preorder \<Longrightarrow> i \<le> m \<Longrightarrow> m < ?e \<Longrightarrow> \<not> gt (part (xs1 ! (i - 1))) (part (xs1 ! m))"
      using zend_sort_partition_spec [of n b xs] False less.prems by auto
    define p where "p = i - 1"
    have p: "i = p + 1" "b < p" "p + 1 < ?e" "i - b - 1 = p - b" using part(3,4) by (auto simp: p_def)
    have len: "length xs1 = length xs" using permuted_length [OF part(2)] .
    have L: "\<exists>zs. zend_sort cmp swp ys b (p - b) = Inr zs \<and> permuted b p ys zs \<and> (preorder \<longrightarrow> ordered zs b p)"
      if "length ys = length xs" for ys
      using less.IH [of "p - b" b ys] p less.prems that by simp
    have R: "\<exists>zs. zend_sort cmp swp ys (p + 1) (?e - (p + 1)) = Inr zs \<and> permuted (p + 1) ?e ys zs \<and>
        (preorder \<longrightarrow> ordered zs (p + 1) ?e)" if "length ys = length xs" for ys
    proof -
      have "?e - (p + 1) < n" "p + 1 + (?e - (p + 1)) = ?e" using p by linarith+
      then show ?thesis using less.IH [of "?e - (p + 1)" "p + 1" ys] less.prems that by metis
    qed
    have unf: "zend_sort cmp swp xs b n = (if p - b < ?e - (p + 1)
        then res_bind (zend_sort cmp swp xs1 b (p - b)) (\<lambda>xs. zend_sort cmp swp xs (p + 1) (?e - (p + 1)))
        else res_bind (zend_sort cmp swp xs1 (p + 1) (?e - (p + 1))) (\<lambda>xs. zend_sort cmp swp xs b (p - b)))"
      using False part(1) p(1) by (simp add: zend_sort.simps [of cmp swp xs b n] Let_def)
    show ?thesis
    proof (cases "p - b < ?e - (p + 1)")
      case True
      obtain ys where ys: "zend_sort cmp swp xs1 b (p - b) = Inr ys" "permuted b p xs1 ys"
          "preorder \<longrightarrow> ordered ys b p"
        using L [OF len] by blast
      obtain zs where zs: "zend_sort cmp swp ys (p + 1) (?e - (p + 1)) = Inr zs" "permuted (p + 1) ?e ys zs"
          "preorder \<longrightarrow> ordered zs (p + 1) ?e"
        using R [of ys] permuted_length [OF ys(2)] len by auto
      have "ordered zs b ?e" if o: preorder
      proof (rule ordered_join [OF o, of b p xs1])
        note two = permuted_two [OF ys(2) zs(2)]
        show "ordered zs b p" "part (zs ! p) = part (xs1 ! p)"
          "b \<le> m \<Longrightarrow> m < p \<Longrightarrow> \<exists>j. b \<le> j \<and> j < p \<and> part (zs ! m) = part (xs1 ! j)" for m
          using two(1) [of m] two(3) [of p] two(4) ys(3) o p less.prems len by auto
        show "p < m \<Longrightarrow> m < ?e \<Longrightarrow> \<exists>j. p < j \<and> j < ?e \<and> part (zs ! m) = part (xs1 ! j)" for m
          using two(2) [of m] p less.prems len by (auto simp: Suc_le_eq)
      qed (use part(5,6) o p zs(3) in auto)
      moreover have "permuted b ?e xs zs"
        by (rule permuted_trans [OF part(2) permuted_trans [OF permuted_mono [OF ys(2)] permuted_mono [OF zs(2)]]])
          (use p in auto)
      moreover have "zend_sort cmp swp xs b n = Inr zs" using True unf ys(1) zs(1) by simp
      ultimately show ?thesis by blast
    next
      case False
      obtain ys where ys: "zend_sort cmp swp xs1 (p + 1) (?e - (p + 1)) = Inr ys" "permuted (p + 1) ?e xs1 ys"
          "preorder \<longrightarrow> ordered ys (p + 1) ?e"
        using R [OF len] by blast
      obtain zs where zs: "zend_sort cmp swp ys b (p - b) = Inr zs" "permuted b p ys zs"
          "preorder \<longrightarrow> ordered zs b p"
        using L [of ys] permuted_length [OF ys(2)] len by auto
      have "ordered zs b ?e" if o: preorder
      proof (rule ordered_join [OF o, of b p xs1])
        note two = permuted_two [OF ys(2) zs(2)]
        show "ordered zs (p + 1) ?e" "part (zs ! p) = part (xs1 ! p)"
          "b \<le> m \<Longrightarrow> m < p \<Longrightarrow> \<exists>j. b \<le> j \<and> j < p \<and> part (zs ! m) = part (xs1 ! j)" for m
          using two(2) [of m] two(3) [of p] two(4) ys(3) o p less.prems len by auto
        show "p < m \<Longrightarrow> m < ?e \<Longrightarrow> \<exists>j. p < j \<and> j < ?e \<and> part (zs ! m) = part (xs1 ! j)" for m
          using two(1) [of m] p less.prems len by (auto simp: Suc_le_eq)
      qed (use part(5,6) o p zs(3) in auto)
      moreover have "permuted b ?e xs zs"
        by (rule permuted_trans [OF part(2) permuted_trans [OF permuted_mono [OF ys(2)] permuted_mono [OF zs(2)]]])
          (use p in auto)
      moreover have "zend_sort cmp swp xs b n = Inr zs" using False unf ys(1) zs(1) by simp
      ultimately show ?thesis by blast
    qed
  qed
qed

end

end
