(* ===== verification/Zend_Sort_Swap.thy ===== *)
theory Zend_Sort_Swap
  imports Zend_Sort
begin

subsection \<open>Replacing the swap function\<close>

text \<open>
  Two swap functions that do the same to elements with a property, and keep the property, sort
  a range of such elements the same way.
\<close>

locale same_swap =
  fixes K :: "'a \<Rightarrow> bool" and swp swp' :: "'a swap_func"
  assumes swp_same: "K x \<Longrightarrow> K y \<Longrightarrow> swp' x y = swp x y"
    and swp_keeps: "K x \<Longrightarrow> K y \<Longrightarrow> K (fst (swp x y))" "K x \<Longrightarrow> K y \<Longrightarrow> K (snd (swp x y))"
begin

definition stays :: "nat \<Rightarrow> nat \<Rightarrow> 'a list \<Rightarrow> bool" where
  "stays b e xs \<longleftrightarrow> (\<forall>k. b \<le> k \<and> k < e \<longrightarrow> k < length xs \<and> K (xs ! k))"

definition agrees :: "nat \<Rightarrow> nat \<Rightarrow> 'a list res \<Rightarrow> 'a list res \<Rightarrow> bool" where
  "agrees b e m m' \<longleftrightarrow> m' = m \<and> (\<forall>ys. m = Inr ys \<longrightarrow> stays b e ys)"

lemma agrees_Inr: "stays b e xs \<Longrightarrow> agrees b e (Inr xs) (Inr xs)"
  by (simp add: agrees_def)

lemma agrees_Inl: "agrees b e (Inl u) (Inl u)"
  by (simp add: agrees_def)

lemma agrees_if: "(c \<Longrightarrow> agrees b e m m') \<Longrightarrow> (\<not> c \<Longrightarrow> agrees b e n n') \<Longrightarrow>
   agrees b e (if c then m else n) (if c then m' else n')"
  by simp

lemma agrees_cmp:
  "(\<And>g. agrees b e (f g) (f' g)) \<Longrightarrow>
   agrees b e (res_bind (cmp_gt cmp xs a c) f) (res_bind (cmp_gt cmp xs a c) f')"
  by (cases "cmp_gt cmp xs a c") (simp_all add: agrees_Inl)

lemma agrees_swp:
  assumes s: "stays b e xs" and a: "b \<le> a" "a < e" and c: "b \<le> c" "c < e"
  shows "agrees b e (swp_at swp xs a c) (swp_at swp' xs a c)"
proof -
  have k: "K (xs ! a)" "K (xs ! c)" and l: "a < length xs" "c < length xs" using s a c by (auto simp: stays_def)
  have "stays b e (xs[a := fst (swp (xs ! a) (xs ! c)), c := snd (swp (xs ! a) (xs ! c))])"
    using s l swp_keeps [OF k] unfolding stays_def by (auto simp: nth_list_update)
  then show ?thesis using l by (simp add: agrees_def swp_at_def swp_same [OF k])
qed

lemma agrees_bind:
  assumes "agrees b e m m'" "\<And>ys. stays b e ys \<Longrightarrow> agrees b e (f ys) (f' ys)"
  shows "agrees b e (res_bind m f) (res_bind m' f')"
  using assms by (cases m) (auto simp: agrees_def)

lemma agrees_bind_pair:
  assumes "agrees b e m m'"
    and "\<And>ys. stays b e ys \<Longrightarrow> f' ys = f ys \<and> (\<forall>zs k. f ys = Inr (zs, k) \<longrightarrow> stays b e zs)"
  shows "res_bind m' f' = res_bind m f \<and> (\<forall>zs k. res_bind m f = Inr (zs, k) \<longrightarrow> stays b e zs)"
  using assms by (cases m) (auto simp: agrees_def)

lemmas agrees_intros = agrees_Inr agrees_if agrees_cmp agrees_swp agrees_bind

lemma sort_2_agrees:
  "stays b e xs \<Longrightarrow> b \<le> p \<Longrightarrow> p < e \<Longrightarrow> b \<le> q \<Longrightarrow> q < e \<Longrightarrow>
   agrees b e (zend_sort_2 cmp swp xs p q) (zend_sort_2 cmp swp' xs p q)"
  unfolding zend_sort_2_def by (intro agrees_intros) assumption+

lemma sort_3_agrees:
  "stays b e xs \<Longrightarrow> b \<le> p \<Longrightarrow> p < e \<Longrightarrow> b \<le> q \<Longrightarrow> q < e \<Longrightarrow> b \<le> r \<Longrightarrow> r < e \<Longrightarrow>
   agrees b e (zend_sort_3 cmp swp xs p q r) (zend_sort_3 cmp swp' xs p q r)"
  unfolding zend_sort_3_def by (intro agrees_intros) assumption+

lemma sort_4_agrees:
  "stays b e xs \<Longrightarrow> b \<le> p \<Longrightarrow> p < e \<Longrightarrow> b \<le> q \<Longrightarrow> q < e \<Longrightarrow> b \<le> r \<Longrightarrow> r < e \<Longrightarrow> b \<le> s \<Longrightarrow> s < e \<Longrightarrow>
   agrees b e (zend_sort_4 cmp swp xs p q r s) (zend_sort_4 cmp swp' xs p q r s)"
  unfolding zend_sort_4_def by (intro agrees_intros sort_3_agrees) assumption+

lemma sort_5_agrees:
  "stays b e xs \<Longrightarrow> b \<le> p \<Longrightarrow> p < e \<Longrightarrow> b \<le> q \<Longrightarrow> q < e \<Longrightarrow> b \<le> r \<Longrightarrow> r < e \<Longrightarrow> b \<le> s \<Longrightarrow> s < e \<Longrightarrow>
   b \<le> t \<Longrightarrow> t < e \<Longrightarrow>
   agrees b e (zend_sort_5 cmp swp xs p q r s t) (zend_sort_5 cmp swp' xs p q r s t)"
  unfolding zend_sort_5_def by (intro agrees_intros sort_4_agrees) assumption+

lemma shift_down_agrees:
  "stays b e xs \<Longrightarrow> b \<le> j \<Longrightarrow> k < e \<Longrightarrow> agrees b e (shift_down swp xs k j) (shift_down swp' xs k j)"
proof (induction k arbitrary: xs)
  case 0
  then show ?case by (simp add: shift_down.simps [of _ _ 0] agrees_Inr)
next
  case (Suc k)
  show ?case
    unfolding shift_down.simps [of swp xs "Suc k" j] shift_down.simps [of swp' xs "Suc k" j]
    by (cases "j < Suc k") (use Suc in \<open>auto intro!: agrees_intros\<close>)
qed

lemma insert_loop_agrees:
  assumes place: "\<And>xs i j. i \<in> set is \<Longrightarrow> place xs i (i - 1) = Inr j \<Longrightarrow> b \<le> j"
    and s: "stays b e xs" and idx: "\<forall>i \<in> set is. b < i \<and> i < e"
  shows "agrees b e (insert_loop (insert_step place cmp swp) is xs)
    (insert_loop (insert_step place cmp swp') is xs)"
  using assms
proof (induction "is" arbitrary: xs)
  case Nil
  then show ?case by (simp add: agrees_Inr)
next
  case (Cons i "is")
  have "agrees b e (res_bind (place xs i (i - 1)) (shift_down swp xs i))
      (res_bind (place xs i (i - 1)) (shift_down swp' xs i))"
  proof (cases "place xs i (i - 1)")
    case (Inr j)
    then have "b \<le> j" using Cons.prems(1) [OF _ Inr] by simp
    then show ?thesis using Inr Cons.prems by (auto intro: shift_down_agrees)
  qed (simp add: agrees_Inl)
  then have "agrees b e (insert_step place cmp swp i xs) (insert_step place cmp swp' i xs)"
    unfolding insert_step_def by (intro agrees_if agrees_cmp agrees_Inr agrees_Inl Cons.prems(2))
  then show ?case using Cons unfolding insert_loop.simps by (intro agrees_bind) auto
qed

end

lemma insert_place_ge: "insert_place cmp xs start i j = Inr k \<Longrightarrow> start \<le> j \<Longrightarrow> start \<le> k"
proof (induction cmp xs start i j rule: insert_place.induct)
  case (1 cmp xs start i j)
  from 1(2,3) show ?case
    unfolding insert_place.simps [of cmp xs start i j]
    using 1(1) by (fastforce simp: Let_def res_bind_Inr_iff split: if_splits)
qed

lemma insert_place_2_ge: "insert_place_2 cmp xs start i j = Inr k \<Longrightarrow> start + 2 \<le> j \<Longrightarrow> start \<le> k"
proof (induction cmp xs start i j rule: insert_place_2.induct)
  case (1 cmp xs start i j)
  show ?case
  proof (cases "start + 4 \<le> j")
    case True
    then have "start + 2 \<le> j - 2" by linarith
    with 1 show ?thesis
      unfolding insert_place_2.simps [of cmp xs start i j]
      by (fastforce simp: Let_def res_bind_Inr_iff split: if_splits)
  next
    case False
    with 1(3) have "j = start + 2 \<or> j = start + 3" by linarith
    then show ?thesis
    proof
      assume j: "j = start + 2"
      then have "j - 2 = start" "\<not> j < 2" by simp_all
      with 1(2) show ?thesis unfolding insert_place_2.simps [of cmp xs start i j]
        by (auto simp: Let_def res_bind_Inr_iff split: if_splits)
    next
      assume j: "j = start + 3"
      have unf: "insert_place_2 cmp xs start i j = res_bind (cmp_gt cmp xs (start + 1) i) (\<lambda>g. if \<not> g then
          res_bind (cmp_gt cmp xs (start + 2) i) (\<lambda>g. if \<not> g then Inr (start + 3) else Inr (start + 2))
          else res_bind (cmp_gt cmp xs i start) (\<lambda>g. if g then Inr (start + 1) else Inr start))"
        by (subst insert_place_2.simps) (simp add: j Let_def numeral_3_eq_3 cong: if_cong)
      show ?thesis using 1(2) unfolding unf by (auto simp: res_bind_Inr_iff split: if_splits)
    qed
  qed
qed

context same_swap
begin

lemma zend_insert_sort_agrees:
  assumes s: "stays b e xs" and r: "b \<le> base" "base + n \<le> e"
  shows "agrees b e (zend_insert_sort cmp swp xs base n) (zend_insert_sort cmp swp' xs base n)"
proof -
  have long: "agrees b e
      (res_bind (insert_loop (insert_step (\<lambda>xs. insert_place cmp xs base) cmp swp) [base + 1..<base + 6] xs)
        (insert_loop (insert_step (\<lambda>xs. insert_place_2 cmp xs base) cmp swp) [base + 6..<base + n]))
      (res_bind (insert_loop (insert_step (\<lambda>xs. insert_place cmp xs base) cmp swp') [base + 1..<base + 6] xs)
        (insert_loop (insert_step (\<lambda>xs. insert_place_2 cmp xs base) cmp swp') [base + 6..<base + n]))"
    if "5 < n"
  proof (rule agrees_bind [OF insert_loop_agrees [OF _ s] insert_loop_agrees])
    show "b \<le> j" if "i \<in> set [base + 1..<base + 6]" "insert_place cmp xs base i (i - 1) = Inr j" for xs i j
    proof -
      have "base \<le> i - 1" using that(1) by auto
      from insert_place_ge [OF that(2) this] r show ?thesis by simp
    qed
    show "b \<le> j" if "i \<in> set [base + 6..<base + n]" "insert_place_2 cmp xs base i (i - 1) = Inr j" for xs i j
    proof -
      have "base + 2 \<le> i - 1" using that(1) by auto
      from insert_place_2_ge [OF that(2) this] r show ?thesis by simp
    qed
  qed (use that r in auto)
  show ?thesis
    unfolding zend_insert_sort_def Let_def
  proof (intro agrees_if)
    show "agrees b e (Inr xs) (Inr xs)" by (rule agrees_Inr [OF s])
    show "agrees b e (zend_sort_2 cmp swp xs base (base + 1))
        (zend_sort_2 cmp swp' xs base (base + 1))" if "n = 2"
      by (rule sort_2_agrees [OF s]) (use that r in linarith)+
    show "agrees b e (zend_sort_3 cmp swp xs base (base + 1) (base + 2))
        (zend_sort_3 cmp swp' xs base (base + 1) (base + 2))" if "n = 3"
      by (rule sort_3_agrees [OF s]) (use that r in linarith)+
    show "agrees b e (zend_sort_4 cmp swp xs base (base + 1) (base + 2) (base + 3))
        (zend_sort_4 cmp swp' xs base (base + 1) (base + 2) (base + 3))" if "n = 4"
      by (rule sort_4_agrees [OF s]) (use that r in linarith)+
    show "agrees b e (zend_sort_5 cmp swp xs base (base + 1) (base + 2) (base + 3) (base + 4))
        (zend_sort_5 cmp swp' xs base (base + 1) (base + 2) (base + 3) (base + 4))" if "n = 5"
      by (rule sort_5_agrees [OF s]) (use that r in linarith)+
  qed (rule long, linarith)
qed

lemma partition_loop_agrees:
  assumes "stays b e xs" "b \<le> i" "i < j" "j < e"
  shows "partition_loop cmp swp' xs pivot i j = partition_loop cmp swp xs pivot i j \<and>
    (\<forall>ys k. partition_loop cmp swp xs pivot i j = Inr (ys, k) \<longrightarrow> stays b e ys)"
  using assms
proof (induction "length xs - i" arbitrary: xs i j rule: less_induct)
  case less
  note unf = partition_loop.simps [of cmp swp xs pivot i j] partition_loop.simps [of cmp swp' xs pivot i j]
  show ?case
  proof (cases "scan_up cmp xs pivot i j")
    case (Inl u)
    then show ?thesis unfolding unf by simp
  next
    case (Inr a)
    obtain d i1 where up: "scan_up cmp xs pivot i j = Inr (d, i1)" using Inr by (cases a) simp
    note u = scan_up_ge [OF up] scan_up_bounds [OF up less.prems(3)]
    show ?thesis
    proof (cases "d \<or> j - 1 = i1")
      case True
      then show ?thesis using less.prems unfolding unf by (auto simp: up Let_def)
    next
      case False
      then have lt: "i1 < j - 1" using u by auto
      show ?thesis
      proof (cases "scan_down cmp xs pivot i1 (j - 1)")
        case (Inl v)
        then show ?thesis using False unfolding unf by (simp add: up Let_def del: One_nat_def)
      next
        case (Inr a)
        obtain e' j1 where down: "scan_down cmp xs pivot i1 (j - 1) = Inr (e', j1)" using Inr by (cases a) simp
        note w = scan_down_bounds [OF down lt]
        show ?thesis
        proof (cases e')
          case True
          then show ?thesis using less.prems False unfolding unf by (auto simp: up down Let_def simp del: One_nat_def)
        next
          case ne: False
          have rng: "b \<le> i1" "i1 < e" "b \<le> j1" "j1 < e" using u w ne less.prems by auto
          note ag = agrees_swp [OF less.prems(1) rng]
          show ?thesis
          proof (cases "swp_at swp xs i1 j1")
            case (Inl v)
            then show ?thesis using ag False ne unfolding unf by (simp add: up down agrees_def Let_def del: One_nat_def)
          next
            case (Inr zs)
            then have zs: "swp_at swp' xs i1 j1 = Inr zs" "stays b e zs" "length zs = length xs" "i1 < length xs"
              using ag swp_at_Inr [OF Inr] by (auto simp: agrees_def)
            have "partition_loop cmp swp' zs pivot (i1 + 1) j1 = partition_loop cmp swp zs pivot (i1 + 1) j1 \<and>
                (\<forall>ys k. partition_loop cmp swp zs pivot (i1 + 1) j1 = Inr (ys, k) \<longrightarrow> stays b e ys)"
              if "i1 + 1 \<noteq> j1"
              by (rule less.hyps) (use zs rng w ne u that in auto)
            then show ?thesis using False ne zs Inr unfolding unf by (simp add: up down Let_def del: One_nat_def)
          qed
        qed
      qed
    qed
  qed
qed

lemma zend_sort_partition_agrees:
  assumes s: "stays b e xs" and r: "b \<le> base" "base + n \<le> e" "16 < n"
  shows "zend_sort_partition cmp swp' xs base n = zend_sort_partition cmp swp xs base n \<and>
    (\<forall>ys k. zend_sort_partition cmp swp xs base n = Inr (ys, k) \<longrightarrow> stays b e ys)"
proof -
  let ?first = "\<lambda>swp. if n div 1024 \<noteq> 0
      then zend_sort_5 cmp swp xs base (base + n div 2 div 2) (base + n div 2) (base + n div 2 + n div 2 div 2)
        (base + n - 1)
      else zend_sort_3 cmp swp xs base (base + n div 2) (base + n - 1)"
  have 1: "agrees b e (?first swp) (?first swp')"
    by (intro agrees_if sort_5_agrees sort_3_agrees s) (use r in linarith)+
  have 2: "agrees b e (res_bind (?first swp) (\<lambda>xs. swp_at swp xs (base + 1) (base + n div 2)))
      (res_bind (?first swp') (\<lambda>xs. swp_at swp' xs (base + 1) (base + n div 2)))"
    by (rule agrees_bind [OF 1], rule agrees_swp) (use r in linarith)+
  let ?rest = "\<lambda>swp xs. res_bind (partition_loop cmp swp xs (base + 1) (base + 2) (base + n - 1))
      (\<lambda>(xs, i). if i = 0 then Inl UB_OUT_OF_BOUNDS
        else res_bind (swp_at swp xs (base + 1) (i - 1)) (\<lambda>xs. Inr (xs, i)))"
  have rest: "?rest swp' ys = ?rest swp ys \<and> (\<forall>zs k. ?rest swp ys = Inr (zs, k) \<longrightarrow> stays b e zs)"
    if ys: "stays b e ys" for ys
  proof -
    have lt: "base + 2 < base + n - 1" "base + n - 1 < e" using r by linarith+
    note p = partition_loop_agrees [OF ys _ lt, of cmp "base + 1"]
    show ?thesis
    proof (cases "partition_loop cmp swp ys (base + 1) (base + 2) (base + n - 1)")
      case (Inl u)
      then show ?thesis using p r by simp
    next
      case (Inr a)
      obtain zs i where a: "a = (zs, i)" by (cases a)
      with Inr p r have zs: "stays b e zs" by auto
      have i: "base + 2 \<le> i \<and> i \<le> base + n - 1"
        by (rule partition_loop_bounds [OF Inr [unfolded a] lt(1)])
      have "agrees b e (swp_at swp zs (base + 1) (i - 1)) (swp_at swp' zs (base + 1) (i - 1))"
        by (rule agrees_swp [OF zs]) (use r i in linarith)+
      then show ?thesis using p r Inr a i
        by (cases "swp_at swp zs (base + 1) (i - 1)") (auto simp: agrees_def)
    qed
  qed
  have shape: "zend_sort_partition cmp s xs base n =
      res_bind (res_bind (?first s) (\<lambda>xs. swp_at s xs (base + 1) (base + n div 2))) (?rest s)" for s
    unfolding zend_sort_partition_def Let_def by (cases "?first s") simp_all
  show ?thesis
    unfolding shape by (rule agrees_bind_pair [OF 2 rest])
qed

lemma zend_sort_agrees:
  "stays b e xs \<Longrightarrow> b \<le> base \<Longrightarrow> base + n \<le> e \<Longrightarrow>
   agrees b e (zend_sort cmp swp xs base n) (zend_sort cmp swp' xs base n)"
proof (induction n arbitrary: xs base rule: less_induct)
  case (less n)
  note unf = zend_sort.simps [of cmp swp xs base n] zend_sort.simps [of cmp swp' xs base n]
  show ?case
  proof (cases "n \<le> 16")
    case True
    then show ?thesis unfolding unf using zend_insert_sort_agrees [OF less.prems] by simp
  next
    case False
    note p = zend_sort_partition_agrees [OF less.prems, of cmp]
    show ?thesis
    proof (cases "zend_sort_partition cmp swp xs base n")
      case (Inl u)
      then show ?thesis unfolding unf using p False by (simp add: agrees_Inl)
    next
      case (Inr a)
      obtain ys i where a: "a = (ys, i)" by (cases a)
      have i: "base + 2 \<le> i \<and> i < base + n"
        by (rule zend_sort_partition_bounds [OF Inr [unfolded a]]) (use False in simp)
      have ys: "stays b e ys" using p False Inr a by simp
      have l: "agrees b e (zend_sort cmp swp zs base (i - base - 1)) (zend_sort cmp swp' zs base (i - base - 1))"
        if "stays b e zs" for zs
        by (rule less.IH) (use i that less.prems in auto)
      have r: "agrees b e (zend_sort cmp swp zs i (base + n - i)) (zend_sort cmp swp' zs i (base + n - i))"
        if "stays b e zs" for zs
        by (rule less.IH) (use i that less.prems in auto)
      have "agrees b e (if (i - 1) - base < base + n - i
          then res_bind (zend_sort cmp swp ys base (i - base - 1)) (\<lambda>xs. zend_sort cmp swp xs i (base + n - i))
          else res_bind (zend_sort cmp swp ys i (base + n - i)) (\<lambda>xs. zend_sort cmp swp xs base (i - base - 1)))
        (if (i - 1) - base < base + n - i
          then res_bind (zend_sort cmp swp' ys base (i - base - 1)) (\<lambda>xs. zend_sort cmp swp' xs i (base + n - i))
          else res_bind (zend_sort cmp swp' ys i (base + n - i)) (\<lambda>xs. zend_sort cmp swp' xs base (i - base - 1)))"
        by (intro agrees_if agrees_bind l r ys)
      then show ?thesis unfolding unf using p False Inr a by (simp add: Let_def)
    qed
  qed
qed

end

end
