(* ===== verification/Zend_Hash_Sort.thy ===== *)
theory Zend_Hash_Sort
  imports Zend_Hash_Apply Zend_Sort_Swap
begin

text \<open>
  Sorting a table (\<open>zend_hash_sort_ex\<close> and the three swaps), comparing two tables and the
  greatest or least element. The sorting routine works on the array of buckets; the lemmas show
  that the table satisfies its invariant again, has the same entries in another order (or, when it
  renumbers, the same values under new keys), sorted if the comparison is a total preorder.
\<close>

subsection \<open>Swapping two buckets\<close>

text \<open>\<open>ZVAL_COPY_VALUE\<close> copies the value and the type word, not the link in \<open>u2\<close>.\<close>

definition zend_hash_bucket_swap :: "Bucket swap_func" where
  "zend_hash_bucket_swap p q =
     (p\<lparr>b_val := b_val q, b_h := b_h q, b_key := b_key q\<rparr>,
      q\<lparr>b_val := b_val p, b_h := b_h p, b_key := b_key p\<rparr>)"

definition zend_hash_bucket_renum_swap :: "Bucket swap_func" where
  "zend_hash_bucket_renum_swap p q = (p\<lparr>b_val := b_val q\<rparr>, q\<lparr>b_val := b_val p\<rparr>)"

definition zend_hash_bucket_packed_swap :: "Bucket swap_func" where
  "zend_hash_bucket_packed_swap p q =
     (p\<lparr>b_val := b_val q, b_h := b_h q\<rparr>, q\<lparr>b_val := b_val p, b_h := b_h p\<rparr>)"

subsection \<open>Sorting\<close>

type_synonym sort_func =
  "Bucket compare_func \<Rightarrow> Bucket swap_func \<Rightarrow> Bucket list \<Rightarrow> nat \<Rightarrow> nat \<Rightarrow> Bucket list res"

text \<open>The loop that moves the present buckets to the front, and the loop that renumbers them.\<close>

fun sort_compact :: "nat list \<Rightarrow> nat \<Rightarrow> Bucket list \<Rightarrow> nat \<times> Bucket list" where
  "sort_compact [] i data = (i, data)"
| "sort_compact (j # js) i data =
     (let p = data ! j in
      if b_val p = IS_UNDEF then sort_compact js i data
      else sort_compact js (i + 1) (if i \<noteq> j then data[i := p] else data))"

fun renumber_loop :: "nat list \<Rightarrow> world \<Rightarrow> Bucket list \<Rightarrow> world \<times> Bucket list" where
  "renumber_loop [] w data = (w, data)"
| "renumber_loop (j # js) w data =
     (let p = data ! j in
      renumber_loop js (release_key p w) (data[j := p\<lparr>b_h := of_nat j, b_key := None\<rparr>]))"

text \<open>
  The comparison function gets two buckets; it may look at value, hash and key of both, not at
  their links.
\<close>

definition zend_hash_sort_ex ::
  "world \<Rightarrow> HashTable \<Rightarrow> sort_func \<Rightarrow> (core \<Rightarrow> core \<Rightarrow> int) \<Rightarrow> bool \<Rightarrow> (world \<times> HashTable) res" where
  "zend_hash_sort_ex w ht sorter compar renumber =
     (if \<not> nNumOfElements ht > 1 \<and> \<not> (renumber \<and> nNumOfElements ht > 0) then Inr (w, ht)
      else
        let (i, data) = (if HT_IS_WITHOUT_HOLES ht then (nNumUsed ht, arData ht)
                         else sort_compact [0..<nNumUsed ht] 0 (arData ht)) in
        res_bind (sorter (\<lambda>p q. compar (bucket_core p) (bucket_core q))
            (if renumber then zend_hash_bucket_renum_swap
             else if ht_packed ht then zend_hash_bucket_packed_swap else zend_hash_bucket_swap)
            data 0 i) (\<lambda>data.
        let ht1 = ht\<lparr>arData := data, nNumUsed := i, nInternalPointer := 0\<rparr>;
            (w2, ht2) = (if renumber then
                let (w, data) = renumber_loop [0..<i] w (arData ht1) in
                (w, ht1\<lparr>arData := data, nNextFreeElement := of_nat i\<rparr>)
              else (w, ht1))
        in
        if ht_packed ht2 then
          if \<not> renumber then Inr (zend_hash_packed_to_hash w2 ht2) else Inr (w2, ht2)
        else if renumber then
          let old_buckets = arData ht2;
              ht3 = ht2\<lparr>ht_packed := True, ht_static_keys := True, nTableMask := HT_MIN_MASK\<rparr>
          in Inr (w2, HT_HASH_RESET_PACKED (copy_used old_buckets (HT_ALLOC ht3)))
        else Inr (zend_hash_rehash w2 ht2)))"

definition zend_hash_sort ::
  "world \<Rightarrow> HashTable \<Rightarrow> (core \<Rightarrow> core \<Rightarrow> int) \<Rightarrow> bool \<Rightarrow> (world \<times> HashTable) res" where
  "zend_hash_sort w ht compar renumber = zend_hash_sort_ex w ht zend_sort compar renumber"

subsection \<open>Comparing two tables\<close>

text \<open>Only the sign of the result of \<open>memcmp\<close> is specified.\<close>

fun memcmp :: "bytes \<Rightarrow> bytes \<Rightarrow> int" where
  "memcmp (a # as) (b # bs) = (if a < b then -1 else if b < a then 1 else memcmp as bs)"
| "memcmp _ _ = 0"

text \<open>The next present bucket of the second table, from \<open>idx2\<close>.\<close>

function next_present :: "HashTable \<Rightarrow> nat \<Rightarrow> nat res" where
  "next_present ht2 idx2 =
     (if idx2 \<ge> nNumUsed ht2 then Inl UB_ASSUME
      else if b_val (arData ht2 ! idx2) \<noteq> IS_UNDEF then Inr idx2
      else next_present ht2 (idx2 + 1))"
  by pat_completeness auto
termination by (relation "measure (\<lambda>(ht2, idx2). nNumUsed ht2 - idx2)") auto

declare next_present.simps [simp del]

text \<open>The keys of two buckets: \<open>0\<close> if they are the same.\<close>

definition compare_keys :: "Bucket \<Rightarrow> Bucket \<Rightarrow> int" where
  "compare_keys p1 p2 =
     (case (b_key p1, b_key p2) of
        (None, None) \<Rightarrow> if b_h p1 \<noteq> b_h p2 then if b_h p1 > b_h p2 then 1 else -1 else 0
      | (Some k1, Some k2) \<Rightarrow>
          if length (zs_val k1) \<noteq> length (zs_val k2)
          then if length (zs_val k1) > length (zs_val k2) then 1 else -1
          else memcmp (zs_val k1) (zs_val k2)
      | (Some _, None) \<Rightarrow> 1
      | (None, Some _) \<Rightarrow> -1)"

definition compare_data :: "world \<Rightarrow> (zval \<Rightarrow> zval \<Rightarrow> int) \<Rightarrow> zval \<Rightarrow> zval \<Rightarrow> int" where
  "compare_data w compar v1 v2 =
     (let pData1 = ind_data w v1; pData2 = ind_data w v2 in
      if pData1 = IS_UNDEF then if pData2 \<noteq> IS_UNDEF then -1 else 0
      else if pData2 = IS_UNDEF then 1
      else compar pData1 pData2)"

fun compare_loop ::
  "world \<Rightarrow> HashTable \<Rightarrow> HashTable \<Rightarrow> (zval \<Rightarrow> zval \<Rightarrow> int) \<Rightarrow> bool \<Rightarrow> nat list \<Rightarrow> nat \<Rightarrow> int res" where
  "compare_loop w ht1 ht2 compar ordered [] idx2 = Inr 0"
| "compare_loop w ht1 ht2 compar ordered (idx1 # is) idx2 =
     (let p1 = arData ht1 ! idx1 in
      if b_val p1 = IS_UNDEF then compare_loop w ht1 ht2 compar ordered is idx2
      else if ordered then
        res_bind (next_present ht2 idx2) (\<lambda>idx2.
          let p2 = arData ht2 ! idx2; k = compare_keys p1 p2 in
          if k \<noteq> 0 then Inr k
          else let result = compare_data w compar (b_val p1) (b_val p2) in
            if result \<noteq> 0 then Inr result
            else compare_loop w ht1 ht2 compar ordered is (idx2 + 1))
      else
        res_bind (zref_val w ht2 (case b_key p1 of None \<Rightarrow> zend_hash_index_find ht2 (b_h p1)
                                  | Some key \<Rightarrow> zend_hash_find ht2 key)) (\<lambda>r.
          case r of None \<Rightarrow> Inr 1
          | Some v2 \<Rightarrow>
              let result = compare_data w compar (b_val p1) v2 in
              if result \<noteq> 0 then Inr result
              else compare_loop w ht1 ht2 compar ordered is idx2))"

definition zend_hash_compare_impl ::
  "world \<Rightarrow> HashTable \<Rightarrow> HashTable \<Rightarrow> (zval \<Rightarrow> zval \<Rightarrow> int) \<Rightarrow> bool \<Rightarrow> int res" where
  "zend_hash_compare_impl w ht1 ht2 compar ordered =
     (if nNumOfElements ht1 \<noteq> nNumOfElements ht2 then
        Inr (if nNumOfElements ht1 > nNumOfElements ht2 then 1 else -1)
      else compare_loop w ht1 ht2 compar ordered [0..<nNumUsed ht1] 0)"

text \<open>The two tables are different ones.\<close>

definition zend_hash_compare ::
  "world \<Rightarrow> HashTable \<Rightarrow> HashTable \<Rightarrow> (zval \<Rightarrow> zval \<Rightarrow> int) \<Rightarrow> bool \<Rightarrow> (int \<times> HashTable \<times> HashTable) res" where
  "zend_hash_compare w ht1 ht2 compar ordered =
     res_bind (HASH_PROTECT_RECURSION ht1) (\<lambda>ht1.
     res_bind (HASH_PROTECT_RECURSION ht2) (\<lambda>ht2.
     res_bind (zend_hash_compare_impl w ht1 ht2 compar ordered) (\<lambda>result.
       Inr (result, HASH_UNPROTECT_RECURSION ht1, HASH_UNPROTECT_RECURSION ht2))))"

subsection \<open>Greatest and least element\<close>

fun first_present :: "HashTable \<Rightarrow> nat list \<Rightarrow> nat option" where
  "first_present ht [] = None"
| "first_present ht (idx # is) =
     (if b_val (arData ht ! idx) \<noteq> IS_UNDEF then Some idx else first_present ht is)"

fun minmax_loop :: "HashTable \<Rightarrow> (core \<Rightarrow> core \<Rightarrow> int) \<Rightarrow> bool \<Rightarrow> nat list \<Rightarrow> nat \<Rightarrow> nat" where
  "minmax_loop ht compar flag [] res = res"
| "minmax_loop ht compar flag (idx # is) res =
     (let p = arData ht ! idx; c = compar (bucket_core (arData ht ! res)) (bucket_core p) in
      if b_val p = IS_UNDEF then minmax_loop ht compar flag is res
      else if flag then minmax_loop ht compar flag is (if c < 0 then idx else res)
      else minmax_loop ht compar flag is (if c > 0 then idx else res))"

definition zend_hash_minmax :: "HashTable \<Rightarrow> (core \<Rightarrow> core \<Rightarrow> int) \<Rightarrow> u32 \<Rightarrow> zref option" where
  "zend_hash_minmax ht compar flag =
     (if nNumOfElements ht = 0 then None
      else case first_present ht [0..<nNumUsed ht] of None \<Rightarrow> None
        | Some idx \<Rightarrow> Some (BUCKET (minmax_loop ht compar (flag \<noteq> 0) [idx..<nNumUsed ht] idx)))"

subsection \<open>The swaps as instances of the sorting interface\<close>

lemma swap_cores:
  "bucket_core (fst (zend_hash_bucket_swap p q)) = bucket_core q"
  "bucket_core (snd (zend_hash_bucket_swap p q)) = bucket_core p"
  "b_next (fst (zend_hash_bucket_swap p q)) = b_next p"
  "b_next (snd (zend_hash_bucket_swap p q)) = b_next q"
  by (simp_all add: zend_hash_bucket_swap_def bucket_core_def)

interpretation by_core: sorting bucket_core b_next zend_hash_bucket_swap
    "\<lambda>p q. compar (bucket_core p) (bucket_core q)" "\<lambda>a b. compar a b > 0" for compar
  by unfold_locales (simp_all add: swap_cores)

interpretation by_value: sorting b_val "\<lambda>b. (b_next b, b_h b, b_key b)" zend_hash_bucket_renum_swap
    "\<lambda>p q. compar (b_val p) (b_val q)" "\<lambda>a b. compar a b > (0::int)" for compar
  by unfold_locales (simp_all add: zend_hash_bucket_renum_swap_def)

text \<open>On buckets without keys the packed swap exchanges all the data too.\<close>

interpretation keyless: same_swap "\<lambda>b. b_key b = None" zend_hash_bucket_packed_swap zend_hash_bucket_swap
  by unfold_locales (simp_all add: zend_hash_bucket_packed_swap_def zend_hash_bucket_swap_def)

context sorting
begin

lemma permuted_range:
  assumes p: "permuted 0 n xs ys" and n: "n \<le> length xs"
  shows "mset (map part (take n ys)) = mset (map part (take n xs))"
    "map rest (take n ys) = map rest (take n xs)"
proof -
  have len: "length ys = length xs" by (rule permuted_length [OF p])
  have "drop n (map part ys) = drop n (map part xs)"
    by (rule nth_equalityI) (use len permuted_outside [OF p] in auto)
  moreover have "mset (take n (map part zs)) + mset (drop n (map part zs)) = mset (map part zs)" for zs :: "'a list"
    by (metis append_take_drop_id mset_append)
  ultimately have "mset (take n (map part ys)) = mset (take n (map part xs))"
    using p unfolding permuted_def by (metis add_right_cancel)
  then show "mset (map part (take n ys)) = mset (map part (take n xs))" by (simp add: take_map)
  show "map rest (take n ys) = map rest (take n xs)" using p by (simp add: permuted_def flip: take_map)
qed

lemma ordered_range:
  "ordered xs 0 n \<Longrightarrow> n \<le> length xs \<Longrightarrow> sorted_wrt (\<lambda>a b. \<not> gt a b) (map part (take n xs))"
  unfolding sorted_wrt_iff_nth_less by (auto simp: ordered_def)

lemma zend_sort_range:
  assumes "n \<le> length xs"
  shows "\<exists>ys. zend_sort cmp swp xs 0 n = Inr ys \<and> length ys = length xs \<and>
     mset (map part (take n ys)) = mset (map part (take n xs)) \<and>
     map rest (take n ys) = map rest (take n xs) \<and>
     (preorder \<longrightarrow> sorted_wrt (\<lambda>a b. \<not> gt a b) (map part (take n ys)))"
proof -
  obtain ys where ys: "zend_sort cmp swp xs 0 n = Inr ys" "permuted 0 n xs ys" "preorder \<longrightarrow> ordered ys 0 n"
    using zend_sort_spec [of 0 n xs] assms by auto
  note r = permuted_range [OF ys(2) assms]
  have "length ys = length xs" by (rule permuted_length [OF ys(2)])
  then show ?thesis using ys r assms ordered_range [of ys n] by auto
qed

end

subsection \<open>The present buckets first\<close>

lemma sort_compact_spec:
  assumes "i \<le> j" "j \<le> n" "n \<le> length data"
  shows "fst (sort_compact [j..<n] i data) = i + length (filter live (drop j (take n data))) \<and>
    length (snd (sort_compact [j..<n] i data)) = length data \<and>
    take (i + length (filter live (drop j (take n data)))) (snd (sort_compact [j..<n] i data)) =
      take i data @ filter live (drop j (take n data))"
  using assms
proof (induction "n - j" arbitrary: i j data)
  case 0
  then show ?case by simp
next
  case (Suc m)
  then have j: "j < n" by simp
  then have upt: "[j..<n] = j # [Suc j..<n]" by (rule upt_conv_Cons)
  have d: "drop j (take n data) = data ! j # drop (Suc j) (take n data)"
    by (rule drop_take_Cons) (use j Suc.prems in auto)
  show ?case
  proof (cases "b_val (data ! j) = IS_UNDEF")
    case True
    then show ?thesis using Suc.hyps(1) [of "Suc j" i data] Suc.hyps(2) Suc.prems j
      by (simp add: upt d live_def)
  next
    case False
    define data1 where "data1 = (if i \<noteq> j then data[i := data ! j] else data)"
    have len: "length data1 = length data" by (simp add: data1_def)
    have rest: "drop (Suc j) (take n data1) = drop (Suc j) (take n data)"
      using Suc.prems by (simp add: data1_def drop_take)
    have first: "take (Suc i) data1 = take i data @ [data ! j]"
      using Suc.prems j by (simp add: data1_def take_Suc_conv_app_nth)
    have unf: "sort_compact [j..<n] i data = sort_compact [Suc j..<n] (Suc i) data1"
      using False by (simp add: upt data1_def Let_def)
    show ?thesis
      using Suc.hyps(1) [of "Suc j" "Suc i" data1] Suc.hyps(2) Suc.prems j False
      unfolding unf rest len first by (simp add: d live_def)
  qed
qed

text \<open>Whether there are holes or not, the array handed to the sort begins with the present buckets.\<close>

lemma sort_front:
  assumes inv: "ht_inv ht"
    and f: "(if HT_IS_WITHOUT_HOLES ht then (nNumUsed ht, arData ht)
             else sort_compact [0..<nNumUsed ht] 0 (arData ht)) = (i, data)"
  shows "i = nNumOfElements ht" "length data = length (arData ht)" "take i data = ht_buckets ht"
    "i \<le> nNumUsed ht"
proof -
  have le: "nNumUsed ht \<le> length (arData ht)" by (rule ht_inv_used_le [OF inv])
  have n: "nNumOfElements ht = length (ht_buckets ht)" using inv by (simp add: ht_inv_def contents_ok_def)
  have "i = nNumOfElements ht \<and> length data = length (arData ht) \<and> take i data = ht_buckets ht"
  proof (cases "HT_IS_WITHOUT_HOLES ht")
    case True
    then show ?thesis using f without_holes [OF inv True] by (auto simp: HT_IS_WITHOUT_HOLES_def)
  next
    case False
    then show ?thesis using f n sort_compact_spec [of 0 0 "nNumUsed ht" "arData ht"] le
      by (simp add: ht_buckets_def)
  qed
  then show "i = nNumOfElements ht" "length data = length (arData ht)" "take i data = ht_buckets ht" by auto
  show "i \<le> nNumUsed ht"
    using \<open>i = _ \<and> _\<close> n length_filter_le [of live "take (nNumUsed ht) (arData ht)"]
    by (simp add: ht_buckets_def)
qed

subsection \<open>Sorting by any data keeps the entries\<close>

lemma mset_core_set:
  assumes "mset (map bucket_core xs) = mset (map bucket_core ys)" "b \<in> set xs"
  obtains b' where "b' \<in> set ys" "bucket_core b' = bucket_core b"
proof -
  have "set (map bucket_core xs) = set (map bucket_core ys)" using mset_eq_setD [OF assms(1)] .
  then show thesis using assms(2) that by (metis (no_types, lifting) image_eqI image_iff list.set_map)
qed

text \<open>A permutation of the present buckets at the front of the block.\<close>

lemma contents_ok_permuted:
  assumes ok: "contents_ok ht" and len: "length data = length (arData ht)" "i \<le> length data"
    and i: "i = nNumOfElements ht" "0 < i" "i \<le> nTableSize ht"
    and m: "mset (map bucket_core (take i data)) = mset (map bucket_core (ht_buckets ht))"
  defines "ht1 \<equiv> ht\<lparr>arData := data, nNumUsed := i, nInternalPointer := 0\<rparr>"
  shows "contents_ok ht1" "ht_buckets ht1 = take i data"
proof -
  have old: "\<forall>b \<in> set (take i data). \<exists>b' \<in> set (ht_buckets ht). bucket_core b' = bucket_core b"
    using mset_core_set [OF m] by metis
  have lv: "live b" if "b \<in> set (take i data)" for b
    using old that by (auto simp: ht_buckets_def dest: core_eq_live)
  show b: "ht_buckets ht1 = take i data"
    unfolding ht_buckets_def ht1_def using lv by (simp add: filter_True)
  have "mset (map bkey xs) = image_mset (fst \<circ> core_entry) (mset (map bucket_core xs))" for xs
    by (simp add: image_mset.compositionality comp_def)
  then have k: "mset (map bkey (take i data)) = mset (map bkey (ht_buckets ht))" using m by (simp only:)
  have d: "distinct (map bkey (take i data))"
    unfolding mset_eq_imp_distinct_iff [OF k] using ok by (simp add: contents_ok_def)
  have n: "nNumOfElements ht1 = length (ht_buckets ht1)"
    unfolding b using i len by (simp add: ht1_def)
  have p: "pointer_ok ht1"
    using i len lv [OF nth_mem [of 0 "take i data"]] by (simp add: pointer_ok_def ht1_def)
  have ob: "bucket_ok b \<and> (b_key b = None \<longrightarrow> sint (b_h b) < sint (nNextFreeElement ht) \<or>
        nNextFreeElement ht = ZEND_LONG_MAX) \<and>
      (ht_static_keys ht \<longrightarrow> (\<forall>s. b_key b = Some s \<longrightarrow> zs_interned s))" if mem: "b \<in> set (take i data)" for b
  proof -
    obtain b' where b': "b' \<in> set (ht_buckets ht)" "bucket_core b' = bucket_core b"
      using bspec [OF old mem] by blast
    then have e: "b_val b' = b_val b" "b_h b' = b_h b" "b_key b' = b_key b" by (simp_all add: bucket_core_def)
    have "bucket_ok b'" using ok b' by (simp add: contents_ok_def)
    then have "bucket_ok b" by (auto simp: bucket_ok_def e split: option.splits)
    moreover have "b_key b' = None \<longrightarrow> sint (b_h b') < sint (nNextFreeElement ht) \<or> nNextFreeElement ht = ZEND_LONG_MAX"
      using ok b'(1) by (simp add: contents_ok_def next_free_ok_def)
    moreover have "ht_static_keys ht \<longrightarrow> (\<forall>s. b_key b' = Some s \<longrightarrow> zs_interned s)"
      using ok b'(1) by (simp add: contents_ok_def)
    ultimately show ?thesis by (simp add: e)
  qed
  have nf: "next_free_ok ht1"
    using ok ob unfolding next_free_ok_def b by (simp add: ht1_def contents_ok_def next_free_ok_def)
  show "contents_ok ht1"
    using ok i d n p nf ob unfolding contents_ok_def b by (simp add: ht1_def)
qed

definition total_preorder :: "('a \<Rightarrow> 'a \<Rightarrow> int) \<Rightarrow> bool" where
  "total_preorder c \<longleftrightarrow> (\<forall>p q. c p q > 0 \<longrightarrow> \<not> c q p > 0) \<and> (\<forall>p q r. \<not> c p q > 0 \<longrightarrow> \<not> c q r > 0 \<longrightarrow> \<not> c p r > 0)"

lemma sort_buckets:
  assumes "n \<le> length data" "packed \<Longrightarrow> \<forall>b \<in> set (take n data). b_key b = None"
  shows "\<exists>ys. zend_sort (\<lambda>p q. compar (bucket_core p) (bucket_core q))
        (if packed then zend_hash_bucket_packed_swap else zend_hash_bucket_swap) data 0 n = Inr ys \<and>
      length ys = length data \<and>
      mset (map bucket_core (take n ys)) = mset (map bucket_core (take n data)) \<and>
      (total_preorder compar \<longrightarrow> sorted_wrt (\<lambda>a b. \<not> compar a b > 0) (map bucket_core (take n ys)))"
proof -
  have "zend_sort c zend_hash_bucket_packed_swap data 0 n = zend_sort c zend_hash_bucket_swap data 0 n"
    if "packed" for c
  proof -
    have "keyless.stays 0 n data"
      unfolding keyless.stays_def
    proof (intro allI impI)
      fix k assume "0 \<le> k \<and> k < n"
      then have "data ! k \<in> set (take n data)" "k < length data" using assms(1) by (auto simp: in_set_conv_nth)
      then show "k < length data \<and> b_key (data ! k) = None" using assms(2) [OF that] by simp
    qed
    from keyless.zend_sort_agrees [OF this, of 0 n c] show ?thesis by (simp add: keyless.agrees_def)
  qed
  then have eq: "zend_sort c (if packed then zend_hash_bucket_packed_swap else zend_hash_bucket_swap) data 0 n =
      zend_sort c zend_hash_bucket_swap data 0 n" for c
    by simp
  show ?thesis
    using by_core.zend_sort_range [OF assms(1), of compar]
    unfolding eq by_core.preorder_def total_preorder_def by (elim ex_forward conjE, intro conjI)
qed

text \<open>Sorting without renumbering: the same entries in another order.\<close>

lemma zend_hash_sort_spec:
  assumes inv: "ht_inv ht"
  shows "\<exists>w' ht'. zend_hash_sort w ht compar False = Inr (w', ht') \<and> ht_inv ht' \<and>
     slots w' = slots w \<and> events w' = events w \<and>
     mset (ht_cores ht') = mset (ht_cores ht) \<and>
     (total_preorder compar \<longrightarrow> sorted_wrt (\<lambda>a b. \<not> compar a b > 0) (ht_cores ht'))"
proof (cases "nNumOfElements ht > 1")
  case False
  have "length (ht_cores ht) \<le> 1" using inv False by (simp add: ht_inv_def contents_ok_def ht_cores_def)
  then have "sorted_wrt (\<lambda>a b. \<not> compar a b > 0) (ht_cores ht)"
    by (cases "ht_cores ht") auto
  then show ?thesis using False inv by (simp add: zend_hash_sort_def zend_hash_sort_ex_def)
next
  case True
  have ok: "contents_ok ht" using inv by (simp add: ht_inv_def)
  have init: "ht_initialized ht"
  proof (rule ccontr)
    assume "\<not> ht_initialized ht"
    then have "nNumUsed ht = 0" using inv by (simp add: ht_inv_def uninit_layout_def)
    then show False using True ok unused_empty by (simp add: contents_ok_def)
  qed
  obtain i data where f: "(if HT_IS_WITHOUT_HOLES ht then (nNumUsed ht, arData ht)
             else sort_compact [0..<nNumUsed ht] 0 (arData ht)) = (i, data)" by fastforce
  note fr = sort_front [OF inv f]
  have used: "nNumUsed ht \<le> length (arData ht)" by (rule ht_inv_used_le [OF inv])
  have sz: "size_ok (nTableSize ht)" "nNumUsed ht \<le> nTableSize ht" using ok by (auto simp: contents_ok_def)
  have len: "i \<le> length data" using fr used by simp
  have kl: "\<forall>b \<in> set (take i data). b_key b = None" if "ht_packed ht"
    using inv init that used unfolding fr(3)
    by (auto simp: ht_inv_def packed_layout_def ht_buckets_def in_set_conv_nth)
  obtain ys where ys: "zend_sort (\<lambda>p q. compar (bucket_core p) (bucket_core q))
        (if ht_packed ht then zend_hash_bucket_packed_swap else zend_hash_bucket_swap) data 0 i = Inr ys"
      "length ys = length data" "mset (map bucket_core (take i ys)) = mset (map bucket_core (take i data))"
      "total_preorder compar \<longrightarrow> sorted_wrt (\<lambda>a b. \<not> compar a b > 0) (map bucket_core (take i ys))"
    using sort_buckets [where n = i and data = data and packed = "ht_packed ht" and compar = compar] len kl by blast
  define ht1 where "ht1 = ht\<lparr>arData := ys, nNumUsed := i, nInternalPointer := 0\<rparr>"
  have i: "i = nNumOfElements ht" "0 < i" "i \<le> nTableSize ht" using fr True sz by auto
  have ok1: "contents_ok ht1" and b1: "ht_buckets ht1 = take i ys"
    unfolding ht1_def
    using contents_ok_permuted [OF ok _ _ i, where data = ys] ys(2,3) fr len by auto
  have c1: "mset (ht_cores ht1) = mset (ht_cores ht)"
    using ys(3) unfolding ht_cores_def b1 fr(3) .
  have len1: "nNumUsed ht1 \<le> length (arData ht1)" "nNumUsed ht1 \<le> nTableSize ht1"
    using len ys(2) i by (simp_all add: ht1_def)
  have init1: "ht_initialized ht1" "ht_packed ht1 = ht_packed ht" using init by (simp_all add: ht1_def)
  define r where "r = (if ht_packed ht then zend_hash_packed_to_hash w ht1 else zend_hash_rehash w ht1)"
  obtain w' ht' where w': "r = (w', ht')" by (cases r)
  have run: "zend_hash_sort w ht compar False = Inr (w', ht')"
    using True w' by (simp add: zend_hash_sort_def zend_hash_sort_ex_def f ys(1) ht1_def [symmetric] init1(2) r_def
        split: if_splits)
  have "ht_inv ht' \<and> reorganised ht1 ht'"
  proof (cases "ht_packed ht")
    case True
    then have "zend_hash_rehash w (moved ht1 (nTableSize ht1)) = (w', ht')"
      using w' by (simp add: r_def packed_to_hash_moved)
    from moved_rehash [OF ok1 init1(1) len1(1) _ len1(2) this] ok1 show ?thesis by (simp add: contents_ok_def)
  next
    case False
    have "hash_area ht1"
      using inv init False ys(2) fr(2) by (auto simp: ht_inv_def hash_layout_def hash_area_def ht1_def)
    moreover have "zend_hash_rehash w ht1 = (w', ht')" using w' False by (simp add: r_def)
    ultimately have "rehashed ht1 ht'"
      using zend_hash_rehash_spec [of ht1 w w' ht'] ok1 init1 len1 by (simp add: contents_ok_def)
    from rehashed_inv [OF this ok1 init1(1) _ len1(1)] False init1 show ?thesis by simp
  qed
  moreover from this have "ht_cores ht' = ht_cores ht1" by (simp add: reorganised_def)
  moreover have "slots w' = slots w \<and> events w' = events w"
  proof -
    have "slots (fst r) = slots w \<and> events (fst r) = events w"
      unfolding r_def packed_to_hash_moved using zend_hash_rehash_frame [of w] by simp
    then show ?thesis by (simp add: w')
  qed
  moreover have "total_preorder compar \<longrightarrow> sorted_wrt (\<lambda>a b. \<not> compar a b > 0) (ht_cores ht1)"
    using ys(4) unfolding ht_cores_def [of ht1] b1 .
  ultimately have "ht_inv ht'" "slots w' = slots w" "events w' = events w" "mset (ht_cores ht') = mset (ht_cores ht)"
      "total_preorder compar \<longrightarrow> sorted_wrt (\<lambda>a b. \<not> compar a b > 0) (ht_cores ht')"
    using c1 by simp_all
  with run show ?thesis by blast
qed

subsection \<open>Sorting with renumbering\<close>

lemma renumber_loop_append:
  "renumber_loop (js @ ks) w d = renumber_loop ks (fst (renumber_loop js w d)) (snd (renumber_loop js w d))"
  by (induction js arbitrary: w d) (simp_all add: Let_def)

lemma renumber_loop_spec:
  assumes "i \<le> length data"
  shows "fst (renumber_loop [0..<i] w data) =
      w\<lparr>events := events w @ concat (map key_release_events (take i data))\<rparr>"
    "snd (renumber_loop [0..<i] w data) =
      map (\<lambda>k. (data ! k)\<lparr>b_h := of_nat k, b_key := None\<rparr>) [0..<i] @ drop i data"
proof -
  have "fst (renumber_loop [0..<i] w data) =
      w\<lparr>events := events w @ concat (map key_release_events (take i data))\<rparr> \<and>
    snd (renumber_loop [0..<i] w data) =
      map (\<lambda>k. (data ! k)\<lparr>b_h := of_nat k, b_key := None\<rparr>) [0..<i] @ drop i data"
    using assms
  proof (induction i)
    case 0
    then show ?case by simp
  next
    case (Suc i)
    then have d: "drop i data = data ! i # drop (Suc i) data" by (simp add: Cons_nth_drop_Suc)
    have "(map (\<lambda>k. (data ! k)\<lparr>b_h := of_nat k, b_key := None\<rparr>) [0..<i] @ drop i data) ! i = data ! i"
      using Suc.prems by (simp add: nth_append)
    moreover have "(map (\<lambda>k. (data ! k)\<lparr>b_h := of_nat k, b_key := None\<rparr>) [0..<i] @ drop i data)[i := x] =
        map (\<lambda>k. (data ! k)\<lparr>b_h := of_nat k, b_key := None\<rparr>) [0..<i] @ x # drop (Suc i) data" for x
      unfolding d by (simp add: list_update_append)
    ultimately show ?case
      using Suc by (simp add: renumber_loop_append release_key_eq Let_def take_Suc_conv_app_nth)
  qed
  then show "fst (renumber_loop [0..<i] w data) =
      w\<lparr>events := events w @ concat (map key_release_events (take i data))\<rparr>"
    "snd (renumber_loop [0..<i] w data) =
      map (\<lambda>k. (data ! k)\<lparr>b_h := of_nat k, b_key := None\<rparr>) [0..<i] @ drop i data" by auto
qed

lemma sint_of_nat: "n < 2 ^ 63 \<Longrightarrow> sint (of_nat n :: zend_ulong) = int n"
proof -
  assume n: "n < 2 ^ 63"
  have "sint (of_nat n :: zend_ulong) = signed_take_bit 63 (int n)" by (simp add: signed_of_nat)
  also have "\<dots> = int n" by (rule signed_take_bit_int_eq_self) (use n in auto)
  finally show ?thesis .
qed

text \<open>A packed table with the keys \<open>0, 1, \<dots>\<close>.\<close>

lemma numbered_table:
  assumes t: "nNumUsed ht = length vs" "nNumOfElements ht = length vs" "nInternalPointer ht = 0"
      "nNextFreeElement ht = of_nat (length vs)" "ht_initialized ht" "ht_packed ht"
    and l: "packed_layout ht" "size_ok (nTableSize ht)" "length vs \<le> nTableSize ht" "vs \<noteq> []"
    and d: "\<And>k. k < length vs \<Longrightarrow> bucket_core (arData ht ! k) = (vs ! k, of_nat k, None)"
    and v: "\<And>v. v \<in> set vs \<Longrightarrow> v \<noteq> IS_UNDEF \<and> v \<noteq> UNINIT"
  shows "ht_inv ht" "ht_cores ht = map (\<lambda>k. (vs ! k, of_nat k, None)) [0..<length vs]"
proof -
  have len: "length vs \<le> length (arData ht)" using l by (simp add: packed_layout_def)
  have f: "b_val (arData ht ! k) = vs ! k" "b_h (arData ht ! k) = of_nat k" "b_key (arData ht ! k) = None"
    if "k < length vs" for k
    using d [OF that] by (simp_all add: bucket_core_def)
  have lv: "live (arData ht ! k)" if "k < length vs" for k
    using f [OF that] v [of "vs ! k"] that by (simp add: live_def)
  have b: "ht_buckets ht = take (length vs) (arData ht)"
    unfolding ht_buckets_def t(1) by (rule filter_live_all) (use lv len in auto)
  show c: "ht_cores ht = map (\<lambda>k. (vs ! k, of_nat k, None)) [0..<length vs]"
    unfolding ht_cores_def b by (rule nth_equalityI) (use d len in auto)
  have small: "length vs < 2 ^ 63" using l size_ok_bounds [OF l(2)] by simp
  have keys: "map bkey (ht_buckets ht) = map (\<lambda>k. IntKey (of_nat k)) [0..<length vs]"
    unfolding b by (rule nth_equalityI) (use f len in \<open>auto simp: bkey_simps\<close>)
  have "inj_on (\<lambda>k. IntKey (of_nat k)) {0..<length vs}"
  proof (rule inj_onI)
    fix a b assume ab: "a \<in> {0..<length vs}" "b \<in> {0..<length vs}"
      and "IntKey (of_nat a) = IntKey (of_nat b)"
    then have "sint (of_nat a :: zend_ulong) = sint (of_nat b :: zend_ulong)" by simp
    then show "a = b" using ab small by (simp add: sint_of_nat)
  qed
  then have dist: "distinct (map bkey (ht_buckets ht))" unfolding keys by (simp add: distinct_map)
  have el: "\<exists>k < length vs. x = arData ht ! k" if "x \<in> set (ht_buckets ht)" for x
    using that unfolding b by (auto simp: in_set_conv_nth)
  have x: "bucket_ok x \<and> b_key x = None \<and> sint (b_h x) < sint (nNextFreeElement ht)"
    if x: "x \<in> set (ht_buckets ht)" for x
  proof -
    obtain k where k: "k < length vs" "x = arData ht ! k" using el [OF x] by blast
    then show ?thesis using f [OF k(1)] v [of "vs ! k"] small by (simp add: bucket_ok_def t sint_of_nat)
  qed
  have nf: "next_free_ok ht" using x small by (simp add: next_free_ok_def t(4) sint_of_nat)
  have p: "pointer_ok ht" using lv l(4) by (simp add: pointer_ok_def t)
  have "contents_ok ht"
    unfolding contents_ok_def using l t dist x nf p b len by auto
  then show "ht_inv ht" using t l by (simp add: ht_inv_def)
qed

lemma zend_hash_sort_renumber_spec:
  fixes c :: "zval \<Rightarrow> zval \<Rightarrow> int"
  assumes inv: "ht_inv ht"
  shows "\<exists>w' ht' vs. zend_hash_sort w ht (\<lambda>a b. c (fst a) (fst b)) True = Inr (w', ht') \<and> ht_inv ht' \<and>
     slots w' = slots w \<and> events w' = events w @ concat (map key_release_events (ht_buckets ht)) \<and>
     mset vs = mset (map snd (ht_entries ht)) \<and>
     ht_cores ht' = map (\<lambda>k. (vs ! k, of_nat k, None)) [0..<length vs] \<and>
     (vs \<noteq> [] \<longrightarrow> nNextFreeElement ht' = of_nat (length vs)) \<and>
     (total_preorder c \<longrightarrow> sorted_wrt (\<lambda>a b. \<not> c a b > 0) vs)"
proof (cases "nNumOfElements ht > 0")
  case False
  then have b: "ht_buckets ht = []" using inv by (simp add: ht_inv_def contents_ok_def)
  show ?thesis
    by (rule exI [of _ w], rule exI [of _ ht], rule exI [of _ "[]"])
      (use False inv b in \<open>simp add: zend_hash_sort_def zend_hash_sort_ex_def ht_cores_def ht_entries_def\<close>)
next
  case True
  have ok: "contents_ok ht" using inv by (simp add: ht_inv_def)
  have init: "ht_initialized ht"
  proof (rule ccontr)
    assume "\<not> ht_initialized ht"
    then have "nNumUsed ht = 0" using inv by (simp add: ht_inv_def uninit_layout_def)
    then show False using True ok unused_empty by (simp add: contents_ok_def)
  qed
  obtain i data where f: "(if HT_IS_WITHOUT_HOLES ht then (nNumUsed ht, arData ht)
             else sort_compact [0..<nNumUsed ht] 0 (arData ht)) = (i, data)" by fastforce
  note fr = sort_front [OF inv f]
  have used: "nNumUsed ht \<le> length (arData ht)" by (rule ht_inv_used_le [OF inv])
  have sz: "size_ok (nTableSize ht)" "nNumUsed ht \<le> nTableSize ht" using ok by (auto simp: contents_ok_def)
  have len: "i \<le> length data" using fr used by simp
  obtain ys where ys: "zend_sort (\<lambda>p q. c (b_val p) (b_val q)) zend_hash_bucket_renum_swap data 0 i = Inr ys"
      "length ys = length data" "mset (map b_val (take i ys)) = mset (map b_val (take i data))"
      "map (\<lambda>b. (b_next b, b_h b, b_key b)) (take i ys) = map (\<lambda>b. (b_next b, b_h b, b_key b)) (take i data)"
      "by_value.preorder c \<longrightarrow> sorted_wrt (\<lambda>a b. \<not> c a b > 0) (map b_val (take i ys))"
    using by_value.zend_sort_range [OF len, of c] by blast
  define vs where "vs = map b_val (take i ys)"
  have lvs: "length vs = i" using ys(2) len by (simp add: vs_def)
  define w2 where "w2 = fst (renumber_loop [0..<i] w ys)"
  define ds where "ds = snd (renumber_loop [0..<i] w ys)"
  have iy: "i \<le> length ys" using ys(2) len by simp
  note ren = renumber_loop_spec [OF iy, of w]
  have "map b_key (take i ys) = map b_key (take i data)"
    using arg_cong [OF ys(4), of "map (snd \<circ> snd)"] by (simp add: comp_def)
  moreover have "map key_release_events bs = map (\<lambda>k. case k of None \<Rightarrow> []
      | Some s \<Rightarrow> if zs_interned s then [] else [Str_Release s]) (map b_key bs)" for bs
    by (simp add: comp_def key_release_events_def)
  ultimately have "map key_release_events (take i ys) = map key_release_events (take i data)" by (simp only:)
  then have w2: "w2 = w\<lparr>events := events w @ concat (map key_release_events (ht_buckets ht))\<rparr>"
    unfolding w2_def ren(1) fr(3) by simp
  have lds: "length ds = length (arData ht)" "i \<le> length ds" using ren(2) ys(2) fr iy by (simp_all add: ds_def)
  have ds: "bucket_core (ds ! k) = (vs ! k, of_nat k, None)" if "k < i" for k
    using that iy unfolding ds_def ren(2) by (simp add: nth_append bucket_core_def vs_def)
  have vals: "mset vs = mset (map snd (ht_entries ht))"
    unfolding vs_def ys(3) fr(3) by (simp add: ht_entries_alt comp_def)
  have "set vs = b_val ` set (ht_buckets ht)"
    using mset_eq_setD [OF vals] by (simp add: ht_entries_alt image_image)
  then have good: "v \<noteq> IS_UNDEF \<and> v \<noteq> UNINIT" if "v \<in> set vs" for v
    using that ok by (auto simp: contents_ok_def bucket_ok_def ht_buckets_def live_def)
  have i: "0 < i" "i \<le> nTableSize ht" using True fr sz by auto
  have sorted: "total_preorder c \<longrightarrow> sorted_wrt (\<lambda>a b. \<not> c a b > 0) vs"
    using ys(5) unfolding by_value.preorder_def total_preorder_def vs_def .
  define ht2 where "ht2 = ht\<lparr>nNumUsed := i, nInternalPointer := 0, arData := ds, nNextFreeElement := of_nat i\<rparr>"
  define ht' where "ht' = (if ht_packed ht then ht2 else HT_HASH_RESET_PACKED (copy_used ds
      (HT_ALLOC (ht2\<lparr>ht_packed := True, ht_static_keys := True, nTableMask := HT_MIN_MASK\<rparr>))))"
  have run: "zend_hash_sort w ht (\<lambda>a b. c (fst a) (fst b)) True = Inr (w2, ht')"
    using True ys(1) by (simp add: zend_hash_sort_def zend_hash_sort_ex_def f bucket_core_def
        split_beta w2_def [symmetric] ds_def [symmetric] ht2_def ht'_def)
  have at: "arData ht' ! k = ds ! k" if "k < i" for k
    using that lds i by (simp add: ht'_def ht2_def HT_HASH_RESET_PACKED_def copy_used_def HT_ALLOC_def nth_append)
  have lay: "packed_layout ht'"
  proof -
    have k: "b_key (arData ht' ! k) = None \<and> b_h (arData ht' ! k) = of_nat k" if "k < i" for k
      using ds [OF that] at [OF that] by (simp add: bucket_core_def)
    have "length (arData ht') = nTableSize ht' \<and> nTableMask ht' = HT_MIN_MASK \<and>
        arHash ht' = [HT_INVALID_IDX, HT_INVALID_IDX] \<and> nNumUsed ht' = i"
    proof (cases "ht_packed ht")
      case True
      then show ?thesis using inv init lds by (simp add: ht'_def ht2_def ht_inv_def packed_layout_def)
    next
      case False
      then show ?thesis using lds i
        by (simp add: ht'_def ht2_def HT_HASH_RESET_PACKED_def copy_used_def HT_ALLOC_def
            HT_HASH_min_mask numeral_2_eq_2)
    qed
    with k show ?thesis by (simp add: packed_layout_def)
  qed
  have t: "nNumUsed ht' = length vs" "nNumOfElements ht' = length vs" "nInternalPointer ht' = 0"
      "nNextFreeElement ht' = of_nat (length vs)" "ht_initialized ht'" "ht_packed ht'"
      "nTableSize ht' = nTableSize ht"
    using init lvs fr(1)
    by (simp_all add: ht'_def ht2_def HT_HASH_RESET_PACKED_def copy_used_def HT_ALLOC_def)
  have "size_ok (nTableSize ht')" "length vs \<le> nTableSize ht'" "vs \<noteq> []"
      "\<And>k. k < length vs \<Longrightarrow> bucket_core (arData ht' ! k) = (vs ! k, of_nat k, None)"
    using t sz i lvs at ds by auto
  note n = numbered_table [OF t(1-6) lay this good]
  have w': "slots w2 = slots w" "events w2 = events w @ concat (map key_release_events (ht_buckets ht))"
    by (simp_all add: w2)
  show ?thesis
    by (rule exI [of _ w2], rule exI [of _ ht'], rule exI [of _ vs], intro conjI)
      (rule run n vals sorted w' impI t(4) | assumption)+
qed

subsection \<open>What a comparison of two tables decides\<close>

lemma memcmp_eq_0: "length xs = length ys \<Longrightarrow> memcmp xs ys = 0 \<longleftrightarrow> xs = ys"
  by (induction xs ys rule: memcmp.induct) auto

lemma compare_keys_eq_0: "compare_keys p q = 0 \<longleftrightarrow> bkey p = bkey q"
  by (auto simp: compare_keys_def bkey_simps memcmp_eq_0 split: option.splits)

text \<open>The comparison on the lists of present buckets, with and without regard to the order.\<close>

fun compare_buckets :: "world \<Rightarrow> (zval \<Rightarrow> zval \<Rightarrow> int) \<Rightarrow> Bucket list \<Rightarrow> Bucket list \<Rightarrow> int" where
  "compare_buckets w compar (p # ps) (q # qs) =
     (if compare_keys p q \<noteq> 0 then compare_keys p q
      else if compare_data w compar (b_val p) (b_val q) \<noteq> 0 then compare_data w compar (b_val p) (b_val q)
      else compare_buckets w compar ps qs)"
| "compare_buckets w compar _ _ = 0"

fun compare_with_map :: "world \<Rightarrow> (zval \<Rightarrow> zval \<Rightarrow> int) \<Rightarrow> Bucket list \<Rightarrow> (hkey \<rightharpoonup> zval) \<Rightarrow> int" where
  "compare_with_map w compar (p # ps) m =
     (case m (bkey p) of None \<Rightarrow> 1
      | Some v \<Rightarrow> if compare_data w compar (b_val p) v \<noteq> 0 then compare_data w compar (b_val p) v
                  else compare_with_map w compar ps m)"
| "compare_with_map w compar [] m = 0"

definition live_from :: "HashTable \<Rightarrow> nat \<Rightarrow> Bucket list" where
  "live_from ht i = filter live (drop i (take (nNumUsed ht) (arData ht)))"

lemma live_from_0: "live_from ht 0 = ht_buckets ht"
  by (simp add: live_from_def ht_buckets_def)

lemma live_from_step:
  assumes "nNumUsed ht \<le> length (arData ht)" "i < nNumUsed ht"
  shows "live_from ht i = (if b_val (arData ht ! i) = IS_UNDEF then live_from ht (i + 1)
     else arData ht ! i # live_from ht (i + 1))"
  using drop_take_Cons [OF assms(2) assms(1)] by (simp add: live_from_def live_def)

lemma live_from_end: "nNumUsed ht \<le> i \<Longrightarrow> live_from ht i = []"
  by (simp add: live_from_def)

lemma next_present_spec:
  assumes "nNumUsed ht \<le> length (arData ht)" "live_from ht i = b # bs"
  shows "\<exists>k. next_present ht i = Inr k \<and> arData ht ! k = b \<and> live_from ht (k + 1) = bs"
  using assms(2)
proof (induction "nNumUsed ht - i" arbitrary: i)
  case 0
  then show ?case by (simp add: live_from_end)
next
  case (Suc m)
  then have i: "i < nNumUsed ht" by simp
  show ?case
  proof (cases "b_val (arData ht ! i) = IS_UNDEF")
    case True
    then have "live_from ht (i + 1) = b # bs" using Suc.prems live_from_step [OF assms(1) i] by simp
    then show ?thesis using Suc.hyps(1) [of "i + 1"] Suc.hyps(2) True i
      by (simp add: next_present.simps [of ht i])
  next
    case False
    then show ?thesis using Suc.prems live_from_step [OF assms(1) i] i
      by (simp add: next_present.simps [of ht i])
  qed
qed

lemma compare_loop_ordered:
  assumes len: "nNumUsed ht1 \<le> length (arData ht1)" "nNumUsed ht2 \<le> length (arData ht2)"
  shows "length (live_from ht1 i) = length (live_from ht2 j) \<Longrightarrow>
    compare_loop w ht1 ht2 compar True [i..<nNumUsed ht1] j =
      Inr (compare_buckets w compar (live_from ht1 i) (live_from ht2 j))"
proof (induction "nNumUsed ht1 - i" arbitrary: i j)
  case 0
  then show ?case by (simp add: live_from_end)
next
  case (Suc m)
  then have i: "i < nNumUsed ht1" by simp
  then have upt: "[i..<nNumUsed ht1] = i # [i + 1..<nNumUsed ht1]" by (simp add: upt_conv_Cons)
  note st = live_from_step [OF len(1) i]
  show ?case
  proof (cases "b_val (arData ht1 ! i) = IS_UNDEF")
    case True
    then show ?thesis using Suc.hyps(1) [of "i + 1" j] Suc.hyps(2) Suc.prems i st by (simp add: upt)
  next
    case False
    then obtain q qs where q: "live_from ht2 j = q # qs" using Suc.prems st by (cases "live_from ht2 j") auto
    obtain k where k: "next_present ht2 j = Inr k" "arData ht2 ! k = q" "live_from ht2 (k + 1) = qs"
      using next_present_spec [OF len(2) q] by blast
    have "length (live_from ht1 (i + 1)) = length (live_from ht2 (k + 1))" using Suc.prems st False q k by simp
    with Suc.hyps(1) [of "i + 1" "k + 1"] Suc.hyps(2) i
    have "compare_loop w ht1 ht2 compar True [i + 1..<nNumUsed ht1] (k + 1) =
        Inr (compare_buckets w compar (live_from ht1 (i + 1)) qs)" using k by simp
    then show ?thesis using False st q k by (simp add: upt Let_def)
  qed
qed

lemma compare_loop_unordered:
  assumes inv: "ht_inv ht1" "ht_inv ht2"
  shows "compare_loop w ht1 ht2 compar False [i..<nNumUsed ht1] j =
      Inr (compare_with_map w compar (live_from ht1 i) (map_of (ht_entries ht2)))"
proof (induction "nNumUsed ht1 - i" arbitrary: i)
  case 0
  then show ?case by (simp add: live_from_end)
next
  case (Suc m)
  then have i: "i < nNumUsed ht1" by simp
  then have upt: "[i..<nNumUsed ht1] = i # [i + 1..<nNumUsed ht1]" by (simp add: upt_conv_Cons)
  note st = live_from_step [OF ht_inv_used_le [OF inv(1)] i]
  have ih: "compare_loop w ht1 ht2 compar False [i + 1..<nNumUsed ht1] j =
      Inr (compare_with_map w compar (live_from ht1 (i + 1)) (map_of (ht_entries ht2)))"
    using Suc.hyps(1) [of "i + 1"] Suc.hyps(2) by simp
  show ?case
  proof (cases "b_val (arData ht1 ! i) = IS_UNDEF")
    case True
    then show ?thesis using ih st by (simp add: upt)
  next
    case False
    have "zref_val w ht2 (case b_key (arData ht1 ! i) of None \<Rightarrow> zend_hash_index_find ht2 (b_h (arData ht1 ! i))
        | Some key \<Rightarrow> zend_hash_find ht2 key) = Inr (map_of (ht_entries ht2) (bkey (arData ht1 ! i)))"
      by (cases "b_key (arData ht1 ! i)")
        (simp_all add: index_find_pos [OF inv(2)] find_pos [OF inv(2)] zref_val_pos [OF inv(2)] bkey_simps)
    then show ?thesis using False st ih by (simp add: upt Let_def split: option.split)
  qed
qed

lemma compare_buckets_eq_0:
  "length ps = length qs \<Longrightarrow> compare_buckets w compar ps qs = 0 \<longleftrightarrow>
     list_all2 (\<lambda>(k, v) (k', v'). k = k' \<and> compare_data w compar v v' = 0)
       (map (\<lambda>b. (bkey b, b_val b)) ps) (map (\<lambda>b. (bkey b, b_val b)) qs)"
  by (induction w compar ps qs rule: compare_buckets.induct) (auto simp: compare_keys_eq_0)

lemma compare_with_map_eq_0:
  "compare_with_map w compar ps m = 0 \<longleftrightarrow>
     (\<forall>(k, v) \<in> set (map (\<lambda>b. (bkey b, b_val b)) ps). \<exists>v'. m k = Some v' \<and> compare_data w compar v v' = 0)"
  by (induction w compar ps m rule: compare_with_map.induct) (auto split: option.split)

lemma zend_hash_compare_impl_spec:
  assumes inv: "ht_inv ht1" "ht_inv ht2"
  shows "zend_hash_compare_impl w ht1 ht2 compar ordered =
     Inr (if length (ht_entries ht1) \<noteq> length (ht_entries ht2)
          then if length (ht_entries ht1) > length (ht_entries ht2) then 1 else -1
          else if ordered then compare_buckets w compar (ht_buckets ht1) (ht_buckets ht2)
          else compare_with_map w compar (ht_buckets ht1) (map_of (ht_entries ht2)))"
proof -
  have n: "nNumOfElements ht = length (ht_entries ht)" if "ht_inv ht" for ht
    using that by (simp add: ht_inv_def contents_ok_def ht_entries_alt)
  have l: "length (ht_buckets ht) = length (ht_entries ht)" for ht by (simp add: ht_entries_alt)
  show ?thesis
    using compare_loop_ordered [OF inv [THEN ht_inv_used_le], of 0 0 w compar]
      compare_loop_unordered [OF inv, of w compar 0 0]
    by (cases ordered) (auto simp: zend_hash_compare_impl_def n inv live_from_0 l)
qed

text \<open>The result is zero exactly for tables with the same keys and values that compare as equal.\<close>

lemma zend_hash_compare_impl_eq_0:
  assumes inv: "ht_inv ht1" "ht_inv ht2"
  shows "zend_hash_compare_impl w ht1 ht2 compar True = Inr 0 \<longleftrightarrow>
      list_all2 (\<lambda>(k, v) (k', v'). k = k' \<and> compare_data w compar v v' = 0) (ht_entries ht1) (ht_entries ht2)"
    "zend_hash_compare_impl w ht1 ht2 compar False = Inr 0 \<longleftrightarrow>
      length (ht_entries ht1) = length (ht_entries ht2) \<and>
      (\<forall>(k, v) \<in> set (ht_entries ht1). \<exists>v'. map_of (ht_entries ht2) k = Some v' \<and> compare_data w compar v v' = 0)"
proof -
  have l: "length (ht_buckets ht) = length (ht_entries ht)" for ht by (simp add: ht_entries_alt)
  show "zend_hash_compare_impl w ht1 ht2 compar True = Inr 0 \<longleftrightarrow>
      list_all2 (\<lambda>(k, v) (k', v'). k = k' \<and> compare_data w compar v v' = 0) (ht_entries ht1) (ht_entries ht2)"
    using compare_buckets_eq_0 [of "ht_buckets ht1" "ht_buckets ht2" w compar]
    by (auto simp: zend_hash_compare_impl_spec [OF inv] l ht_entries_alt [symmetric] dest: list_all2_lengthD)
  show "zend_hash_compare_impl w ht1 ht2 compar False = Inr 0 \<longleftrightarrow>
      length (ht_entries ht1) = length (ht_entries ht2) \<and>
      (\<forall>(k, v) \<in> set (ht_entries ht1). \<exists>v'. map_of (ht_entries ht2) k = Some v' \<and> compare_data w compar v v' = 0)"
    using compare_with_map_eq_0 [of w compar "ht_buckets ht1" "map_of (ht_entries ht2)"]
    by (auto simp: zend_hash_compare_impl_spec [OF inv] l ht_entries_alt [symmetric])
qed

subsection \<open>Greatest and least element\<close>

lemma first_present_spec:
  assumes "nNumUsed ht \<le> length (arData ht)"
  shows "case first_present ht [i..<nNumUsed ht] of None \<Rightarrow> live_from ht i = []
    | Some k \<Rightarrow> k < nNumUsed ht \<and> live (arData ht ! k) \<and> live_from ht k = live_from ht i"
proof (induction "nNumUsed ht - i" arbitrary: i)
  case 0
  then show ?case by (simp add: live_from_end)
next
  case (Suc m)
  then have i: "i < nNumUsed ht" by simp
  then have upt: "[i..<nNumUsed ht] = i # [i + 1..<nNumUsed ht]" by (simp add: upt_conv_Cons)
  have ih: "case first_present ht [i + 1..<nNumUsed ht] of None \<Rightarrow> live_from ht (i + 1) = []
    | Some k \<Rightarrow> k < nNumUsed ht \<and> live (arData ht ! k) \<and> live_from ht k = live_from ht (i + 1)"
    using Suc.hyps(1) [of "i + 1"] Suc.hyps(2) by simp
  show ?case using ih i live_from_step [OF assms i] by (simp add: upt live_def split: option.splits)
qed

lemma minmax_loop_spec:
  assumes len: "nNumUsed ht \<le> length (arData ht)"
    and tp: "total_preorder (\<lambda>a b. if flag then - compar a b else compar a b)"
    and res: "res < nNumUsed ht" "live (arData ht ! res)"
  defines "better \<equiv> \<lambda>a b. if flag then compar a b < 0 else compar a b > 0"
  shows "minmax_loop ht compar flag [i..<nNumUsed ht] res < nNumUsed ht \<and>
     live (arData ht ! minmax_loop ht compar flag [i..<nNumUsed ht] res) \<and>
     \<not> better (bucket_core (arData ht ! minmax_loop ht compar flag [i..<nNumUsed ht] res))
        (bucket_core (arData ht ! res)) \<and>
     (\<forall>b \<in> set (live_from ht i).
        \<not> better (bucket_core (arData ht ! minmax_loop ht compar flag [i..<nNumUsed ht] res)) (bucket_core b))"
proof -
  have as: "better a b \<Longrightarrow> \<not> better b a" and tr: "\<not> better a b \<Longrightarrow> \<not> better b c \<Longrightarrow> \<not> better a c" for a b c
  proof -
    have b: "better a b \<longleftrightarrow> (if flag then - compar a b else compar a b) > 0" for a b
      by (simp add: better_def)
    show "better a b \<Longrightarrow> \<not> better b a" using tp unfolding b total_preorder_def by metis
    show "\<not> better a b \<Longrightarrow> \<not> better b c \<Longrightarrow> \<not> better a c" using tp unfolding b total_preorder_def by metis
  qed
  have irr: "\<not> better a a" for a using as by blast
  show ?thesis
    using res
  proof (induction "nNumUsed ht - i" arbitrary: i res)
    case 0
    then show ?case using irr by (simp add: live_from_end)
  next
    case (Suc m)
    then have i: "i < nNumUsed ht" by simp
    then have upt: "[i..<nNumUsed ht] = i # [i + 1..<nNumUsed ht]" by (simp add: upt_conv_Cons)
    note st = live_from_step [OF len i]
    note ih = Suc.hyps(1) [of "i + 1"]
    have m: "m = nNumUsed ht - (i + 1)" using Suc.hyps(2) by simp
    let ?c = "\<lambda>k. bucket_core (arData ht ! k)"
    show ?case
    proof (cases "b_val (arData ht ! i) = IS_UNDEF")
      case True
      then show ?thesis using ih [OF m Suc.prems] st by (simp add: upt Let_def)
    next
      case False
      then have li: "live (arData ht ! i)" by (simp add: live_def)
      have unf: "minmax_loop ht compar flag [i..<nNumUsed ht] res =
          minmax_loop ht compar flag [i + 1..<nNumUsed ht] (if better (?c res) (?c i) then i else res)"
        using False by (simp add: upt Let_def better_def)
      show ?thesis
      proof (cases "better (?c res) (?c i)")
        case True
        then show ?thesis using ih [OF m i li] st False tr [OF _ as [OF True]] unfolding unf by auto
      next
        case nb: False
        then show ?thesis using ih [OF m Suc.prems] st False tr [OF _ nb] unfolding unf by auto
      qed
    qed
  qed
qed

lemma zend_hash_minmax_spec:
  assumes inv: "ht_inv ht" and tp: "total_preorder (\<lambda>a b. if flag \<noteq> 0 then - compar a b else compar a b)"
  shows "case zend_hash_minmax ht compar flag of
      None \<Rightarrow> ht_cores ht = []
    | Some (BUCKET k) \<Rightarrow> bucket_core (arData ht ! k) \<in> set (ht_cores ht) \<and>
        (\<forall>c \<in> set (ht_cores ht). if flag \<noteq> 0 then \<not> compar (bucket_core (arData ht ! k)) c < 0
                              else \<not> compar (bucket_core (arData ht ! k)) c > 0)
    | Some _ \<Rightarrow> False"
proof -
  have len: "nNumUsed ht \<le> length (arData ht)" by (rule ht_inv_used_le [OF inv])
  have n: "nNumOfElements ht = length (ht_buckets ht)" using inv by (simp add: ht_inv_def contents_ok_def)
  show ?thesis
  proof (cases "ht_buckets ht = []")
    case True
    then show ?thesis using n by (simp add: zend_hash_minmax_def ht_cores_def)
  next
    case False
    then obtain i where i: "first_present ht [0..<nNumUsed ht] = Some i"
      using first_present_spec [OF len, of 0] by (cases "first_present ht [0..<nNumUsed ht]") (auto simp: live_from_0)
    then have f: "i < nNumUsed ht" "live (arData ht ! i)" "live_from ht i = ht_buckets ht"
      using first_present_spec [OF len, of 0] by (auto simp: live_from_0)
    note m = minmax_loop_spec [OF len tp f(1,2), of i, unfolded f(3)]
    define r where "r = minmax_loop ht compar (flag \<noteq> 0) [i..<nNumUsed ht] i"
    have "arData ht ! r \<in> set (ht_buckets ht)"
      using m len used_bucket_in_set [of r ht] by (simp add: r_def)
    then have "bucket_core (arData ht ! r) \<in> set (ht_cores ht)" by (simp add: ht_cores_def)
    moreover have "zend_hash_minmax ht compar flag = Some (BUCKET r)"
      using False n i by (simp add: zend_hash_minmax_def r_def)
    moreover have "\<forall>c \<in> set (ht_cores ht). \<not> (if flag \<noteq> 0 then compar (bucket_core (arData ht ! r)) c < 0
        else compar (bucket_core (arData ht ! r)) c > 0)"
      using m by (auto simp: ht_cores_def r_def)
    ultimately show ?thesis by (cases "flag = 0") simp_all
  qed
qed

end
