(* ===== verification/Zend_Hash_Props.thy ===== *)
theory Zend_Hash_Props
  imports Zend_Hash_Apply "HOL-Library.Code_Target_Nat"
begin

text \<open>
  The properties of the hash table as its users see them, each with a run of the operation on a
  concrete table on which its hypotheses hold.
\<close>

subsection \<open>Tables for the examples\<close>

definition w0 :: world where
  "w0 = \<lparr>slots = (\<lambda>_. IS_UNDEF), ht_iterators = [], ht_iterators_used = 0, events = []\<rparr>"

definition ht0 :: HashTable where
  "ht0 = projr (zend_hash_init 1 8 (Some ZVAL_PTR_DTOR) False)"

definition key_a :: zend_string where "key_a = \<lparr>zs_val = [97], zs_interned = False\<rparr>"
definition key_b :: zend_string where "key_b = \<lparr>zs_val = [98], zs_interned = True\<rparr>"

text \<open>A hash with the elements \<open>"a"\<close> and \<open>7\<close>, and a packed table with the elements 0 and 3.\<close>

definition table_of :: "zref option ht_res \<Rightarrow> HashTable" where
  "table_of m = snd (snd (projr m))"

definition ht_a :: HashTable where
  "ht_a = table_of (zend_hash_update w0 ht0 key_a (IS_LONG 1))"

definition ht_a7 :: HashTable where
  "ht_a7 = table_of (zend_hash_index_update w0 ht_a 7 IS_TRUE)"

definition ht_p0 :: HashTable where
  "ht_p0 = table_of (zend_hash_index_update w0 ht0 0 (IS_LONG 5))"

definition ht_p03 :: HashTable where
  "ht_p03 = table_of (zend_hash_index_update w0 ht_p0 3 (IS_LONG 6))"

lemma init_Inr: "unat n < HT_MAX_SIZE \<Longrightarrow> \<exists>ht. zend_hash_init a n d p = Inr ht"
  using check_size_value [of n] by (auto simp: zend_hash_init_def)

lemma ht0: "zend_hash_init 1 8 (Some ZVAL_PTR_DTOR) False = Inr ht0"
  using init_Inr [of 8 1 "Some ZVAL_PTR_DTOR" False] by (auto simp: ht0_def HT_MAX_SIZE_def)

lemmas ht0_facts = zend_hash_init_inv [OF ht0]

text \<open>On a small table a write succeeds.\<close>

lemma small_outcome:
  assumes "outcome ht (\<lambda>res. written w ht k v res \<and> P res) m" "length (ht_entries ht) < 100"
  shows "\<exists>r w' ht'. m = Inr (r, w', ht') \<and> table_of m = ht' \<and> ht_inv ht' \<and>
     pDestructor ht' = pDestructor ht \<and> ht_entries ht' = AList.update k v (ht_entries ht)"
proof (cases m)
  case (Inl e)
  then show ?thesis using assms by (simp add: table_full_def HT_MAX_SIZE_def)
next
  case (Inr res)
  obtain r w' ht' where res: "res = (r, w', ht')" by (cases res)
  have "written w ht k v (r, w', ht')" using assms(1) Inr res by simp
  then have "ht_inv ht'" "ht_ident ht' = ht_ident ht" "ht_entries ht' = AList.update k v (ht_entries ht)"
    unfolding written_def prod.case by blast+
  then show ?thesis using Inr res ident_dtor [of ht' ht] by (simp add: table_of_def)
qed

lemmas small_update = small_outcome [OF zend_hash_update_spec]
lemmas small_index_update = small_outcome [OF zend_hash_index_update_spec]

lemma storable_examples [simp]: "storable (IS_LONG n)" "storable IS_TRUE" "storable IS_NULL"
  by (simp_all add: storable_def)

lemma ht_a:
  "ht_inv ht_a" "ht_entries ht_a = [(StrKey [97], IS_LONG 1)]" "pDestructor ht_a = Some ZVAL_PTR_DTOR"
  using small_update [OF ht0_facts(1), where v = "IS_LONG 1" and w = w0 and key = key_a] ht0_facts
  by (auto simp: ht_a_def key_a_def)

lemma ht_a7:
  "ht_inv ht_a7" "ht_entries ht_a7 = [(StrKey [97], IS_LONG 1), (IntKey 7, IS_TRUE)]"
  "pDestructor ht_a7 = Some ZVAL_PTR_DTOR"
  using small_index_update [OF ht_a(1), where v = IS_TRUE and w = w0 and h = 7] ht_a by (auto simp: ht_a7_def)

lemma ht_p0:
  "ht_inv ht_p0" "ht_entries ht_p0 = [(IntKey 0, IS_LONG 5)]" "pDestructor ht_p0 = Some ZVAL_PTR_DTOR"
  using small_index_update [OF ht0_facts(1), where v = "IS_LONG 5" and w = w0 and h = 0] ht0_facts by (auto simp: ht_p0_def)

lemma ht_p03:
  "ht_inv ht_p03" "ht_entries ht_p03 = [(IntKey 0, IS_LONG 5), (IntKey 3, IS_LONG 6)]"
  "pDestructor ht_p03 = Some ZVAL_PTR_DTOR"
  using small_index_update [OF ht_p0(1), where v = "IS_LONG 6" and w = w0 and h = 3] ht_p0 by (auto simp: ht_p03_def)

subsection \<open>Writing\<close>

text \<open>
  C1. \<open>zend_hash_update\<close> writes the value in place when the key is present and appends the entry
  otherwise, in every layout and through every resize and rehash; the invariant holds again, the
  returned pointer refers to the value, the value replaced is destroyed once and a new key is
  referenced once. The only failure is the fatal error of a table with more than half of the
  maximal number of elements.
\<close>

theorem zend_hash_update_correct:
  assumes "ht_inv ht" and "storable v"
  shows "case zend_hash_update w ht key v of
      Inl e \<Rightarrow> e = E_ERROR_MEMORY \<and> HT_MAX_SIZE div 2 < length (ht_entries ht)
    | Inr (r, w', ht') \<Rightarrow>
        ht_inv ht' \<and> ht_entries ht' = AList.update (StrKey (zs_val key)) v (ht_entries ht) \<and>
        zref_val w' ht' (Inr r) = Inr (Some v) \<and> slots w' = slots w \<and>
        events w' = events w @ (case map_of (ht_entries ht) (StrKey (zs_val key)) of
            Some old \<Rightarrow> (case pDestructor ht of None \<Rightarrow> [] | Some d \<Rightarrow> [Dtor d old])
          | None \<Rightarrow> if zs_interned key then [] else [Str_Addref key])"
  using zend_hash_update_spec [OF assms, of w key]
  by (auto simp: outcome_def written_def table_full_def write_events_def zref_val_def zref_get_def
      split: sum.split)

theorem zend_hash_update_correct_witness:
  "\<exists>r w' ht'. zend_hash_update w0 ht_a7 key_a IS_NULL = Inr (r, w', ht') \<and>
     ht_entries ht' = [(StrKey [97], IS_NULL), (IntKey 7, IS_TRUE)] \<and>
     events w' = [Dtor ZVAL_PTR_DTOR (IS_LONG 1)]"
  using zend_hash_update_correct [OF ht_a7(1), where v = IS_NULL and w = w0 and key = key_a] ht_a7
  by (auto simp: HT_MAX_SIZE_def key_a_def w0_def split: sum.splits)

lemma HASH_ADD_nonzero: "HASH_ADD \<noteq> 0"
  by (simp add: hash_masks)

text \<open>
  C2. \<open>zend_hash_add\<close> returns \<open>NULL\<close> and changes nothing when the key is present; otherwise it
  appends the entry.
\<close>

theorem zend_hash_add_correct:
  assumes "ht_inv ht" and "storable v"
  shows "case zend_hash_add w ht key v of
      Inl e \<Rightarrow> e = E_ERROR_MEMORY \<and> HT_MAX_SIZE div 2 < length (ht_entries ht)
    | Inr (r, w', ht') \<Rightarrow>
        if map_of (ht_entries ht) (StrKey (zs_val key)) \<noteq> None then r = None \<and> w' = w \<and> ht' = ht
        else ht_inv ht' \<and> ht_entries ht' = ht_entries ht @ [(StrKey (zs_val key), v)] \<and>
          zref_val w' ht' (Inr r) = Inr (Some v)"
proof -
  have "outcome ht (str_add_post w ht key v HASH_ADD) (zend_hash_add w ht key v)"
    unfolding zend_hash_add_def
    by (rule zend_hash_add_or_update_i_spec [OF assms]) (simp_all add: no_add_flag)
  moreover have "AList.update k v (ht_entries ht) = ht_entries ht @ [(k, v)]"
    if "map_of (ht_entries ht) k = None" for k
    using that by (intro alist_update_new) (simp add: map_of_eq_None_iff)
  ultimately show ?thesis
    by (auto simp: outcome_def str_add_post_def Let_def HASH_ADD_nonzero written_def table_full_def
        zref_val_def zref_get_def split: sum.split)
qed

theorem zend_hash_add_correct_witness:
  "zend_hash_add w0 ht_a7 key_a IS_NULL = Inr (None, w0, ht_a7) \<and>
   (\<exists>r w' ht'. zend_hash_add w0 ht_a7 key_b IS_NULL = Inr (r, w', ht') \<and>
     ht_entries ht' = [(StrKey [97], IS_LONG 1), (IntKey 7, IS_TRUE), (StrKey [98], IS_NULL)])"
  using zend_hash_add_correct [OF ht_a7(1), where v = IS_NULL and w = w0 and key = key_a]
    zend_hash_add_correct [OF ht_a7(1), where v = IS_NULL and w = w0 and key = key_b] ht_a7
  by (auto simp: HT_MAX_SIZE_def key_a_def key_b_def split: sum.splits)

text \<open>
  C3. \<open>zend_hash_index_update\<close> does the same for a numeric key, whichever of its paths it takes:
  into the packed layout with or without growth, over a hole, into the hash layout, or with the
  conversion from one to the other.
\<close>

theorem zend_hash_index_update_correct:
  assumes "ht_inv ht" and "storable v"
  shows "case zend_hash_index_update w ht h v of
      Inl e \<Rightarrow> e = E_ERROR_MEMORY \<and> HT_MAX_SIZE div 2 < length (ht_entries ht)
    | Inr (r, w', ht') \<Rightarrow>
        ht_inv ht' \<and> ht_entries ht' = AList.update (IntKey h) v (ht_entries ht) \<and>
        zref_val w' ht' (Inr r) = Inr (Some v) \<and> slots w' = slots w \<and>
        events w' = events w @ (case map_of (ht_entries ht) (IntKey h) of
            Some old \<Rightarrow> (case pDestructor ht of None \<Rightarrow> [] | Some d \<Rightarrow> [Dtor d old])
          | None \<Rightarrow> [])"
  using zend_hash_index_update_spec [OF assms, of w h]
  by (auto simp: outcome_def written_def table_full_def write_events_def zref_val_def zref_get_def
      split: sum.split)

theorem zend_hash_index_update_correct_witness:
  "\<exists>r w' ht'. zend_hash_index_update w0 ht_p03 1 IS_NULL = Inr (r, w', ht') \<and> ht_inv ht' \<and>
     ht_entries ht' = [(IntKey 0, IS_LONG 5), (IntKey 3, IS_LONG 6), (IntKey 1, IS_NULL)]"
  using zend_hash_index_update_correct [OF ht_p03(1), where v = IS_NULL and w = w0 and h = 1] ht_p03
  by (auto simp: HT_MAX_SIZE_def split: sum.splits)

lemma next_free_absent:
  assumes inv: "ht_inv ht" and p: "map_of (ht_entries ht) (IntKey (nNextFreeElement ht)) = Some old"
  shows "nNextFreeElement ht = ZEND_LONG_MAX"
proof -
  obtain i where i: "key_pos ht (IntKey (nNextFreeElement ht)) = Some i"
    using p map_of_entries [OF inv] by (cases "key_pos ht (IntKey (nNextFreeElement ht))") auto
  note pos = key_pos_Some [OF i]
  have "arData ht ! i \<in> set (ht_buckets ht)"
    using used_bucket_in_set [OF pos(1) ht_inv_used_le [OF inv] pos(2)] .
  moreover have "b_key (arData ht ! i) = None" "b_h (arData ht ! i) = nNextFreeElement ht"
    using pos(3) by (cases "b_key (arData ht ! i)"; simp add: bkey_simps)+
  ultimately show ?thesis
    using inv by (auto simp: ht_inv_def contents_ok_def next_free_ok_def)
qed

lemma next_insert_flag:
  "(HASH_ADD OR HASH_ADD_NEXT) AND HASH_ADD \<noteq> 0" "(HASH_ADD OR HASH_ADD_NEXT) AND HASH_ADD_NEW = 0"
  "(HASH_ADD OR HASH_ADD_NEXT) AND (HASH_ADD_NEW OR HASH_ADD_NEXT) \<noteq> HASH_ADD_NEW OR HASH_ADD_NEXT"
  by (simp_all add: hash_masks)

text \<open>
  C4. \<open>zend_hash_next_index_insert\<close> appends the value under the next free index, which is above
  every numeric key; only when that index is saturated at its maximum and taken does it return
  \<open>NULL\<close> without effect.
\<close>

theorem zend_hash_next_index_insert_correct:
  assumes "ht_inv ht" and "storable v"
  shows "case zend_hash_next_index_insert w ht v of
      Inl e \<Rightarrow> e = E_ERROR_MEMORY \<and> HT_MAX_SIZE div 2 < length (ht_entries ht)
    | Inr (r, w', ht') \<Rightarrow>
        if map_of (ht_entries ht) (IntKey (nNextFreeElement ht)) \<noteq> None
        then nNextFreeElement ht = ZEND_LONG_MAX \<and> r = None \<and> w' = w \<and> ht' = ht
        else ht_inv ht' \<and> ht_entries ht' = ht_entries ht @ [(IntKey (nNextFreeElement ht), v)] \<and>
          zref_val w' ht' (Inr r) = Inr (Some v)"
proof -
  let ?h = "nNextFreeElement ht"
  have "outcome ht (index_add_post w ht ?h v (HASH_ADD OR HASH_ADD_NEXT))
      (zend_hash_next_index_insert w ht v)"
    unfolding zend_hash_next_index_insert_def
    by (rule zend_hash_index_add_or_update_i_spec [OF assms])
      (simp_all add: next_insert_flag next_promise_def)
  moreover have "AList.update k v (ht_entries ht) = ht_entries ht @ [(k, v)]"
    if "map_of (ht_entries ht) k = None" for k
    using that by (intro alist_update_new) (simp add: map_of_eq_None_iff)
  ultimately show ?thesis
    using next_free_absent [OF assms(1)]
    by (auto simp: outcome_def index_add_post_def next_insert_flag HASH_ADD_nonzero written_def
        table_full_def zref_val_def zref_get_def split: sum.split)
qed

lemma ht_p03_next: "nNextFreeElement ht_p03 = 4"
  by code_simp

theorem zend_hash_next_index_insert_correct_witness:
  "\<exists>r w' ht'. zend_hash_next_index_insert w0 ht_p03 IS_NULL = Inr (r, w', ht') \<and>
     ht_entries ht' = [(IntKey 0, IS_LONG 5), (IntKey 3, IS_LONG 6), (IntKey 4, IS_NULL)]"
  using zend_hash_next_index_insert_correct [OF ht_p03(1), where v = IS_NULL and w = w0] ht_p03
  by (auto simp: HT_MAX_SIZE_def ht_p03_next split: sum.splits)

subsection \<open>Looking up\<close>

text \<open>
  C5. Every lookup returns, without running out of its block or its chain, a pointer to the value
  of the entry of the key, or \<open>NULL\<close> when there is none; the existence tests agree.
\<close>

theorem zend_hash_lookups_correct:
  assumes "ht_inv ht"
  shows "zref_val w ht (zend_hash_find ht key) = Inr (map_of (ht_entries ht) (StrKey (zs_val key))) \<and>
    zref_val w ht (zend_hash_str_find ht str) = Inr (map_of (ht_entries ht) (StrKey str)) \<and>
    zref_val w ht (zend_hash_index_find ht h) = Inr (map_of (ht_entries ht) (IntKey h)) \<and>
    zend_hash_exists ht key = Inr (map_of (ht_entries ht) (StrKey (zs_val key)) \<noteq> None) \<and>
    zend_hash_str_exists ht str = Inr (map_of (ht_entries ht) (StrKey str) \<noteq> None) \<and>
    zend_hash_index_exists ht h = Inr (map_of (ht_entries ht) (IntKey h) \<noteq> None)"
  unfolding find_pos [OF assms] index_find_pos [OF assms] zref_val_pos [OF assms]
    key_pos_map_of [OF assms]
  by simp

theorem zend_hash_lookups_correct_witness:
  "zref_val w0 ht_a7 (zend_hash_find ht_a7 key_a) = Inr (Some (IS_LONG 1)) \<and>
   zref_val w0 ht_a7 (zend_hash_index_find ht_a7 8) = Inr None"
  using zend_hash_lookups_correct [OF ht_a7(1), where w = w0 and key = key_a and h = 8] ht_a7
  by (simp add: key_a_def)

subsection \<open>Deleting\<close>

text \<open>
  C6. \<open>zend_hash_del\<close> and \<open>zend_hash_index_del\<close> succeed exactly when the key is present; they
  remove its entry and keep the order of the others, and the table is sound again.
\<close>

theorem zend_hash_del_correct:
  assumes "ht_inv ht"
  shows "(\<exists>w' ht'. zend_hash_del w ht key =
      Inr (map_of (ht_entries ht) (StrKey (zs_val key)) \<noteq> None, w', ht') \<and> ht_inv ht' \<and>
      ht_entries ht' = AList.delete (StrKey (zs_val key)) (ht_entries ht) \<and> slots w' = slots w) \<and>
    (\<exists>w' ht'. zend_hash_index_del w ht h =
      Inr (map_of (ht_entries ht) (IntKey h) \<noteq> None, w', ht') \<and> ht_inv ht' \<and>
      ht_entries ht' = AList.delete (IntKey h) (ht_entries ht) \<and> slots w' = slots w)"
  using zend_hash_del_spec [OF assms, of w key] zend_hash_index_del_spec [OF assms, of w h]
  by (auto simp: deleted_def)

theorem zend_hash_del_correct_witness:
  "\<exists>w' ht'. zend_hash_del w0 ht_a7 key_a = Inr (True, w', ht') \<and> ht_entries ht' = [(IntKey 7, IS_TRUE)]"
  using zend_hash_del_correct [OF ht_a7(1), where w = w0 and key = key_a and h = 7] ht_a7
  by (auto simp: key_a_def)

text \<open>
  C7. Removing a bucket releases its key when that is counted, and then calls the destructor once
  on its value; the elements before and after it stay where they are.
\<close>

theorem zend_hash_del_bucket_correct:
  assumes "ht_inv ht" and "idx < nNumUsed ht" and "b_val (arData ht ! idx) \<noteq> IS_UNDEF"
  shows "\<exists>w' ht'. zend_hash_del_bucket w ht idx = Inr (w', ht') \<and> ht_inv ht' \<and>
     ht_entries ht' = AList.delete (bkey (arData ht ! idx)) (ht_entries ht) \<and>
     snap ht' = (snap ht)(idx := None) \<and>
     events w' = events w @
       (case b_key (arData ht ! idx) of None \<Rightarrow> []
        | Some s \<Rightarrow> if zs_interned s then [] else [Str_Release s]) @
       (case pDestructor ht of None \<Rightarrow> [] | Some d \<Rightarrow> [Dtor d (b_val (arData ht ! idx))])"
  using zend_hash_del_bucket_spec [OF assms(1,2), of w] assms(3)
  by (auto simp: live_def del_post_def)

theorem zend_hash_del_bucket_correct_witness:
  "\<exists>w' ht'. zend_hash_del_bucket w0 ht_a 0 = Inr (w', ht') \<and> ht_entries ht' = []"
proof -
  have f: "nNumUsed ht_a = 1 \<and> b_val (arData ht_a ! 0) = IS_LONG 1 \<and> bkey (arData ht_a ! 0) = StrKey [97]"
    by code_simp
  then show ?thesis
    using zend_hash_del_bucket_correct [OF ht_a(1), where w = w0 and idx = 0] ht_a by auto
qed

text \<open>
  C8. With the \<open>INDIRECT\<close> variants, a key whose element refers to a slot is updated and deleted in
  the slot: the table keeps its entries, the old value of the slot is destroyed once, and a slot
  that is already empty makes the deletion fail.
\<close>

theorem zend_hash_indirect_correct:
  assumes "ht_inv ht" and "map_of (ht_entries ht) (StrKey (zs_val key)) = Some (IS_INDIRECT a)"
  shows "zend_hash_update_ind w ht key v =
      Inr (Some (SLOT a), (call_dtor ht (slots w a) w)\<lparr>slots := (slots w)(a := v)\<rparr>, ht) \<and>
    (\<exists>w' ht' r. zend_hash_del_ind w ht key = Inr (r, w', ht') \<and> ht_entries ht' = ht_entries ht \<and>
      r = (slots w a \<noteq> IS_UNDEF) \<and> slots w' = (slots w)(a := IS_UNDEF) \<and>
      events w' = events w @ (if slots w a = IS_UNDEF then []
        else case pDestructor ht of None \<Rightarrow> [] | Some d \<Rightarrow> [Dtor d (slots w a)]))"
proof
  show "zend_hash_update_ind w ht key v =
      Inr (Some (SLOT a), (call_dtor ht (slots w a) w)\<lparr>slots := (slots w)(a := v)\<rparr>, ht)"
    unfolding zend_hash_update_ind_def
    by (subst update_indirect_spec [OF assms]) (simp_all add: hash_masks)
  obtain r w' ht' where d: "zend_hash_del_ind w ht key = Inr (r, w', ht')" "cleared w ht a (r, w', ht')"
    using zend_hash_del_ind_spec [OF assms(1), of w key] assms(2) by (auto simp: deleted_ind_def)
  have "ht_entries (ht\<lparr>ht_has_empty_ind := True\<rparr>) = ht_entries ht"
    by (simp add: ht_entries_alt ht_buckets_def)
  with d show "\<exists>w' ht' r. zend_hash_del_ind w ht key = Inr (r, w', ht') \<and> ht_entries ht' = ht_entries ht \<and>
      r = (slots w a \<noteq> IS_UNDEF) \<and> slots w' = (slots w)(a := IS_UNDEF) \<and>
      events w' = events w @ (if slots w a = IS_UNDEF then []
        else case pDestructor ht of None \<Rightarrow> [] | Some d \<Rightarrow> [Dtor d (slots w a)])"
    by (auto simp: cleared_def split: if_splits)
qed

theorem zend_hash_indirect_correct_witness:
  "\<exists>ht w' ht'. zend_hash_del_ind w0 ht key_a = Inr (False, w', ht') \<and> ht_entries ht' = [(StrKey [97], IS_INDIRECT 9)]"
proof -
  obtain r w ht where ht: "zend_hash_update w0 ht0 key_a (IS_INDIRECT 9) = Inr (r, w, ht)" "ht_inv ht"
      "ht_entries ht = [(StrKey [97], IS_INDIRECT 9)]"
    using small_update [OF ht0_facts(1), where v = "IS_INDIRECT 9" and w = w0 and key = key_a] ht0_facts
    by (auto simp: storable_def key_a_def)
  then show ?thesis
    using zend_hash_indirect_correct [OF ht(2), where w = w0 and key = key_a and a = 9]
    by (fastforce simp: key_a_def w0_def)
qed

subsection \<open>Sizes and reorganisation\<close>

text \<open>
  C9. \<open>zend_hash_check_size\<close> rounds up to the smallest power of two from 8 to the maximal size
  that is large enough, and fails exactly for sizes above the maximum; the variant with the
  compiler's count of leading zeros computes the same.
\<close>

theorem zend_hash_check_size_correct:
  shows "zend_hash_check_size_clz n = zend_hash_check_size n \<and>
    (case zend_hash_check_size n of
       Inl e \<Rightarrow> e = E_ERROR_MEMORY \<and> HT_MAX_SIZE \<le> unat n
     | Inr s \<Rightarrow> unat n < HT_MAX_SIZE \<and> is_arg_min id (\<lambda>m. size_ok m \<and> unat n \<le> m) (unat s))"
proof (cases "unat n < HT_MAX_SIZE")
  case True
  obtain s where s: "zend_hash_check_size n = Inr s" "zend_hash_check_size_clz n = Inr s"
    using check_size_value [OF True] by auto
  then show ?thesis
    using True check_size_Inr [OF s(1)] by (auto simp: is_arg_min_linorder)
next
  case False
  then have "zend_hash_check_size n = Inl E_ERROR_MEMORY"
    using check_size_Inl_iff [of n E_ERROR_MEMORY] by simp
  moreover have "zend_hash_check_size_clz n = Inl E_ERROR_MEMORY"
  proof -
    have "0x80000000 \<le> n" "\<not> n < 8"
      using False by (auto simp: word_le_nat_alt word_less_nat_alt HT_MAX_SIZE_def)
    then show ?thesis by (simp add: zend_hash_check_size_clz_def Let_def)
  qed
  ultimately show ?thesis using False by simp
qed

text \<open>
  C10. A rehash of a table in hash layout keeps the entries and the element under the internal
  pointer, squeezes the holes out and rebuilds every chain; the conversion from the packed
  layout does the same.
\<close>

theorem zend_hash_rehash_correct:
  assumes "ht_inv ht" and "ht_initialized ht"
  shows "(\<not> ht_packed ht \<longrightarrow>
      (let ht' = snd (zend_hash_rehash w ht) in
       ht_inv ht' \<and> ht_entries ht' = ht_entries ht \<and> cursor ht' = cursor ht \<and>
       nNumUsed ht' = nNumOfElements ht)) \<and>
    (let ht' = snd (zend_hash_packed_to_hash w ht) in
       ht_inv ht' \<and> \<not> ht_packed ht' \<and> ht_entries ht' = ht_entries ht \<and> cursor ht' = cursor ht \<and>
       nNumUsed ht' = nNumOfElements ht)"
proof (intro conjI impI)
  obtain w1 ht1 where r1: "zend_hash_packed_to_hash w ht = (w1, ht1)" by fastforce
  from zend_hash_packed_to_hash_inv [OF assms r1]
  show "let ht' = snd (zend_hash_packed_to_hash w ht) in
       ht_inv ht' \<and> \<not> ht_packed ht' \<and> ht_entries ht' = ht_entries ht \<and> cursor ht' = cursor ht \<and>
       nNumUsed ht' = nNumOfElements ht"
    by (auto simp: r1 Let_def reorganised_entries) (simp add: reorganised_def)
  assume np: "\<not> ht_packed ht"
  obtain w2 ht2 where r2: "zend_hash_rehash w ht = (w2, ht2)" by fastforce
  have ok: "contents_ok ht" and lay: "hash_layout ht" using assms np by (auto simp: ht_inv_def)
  then have n: "nNumUsed ht \<le> nTableSize ht" "nNumOfElements ht = length (ht_buckets ht)" "pointer_ok ht"
    by (auto simp: contents_ok_def)
  have "rehashed ht ht2"
    by (rule zend_hash_rehash_spec [OF _ assms(2) n r2]) (use lay in \<open>simp add: hash_layout_def\<close>)
  from rehashed_inv [OF this ok assms(2) np ht_inv_used_le [OF assms(1)]]
  show "let ht' = snd (zend_hash_rehash w ht) in
       ht_inv ht' \<and> ht_entries ht' = ht_entries ht \<and> cursor ht' = cursor ht \<and>
       nNumUsed ht' = nNumOfElements ht"
    by (auto simp: r2 Let_def reorganised_entries) (simp add: reorganised_def)
qed

theorem zend_hash_rehash_correct_witness:
  "ht_entries (snd (zend_hash_packed_to_hash w0 ht_p0)) = [(IntKey 0, IS_LONG 5)]"
proof -
  have "ht_initialized ht_p0" using uninit_empty(3) [OF ht_p0(1)] ht_p0(2) by auto
  then show ?thesis using zend_hash_rehash_correct [OF ht_p0(1), where w = w0] ht_p0 by (simp add: Let_def)
qed

subsection \<open>Walking and taking down\<close>

text \<open>
  C11. A walk from the first element with \<open>zend_hash_move_forward_ex\<close> reads every entry once and in
  order, one from the last with \<open>zend_hash_move_backwards_ex\<close> in reverse, and both end within as
  many steps as there are used buckets.
\<close>

theorem zend_hash_walk_correct:
  assumes "ht_inv ht"
  shows "walk_forward (nNumUsed ht) ht (zend_hash_internal_pointer_reset_ex ht) = ht_entries ht \<and>
    walk_backwards (nNumUsed ht) ht (zend_hash_internal_pointer_end_ex ht) = rev (ht_entries ht)"
  using walk_all [OF assms] by simp

theorem zend_hash_walk_correct_witness:
  "walk_forward (nNumUsed ht_p03) ht_p03 (zend_hash_internal_pointer_reset_ex ht_p03) =
     [(IntKey 0, IS_LONG 5), (IntKey 3, IS_LONG 6)]"
  using zend_hash_walk_correct [OF ht_p03(1)] ht_p03 by simp



text \<open>
  C13. \<open>zend_hash_apply\<close> visits the elements in order until the callback asks to stop, replaces or
  removes each as the callback says and leaves the others alone; the protection counter is back
  where it was. A fourth nested walk over a protected table is the fatal error.
\<close>

theorem zend_hash_apply_correct:
  assumes "ht_inv ht" and "\<forall>v. storable (snd (f v))"
  shows "case zend_hash_apply w ht f of
      Inl e \<Rightarrow> e = E_ERROR_NESTING \<and> ht_apply_protection ht \<and> 3 \<le> nApplyCount ht
    | Inr (w', ht') \<Rightarrow> ht_inv ht' \<and> nApplyCount ht' = nApplyCount ht \<and>
        ht_cores ht' = apply_cores (\<lambda>(v, h, k). f v) (ht_cores ht)"
  using zend_hash_apply_spec [OF assms, of w]
  by (auto simp: applied_def ht_ident_def split: sum.splits)

definition drop_true :: "zval \<Rightarrow> u32 \<times> zval" where
  "drop_true v = (if v = IS_TRUE then ZEND_HASH_APPLY_REMOVE else ZEND_HASH_APPLY_KEEP, IS_NULL)"

theorem zend_hash_apply_correct_witness:
  "\<exists>w' ht'. zend_hash_apply w0 ht_a7 drop_true = Inr (w', ht') \<and>
     ht_cores ht' = [(IS_NULL, zend_string_hash_val key_a, Some key_a)]"
proof -
  have "\<forall>v. storable (snd (drop_true v))" by (simp add: drop_true_def)
  moreover have "nApplyCount ht_a7 = 0" by code_simp
  moreover have "apply_cores (\<lambda>(v, h, k). drop_true v) (ht_cores ht_a7) =
      [(IS_NULL, zend_string_hash_val key_a, Some key_a)]" by code_simp
  ultimately show ?thesis
    using zend_hash_apply_correct [OF ht_a7(1), where f = drop_true and w = w0]
    by (auto split: sum.splits)
qed

text \<open>
  C14. Registering an iterator, reading its position (which moves it to the table it is asked for)
  and removing it keep the bookkeeping right: no entry is in use above \<open>ht_iterators_used\<close>, and
  every table counts the iterators on it, up to the saturation of the counter.
\<close>

theorem zend_hash_iterators_correct:
  assumes "iterators_ok ex"
  shows "iterators_ok (snd (zend_hash_iterator_add a pos ex)) \<and>
    (idx < ht_iterators_used (ex_world ex) \<longrightarrow>
      iterators_ok (snd (zend_hash_iterator_pos idx a ex)) \<and> iterators_ok (zend_hash_iterator_del idx ex))"
  using zend_hash_iterator_add_ok [OF assms] zend_hash_iterator_pos_ok [OF assms]
    zend_hash_iterator_del_ok [OF assms] by blast

definition ex0 :: executor where
  "ex0 = \<lparr>ex_world = w0\<lparr>ht_iterators := [null_iterator]\<rparr>, ex_tables = (\<lambda>a. ht0\<lparr>nIteratorsCount := 0\<rparr>)\<rparr>"

theorem zend_hash_iterators_correct_witness:
  "iterators_ok (snd (zend_hash_iterator_add 1 0 ex0))"
  by (rule conjunct1 [OF zend_hash_iterators_correct])
    (simp add: iterators_ok_def ex0_def w0_def null_iterator_def iter_count_def Let_def)

text \<open>
  C15. \<open>zend_hash_str_update\<close> makes a string for the key and gives its own reference up at the end:
  one reference to that string is left when the key is new, the one the table holds, and none
  when the key was present.
\<close>

theorem zend_hash_str_update_refs:
  assumes "ht_inv ht" and "storable v" and "s = \<lparr>zs_val = str, zs_interned = False\<rparr>"
  shows "case zend_hash_str_update w ht str v of
      Inl e \<Rightarrow> e = E_ERROR_MEMORY \<and> HT_MAX_SIZE div 2 < length (ht_entries ht)
    | Inr (r, w', ht') \<Rightarrow> ht_entries ht' = AList.update (StrKey str) v (ht_entries ht) \<and>
        str_refs s (events w') = str_refs s (events w) +
          (if map_of (ht_entries ht) (StrKey str) = None then 1 else 0)"
proof -
  let ?w1 = "emit (Str_Init s) w"
  have "zend_hash_str_update w ht str v =
      res_bind (zend_hash_update ?w1 ht s v) (\<lambda>(ret, w2, ht2). Inr (ret, zend_string_release s w2, ht2))"
    by (simp add: zend_hash_str_update_def with_new_string_def zend_string_init_def zend_hash_update_def
        assms(3) Let_def)
  then show ?thesis
    using zend_hash_update_spec [OF assms(1,2), of ?w1 s] assms(3)
    by (auto simp: outcome_def written_def table_full_def write_events_def zend_string_release_def
        split: sum.splits option.splits)
qed

theorem zend_hash_str_update_refs_witness:
  "\<exists>r w' ht'. zend_hash_str_update w0 ht0 [97] IS_NULL = Inr (r, w', ht') \<and> str_refs key_a (events w') = 1"
  using zend_hash_str_update_refs [OF ht0_facts(1), where v = IS_NULL and str = "[97]" and w = w0 and s = key_a]
    ht0_facts
  by (auto simp: key_a_def w0_def HT_MAX_SIZE_def split: sum.splits)

text \<open>
  C16. \<open>zend_hash_next_index_insert_new\<close> trusts its caller that there is no gap behind the used
  buckets. On a sound packed table that was filled and had its last element removed, it grows the
  table, and the bucket of the removed element becomes a used one without having been written.
\<close>

theorem zend_hash_next_index_insert_new_gap:
  assumes "ht_inv ht" "ht_initialized ht" "ht_packed ht"
    and "unat (nNextFreeElement ht) = nTableSize ht" "nNumUsed ht < nTableSize ht"
    and "nTableSize ht div 2 < nNumOfElements ht" "nTableSize ht < HT_MAX_SIZE"
  shows "\<exists>r w' ht'. zend_hash_next_index_insert_new w ht v = Inr (r, w', ht') \<and>
    nNumUsed ht < nNumUsed ht' \<and> b_val (arData ht' ! nNumUsed ht) = UNINIT"
proof -
  let ?h = "nNextFreeElement ht" and ?f = "HASH_ADD OR HASH_ADD_NEW OR HASH_ADD_NEXT"
  have len: "length (arData ht) = nTableSize ht"
    using assms(1-3) by (simp add: ht_inv_def packed_layout_def)
  define ht1 where "ht1 = copy_used (arData ht) (ht\<lparr>nTableSize := nTableSize ht + nTableSize ht,
      arData := replicate (nTableSize ht + nTableSize ht) fresh_bucket\<rparr>)"
  have grow: "zend_hash_packed_grow ht = Inr ht1"
    using assms(7) by (simp add: zend_hash_packed_grow_def ht1_def Let_def)
  have "unat (drop_bit 1 ?h) = unat ?h div 2"
    unfolding unat_drop_bit_eq by (simp add: drop_bit_eq_div)
  then have half: "unat (drop_bit 1 ?h) < nTableSize ht" using assms(4,5) by simp
  have r: "zend_hash_next_index_insert_new w ht v = index_add_to_packed w ht1 ?h v ?f"
    using assms(2-6) half grow
    by (simp add: zend_hash_next_index_insert_new_def zend_hash_index_add_or_update_i_def Let_def)
  have f: "?f AND (HASH_ADD_NEW OR HASH_ADD_NEXT) = HASH_ADD_NEW OR HASH_ADD_NEXT"
    by (simp add: hash_masks)
  have d1: "length (arData ht1) = nTableSize ht + nTableSize ht" "arData ht1 ! nNumUsed ht = fresh_bucket"
    using len assms(5) by (simp_all add: ht1_def copy_used_def nth_append)
  show ?thesis
    unfolding r index_add_to_packed_def Let_def
    using f d1 assms(4,5) by (simp add: fresh_bucket_def)
qed

text \<open>The packed table with the elements 0 to 6 that had an element 7.\<close>

definition ht_gap :: HashTable where
  "ht_gap = ht0\<lparr>ht_packed := True, ht_initialized := True, nTableMask := HT_MIN_MASK,
     arHash := [HT_INVALID_IDX, HT_INVALID_IDX],
     arData := map (\<lambda>i. \<lparr>b_val = if i < 7 then IS_TRUE else IS_UNDEF, b_next = 0, b_h = of_nat i, b_key = None\<rparr>) [0..<8],
     nNumUsed := 7, nNumOfElements := 7, nTableSize := 8, nInternalPointer := 0, nNextFreeElement := 8\<rparr>"

definition gap_bucket :: "nat \<Rightarrow> Bucket" where
  "gap_bucket i = \<lparr>b_val = if i < 7 then IS_TRUE else IS_UNDEF, b_next = 0, b_h = of_nat i, b_key = None\<rparr>"

lemma ht_gap_inv: "ht_inv ht_gap"
proof -
  have d: "arData ht_gap = map gap_bucket [0..<8]"
    by (simp add: ht_gap_def gap_bucket_def [abs_def])
  have "take 7 [0..<8] = [0..<7]" by (simp add: take_upt)
  moreover have "filter live (map gap_bucket [0..<7]) = map gap_bucket [0..<7]"
    by (rule filter_True) (auto simp: live_def gap_bucket_def)
  ultimately have b: "ht_buckets ht_gap = map gap_bucket [0..<7]"
    by (simp add: ht_buckets_def d take_map) (simp add: ht_gap_def)
  have keys: "map bkey (map gap_bucket [0..<7]) = map (\<lambda>i. IntKey (of_nat i)) [0..<7]"
    by (simp add: gap_bucket_def bkey_simps)
  have "distinct (map (\<lambda>i. IntKey (of_nat i)) [0..<7])" by (simp add: upt_rec)
  then have dist: "distinct (map bkey (ht_buckets ht_gap))" unfolding b keys .
  have sz: "size_ok 8" unfolding size_ok_def by (intro exI [of _ 3]) simp
  have nf: "next_free_ok ht_gap"
  proof -
    have "sint (of_nat i :: zend_ulong) < 8" if "i < 7" for i
    proof -
      have "i = 0 \<or> i = 1 \<or> i = 2 \<or> i = 3 \<or> i = 4 \<or> i = 5 \<or> i = 6" using that by linarith
      then show ?thesis by auto
    qed
    then show ?thesis by (auto simp: next_free_ok_def b gap_bucket_def) (auto simp: ht_gap_def)
  qed
  have ptr: "pointer_ok ht_gap"
    by (simp add: pointer_ok_def d) (simp add: ht_gap_def live_def gap_bucket_def)
  have "contents_ok ht_gap"
    unfolding contents_ok_def using dist sz nf ptr
    by (simp add: b bucket_ok_def gap_bucket_def) (simp add: ht_gap_def)
  moreover have "packed_layout ht_gap"
    by (simp add: packed_layout_def d) (simp add: ht_gap_def gap_bucket_def)
  moreover have "ht_packed ht_gap" "ht_initialized ht_gap" by (simp_all add: ht_gap_def)
  ultimately show ?thesis by (simp add: ht_inv_def)
qed

theorem zend_hash_next_index_insert_new_gap_witness:
  "\<exists>r w' ht'. zend_hash_next_index_insert_new w0 ht_gap IS_TRUE = Inr (r, w', ht') \<and>
     7 < nNumUsed ht' \<and> b_val (arData ht' ! 7) = UNINIT"
  using zend_hash_next_index_insert_new_gap [OF ht_gap_inv, where w = w0 and v = IS_TRUE]
  by (simp add: ht_gap_def HT_MAX_SIZE_def)

end
