(* ===== verification/Zend_Symtable_Props.thy ===== *)
theory Zend_Symtable_Props
  imports Zend_Hash_Ptr Zend_Hash_Props
begin

text \<open>The properties of symbol tables, of tables of pointers and of the unchecked appends.\<close>

subsection \<open>Numeric strings\<close>

lemma print_long_length: "length (zend_print_long_to_buf [] i) \<le> MAX_LENGTH_OF_LONG"
proof -
  have b: "unat j < 10 ^ 20" for j :: zend_ulong using unsigned_less [of j] by (rule less_le_trans) simp
  have "length (decimal (unat (- i))) \<le> 19" if "sint i < 0"
  proof (rule decimal_length)
    have "uint (- i) = 2 ^ 64 - uint i" "\<not> uint i < 2 ^ 63"
      using that uint_word_ariths(4) [of i] uint_bounded [of i]
      by (auto simp: sint_uint_cases zmod_zminus1_eq_if split: if_splits)
    then show "unat (- i) < 10 ^ 19" by (simp add: unat_eq_nat_uint del: nat_uint_eq)
  qed simp
  moreover have "length (decimal (unat i)) \<le> 20" by (rule decimal_length [OF b]) simp
  ultimately show ?thesis by (auto simp: print_long_decimal MAX_LENGTH_OF_LONG_def)
qed

text \<open>
  C17. A string is taken for an integer exactly when it is what \<open>zend_long_to_str\<close> prints for that
  integer: no sign without digits, no leading zeros, no \<open>-0\<close>, nothing beyond 64 bits. The test
  never reads past the string, and the printed text fits its buffer.
\<close>

theorem zend_handle_numeric_str_canonical:
  shows "zend_handle_numeric_str (zs_val (fst (zend_long_to_str i w))) = Inr (Some i) \<and>
    (\<exists>r. zend_handle_numeric_str s = Inr r \<and>
      (\<forall>j. (r = Some j) = (zs_val (fst (zend_long_to_str j w)) = s))) \<and>
    length (zs_val (fst (zend_long_to_str i w))) \<le> MAX_LENGTH_OF_LONG"
proof (intro conjI)
  show "zend_handle_numeric_str (zs_val (fst (zend_long_to_str i w))) = Inr (Some i)"
    using handle_numeric_iff [of "zend_print_long_to_buf [] i"] unfolding long_to_str_text by force
  show "\<exists>r. zend_handle_numeric_str s = Inr r \<and>
      (\<forall>j. (r = Some j) = (zs_val (fst (zend_long_to_str j w)) = s))"
    using handle_numeric_iff [of s] unfolding long_to_str_text by metis
  show "length (zs_val (fst (zend_long_to_str i w))) \<le> MAX_LENGTH_OF_LONG"
    unfolding long_to_str_text by (rule print_long_length)
qed

subsection \<open>Symbol tables\<close>

text \<open>
  C18. A symbol table is a map over strings: an update of one string is what later lookups of the
  same string see and changes no other string, even where numeric strings are stored under
  integers; deletion removes exactly the string; and a string and its \<open>char *\<close> variant agree.
\<close>

theorem zend_symtable_correct:
  assumes "ht_inv ht" and "storable v"
  shows "case zend_symtable_update w ht key v of
      Inl e \<Rightarrow> e = E_ERROR_MEMORY \<and> HT_MAX_SIZE div 2 < length (ht_entries ht)
    | Inr (r, w', ht') \<Rightarrow> ht_inv ht' \<and>
        ht_entries ht' = AList.update (sym_key (zs_val key)) v (ht_entries ht) \<and>
        zref_val w' ht' (zend_symtable_str_find ht' str) =
          (if str = zs_val key then Inr (Some v) else zref_val w ht (zend_symtable_str_find ht str)) \<and>
        (\<exists>w2 ht2. zend_symtable_del w' ht' key = Inr (True, w2, ht2) \<and> ht_inv ht2 \<and>
          zend_symtable_str_exists ht2 str =
            (if str = zs_val key then Inr False else zend_symtable_str_exists ht str))"
proof (cases "zend_symtable_update w ht key v")
  case (Inl e)
  then show ?thesis using symtable_update_spec(1) [OF assms, of w key] by (simp add: table_full_def)
next
  case (Inr res)
  obtain r w' ht' where res: "res = (r, w', ht')" by (cases res)
  have wr: "ht_inv ht'" "ht_entries ht' = AList.update (sym_key (zs_val key)) v (ht_entries ht)"
    using symtable_update_spec(1) [OF assms, of w key] Inr res by (auto simp: written_def)
  then have m: "map_of (ht_entries ht') = (map_of (ht_entries ht))(sym_key (zs_val key) \<mapsto> v)"
    by (simp add: AList.update_conv')
  obtain b w2 ht2 where d: "zend_symtable_del w' ht' key = Inr (b, w2, ht2)"
      "deleted w' ht' (sym_key (zs_val key)) (b, w2, ht2)"
    using symtable_del_spec(1) [OF wr(1), of w' key] by auto
  then have i2: "b" "ht_inv ht2" "ht_entries ht2 = AList.delete (sym_key (zs_val key)) (ht_entries ht')"
    using m by (auto simp: deleted_def)
  note val = symtable_find_spec(2) [OF wr(1)] zref_val_pos [OF wr(1)]
    symtable_find_spec(2) [OF assms(1)] zref_val_pos [OF assms(1)]
  have "zend_symtable_str_exists ht2 str =
      (if str = zs_val key then Inr False else zend_symtable_str_exists ht str)"
    using key_pos_map_of [OF i2(2), of "sym_key str"] key_pos_map_of [OF assms(1), of "sym_key str"] m
    by (simp add: symtable_find_spec(4) [OF i2(2)] symtable_find_spec(4) [OF assms(1)] i2(3)
        AList.delete_conv' sym_key_inject)
  then show ?thesis
    using Inr res wr m d i2 by (auto simp: val sym_key_inject)
qed

definition key_7 :: zend_string where "key_7 = \<lparr>zs_val = [55], zs_interned = False\<rparr>"

lemma sym_key_7: "sym_key [55] = IntKey 7"
  by code_simp

theorem zend_symtable_correct_witness:
  "\<exists>r w' ht'. zend_symtable_update w0 ht_a7 key_7 IS_NULL = Inr (r, w', ht') \<and>
     ht_entries ht' = [(StrKey [97], IS_LONG 1), (IntKey 7, IS_NULL)]"
  using zend_symtable_correct [OF ht_a7(1), where v = IS_NULL and w = w0 and key = key_7 and str = "[]"] ht_a7
  by (auto simp: HT_MAX_SIZE_def key_7_def sym_key_7 split: sum.splits)

text \<open>
  C19. The \<open>IND\<close> variants read through \<open>IS_INDIRECT\<close> elements: an element whose slot is empty is
  absent. Numeric strings are never indirect.
\<close>

theorem zend_symtable_ind_correct:
  assumes "ht_inv ht"
  shows "zref_val w ht (zend_symtable_find_ind w ht key) =
      Inr (case sym_key (zs_val key) of
        IntKey i \<Rightarrow> map_of (ht_entries ht) (IntKey i)
      | StrKey s \<Rightarrow> Option.bind (map_of (ht_entries ht) (StrKey s)) (behind w)) \<and>
    zend_symtable_exists_ind w ht key =
      res_bind (zref_val w ht (zend_symtable_find_ind w ht key)) (\<lambda>v. Inr (v \<noteq> None))"
  using symtable_find_ind_spec [OF assms, of w key] by (simp split: hkey.split)

theorem zend_symtable_ind_correct_witness:
  "zref_val w0 ht_a7 (zend_symtable_find_ind w0 ht_a7 key_7) = Inr (Some IS_TRUE)"
  using zend_symtable_ind_correct [OF ht_a7(1), where w = w0 and key = key_7] ht_a7
  by (simp add: key_7_def sym_key_7)

subsection \<open>Tables of pointers\<close>

text \<open>
  C20. On a table of non-null pointers, writing a non-null pointer returns it, never meets a
  violated assumption, leaves a table of pointers, and changes what the lookups find at its key
  only.
\<close>

theorem zend_hash_update_ptr_correct:
  assumes "ht_inv ht" and "ptr_table ht" and "p \<noteq> 0"
  shows "case zend_hash_update_ptr w ht key p of
      Inl e \<Rightarrow> e = E_ERROR_MEMORY \<and> HT_MAX_SIZE div 2 < length (ht_entries ht)
    | Inr (q, w', ht') \<Rightarrow> q = p \<and> ht_inv ht' \<and> ptr_table ht' \<and>
        zend_hash_str_find_ptr w' ht' str =
          (if str = zs_val key then Inr p else zend_hash_str_find_ptr w ht str) \<and>
        zend_hash_index_find_ptr w' ht' h = zend_hash_index_find_ptr w ht h"
proof (cases "zend_hash_update_ptr w ht key p")
  case (Inl e)
  then show ?thesis using update_ptr_spec(1) [OF assms(1,3), of key w] by (simp add: table_full_def)
next
  case (Inr res)
  obtain q w' ht' where res: "res = (q, w', ht')" by (cases res)
  have pw: "ptr_written ht (StrKey (zs_val key)) p (q, w', ht')"
    using update_ptr_spec(1) [OF assms(1,3), of key w] Inr res by simp
  then have "q = p" "ht_inv ht'" by (auto simp: ptr_written_def)
  with ptr_table_written [OF assms(2) pw assms(3)] Inr res show ?thesis
    by (simp add: find_ptr_spec [OF assms(1,2)] find_ptr_spec [of ht'])
qed

theorem zend_hash_update_ptr_correct_witness:
  "\<exists>w' ht'. zend_hash_update_ptr w0 ht0 key_a 40 = Inr (40, w', ht') \<and>
     zend_hash_str_find_ptr w' ht' [97] = Inr 40"
proof -
  have "ptr_table ht0" using ht0_facts by (simp add: ptr_table_def)
  from zend_hash_update_ptr_correct [OF ht0_facts(1) this, where p = 40 and w = w0 and key = key_a and str = "[97]" and h = 0]
  show ?thesis using ht0_facts by (auto simp: HT_MAX_SIZE_def key_a_def split: sum.splits)
qed

text \<open>
  C21. \<open>_zend_hash_append\<close> and its variants, called on an initialised hash with room and a key that
  is new, add the entry at the end and keep the invariant; the internal pointer stays where it is,
  and the key is referenced once.
\<close>

theorem zend_hash_append_correct:
  assumes "ht_inv ht" and "ht_initialized ht" and "\<not> ht_packed ht" and "nNumUsed ht < nTableSize ht"
    and "map_of (ht_entries ht) (StrKey (zs_val key)) = None" and "storable v"
  shows "\<exists>w' ht'. zend_hash_append w ht key v = Inr (nNumUsed ht, w', ht') \<and> ht_inv ht' \<and>
     ht_entries ht' = ht_entries ht @ [(StrKey (zs_val key), v)] \<and>
     nInternalPointer ht' = nInternalPointer ht \<and>
     events w' = events w @ (if zs_interned key then [] else [Str_Addref key])"
  using append_bucket_spec [OF assms, of w] by (auto simp: zend_hash_append_def)

lemma ht_a_shape: "ht_initialized ht_a" "\<not> ht_packed ht_a" "nNumUsed ht_a < nTableSize ht_a"
proof -
  have k: "key_pos ht_a (StrKey [97]) \<noteq> None" using key_pos_map_of [OF ht_a(1)] ht_a(2) by simp
  then show "ht_initialized ht_a" using uninit_empty(5) [OF ht_a(1), of "StrKey [97]"] by (rule contrapos_np)
  show "\<not> ht_packed ht_a" using k packed_no_string [OF ht_a(1), of "[97]"] by auto
  have "nNumUsed ht_a = 1" by code_simp
  then show "nNumUsed ht_a < nTableSize ht_a"
    using ht_a(1) size_ok_bounds [of "nTableSize ht_a"] by (auto simp: ht_inv_def contents_ok_def)
qed

theorem zend_hash_append_correct_witness:
  "\<exists>w' ht'. zend_hash_append w0 ht_a key_b IS_TRUE = Inr (nNumUsed ht_a, w', ht') \<and>
     ht_entries ht' = [(StrKey [97], IS_LONG 1), (StrKey [98], IS_TRUE)]"
  using zend_hash_append_correct [OF ht_a(1), where key = key_b and v = IS_TRUE and w = w0] ht_a ht_a_shape
  by (auto simp: key_b_def)

end
