(* ===== verification/Zend_Array_Props.thy ===== *)
theory Zend_Array_Props
  imports Zend_Hash_Convert Zend_Hash_Sort Zend_Symtable_Props
begin

text \<open>
  The properties of sorting, comparing, counting, copying, merging and duplicating tables, and of
  the conversions between symbol and property tables.
\<close>

subsection \<open>Sorting\<close>

text \<open>Arrays of plain elements, exchanged as a whole.\<close>

definition swap_both :: "'a swap_func" where
  "swap_both x y = (y, x)"

interpretation plain: sorting "\<lambda>x. x" "\<lambda>_. ()" swap_both cmp "\<lambda>x y. cmp x y > 0" for cmp
  by unfold_locales (simp_all add: swap_both_def)

lemma range_outside:
  assumes "plain.permuted b e xs ys" "b \<le> e" "e \<le> length xs"
  shows "take b ys = take b xs" "drop e ys = drop e xs"
  using plain.permuted_length [OF assms(1)] plain.permuted_outside [OF assms(1)] assms(2,3)
  by (auto intro!: nth_equalityI)

text \<open>
  C22. Whatever the comparison function answers, \<open>zend_sort\<close> ends, reads and writes within the
  \<open>nmemb\<close> elements from \<open>base\<close> only, and permutes them; the elements around them stay as they are.
\<close>

theorem zend_sort_permutes:
  assumes "base + nmemb \<le> length xs"
  shows "\<exists>ys. zend_sort cmp swap_both xs base nmemb = Inr ys \<and> mset ys = mset xs \<and>
     take base ys = take base xs \<and> drop (base + nmemb) ys = drop (base + nmemb) xs"
proof -
  obtain ys where ys: "zend_sort cmp swap_both xs base nmemb = Inr ys"
      "plain.permuted base (base + nmemb) xs ys"
    using plain.zend_sort_spec [OF assms] by blast
  then have "mset ys = mset xs" by (simp add: plain.permuted_def)
  with ys range_outside [OF ys(2) _ assms] show ?thesis by auto
qed

theorem zend_sort_permutes_witness:
  "\<exists>ys. zend_sort (\<lambda>x y. 1) swap_both [5, 4, 3, 2, 1 :: nat] 1 3 = Inr ys \<and> mset ys = {#1, 2, 3, 4, 5#} \<and>
     hd ys = 5"
proof -
  obtain ys where "zend_sort (\<lambda>x y. 1) swap_both [5, 4, 3, 2, 1 :: nat] 1 3 = Inr ys"
      "mset ys = mset [5, 4, 3, 2, 1]" "take 1 ys = [5]"
    using zend_sort_permutes [of 1 3 "[5, 4, 3, 2, 1 :: nat]" "\<lambda>x y. 1"] by auto
  then show ?thesis by (cases ys) (auto simp: add_mset_commute)
qed

text \<open>
  C23. With a comparison function that orders the elements by a key, \<open>zend_sort\<close> leaves the keys in
  the order HOL's \<open>sort\<close> gives.
\<close>

theorem zend_sort_sorts:
  fixes key :: "'a \<Rightarrow> 'k :: linorder"
  assumes "\<And>x y. cmp x y > 0 \<longleftrightarrow> key x > key y"
  shows "\<exists>ys. zend_sort cmp swap_both xs 0 (length xs) = Inr ys \<and> mset ys = mset xs \<and>
     map key ys = sort (map key xs)"
proof -
  have o: "plain.preorder TYPE('a) cmp" unfolding plain.preorder_def by (simp add: assms) (auto simp: not_less)
  obtain ys where ys: "zend_sort cmp swap_both xs 0 (length xs) = Inr ys" "length ys = length xs"
      "mset ys = mset xs" "sorted_wrt (\<lambda>a b. \<not> cmp a b > 0) ys"
    using plain.zend_sort_range [of "length xs" xs cmp] o by auto
  then have "sorted (map key ys)" by (simp add: sorted_wrt_map sorted_map assms not_less)
  then have "map key ys = sort (map key xs)"
    using ys(3) by (intro properties_for_sort [symmetric]) simp_all
  with ys show ?thesis by blast
qed

theorem zend_sort_sorts_witness:
  "zend_sort (\<lambda>x y. x - y) swap_both (rev [1..20 :: int]) 0 20 = Inr [1..20]"
proof -
  have "length (rev [1..20 :: int]) = 20" "sort (map (\<lambda>x. x) (rev [1..20 :: int])) = [1..20]"
    by code_simp+
  then show ?thesis
    using zend_sort_sorts [of "\<lambda>x y. x - y" "\<lambda>x. x" "rev [1..20 :: int]"] by auto
qed

text \<open>
  C24. Sorting a table without renumbering permutes its elements, each with its key, and keeps the
  invariant, whatever the layout and the comparison function; with a comparison that is a total
  preorder the elements are in order. No value is destroyed and no key released.
\<close>

theorem zend_hash_sort_correct:
  assumes "ht_inv ht"
  shows "\<exists>w' ht'. zend_hash_sort w ht compar False = Inr (w', ht') \<and> ht_inv ht' \<and>
     slots w' = slots w \<and> events w' = events w \<and> mset (ht_cores ht') = mset (ht_cores ht) \<and>
     (total_preorder compar \<longrightarrow> sorted_wrt (\<lambda>a b. \<not> compar a b > 0) (ht_cores ht'))"
  by (rule zend_hash_sort_spec [OF assms])

text \<open>A comparison by value: the number of a \<open>IS_LONG\<close>, others before them.\<close>

definition long_of :: "zval \<Rightarrow> int" where
  "long_of v = (case v of IS_LONG n \<Rightarrow> sint n | _ \<Rightarrow> 0)"

definition by_long_desc :: "core \<Rightarrow> core \<Rightarrow> int" where
  "by_long_desc a b = long_of (fst b) - long_of (fst a)"

lemma by_long_desc_preorder: "total_preorder by_long_desc"
  unfolding total_preorder_def by_long_desc_def by linarith

lemma ht_p03_cores: "ht_cores ht_p03 = [(IS_LONG 5, 0, None), (IS_LONG 6, 3, None)]"
  by code_simp

theorem zend_hash_sort_correct_witness:
  "\<exists>w' ht'. zend_hash_sort w0 ht_p03 by_long_desc False = Inr (w', ht') \<and>
     ht_cores ht' = [(IS_LONG 6, 3, None), (IS_LONG 5, 0, None)]"
proof -
  obtain w' ht' where s: "zend_hash_sort w0 ht_p03 by_long_desc False = Inr (w', ht')"
      "mset (ht_cores ht') = mset (ht_cores ht_p03)" "sorted_wrt (\<lambda>a b. \<not> by_long_desc a b > 0) (ht_cores ht')"
    using zend_hash_sort_correct [OF ht_p03(1), of w0 by_long_desc] by_long_desc_preorder by auto
  obtain x y where xy: "ht_cores ht' = [x, y]" using arg_cong [OF s(2), of size]
    by (auto simp: ht_p03_cores length_Suc_conv)
  have "\<not> by_long_desc (IS_LONG 6, 3, None) (IS_LONG 5, 0, None) > 0" "by_long_desc (IS_LONG 5, 0, None) (IS_LONG 6, 3, None) > 0"
    by code_simp+
  then show ?thesis using s xy by (auto simp: ht_p03_cores add_eq_conv_ex)
qed

text \<open>
  C25. Sorting with renumbering and a comparison of the values gives a table of the same values
  under the keys \<open>0, 1, \<dots>\<close>, in order; each counted key of the table is released once.
\<close>

theorem zend_hash_sort_renumber_correct:
  fixes c :: "zval \<Rightarrow> zval \<Rightarrow> int"
  assumes "ht_inv ht"
  shows "\<exists>w' ht' vs. zend_hash_sort w ht (\<lambda>a b. c (fst a) (fst b)) True = Inr (w', ht') \<and> ht_inv ht' \<and>
     slots w' = slots w \<and> events w' = events w @ concat (map key_release_events (ht_buckets ht)) \<and>
     mset vs = mset (map snd (ht_entries ht)) \<and>
     ht_cores ht' = map (\<lambda>k. (vs ! k, of_nat k, None)) [0..<length vs] \<and>
     (vs \<noteq> [] \<longrightarrow> nNextFreeElement ht' = of_nat (length vs)) \<and>
     (total_preorder c \<longrightarrow> sorted_wrt (\<lambda>a b. \<not> c a b > 0) vs)"
  by (rule zend_hash_sort_renumber_spec [OF assms])

theorem zend_hash_sort_renumber_correct_witness:
  "\<exists>w' ht'. zend_hash_sort w0 ht_a (\<lambda>a b. long_of (fst a) - long_of (fst b)) True = Inr (w', ht') \<and>
     ht_cores ht' = [(IS_LONG 1, 0, None)] \<and> nNextFreeElement ht' = 1"
  using zend_hash_sort_renumber_correct [OF ht_a(1), of w0 "\<lambda>a b. long_of a - long_of b"] ht_a by auto

subsection \<open>Comparing\<close>

text \<open>
  What a comparison is to answer, over the entries: the value behind a slot counts, an empty slot is
  below every value; integer keys come in numeric order and before the strings, and strings by
  length and then by their bytes. The first pair that differs decides.
\<close>

definition behind :: "world \<Rightarrow> zval \<Rightarrow> zval option" where
  "behind w v = (let v' = (case v of IS_INDIRECT a \<Rightarrow> slots w a | _ \<Rightarrow> v) in if v' = IS_UNDEF then None else Some v')"

definition value_order :: "world \<Rightarrow> (zval \<Rightarrow> zval \<Rightarrow> int) \<Rightarrow> zval \<Rightarrow> zval \<Rightarrow> int" where
  "value_order w compar v v' = (case (behind w v, behind w v') of
     (None, None) \<Rightarrow> 0 | (None, Some _) \<Rightarrow> -1 | (Some _, None) \<Rightarrow> 1 | (Some x, Some y) \<Rightarrow> compar x y)"

fun key_order :: "hkey \<Rightarrow> hkey \<Rightarrow> int" where
  "key_order (IntKey h) (IntKey h') = (if h < h' then -1 else if h = h' then 0 else 1)"
| "key_order (IntKey h) (StrKey s) = -1"
| "key_order (StrKey s) (IntKey h) = 1"
| "key_order (StrKey s) (StrKey s') =
     (if length s < length s' then -1 else if length s = length s' then memcmp s s' else 1)"

fun first_nonzero :: "int list \<Rightarrow> int" where
  "first_nonzero [] = 0"
| "first_nonzero (r # rs) = (if r \<noteq> 0 then r else first_nonzero rs)"

lemma first_nonzero_append: "first_nonzero (xs @ ys) = (if first_nonzero xs \<noteq> 0 then first_nonzero xs else first_nonzero ys)"
  by (induction xs) auto

lemma first_nonzero_eq_0: "first_nonzero rs = 0 \<longleftrightarrow> (\<forall>r \<in> set rs. r = 0)"
  by (induction rs) auto

lemma compare_data_order: "compare_data w compar v v' = value_order w compar v v'"
  by (auto simp: compare_data_def value_order_def behind_def ind_data_def Let_def split: zval.split)

lemma compare_keys_order: "compare_keys p q = key_order (bkey p) (bkey q)"
  by (auto simp: compare_keys_def bkey_simps split: option.splits)

definition entries_order :: "world \<Rightarrow> (zval \<Rightarrow> zval \<Rightarrow> int) \<Rightarrow> bool \<Rightarrow> (hkey \<times> zval) list \<Rightarrow> (hkey \<times> zval) list \<Rightarrow> int" where
  "entries_order w compar ordered es es' =
     (if length es > length es' then 1 else if length es < length es' then -1
      else if ordered
      then first_nonzero (concat (map (\<lambda>((k, v), (k', v')). [key_order k k', value_order w compar v v']) (zip es es')))
      else first_nonzero (map (\<lambda>(k, v). case map_of es' k of None \<Rightarrow> 1 | Some v' \<Rightarrow> value_order w compar v v') es))"

lemma compare_buckets_order: "compare_buckets w compar ps qs =
    first_nonzero (concat (map (\<lambda>((k, v), (k', v')). [key_order k k', value_order w compar v v'])
      (zip (map (\<lambda>b. (bkey b, b_val b)) ps) (map (\<lambda>b. (bkey b, b_val b)) qs))))"
  by (induction w compar ps qs rule: compare_buckets.induct)
    (simp_all add: compare_keys_order compare_data_order)

lemma compare_with_map_order: "compare_with_map w compar ps m =
    first_nonzero (map (\<lambda>(k, v). case m k of None \<Rightarrow> 1 | Some v' \<Rightarrow> value_order w compar v v') (map (\<lambda>b. (bkey b, b_val b)) ps))"
  by (induction w compar ps m rule: compare_with_map.induct)
    (simp_all add: compare_data_order split: option.split)

lemma zend_hash_compare_impl_order:
  assumes "ht_inv ht1" "ht_inv ht2"
  shows "zend_hash_compare_impl w ht1 ht2 compar ordered = Inr (entries_order w compar ordered (ht_entries ht1) (ht_entries ht2))"
  by (auto simp: zend_hash_compare_impl_spec [OF assms] entries_order_def compare_buckets_order compare_with_map_order
      ht_entries_alt)

definition equal_values :: "world \<Rightarrow> (zval \<Rightarrow> zval \<Rightarrow> int) \<Rightarrow> zval \<Rightarrow> zval \<Rightarrow> bool" where
  "equal_values w compar v v' \<longleftrightarrow> behind w v = None \<and> behind w v' = None \<or>
     (\<exists>x y. behind w v = Some x \<and> behind w v' = Some y \<and> compar x y = 0)"

lemma compare_data_equal: "compare_data w compar v v' = 0 \<longleftrightarrow> equal_values w compar v v'"
  by (auto simp: compare_data_order value_order_def equal_values_def split: option.splits)


definition same_zval :: "zval \<Rightarrow> zval \<Rightarrow> int" where
  "same_zval v v' = (if v = v' then 0 else 1)"

text \<open>Two tables with the same keys, one of which has an empty slot under \<open>"a"\<close>.\<close>

definition ht_ind :: HashTable where
  "ht_ind = (table_of (zend_hash_update w0 ht_p0 key_a (IS_INDIRECT 5)))\<lparr>ht_has_empty_ind := True\<rparr>"

lemma ht_ind:
  "ht_inv ht_ind" "ht_entries ht_ind = [(IntKey 0, IS_LONG 5), (StrKey [97], IS_INDIRECT 5)]"
proof -
  define t where "t = table_of (zend_hash_update w0 ht_p0 key_a (IS_INDIRECT 5))"
  have t: "ht_inv t" "ht_entries t = [(IntKey 0, IS_LONG 5), (StrKey [97], IS_INDIRECT 5)]"
    using small_update [OF ht_p0(1), where v = "IS_INDIRECT 5" and w = w0 and key = key_a] ht_p0
    by (auto simp: t_def key_a_def)
  have b: "ht_buckets (t\<lparr>ht_has_empty_ind := True\<rparr>) = ht_buckets t" by (simp add: ht_buckets_def)
  have "linked (t\<lparr>ht_has_empty_ind := True\<rparr>) m = linked t m" for m by (rule linked_cong) simp_all
  with b t show "ht_inv ht_ind" "ht_entries ht_ind = [(IntKey 0, IS_LONG 5), (StrKey [97], IS_INDIRECT 5)]"
    by (simp_all add: ht_ind_def t_def [symmetric] ht_inv_def contents_ok_def uninit_layout_def packed_layout_def
        hash_layout_def hash_area_def pointer_ok_def next_free_ok_def ht_entries_def ht_cores_def split: if_splits)
qed

definition ht_0a :: HashTable where
  "ht_0a = table_of (zend_hash_update w0 ht_p0 key_a (IS_LONG 1))"

lemma ht_0a: "ht_inv ht_0a" "ht_entries ht_0a = [(IntKey 0, IS_LONG 5), (StrKey [97], IS_LONG 1)]"
  using small_update [OF ht_p0(1), where v = "IS_LONG 1" and w = w0 and key = key_a] ht_p0
  by (auto simp: ht_0a_def key_a_def)


text \<open>
  C27. \<open>zend_hash_minmax\<close> returns an element of the table that no other element is below (without
  the flag) or above (with it), if the comparison is a total preorder; \<open>NULL\<close> exactly for an empty
  table.
\<close>

theorem zend_hash_minmax_correct:
  assumes "ht_inv ht" and "total_preorder (\<lambda>a b. if flag \<noteq> 0 then - compar a b else compar a b)"
  shows "case zend_hash_minmax ht compar flag of
      None \<Rightarrow> ht_cores ht = []
    | Some (BUCKET k) \<Rightarrow> bucket_core (arData ht ! k) \<in> set (ht_cores ht) \<and>
        (\<forall>c \<in> set (ht_cores ht). if flag \<noteq> 0 then \<not> compar (bucket_core (arData ht ! k)) c < 0
                              else \<not> compar (bucket_core (arData ht ! k)) c > 0)
    | Some _ \<Rightarrow> False"
  by (rule zend_hash_minmax_spec [OF assms])

theorem zend_hash_minmax_correct_witness:
  "\<exists>k. zend_hash_minmax ht_p03 by_long_desc 0 = Some (BUCKET k) \<and>
     bucket_core (arData ht_p03 ! k) = (IS_LONG 6, 3, None)"
proof -
  have "\<not> \<not> by_long_desc (IS_LONG 5, 0, None) (IS_LONG 6, 3, None) > 0" by code_simp
  then show ?thesis
    using zend_hash_minmax_correct [OF ht_p03(1), of 0 by_long_desc] by_long_desc_preorder
    by (auto simp: ht_p03_cores split: option.splits zref.splits)
qed

subsection \<open>Counting\<close>

text \<open>
  C28. \<open>zend_array_count\<close> is the number of elements present, where an \<open>INDIRECT\<close> element of an empty
  slot is not, provided that the flag is set whenever there may be such an element outside the
  global symbol table; the flag is cleared only if there is none.
\<close>

theorem zend_array_count_correct:
  assumes "ht_inv ht"
    and "\<not> ht_has_empty_ind ht \<Longrightarrow> \<not> is_symbol_table \<Longrightarrow> \<forall>v \<in> snd ` set (ht_entries ht). present w v"
  shows "let (n, ht') = zend_array_count w is_symbol_table ht in
     n = length (filter (present w) (map snd (ht_entries ht))) \<and> ht_entries ht' = ht_entries ht \<and>
     (ht_has_empty_ind ht \<longrightarrow> \<not> ht_has_empty_ind ht' \<longrightarrow> (\<forall>v \<in> snd ` set (ht_entries ht). present w v))"
proof -
  have n: "nNumOfElements ht = length (map snd (ht_entries ht))"
    using assms(1) by (simp add: ht_inv_def contents_ok_def ht_entries_alt)
  have all: "length (filter P xs) = length xs \<longleftrightarrow> (\<forall>x \<in> set xs. P x)" for P and xs :: "zval list"
    by (metis filter_True length_filter_less less_irrefl)
  have e: "ht_entries (ht\<lparr>ht_has_empty_ind := False\<rparr>) = ht_entries ht"
    by (simp add: ht_entries_def ht_cores_def ht_buckets_def)
  note r = zend_array_recalc_elements_spec [OF assms(1), of w]
  show ?thesis
    using assms(2) all [of "present w" "map snd (ht_entries ht)"]
    by (auto simp: zend_array_count_def Let_def r e n)
qed

theorem zend_array_count_correct_witness:
  "fst (zend_array_count w0 False ht_ind) = 1"
proof -
  have f: "ht_has_empty_ind ht_ind" by (simp add: ht_ind_def)
  have "length (filter (present w0) (map snd (ht_entries ht_ind))) = 1"
    by (simp add: ht_ind present_def ind_data_def w0_def)
  then show ?thesis
    using zend_array_count_correct [OF ht_ind(1), where is_symbol_table = False and w = w0] f by (simp add: split_beta Let_def)
qed

end
