(* ===== verification/Zend_Copy_Props.thy ===== *)
theory Zend_Copy_Props
  imports Zend_Array_Props
begin

text \<open>
  The properties of copying, merging and duplicating tables, and of the conversions between symbol
  and property tables.
\<close>

subsection \<open>The sample tables, evaluated\<close>

definition unwritten :: Bucket where
  "unwritten = \<lparr>b_val = UNINIT, b_next = 0xAAAAAAAA, b_h = 0, b_key = None\<rparr>"

lemma ht_a7_eq:
  "ht_a7 = \<lparr>ht_addr = 1, ht_refcount = 1, ht_immutable = False, ht_persistent = False,
     ht_apply_protection = True, ht_packed = False, ht_initialized = True, ht_static_keys = False,
     ht_has_empty_ind = False, nApplyCount = 0, nIteratorsCount = 0, nTableMask = 0xFFFFFFF8,
     arHash = [0xFFFFFFFF, 0xFFFFFFFF, 0xFFFFFFFF, 0xFFFFFFFF, 0xFFFFFFFF, 0xFFFFFFFF, 0, 1],
     arData = [\<lparr>b_val = IS_LONG 1, b_next = 0xFFFFFFFF, b_h = 9223372036854953478, b_key = Some key_a\<rparr>,
       \<lparr>b_val = IS_TRUE, b_next = 0xFFFFFFFF, b_h = 7, b_key = None\<rparr>] @ replicate 6 unwritten,
     nNumUsed = 2, nNumOfElements = 2, nTableSize = 8, nInternalPointer = 0,
     nNextFreeElement = 8, pDestructor = Some ZVAL_PTR_DTOR\<rparr>"
  by code_simp

lemma ht_ind_eq:
  "ht_ind = \<lparr>ht_addr = 1, ht_refcount = 1, ht_immutable = False, ht_persistent = False,
     ht_apply_protection = True, ht_packed = False, ht_initialized = True, ht_static_keys = False,
     ht_has_empty_ind = True, nApplyCount = 0, nIteratorsCount = 0, nTableMask = 0xFFFFFFF8,
     arHash = [0, 0xFFFFFFFF, 0xFFFFFFFF, 0xFFFFFFFF, 0xFFFFFFFF, 0xFFFFFFFF, 1, 0xFFFFFFFF],
     arData = [\<lparr>b_val = IS_LONG 5, b_next = 0xFFFFFFFF, b_h = 0, b_key = None\<rparr>,
       \<lparr>b_val = IS_INDIRECT 5, b_next = 0xFFFFFFFF, b_h = 9223372036854953478, b_key = Some key_a\<rparr>] @ replicate 6 unwritten,
     nNumUsed = 2, nNumOfElements = 2, nTableSize = 8, nInternalPointer = 0,
     nNextFreeElement = 1, pDestructor = Some ZVAL_PTR_DTOR\<rparr>"
  by code_simp

lemma ht_p03_eq:
  "ht_p03 = \<lparr>ht_addr = 1, ht_refcount = 1, ht_immutable = False, ht_persistent = False,
     ht_apply_protection = True, ht_packed = True, ht_initialized = True, ht_static_keys = True,
     ht_has_empty_ind = False, nApplyCount = 0, nIteratorsCount = 0, nTableMask = 0xFFFFFFFE,
     arHash = [0xFFFFFFFF, 0xFFFFFFFF],
     arData = [\<lparr>b_val = IS_LONG 5, b_next = 0xAAAAAAAA, b_h = 0, b_key = None\<rparr>,
       \<lparr>b_val = IS_UNDEF, b_next = 0xAAAAAAAA, b_h = 0, b_key = None\<rparr>, \<lparr>b_val = IS_UNDEF, b_next = 0xAAAAAAAA, b_h = 0, b_key = None\<rparr>,
       \<lparr>b_val = IS_LONG 6, b_next = 0xAAAAAAAA, b_h = 3, b_key = None\<rparr>] @ replicate 4 unwritten,
     nNumUsed = 4, nNumOfElements = 2, nTableSize = 8, nInternalPointer = 0,
     nNextFreeElement = 4, pDestructor = Some ZVAL_PTR_DTOR\<rparr>"
  by code_simp

subsection \<open>Copying and merging\<close>

text \<open>
  C29. \<open>zend_hash_copy\<close> writes every element of the source, an \<open>INDIRECT\<close> one by the value behind
  it unless that is empty, as the constructor leaves it, into the target in order, over elements
  with the same key; the target keeps its invariant and has an internal pointer afterwards if it
  has elements. The only error is a target beyond half of the maximal size.
\<close>

theorem zend_hash_copy_correct:
  assumes "ht_inv target" and "ht_inv source" and "copyable w source" and "ctor_ok f"
  shows "case zend_hash_copy w target source f of
      Inl e \<Rightarrow> e = E_ERROR_MEMORY \<and> HT_MAX_SIZE div 2 < length (ht_entries target) + nNumUsed source
    | Inr (w', target') \<Rightarrow> ht_inv target' \<and> slots w' = slots w \<and> ht_ident target' = ht_ident target \<and>
        ht_entries target' = put_entries (map (copy_entry w f) (ht_buckets source)) (ht_entries target) \<and>
        (ht_entries target' \<noteq> [] \<longrightarrow> nInternalPointer target' \<noteq> HT_INVALID_IDX)"
  by (rule zend_hash_copy_spec [OF assms])

lemma small_used: "nNumUsed ht_a7 = 2" "nNumUsed ht_p03 = 4" "nNumUsed ht_ind = 2"
  by (simp_all add: ht_a7_eq ht_p03_eq ht_ind_eq)

theorem zend_hash_copy_correct_witness:
  "\<exists>w' t. zend_hash_copy w0 ht_a7 ht_p03 None = Inr (w', t) \<and>
     ht_entries t = [(StrKey [97], IS_LONG 1), (IntKey 7, IS_TRUE), (IntKey 0, IS_LONG 5), (IntKey 3, IS_LONG 6)]"
proof -
  have "copyable w0 ht_p03" "map (copy_entry w0 None) (ht_buckets ht_p03) =
      [Some (IntKey 0, IS_LONG 5), Some (IntKey 3, IS_LONG 6)]"
    unfolding ht_p03_eq by code_simp+
  then show ?thesis
    using zend_hash_copy_correct [OF ht_a7(1) ht_p03(1), of w0 None]
    by (auto simp: ctor_ok_def ctor_val_def ht_a7 small_used HT_MAX_SIZE_def put_entries_def put_entry_def
        split: sum.splits)
qed

text \<open>Merging tables without \<open>INDIRECT\<close> elements, as maps.\<close>

definition no_indirect :: "(hkey \<times> zval) list \<Rightarrow> bool" where
  "no_indirect es \<longleftrightarrow> (\<forall>v \<in> snd ` set es. \<forall>a. v \<noteq> IS_INDIRECT a)"

lemma no_indirectD: "no_indirect al \<Longrightarrow> map_of al k \<noteq> Some (IS_INDIRECT a)"
  unfolding no_indirect_def by (metis imageI map_of_SomeD snd_conv)

lemma merge_entry_plain:
  assumes "no_indirect al" "\<And>a. v \<noteq> IS_INDIRECT a"
  shows "merge_entry f overwrite (k, v) (al, sl) =
    (if \<not> overwrite \<and> map_of al k \<noteq> None then al else AList.update k (ctor_val f v) al, sl)"
  using assms(2) no_indirectD [OF assms(1), of k]
  by (cases v; cases k; cases "map_of al k"; auto simp: merge_entry_def update_absent split: zval.split)

lemma no_indirect_put:
  assumes "no_indirect al" "\<And>a. v \<noteq> IS_INDIRECT a"
  shows "no_indirect (AList.update k v al)"
  using assms by (induction al) (auto simp: no_indirect_def)

lemma update_keys: "map fst (AList.update k v al) = map fst al @ (if k \<in> fst ` set al then [] else [k])"
  by (induction al) auto

lemma merge_fold_plain:
  assumes "distinct (map fst es)" "no_indirect es" "no_indirect al"
    and f: "\<And>v a. ctor_val f v \<noteq> IS_INDIRECT a \<or> v = IS_INDIRECT a"
  shows "\<exists>al'. fold (merge_entry f overwrite) es (al, sl) = (al', sl) \<and>
     map_of al' = (let new = map_option (ctor_val f) \<circ> map_of es in if overwrite then map_of al ++ new else new ++ map_of al) \<and>
     map fst al' = map fst al @ filter (\<lambda>k. k \<notin> fst ` set al) (map fst es)"
  using assms(1-3)
proof (induction es arbitrary: al)
  case Nil
  then show ?case by (simp add: Let_def fun_eq_iff map_add_def)
next
  case (Cons e es)
  obtain k v where e: "e = (k, v)" by (cases e)
  have v: "v \<noteq> IS_INDIRECT a" for a using Cons.prems(2) e by (simp add: no_indirect_def)
  have k: "map_of es k = None" "k \<notin> fst ` set es" using Cons.prems(1) e by (simp_all add: map_of_eq_None_iff)
  have d: "distinct (map fst es)" "no_indirect es" using Cons.prems(1,2) by (simp_all add: no_indirect_def)
  define al1 where "al1 = (if \<not> overwrite \<and> map_of al k \<noteq> None then al else AList.update k (ctor_val f v) al)"
  have s: "merge_entry f overwrite e (al, sl) = (al1, sl)"
    using merge_entry_plain [OF Cons.prems(3) v] by (simp add: e al1_def)
  have "ctor_val f v \<noteq> IS_INDIRECT a" for a using f [of v a] v [of a] by blast
  from no_indirect_put [OF Cons.prems(3) this] have n: "no_indirect al1" using Cons.prems(3) by (simp add: al1_def)
  have m: "map_of al1 = (if \<not> overwrite \<and> map_of al k \<noteq> None then map_of al else (map_of al)(k \<mapsto> ctor_val f v))"
    by (simp add: al1_def AList.update_conv')
  have ks: "map fst al1 = map fst al @ (if k \<in> fst ` set al then [] else [k])"
    using update_keys [of k "ctor_val f v" al] by (auto simp: al1_def map_of_eq_None_iff)
  from arg_cong [OF this, of set] have set1: "fst ` set al1 = insert k (fst ` set al)" by (auto split: if_splits)
  have fl: "filter (\<lambda>j. j \<notin> fst ` set al1) (map fst es) = filter (\<lambda>j. j \<notin> fst ` set al) (map fst es)"
    by (rule filter_cong) (use k(2) set1 in auto)
  from Cons.IH [OF d n] obtain al' where al': "fold (merge_entry f overwrite) es (al1, sl) = (al', sl)"
    "map_of al' = (let new = map_option (ctor_val f) \<circ> map_of es in if overwrite then map_of al1 ++ new else new ++ map_of al1)"
    "map fst al' = map fst al1 @ filter (\<lambda>k. k \<notin> fst ` set al1) (map fst es)" by blast
  have "map_of al' = (let new = map_option (ctor_val f) \<circ> map_of (e # es) in if overwrite then map_of al ++ new else new ++ map_of al)"
    using k(1) unfolding al'(2) m by (auto simp: Let_def e fun_eq_iff map_add_def split: option.splits)
  moreover have "map fst al' = map fst al @ filter (\<lambda>k. k \<notin> fst ` set al) (map fst (e # es))"
    unfolding al'(3) fl ks by (simp add: e)
  moreover have "fold (merge_entry f overwrite) (e # es) (al, sl) = (al', sl)" using s al'(1) by simp
  ultimately show ?case by (intro exI conjI)
qed

text \<open>
  C30. \<open>zend_hash_merge\<close> goes through the elements of the source in order, on the entries of the
  target and the slots of compiled variables (\<open>merge_entry\<close>): an \<open>INDIRECT\<close> element with an empty slot
  is left out, a new key is appended; under a string key with an \<open>INDIRECT\<close> element the slot behind it
  is written if the merge overwrites or the slot is empty; under another key that is present the
  merge replaces if it overwrites. New values are what the constructor leaves. The target keeps its
  invariant, and its internal pointer is on its first element. Where no table has an \<open>INDIRECT\<close>
  element this is the union of the two as maps, in which the source wins if it overwrites and the
  target otherwise, with the keys of the target first, in order, and then the new ones in the
  order of the source.
\<close>

theorem zend_hash_merge_correct:
  assumes "ht_inv target" and "ht_inv source" and "ctor_ok f"
  shows "case zend_hash_merge w target source f overwrite of
      Inl e \<Rightarrow> e = E_ERROR_MEMORY \<and> HT_MAX_SIZE div 2 < length (ht_entries target) + nNumUsed source
    | Inr (w', target') \<Rightarrow> ht_inv target' \<and> ht_ident target' = ht_ident target \<and> at_first target' \<and>
        (ht_entries target', slots w') = fold (merge_entry f overwrite) (ht_entries source) (ht_entries target, slots w) \<and>
        (no_indirect (ht_entries target) \<and> no_indirect (ht_entries source) \<and>
           (\<forall>v a. ctor_val f v \<noteq> IS_INDIRECT a \<or> v = IS_INDIRECT a) \<longrightarrow>
         slots w' = slots w \<and>
         map_of (ht_entries target') =
          (let new = map_option (ctor_val f) \<circ> map_of (ht_entries source) in
           if overwrite then map_of (ht_entries target) ++ new else new ++ map_of (ht_entries target)) \<and>
         map fst (ht_entries target') = map fst (ht_entries target) @
           filter (\<lambda>k. k \<notin> fst ` set (ht_entries target)) (map fst (ht_entries source)))"
proof (cases "zend_hash_merge w target source f overwrite")
  case (Inl e)
  then show ?thesis using zend_hash_merge_spec [OF assms, where w = w and overwrite = overwrite] by simp
next
  case (Inr s)
  obtain w' t where s: "s = (w', t)" by (cases s)
  note m = zend_hash_merge_spec [OF assms, where w = w and overwrite = overwrite, unfolded Inr s sum.case prod.case]
  have d: "distinct (map fst (ht_entries source))"
    using assms(2) by (simp add: ht_inv_def contents_ok_def ht_entries_alt comp_def)
  show ?thesis
    unfolding Inr s sum.case prod.case
  proof (intro conjI impI)
    show "ht_inv t" "ht_ident t = ht_ident target" "at_first t"
      "(ht_entries t, slots w') = fold (merge_entry f overwrite) (ht_entries source) (ht_entries target, slots w)"
      using m by blast+
  qed (use m merge_fold_plain [OF d, where al = "ht_entries target" and f = f and overwrite = overwrite and sl = "slots w"] in auto)
qed

text \<open>In the first merge the value of \<open>"a"\<close> goes to the empty slot of the \<open>INDIRECT\<close> element.\<close>

definition ctor_null :: copy_ctor_func where
  "ctor_null v = (IS_NULL, [])"

theorem zend_hash_merge_correct_witness:
  "(\<exists>w' t. zend_hash_merge w0 ht_ind ht_a7 None False = Inr (w', t) \<and> slots w' 5 = IS_LONG 1 \<and>
     ht_entries t = [(IntKey 0, IS_LONG 5), (StrKey [97], IS_INDIRECT 5), (IntKey 7, IS_TRUE)]) \<and>
   (\<exists>w' t. zend_hash_merge w0 ht_p0 ht_p03 (Some ctor_null) False = Inr (w', t) \<and>
     map_of (ht_entries t) (IntKey 0) = Some (IS_LONG 5) \<and> map_of (ht_entries t) (IntKey 3) = Some IS_NULL)"
proof (rule conjI)
  have "slots w0 5 = IS_UNDEF" by code_simp
  then show "\<exists>w' t. zend_hash_merge w0 ht_ind ht_a7 None False = Inr (w', t) \<and> slots w' 5 = IS_LONG 1 \<and>
     ht_entries t = [(IntKey 0, IS_LONG 5), (StrKey [97], IS_INDIRECT 5), (IntKey 7, IS_TRUE)]"
    using zend_hash_merge_correct [OF ht_ind(1) ht_a7(1), where f = None and w = w0 and overwrite = False]
    by (auto simp: ctor_ok_def ctor_val_def merge_entry_def no_indirect_def ht_ind ht_a7 small_used HT_MAX_SIZE_def split: sum.splits)
  show "\<exists>w' t. zend_hash_merge w0 ht_p0 ht_p03 (Some ctor_null) False = Inr (w', t) \<and>
     map_of (ht_entries t) (IntKey 0) = Some (IS_LONG 5) \<and> map_of (ht_entries t) (IntKey 3) = Some IS_NULL"
    using zend_hash_merge_correct [OF ht_p0(1) ht_p03(1), where f = "Some ctor_null" and w = w0 and overwrite = False]
    by (auto simp: ctor_ok_def ctor_val_def ctor_null_def no_indirect_def ht_p0 ht_p03 small_used HT_MAX_SIZE_def
        map_add_def split: sum.splits)
qed

subsection \<open>Duplicating\<close>

text \<open>
  What the elements of a duplicate are to be: the value behind a slot, if there is one, with a
  reference nobody else holds replaced by its value; and the references they take.
\<close>

definition dup_shown :: "world \<Rightarrow> bool \<Rightarrow> zval \<Rightarrow> zval option" where
  "dup_shown w packed v = (if packed then if v = IS_UNDEF then None else Some v else behind w v)"

definition dup_elements :: "world \<Rightarrow> refs \<Rightarrow> HashTable \<Rightarrow> core list" where
  "dup_elements w rs source =
     concat (map (\<lambda>(v, h, key). case dup_shown w (ht_packed source) v of
         None \<Rightarrow> [] | Some x \<Rightarrow> [(dup_val rs (ht_addr source) x, h, key)]) (ht_cores source))"

definition reference_events :: "core \<Rightarrow> event list" where
  "reference_events = (\<lambda>(v, h, key). (if zval_refcounted v then [Addref v] else []) @
     (case key of Some s \<Rightarrow> if zs_interned s then [] else [Str_Addref s] | None \<Rightarrow> []))"

definition dup_storable :: "world \<Rightarrow> refs \<Rightarrow> HashTable \<Rightarrow> bool" where
  "dup_storable w rs source \<longleftrightarrow> (\<forall>v \<in> fst ` set (dup_elements w rs source). storable v)"

lemma dup_core_shown:
  "dup_core w rs source p = map_option (\<lambda>x. (dup_val rs (ht_addr source) x, b_h p, b_key p))
     (dup_shown w (ht_packed source) (b_val p))"
  by (auto simp: dup_core_def dup_source_val_def dup_shown_def behind_def ind_data_def Let_def split: zval.split)

lemma dup_cores_elements: "dup_cores w rs source (ht_buckets source) = dup_elements w rs source"
proof -
  have "dup_cores w rs source bs = concat (map (\<lambda>(v, h, key). case dup_shown w (ht_packed source) v of
         None \<Rightarrow> [] | Some x \<Rightarrow> [(dup_val rs (ht_addr source) x, h, key)]) (map bucket_core bs))" for bs
    by (induction bs)
      (simp_all add: map_filter_Cons map_filter_Nil dup_core_shown bucket_core_def split: option.split)
  then show ?thesis by (simp add: dup_elements_def ht_cores_def)
qed

lemma dup_ok_storable: "dup_storable w rs source \<Longrightarrow> dup_ok w rs source"
proof -
  assume s: "dup_storable w rs source"
  have "storable (dup_val rs (ht_addr source) (dup_source_val w source p))"
    if p: "p \<in> set (ht_buckets source)" "dup_source_val w source p \<noteq> IS_UNDEF" for p
  proof -
    have "b_val p \<noteq> IS_UNDEF" using p(1) by (auto simp: ht_buckets_def live_def)
    then have "dup_core w rs source p = Some (dup_val rs (ht_addr source) (dup_source_val w source p), b_h p, b_key p)"
      using p(2) by (simp add: dup_core_def)
    then have "(dup_val rs (ht_addr source) (dup_source_val w source p), b_h p, b_key p) \<in>
        set (dup_cores w rs source (ht_buckets source))"
      using p(1) by (force simp: List.map_filter_def)
    then show ?thesis using s unfolding dup_storable_def dup_cores_elements by force
  qed
  then show ?thesis by (simp add: dup_ok_def)
qed

lemma dup_events_elements:
  assumes "ht_inv source"
  shows "concat (map (dup_events w rs source (HT_HAS_STATIC_KEYS_ONLY source)) (ht_buckets source)) =
    concat (map reference_events (dup_elements w rs source))"
proof -
  have "concat (map (dup_events w rs source sk) bs) = concat (map reference_events (dup_cores w rs source bs))"
    if "\<forall>b \<in> set bs. sk \<longrightarrow> key_release_events b = []" for sk bs
    using that by (induction bs)
      (auto simp: map_filter_Cons map_filter_Nil dup_events_def reference_events_def dup_core_def addref_events_def
        key_release_events_def split: option.splits if_splits)
  then show ?thesis
    using static_keys_events [OF assms] by (simp add: dup_cores_elements [symmetric])
qed

text \<open>
  C31. \<open>zend_array_dup\<close> of a table that is not an immutable array gives a table of its own, with one
  reference and the usual destructor: the elements of the source in order, with the value behind a
  slot and without those whose slot is empty, where a reference nobody else holds is replaced by its
  value (unless that is the array itself). Each counted value and each counted key of the duplicate
  gets one more reference, and nothing else does. The duplicate satisfies the invariant, given that
  the internal pointer of the source is on an element that is copied (see the next property).
\<close>

theorem zend_array_dup_correct:
  assumes "ht_inv source" and "dup_storable w rs source" and "nNumUsed source = 0 \<or> \<not> ht_immutable source"
  shows "\<exists>w' t. zend_array_dup w rs a source = Inr (w', t) \<and> slots w' = slots w \<and>
     ht_addr t = a \<and> ht_refcount t = 1 \<and> \<not> ht_immutable t \<and> pDestructor t = Some ZVAL_PTR_DTOR \<and>
     ht_cores t = dup_elements w rs source \<and>
     events w' = events w @ concat (map reference_events (ht_cores t)) \<and>
     ht_inv (t\<lparr>nInternalPointer := HT_INVALID_IDX\<rparr>) \<and>
     (nInternalPointer source = HT_INVALID_IDX \<or>
      dup_shown w (ht_packed source) (b_val (arData source ! nInternalPointer source)) \<noteq> None \<longrightarrow> ht_inv t)"
  using zend_array_dup_spec [OF assms(1) dup_ok_storable [OF assms(2)] assms(3), of a]
  unfolding duplicated_def dup_events_elements [OF assms(1)] dup_cores_elements pointer_kept_def dup_core_shown
  by (elim exE conjE) (intro exI conjI; simp)

definition rs0 :: refs where "rs0 = (\<lambda>_. (2, IS_NULL))"

theorem zend_array_dup_correct_witness:
  "\<exists>w' t. zend_array_dup w0 rs0 9 ht_a7 = Inr (w', t) \<and> ht_inv t \<and>
     ht_entries t = [(StrKey [97], IS_LONG 1), (IntKey 7, IS_TRUE)] \<and> str_refs key_a (events w') = 1"
proof -
  have "dup_elements w0 rs0 ht_a7 = ht_cores ht_a7" unfolding ht_a7_eq by code_simp
  moreover have "dup_storable w0 rs0 ht_a7" unfolding ht_a7_eq by code_simp
  moreover have "\<not> ht_immutable ht_a7" by (simp add: ht_a7_eq)
  moreover have "dup_shown w0 (ht_packed ht_a7) (b_val (arData ht_a7 ! nInternalPointer ht_a7)) \<noteq> None"
    unfolding ht_a7_eq by code_simp
  moreover have "str_refs key_a (events w0 @ concat (map reference_events (ht_cores ht_a7))) = 1"
    unfolding ht_a7_eq by code_simp
  ultimately show ?thesis
    using zend_array_dup_correct [OF ht_a7(1), of w0 rs0 9] ht_a7(2) by (auto simp: ht_entries_def)
qed

text \<open>
  C32. Without that condition \<open>zend_array_dup\<close> leaves the index of the source in the duplicate of a
  table that is not packed: if the pointer is on an element with an empty slot and not more
  elements are copied than the pointer says, it is behind the elements of the duplicate, and what
  \<open>zend_hash_get_current_data\<close> answers there is a bucket that was never written.
\<close>

theorem zend_array_dup_dangling:
  assumes "ht_inv source" and "dup_storable w rs source" and "\<not> ht_immutable source" and "\<not> ht_packed source"
    and "nInternalPointer source = i" and "i < nNumUsed source"
    and "behind w (b_val (arData source ! i)) = None"
    and "length (dup_elements w rs source) \<le> i"
  shows "\<exists>w' t. zend_array_dup w rs a source = Inr (w', t) \<and>
     nNumUsed t = length (dup_elements w rs source) \<and> nInternalPointer t = i \<and> nNumUsed t \<le> nInternalPointer t \<and>
     zend_hash_get_current_data_ex t (nInternalPointer t) = Some (BUCKET i) \<and> zref_get w' t (BUCKET i) = UNINIT"
proof -
  have i: "i \<noteq> HT_INVALID_IDX" using assms(6) ht_inv_used_invalid [OF assms(1)] by simp
  have sz: "i < nTableSize source" using assms(1,6) by (simp add: ht_inv_def contents_ok_def)
  have k: "\<not> pointer_kept w rs source" using i assms(4,5,7) by (simp add: pointer_kept_def dup_core_shown dup_shown_def)
  obtain w' t where t: "zend_array_dup w rs a source = Inr (w', t)" "ht_cores t = dup_elements w rs source"
      "stale_pointer source t"
    using zend_array_dup_spec [OF assms(1) dup_ok_storable [OF assms(2)], of a] assms(3,4,6) k
    unfolding duplicated_def dup_cores_elements by auto
  then have "b_val (arData t ! i) = UNINIT" "nNumUsed t = length (dup_elements w rs source)" "nInternalPointer t = i"
    using sz assms(5,8) by (simp_all add: stale_pointer_def)
  then show ?thesis using t(1) i assms(8) by (simp add: zend_hash_get_current_data_ex_def zref_get_def)
qed

text \<open>Here the source has an element and an \<open>INDIRECT\<close> element of an empty slot, with the pointer on the latter.\<close>

definition ht_ind_end :: HashTable where
  "ht_ind_end = ht_ind\<lparr>nInternalPointer := snd (zend_hash_move_forward_ex ht_ind (nInternalPointer ht_ind))\<rparr>"

lemma ht_ind_end: "ht_inv ht_ind_end"
proof -
  have "pointer_ok ht_ind_end" unfolding ht_ind_end_def ht_ind_eq by code_simp
  then show ?thesis unfolding ht_ind_end_def
    by (intro pointer_inv [OF ht_ind(1)]) (simp add: pointer_ok_def)
qed

theorem zend_array_dup_dangling_witness:
  "\<exists>w' t. zend_array_dup w0 rs0 9 ht_ind_end = Inr (w', t) \<and> nNumUsed t = 1 \<and>
     zend_hash_get_current_data_ex t (nInternalPointer t) = Some (BUCKET 1) \<and> zref_get w' t (BUCKET 1) = UNINIT"
proof -
  have "dup_storable w0 rs0 ht_ind_end" "\<not> ht_immutable ht_ind_end" "\<not> ht_packed ht_ind_end"
    "nInternalPointer ht_ind_end = 1" "1 < nNumUsed ht_ind_end" "behind w0 (b_val (arData ht_ind_end ! 1)) = None"
    "length (dup_elements w0 rs0 ht_ind_end) = 1"
    unfolding ht_ind_end_def ht_ind_eq by code_simp+
  then show ?thesis using zend_array_dup_dangling [OF ht_ind_end, of w0 rs0 1 9] by auto
qed

subsection \<open>Between symbol and property tables\<close>

definition new_or_old :: "HashTable \<Rightarrow> HashTable option \<Rightarrow> HashTable" where
  "new_or_old ht r = (case r of None \<Rightarrow> ht | Some t \<Rightarrow> t)"

lemma addref_same: "ht_inv (addref_array ht) = ht_inv ht" "ht_entries (addref_array ht) = ht_entries ht"
proof -
  have b: "ht_buckets (ht\<lparr>ht_refcount := n\<rparr>) = ht_buckets ht" for n by (simp add: ht_buckets_def)
  have l: "linked (ht\<lparr>ht_refcount := n\<rparr>) m = linked ht m" for n m by (rule linked_cong) simp_all
  have "ht_inv (ht\<lparr>ht_refcount := n\<rparr>) = ht_inv ht" for n
    by (simp add: b l ht_inv_def contents_ok_def uninit_layout_def packed_layout_def
        hash_layout_def hash_area_def pointer_ok_def next_free_ok_def)
  then show "ht_inv (addref_array ht) = ht_inv ht" "ht_entries (addref_array ht) = ht_entries ht"
    by (simp_all add: addref_array_def b ht_entries_def ht_cores_def)
qed

lemma converted_result:
  assumes "converted w ht es m" "ht_inv ht"
  shows "case m of Inl e \<Rightarrow> e = E_ERROR_MEMORY \<and> HT_MAX_SIZE div 2 < nNumUsed ht
    | Inr (w', ht', r) \<Rightarrow> ht_inv (new_or_old ht' r) \<and>
        ht_entries (new_or_old ht' r) = (if r = None then ht_entries ht else es)"
  using assms by (auto simp: converted_def new_or_old_def addref_same split: sum.splits option.splits)

lemma conv_entry_same:
  assumes "\<forall>v \<in> snd ` set es. fst (zval_add_ref rs v) = v"
  shows "map (conv_entry rs kf) es = map (\<lambda>(k, v). (kf k, v)) es"
  using assms by (auto simp: conv_entry_def)

lemma map_keys_id: "(\<And>k. k \<in> fst ` set es \<Longrightarrow> g k = k) \<Longrightarrow> map (\<lambda>(k, v). (g k, v)) es = es"
  by (rule map_idI) (metis (mono_tags, lifting) case_prod_beta fst_conv image_eqI prod.collapse)

lemma round_trip_keys:
  assumes "symbolic ht"
  shows "map (\<lambda>(k, v). (symbol_key k, v)) (map (\<lambda>(k, v). (prop_key k, v)) (ht_entries ht)) = ht_entries ht"
proof -
  have "map (\<lambda>(k, v). (symbol_key (prop_key k), v)) (ht_entries ht) = ht_entries ht"
    by (rule map_keys_id) (rule symbol_prop_key [OF assms])
  then show ?thesis by (simp add: comp_def case_prod_unfold)
qed

lemma stringy_converted: "ht_entries p = map (\<lambda>(k, v). (prop_key k, v)) es \<Longrightarrow> stringy p"
  by (auto simp: stringy_def prop_key_def split: hkey.splits)

text \<open>Back from a property table whose keys, read as symbols, give the entries \<open>es\<close>.\<close>

lemma round_trip_back:
  assumes inv: "ht_inv props" and rs: "refs_ok rs" and str: "stringy props"
    and vals: "\<forall>v \<in> snd ` set (ht_entries props). fst (zval_add_ref rs v) = v"
    and es: "map (\<lambda>(k, v). (symbol_key k, v)) (ht_entries props) = es"
  shows "case zend_proptable_to_symtable w rs b props False of
      Inl e \<Rightarrow> e = E_ERROR_MEMORY \<and> HT_MAX_SIZE div 2 < nNumUsed props
    | Inr (w2, props2, r2) \<Rightarrow> ht_inv (new_or_old props2 r2) \<and> ht_entries (new_or_old props2 r2) = es"
proof -
  have kept: "ht_entries props = es" if r: "zend_proptable_to_symtable w rs b props False = Inr (w2, p2, None)" for w2 p2
  proof -
    have "symbol_key k = k" if "k \<in> fst ` set (ht_entries props)" for k
      using that zend_proptable_to_symtable_spec(2) [OF inv rs str r]
      by (cases k) (auto simp: symbol_key_def symbolic_def)
    then show ?thesis using es map_keys_id [of "ht_entries props" symbol_key] by simp
  qed
  show ?thesis
    using converted_result [OF zend_proptable_to_symtable_spec(1) [OF inv rs str, of w b] inv] kept es
    by (auto simp: conv_entry_same [OF vals] split: sum.splits if_splits)
qed

lemma symbols_stay:
  assumes "symbolic ht" "stringy ht"
  shows "map (\<lambda>(k, v). (symbol_key k, v)) (ht_entries ht) = ht_entries ht"
proof (rule map_keys_id)
  fix k assume "k \<in> fst ` set (ht_entries ht)"
  with assms show "symbol_key k = k" by (cases k) (auto simp: symbol_key_def symbolic_def stringy_def)
qed

text \<open>
  C33. A symbol table made into a property table, where every key is a string, and back again has
  the same entries in the same order, if no value is a reference nobody else holds; the property
  table has the same values in the same order.
\<close>

theorem zend_proptable_round_trip:
  assumes "ht_inv ht" and "refs_ok rs" and "symbolic ht"
    and "\<forall>v \<in> snd ` set (ht_entries ht). fst (zval_add_ref rs v) = v"
  shows "case zend_symtable_to_proptable w rs a ht of
      Inl e \<Rightarrow> e = E_ERROR_MEMORY \<and> HT_MAX_SIZE div 2 < nNumUsed ht
    | Inr (w1, ht1, r) \<Rightarrow> ht_inv (new_or_old ht1 r) \<and> stringy (new_or_old ht1 r) \<and>
        map snd (ht_entries (new_or_old ht1 r)) = map snd (ht_entries ht) \<and>
        (case zend_proptable_to_symtable w1 rs b (new_or_old ht1 r) False of
           Inl e \<Rightarrow> e = E_ERROR_MEMORY \<and> HT_MAX_SIZE div 2 < nNumUsed (new_or_old ht1 r)
         | Inr (w2, props2, r2) \<Rightarrow> ht_inv (new_or_old props2 r2) \<and> ht_entries (new_or_old props2 r2) = ht_entries ht)"
proof (cases "zend_symtable_to_proptable w rs a ht")
  case (Inl e)
  then show ?thesis
    using converted_result [OF zend_symtable_to_proptable_spec(1) [OF assms(1-3), of w a] assms(1)] by simp
next
  case (Inr x)
  obtain w1 ht1 r where x: "x = (w1, ht1, r)" by (cases x)
  define props where "props = new_or_old ht1 r"
  have c: "ht_inv props" "ht_entries props = (if r = None then ht_entries ht
      else map (\<lambda>(k, v). (prop_key k, v)) (ht_entries ht))"
    using converted_result [OF zend_symtable_to_proptable_spec(1) [OF assms(1-3), of w a] assms(1)] Inr x
    by (simp_all add: props_def conv_entry_same [OF assms(4)])
  have s: "stringy ht" if "r = None" using zend_symtable_to_proptable_spec(2) [OF assms(1-3)] Inr x that by blast
  then have str: "stringy props" using c(2) stringy_converted [of props "ht_entries ht"]
    by (cases "r = None") (simp_all add: stringy_def)
  have vals: "map snd (ht_entries props) = map snd (ht_entries ht)" by (simp add: c(2) split_beta comp_def)
  then have v: "\<forall>v \<in> snd ` set (ht_entries props). fst (zval_add_ref rs v) = v"
    using assms(4) by (metis list.set_map)
  have "map (\<lambda>(k, v). (symbol_key k, v)) (ht_entries props) = ht_entries ht"
    using round_trip_keys [OF assms(3)] symbols_stay [OF assms(3) s] by (simp add: c(2))
  from round_trip_back [OF c(1) assms(2) str v this, of w1 b]
  show ?thesis unfolding Inr x sum.case prod.case props_def [symmetric] using c(1) str vals by blast
qed

lemma small_props:
  "case zend_symtable_to_proptable w0 rs0 8 ht_a7 of Inl e \<Rightarrow> False
   | Inr (w1, h1, r) \<Rightarrow> nNumUsed (new_or_old h1 r) = 2"
  unfolding ht_a7_eq by code_simp

theorem zend_proptable_round_trip_witness:
  "\<exists>w1 h1 r w2 p2 r2. zend_symtable_to_proptable w0 rs0 8 ht_a7 = Inr (w1, h1, r) \<and>
     map snd (ht_entries (new_or_old h1 r)) = [IS_LONG 1, IS_TRUE] \<and>
     zend_proptable_to_symtable w1 rs0 9 (new_or_old h1 r) False = Inr (w2, p2, r2) \<and>
     ht_entries (new_or_old p2 r2) = [(StrKey [97], IS_LONG 1), (IntKey 7, IS_TRUE)]"
proof -
  have "sym_key [97] = StrKey [97]" by code_simp
  then have "symbolic ht_a7" by (simp add: symbolic_def ht_a7)
  moreover have "refs_ok rs0" by (simp add: refs_ok_def rs0_def)
  moreover have "\<forall>v \<in> snd ` set (ht_entries ht_a7). fst (zval_add_ref rs0 v) = v"
    by (simp add: ht_a7 zval_add_ref_def)
  ultimately have rt: "case zend_symtable_to_proptable w0 rs0 8 ht_a7 of
      Inl e \<Rightarrow> e = E_ERROR_MEMORY \<and> HT_MAX_SIZE div 2 < nNumUsed ht_a7
    | Inr (w1, ht1, r) \<Rightarrow> ht_inv (new_or_old ht1 r) \<and> stringy (new_or_old ht1 r) \<and>
        map snd (ht_entries (new_or_old ht1 r)) = map snd (ht_entries ht_a7) \<and>
        (case zend_proptable_to_symtable w1 rs0 9 (new_or_old ht1 r) False of
           Inl e \<Rightarrow> e = E_ERROR_MEMORY \<and> HT_MAX_SIZE div 2 < nNumUsed (new_or_old ht1 r)
         | Inr (w2, p2, r2) \<Rightarrow> ht_inv (new_or_old p2 r2) \<and> ht_entries (new_or_old p2 r2) = ht_entries ht_a7)"
    by (intro zend_proptable_round_trip ht_a7(1))
  obtain w1 h1 r where f: "zend_symtable_to_proptable w0 rs0 8 ht_a7 = Inr (w1, h1, r)"
      "nNumUsed (new_or_old h1 r) = 2"
    using small_props by (cases "zend_symtable_to_proptable w0 rs0 8 ht_a7") auto
  show ?thesis
    using rt unfolding f(1) by (auto simp: ht_a7 f(2) HT_MAX_SIZE_def split: sum.splits)
qed

end
