(* ===== verification/Zend_Objects.thy ===== *)
theory Zend_Objects
  imports Prelude
begin

text \<open>
  The store of objects (\<open>Zend/zend_objects_API.c\<close>): handles are indices into an array of pointers;
  the entries of freed handles are chained through the array itself, as numbers tagged by the
  lowest bit. The functions an object's handler table holds are a parameter: what calling one does
  to the store and the objects, which includes calls of these operations on other objects.
\<close>

subsection \<open>Objects and the store\<close>

type_synonym pointer = "64 word"

datatype obj_handler = ZEND_OBJECTS_DESTROY_OBJECT | ZEND_OBJECT_STD_DTOR | HANDLER nat

record zend_object =
  obj_handle :: u32
  obj_refcount :: u32
  obj_destructor_called :: bool      \<comment> \<open>\<open>IS_OBJ_DESTRUCTOR_CALLED\<close>\<close>
  obj_free_called :: bool            \<comment> \<open>\<open>IS_OBJ_FREE_CALLED\<close>\<close>
  dtor_obj :: "obj_handler option"   \<comment> \<open>\<open>handlers->dtor_obj\<close>, or null\<close>
  free_obj :: "obj_handler option"
  ce_destructor :: bool              \<comment> \<open>the class has a destructor\<close>

text \<open>
  The store \<open>EG(objects_store)\<close> with the flag \<open>EG_FLAGS_OBJECT_STORE_NO_REUSE\<close>, the allocated
  objects, and the calls of handlers, in order.
\<close>

record obj_globals =
  object_buckets :: "pointer list option"
  store_top :: u32
  store_size :: u32
  free_list_head :: u32              \<comment> \<open>an \<open>int\<close>\<close>
  no_reuse :: bool
  objects :: "pointer \<Rightarrow> zend_object option"
  handler_calls :: "(obj_handler \<times> pointer) list"

type_synonym obj_handlers = "obj_handler \<Rightarrow> pointer \<Rightarrow> obj_globals \<Rightarrow> obj_globals res"

subsection \<open>Tagged entries\<close>

definition OBJ_BUCKET_INVALID :: pointer where
  "OBJ_BUCKET_INVALID = 1"

definition IS_OBJ_VALID :: "pointer \<Rightarrow> bool" where
  "IS_OBJ_VALID p \<longleftrightarrow> p AND OBJ_BUCKET_INVALID = 0"

definition SET_OBJ_INVALID :: "pointer \<Rightarrow> pointer" where
  "SET_OBJ_INVALID p = p OR OBJ_BUCKET_INVALID"

definition GET_OBJ_BUCKET_NUMBER :: "pointer \<Rightarrow> 64 word" where
  "GET_OBJ_BUCKET_NUMBER p = signed_drop_bit 1 p"

definition SET_OBJ_BUCKET_NUMBER :: "u32 \<Rightarrow> pointer" where
  "SET_OBJ_BUCKET_NUMBER n = push_bit 1 (scast n) OR OBJ_BUCKET_INVALID"

subsection \<open>Access to memory\<close>

definition bucket_at :: "u32 \<Rightarrow> obj_globals \<Rightarrow> pointer res" where
  "bucket_at handle s = (case object_buckets s of
       None \<Rightarrow> Inl UB_NULL_POINTER
     | Some bs \<Rightarrow> if unat handle < length bs then Inr (bs ! unat handle) else Inl UB_OUT_OF_BOUNDS)"

definition set_bucket :: "u32 \<Rightarrow> pointer \<Rightarrow> obj_globals \<Rightarrow> obj_globals res" where
  "set_bucket handle p s = (case object_buckets s of
       None \<Rightarrow> Inl UB_NULL_POINTER
     | Some bs \<Rightarrow> if unat handle < length bs then Inr (s\<lparr>object_buckets := Some (bs[unat handle := p])\<rparr>)
                  else Inl UB_OUT_OF_BOUNDS)"

definition object_at :: "pointer \<Rightarrow> obj_globals \<Rightarrow> zend_object res" where
  "object_at p s = (case objects s p of None \<Rightarrow> Inl UB_USE_AFTER_FREE | Some ob \<Rightarrow> Inr ob)"

definition change_object :: "pointer \<Rightarrow> (zend_object \<Rightarrow> zend_object) \<Rightarrow> obj_globals \<Rightarrow> obj_globals res" where
  "change_object p f s = res_bind (object_at p s) (\<lambda>ob. Inr (s\<lparr>objects := (objects s)(p \<mapsto> f ob)\<rparr>))"

subsection \<open>Initialisation\<close>

text \<open>The content of memory that was never written.\<close>

definition unset_bucket :: pointer where
  "unset_bucket = 0xAAAAAAAAAAAAAAAA"

definition zend_objects_store_init :: "u32 \<Rightarrow> obj_globals \<Rightarrow> obj_globals res" where
  "zend_objects_store_init init_size s =
     (if init_size = 0 then Inl UB_OUT_OF_BOUNDS
      else Inr (s\<lparr>object_buckets := Some (0 # replicate (unat init_size - 1) unset_bucket),
                 store_top := 1, store_size := init_size, free_list_head := -1\<rparr>))"

definition zend_objects_store_destroy :: "obj_globals \<Rightarrow> obj_globals" where
  "zend_objects_store_destroy s = s\<lparr>object_buckets := None\<rparr>"

subsection \<open>Calling the handlers\<close>

text \<open>\<open>GC_REFCOUNT(obj)++; handler(obj); GC_REFCOUNT(obj)--\<close>.\<close>

definition call_handler :: "obj_handlers \<Rightarrow> obj_handler \<Rightarrow> pointer \<Rightarrow> obj_globals \<Rightarrow> obj_globals res" where
  "call_handler H h p s =
     res_bind (change_object p (\<lambda>ob. ob\<lparr>obj_refcount := obj_refcount ob + 1\<rparr>) s) (\<lambda>s.
     res_bind (H h p (s\<lparr>handler_calls := handler_calls s @ [(h, p)]\<rparr>))
       (change_object p (\<lambda>ob. ob\<lparr>obj_refcount := obj_refcount ob - 1\<rparr>)))"

text \<open>The destructor, unless it was called before or there is nothing to call.\<close>

definition destructor_of :: "zend_object \<Rightarrow> obj_handler option" where
  "destructor_of ob = (case dtor_obj ob of None \<Rightarrow> None
     | Some d \<Rightarrow> if d \<noteq> ZEND_OBJECTS_DESTROY_OBJECT \<or> ce_destructor ob then Some d else None)"

definition run_destructor :: "obj_handlers \<Rightarrow> pointer \<Rightarrow> obj_globals \<Rightarrow> obj_globals res" where
  "run_destructor H p s =
     res_bind (object_at p s) (\<lambda>ob.
       if obj_destructor_called ob then Inr s
       else res_bind (change_object p (\<lambda>ob. ob\<lparr>obj_destructor_called := True\<rparr>) s) (\<lambda>s.
         case destructor_of ob of None \<Rightarrow> Inr s | Some d \<Rightarrow> call_handler H d p s))"

definition run_free :: "obj_handlers \<Rightarrow> bool \<Rightarrow> pointer \<Rightarrow> obj_globals \<Rightarrow> obj_globals res" where
  "run_free H fast_shutdown p s =
     res_bind (object_at p s) (\<lambda>ob.
       if obj_free_called ob then Inr s
       else res_bind (change_object p (\<lambda>ob. ob\<lparr>obj_free_called := True\<rparr>) s) (\<lambda>s.
         case free_obj ob of
           None \<Rightarrow> Inr s
         | Some f \<Rightarrow> if fast_shutdown \<and> f = ZEND_OBJECT_STD_DTOR then Inr s else call_handler H f p s))"

subsection \<open>The operations on the whole store\<close>

text \<open>
  The loop reads \<open>top\<close> in every round, so it also reaches objects that destructors create; it need
  not end.
\<close>

definition destructor_at :: "obj_handlers \<Rightarrow> u32 \<Rightarrow> obj_globals \<Rightarrow> obj_globals res" where
  "destructor_at H i s = res_bind (bucket_at i s) (\<lambda>p. if IS_OBJ_VALID p then run_destructor H p s else Inr s)"

partial_function (option) destructors_loop :: "obj_handlers \<Rightarrow> u32 \<Rightarrow> obj_globals \<Rightarrow> obj_globals res option" where
  "destructors_loop H i s =
     (if i < store_top s then
        case destructor_at H i s of
          Inl e \<Rightarrow> Some (Inl e)
        | Inr s \<Rightarrow> destructors_loop H (i + 1) s
      else Some (Inr s))"

definition zend_objects_store_call_destructors :: "obj_handlers \<Rightarrow> obj_globals \<Rightarrow> obj_globals res option" where
  "zend_objects_store_call_destructors H s =
     (let s = s\<lparr>no_reuse := True\<rparr> in
      if store_top s > 1 then destructors_loop H 1 s else Some (Inr s))"

definition mark_at :: "nat \<Rightarrow> obj_globals \<Rightarrow> obj_globals res" where
  "mark_at i s = res_bind (bucket_at (of_nat i) s) (\<lambda>p.
     if IS_OBJ_VALID p then change_object p (\<lambda>ob. ob\<lparr>obj_destructor_called := True\<rparr>) s else Inr s)"

definition zend_objects_store_mark_destructed :: "obj_globals \<Rightarrow> obj_globals res" where
  "zend_objects_store_mark_destructed s =
     (if object_buckets s \<noteq> None \<and> store_top s > 1 then for_each mark_at [1..<unat (store_top s)] s else Inr s)"

text \<open>
  From the last entry to the first. The block is remembered before the loop, so a handler that
  makes the store grow leaves the loop with a freed block.
\<close>

definition free_at :: "obj_handlers \<Rightarrow> bool \<Rightarrow> u32 \<Rightarrow> nat \<Rightarrow> obj_globals \<Rightarrow> obj_globals res" where
  "free_at H fast_shutdown block_size i s =
     (if store_size s \<noteq> block_size then Inl UB_USE_AFTER_FREE
      else res_bind (bucket_at (of_nat i) s) (\<lambda>p.
        if IS_OBJ_VALID p then run_free H fast_shutdown p s else Inr s))"

definition zend_objects_store_free_object_storage :: "obj_handlers \<Rightarrow> bool \<Rightarrow> obj_globals \<Rightarrow> obj_globals res" where
  "zend_objects_store_free_object_storage H fast_shutdown s =
     (if store_top s \<le> 1 then Inr s
      else for_each (free_at H fast_shutdown (store_size s)) (rev [1..<unat (store_top s)]) s)"

subsection \<open>Adding and removing an object\<close>

text \<open>\<open>erealloc\<close> keeps the old entries.\<close>

definition resize_buckets :: "nat \<Rightarrow> pointer list \<Rightarrow> pointer list" where
  "resize_buckets n bs = take n bs @ replicate (n - length bs) unset_bucket"

text \<open>The handle is an \<open>int\<close>: an index that is not below \<open>2 ^ 31\<close> is a negative one.\<close>

definition new_handle :: "obj_globals \<Rightarrow> (u32 \<times> obj_globals) res" where
  "new_handle s =
     (if free_list_head s \<noteq> -1 \<and> \<not> no_reuse s then
        let handle = free_list_head s in
        if sint handle < 0 then Inl UB_OUT_OF_BOUNDS
        else res_bind (bucket_at handle s) (\<lambda>b.
          Inr (handle, s\<lparr>free_list_head := ucast (GET_OBJ_BUCKET_NUMBER b)\<rparr>))
      else
        let s = (if store_top s = store_size s then
                   let new_size = 2 * store_size s in
                   s\<lparr>object_buckets := Some (resize_buckets (unat new_size)
                        (case object_buckets s of None \<Rightarrow> [] | Some bs \<Rightarrow> bs)),
                     store_size := new_size\<rparr>
                 else s)
        in Inr (store_top s, s\<lparr>store_top := store_top s + 1\<rparr>))"

definition zend_objects_store_put :: "pointer \<Rightarrow> obj_globals \<Rightarrow> obj_globals res" where
  "zend_objects_store_put p s =
     res_bind (new_handle s) (\<lambda>(handle, s).
     res_bind (change_object p (\<lambda>ob. ob\<lparr>obj_handle := handle\<rparr>) s) (\<lambda>s.
       if sint handle < 0 then Inl UB_OUT_OF_BOUNDS else set_bucket handle p s))"

definition ZEND_OBJECTS_STORE_ADD_TO_FREE_LIST :: "u32 \<Rightarrow> obj_globals \<Rightarrow> obj_globals res" where
  "ZEND_OBJECTS_STORE_ADD_TO_FREE_LIST handle s =
     res_bind (set_bucket handle (SET_OBJ_BUCKET_NUMBER (free_list_head s)) s) (\<lambda>s.
       Inr (s\<lparr>free_list_head := handle\<rparr>))"

text \<open>The root buffer of the cycle collector, which the object is removed from, is not modelled.\<close>

definition free_object :: "obj_handlers \<Rightarrow> pointer \<Rightarrow> u32 \<Rightarrow> obj_globals \<Rightarrow> obj_globals res" where
  "free_object H p handle s =
     res_bind (set_bucket handle (SET_OBJ_INVALID p) s) (\<lambda>s.
     res_bind (run_free H False p s) (\<lambda>s.
       ZEND_OBJECTS_STORE_ADD_TO_FREE_LIST handle (s\<lparr>objects := (objects s)(p := None)\<rparr>)))"

definition zend_objects_store_del :: "obj_handlers \<Rightarrow> pointer \<Rightarrow> obj_globals \<Rightarrow> obj_globals res" where
  "zend_objects_store_del H p s =
     (if object_buckets s = None then Inr s
      else
        res_bind (object_at p s) (\<lambda>ob.
        res_bind (bucket_at (obj_handle ob) s) (\<lambda>b.
          if \<not> IS_OBJ_VALID b then Inr s
          else if obj_refcount ob = 0 then
            res_bind (run_destructor H p s) (\<lambda>s.
            res_bind (object_at p s) (\<lambda>ob.
              if obj_refcount ob = 0 then free_object H p (obj_handle ob) s else Inr s))
          else change_object p (\<lambda>ob. ob\<lparr>obj_refcount := obj_refcount ob - 1\<rparr>) s)))"

definition zend_object_release :: "obj_handlers \<Rightarrow> pointer \<Rightarrow> obj_globals \<Rightarrow> obj_globals res" where
  "zend_object_release H p s =
     res_bind (change_object p (\<lambda>ob. ob\<lparr>obj_refcount := obj_refcount ob - 1\<rparr>) s) (\<lambda>s.
     res_bind (object_at p s) (\<lambda>ob.
       if obj_refcount ob = 0 then zend_objects_store_del H p s else Inr s))"

definition zend_object_store_ctor_failed :: "pointer \<Rightarrow> obj_globals \<Rightarrow> obj_globals res" where
  "zend_object_store_ctor_failed p s = change_object p (\<lambda>ob. ob\<lparr>obj_destructor_called := True\<rparr>) s"

subsection \<open>Tags\<close>

lemma bit_0_valid: "IS_OBJ_VALID p \<longleftrightarrow> \<not> bit p 0"
  by (simp add: IS_OBJ_VALID_def OBJ_BUCKET_INVALID_def and_one_eq bit_0 even_iff_mod_2_eq_zero)

lemma not_valid [simp]: "\<not> IS_OBJ_VALID (SET_OBJ_INVALID p)" "\<not> IS_OBJ_VALID (SET_OBJ_BUCKET_NUMBER n)"
  by (simp_all add: bit_0_valid SET_OBJ_INVALID_def SET_OBJ_BUCKET_NUMBER_def OBJ_BUCKET_INVALID_def bit_simps)

text \<open>A number fits a tagged entry.\<close>

lemma get_set_number [simp]: "ucast (GET_OBJ_BUCKET_NUMBER (SET_OBJ_BUCKET_NUMBER n)) = n"
proof (rule bit_word_eqI)
  fix k assume "k < LENGTH(32)"
  then have k: "k < 32" "\<not> 64 - 1 \<le> k" "min 31 k = k" by simp_all
  have "bit (ucast (GET_OBJ_BUCKET_NUMBER (SET_OBJ_BUCKET_NUMBER n)) :: u32) k =
      bit (SET_OBJ_BUCKET_NUMBER n) (1 + k)"
    using k by (simp only: GET_OBJ_BUCKET_NUMBER_def bit_unsigned_iff bit_signed_drop_bit_iff) (simp add: not_le)
  also have "\<dots> = bit (scast n :: 64 word) k"
    using k by (simp only: SET_OBJ_BUCKET_NUMBER_def OBJ_BUCKET_INVALID_def bit_or_iff bit_push_bit_iff bit_1_iff)
      (simp add: bit_1_iff)
  also have "\<dots> = bit n k" using k by (simp only: bit_signed_iff) simp
  finally show "bit (ucast (GET_OBJ_BUCKET_NUMBER (SET_OBJ_BUCKET_NUMBER n)) :: u32) k = bit n k" .
qed

end
