(* ===== verification/Zend_Objects_Steps.thy ===== *)
theory Zend_Objects_Steps
  imports Zend_Objects
begin

text \<open>
  The invariant of the object store and the steps that change it, as an inductive relation: what
  running code can do to the store, between and inside the calls of handlers.
\<close>

subsection \<open>The invariant\<close>

fun free_chain :: "pointer list \<Rightarrow> u32 \<Rightarrow> nat list \<Rightarrow> bool" where
  "free_chain bs h [] \<longleftrightarrow> h = -1"
| "free_chain bs h (i # is) \<longleftrightarrow> unat h = i \<and> i < 2 ^ 31 \<and> i < length bs \<and> \<not> IS_OBJ_VALID (bs ! i) \<and>
     free_chain bs (ucast (GET_OBJ_BUCKET_NUMBER (bs ! i))) is"

text \<open>Every valid entry points to an allocated object that knows its handle.\<close>

definition entries_ok :: "(pointer \<Rightarrow> zend_object option) \<Rightarrow> nat \<Rightarrow> pointer list \<Rightarrow> bool" where
  "entries_ok obs n bs \<longleftrightarrow> (\<forall>i \<in> {1..<n}. IS_OBJ_VALID (bs ! i) \<longrightarrow>
     (\<exists>ob. obs (bs ! i) = Some ob \<and> unat (obj_handle ob) = i))"

definition store_ok :: "obj_globals \<Rightarrow> pointer list \<Rightarrow> nat list \<Rightarrow> bool" where
  "store_ok s bs fl \<longleftrightarrow> object_buckets s = Some bs \<and> length bs = unat (store_size s) \<and>
     1 \<le> unat (store_top s) \<and> unat (store_top s) \<le> length bs \<and> unat (store_top s) \<le> 2 ^ 31 \<and>
     free_chain bs (free_list_head s) fl \<and> distinct fl \<and> set fl \<subseteq> {1..<unat (store_top s)} \<and>
     entries_ok (objects s) (unat (store_top s)) bs"

definition store_inv :: "obj_globals \<Rightarrow> bool" where
  "store_inv s \<longleftrightarrow> (\<exists>bs fl. store_ok s bs fl)"

definition stored_at :: "obj_globals \<Rightarrow> nat \<Rightarrow> pointer \<Rightarrow> bool" where
  "stored_at s i p \<longleftrightarrow> 1 \<le> i \<and> i < unat (store_top s) \<and> IS_OBJ_VALID p \<and>
     (\<exists>bs. object_buckets s = Some bs \<and> i < length bs \<and> bs ! i = p)"

definition in_free_list :: "obj_globals \<Rightarrow> nat \<Rightarrow> bool" where
  "in_free_list s i \<longleftrightarrow> (\<exists>bs fl. object_buckets s = Some bs \<and> free_chain bs (free_list_head s) fl \<and> i \<in> set fl)"

lemma free_chain_update:
  "i \<notin> set fl \<Longrightarrow> free_chain (bs[i := x]) h fl = free_chain bs h fl"
  by (induction bs h fl rule: free_chain.induct) auto

lemma free_chain_mono:
  "free_chain bs h fl \<Longrightarrow> (\<And>i. i \<in> set fl \<Longrightarrow> i < length bs' \<and> bs' ! i = bs ! i) \<Longrightarrow> free_chain bs' h fl"
  by (induction bs h fl rule: free_chain.induct) auto

lemma minus_one_u32: "unat (- 1 :: u32) = 2 ^ 32 - 1"
  by (simp add: unsigned_minus_1_eq_mask mask_eq_exp_minus_1)

lemma free_chain_unique: "free_chain bs h fl \<Longrightarrow> free_chain bs h fl' \<Longrightarrow> fl = fl'"
proof (induction bs h fl arbitrary: fl' rule: free_chain.induct)
  case (1 bs h)
  then show ?case by (cases fl') (auto simp: minus_one_u32)
next
  case (2 bs h i "is")
  then show ?case by (cases fl') (auto simp: minus_one_u32)
qed

lemma free_chain_invalid: "free_chain bs h fl \<Longrightarrow> i \<in> set fl \<Longrightarrow> \<not> IS_OBJ_VALID (bs ! i)"
  by (induction bs h fl rule: free_chain.induct) auto

lemma free_chain_head: "free_chain bs h fl \<Longrightarrow> (h = -1) = (fl = [])"
  by (cases fl) (auto simp: minus_one_u32)

lemma store_okD:
  assumes "store_ok s bs fl"
  shows "object_buckets s = Some bs" "length bs = unat (store_size s)" "1 \<le> unat (store_top s)"
    "unat (store_top s) \<le> length bs" "unat (store_top s) \<le> 2 ^ 31" "free_chain bs (free_list_head s) fl"
    "distinct fl" "set fl \<subseteq> {1..<unat (store_top s)}" "entries_ok (objects s) (unat (store_top s)) bs"
  using assms unfolding store_ok_def by blast+

lemma in_free_list_ok: "store_ok s bs fl \<Longrightarrow> in_free_list s i = (i \<in> set fl)"
  unfolding in_free_list_def using store_okD(1,6) [of s bs fl] free_chain_unique by (metis option.inject)

lemma stored_at_ok: "store_ok s bs fl \<Longrightarrow> stored_at s i p \<longleftrightarrow> 1 \<le> i \<and> i < unat (store_top s) \<and> IS_OBJ_VALID p \<and> bs ! i = p"
  using store_okD(1,4) [of s bs fl] by (auto simp: stored_at_def)

lemma stored_atD:
  assumes "store_ok s bs fl" "stored_at s i p"
  shows "\<exists>ob. objects s p = Some ob \<and> unat (obj_handle ob) = i" "bs ! i = p" "i < length bs" "IS_OBJ_VALID p"
    "1 \<le> i" "i < unat (store_top s)"
  using assms store_okD(4,9) [OF assms(1)] by (auto simp: stored_at_ok entries_ok_def)

text \<open>No object has two handles.\<close>

lemma stored_at_unique: "store_inv s \<Longrightarrow> stored_at s i p \<Longrightarrow> stored_at s j p \<Longrightarrow> i = j"
  unfolding store_inv_def by (metis stored_atD(1) option.inject)

lemma bucket_at_ok: "store_ok s bs fl \<Longrightarrow> unat h < length bs \<Longrightarrow> bucket_at h s = Inr (bs ! unat h)"
  by (simp add: bucket_at_def store_okD(1))

lemma set_bucket_ok:
  "store_ok s bs fl \<Longrightarrow> unat h < length bs \<Longrightarrow>
   set_bucket h p s = Inr (s\<lparr>object_buckets := Some (bs[unat h := p])\<rparr>)"
  by (simp add: set_bucket_def store_okD(1))

lemma sint_nonneg_u32: "unat h < 2 ^ 31 \<Longrightarrow> \<not> sint (h :: u32) < 0"
proof -
  assume "unat h < 2 ^ 31"
  then have "uint h < 2 ^ 31" by (simp add: unat_eq_nat_uint nat_less_iff del: nat_uint_eq)
  moreover have z: "0 \<le> uint h" by simp
  moreover have "- (2 ^ 31) \<le> uint h" by (rule order_trans [OF _ z]) simp
  ultimately have "signed_take_bit 31 (uint h) = uint h" by (intro signed_take_bit_int_eq_self)
  then have "sint h = uint h" by (simp add: sint_uint)
  then show ?thesis by simp
qed

subsection \<open>Adding an object\<close>

definition reuses :: "obj_globals \<Rightarrow> nat list \<Rightarrow> bool" where
  "reuses s fl \<longleftrightarrow> fl \<noteq> [] \<and> \<not> no_reuse s"

definition next_handle :: "obj_globals \<Rightarrow> nat list \<Rightarrow> nat" where
  "next_handle s fl = (if reuses s fl then hd fl else unat (store_top s))"

text \<open>What a successful \<open>put\<close> leaves.\<close>

definition put_result :: "obj_globals \<Rightarrow> pointer list \<Rightarrow> nat list \<Rightarrow> pointer \<Rightarrow> zend_object \<Rightarrow> obj_globals \<Rightarrow> bool" where
  "put_result s bs fl p ob s' \<longleftrightarrow> (\<exists>bs'. store_ok s' bs' (if reuses s fl then tl fl else fl) \<and>
     bs' ! next_handle s fl = p \<and> (\<forall>i < unat (store_top s). i \<noteq> next_handle s fl \<longrightarrow> bs' ! i = bs ! i) \<and>
     objects s' = (objects s)(p \<mapsto> ob\<lparr>obj_handle := of_nat (next_handle s fl)\<rparr>) \<and>
     unat (store_top s') = (if reuses s fl then unat (store_top s) else unat (store_top s) + 1) \<and>
     no_reuse s' = no_reuse s \<and> handler_calls s' = handler_calls s)"

lemma entries_ok_put:
  assumes e: "entries_ok obs n bs" and p: "\<forall>i. 1 \<le> i \<and> i < n \<longrightarrow> bs ! i = p \<longrightarrow> \<not> IS_OBJ_VALID p"
    and h: "unat (obj_handle ob) = h" and b: "\<forall>i < n. i \<noteq> h \<longrightarrow> bs' ! i = bs ! i" "bs' ! h = p" and n: "m \<le> max n (h + 1)" "h \<le> n"
  shows "entries_ok (obs(p \<mapsto> ob)) m bs'"
  unfolding entries_ok_def
proof (intro ballI impI)
  fix i assume i: "i \<in> {1..<m}" "IS_OBJ_VALID (bs' ! i)"
  show "\<exists>ob'. (obs(p \<mapsto> ob)) (bs' ! i) = Some ob' \<and> unat (obj_handle ob') = i"
  proof (cases "i = h")
    case True
    then show ?thesis using b h by simp
  next
    case False
    then have lt: "i < n" using i n by auto
    then have "bs' ! i = bs ! i" using False b by simp
    then show ?thesis using e i lt p by (auto simp: entries_ok_def)
  qed
qed

lemma put_reuse:
  assumes ok: "store_ok s bs fl" and ob: "objects s p = Some ob" and v: "IS_OBJ_VALID p" and new: "\<forall>i. \<not> stored_at s i p"
    and r: "reuses s fl"
  shows "\<exists>s'. zend_objects_store_put p s = Inr s' \<and> put_result s bs fl p ob s'"
proof -
  note D = store_okD [OF ok]
  obtain i fl' where fl: "fl = i # fl'" using r by (cases fl) (auto simp: reuses_def)
  let ?h = "free_list_head s" and ?n = "ucast (GET_OBJ_BUCKET_NUMBER (bs ! i)) :: u32"
  have h: "unat ?h = i" "i < 2 ^ 31" "i < length bs" "free_chain bs ?n fl'" "?h \<noteq> -1" "?h = of_nat i"
    using D(6) by (auto simp: fl minus_one_u32)
  let ?s = "s\<lparr>free_list_head := ?n, objects := (objects s)(p \<mapsto> ob\<lparr>obj_handle := ?h\<rparr>), object_buckets := Some (bs[i := p])\<rparr>"
  have "new_handle s = Inr (?h, s\<lparr>free_list_head := ?n\<rparr>)"
    using r h D(1) sint_nonneg_u32 [of ?h] by (simp add: new_handle_def reuses_def bucket_at_def)
  then have run: "zend_objects_store_put p s = Inr ?s"
    using h D(1) ob sint_nonneg_u32 [of ?h]
    by (simp add: zend_objects_store_put_def change_object_def object_at_def set_bucket_def)
  have "entries_ok ((objects s)(p \<mapsto> ob\<lparr>obj_handle := ?h\<rparr>)) (unat (store_top s)) (bs[i := p])"
    by (rule entries_ok_put [OF D(9), of p _ i]) (use new v h D(8) in \<open>auto simp: stored_at_ok [OF ok] fl\<close>)
  then have "store_ok ?s (bs[i := p]) fl'"
    using D h by (simp add: store_ok_def fl free_chain_update)
  then have "put_result s bs fl p ob ?s"
    unfolding put_result_def
    by (intro exI [of _ "bs[i := p]"]) (use r h D(8) in \<open>auto simp: next_handle_def fl\<close>)
  with run show ?thesis by blast
qed

lemma put_new:
  assumes ok: "store_ok s bs fl" and ob: "objects s p = Some ob" and v: "IS_OBJ_VALID p" and new: "\<forall>i. \<not> stored_at s i p"
    and r: "\<not> reuses s fl" and top: "unat (store_top s) < 2 ^ 31"
  shows "\<exists>s'. zend_objects_store_put p s = Inr s' \<and> put_result s bs fl p ob s'"
proof -
  note D = store_okD [OF ok]
  let ?t = "store_top s" and ?n = "unat (store_top s)"
  define grow where "grow \<longleftrightarrow> ?t = store_size s"
  define bs1 where "bs1 = (if grow then resize_buckets (unat (2 * store_size s)) bs else bs)"
  define sz where "sz = (if grow then 2 * store_size s else store_size s)"
  let ?s = "s\<lparr>object_buckets := Some (bs1[?n := p]), store_top := ?t + 1, store_size := sz,
      objects := (objects s)(p \<mapsto> ob\<lparr>obj_handle := ?t\<rparr>)\<rparr>"
  have two: "unat (2 * store_size s) = 2 * unat (store_size s)" if grow
    using that top unfolding grow_def by (simp add: unat_word_ariths)
  have "?n < unat (store_size s)" if "\<not> grow"
    using that D(2,4) by (simp add: grow_def nat_less_le word_unat_eq_iff)
  then have len: "length bs1 = unat sz" "?n < length bs1" "\<forall>i < ?n. bs1 ! i = bs ! i"
    using D(2,3,4) two by (auto simp: bs1_def sz_def resize_buckets_def nth_append grow_def)
  have t1: "unat (?t + 1) = ?n + 1" using top by (simp add: unat_word_ariths)
  have fr: "(free_list_head s \<noteq> -1 \<and> \<not> no_reuse s) = False"
    using r free_chain_head [OF D(6)] by (auto simp: reuses_def)
  have "new_handle s = Inr (?t, s\<lparr>object_buckets := Some bs1, store_size := sz, store_top := ?t + 1\<rparr>)"
    unfolding new_handle_def fr if_False using D(1) by (auto simp: bs1_def sz_def grow_def Let_def)
  then have run: "zend_objects_store_put p s = Inr ?s"
    using len ob sint_nonneg_u32 [OF top]
    by (simp add: zend_objects_store_put_def change_object_def object_at_def set_bucket_def)
  have "entries_ok ((objects s)(p \<mapsto> ob\<lparr>obj_handle := ?t\<rparr>)) (?n + 1) (bs1[?n := p])"
    by (rule entries_ok_put [OF D(9), of p _ ?n]) (use new v len in \<open>auto simp: stored_at_ok [OF ok]\<close>)
  moreover have "free_chain (bs1[?n := p]) (free_list_head s) fl"
    by (rule free_chain_mono [OF D(6)]) (use D(8) len in auto)
  ultimately have "store_ok ?s (bs1[?n := p]) fl"
    using D len t1 top by (auto simp: store_ok_def)
  then have "put_result s bs fl p ob ?s"
    unfolding put_result_def
    by (intro exI [of _ "bs1[?n := p]"]) (use r len t1 in \<open>auto simp: next_handle_def\<close>)
  with run show ?thesis by blast
qed

lemma put_full:
  assumes ok: "store_ok s bs fl" and ob: "objects s p = Some ob"
    and r: "\<not> reuses s fl" and top: "unat (store_top s) = 2 ^ 31"
  shows "zend_objects_store_put p s = Inl UB_OUT_OF_BOUNDS"
proof -
  have fr: "(free_list_head s \<noteq> -1 \<and> \<not> no_reuse s) = False"
    using r free_chain_head [OF store_okD(6) [OF ok]] by (auto simp: reuses_def)
  have t: "store_top s = 0x80000000" using top by (simp add: word_unat_eq_iff)
  obtain s1 where "new_handle s = Inr (0x80000000, s1)" "objects s1 = objects s"
    unfolding new_handle_def fr if_False t by (cases "store_size s = 0x80000000") (auto simp: Let_def t)
  then show ?thesis using ob
    by (simp add: zend_objects_store_put_def change_object_def object_at_def)
qed

lemma zend_objects_store_put_spec:
  assumes ok: "store_ok s bs fl" and ob: "objects s p = Some ob" and v: "IS_OBJ_VALID p" and new: "\<forall>i. \<not> stored_at s i p"
  shows "if \<not> reuses s fl \<and> unat (store_top s) = 2 ^ 31 then zend_objects_store_put p s = Inl UB_OUT_OF_BOUNDS
    else \<exists>s'. zend_objects_store_put p s = Inr s' \<and> put_result s bs fl p ob s'"
  using put_reuse [OF ok ob v new] put_new [OF ok ob v new] put_full [OF ok ob] store_okD(5) [OF ok]
  by (auto simp: nat_less_le)

subsection \<open>The steps\<close>

text \<open>What may change in an object without the store noticing: its references, and flags that are set.\<close>

definition same_object :: "zend_object \<Rightarrow> zend_object \<Rightarrow> bool" where
  "same_object ob ob' \<longleftrightarrow> obj_handle ob' = obj_handle ob \<and>
     (obj_destructor_called ob \<longrightarrow> obj_destructor_called ob') \<and> (obj_free_called ob \<longrightarrow> obj_free_called ob')"

lemma same_object_refl [simp]: "same_object ob ob"
  by (simp add: same_object_def)

lemma same_object_trans: "same_object a b \<Longrightarrow> same_object b c \<Longrightarrow> same_object a c"
  by (simp add: same_object_def)

inductive store_step :: "obj_globals \<Rightarrow> obj_globals \<Rightarrow> bool" where
  step_alloc: "objects s p = None \<Longrightarrow> store_step s (s\<lparr>objects := (objects s)(p \<mapsto> ob)\<rparr>)"
| step_put: "objects s p = Some ob \<Longrightarrow> IS_OBJ_VALID p \<Longrightarrow> \<forall>i. \<not> stored_at s i p \<Longrightarrow>
    zend_objects_store_put p s = Inr s' \<Longrightarrow> store_step s s'"
| step_object: "objects s p = Some ob \<Longrightarrow> same_object ob ob' \<Longrightarrow>
    store_step s (s\<lparr>objects := (objects s)(p \<mapsto> ob')\<rparr>)"
| step_invalidate: "objects s p = Some ob \<Longrightarrow> obj_refcount ob = 0 \<Longrightarrow> stored_at s (unat (obj_handle ob)) p \<Longrightarrow>
    set_bucket (obj_handle ob) (SET_OBJ_INVALID p) s = Inr s' \<Longrightarrow> store_step s s'"
| step_free: "objects s p = Some ob \<Longrightarrow> bucket_at (obj_handle ob) s = Inr (SET_OBJ_INVALID p) \<Longrightarrow>
    1 \<le> unat (obj_handle ob) \<Longrightarrow> unat (obj_handle ob) < unat (store_top s) \<Longrightarrow>
    \<not> in_free_list s (unat (obj_handle ob)) \<Longrightarrow>
    ZEND_OBJECTS_STORE_ADD_TO_FREE_LIST (obj_handle ob) (s\<lparr>objects := (objects s)(p := None)\<rparr>) = Inr s' \<Longrightarrow>
    store_step s s'"
| step_call: "store_step s (s\<lparr>handler_calls := handler_calls s @ [c]\<rparr>)"
| step_no_reuse: "store_step s (s\<lparr>no_reuse := True\<rparr>)"

inductive_cases store_stepE: "store_step s s'"

abbreviation store_steps :: "obj_globals \<Rightarrow> obj_globals \<Rightarrow> bool" where
  "store_steps \<equiv> store_step\<^sup>*\<^sup>*"

text \<open>Lists of entries that change only outside the valid ones.\<close>

lemma entries_ok_cong:
  assumes "entries_ok obs n bs"
    and "\<And>i. 1 \<le> i \<Longrightarrow> i < n \<Longrightarrow> IS_OBJ_VALID (bs' ! i) \<Longrightarrow> bs' ! i = bs ! i \<and>
      (\<forall>ob. obs (bs ! i) = Some ob \<longrightarrow> (\<exists>ob'. obs' (bs ! i) = Some ob' \<and> obj_handle ob' = obj_handle ob))"
  shows "entries_ok obs' n bs'"
  using assms unfolding entries_ok_def by (metis atLeastLessThan_iff)

lemma store_ok_objects:
  assumes "store_ok s bs fl" "entries_ok obs (unat (store_top s)) bs"
  shows "store_ok (s\<lparr>objects := obs\<rparr>) bs fl"
  using assms by (simp add: store_ok_def)

lemma invalidate_ok:
  assumes ok: "store_ok s bs fl" and st: "stored_at s i p" and x: "\<not> IS_OBJ_VALID x"
  shows "store_ok (s\<lparr>object_buckets := Some (bs[i := x])\<rparr>) (bs[i := x]) fl"
proof -
  note D = store_okD [OF ok] and S = stored_atD [OF ok st]
  have "i \<notin> set fl"
  proof
    assume "i \<in> set fl"
    then show False using free_chain_invalid [OF D(6)] S by blast
  qed
  moreover have "entries_ok (objects s) (unat (store_top s)) (bs[i := x])"
    by (rule entries_ok_cong [OF D(9)]) (use x S(3) in \<open>auto simp: nth_list_update split: if_splits\<close>)
  ultimately show ?thesis using D by (simp add: store_ok_def free_chain_update)
qed

lemma free_ok:
  assumes ok: "store_ok s bs fl" and ob: "objects s p = Some ob" and b: "bucket_at (obj_handle ob) s = Inr (SET_OBJ_INVALID p)"
    and r: "1 \<le> unat (obj_handle ob)" "unat (obj_handle ob) < unat (store_top s)"
    and nf: "\<not> in_free_list s (unat (obj_handle ob))"
  defines "h \<equiv> obj_handle ob"
  defines "bs' \<equiv> bs[unat h := SET_OBJ_BUCKET_NUMBER (free_list_head s)]"
  shows "ZEND_OBJECTS_STORE_ADD_TO_FREE_LIST h (s\<lparr>objects := (objects s)(p := None)\<rparr>) =
      Inr (s\<lparr>objects := (objects s)(p := None), object_buckets := Some bs', free_list_head := h\<rparr>)"
    "store_ok (s\<lparr>objects := (objects s)(p := None), object_buckets := Some bs', free_list_head := h\<rparr>) bs' (unat h # fl)"
proof -
  note D = store_okD [OF ok]
  have len: "unat h < length bs" using r(2) D(4) by (simp add: h_def)
  show "ZEND_OBJECTS_STORE_ADD_TO_FREE_LIST h (s\<lparr>objects := (objects s)(p := None)\<rparr>) =
      Inr (s\<lparr>objects := (objects s)(p := None), object_buckets := Some bs', free_list_head := h\<rparr>)"
    using len D(1) by (simp add: ZEND_OBJECTS_STORE_ADD_TO_FREE_LIST_def set_bucket_def bs'_def)
  have nin: "unat h \<notin> set fl" using nf by (simp add: in_free_list_ok [OF ok] h_def)
  have bh: "bs ! unat h = SET_OBJ_INVALID p"
    using b len by (simp add: bucket_at_ok [OF ok] h_def)
  have "bs ! i \<noteq> p" if "1 \<le> i" "i < unat (store_top s)" "IS_OBJ_VALID (bs ! i)" for i
  proof
    assume "bs ! i = p"
    then have "unat h = i" using D(9) that ob by (auto simp: entries_ok_def h_def)
    then show False using that(3) bh by simp
  qed
  then have "entries_ok ((objects s)(p := None)) (unat (store_top s)) bs'"
    by (intro entries_ok_cong [OF D(9)]) (use len in \<open>auto simp: bs'_def nth_list_update split: if_splits\<close>)
  then show "store_ok (s\<lparr>objects := (objects s)(p := None), object_buckets := Some bs', free_list_head := h\<rparr>) bs' (unat h # fl)"
    using D r nin len by (auto simp: store_ok_def bs'_def free_chain_update h_def)
qed

theorem store_step_inv: "store_step s s' \<Longrightarrow> store_inv s \<Longrightarrow> store_inv s'"
proof (induction rule: store_step.induct)
  case (step_alloc s p ob)
  then obtain bs fl where ok: "store_ok s bs fl" by (auto simp: store_inv_def)
  have "entries_ok ((objects s)(p \<mapsto> ob)) (unat (store_top s)) bs"
    by (rule entries_ok_cong [OF store_okD(9) [OF ok]]) (use step_alloc in auto)
  then show ?case using store_ok_objects [OF ok] by (auto simp: store_inv_def)
next
  case (step_put s p ob s')
  then obtain bs fl where ok: "store_ok s bs fl" by (auto simp: store_inv_def)
  show ?case
    using zend_objects_store_put_spec [OF ok step_put(1,2,3)] step_put(4)
    by (auto simp: put_result_def store_inv_def split: if_splits)
next
  case (step_object s p ob ob')
  then obtain bs fl where ok: "store_ok s bs fl" by (auto simp: store_inv_def)
  have "entries_ok ((objects s)(p \<mapsto> ob')) (unat (store_top s)) bs"
    by (rule entries_ok_cong [OF store_okD(9) [OF ok]]) (use step_object in \<open>auto simp: same_object_def\<close>)
  then show ?case using store_ok_objects [OF ok] by (auto simp: store_inv_def)
next
  case (step_invalidate s p ob s')
  then obtain bs fl where ok: "store_ok s bs fl" by (auto simp: store_inv_def)
  show ?case
    using invalidate_ok [OF ok step_invalidate(3), of "SET_OBJ_INVALID p"] step_invalidate(4)
      set_bucket_ok [OF ok stored_atD(3) [OF ok step_invalidate(3)], of "SET_OBJ_INVALID p"]
    by (auto simp: store_inv_def)
next
  case (step_free s p ob s')
  then obtain bs fl where ok: "store_ok s bs fl" by (auto simp: store_inv_def)
  show ?case using free_ok [OF ok step_free(1-5)] step_free(6) by (auto simp: store_inv_def)
next
  case (step_call s c)
  then show ?case by (auto simp: store_inv_def store_ok_def)
next
  case (step_no_reuse s)
  then show ?case by (auto simp: store_inv_def store_ok_def)
qed

lemma store_steps_inv: "store_steps s s' \<Longrightarrow> store_inv s \<Longrightarrow> store_inv s'"
  by (induction rule: rtranclp_induct) (auto intro: store_step_inv)

end
