(* ===== verification/Zend_Objects_Calls.thy ===== *)
theory Zend_Objects_Calls
  imports Zend_Objects_Steps
begin

text \<open>
  Deleting an object and shutting the store down. The handlers are unknown code: they may do any steps
  of the store, on condition that a reference their caller holds stays, as it does for code that only
  gives up references of its own. That the object a handler is called on is not freed meanwhile is
  not assumed: it follows from the reference the callers take.
\<close>

subsection \<open>What handlers may do\<close>

text \<open>Memory for objects is aligned; a reference to the object \<open>p\<close> that has the handle \<open>h\<close>.\<close>

definition aligned :: "obj_globals \<Rightarrow> bool" where
  "aligned s \<longleftrightarrow> (\<forall>q. objects s q \<noteq> None \<longrightarrow> IS_OBJ_VALID q)"

definition referenced :: "pointer \<Rightarrow> u32 \<Rightarrow> obj_globals \<Rightarrow> bool" where
  "referenced p h s \<longleftrightarrow> (\<exists>ob. objects s p = Some ob \<and> obj_handle ob = h \<and> obj_refcount ob \<noteq> 0)"

definition held_step :: "pointer \<Rightarrow> u32 \<Rightarrow> obj_globals \<Rightarrow> obj_globals \<Rightarrow> bool" where
  "held_step p h s s' \<longleftrightarrow> store_step s s' \<and> aligned s' \<and> referenced p h s'"

abbreviation held_steps :: "pointer \<Rightarrow> u32 \<Rightarrow> obj_globals \<Rightarrow> obj_globals \<Rightarrow> bool" where
  "held_steps p h \<equiv> (held_step p h)\<^sup>*\<^sup>*"

definition handlers_ok :: "obj_handlers \<Rightarrow> bool" where
  "handlers_ok H \<longleftrightarrow> (\<forall>d p h s. store_inv s \<longrightarrow> aligned s \<longrightarrow> referenced p h s \<longrightarrow>
     (\<exists>s'. H d p s = Inr s' \<and> held_steps p h s s'))"

text \<open>An object with an entry of its own, valid or taken out while the object is being freed.\<close>

definition entered :: "pointer \<Rightarrow> u32 \<Rightarrow> pointer \<Rightarrow> obj_globals \<Rightarrow> bool" where
  "entered p h b s \<longleftrightarrow> store_inv s \<and> aligned s \<and> (b = p \<or> b = SET_OBJ_INVALID p) \<and> bucket_at h s = Inr b \<and>
     1 \<le> unat h \<and> unat h < unat (store_top s) \<and> \<not> in_free_list s (unat h) \<and>
     (\<exists>ob. objects s p = Some ob \<and> obj_handle ob = h)"

lemma enteredD:
  assumes "entered p h b s"
  shows "store_inv s" "aligned s" "b = p \<or> b = SET_OBJ_INVALID p" "bucket_at h s = Inr b" "1 \<le> unat h"
    "unat h < unat (store_top s)" "\<not> in_free_list s (unat h)" "\<exists>ob. objects s p = Some ob \<and> obj_handle ob = h"
  using assms unfolding entered_def by blast+

lemma valid_eq: "IS_OBJ_VALID p \<Longrightarrow> IS_OBJ_VALID q \<Longrightarrow> SET_OBJ_INVALID p = SET_OBJ_INVALID q \<Longrightarrow> p = q"
proof -
  assume v: "IS_OBJ_VALID p" "IS_OBJ_VALID q" and e: "SET_OBJ_INVALID p = SET_OBJ_INVALID q"
  show "p = q"
  proof (rule bit_word_eqI)
    fix k assume "k < LENGTH(64)"
    then show "bit p k = bit q k"
      using v arg_cong [OF e, of "\<lambda>x. bit x k"]
      by (cases "k = 0") (auto simp: bit_0_valid SET_OBJ_INVALID_def OBJ_BUCKET_INVALID_def bit_simps)
  qed
qed

text \<open>A step that leaves the reference leaves the object and its entry.\<close>

definition same_at :: "pointer \<Rightarrow> obj_globals \<Rightarrow> obj_globals \<Rightarrow> bool" where
  "same_at p s s' \<longleftrightarrow> (\<forall>ob. objects s p = Some ob \<longrightarrow> (\<exists>ob'. objects s' p = Some ob' \<and> same_object ob ob'))"

lemma same_at_refl [simp]: "same_at p s s"
  by (simp add: same_at_def)

lemma same_at_trans: "same_at p s s' \<Longrightarrow> same_at p s' s'' \<Longrightarrow> same_at p s s''"
  unfolding same_at_def using same_object_trans by blast

lemma entered_step:
  assumes e: "entered p h b s" and r: "referenced p h s" and st: "held_step p h s s'"
  shows "entered p h b s'" "same_at p s s'"
proof -
  note E = enteredD [OF e]
  from st have step: "store_step s s'" and al: "aligned s'" and r': "referenced p h s'" by (auto simp: held_step_def)
  obtain bs fl where ok: "store_ok s bs fl" using E(1) by (auto simp: store_inv_def)
  note D = store_okD [OF ok]
  obtain ob where ob: "objects s p = Some ob" "obj_handle ob = h" "obj_refcount ob \<noteq> 0" using r by (auto simp: referenced_def)
  have v: "IS_OBJ_VALID p" using E(2) ob(1) by (simp add: aligned_def)
  have len: "unat h < length bs" using E(6) D(4) by simp
  have bh: "bs ! unat h = b" using E(4) bucket_at_ok [OF ok len] by simp
  have nf: "unat h \<notin> set fl" using E(7) in_free_list_ok [OF ok] by simp
  have inv': "store_inv s'" by (rule store_step_inv [OF step E(1)])
  have "bucket_at h s' = Inr b \<and> unat h < unat (store_top s') \<and> \<not> in_free_list s' (unat h) \<and> same_at p s s'"
    using step
  proof cases
    case (step_put q qb)
    from zend_objects_store_put_spec [OF ok step_put(1-3)] step_put(4)
    have pr: "put_result s bs fl q qb s'" by (auto split: if_splits)
    then obtain bs' where b': "store_ok s' bs' (if reuses s fl then tl fl else fl)"
        "\<forall>i < unat (store_top s). i \<noteq> next_handle s fl \<longrightarrow> bs' ! i = bs ! i"
        "objects s' = (objects s)(q \<mapsto> qb\<lparr>obj_handle := of_nat (next_handle s fl)\<rparr>)"
        "unat (store_top s') = (if reuses s fl then unat (store_top s) else unat (store_top s) + 1)"
      by (auto simp: put_result_def)
    have nh: "next_handle s fl \<noteq> unat h"
    proof (cases "reuses s fl")
      case True
      then have "hd fl \<in> set fl" by (simp add: reuses_def)
      then show ?thesis using nf True by (auto simp: next_handle_def)
    qed (use E(6) in \<open>simp add: next_handle_def\<close>)
    have small: "next_handle s fl < 2 ^ 32"
    proof (cases "reuses s fl")
      case True
      then have "hd fl \<in> {1..<unat (store_top s)}" by (intro subsetD [OF D(8)] hd_in_set) (simp add: reuses_def)
      then show ?thesis using D(5) True by (simp add: next_handle_def)
    qed (use D(5) in \<open>simp add: next_handle_def\<close>)
    have "unat (of_nat (next_handle s fl) :: u32) = next_handle s fl"
      using small by (simp add: unat_of_nat)
    then have "q \<noteq> p" using r' b'(3) nh by (auto simp: referenced_def)
    then have "same_at p s s'" using b'(3) by (simp add: same_at_def)
    moreover have "bucket_at h s' = Inr b"
    proof -
      have "unat h < length bs'" using store_okD(4) [OF b'(1)] b'(4) E(6) by (auto split: if_splits)
      then show ?thesis using bucket_at_ok [OF b'(1)] b'(2) E(6) nh bh by simp
    qed
    moreover have "unat h \<notin> set (if reuses s fl then tl fl else fl)" using nf list.set_sel(2) [of fl] by (cases fl) auto
    ultimately show ?thesis using b'(4) E(6) in_free_list_ok [OF b'(1)] by (simp split: if_splits)
  next
    case (step_invalidate q qb)
    have sb: "s' = s\<lparr>object_buckets := Some (bs[unat (obj_handle qb) := SET_OBJ_INVALID q])\<rparr>"
      using step_invalidate(4) set_bucket_ok [OF ok stored_atD(3) [OF ok step_invalidate(3)], of "SET_OBJ_INVALID q"] by simp
    have "unat (obj_handle qb) \<noteq> unat h"
    proof
      assume a: "unat (obj_handle qb) = unat h"
      then have "b = q" "IS_OBJ_VALID q" using stored_atD(2,4) [OF ok step_invalidate(3)] bh by simp_all
      then have "q = p" using E(3) by auto
      then show False using step_invalidate(1,2) ob by simp
    qed
    moreover have "\<not> in_free_list s' (unat h)"
      using invalidate_ok [OF ok step_invalidate(3), of "SET_OBJ_INVALID q"] nf by (simp add: sb in_free_list_ok)
    ultimately show ?thesis using E(6) len bh by (simp add: sb bucket_at_def same_at_def)
  next
    case (step_free q qb)
    have s': "s' = s\<lparr>objects := (objects s)(q := None),
        object_buckets := Some (bs[unat (obj_handle qb) := SET_OBJ_BUCKET_NUMBER (free_list_head s)]),
        free_list_head := obj_handle qb\<rparr>"
      using step_free(6) free_ok(1) [OF ok step_free(1-5)] by simp
    have qp: "q \<noteq> p" using r' by (auto simp: s' referenced_def)
    have "unat (obj_handle qb) \<noteq> unat h"
    proof
      assume "unat (obj_handle qb) = unat h"
      then have "b = SET_OBJ_INVALID q" using step_free(2) E(4) by (simp add: word_unat_eq_iff [symmetric])
      moreover have "IS_OBJ_VALID q" using E(2) step_free(1) by (simp add: aligned_def)
      ultimately show False using E(3) v qp valid_eq [of q p] by auto
    qed
    moreover have "\<not> in_free_list s' (unat h)"
      using calculation free_ok(2) [OF ok step_free(1-5)] nf by (simp add: s' in_free_list_ok)
    ultimately show ?thesis using E(6) len bh qp by (simp add: s' bucket_at_def same_at_def)
  qed (use E ob in \<open>auto simp: bucket_at_def in_free_list_def same_at_def\<close>)
  then show "entered p h b s'" "same_at p s s'"
    using inv' al E(3,5) r' by (auto simp: entered_def referenced_def)
qed

lemma held_steps_entered:
  assumes "held_steps p h s s'" "entered p h b s" "referenced p h s"
  shows "store_steps s s' \<and> entered p h b s' \<and> same_at p s s' \<and> referenced p h s'"
  using assms
proof (induction rule: rtranclp_induct)
  case (step s1 s2)
  then have k: "store_steps s s1" "entered p h b s1" "same_at p s s1" "referenced p h s1" by blast+
  note es = entered_step [OF k(2,4) step.hyps(2)]
  show ?case using k es step.hyps(2) same_at_trans by (auto simp: held_step_def intro: rtranclp.rtrancl_into_rtrancl)
qed simp

text \<open>A handler that is called on an object with a reference.\<close>

lemma handler_entered:
  assumes "handlers_ok H" "entered p h b s" "objects s p = Some ob" "obj_refcount ob \<noteq> 0"
  obtains s' ob' where "H d p s = Inr s'" "store_steps s s'" "entered p h b s'" "objects s' p = Some ob'"
    "same_object ob ob'" "obj_refcount ob' \<noteq> 0"
proof -
  have r: "referenced p h s" using enteredD(8) [OF assms(2)] assms(3,4) by (auto simp: referenced_def)
  obtain s' where s': "H d p s = Inr s'" "held_steps p h s s'"
    using assms(1) enteredD(1,2) [OF assms(2)] r unfolding handlers_ok_def by blast
  note k = held_steps_entered [OF s'(2) assms(2) r]
  then obtain ob' where "objects s' p = Some ob'" "same_object ob ob'" using assms(3) by (auto simp: same_at_def)
  then show ?thesis using that s'(1) k by (auto simp: referenced_def)
qed

lemma entered_object:
  assumes "entered p h b s" "objects s p = Some ob" "same_object ob ob'"
  shows "entered p h b (s\<lparr>objects := (objects s)(p \<mapsto> ob')\<rparr>)" "store_step s (s\<lparr>objects := (objects s)(p \<mapsto> ob')\<rparr>)"
proof -
  show st: "store_step s (s\<lparr>objects := (objects s)(p \<mapsto> ob')\<rparr>)" by (rule step_object [OF assms(2,3)])
  show "entered p h b (s\<lparr>objects := (objects s)(p \<mapsto> ob')\<rparr>)"
    using enteredD [OF assms(1)] store_step_inv [OF st] assms(2,3)
    by (auto simp: entered_def aligned_def bucket_at_def in_free_list_def same_object_def)
qed

lemma entered_call:
  assumes "entered p h b s"
  shows "entered p h b (s\<lparr>handler_calls := handler_calls s @ [c]\<rparr>)"
  using enteredD [OF assms] store_step_inv [OF step_call, of s c]
  by (simp add: entered_def aligned_def bucket_at_def in_free_list_def)

text \<open>The state a handler is called in, and the reference given back after it.\<close>

definition calling :: "obj_handler \<Rightarrow> pointer \<Rightarrow> zend_object \<Rightarrow> obj_globals \<Rightarrow> obj_globals" where
  "calling d p ob s = s\<lparr>objects := (objects s)(p \<mapsto> ob\<lparr>obj_refcount := obj_refcount ob + 1\<rparr>),
     handler_calls := handler_calls s @ [(d, p)]\<rparr>"

definition given_back :: "pointer \<Rightarrow> zend_object \<Rightarrow> obj_globals \<Rightarrow> obj_globals" where
  "given_back p ob s = s\<lparr>objects := (objects s)(p \<mapsto> ob\<lparr>obj_refcount := obj_refcount ob - 1\<rparr>)\<rparr>"

lemma call_handler_spec:
  assumes H: "handlers_ok H" and e: "entered p h b s" and ob: "objects s p = Some ob" "obj_refcount ob + 1 \<noteq> 0"
  obtains s2 ob2 where "H d p (calling d p ob s) = Inr s2" "objects s2 p = Some ob2" "obj_refcount ob2 \<noteq> 0"
    "same_object ob ob2" "call_handler H d p s = Inr (given_back p ob2 s2)"
    "store_steps s (given_back p ob2 s2)" "entered p h b (given_back p ob2 s2)"
    "store_steps (calling d p ob s) s2" "store_inv (calling d p ob s)"
proof -
  let ?up = "ob\<lparr>obj_refcount := obj_refcount ob + 1\<rparr>"
  let ?s1 = "s\<lparr>objects := (objects s)(p \<mapsto> ?up)\<rparr>"
  have so: "same_object ob ?up" by (simp add: same_object_def)
  have c: "calling d p ob s = ?s1\<lparr>handler_calls := handler_calls ?s1 @ [(d, p)]\<rparr>" by (simp add: calling_def)
  have e1: "entered p h b (calling d p ob s)" unfolding c by (rule entered_call [OF entered_object(1) [OF e ob(1) so]])
  have st1: "store_steps s (calling d p ob s)"
    unfolding c using entered_object(2) [OF e ob(1) so] step_call [of ?s1 "(d, p)"] by (meson r_into_rtranclp rtranclp.rtrancl_into_rtrancl)
  have o1: "objects (calling d p ob s) p = Some ?up" by (simp add: calling_def)
  obtain s2 ob2 where h: "H d p (calling d p ob s) = Inr s2" "store_steps (calling d p ob s) s2" "entered p h b s2"
      "objects s2 p = Some ob2" "same_object ?up ob2" "obj_refcount ob2 \<noteq> 0"
    by (rule handler_entered [OF H e1 o1, of d]) (use ob(2) in auto)
  have so2: "same_object ob2 (ob2\<lparr>obj_refcount := obj_refcount ob2 - 1\<rparr>)" by (simp add: same_object_def)
  have run: "call_handler H d p s = Inr (given_back p ob2 s2)"
    using ob(1) h(1,4) by (simp add: call_handler_def change_object_def object_at_def given_back_def calling_def)
  have st: "store_steps s (given_back p ob2 s2)"
    using st1 h(2) entered_object(2) [OF h(3,4) so2] unfolding given_back_def
    by (meson rtranclp.rtrancl_into_rtrancl rtranclp_trans)
  have e2: "entered p h b (given_back p ob2 s2)" unfolding given_back_def by (rule entered_object(1) [OF h(3,4) so2])
  show ?thesis
    by (rule that [OF h(1,4,6) same_object_trans [OF so h(5)] run st e2 h(2) enteredD(1) [OF e1]])
qed

text \<open>Calls are only added to the log.\<close>

lemma frame_calls:
  "new_handle s = Inr (h, s') \<Longrightarrow> handler_calls s' = handler_calls s"
  "change_object p f s = Inr s' \<Longrightarrow> handler_calls s' = handler_calls s"
  "set_bucket h p s = Inr s' \<Longrightarrow> handler_calls s' = handler_calls s"
  by (auto simp: new_handle_def change_object_def set_bucket_def Let_def res_bind_Inr_iff split: option.splits if_splits)

lemma store_step_calls:
  assumes "store_step s s'"
  shows "\<exists>l. handler_calls s' = handler_calls s @ l"
  using assms
proof cases
  case (step_put p ob)
  then have "handler_calls s' = handler_calls s"
    by (auto simp: zend_objects_store_put_def res_bind_Inr_iff dest!: frame_calls split: if_splits)
  then show ?thesis by simp
next
  case (step_invalidate p ob)
  then have "handler_calls s' = handler_calls s" by (auto dest: frame_calls(3))
  then show ?thesis by simp
next
  case (step_free p ob)
  then have "handler_calls s' = handler_calls s"
    by (auto simp: ZEND_OBJECTS_STORE_ADD_TO_FREE_LIST_def res_bind_Inr_iff dest!: frame_calls(3))
  then show ?thesis by simp
qed auto

lemma store_steps_calls: "store_steps s s' \<Longrightarrow> \<exists>l. handler_calls s' = handler_calls s @ l"
proof (induction rule: rtranclp_induct)
  case (step s1 s2)
  then show ?case using store_step_calls [OF step.hyps(2)] by auto
qed simp

lemma steps_top: "store_steps s s' \<Longrightarrow> store_inv s \<Longrightarrow> store_top s \<le> store_top s'"
proof (induction rule: rtranclp_induct)
  case (step s1 s2)
  have inv: "store_inv s1" using step.hyps(1) step.prems by (rule store_steps_inv)
  from step.hyps(2) have "store_top s1 \<le> store_top s2"
  proof cases
    case (step_put p ob)
    obtain bs fl where ok: "store_ok s1 bs fl" using inv by (auto simp: store_inv_def)
    show ?thesis using zend_objects_store_put_spec [OF ok step_put(1-3)] step_put(4)
      by (auto simp: put_result_def word_le_nat_alt split: if_splits)
  qed (auto simp: set_bucket_def ZEND_OBJECTS_STORE_ADD_TO_FREE_LIST_def split: option.splits if_splits)
  then show ?case using step by simp
qed simp

subsection \<open>Deleting an object\<close>

text \<open>
  Handlers that keep the store below \<open>n\<close> entries and every reference count below \<open>2 ^ 31\<close>, where the
  reference held for the call is not counted.
\<close>

definition in_bounds :: "nat \<Rightarrow> pointer set \<Rightarrow> obj_globals \<Rightarrow> bool" where
  "in_bounds n P s \<longleftrightarrow> unat (store_top s) \<le> n \<and>
     (\<forall>q ob. objects s q = Some ob \<longrightarrow> unat (obj_refcount ob) < 2 ^ 31 + (if q \<in> P then 1 else 0))"

definition bounded_handlers :: "obj_handlers \<Rightarrow> nat \<Rightarrow> bool" where
  "bounded_handlers H n \<longleftrightarrow> (\<forall>d p s s'. in_bounds n {p} s \<longrightarrow> H d p s = Inr s' \<longrightarrow> in_bounds n {p} s')"

lemma in_bounds_object:
  "in_bounds n {} s \<Longrightarrow> objects s p = Some ob \<Longrightarrow> obj_refcount ob' = obj_refcount ob \<Longrightarrow>
   in_bounds n {} (s\<lparr>objects := (objects s)(p \<mapsto> ob')\<rparr>)"
  by (auto simp: in_bounds_def)

lemma in_bounds_call:
  assumes H: "bounded_handlers H n" and b: "in_bounds n {} s" and ob: "objects s p = Some ob" "obj_refcount ob' = obj_refcount ob"
    and run: "H d p (calling d p ob' s) = Inr s2" and ob2: "objects s2 p = Some ob2" "obj_refcount ob2 \<noteq> 0"
  shows "in_bounds n {} (given_back p ob2 s2)"
proof -
  have c: "unat (obj_refcount ob) < 2 ^ 31" using b ob(1) by (auto simp: in_bounds_def)
  then have "unat (obj_refcount ob) + 1 < 2 ^ 32" by simp
  then have "unat (obj_refcount ob + 1) = unat (obj_refcount ob) + 1" by (simp add: unat_word_ariths)
  then have "in_bounds n {p} (calling d p ob' s)" using b c ob(2) by (auto simp: in_bounds_def calling_def)
  then have i2: "in_bounds n {p} s2" using H run unfolding bounded_handlers_def by blast
  have "unat (obj_refcount ob2 - 1) = unat (obj_refcount ob2) - 1" using ob2(2) by (simp add: unat_minus_one)
  moreover have "unat (obj_refcount ob2) < 2 ^ 31 + 1" using i2 ob2(1) unfolding in_bounds_def by fastforce
  moreover have "unat (obj_refcount ob2) \<noteq> 0" using ob2(2) by (simp add: unat_eq_zero)
  moreover have "unat (obj_refcount qb) < 2 ^ 31" if "q \<noteq> p" "objects s2 q = Some qb" for q qb
    using i2 that unfolding in_bounds_def by fastforce
  moreover have "unat (store_top s2) \<le> n" using i2 by (simp add: in_bounds_def)
  ultimately show ?thesis by (auto simp: in_bounds_def given_back_def)
qed

subsection \<open>Destructor and free handler\<close>

text \<open>
  The destructor of an object, if there is one to call: not the standard one of a class without a
  destructor of its own.
\<close>

definition owed_destructor :: "zend_object \<Rightarrow> obj_handler option" where
  "owed_destructor ob =
     (if dtor_obj ob = Some ZEND_OBJECTS_DESTROY_OBJECT \<and> \<not> ce_destructor ob then None else dtor_obj ob)"

lemma destructor_of_owed: "destructor_of ob = owed_destructor ob"
  by (auto simp: destructor_of_def owed_destructor_def split: option.split)

definition destructed :: "obj_globals \<Rightarrow> pointer \<Rightarrow> bool" where
  "destructed s p \<longleftrightarrow> (\<exists>ob. objects s p = Some ob \<and> obj_destructor_called ob)"

lemma destructed_same: "destructed s p \<Longrightarrow> same_at p s s' \<Longrightarrow> destructed s' p"
  by (auto simp: destructed_def same_at_def same_object_def)

text \<open>
  What destroying the object leaves: only the mark, or what the destructor leaves that is called on
  the marked object with one reference more, less that reference.
\<close>

definition marked :: "pointer \<Rightarrow> zend_object \<Rightarrow> obj_globals \<Rightarrow> obj_globals" where
  "marked p ob s = s\<lparr>objects := (objects s)(p \<mapsto> ob\<lparr>obj_destructor_called := True\<rparr>)\<rparr>"

definition after_destructor :: "obj_handlers \<Rightarrow> pointer \<Rightarrow> zend_object \<Rightarrow> obj_globals \<Rightarrow> obj_globals \<Rightarrow> bool" where
  "after_destructor H p ob s s' \<longleftrightarrow>
     (case if obj_destructor_called ob then None else owed_destructor ob of
        None \<Rightarrow> s' = marked p ob s
      | Some d \<Rightarrow> \<exists>s2 ob2. H d p (calling d p (ob\<lparr>obj_destructor_called := True\<rparr>) s) = Inr s2 \<and>
          objects s2 p = Some ob2 \<and> obj_refcount ob2 \<noteq> 0 \<and> s' = given_back p ob2 s2)"

lemma calling_marked: "calling d p ob' (marked p ob s) = calling d p ob' s"
  by (simp add: calling_def marked_def)

lemma marked_same: "objects s p = Some ob \<Longrightarrow> obj_destructor_called ob \<Longrightarrow> marked p ob s = s"
  by (simp add: marked_def fun_upd_idem)

lemma run_destructor_spec:
  assumes H: "handlers_ok H" and e: "entered p h b s" and ob: "objects s p = Some ob" "obj_refcount ob + 1 \<noteq> 0"
  shows "\<exists>s'. run_destructor H p s = Inr s' \<and> after_destructor H p ob s s' \<and> store_steps s s' \<and>
     entered p h b s' \<and> destructed s' p \<and> same_at p s s' \<and>
     (\<forall>n. bounded_handlers H n \<longrightarrow> in_bounds n {} s \<longrightarrow> in_bounds n {} s')"
proof (cases "if obj_destructor_called ob then None else owed_destructor ob")
  case None
  have so: "same_object ob (ob\<lparr>obj_destructor_called := True\<rparr>)" by (simp add: same_object_def)
  note eo = entered_object [OF e ob(1) so]
  have "run_destructor H p s = Inr (marked p ob s)"
    using None ob(1) marked_same [of s p ob]
    by (auto simp: run_destructor_def object_at_def change_object_def destructor_of_owed marked_def split: if_splits)
  then show ?thesis using None eo so ob(1) in_bounds_object [OF _ ob(1), of _ "ob\<lparr>obj_destructor_called := True\<rparr>"]
    by (auto simp: after_destructor_def marked_def destructed_def same_at_def)
next
  case (Some d)
  let ?ob = "ob\<lparr>obj_destructor_called := True\<rparr>"
  have d: "\<not> obj_destructor_called ob" "owed_destructor ob = Some d" using Some by (simp_all split: if_splits)
  have so: "same_object ob ?ob" by (simp add: same_object_def)
  note eo = entered_object [OF e ob(1) so, folded marked_def]
  have om: "objects (marked p ob s) p = Some ?ob" by (simp add: marked_def)
  obtain s2 ob2 where c: "H d p (calling d p ?ob s) = Inr s2" "objects s2 p = Some ob2" "obj_refcount ob2 \<noteq> 0"
    "same_object ?ob ob2" "call_handler H d p (marked p ob s) = Inr (given_back p ob2 s2)"
    "store_steps (marked p ob s) (given_back p ob2 s2)" "entered p h b (given_back p ob2 s2)"
    by (rule call_handler_spec [OF H eo(1) om, of d, unfolded calling_marked]) (use ob(2) in auto)
  have "run_destructor H p s = Inr (given_back p ob2 s2)"
    using d ob(1) c(5) by (simp add: run_destructor_def object_at_def change_object_def destructor_of_owed marked_def)
  moreover have "after_destructor H p ob s (given_back p ob2 s2)"
    using Some c(1-3) by (auto simp: after_destructor_def)
  moreover have "store_steps s (given_back p ob2 s2)" using eo(2) c(6) by (meson converse_rtranclp_into_rtranclp)
  moreover have "destructed (given_back p ob2 s2) p" using c(4) by (simp add: destructed_def given_back_def same_object_def)
  moreover have "same_at p s (given_back p ob2 s2)"
    using c(4) ob(1) by (simp add: same_at_def given_back_def same_object_def)
  moreover have "in_bounds n {} (given_back p ob2 s2)" if "bounded_handlers H n" "in_bounds n {} s" for n
    by (rule in_bounds_call [OF that ob(1) _ c(1-3)]) simp
  ultimately show ?thesis using c(7) by blast
qed

lemma run_free_spec:
  assumes H: "handlers_ok H" and e: "entered p h b s" and ob: "objects s p = Some ob" "obj_refcount ob + 1 \<noteq> 0"
  shows "\<exists>s' l. run_free H fast p s = Inr s' \<and> store_steps s s' \<and> entered p h b s' \<and>
     handler_calls s' = handler_calls s @ l \<and>
     (\<forall>f. \<not> obj_free_called ob \<longrightarrow> free_obj ob = Some f \<longrightarrow> \<not> (fast \<and> f = ZEND_OBJECT_STD_DTOR) \<longrightarrow> (f, p) \<in> set l) \<and>
     (\<forall>n. bounded_handlers H n \<longrightarrow> in_bounds n {} s \<longrightarrow> in_bounds n {} s')"
proof (cases "obj_free_called ob")
  case True
  then show ?thesis using ob(1) e by (auto simp: run_free_def object_at_def)
next
  case False
  let ?ob = "ob\<lparr>obj_free_called := True\<rparr>"
  let ?s = "s\<lparr>objects := (objects s)(p \<mapsto> ?ob)\<rparr>"
  have so: "same_object ob ?ob" by (simp add: same_object_def)
  note eo = entered_object [OF e ob(1) so]
  show ?thesis
  proof (cases "\<exists>f. free_obj ob = Some f \<and> \<not> (fast \<and> f = ZEND_OBJECT_STD_DTOR)")
    case no: False
    then have "run_free H fast p s = Inr ?s"
      using False ob(1) by (auto simp: run_free_def object_at_def change_object_def split: option.split)
    then show ?thesis using eo no in_bounds_object [OF _ ob(1), of _ ?ob]
      by (intro exI [of _ ?s] exI [of _ "[]"]) auto
  next
    case True
    then obtain f where f: "free_obj ob = Some f" "\<not> (fast \<and> f = ZEND_OBJECT_STD_DTOR)" by blast
    have om: "objects ?s p = Some ?ob" by simp
    obtain s2 ob2 where c: "call_handler H f p ?s = Inr (given_back p ob2 s2)"
      "store_steps ?s (given_back p ob2 s2)" "entered p h b (given_back p ob2 s2)"
      "store_steps (calling f p ?ob ?s) s2" "H f p (calling f p ?ob ?s) = Inr s2" "objects s2 p = Some ob2"
      "obj_refcount ob2 \<noteq> 0"
      by (rule call_handler_spec [OF H eo(1) om, of f]) (use ob(2) in auto)
    have "run_free H fast p s = Inr (given_back p ob2 s2)"
      using False ob(1) f c(1) by (auto simp: run_free_def object_at_def change_object_def)
    moreover have "store_steps s (given_back p ob2 s2)" using eo(2) c(2) by (meson converse_rtranclp_into_rtranclp)
    moreover obtain l where "handler_calls s2 = handler_calls (calling f p ?ob ?s) @ l" using store_steps_calls [OF c(4)] by blast
    then have "handler_calls (given_back p ob2 s2) = handler_calls s @ (f, p) # l" by (simp add: given_back_def calling_def)
    moreover have "in_bounds n {} (given_back p ob2 s2)" if "bounded_handlers H n" "in_bounds n {} s" for n
      by (rule in_bounds_call [OF that(1) in_bounds_object [OF that(2) ob(1)] om _ c(5-7)]) simp_all
    ultimately show ?thesis using c(3) f by (intro exI [of _ "given_back p ob2 s2"] exI [of _ "(f, p) # l"]) auto
  qed
qed

subsection \<open>Deleting an object\<close>

lemma stored_entered:
  assumes "store_inv s" "aligned s" "objects s p = Some ob" "stored_at s (unat (obj_handle ob)) p"
  shows "entered p (obj_handle ob) p s"
proof -
  obtain bs fl where ok: "store_ok s bs fl" using assms(1) by (auto simp: store_inv_def)
  note S = stored_atD [OF ok assms(4)]
  have "unat (obj_handle ob) \<notin> set fl"
  proof
    assume "unat (obj_handle ob) \<in> set fl"
    then show False using free_chain_invalid [OF store_okD(6) [OF ok]] S by blast
  qed
  then show ?thesis
    using assms S bucket_at_ok [OF ok S(3)] by (simp add: entered_def in_free_list_ok [OF ok])
qed

lemma entered_stored:
  assumes "entered p h p s"
  shows "stored_at s (unat h) p"
proof -
  note E = enteredD [OF assms]
  obtain bs fl where ok: "store_ok s bs fl" using E(1) by (auto simp: store_inv_def)
  have "unat h < length bs" using E(6) store_okD(4) [OF ok] by simp
  then have "bs ! unat h = p" using E(4) bucket_at_ok [OF ok] by simp
  moreover have "IS_OBJ_VALID p" using E(2,8) by (auto simp: aligned_def)
  ultimately show ?thesis using E(5,6) by (simp add: stored_at_ok [OF ok])
qed

text \<open>The object is gone, its handle the first to be used again, and its free handler was called.\<close>

definition freed :: "pointer \<Rightarrow> zend_object \<Rightarrow> obj_globals \<Rightarrow> obj_globals \<Rightarrow> bool" where
  "freed p ob s s' \<longleftrightarrow> objects s' p = None \<and> free_list_head s' = obj_handle ob \<and>
     in_free_list s' (unat (obj_handle ob)) \<and> (\<exists>l. handler_calls s' = handler_calls s @ l \<and>
       (\<forall>f. \<not> obj_free_called ob \<longrightarrow> free_obj ob = Some f \<longrightarrow> (f, p) \<in> set l))"

lemma free_object_spec:
  assumes H: "handlers_ok H" and e: "entered p h p s" and ob: "objects s p = Some ob" "obj_refcount ob = 0"
  shows "\<exists>s'. free_object H p h s = Inr s' \<and> store_steps s s' \<and> freed p ob s s'"
proof -
  note E = enteredD [OF e]
  have h: "obj_handle ob = h" using E(8) ob(1) by simp
  obtain bs fl where ok: "store_ok s bs fl" using E(1) by (auto simp: store_inv_def)
  have st: "stored_at s (unat (obj_handle ob)) p" using entered_stored [OF e] h by simp
  note S = stored_atD [OF ok st]
  define s1 where "s1 = s\<lparr>object_buckets := Some (bs[unat h := SET_OBJ_INVALID p])\<rparr>"
  have b1: "set_bucket h (SET_OBJ_INVALID p) s = Inr s1"
    using set_bucket_ok [OF ok S(3)] h by (simp add: s1_def)
  have st1: "store_step s s1" by (rule step_invalidate [OF ob st b1 [folded h]])
  have ok1: "store_ok s1 (bs[unat h := SET_OBJ_INVALID p]) fl"
    using invalidate_ok [OF ok st, of "SET_OBJ_INVALID p"] h by (simp add: s1_def)
  have e1: "entered p h (SET_OBJ_INVALID p) s1"
    using E S(3) h ok1 in_free_list_ok [OF ok] in_free_list_ok [OF ok1]
    by (auto simp: entered_def store_inv_def aligned_def bucket_at_def s1_def)
  have o1: "objects s1 p = Some ob" using ob by (simp add: s1_def)
  obtain s2 l where s2: "run_free H False p s1 = Inr s2" "store_steps s1 s2" "entered p h (SET_OBJ_INVALID p) s2"
    "handler_calls s2 = handler_calls s1 @ l" "\<forall>f. \<not> obj_free_called ob \<longrightarrow> free_obj ob = Some f \<longrightarrow> (f, p) \<in> set l"
    using run_free_spec [OF H e1 o1, of False] ob(2) by auto
  note E2 = enteredD [OF s2(3)]
  obtain ob2 where ob2: "objects s2 p = Some ob2" "obj_handle ob2 = h" using E2(8) by blast
  obtain bs2 fl2 where ok2: "store_ok s2 bs2 fl2" using E2(1) by (auto simp: store_inv_def)
  note fr = free_ok [OF ok2 ob2(1), unfolded ob2(2), OF E2(4-7)]
  define s' where "s' = s2\<lparr>objects := (objects s2)(p := None),
     object_buckets := Some (bs2[unat h := SET_OBJ_BUCKET_NUMBER (free_list_head s2)]), free_list_head := h\<rparr>"
  have run: "free_object H p h s = Inr s'" using b1 s2(1) fr(1) by (simp add: free_object_def s'_def)
  have "store_step s2 s'"
    by (rule step_free [OF ob2(1), unfolded ob2(2), OF E2(4-7)]) (use fr(1) in \<open>simp add: s'_def\<close>)
  then have "store_steps s s'" using st1 s2(2) by (meson converse_rtranclp_into_rtranclp rtranclp.rtrancl_into_rtrancl)
  moreover have "in_free_list s' (unat h)" using in_free_list_ok [OF fr(2)] by (simp add: s'_def)
  ultimately show ?thesis using run s2(4,5) h by (auto simp: freed_def s'_def s1_def)
qed

lemma zend_objects_store_del_spec:
  assumes H: "handlers_ok H" and e: "entered p h p s" and ob: "objects s p = Some ob"
  shows "if obj_refcount ob \<noteq> 0 then zend_objects_store_del H p s = Inr (given_back p ob s) \<and> store_steps s (given_back p ob s)
     else \<exists>s1 ob1 s'. after_destructor H p ob s s1 \<and> objects s1 p = Some ob1 \<and> obj_destructor_called ob1 \<and>
       obj_handle ob1 = obj_handle ob \<and> stored_at s1 (unat (obj_handle ob)) p \<and>
       zend_objects_store_del H p s = Inr s' \<and> store_steps s s' \<and> (if obj_refcount ob1 = 0 then freed p ob1 s1 s' else s' = s1)"
proof -
  note E = enteredD [OF e]
  have h: "obj_handle ob = h" using E(8) ob by simp
  obtain bs fl where ok: "store_ok s bs fl" using E(1) by (auto simp: store_inv_def)
  have some: "object_buckets s = Some bs" using store_okD(1) [OF ok] .
  have v: "IS_OBJ_VALID p" using E(2) ob by (auto simp: aligned_def)
  show ?thesis
  proof (cases "obj_refcount ob = 0")
    case False
    then have "zend_objects_store_del H p s = Inr (given_back p ob s)"
      using some E(4) v ob h by (simp add: zend_objects_store_del_def object_at_def change_object_def given_back_def)
    then show ?thesis using False step_object [OF ob, of "ob\<lparr>obj_refcount := obj_refcount ob - 1\<rparr>"]
      by (auto simp: same_object_def given_back_def)
  next
    case True
    obtain s1 where s1: "run_destructor H p s = Inr s1" "after_destructor H p ob s s1" "store_steps s s1"
      "entered p h p s1" "destructed s1 p"
      using run_destructor_spec [OF H e ob] True by auto
    obtain ob1 where ob1: "objects s1 p = Some ob1" "obj_handle ob1 = h" "obj_destructor_called ob1"
      using enteredD(8) [OF s1(4)] s1(5) by (auto simp: destructed_def)
    have run: "zend_objects_store_del H p s = (if obj_refcount ob1 = 0 then free_object H p h s1 else Inr s1)"
      using some E(4) v ob h True s1(1) ob1 by (simp add: zend_objects_store_del_def object_at_def)
    obtain s' where s': "zend_objects_store_del H p s = Inr s'" "store_steps s s'"
        "if obj_refcount ob1 = 0 then freed p ob1 s1 s' else s' = s1"
      using free_object_spec [OF H s1(4) ob1(1)] run s1(3) by (cases "obj_refcount ob1 = 0") (auto intro: rtranclp_trans)
    have "\<exists>s1 ob1 s'. after_destructor H p ob s s1 \<and> objects s1 p = Some ob1 \<and> obj_destructor_called ob1 \<and>
       obj_handle ob1 = obj_handle ob \<and> stored_at s1 (unat (obj_handle ob)) p \<and>
       zend_objects_store_del H p s = Inr s' \<and> store_steps s s' \<and> (if obj_refcount ob1 = 0 then freed p ob1 s1 s' else s' = s1)"
      by (rule exI [of _ s1], rule exI [of _ ob1], rule exI [of _ s'])
        (use s' s1(2) ob1 h entered_stored [OF s1(4)] in simp)
    then show ?thesis using True by simp
  qed
qed

subsection \<open>Calling all destructors\<close>

text \<open>
  Without reuse of handles an entry that is valid was valid before, with the same object, unless it
  is behind the old top.
\<close>

definition old_entries :: "obj_globals \<Rightarrow> obj_globals \<Rightarrow> bool" where
  "old_entries s s' \<longleftrightarrow> no_reuse s' \<and> store_top s \<le> store_top s' \<and>
     (\<forall>i p. i < unat (store_top s) \<longrightarrow> stored_at s' i p \<longrightarrow> stored_at s i p \<and>
        (\<forall>ob. objects s p = Some ob \<longrightarrow> (\<exists>ob'. objects s' p = Some ob' \<and> same_object ob ob')))"

lemma old_entriesD:
  assumes "old_entries s s'" "i < unat (store_top s)" "stored_at s' i p"
  shows "stored_at s i p" "objects s p = Some ob \<Longrightarrow> \<exists>ob'. objects s' p = Some ob' \<and> same_object ob ob'"
  using assms by (auto simp: old_entries_def)

lemma nth_update_if: "xs[i := x] ! j = (if i = j \<and> i < length xs then x else xs ! j)"
  by (cases "i < length xs") (auto simp: nth_list_update list_update_beyond)

lemma old_entries_step:
  assumes step: "store_step s s'" and inv: "store_inv s" and nr: "no_reuse s"
  shows "old_entries s s'"
proof -
  obtain bs fl where ok: "store_ok s bs fl" using inv by (auto simp: store_inv_def)
  note D = store_okD [OF ok]
  have top: "store_top s \<le> store_top s'" using step inv by (intro steps_top) auto
  from step show ?thesis
  proof cases
    case (step_put p ob)
    have r: "\<not> reuses s fl" using nr by (simp add: reuses_def)
    from zend_objects_store_put_spec [OF ok step_put(1-3)] step_put(4)
    have pr: "put_result s bs fl p ob s'" by (auto split: if_splits)
    then obtain bs' where b: "store_ok s' bs' fl" "\<forall>i < unat (store_top s). bs' ! i = bs ! i"
        "objects s' = (objects s)(p \<mapsto> ob\<lparr>obj_handle := store_top s\<rparr>)" "no_reuse s'"
      using r nr by (auto simp: put_result_def next_handle_def)
    show ?thesis
      unfolding old_entries_def
    proof (intro conjI allI impI top b(4))
      fix i q assume i: "i < unat (store_top s)" "stored_at s' i q"
      then show st: "stored_at s i q" using b(2) by (simp add: stored_at_ok [OF ok] stored_at_ok [OF b(1)])
      then have "q \<noteq> p" using step_put(3) by auto
      then show "\<exists>ob'. objects s' q = Some ob' \<and> same_object ob ob'" if "objects s q = Some ob" for ob
        using that b(3) by simp
    qed
  next
    case (step_invalidate p ob)
    have "s' = s\<lparr>object_buckets := Some (bs[unat (obj_handle ob) := SET_OBJ_INVALID p])\<rparr>"
      using step_invalidate(4) set_bucket_ok [OF ok stored_atD(3) [OF ok step_invalidate(3)], of "SET_OBJ_INVALID p"]
      by simp
    then show ?thesis using nr D(1) by (auto simp: old_entries_def stored_at_def nth_update_if split: if_splits)
  next
    case (step_free p ob)
    have s': "s' = s\<lparr>objects := (objects s)(p := None),
        object_buckets := Some (bs[unat (obj_handle ob) := SET_OBJ_BUCKET_NUMBER (free_list_head s)]),
        free_list_head := obj_handle ob\<rparr>"
      using step_free(6) free_ok(1) [OF ok step_free(1-5)] by simp
    have "stored_at s i q \<and> q \<noteq> p" if "stored_at s' i q" for i q
    proof -
      have i: "i \<noteq> unat (obj_handle ob)" and st: "stored_at s i q"
        using that D(1) by (auto simp: s' stored_at_def nth_update_if split: if_splits)
      then show ?thesis using stored_atD(1) [OF ok st] step_free(1) by auto
    qed
    then show ?thesis using nr by (auto simp: old_entries_def) (auto simp: s')
  qed (use nr in \<open>auto simp: old_entries_def stored_at_def same_object_def\<close>)
qed

lemma old_entries_steps: "store_steps s s' \<Longrightarrow> store_inv s \<Longrightarrow> no_reuse s \<Longrightarrow> old_entries s s'"
proof (induction rule: rtranclp_induct)
  case base
  then show ?case by (auto simp: old_entries_def)
next
  case (step s1 s2)
  have inv: "store_inv s1" by (rule store_steps_inv [OF step.hyps(1) step.prems(1)])
  have o1: "old_entries s s1" using step by blast
  then have o2: "old_entries s1 s2" by (intro old_entries_step step.hyps(2) inv) (simp add: old_entries_def)
  show ?case
    unfolding old_entries_def
  proof (intro conjI allI impI)
    show "no_reuse s2" "store_top s \<le> store_top s2" using o1 o2 by (auto simp: old_entries_def)
    fix i p assume i: "i < unat (store_top s)" "stored_at s2 i p"
    then have i1: "i < unat (store_top s1)" using o1 by (simp add: old_entries_def word_le_nat_alt)
    have st: "stored_at s1 i p" by (rule old_entriesD(1) [OF o2 i1 i(2)])
    show "stored_at s i p" by (rule old_entriesD(1) [OF o1 i(1) st])
    fix ob assume "objects s p = Some ob"
    then obtain ob1 where "objects s1 p = Some ob1" "same_object ob ob1" using old_entriesD(2) [OF o1 i(1) st] by blast
    moreover from this obtain ob2 where "objects s2 p = Some ob2" "same_object ob1 ob2"
      using old_entriesD(2) [OF o2 i1 i(2)] by blast
    ultimately show "\<exists>ob'. objects s2 p = Some ob' \<and> same_object ob ob'" using same_object_trans by blast
  qed
qed

text \<open>
  What a piece of the run has to do with an object in the store whose destructor is still to be
  called: it calls the destructor, or leaves the object in the store as it is in this respect. This
  is asked of the handlers.
\<close>

definition destructors_run :: "obj_globals \<Rightarrow> obj_globals \<Rightarrow> (obj_handler \<times> pointer) list \<Rightarrow> bool" where
  "destructors_run s s' l \<longleftrightarrow> handler_calls s' = handler_calls s @ l \<and>
     (\<forall>j q ob d. stored_at s j q \<longrightarrow> objects s q = Some ob \<longrightarrow> \<not> obj_destructor_called ob \<longrightarrow> owed_destructor ob = Some d \<longrightarrow>
        (d, q) \<in> set l \<or> stored_at s' j q \<and>
          (\<exists>ob'. objects s' q = Some ob' \<and> \<not> obj_destructor_called ob' \<and> owed_destructor ob' = Some d))"

definition destructors_kept :: "obj_handlers \<Rightarrow> bool" where
  "destructors_kept H \<longleftrightarrow> (\<forall>d p s s'. store_inv s \<longrightarrow> H d p s = Inr s' \<longrightarrow> (\<exists>l. destructors_run s s' l))"

lemma destructors_run_refl: "destructors_run s s []"
  by (simp add: destructors_run_def)

lemma destructors_run_trans:
  assumes "destructors_run s s1 l" "destructors_run s1 s2 l'"
  shows "destructors_run s s2 (l @ l')"
  unfolding destructors_run_def
proof (intro conjI allI impI)
  show "handler_calls s2 = handler_calls s @ l @ l'" using assms by (simp add: destructors_run_def)
  fix j q ob d assume p: "stored_at s j q" "objects s q = Some ob" "\<not> obj_destructor_called ob" "owed_destructor ob = Some d"
  show "(d, q) \<in> set (l @ l') \<or> stored_at s2 j q \<and>
      (\<exists>ob'. objects s2 q = Some ob' \<and> \<not> obj_destructor_called ob' \<and> owed_destructor ob' = Some d)"
  proof (cases "(d, q) \<in> set l")
    case False
    then obtain ob1 where "stored_at s1 j q" "objects s1 q = Some ob1" "\<not> obj_destructor_called ob1" "owed_destructor ob1 = Some d"
      using assms(1) p unfolding destructors_run_def by blast
    then show ?thesis using assms(2) unfolding destructors_run_def by auto
  qed simp
qed

lemma after_destructor_run:
  assumes H: "destructors_kept H" and ob: "objects s p = Some ob" and ad: "after_destructor H p ob s s'"
    and inv: "store_inv s" "handlers_ok H" "entered p h b s" "obj_refcount ob + 1 \<noteq> 0"
  shows "\<exists>l. destructors_run s s' l"
proof (cases "if obj_destructor_called ob then None else owed_destructor ob")
  case None
  then have "s' = marked p ob s" using ad by (simp add: after_destructor_def)
  then have "destructors_run s s' []"
    using None ob by (auto simp: destructors_run_def marked_def stored_at_def split: if_splits)
  then show ?thesis by blast
next
  case (Some d)
  let ?c = "calling d p (ob\<lparr>obj_destructor_called := True\<rparr>) s"
  obtain s2 ob2 where c: "H d p ?c = Inr s2" "s' = given_back p ob2 s2" "objects s2 p = Some ob2"
    using ad Some by (auto simp: after_destructor_def)
  have o: "\<not> obj_destructor_called ob" "owed_destructor ob = Some d" using Some by (simp_all split: if_splits)
  have so: "same_object ob (ob\<lparr>obj_destructor_called := True, obj_refcount := obj_refcount ob + 1\<rparr>)" by (simp add: same_object_def)
  have "store_inv ?c"
    using enteredD(1) [OF entered_call [OF entered_object(1) [OF inv(3) ob so]], of "(d, p)"] by (simp add: calling_def)
  then obtain l where l: "destructors_run ?c s2 l" using H c(1) unfolding destructors_kept_def by blast
  have 1: "destructors_run s ?c [(d, p)]"
    using ob o by (auto simp: destructors_run_def calling_def stored_at_def)
  have 2: "destructors_run s2 s' []"
    using c(3) by (auto simp: c(2) destructors_run_def given_back_def stored_at_def owed_destructor_def)
  show ?thesis using destructors_run_trans [OF destructors_run_trans [OF 1 l] 2] by blast
qed

lemma destructor_at_spec:
  assumes H: "handlers_ok H" "bounded_handlers H n" "destructors_kept H"
    and inv: "store_inv s" "aligned s" "in_bounds n {} s" and nr: "no_reuse s"
    and i: "1 \<le> i" "i < store_top s" and before: "\<And>j p. j < unat i \<Longrightarrow> stored_at s j p \<Longrightarrow> destructed s p"
  shows "\<exists>s' l. destructor_at H i s = Inr s' \<and> store_steps s s' \<and> aligned s' \<and> in_bounds n {} s' \<and>
     destructors_run s s' l \<and> (\<forall>j p. j < unat i + 1 \<longrightarrow> stored_at s' j p \<longrightarrow> destructed s' p)"
proof -
  obtain bs fl where ok: "store_ok s bs fl" using inv(1) by (auto simp: store_inv_def)
  have iu: "1 \<le> unat i" "unat i < unat (store_top s)" using i by (simp_all add: word_less_nat_alt word_le_nat_alt)
  have len: "unat i < length bs" using iu(2) store_okD(4) [OF ok] by simp
  let ?p = "bs ! unat i"
  have r: "destructor_at H i s = (if IS_OBJ_VALID ?p then run_destructor H ?p s else Inr s)"
    by (simp add: destructor_at_def bucket_at_ok [OF ok len])
  have "\<exists>s' l. destructor_at H i s = Inr s' \<and> store_steps s s' \<and> aligned s' \<and> in_bounds n {} s' \<and>
     destructors_run s s' l \<and> (IS_OBJ_VALID ?p \<longrightarrow> destructed s' ?p)"
  proof (cases "IS_OBJ_VALID ?p")
    case False
    then show ?thesis using r inv(2,3) destructors_run_refl [of s] by auto
  next
    case True
    then obtain ob where ob: "objects s ?p = Some ob" "unat (obj_handle ob) = unat i"
      using store_okD(9) [OF ok] iu by (auto simp: entries_ok_def)
    have "stored_at s (unat (obj_handle ob)) ?p" using True iu ob(2) by (simp add: stored_at_ok [OF ok])
    note e = stored_entered [OF inv(1,2) ob(1) this]
    have "unat (obj_refcount ob) < 2 ^ 31" using inv(3) ob(1) by (auto simp: in_bounds_def)
    then have "unat (obj_refcount ob) + 1 < 2 ^ 32" by simp
    then have "unat (obj_refcount ob + 1) \<noteq> 0" by (simp add: unat_word_ariths)
    then have c: "obj_refcount ob + 1 \<noteq> 0" by (simp add: unat_eq_zero)
    from run_destructor_spec [OF H(1) e ob(1) c] H(2) inv(3) obtain s' where
      s': "run_destructor H ?p s = Inr s'" "after_destructor H ?p ob s s'" "store_steps s s'" "entered ?p (obj_handle ob) ?p s'"
        "destructed s' ?p" "in_bounds n {} s'" by blast
    from after_destructor_run [OF H(3) ob(1) s'(2) inv(1) H(1) e c] obtain l where "destructors_run s s' l" by blast
    then show ?thesis using r True s' enteredD(2) [OF s'(4)] by auto
  qed
  then obtain s' l where s': "destructor_at H i s = Inr s'" "store_steps s s'" "aligned s'" "in_bounds n {} s'"
    "destructors_run s s' l" "IS_OBJ_VALID ?p \<longrightarrow> destructed s' ?p" by blast
  have old: "old_entries s s'" by (rule old_entries_steps [OF s'(2) inv(1) nr])
  have "destructed s' p" if j: "j < unat i + 1" "stored_at s' j p" for j p
  proof -
    have jt: "j < unat (store_top s)" using j(1) iu(2) by simp
    have sj: "stored_at s j p" by (rule old_entriesD(1) [OF old jt j(2)])
    show ?thesis
    proof (cases "j = unat i")
      case True
      then have "p = ?p" "IS_OBJ_VALID ?p" using sj by (simp_all add: stored_at_ok [OF ok])
      then show ?thesis using s'(6) by simp
    next
      case False
      then have "destructed s p" using before [of j p] sj j(1) by simp
      then show ?thesis using old_entriesD(2) [OF old jt j(2)] by (fastforce simp: destructed_def same_object_def)
    qed
  qed
  then show ?thesis using s'(1-5) by blast
qed

lemma destructors_loop_spec:
  assumes H: "handlers_ok H" "bounded_handlers H n" "destructors_kept H"
  shows "store_inv s \<Longrightarrow> aligned s \<Longrightarrow> in_bounds n {} s \<Longrightarrow> no_reuse s \<Longrightarrow> 1 \<le> i \<Longrightarrow> i \<le> store_top s \<Longrightarrow>
    (\<And>j p. j < unat i \<Longrightarrow> stored_at s j p \<Longrightarrow> destructed s p) \<Longrightarrow>
    \<exists>s' l. destructors_loop H i s = Some (Inr s') \<and> store_steps s s' \<and> destructors_run s s' l \<and>
      (\<forall>j p. stored_at s' j p \<longrightarrow> destructed s' p)"
proof (induction "n - unat i" arbitrary: i s rule: less_induct)
  case less
  show ?case
  proof (cases "i < store_top s")
    case False
    then have "unat (store_top s) \<le> unat i" by (simp add: word_less_nat_alt)
    then have "destructed s p" if "stored_at s j p" for j p
      using less.prems(7) [of j p] that by (simp add: stored_at_def)
    then show ?thesis using False destructors_run_refl [of s]
      by (intro exI [of _ s] exI [of _ "[]"]) (subst destructors_loop.simps, auto)
  next
    case True
    obtain s1 l where s1: "destructor_at H i s = Inr s1" "store_steps s s1" "aligned s1" "in_bounds n {} s1"
      "destructors_run s s1 l" "\<forall>j p. j < unat i + 1 \<longrightarrow> stored_at s1 j p \<longrightarrow> destructed s1 p"
      using destructor_at_spec [OF H less.prems(1-5) True] less.prems(7) by blast
    have inv1: "store_inv s1" by (rule store_steps_inv [OF s1(2) less.prems(1)])
    have old: "old_entries s s1" by (rule old_entries_steps [OF s1(2) less.prems(1,4)])
    have "unat (store_top s) < 2 ^ LENGTH(32)" by (rule unsigned_less)
    then have "unat i + 1 < 2 ^ 32" using True by (simp add: word_less_nat_alt)
    then have i1: "unat (i + 1) = unat i + 1" by (simp add: unat_word_ariths)
    have le: "i + 1 \<le> store_top s1" "1 \<le> i + 1"
      using True old i1 by (auto simp: old_entries_def word_le_nat_alt word_less_nat_alt)
    have "unat (store_top s) \<le> n" using less.prems(3) by (simp add: in_bounds_def)
    then have "n - unat (i + 1) < n - unat i" using i1 True by (simp add: word_less_nat_alt)
    from less.hyps [OF this inv1 s1(3,4) _ le(2,1)] s1(6) old i1 obtain s' l' where
      "destructors_loop H (i + 1) s1 = Some (Inr s')" "store_steps s1 s'" "destructors_run s1 s' l'"
      "\<forall>j p. stored_at s' j p \<longrightarrow> destructed s' p" by (auto simp: old_entries_def)
    then show ?thesis using True s1(1,2) destructors_run_trans [OF s1(5)]
      by (intro exI [of _ s'] exI [of _ "l @ l'"]) (subst destructors_loop.simps, auto intro: rtranclp_trans)
  qed
qed

lemma call_destructors_spec:
  assumes H: "handlers_ok H" "bounded_handlers H n" "destructors_kept H"
    and inv: "store_inv s" "aligned s" "in_bounds n {} s"
  shows "\<exists>s' l. zend_objects_store_call_destructors H s = Some (Inr s') \<and> store_steps s s' \<and>
    handler_calls s' = handler_calls s @ l \<and> (\<forall>j p. stored_at s' j p \<longrightarrow> destructed s' p) \<and>
    (\<forall>j p ob d. stored_at s j p \<longrightarrow> objects s p = Some ob \<longrightarrow> \<not> obj_destructor_called ob \<longrightarrow>
       owed_destructor ob = Some d \<longrightarrow> (d, p) \<in> set l)"
proof -
  let ?s = "s\<lparr>no_reuse := True\<rparr>"
  have st: "store_step s ?s" by (rule step_no_reuse)
  have inv1: "store_inv ?s" "aligned ?s" "in_bounds n {} ?s"
    using store_step_inv [OF st inv(1)] inv(2,3) by (simp_all add: aligned_def in_bounds_def)
  have sa: "stored_at ?s j p = stored_at s j p" for j p by (simp add: stored_at_def)
  show ?thesis
  proof (cases "store_top s > 1")
    case False
    then have "unat (store_top s) \<le> 1" by (simp add: word_less_nat_alt)
    then show ?thesis using st False
      by (intro exI [of _ ?s] exI [of _ "[]"]) (auto simp: zend_objects_store_call_destructors_def stored_at_def)
  next
    case True
    have "destructed ?s p" if "j < unat (1 :: u32)" "stored_at ?s j p" for j p
      using that by (simp add: stored_at_def)
    with destructors_loop_spec [OF H inv1, of 1] True obtain s' l where
      s': "destructors_loop H 1 ?s = Some (Inr s')" "store_steps ?s s'" "destructors_run ?s s' l"
      "\<forall>j p. stored_at s' j p \<longrightarrow> destructed s' p"
      by (auto simp: order_less_imp_le)
    have "(d, p) \<in> set l" if pen: "stored_at s j p" "objects s p = Some ob" "\<not> obj_destructor_called ob" "owed_destructor ob = Some d" for j p ob d
    proof (rule ccontr)
      assume "(d, p) \<notin> set l"
      moreover have "stored_at ?s j p" "objects ?s p = Some ob" using pen(1,2) sa by simp_all
      ultimately have "stored_at s' j p \<and> (\<exists>ob'. objects s' p = Some ob' \<and> \<not> obj_destructor_called ob')"
        using s'(3) pen(3,4) unfolding destructors_run_def by blast
      then obtain ob' where "stored_at s' j p" "objects s' p = Some ob'" "\<not> obj_destructor_called ob'" by blast
      moreover have "destructed s' p" using s'(4) calculation(1) by blast
      ultimately show False by (simp add: destructed_def)
    qed
    moreover have "handler_calls s' = handler_calls s @ l" using s'(3) by (simp add: destructors_run_def)
    ultimately show ?thesis using True st s'
      by (intro exI [of _ s'] exI [of _ l])
        (auto simp: zend_objects_store_call_destructors_def intro: converse_rtranclp_into_rtranclp)
  qed
qed

text \<open>Where all destructors count as called, none is.\<close>

lemma destructors_loop_idle:
  assumes inv: "store_inv s" and d: "\<And>j p. stored_at s j p \<Longrightarrow> destructed s p"
  shows "1 \<le> i \<Longrightarrow> i \<le> store_top s \<Longrightarrow> destructors_loop H i s = Some (Inr s)"
proof (induction "unat (store_top s) - unat i" arbitrary: i rule: less_induct)
  case less
  show ?case
  proof (cases "i < store_top s")
    case False
    then show ?thesis by (subst destructors_loop.simps) simp
  next
    case True
    obtain bs fl where ok: "store_ok s bs fl" using inv by (auto simp: store_inv_def)
    have iu: "1 \<le> unat i" "unat i < unat (store_top s)" using less.prems(1) True by (simp_all add: word_less_nat_alt word_le_nat_alt)
    have len: "unat i < length bs" using iu(2) store_okD(4) [OF ok] by simp
    have "stored_at s (unat i) (bs ! unat i)" if "IS_OBJ_VALID (bs ! unat i)" using that iu by (simp add: stored_at_ok [OF ok])
    then have "IS_OBJ_VALID (bs ! unat i) \<Longrightarrow> destructed s (bs ! unat i)" by (intro d)
    then have at: "destructor_at H i s = Inr s"
      by (auto simp: destructor_at_def bucket_at_ok [OF ok len] run_destructor_def object_at_def destructed_def)
    have "unat (store_top s) < 2 ^ LENGTH(32)" by (rule unsigned_less)
    then have "unat i + 1 < 2 ^ 32" using iu by simp
    then have i1: "unat (i + 1) = unat i + 1" by (simp add: unat_word_ariths)
    have "destructors_loop H (i + 1) s = Some (Inr s)"
      by (rule less.hyps) (use i1 iu in \<open>simp_all add: word_le_nat_alt\<close>)
    then show ?thesis using True at by (subst destructors_loop.simps) simp
  qed
qed

lemma marked_calls_none:
  assumes "store_inv s" "\<And>j p. stored_at s j p \<Longrightarrow> destructed s p"
  shows "zend_objects_store_call_destructors H s = Some (Inr (s\<lparr>no_reuse := True\<rparr>))"
proof -
  have "store_inv (s\<lparr>no_reuse := True\<rparr>)" by (rule store_step_inv [OF step_no_reuse assms(1)])
  then have "destructors_loop H 1 (s\<lparr>no_reuse := True\<rparr>) = Some (Inr (s\<lparr>no_reuse := True\<rparr>))" if "store_top s > 1"
    by (rule destructors_loop_idle) (use assms(2) that in \<open>auto simp: stored_at_def destructed_def order_less_imp_le\<close>)
  then show ?thesis by (simp add: zend_objects_store_call_destructors_def Let_def)
qed

subsection \<open>Marking all objects\<close>

lemma mark_at_spec:
  assumes inv: "store_inv s" and i: "1 \<le> i" "i < unat (store_top s)"
  shows "\<exists>s'. mark_at i s = Inr s' \<and> store_steps s s' \<and> store_top s' = store_top s \<and>
     handler_calls s' = handler_calls s \<and>
     (\<forall>j p. stored_at s' j p = stored_at s j p) \<and> (\<forall>p. destructed s p \<longrightarrow> destructed s' p) \<and>
     (\<forall>p. stored_at s' i p \<longrightarrow> destructed s' p)"
proof -
  obtain bs fl where ok: "store_ok s bs fl" using inv by (auto simp: store_inv_def)
  have iu: "unat (of_nat i :: u32) = i"
  proof -
    have "unat (store_top s) < 2 ^ LENGTH(32)" by (rule unsigned_less)
    then have "i < 2 ^ LENGTH(32)" using i(2) by linarith
    then show ?thesis by (simp only: unat_of_nat) simp
  qed
  have len: "i < length bs" using i(2) store_okD(4) [OF ok] by linarith
  have b: "bucket_at (of_nat i) s = Inr (bs ! i)" using bucket_at_ok [OF ok, of "of_nat i"] len iu by simp
  show ?thesis
  proof (cases "IS_OBJ_VALID (bs ! i)")
    case False
    then have "\<not> stored_at s i p" for p by (auto simp: stored_at_ok [OF ok])
    then show ?thesis using False b by (auto simp: mark_at_def)
  next
    case True
    then obtain ob where ob: "objects s (bs ! i) = Some ob"
      using store_okD(9) [OF ok] i by (auto simp: entries_ok_def)
    let ?s = "s\<lparr>objects := (objects s)(bs ! i \<mapsto> ob\<lparr>obj_destructor_called := True\<rparr>)\<rparr>"
    have "mark_at i s = Inr ?s" using b True ob by (simp add: mark_at_def change_object_def object_at_def)
    moreover have "store_step s ?s" by (rule step_object [OF ob]) (simp add: same_object_def)
    moreover have "stored_at ?s j p = stored_at s j p" for j p by (simp add: stored_at_def)
    moreover have "stored_at s i p \<Longrightarrow> p = bs ! i" for p by (simp add: stored_at_ok [OF ok])
    ultimately show ?thesis by (auto simp: destructed_def)
  qed
qed

lemma mark_loop:
  assumes "\<forall>i \<in> set is. 1 \<le> i \<and> i < unat (store_top s)" and "store_inv s"
  shows "\<exists>s'. for_each mark_at is s = Inr s' \<and> store_steps s s' \<and> handler_calls s' = handler_calls s \<and>
     (\<forall>j p. stored_at s' j p = stored_at s j p) \<and> (\<forall>p. destructed s p \<longrightarrow> destructed s' p) \<and>
     (\<forall>i p. i \<in> set is \<longrightarrow> stored_at s i p \<longrightarrow> destructed s' p)"
  using assms
proof (induction "is" arbitrary: s)
  case (Cons i "is")
  obtain s1 where s1: "mark_at i s = Inr s1" "store_steps s s1" "store_top s1 = store_top s"
      "handler_calls s1 = handler_calls s" "\<forall>j p. stored_at s1 j p = stored_at s j p"
      "\<forall>p. destructed s p \<longrightarrow> destructed s1 p" "\<forall>p. stored_at s1 i p \<longrightarrow> destructed s1 p"
    using mark_at_spec [OF Cons.prems(2), of i] Cons.prems(1) by auto
  obtain s2 where "for_each mark_at is s1 = Inr s2" "store_steps s1 s2" "handler_calls s2 = handler_calls s1"
      "\<forall>j p. stored_at s2 j p = stored_at s1 j p" "\<forall>p. destructed s1 p \<longrightarrow> destructed s2 p"
      "\<forall>i p. i \<in> set is \<longrightarrow> stored_at s1 i p \<longrightarrow> destructed s2 p"
    using Cons.IH [of s1] Cons.prems s1(3) store_steps_inv [OF s1(2)] by auto
  then show ?case using s1 by (auto intro: rtranclp_trans)
qed simp

lemma mark_destructed_spec:
  assumes inv: "store_inv s"
  shows "\<exists>s'. zend_objects_store_mark_destructed s = Inr s' \<and> store_steps s s' \<and>
     handler_calls s' = handler_calls s \<and> (\<forall>j p. stored_at s' j p = stored_at s j p) \<and>
     (\<forall>j p. stored_at s' j p \<longrightarrow> destructed s' p)"
proof -
  obtain bs fl where ok: "store_ok s bs fl" using inv by (auto simp: store_inv_def)
  have b: "object_buckets s \<noteq> None" using store_okD(1) [OF ok] by simp
  show ?thesis
  proof (cases "store_top s > 1")
    case True
    obtain s' where "for_each mark_at [1..<unat (store_top s)] s = Inr s'" "store_steps s s'"
        "handler_calls s' = handler_calls s" "\<forall>j p. stored_at s' j p = stored_at s j p"
        "\<forall>i p. i \<in> set [1..<unat (store_top s)] \<longrightarrow> stored_at s i p \<longrightarrow> destructed s' p"
      using mark_loop [OF _ inv, of "[1..<unat (store_top s)]"] by auto
    then show ?thesis using True b
      by (auto simp: zend_objects_store_mark_destructed_def stored_at_def)
  next
    case False
    then have "unat (store_top s) \<le> 1" by (simp add: word_less_nat_alt)
    then show ?thesis using False by (auto simp: zend_objects_store_mark_destructed_def stored_at_def)
  qed
qed

subsection \<open>Freeing all objects\<close>

lemma free_at_spec:
  assumes H: "handlers_ok H" "bounded_handlers H n" and inv: "store_inv s" "aligned s" "in_bounds n {} s"
    and i: "1 \<le> i" "i < unat (store_top s)" and run: "free_at H fast k i s = Inr s'"
  shows "store_steps s s' \<and> aligned s' \<and> in_bounds n {} s'"
proof -
  obtain bs fl where ok: "store_ok s bs fl" using inv(1) by (auto simp: store_inv_def)
  have "unat (store_top s) < 2 ^ LENGTH(32)" by (rule unsigned_less)
  then have iu: "unat (of_nat i :: u32) = i" using i(2) by (simp add: unat_of_nat)
  have len: "i < length bs" using i(2) store_okD(4) [OF ok] by simp
  let ?p = "bs ! i"
  have r: "(if IS_OBJ_VALID ?p then run_free H fast ?p s else Inr s) = Inr s'"
    using run bucket_at_ok [OF ok, of "of_nat i"] len iu by (simp add: free_at_def split: if_splits)
  show ?thesis
  proof (cases "IS_OBJ_VALID ?p")
    case False
    then show ?thesis using r inv by simp
  next
    case True
    then obtain ob where ob: "objects s ?p = Some ob" "unat (obj_handle ob) = i"
      using store_okD(9) [OF ok] i by (auto simp: entries_ok_def)
    have "stored_at s (unat (obj_handle ob)) ?p" using True i ob(2) by (simp add: stored_at_ok [OF ok])
    note e = stored_entered [OF inv(1,2) ob(1) this]
    have "unat (obj_refcount ob) < 2 ^ 31" using inv(3) ob(1) by (auto simp: in_bounds_def)
    then have "unat (obj_refcount ob) + 1 < 2 ^ 32" by simp
    then have "unat (obj_refcount ob + 1) \<noteq> 0" by (simp add: unat_word_ariths)
    then have "obj_refcount ob + 1 \<noteq> 0" by (simp add: unat_eq_zero)
    from run_free_spec [OF H(1) e ob(1) this, of fast] r True H(2) inv(3) show ?thesis by (auto dest: enteredD(2))
  qed
qed

lemma free_storage_steps:
  assumes H: "handlers_ok H" "bounded_handlers H n" and inv: "store_inv s" "aligned s" "in_bounds n {} s"
    and run: "zend_objects_store_free_object_storage H fast s = Inr s'"
  shows "store_steps s s'"
proof -
  have "store_inv s \<Longrightarrow> aligned s \<Longrightarrow> in_bounds n {} s \<Longrightarrow> \<forall>i \<in> set is. 1 \<le> i \<and> i < unat (store_top s) \<Longrightarrow>
      for_each (free_at H fast k) is s = Inr s' \<Longrightarrow> store_steps s s'" for k "is" s
  proof (induction "is" arbitrary: s)
    case (Cons i "is")
    then obtain s1 where s1: "free_at H fast k i s = Inr s1" "for_each (free_at H fast k) is s1 = Inr s'"
      by (auto simp: res_bind_Inr_iff)
    have f: "store_steps s s1" "aligned s1" "in_bounds n {} s1"
      using free_at_spec [OF H Cons.prems(1-3) _ _ s1(1)] Cons.prems(4) by auto
    have "unat (store_top s) \<le> unat (store_top s1)" using steps_top [OF f(1) Cons.prems(1)] by (simp add: word_le_nat_alt)
    then have "\<forall>i \<in> set is. 1 \<le> i \<and> i < unat (store_top s1)" using Cons.prems(4) by auto
    from Cons.IH [OF store_steps_inv [OF f(1) Cons.prems(1)] f(2,3) this s1(2)] show ?case by (rule rtranclp_trans [OF f(1)])
  qed simp
  from this [OF inv, of "rev [1..<unat (store_top s)]" "store_size s"]
  show ?thesis using run by (simp add: zend_objects_store_free_object_storage_def split: if_splits)
qed

end
