(* ===== verification/Zend_Objects_Props.thy ===== *)
theory Zend_Objects_Props
  imports Zend_Objects_Calls
begin

text \<open>The properties of the object store, with a sample store of one object.\<close>

subsection \<open>A sample store\<close>

definition no_objects :: obj_globals where
  "no_objects = \<lparr>object_buckets = None, store_top = 0, store_size = 0, free_list_head = 0, no_reuse = False,
     objects = (\<lambda>_. None), handler_calls = []\<rparr>"

definition object_0 :: zend_object where
  "object_0 = \<lparr>obj_handle = 0, obj_refcount = 0, obj_destructor_called = False, obj_free_called = False,
     dtor_obj = Some (HANDLER 1), free_obj = Some ZEND_OBJECT_STD_DTOR, ce_destructor = False\<rparr>"

definition store_0 :: obj_globals where
  "store_0 = projr (zend_objects_store_init 2 no_objects)"

definition store_1 :: obj_globals where
  "store_1 = store_0\<lparr>objects := (objects store_0)(16 \<mapsto> object_0)\<rparr>"

definition store_16 :: obj_globals where
  "store_16 = projr (zend_objects_store_put 16 store_1)"

lemma init_ok:
  assumes "zend_objects_store_init n s0 = Inr s"
  shows "store_inv s"
proof -
  have n: "n \<noteq> 0" "s = s0\<lparr>object_buckets := Some (0 # replicate (unat n - 1) unset_bucket),
       store_top := 1, store_size := n, free_list_head := -1\<rparr>"
    using assms by (auto simp: zend_objects_store_init_def split: if_splits)
  then have "unat n \<noteq> 0" by (simp add: unat_eq_zero)
  then have "store_ok s (0 # replicate (unat n - 1) unset_bucket) []"
    using n by (simp add: store_ok_def entries_ok_def)
  then show ?thesis by (auto simp: store_inv_def)
qed

lemma store_0: "zend_objects_store_init 2 no_objects = Inr store_0"
  by (simp add: store_0_def zend_objects_store_init_def)

lemma store_0_eq: "store_0 = no_objects\<lparr>object_buckets := Some [0, unset_bucket], store_top := 1, store_size := 2,
    free_list_head := -1\<rparr>"
  by (simp add: store_0_def zend_objects_store_init_def no_objects_def)

lemma store_16_fields:
  "object_buckets store_16 = Some [0, 16]" "store_top store_16 = 2" "free_list_head store_16 = -1"
  "objects store_16 16 = Some (object_0\<lparr>obj_handle := 1\<rparr>)" "zend_objects_store_put 16 store_1 = Inr store_16"
  by (simp_all add: store_16_def store_1_def store_0_eq no_objects_def
      zend_objects_store_put_def new_handle_def change_object_def object_at_def set_bucket_def Let_def)

lemma store_16_steps: "store_steps store_0 store_16" "store_inv store_16" "stored_at store_16 1 16"
proof -
  have v: "IS_OBJ_VALID 16" by (simp add: IS_OBJ_VALID_def OBJ_BUCKET_INVALID_def)
  have "objects store_0 16 = None" by (simp add: store_0_def no_objects_def zend_objects_store_init_def)
  then have "store_step store_0 store_1" unfolding store_1_def by (rule step_alloc)
  moreover have "store_step store_1 store_16"
    by (rule step_put [OF _ v _ store_16_fields(5), where ob = object_0])
      (simp_all add: store_1_def store_0_def zend_objects_store_init_def stored_at_def)
  ultimately show s: "store_steps store_0 store_16" by auto
  show "store_inv store_16" by (rule store_steps_inv [OF s init_ok [OF store_0]])
  show "stored_at store_16 1 16" by (simp add: stored_at_def store_16_fields v)
qed

subsection \<open>Handles\<close>

text \<open>
  C34. In every state the store reaches from its initialisation, no object has two handles, the free
  handles form a list without cycle, and adding an object gives it a handle that is not in use
  without changing the others; it fails only when all \<open>2 ^ 31\<close> handles are taken.
\<close>

theorem zend_objects_store_put_correct:
  assumes "zend_objects_store_init n s0 = Inr s1" and "store_steps s1 s"
    and "objects s p = Some ob" and "IS_OBJ_VALID p" and "\<forall>i. \<not> stored_at s i p"
  shows "(\<forall>i j q. stored_at s i q \<longrightarrow> stored_at s j q \<longrightarrow> i = j) \<and>
    (\<exists>bs fl. object_buckets s = Some bs \<and> free_chain bs (free_list_head s) fl \<and> distinct fl) \<and>
    (case zend_objects_store_put p s of
       Inl e \<Rightarrow> e = UB_OUT_OF_BOUNDS \<and> unat (store_top s) = 2 ^ 31
     | Inr s' \<Rightarrow> store_inv s' \<and> (\<exists>h. stored_at s' h p \<and> (\<forall>q. \<not> stored_at s h q) \<and>
         (\<forall>i q. i \<noteq> h \<longrightarrow> stored_at s' i q = stored_at s i q)))"
proof -
  have inv: "store_inv s" by (rule store_steps_inv [OF assms(2) init_ok [OF assms(1)]])
  then obtain bs fl where ok: "store_ok s bs fl" by (auto simp: store_inv_def)
  note D = store_okD [OF ok]
  have put: "case zend_objects_store_put p s of
       Inl e \<Rightarrow> e = UB_OUT_OF_BOUNDS \<and> unat (store_top s) = 2 ^ 31
     | Inr s' \<Rightarrow> store_inv s' \<and> (\<exists>h. stored_at s' h p \<and> (\<forall>q. \<not> stored_at s h q) \<and>
         (\<forall>i q. i \<noteq> h \<longrightarrow> stored_at s' i q = stored_at s i q))"
  proof (cases "\<not> reuses s fl \<and> unat (store_top s) = 2 ^ 31")
    case True
    then show ?thesis using zend_objects_store_put_spec [OF ok assms(3-5)] by simp
  next
    case False
    let ?h = "next_handle s fl"
    obtain s' where s': "zend_objects_store_put p s = Inr s'" "put_result s bs fl p ob s'"
      using zend_objects_store_put_spec [OF ok assms(3-5)] False by auto
    obtain bs' fl' where ok': "store_ok s' bs' fl'" "bs' ! ?h = p"
        "\<forall>i < unat (store_top s). i \<noteq> ?h \<longrightarrow> bs' ! i = bs ! i"
        "unat (store_top s') = (if reuses s fl then unat (store_top s) else unat (store_top s) + 1)"
      using s'(2) unfolding put_result_def by auto
    have "fl \<noteq> [] \<Longrightarrow> hd fl \<in> {1..<unat (store_top s)}" using D(8) hd_in_set by blast
    then have h: "1 \<le> ?h" "?h < unat (store_top s')" "\<forall>q. \<not> stored_at s ?h q"
      using D(3) ok'(4) free_chain_invalid [OF D(6), of "hd fl"] hd_in_set [of fl]
      by (auto simp: next_handle_def stored_at_ok [OF ok] reuses_def)
    then have "stored_at s' ?h p" using ok'(2) assms(4) by (simp add: stored_at_ok [OF ok'(1)])
    moreover have "stored_at s' i q = stored_at s i q" if "i \<noteq> ?h" for i q
      using that ok'(3,4) by (auto simp: stored_at_ok [OF ok'(1)] stored_at_ok [OF ok] next_handle_def split: if_splits)
    moreover have "store_inv s'" using ok'(1) by (auto simp: store_inv_def)
    ultimately show ?thesis using s'(1) h(3) by auto
  qed
  show ?thesis using stored_at_unique [OF inv] D(1,6,7) put by blast
qed

theorem zend_objects_store_put_correct_witness:
  "\<exists>s'. zend_objects_store_put 32 (store_16\<lparr>objects := (objects store_16)(32 \<mapsto> object_0)\<rparr>) = Inr s' \<and>
     (\<exists>h. stored_at s' h 32 \<and> h \<noteq> 1) \<and> stored_at s' 1 16"
proof -
  let ?s = "store_16\<lparr>objects := (objects store_16)(32 \<mapsto> object_0)\<rparr>"
  have "objects store_16 32 = None"
    by (simp add: store_16_def store_1_def store_0_eq no_objects_def
        zend_objects_store_put_def new_handle_def change_object_def object_at_def set_bucket_def Let_def)
  then have "store_step store_16 ?s" by (rule step_alloc)
  then have st: "store_steps store_0 ?s" using store_16_steps(1) by (rule rtranclp.rtrancl_into_rtrancl [rotated])
  have new: "\<forall>i. \<not> stored_at ?s i 32"
    by (auto simp: stored_at_def store_16_fields nth_Cons split: nat.splits)
  have v: "IS_OBJ_VALID 32" by (simp add: IS_OBJ_VALID_def OBJ_BUCKET_INVALID_def)
  have old: "stored_at ?s 1 16" using store_16_steps(3) by (simp add: stored_at_def)
  have ob: "objects ?s 32 = Some object_0" and top: "unat (store_top ?s) \<noteq> 2 ^ 31" by (simp_all add: store_16_fields)
  note P = zend_objects_store_put_correct [OF store_0 st ob v new, THEN conjunct2, THEN conjunct2]
  then obtain s' where s': "zend_objects_store_put 32 ?s = Inr s'"
    using top by (cases "zend_objects_store_put 32 ?s") auto
  obtain h where "stored_at s' h 32" "\<forall>q. \<not> stored_at ?s h q" "\<forall>i q. i \<noteq> h \<longrightarrow> stored_at s' i q = stored_at ?s i q"
    using P unfolding s' by auto
  then show ?thesis using s' old by metis
qed

subsection \<open>Deleting\<close>

text \<open>
  C35. Deleting a stored object, with handlers that return and do to the store what its operations
  allow, but leave a reference that is there when they are called. With references left there is only
  one less. Without, the destructor, if it is still to be called, is called on the marked object with
  one reference more, which is given back after it. If then there is no reference, the object is
  freed: its free handler is called, if it was not before, and its handle is the first to be used
  again. Otherwise that is all: the object stays under its handle, marked, with the references the
  destructor left. The invariant holds again.
\<close>

theorem zend_objects_store_del_correct:
  assumes "handlers_ok H" and "store_inv s" and "aligned s" and "objects s p = Some ob"
    and "stored_at s (unat (obj_handle ob)) p"
  shows "\<exists>s'. zend_objects_store_del H p s = Inr s' \<and> store_inv s' \<and>
    (if obj_refcount ob \<noteq> 0 then s' = s\<lparr>objects := (objects s)(p \<mapsto> ob\<lparr>obj_refcount := obj_refcount ob - 1\<rparr>)\<rparr>
     else \<exists>s1 ob1. after_destructor H p ob s s1 \<and> objects s1 p = Some ob1 \<and> obj_destructor_called ob1 \<and>
       obj_handle ob1 = obj_handle ob \<and> stored_at s1 (unat (obj_handle ob)) p \<and>
       (if obj_refcount ob1 = 0
        then objects s' p = None \<and> free_list_head s' = obj_handle ob \<and> in_free_list s' (unat (obj_handle ob)) \<and>
          (\<exists>l. handler_calls s' = handler_calls s1 @ l \<and>
             (\<forall>f. \<not> obj_free_called ob1 \<longrightarrow> free_obj ob1 = Some f \<longrightarrow> (f, p) \<in> set l))
        else s' = s1))"
proof -
  note del = zend_objects_store_del_spec [OF assms(1) stored_entered [OF assms(2-5)] assms(4)]
  show ?thesis
  proof (cases "obj_refcount ob = 0")
    case False
    then show ?thesis using del store_steps_inv [OF _ assms(2)] by (auto simp: given_back_def)
  next
    case True
    then obtain s1 ob1 s' where r: "after_destructor H p ob s s1" "objects s1 p = Some ob1" "obj_destructor_called ob1"
      "obj_handle ob1 = obj_handle ob" "stored_at s1 (unat (obj_handle ob)) p"
      "if obj_refcount ob1 = 0 then freed p ob1 s1 s' else s' = s1" and run: "zend_objects_store_del H p s = Inr s'"
      and st: "store_steps s s'" using del by auto
    show ?thesis
      unfolding True simp_thms if_False
      by (rule exI [of _ s'], intro conjI, rule run, rule store_steps_inv [OF st assms(2)],
        rule exI [of _ s1], rule exI [of _ ob1], intro conjI) (use r in \<open>simp_all only: r freed_def\<close>)
  qed
qed

text \<open>Handlers that do nothing, and a destructor that makes a new reference to its object.\<close>

definition idle_handlers :: obj_handlers where
  "idle_handlers h p s = Inr s"

definition reviving_handlers :: obj_handlers where
  "reviving_handlers h p s = res_bind (object_at p s) (\<lambda>ob.
     if obj_refcount ob = -1 then Inr s else change_object p (\<lambda>ob. ob\<lparr>obj_refcount := obj_refcount ob + 1\<rparr>) s)"

lemma sample_handlers: "handlers_ok idle_handlers" "handlers_ok reviving_handlers" "bounded_handlers idle_handlers n"
  "destructors_kept idle_handlers"
proof -
  show "handlers_ok idle_handlers" by (auto simp: handlers_ok_def idle_handlers_def)
  show "bounded_handlers idle_handlers n" by (simp add: bounded_handlers_def idle_handlers_def)
  show "destructors_kept idle_handlers"
    using destructors_run_refl by (auto simp: destructors_kept_def idle_handlers_def)
  show "handlers_ok reviving_handlers"
    unfolding handlers_ok_def
  proof (intro allI impI)
    fix d p h s assume a: "store_inv s" "aligned s" "referenced p h s"
    then obtain ob where ob: "objects s p = Some ob" "obj_handle ob = h" "obj_refcount ob \<noteq> 0" by (auto simp: referenced_def)
    show "\<exists>s'. reviving_handlers d p s = Inr s' \<and> held_steps p h s s'"
    proof (cases "obj_refcount ob = -1")
      case True
      then show ?thesis using ob by (simp add: reviving_handlers_def object_at_def)
    next
      case False
      then have nz: "obj_refcount ob + 1 \<noteq> 0" by (metis add_eq_0_iff2)
      let ?s = "s\<lparr>objects := (objects s)(p \<mapsto> ob\<lparr>obj_refcount := obj_refcount ob + 1\<rparr>)\<rparr>"
      have "store_step s ?s" by (rule step_object [OF ob(1)]) (simp add: same_object_def)
      then have "held_step p h s ?s" using a(2) ob nz by (auto simp: held_step_def aligned_def referenced_def)
      moreover have "reviving_handlers d p s = Inr ?s" using False ob by (simp add: reviving_handlers_def object_at_def change_object_def)
      ultimately show ?thesis by blast
    qed
  qed
qed

lemma aligned_16: "aligned store_16"
  by (simp add: aligned_def store_16_def store_1_def store_0_eq no_objects_def zend_objects_store_put_def new_handle_def
      change_object_def object_at_def set_bucket_def Let_def IS_OBJ_VALID_def OBJ_BUCKET_INVALID_def)

lemma calls_16: "handler_calls store_16 = []"
  by (simp add: store_16_def store_1_def store_0_eq no_objects_def
      zend_objects_store_put_def new_handle_def change_object_def object_at_def set_bucket_def Let_def)

text \<open>With idle handlers the object is freed after both calls; a reviving destructor keeps it, with one reference.\<close>

theorem zend_objects_store_del_correct_witness:
  "(\<exists>s'. zend_objects_store_del idle_handlers 16 store_16 = Inr s' \<and> in_free_list s' 1 \<and>
     handler_calls s' = [(HANDLER 1, 16), (ZEND_OBJECT_STD_DTOR, 16)]) \<and>
   (\<exists>s' ob'. zend_objects_store_del reviving_handlers 16 store_16 = Inr s' \<and> stored_at s' 1 16 \<and>
     objects s' 16 = Some ob' \<and> obj_refcount ob' = 1)"
proof (rule conjI)
  let ?ob = "object_0\<lparr>obj_handle := 1\<rparr>"
  have st: "stored_at store_16 (unat (obj_handle ?ob)) 16" "obj_refcount ?ob = 0" "owed_destructor ?ob = Some (HANDLER 1)"
      "\<not> obj_destructor_called ?ob" "free_obj ?ob = Some ZEND_OBJECT_STD_DTOR"
    using store_16_steps(3) by (simp_all add: object_0_def owed_destructor_def)
  note del = zend_objects_store_del_correct [OF _ store_16_steps(2) aligned_16 store_16_fields(4) st(1)]
  have calls: "\<exists>s'. zend_objects_store_del idle_handlers 16 store_16 = Inr s' \<and>
      handler_calls s' = [(HANDLER 1, 16), (ZEND_OBJECT_STD_DTOR, 16)]"
    by (simp add: zend_objects_store_del_def store_16_fields object_at_def bucket_at_def object_0_def
      IS_OBJ_VALID_def OBJ_BUCKET_INVALID_def run_destructor_def change_object_def destructor_of_def call_handler_def
      idle_handlers_def free_object_def set_bucket_def run_free_def calls_16
      ZEND_OBJECTS_STORE_ADD_TO_FREE_LIST_def)
  show "\<exists>s'. zend_objects_store_del idle_handlers 16 store_16 = Inr s' \<and> in_free_list s' 1 \<and>
      handler_calls s' = [(HANDLER 1, 16), (ZEND_OBJECT_STD_DTOR, 16)]"
    using del [OF sample_handlers(1)] st(2-5) calls
    by (auto simp: after_destructor_def idle_handlers_def calling_def given_back_def object_0_def owed_destructor_def)
  show "\<exists>s' ob'. zend_objects_store_del reviving_handlers 16 store_16 = Inr s' \<and> stored_at s' 1 16 \<and>
      objects s' 16 = Some ob' \<and> obj_refcount ob' = 1"
    using del [OF sample_handlers(2)] st(2-5)
    by (auto simp: after_destructor_def reviving_handlers_def object_at_def change_object_def calling_def given_back_def
        object_0_def owed_destructor_def)
qed

subsection \<open>Shutting down\<close>

text \<open>
  C36. \<open>zend_objects_store_call_destructors\<close> calls the destructor of every object in the store that has
  one and was not destructed before, and ends without error with all objects in the store marked,
  those too that destructors created. The handlers return, leave the reference that is held for
  them, keep the store and the reference counts below some size, and do not drop an object whose
  destructor is still to be called. Marking the objects instead calls nothing and keeps the
  entries: it only sets the marks, so that calling the destructors afterwards calls none.
\<close>

theorem zend_objects_store_destructors_called:
  assumes "handlers_ok H" and "bounded_handlers H n" and "destructors_kept H"
    and "store_inv s" and "aligned s" and "in_bounds n {} s"
  shows "(\<exists>s' l. zend_objects_store_call_destructors H s = Some (Inr s') \<and> store_inv s' \<and>
      handler_calls s' = handler_calls s @ l \<and> (\<forall>j p. stored_at s' j p \<longrightarrow> destructed s' p) \<and>
      (\<forall>j p ob d. stored_at s j p \<longrightarrow> objects s p = Some ob \<longrightarrow> \<not> obj_destructor_called ob \<longrightarrow>
         owed_destructor ob = Some d \<longrightarrow> (d, p) \<in> set l)) \<and>
    (\<exists>s'. zend_objects_store_mark_destructed s = Inr s' \<and> store_inv s' \<and> handler_calls s' = handler_calls s \<and>
      (\<forall>j p. stored_at s' j p = stored_at s j p) \<and> (\<forall>j p. stored_at s' j p \<longrightarrow> destructed s' p) \<and>
      zend_objects_store_call_destructors H s' = Some (Inr (s'\<lparr>no_reuse := True\<rparr>)))"
proof (rule conjI)
  show "\<exists>s' l. zend_objects_store_call_destructors H s = Some (Inr s') \<and> store_inv s' \<and>
      handler_calls s' = handler_calls s @ l \<and> (\<forall>j p. stored_at s' j p \<longrightarrow> destructed s' p) \<and>
      (\<forall>j p ob d. stored_at s j p \<longrightarrow> objects s p = Some ob \<longrightarrow> \<not> obj_destructor_called ob \<longrightarrow>
         owed_destructor ob = Some d \<longrightarrow> (d, p) \<in> set l)"
    using call_destructors_spec [OF assms] store_steps_inv [OF _ assms(4)] by blast
  obtain s' where m: "zend_objects_store_mark_destructed s = Inr s'" "store_steps s s'" "handler_calls s' = handler_calls s"
      "\<forall>j p. stored_at s' j p = stored_at s j p" "\<forall>j p. stored_at s' j p \<longrightarrow> destructed s' p"
    using mark_destructed_spec [OF assms(4)] by blast
  have inv: "store_inv s'" by (rule store_steps_inv [OF m(2) assms(4)])
  have "zend_objects_store_call_destructors H s' = Some (Inr (s'\<lparr>no_reuse := True\<rparr>))"
    by (rule marked_calls_none [OF inv]) (use m(5) in blast)
  then show "\<exists>s'. zend_objects_store_mark_destructed s = Inr s' \<and> store_inv s' \<and> handler_calls s' = handler_calls s \<and>
      (\<forall>j p. stored_at s' j p = stored_at s j p) \<and> (\<forall>j p. stored_at s' j p \<longrightarrow> destructed s' p) \<and>
      zend_objects_store_call_destructors H s' = Some (Inr (s'\<lparr>no_reuse := True\<rparr>))"
    using m inv by blast
qed

theorem zend_objects_store_destructors_called_witness:
  "\<exists>s'. zend_objects_store_call_destructors idle_handlers store_16 = Some (Inr s') \<and>
     (HANDLER 1, 16) \<in> set (handler_calls s')"
proof -
  have b: "in_bounds 2 {} store_16"
    by (auto simp: in_bounds_def store_16_def store_1_def store_0_eq no_objects_def zend_objects_store_put_def new_handle_def
      change_object_def object_at_def set_bucket_def Let_def object_0_def)
  have o: "objects store_16 16 = Some (object_0\<lparr>obj_handle := 1\<rparr>)" "\<not> obj_destructor_called (object_0\<lparr>obj_handle := 1\<rparr>)"
    "owed_destructor (object_0\<lparr>obj_handle := 1\<rparr>) = Some (HANDLER 1)"
    using store_16_fields(4) by (simp_all add: object_0_def owed_destructor_def)
  show ?thesis
    using zend_objects_store_destructors_called [OF sample_handlers(1,3,4) store_16_steps(2) aligned_16 b]
      o store_16_steps(3) by fastforce
qed

end
