(* ===== verification/Zend_GC.thy ===== *)
theory Zend_GC
  imports Zend_Objects
begin

text \<open>
  The collector of cycles (\<open>Zend/zend_gc.c\<close>, \<open>Zend/zend_gc.h\<close>): the header words with colour and
  root number, the buffer of possible roots, the four walks over the values and the collection.
  The handlers of objects and the destruction of an array's values are parameters.
\<close>

subsection \<open>Colours and root numbers\<close>

type_synonym u16 = "16 word"

definition GC_COLOR :: u16 where
  "GC_COLOR = 0xc000"

definition GC_BLACK :: u16 where
  "GC_BLACK = 0x0000"

definition GC_WHITE :: u16 where
  "GC_WHITE = 0x8000"

definition GC_GREY :: u16 where
  "GC_GREY = 0x4000"

definition GC_PURPLE :: u16 where
  "GC_PURPLE = 0xc000"

definition GC_ADDRESS :: "u16 \<Rightarrow> u16" where
  "GC_ADDRESS v = v AND NOT GC_COLOR"

definition GC_INFO_GET_COLOR :: "u16 \<Rightarrow> u16" where
  "GC_INFO_GET_COLOR v = v AND GC_COLOR"

definition GC_INFO_SET_COLOR :: "u16 \<Rightarrow> u16 \<Rightarrow> u16" where
  "GC_INFO_SET_COLOR v c = (v AND NOT GC_COLOR) OR c"

definition GC_INFO_SET_BLACK :: "u16 \<Rightarrow> u16" where
  "GC_INFO_SET_BLACK v = v AND NOT GC_COLOR"

text \<open>One (0) is reserved.\<close>

definition GC_ROOT_BUFFER_MAX_ENTRIES :: nat where
  "GC_ROOT_BUFFER_MAX_ENTRIES = 10001"

definition GC_NUM_ADDITIONAL_ENTRIES :: nat where
  "GC_NUM_ADDITIONAL_ENTRIES = (4096 - 0 - 8 * 2) div 32"

definition GC_HAS_DESTRUCTORS :: u32 where
  "GC_HAS_DESTRUCTORS = push_bit 0 1"

subsection \<open>Values and counted structures\<close>

type_synonym gc_ref = pointer

text \<open>What the collector distinguishes in a value: \<open>IS_UNDEF\<close>, \<open>Z_REFCOUNTED\<close>, \<open>IS_INDIRECT\<close>.\<close>

datatype gc_zval = ZV_UNDEF | ZV_PLAIN | ZV_COUNTED gc_ref | ZV_INDIRECT addr

record gc_object =
  gco_handle :: u32
  gco_destructor_called :: bool
  gco_free_called :: bool
  gco_dtor :: "obj_handler option"
  gco_free :: "obj_handler option"
  gco_ce_destructor :: bool
  gco_offset :: pointer                  \<comment> \<open>\<open>handlers->offset\<close>\<close>
  gco_get_gc :: "(gc_zval list \<times> gc_zval list option) option"
    \<comment> \<open>what the handler \<open>get_gc\<close>, if it is not null, returns: the values \<open>table\<close> of length \<open>n\<close> and
      the values in the used buckets of a hash table, or null\<close>

text \<open>\<open>GC_TYPE\<close> with the content; an array is the values in its used buckets.\<close>

datatype gc_data = GC_OBJECT gc_object | GC_ARRAY "gc_zval list" | GC_REFERENCE gc_zval | GC_SCALAR

record gc_node =
  gc_refcount :: u32
  gc_info :: u16
  gc_collectable :: bool
  gc_type_null :: bool       \<comment> \<open>\<open>GC_TYPE\<close> was set to \<open>IS_NULL\<close>\<close>
  gc_data :: gc_data

subsection \<open>The buffer of roots\<close>

text \<open>
  Addresses of \<open>gc_root_buffer\<close>s: the heads of the lists \<open>roots\<close> and \<open>to_free\<close>, the local head in
  \<open>zend_gc_collect_cycles\<close>, the entries of \<open>buf\<close>, and those of the additional buffers, which are
  numbered from the oldest.
\<close>

datatype root_ptr = NULL_ROOT | ROOTS | TO_FREE | LOCAL_TO_FREE | BUF nat | ADDITIONAL nat nat

record gc_root_buffer =
  root_ref :: gc_ref
  root_next :: root_ptr
  root_prev :: root_ptr
  root_refcount :: u32

record gc_globals =
  gc_heap :: "gc_ref \<Rightarrow> gc_node option"
  gc_blocks :: "pointer \<Rightarrow> gc_ref option" \<comment> \<open>the structure in the block that starts there\<close>
  gc_slots :: "addr \<Rightarrow> gc_zval"          \<comment> \<open>what \<open>IS_INDIRECT\<close> values point to\<close>
  symbol_table :: gc_ref                 \<comment> \<open>\<open>&EG(symbol_table)\<close>\<close>
  gc_store :: "pointer list"             \<comment> \<open>\<open>EG(objects_store).object_buckets\<close>\<close>
  gc_free_list_head :: u32
  gc_enabled :: bool
  gc_active :: bool
  gc_full :: bool
  unclean_shutdown :: bool
  gc_buf :: bool                         \<comment> \<open>\<open>buf\<close> is allocated\<close>
  gc_roots :: "root_ptr \<Rightarrow> gc_root_buffer option"
  gc_unused :: root_ptr
  gc_first_unused :: nat                 \<comment> \<open>as an index\<close>
  gc_last_unused :: nat
  gc_next_to_free :: root_ptr
  additional_buffer :: "nat list"        \<comment> \<open>the field \<open>used\<close> of each, the newest first\<close>
  gc_runs :: u32
  gc_collected :: u32

text \<open>The type \<open>IS_NULL\<close> is none of those the collector looks into.\<close>

definition gc_type_data :: "gc_node \<Rightarrow> gc_data" where
  "gc_type_data nd = (if gc_type_null nd then GC_SCALAR else gc_data nd)"

definition node_at :: "gc_ref \<Rightarrow> gc_globals \<Rightarrow> gc_node res" where
  "node_at r s = (case gc_heap s r of None \<Rightarrow> Inl UB_USE_AFTER_FREE | Some nd \<Rightarrow> Inr nd)"

definition change_node :: "gc_ref \<Rightarrow> (gc_node \<Rightarrow> gc_node) \<Rightarrow> gc_globals \<Rightarrow> gc_globals res" where
  "change_node r f s = res_bind (node_at r s) (\<lambda>nd. Inr (s\<lparr>gc_heap := (gc_heap s)(r \<mapsto> f nd)\<rparr>))"

definition GC_ADDREF :: "gc_ref \<Rightarrow> gc_globals \<Rightarrow> gc_globals res" where
  "GC_ADDREF r = change_node r (\<lambda>nd. nd\<lparr>gc_refcount := gc_refcount nd + 1\<rparr>)"

definition GC_DELREF :: "gc_ref \<Rightarrow> gc_globals \<Rightarrow> gc_globals res" where
  "GC_DELREF r = change_node r (\<lambda>nd. nd\<lparr>gc_refcount := gc_refcount nd - 1\<rparr>)"

definition GC_SET_INFO :: "gc_ref \<Rightarrow> u16 \<Rightarrow> gc_globals \<Rightarrow> gc_globals res" where
  "GC_SET_INFO r v = change_node r (\<lambda>nd. nd\<lparr>gc_info := v\<rparr>)"

definition GC_REF_SET_COLOR :: "gc_ref \<Rightarrow> u16 \<Rightarrow> gc_globals \<Rightarrow> gc_globals res" where
  "GC_REF_SET_COLOR r c = change_node r (\<lambda>nd. nd\<lparr>gc_info := GC_INFO_SET_COLOR (gc_info nd) c\<rparr>)"

definition GC_REF_SET_BLACK :: "gc_ref \<Rightarrow> gc_globals \<Rightarrow> gc_globals res" where
  "GC_REF_SET_BLACK r = change_node r (\<lambda>nd. nd\<lparr>gc_info := GC_INFO_SET_BLACK (gc_info nd)\<rparr>)"

definition GC_REF_GET_COLOR :: "gc_node \<Rightarrow> u16" where
  "GC_REF_GET_COLOR nd = GC_INFO_GET_COLOR (gc_info nd)"

definition root_at :: "root_ptr \<Rightarrow> gc_globals \<Rightarrow> gc_root_buffer res" where
  "root_at p s = (case gc_roots s p of
       None \<Rightarrow> Inl (if p = NULL_ROOT then UB_NULL_POINTER else UB_USE_AFTER_FREE) | Some b \<Rightarrow> Inr b)"

definition change_root :: "root_ptr \<Rightarrow> (gc_root_buffer \<Rightarrow> gc_root_buffer) \<Rightarrow> gc_globals \<Rightarrow> gc_globals res" where
  "change_root p f s = res_bind (root_at p s) (\<lambda>b. Inr (s\<lparr>gc_roots := (gc_roots s)(p \<mapsto> f b)\<rparr>))"

definition set_next :: "root_ptr \<Rightarrow> root_ptr \<Rightarrow> gc_globals \<Rightarrow> gc_globals res" where
  "set_next p q = change_root p (\<lambda>b. b\<lparr>root_next := q\<rparr>)"

definition set_prev :: "root_ptr \<Rightarrow> root_ptr \<Rightarrow> gc_globals \<Rightarrow> gc_globals res" where
  "set_prev p q = change_root p (\<lambda>b. b\<lparr>root_prev := q\<rparr>)"

text \<open>\<open>root->next->prev = root->prev; root->prev->next = root->next\<close>.\<close>

definition gc_remove_from_additional_roots :: "root_ptr \<Rightarrow> gc_globals \<Rightarrow> gc_globals res" where
  "gc_remove_from_additional_roots root s =
     res_bind (root_at root s) (\<lambda>b.
     res_bind (set_prev (root_next b) (root_prev b) s) (\<lambda>s.
     res_bind (root_at root s) (\<lambda>b. set_next (root_prev b) (root_next b) s)))"

text \<open>An entry of \<open>buf\<close> goes to the list of unused entries, which is linked by \<open>prev\<close>.\<close>

definition give_back :: "root_ptr \<Rightarrow> gc_globals \<Rightarrow> gc_globals res" where
  "give_back root s = res_bind (set_prev root (gc_unused s) s) (\<lambda>s. Inr (s\<lparr>gc_unused := root\<rparr>))"

definition gc_remove_from_roots :: "root_ptr \<Rightarrow> gc_globals \<Rightarrow> gc_globals res" where
  "gc_remove_from_roots root s = res_bind (gc_remove_from_additional_roots root s) (give_back root)"

definition empty_list :: "root_ptr \<Rightarrow> gc_globals \<Rightarrow> gc_globals res" where
  "empty_list head s = res_bind (set_next head head s) (set_prev head head)"

definition gc_globals_ctor_ex :: "gc_globals \<Rightarrow> gc_globals res" where
  "gc_globals_ctor_ex s =
     res_bind (empty_list ROOTS (s\<lparr>gc_enabled := False, gc_active := False, gc_buf := False\<rparr>)) (\<lambda>s.
     res_bind (empty_list TO_FREE (s\<lparr>gc_unused := NULL_ROOT, gc_next_to_free := NULL_ROOT\<rparr>)) (\<lambda>s.
       Inr (s\<lparr>gc_runs := 0, gc_collected := 0, additional_buffer := []\<rparr>)))"

definition gc_reset :: "gc_globals \<Rightarrow> gc_globals res" where
  "gc_reset s =
     res_bind (empty_list ROOTS (s\<lparr>gc_runs := 0, gc_collected := 0, gc_full := False\<rparr>)) (\<lambda>s.
     res_bind (empty_list TO_FREE s) (\<lambda>s.
       let s = (if gc_buf s then s\<lparr>gc_unused := NULL_ROOT, gc_first_unused := 0 + 1\<rparr>
                else s\<lparr>gc_unused := NULL_ROOT, gc_first_unused := 0, gc_last_unused := 0\<rparr>)
       in Inr (s\<lparr>additional_buffer := []\<rparr>)))"

text \<open>The content of an entry that was never written.\<close>

definition unset_root :: gc_root_buffer where
  "unset_root = \<lparr>root_ref = 0, root_next = NULL_ROOT, root_prev = NULL_ROOT, root_refcount = 0\<rparr>"

definition gc_init :: "gc_globals \<Rightarrow> gc_globals res" where
  "gc_init s =
     (if \<not> gc_buf s \<and> gc_enabled s then
        gc_reset (s\<lparr>gc_buf := True,
          gc_roots := (\<lambda>p. case p of
             BUF i \<Rightarrow> if i < GC_ROOT_BUFFER_MAX_ENTRIES then Some unset_root else None
           | _ \<Rightarrow> gc_roots s p),
          gc_last_unused := GC_ROOT_BUFFER_MAX_ENTRIES\<rparr>)
      else Inr s)"

text \<open>A new entry at the front of \<open>roots\<close>.\<close>

definition link_root :: "root_ptr \<Rightarrow> gc_ref \<Rightarrow> gc_globals \<Rightarrow> gc_globals res" where
  "link_root p r s =
     res_bind (change_root p (\<lambda>b. b\<lparr>root_ref := r\<rparr>) s) (\<lambda>s.
     res_bind (root_at ROOTS s) (\<lambda>h.
     res_bind (set_next p (root_next h) s) (\<lambda>s.
     res_bind (set_prev p ROOTS s) (\<lambda>s.
     res_bind (root_at ROOTS s) (\<lambda>h.
     res_bind (set_prev (root_next h) p s) (set_next ROOTS p))))))"

definition buf_index :: "root_ptr \<Rightarrow> u16" where
  "buf_index p = (case p of BUF i \<Rightarrow> of_nat i | _ \<Rightarrow> 0)"

text \<open>The entry at the head of the unused ones, \<open>GC_G(unused) = newRoot->prev\<close>.\<close>

definition pop_unused :: "gc_globals \<Rightarrow> (root_ptr \<times> gc_globals) res" where
  "pop_unused s = res_bind (root_at (gc_unused s) s) (\<lambda>b. Inr (gc_unused s, s\<lparr>gc_unused := root_prev b\<rparr>))"

definition record_root :: "gc_ref \<Rightarrow> root_ptr \<times> gc_globals \<Rightarrow> gc_globals res" where
  "record_root r ps = res_bind (GC_SET_INFO r (buf_index (fst ps) OR GC_PURPLE) (snd ps)) (link_root (fst ps) r)"

text \<open>
  \<open>gc_collect_cycles\<close> is a function pointer; \<open>zval_dtor_func\<close> destroys a structure nobody
  references any more.
\<close>

record gc_env =
  gc_collect_cycles :: "gc_globals \<Rightarrow> gc_globals res"
  zval_dtor_func :: "gc_ref \<Rightarrow> gc_globals \<Rightarrow> gc_globals res"

definition collect_for_root :: "gc_env \<Rightarrow> gc_ref \<Rightarrow> gc_globals \<Rightarrow> gc_globals res" where
  "collect_for_root env r s =
     res_bind (GC_ADDREF r s) (\<lambda>s.
     res_bind (gc_collect_cycles env s) (\<lambda>s.
     res_bind (GC_DELREF r s) (\<lambda>s.
     res_bind (node_at r s) (\<lambda>nd.
       if gc_refcount nd = 0 then zval_dtor_func env r s
       else if gc_info nd \<noteq> 0 then Inr s
       else if gc_unused s = NULL_ROOT then Inr s
       else res_bind (pop_unused s) (record_root r)))))"

definition gc_possible_root :: "gc_env \<Rightarrow> gc_ref \<Rightarrow> gc_globals \<Rightarrow> gc_globals res" where
  "gc_possible_root env r s =
     (if unclean_shutdown s \<or> gc_active s then Inr s
      else
        res_bind (node_at r s) (\<lambda>nd.
          if \<not> (case gc_type_data nd of GC_ARRAY _ \<Rightarrow> True | GC_OBJECT _ \<Rightarrow> True | _ \<Rightarrow> False) \<or>
             GC_REF_GET_COLOR nd \<noteq> GC_BLACK \<or> GC_ADDRESS (gc_info nd) \<noteq> 0
          then Inl UB_ASSUME
          else if gc_unused s \<noteq> NULL_ROOT then res_bind (pop_unused s) (record_root r)
          else if gc_first_unused s \<noteq> gc_last_unused s then
            record_root r (BUF (gc_first_unused s), s\<lparr>gc_first_unused := gc_first_unused s + 1\<rparr>)
          else if \<not> gc_enabled s then Inr s
          else collect_for_root env r s))"

definition GC_MAY_LEAK :: "gc_node \<Rightarrow> bool" where
  "GC_MAY_LEAK nd \<longleftrightarrow> gc_info nd = 0 \<and> gc_collectable nd"

definition gc_check_possible_root :: "gc_env \<Rightarrow> gc_ref \<Rightarrow> gc_globals \<Rightarrow> gc_globals res" where
  "gc_check_possible_root env r s =
     res_bind (node_at r s) (\<lambda>nd.
     case gc_type_data nd of
       GC_REFERENCE z \<Rightarrow> (case z of
           ZV_COUNTED q \<Rightarrow> res_bind (node_at q s) (\<lambda>nd. if GC_MAY_LEAK nd then gc_possible_root env q s else Inr s)
         | _ \<Rightarrow> Inr s)
     | _ \<Rightarrow> if GC_MAY_LEAK nd then gc_possible_root env r s else Inr s)"

text \<open>The additional buffers from the newest on; the number of the newest is the number of the older ones.\<close>

fun find_additional :: "u32 \<Rightarrow> gc_ref \<Rightarrow> nat list \<Rightarrow> gc_globals \<Rightarrow> root_ptr res" where
  "find_additional idx r [] s = Inl UB_ASSUME"
| "find_additional idx r (used # bufs) s =
     (if unat idx < used then
        res_bind (root_at (ADDITIONAL (length bufs) (unat idx)) s) (\<lambda>b.
          if root_ref b = r then Inr (ADDITIONAL (length bufs) (unat idx)) else find_additional idx r bufs s)
      else find_additional idx r bufs s)"

definition gc_find_additional_buffer :: "gc_ref \<Rightarrow> gc_globals \<Rightarrow> root_ptr res" where
  "gc_find_additional_buffer r s =
     res_bind (node_at r s) (\<lambda>nd.
       find_additional (ucast (GC_ADDRESS (gc_info nd)) - of_nat GC_ROOT_BUFFER_MAX_ENTRIES) r (additional_buffer s) s)"

definition gc_remove_from_buffer :: "gc_ref \<Rightarrow> gc_globals \<Rightarrow> gc_globals res" where
  "gc_remove_from_buffer r s =
     res_bind (node_at r s) (\<lambda>nd.
       if GC_ADDRESS (gc_info nd) = 0 then Inl UB_ASSUME
       else
         res_bind
           (if unat (GC_ADDRESS (gc_info nd)) < GC_ROOT_BUFFER_MAX_ENTRIES then
              let root = BUF (unat (GC_ADDRESS (gc_info nd))) in
              res_bind (gc_remove_from_roots root s) (\<lambda>s. Inr (root, s))
            else
              res_bind (gc_find_additional_buffer r s) (\<lambda>root.
              res_bind (gc_remove_from_additional_roots root s) (\<lambda>s. Inr (root, s))))
           (\<lambda>(root, s).
              res_bind (GC_SET_INFO r 0 s) (\<lambda>s.
                if gc_next_to_free s = root then
                  res_bind (root_at root s) (\<lambda>b. Inr (s\<lparr>gc_next_to_free := root_next b\<rparr>))
                else Inr s)))"

definition GC_REMOVE_FROM_BUFFER :: "gc_ref \<Rightarrow> gc_globals \<Rightarrow> gc_globals res" where
  "GC_REMOVE_FROM_BUFFER r s =
     res_bind (node_at r s) (\<lambda>nd. if GC_ADDRESS (gc_info nd) \<noteq> 0 then gc_remove_from_buffer r s else Inr s)"

end
