(* ===== verification/Chains.thy ===== *)
theory Chains
  imports Prelude
begin

text \<open>
  Doubly linked lists between addresses, as two partial maps, circular through the address of their head;
  and loops from an entry to the end of a list.
\<close>

subsection \<open>Chains\<close>

fun chain :: "('p \<Rightarrow> 'p option) \<Rightarrow> ('p \<Rightarrow> 'p option) \<Rightarrow> 'p \<Rightarrow> 'p list \<Rightarrow> 'p \<Rightarrow> bool" where
  "chain nx pv p [] q \<longleftrightarrow> nx p = Some q \<and> pv q = Some p"
| "chain nx pv p (x # xs) q \<longleftrightarrow> nx p = Some x \<and> pv x = Some p \<and> chain nx pv x xs q"

definition ring :: "('p \<Rightarrow> 'p option) \<Rightarrow> ('p \<Rightarrow> 'p option) \<Rightarrow> 'p \<Rightarrow> 'p list \<Rightarrow> bool" where
  "ring nx pv h xs \<longleftrightarrow> distinct (h # xs) \<and> chain nx pv h xs h"

lemma links_join: "chain nx pv p (xs @ x # ys) q \<longleftrightarrow> chain nx pv p xs x \<and> chain nx pv x ys q"
  by (induction xs arbitrary: p) auto

lemma chain_nx: "y \<notin> set (p # xs) \<Longrightarrow> chain (nx(y := v)) pv p xs q = chain nx pv p xs q"
  by (induction xs arbitrary: p) auto

lemma chain_pv: "y \<notin> set (xs @ [q]) \<Longrightarrow> chain nx (pv(y := v)) p xs q = chain nx pv p xs q"
  by (induction xs arbitrary: p) auto

lemma chain_first: "chain nx pv p xs q \<Longrightarrow> nx p = Some (hd (xs @ [q]))"
  by (cases xs) auto

lemma chain_last: "chain nx pv p xs q \<Longrightarrow> pv q = Some (last (p # xs))"
  by (induction xs arbitrary: p) auto

lemma chain_retarget:
  "chain nx pv p xs x \<Longrightarrow> distinct (p # xs) \<Longrightarrow> b \<notin> set xs \<Longrightarrow>
    chain (nx(last (p # xs) := Some b)) (pv(b := Some (last (p # xs)))) p xs b"
proof (induction xs arbitrary: p)
  case (Cons y ys)
  have "chain (nx(last (y # ys) := Some b)) (pv(b := Some (last (y # ys)))) y ys b"
    by (rule Cons.IH) (use Cons.prems in auto)
  moreover have "last (y # ys) \<noteq> p" using Cons.prems(2) last_in_set [of "y # ys"] by auto
  moreover have "last (p # y # ys) = last (y # ys)" by simp
  ultimately show ?case using Cons.prems(1,3) unfolding chain.simps(2) by (metis fun_upd_other list.set_intros(1))
qed simp

lemma ring_remove:
  assumes r: "ring nx pv h (xs @ x # ys)"
  defines "a \<equiv> last (h # xs)" and "b \<equiv> hd (ys @ [h])"
  shows "ring (nx(a := Some b)) (pv(b := Some a)) h (xs @ ys)" "nx x = Some b" "pv x = Some a"
proof -
  have c: "chain nx pv h xs x" "chain nx pv x ys h" and d: "distinct (h # xs @ x # ys)"
    using r by (auto simp: ring_def links_join)
  show "nx x = Some b" "pv x = Some a" using chain_first [OF c(2)] chain_last [OF c(1)] by (simp_all add: a_def b_def)
  have a: "a \<in> set (h # xs)" using last_in_set [of "h # xs"] by (simp add: a_def del: last.simps)
  have t: "chain (nx(a := Some b)) (pv(b := Some a)) h xs b"
    using chain_retarget [OF c(1), of b] d by (cases ys) (auto simp: a_def b_def)
  have "chain (nx(a := Some b)) (pv(b := Some a)) h (xs @ ys) h"
  proof (cases ys)
    case Nil
    then show ?thesis using t by (simp add: b_def)
  next
    case (Cons y zs)
    then have b: "b = y" by (simp add: b_def)
    have na: "a \<notin> set (y # zs)" using a d Cons by auto
    have nb: "y \<notin> set (zs @ [h])" using d Cons by auto
    have "chain nx pv y zs h" using c(2) Cons by simp
    then have "chain (nx(a := Some b)) (pv(b := Some a)) y zs h" using na nb by (simp add: chain_nx chain_pv b)
    then show ?thesis using t Cons b by (simp add: links_join)
  qed
  then show "ring (nx(a := Some b)) (pv(b := Some a)) h (xs @ ys)" using d by (simp add: ring_def)
qed

lemma ring_insert:
  assumes r: "ring nx pv h xs" and p: "p \<notin> set (h # xs)"
  defines "f \<equiv> hd (xs @ [h])"
  shows "ring (nx(p := Some f, h := Some p)) (pv(p := Some h, f := Some p)) h (p # xs)" "nx h = Some f"
proof -
  have c: "chain nx pv h xs h" and d: "distinct (h # xs)" using r by (auto simp: ring_def)
  show "nx h = Some f" using chain_first [OF c] by (simp add: f_def)
  show "ring (nx(p := Some f, h := Some p)) (pv(p := Some h, f := Some p)) h (p # xs)"
  proof (cases xs)
    case Nil
    then show ?thesis using p d by (auto simp: ring_def f_def)
  next
    case (Cons y zs)
    then have f: "f = y" by (simp add: f_def)
    have "chain (nx(p := Some f, h := Some p)) (pv(p := Some h, f := Some p)) y zs h = chain nx pv y zs h"
      using p d Cons chain_nx [of h y zs] chain_nx [of p y zs] chain_pv [of p zs h] chain_pv [of y zs h] by (auto simp: f)
    then show ?thesis using c p d Cons by (auto simp: ring_def f)
  qed
qed

lemma ring_cong: "(\<And>x. x \<in> set (h # xs) \<Longrightarrow> nx x = nx' x \<and> pv x = pv' x) \<Longrightarrow> ring nx pv h xs = ring nx' pv' h xs"
proof -
  assume eq: "\<And>x. x \<in> set (h # xs) \<Longrightarrow> nx x = nx' x \<and> pv x = pv' x"
  have "set (p # ys @ [q]) \<subseteq> set (h # xs) \<Longrightarrow> chain nx pv p ys q = chain nx' pv' p ys q" for p ys q
    using eq by (induction ys arbitrary: p) auto
  then show ?thesis by (auto simp: ring_def)
qed

lemma ring_defined: "ring nx pv h xs \<Longrightarrow> x \<in> set (h # xs) \<Longrightarrow> nx x \<noteq> None \<and> pv x \<noteq> None"
proof -
  have "chain nx pv p ys q \<Longrightarrow> (\<forall>x\<in>set (p # ys). nx x \<noteq> None) \<and> (\<forall>x\<in>set (ys @ [q]). pv x \<noteq> None)" for p ys q
    by (induction ys arbitrary: p) auto
  then show "ring nx pv h xs \<Longrightarrow> x \<in> set (h # xs) \<Longrightarrow> nx x \<noteq> None \<and> pv x \<noteq> None" by (auto simp: ring_def)
qed

lemma ring_next:
  assumes "ring nx pv h (xs @ x # ys)"
  shows "nx x = Some (hd (ys @ [h]))" "x \<noteq> h"
  using assms chain_first [of nx pv x ys h] by (auto simp: ring_def links_join)

text \<open>The list of another head.\<close>

lemma ring_move:
  assumes r: "ring nx pv a xs" and b: "b \<notin> set (a # xs)" and ne: "xs \<noteq> []"
  shows "ring (nx(b := Some (hd xs), last xs := Some b)) (pv(b := Some (last xs), hd xs := Some b)) b xs"
    "nx a = Some (hd xs)" "pv a = Some (last xs)"
proof -
  have c: "chain nx pv a xs a" and d: "distinct (a # xs)" using r by (auto simp: ring_def)
  show "nx a = Some (hd xs)" "pv a = Some (last xs)" using chain_first [OF c] chain_last [OF c] ne by simp_all
  obtain y zs where xs: "xs = y # zs" using ne by (cases xs) auto
  have "chain nx pv y zs a" using c xs by simp
  then have "chain (nx(last (y # zs) := Some b)) (pv(b := Some (last (y # zs)))) y zs b"
    using chain_retarget [of nx pv y zs a b] d b xs by simp
  then have "chain (nx(last (y # zs) := Some b, b := Some y)) (pv(b := Some (last (y # zs)), y := Some b)) y zs b"
    using d b xs by (subst chain_nx, simp, subst chain_pv, auto)
  moreover have "nx(last (y # zs) := Some b, b := Some y) = nx(b := Some y, last (y # zs) := Some b)"
    using b xs last_in_set [of "y # zs"] by (intro fun_upd_twist) auto
  ultimately show "ring (nx(b := Some (hd xs), last xs := Some b)) (pv(b := Some (last xs), hd xs := Some b)) b xs"
    using d b xs last_in_set [of "y # zs"] by (auto simp: ring_def)
qed

subsection \<open>Loops\<close>

text \<open>From an entry to the head of the list; the body says which entry is next.\<close>

partial_function (option) list_loop :: "('p \<Rightarrow> 's \<Rightarrow> ('p \<times> 's) res) \<Rightarrow> 'p \<Rightarrow> 'p \<Rightarrow> 's \<Rightarrow> 's res option" where
  "list_loop body head current s =
     (if current = head then Some (Inr s)
      else case body current s of
        Inl e \<Rightarrow> Some (Inl e)
      | Inr (next_entry, s) \<Rightarrow> list_loop body head next_entry s)"

definition run_bind :: "'a res option \<Rightarrow> ('a \<Rightarrow> 'b res option) \<Rightarrow> 'b res option" where
  "run_bind m f = (case m of None \<Rightarrow> None | Some (Inl e) \<Rightarrow> Some (Inl e) | Some (Inr x) \<Rightarrow> f x)"

text \<open>A property of the entries still to come and the state.\<close>

lemma list_loop_inv:
  assumes "P ps s"
    and step: "\<And>p ps s. P (p # ps) s \<Longrightarrow> p \<noteq> h \<and> (\<exists>s'. body p s = Inr (hd (ps @ [h]), s') \<and> P ps s')"
  shows "\<exists>s'. list_loop body h (hd (ps @ [h])) s = Some (Inr s') \<and> P [] s'"
  using assms(1)
proof (induction ps arbitrary: s)
  case Nil
  then show ?case by (simp add: list_loop.simps)
next
  case (Cons p ps)
  obtain s' where s': "p \<noteq> h" "body p s = Inr (hd (ps @ [h]), s')" "P ps s'" using step [OF Cons.prems] by blast
  then show ?case using Cons.IH [OF s'(3)] by (simp add: list_loop.simps [of body h p])
qed

text \<open>A loop over a list that stays.\<close>

lemma listed_loop:
  assumes "P [] ps s"
    and step: "\<And>dn p ps' s. dn @ p # ps' = ps \<Longrightarrow> P dn (p # ps') s \<Longrightarrow> p \<noteq> h \<and> (\<exists>s'. body p s = Inr (hd (ps' @ [h]), s') \<and> P (dn @ [p]) ps' s')"
  shows "\<exists>s'. list_loop body h (hd (ps @ [h])) s = Some (Inr s') \<and> P ps [] s'"
proof -
  let ?Q = "\<lambda>qs s. \<exists>dn. dn @ qs = ps \<and> P dn qs s"
  have "\<exists>s'. list_loop body h (hd (ps @ [h])) s = Some (Inr s') \<and> ?Q [] s'"
  proof (rule list_loop_inv [where P = ?Q])
    show "?Q ps s" using assms(1) by auto
    fix p qs s assume "?Q (p # qs) s"
    then obtain dn where dn: "dn @ p # qs = ps" "P dn (p # qs) s" by blast
    then obtain s' where "p \<noteq> h" "body p s = Inr (hd (qs @ [h]), s')" "P (dn @ [p]) qs s'" using step by blast
    moreover have "(dn @ [p]) @ qs = ps" using dn(1) by simp
    ultimately show "p \<noteq> h \<and> (\<exists>s'. body p s = Inr (hd (qs @ [h]), s') \<and> ?Q qs s')" by blast
  qed
  then show ?thesis by auto
qed

text \<open>A loop whose list may lose entries to come.\<close>

lemma shrinking_loop:
  assumes "P K ps s"
    and step: "\<And>K p ps s. P K (p # ps) s \<Longrightarrow> p \<noteq> h \<and> (\<exists>s' ps'. body p s = Inr (hd (ps' @ [h]), s') \<and> P (K @ [p]) ps' s' \<and> length ps' \<le> length ps)"
  shows "\<exists>s' K'. list_loop body h (hd (ps @ [h])) s = Some (Inr s') \<and> P K' [] s'"
  using assms(1)
proof (induction ps arbitrary: K s rule: measure_induct_rule [where f = length])
  case (less ps)
  show ?case
  proof (cases ps)
    case Nil
    then show ?thesis using less.prems by (auto simp: list_loop.simps)
  next
    case (Cons p qs)
    then obtain s' ps' where s': "p \<noteq> h" "body p s = Inr (hd (ps' @ [h]), s')" "P (K @ [p]) ps' s'" "length ps' \<le> length qs"
      using step [of K p qs s] less.prems by blast
    then show ?thesis using less.IH [OF _ s'(3)] Cons by (simp add: list_loop.simps [of body h p])
  qed
qed

end
