(* ===== verification/Zend_GC_Walk.thy ===== *)
theory Zend_GC_Walk
  imports Zend_GC Chains
begin

text \<open>
  The walks of the collector over the values of arrays, objects and references, and the loops over the
  buffer of roots (\<open>Zend/zend_gc.c\<close>). The recursion takes the number
  of nested calls the stack has room for; that as many as there are structures are enough is a theorem.
\<close>

subsection \<open>The values of a structure\<close>

text \<open>The backward search for the last counted value: what is before it, and what was skipped.\<close>

fun split_last :: "gc_zval list \<Rightarrow> (gc_zval list \<times> gc_ref \<times> gc_zval list) option" where
  "split_last [] = None"
| "split_last (z # zs) = (case split_last zs of
       Some (front, r, skipped) \<Rightarrow> Some (z # front, r, skipped)
     | None \<Rightarrow> (case z of ZV_COUNTED r \<Rightarrow> Some ([], r, zs) | _ \<Rightarrow> None))"

text \<open>In the buckets of a table, \<open>IS_INDIRECT\<close> values stand for what they point to.\<close>

definition follow :: "gc_globals \<Rightarrow> gc_zval \<Rightarrow> gc_zval" where
  "follow s z = (case z of ZV_INDIRECT a \<Rightarrow> gc_slots s a | _ \<Rightarrow> z)"

definition on_counted :: "(gc_ref \<Rightarrow> 's \<Rightarrow> 's res) \<Rightarrow> gc_zval \<Rightarrow> 's \<Rightarrow> 's res" where
  "on_counted visit z s = (case z of ZV_COUNTED r \<Rightarrow> visit r s | _ \<Rightarrow> Inr s)"

text \<open>The counted values in order, the last one by the jump to \<open>tail_call\<close>.\<close>

definition each_counted :: "(gc_ref \<Rightarrow> 's \<Rightarrow> 's res) \<Rightarrow> gc_zval list \<Rightarrow> 's \<Rightarrow> 's res" where
  "each_counted visit zs s = (case split_last zs of
       None \<Rightarrow> Inr s
     | Some (front, r, _) \<Rightarrow> res_bind (for_each (on_counted visit) front s) (visit r))"

text \<open>
  The walk the routines share, up to what they do at a value. An object's free handler was called,
  or it has no \<open>get_gc\<close>: nothing to visit.
\<close>

definition gc_walk :: "(gc_ref \<Rightarrow> gc_globals \<Rightarrow> gc_globals res) \<Rightarrow> gc_node \<Rightarrow> gc_globals \<Rightarrow> gc_globals res" where
  "gc_walk visit nd s = (case gc_type_data nd of
       GC_OBJECT ob \<Rightarrow>
         if gco_free_called ob then Inr s
         else (case gco_get_gc ob of
             None \<Rightarrow> Inr s
           | Some (zv, None) \<Rightarrow> each_counted visit zv s
           | Some (zv, Some ht) \<Rightarrow>
               res_bind (for_each (on_counted visit) zv s) (each_counted visit (map (follow s) ht)))
     | GC_ARRAY ht \<Rightarrow> each_counted visit (map (follow s) ht) s
     | GC_REFERENCE z \<Rightarrow> on_counted visit z s
     | GC_SCALAR \<Rightarrow> Inr s)"

definition is_symbol_table :: "gc_ref \<Rightarrow> gc_node \<Rightarrow> gc_globals \<Rightarrow> bool" where
  "is_symbol_table r nd s \<longleftrightarrow> (case gc_type_data nd of GC_ARRAY _ \<Rightarrow> r = symbol_table s | _ \<Rightarrow> False)"

subsection \<open>The walks\<close>

primrec gc_scan_black :: "nat \<Rightarrow> gc_ref \<Rightarrow> gc_globals \<Rightarrow> gc_globals res" where
  "gc_scan_black 0 r s = Inl UB_STACK_OVERFLOW"
| "gc_scan_black (Suc depth) r s =
     res_bind (GC_REF_SET_BLACK r s) (\<lambda>s.
     res_bind (node_at r s) (\<lambda>nd.
       if is_symbol_table r nd s then Inr s
       else gc_walk (\<lambda>q s.
              res_bind (GC_ADDREF q s) (\<lambda>s.
              res_bind (node_at q s) (\<lambda>nd.
                if GC_REF_GET_COLOR nd \<noteq> GC_BLACK then gc_scan_black depth q s else Inr s))) nd s))"

primrec gc_mark_grey :: "nat \<Rightarrow> gc_ref \<Rightarrow> gc_globals \<Rightarrow> gc_globals res" where
  "gc_mark_grey 0 r s = Inl UB_STACK_OVERFLOW"
| "gc_mark_grey (Suc depth) r s =
     res_bind (node_at r s) (\<lambda>nd.
       if GC_REF_GET_COLOR nd \<noteq> GC_GREY then
         res_bind (GC_REF_SET_COLOR r GC_GREY s) (\<lambda>s.
           if is_symbol_table r nd s then GC_REF_SET_BLACK r s
           else gc_walk (\<lambda>q s. res_bind (GC_DELREF q s) (gc_mark_grey depth q)) nd s)
       else Inr s)"

primrec gc_scan :: "nat \<Rightarrow> gc_ref \<Rightarrow> gc_globals \<Rightarrow> gc_globals res" where
  "gc_scan 0 r s = Inl UB_STACK_OVERFLOW"
| "gc_scan (Suc depth) r s =
     res_bind (node_at r s) (\<lambda>nd.
       if GC_REF_GET_COLOR nd = GC_GREY then
         if gc_refcount nd > 0 then gc_scan_black depth r s
         else
           res_bind (GC_REF_SET_COLOR r GC_WHITE s) (\<lambda>s.
             if is_symbol_table r nd s then GC_REF_SET_BLACK r s
             else gc_walk (gc_scan depth) nd s)
       else Inr s)"

text \<open>Another additional buffer, when the newest is full.\<close>

definition grow_additional :: "gc_globals \<Rightarrow> gc_globals" where
  "grow_additional s =
     (let bufs = additional_buffer s in
      if bufs = [] \<or> hd bufs = GC_NUM_ADDITIONAL_ENTRIES then
        s\<lparr>additional_buffer := 0 # bufs,
          gc_roots := (\<lambda>p. case p of
              ADDITIONAL b i \<Rightarrow>
                if b = length bufs then (if i < GC_NUM_ADDITIONAL_ENTRIES then Some unset_root else None)
                else gc_roots s p
            | _ \<Rightarrow> gc_roots s p)\<rparr>
      else s)"

text \<open>A new entry for a structure found to be garbage.\<close>

definition gc_add_garbage :: "gc_ref \<Rightarrow> gc_globals \<Rightarrow> gc_globals res" where
  "gc_add_garbage r s =
     (if gc_unused s \<noteq> NULL_ROOT then
        res_bind (pop_unused s) (\<lambda>(p, s). res_bind (GC_SET_INFO r (buf_index p) s) (link_root p r))
      else if gc_first_unused s \<noteq> gc_last_unused s then
        let p = BUF (gc_first_unused s); s = s\<lparr>gc_first_unused := gc_first_unused s + 1\<rparr>
        in res_bind (GC_SET_INFO r (buf_index p) s) (link_root p r)
      else
        let s = grow_additional s;
            n = length (additional_buffer s) - 1; used = hd (additional_buffer s); p = ADDITIONAL n used
        in res_bind (GC_SET_INFO r (of_nat (GC_ROOT_BUFFER_MAX_ENTRIES + used)) s) (\<lambda>s.
             link_root p r (s\<lparr>additional_buffer := (used + 1) # tl (additional_buffer s)\<rparr>)))"

text \<open>The count, the flags and the state; the count a call returns is added to its caller's.\<close>

type_synonym counting = "u32 \<times> u32 \<times> gc_globals"

definition counting_state :: "(gc_globals \<Rightarrow> gc_globals res) \<Rightarrow> counting \<Rightarrow> counting res" where
  "counting_state f c = (case c of (num, flags, s) \<Rightarrow> res_bind (f s) (\<lambda>s. Inr (num, flags, s)))"

definition add_count :: "nat \<Rightarrow> counting \<Rightarrow> counting" where
  "add_count n c = (case c of (num, flags, s) \<Rightarrow> (num + of_nat n, flags, s))"

text \<open>Values that are not counted count for themselves, unless they are undefined.\<close>

definition collect_value :: "(gc_ref \<Rightarrow> counting \<Rightarrow> counting res) \<Rightarrow> gc_zval \<Rightarrow> counting \<Rightarrow> counting res" where
  "collect_value visit z c = (case z of
       ZV_COUNTED r \<Rightarrow> visit r c
     | ZV_UNDEF \<Rightarrow> Inr c
     | _ \<Rightarrow> Inr (add_count 1 c))"

definition collect_each :: "(gc_ref \<Rightarrow> counting \<Rightarrow> counting res) \<Rightarrow> (gc_zval list \<Rightarrow> nat) \<Rightarrow> gc_zval list \<Rightarrow>
    counting \<Rightarrow> counting res" where
  "collect_each visit skip_count zs c = (case split_last zs of
       None \<Rightarrow> Inr (add_count (skip_count zs) c)
     | Some (front, r, skipped) \<Rightarrow>
         res_bind (for_each (collect_value visit) front (add_count (skip_count skipped) c)) (visit r))"

text \<open>
  The values skipped at the end: of a hash table those that are defined; of an object's own values,
  the code looks at the first value each time (\<open>zv\<close>, not \<open>end\<close>).
\<close>

definition skipped_in_table :: "gc_zval list \<Rightarrow> nat" where
  "skipped_in_table skipped = length (filter (\<lambda>z. z \<noteq> ZV_UNDEF) skipped)"

definition skipped_in_object :: "gc_zval list \<Rightarrow> gc_zval list \<Rightarrow> nat" where
  "skipped_in_object zv skipped = (if zv \<noteq> [] \<and> hd zv \<noteq> ZV_UNDEF then length skipped else 0)"

definition gc_destructor_of :: "gc_object \<Rightarrow> obj_handler option" where
  "gc_destructor_of ob = (case gco_dtor ob of None \<Rightarrow> None
     | Some d \<Rightarrow> if d \<noteq> ZEND_OBJECTS_DESTROY_OBJECT \<or> gco_ce_destructor ob then Some d else None)"

definition add_if_new :: "gc_ref \<Rightarrow> gc_globals \<Rightarrow> gc_globals res" where
  "add_if_new r s = res_bind (node_at r s) (\<lambda>nd. if gc_info nd = 0 then gc_add_garbage r s else Inr s)"

text \<open>What \<open>gc_collect_white\<close> does below a structure it has just coloured black.\<close>

definition collect_walk :: "(gc_ref \<Rightarrow> counting \<Rightarrow> counting res) \<Rightarrow> gc_ref \<Rightarrow> gc_node \<Rightarrow> counting \<Rightarrow> counting res" where
  "collect_walk visit r nd c = (case gc_type_data nd of
       GC_OBJECT ob \<Rightarrow>
         if gco_free_called ob then Inr c
         else (case gco_get_gc ob of
             None \<Rightarrow> Inr c
           | Some (zv, ht) \<Rightarrow>
               res_bind (counting_state (add_if_new r) c) (\<lambda>(num, flags, s).
                 let c = (num, if gc_destructor_of ob \<noteq> None then flags OR GC_HAS_DESTRUCTORS else flags, s)
                 in case ht of
                   None \<Rightarrow> collect_each visit (skipped_in_object zv) zv c
                 | Some ht \<Rightarrow> res_bind (for_each (collect_value visit) zv c)
                                (collect_each visit skipped_in_table (map (follow s) ht))))
     | GC_ARRAY ht \<Rightarrow>
         res_bind (counting_state (add_if_new r) c) (\<lambda>(num, flags, s).
           collect_each visit skipped_in_table (map (follow s) ht) (num, flags, s))
     | GC_REFERENCE z \<Rightarrow> on_counted visit z c
     | GC_SCALAR \<Rightarrow> Inr c)"

primrec gc_collect_white :: "nat \<Rightarrow> gc_ref \<Rightarrow> counting \<Rightarrow> counting res" where
  "gc_collect_white 0 r c = Inl UB_STACK_OVERFLOW"
| "gc_collect_white (Suc depth) r c =
     res_bind (node_at r (snd (snd c))) (\<lambda>nd.
       if GC_REF_GET_COLOR nd = GC_WHITE then
         res_bind (counting_state (GC_REF_SET_BLACK r) c) (\<lambda>c.
           collect_walk (\<lambda>q c. res_bind (counting_state (GC_ADDREF q) c) (gc_collect_white depth q)) r nd
             (case gc_type_data nd of GC_REFERENCE _ \<Rightarrow> c | _ \<Rightarrow> add_count 1 c))
       else Inr c)"

primrec gc_remove_nested_data_from_buffer :: "nat \<Rightarrow> gc_ref \<Rightarrow> root_ptr \<Rightarrow> gc_globals \<Rightarrow> gc_globals res" where
  "gc_remove_nested_data_from_buffer 0 r root s = Inl UB_STACK_OVERFLOW"
| "gc_remove_nested_data_from_buffer (Suc depth) r root s =
     res_bind (node_at r s) (\<lambda>nd.
       if root \<noteq> NULL_ROOT \<or> (GC_ADDRESS (gc_info nd) \<noteq> 0 \<and> GC_REF_GET_COLOR nd = GC_BLACK) then
         res_bind
           (if root \<noteq> NULL_ROOT then
              res_bind (root_at root s) (\<lambda>b.
              res_bind (node_at (root_ref b) s) (\<lambda>nd.
              res_bind (if unat (GC_ADDRESS (gc_info nd)) < GC_ROOT_BUFFER_MAX_ENTRIES
                        then gc_remove_from_roots root s else gc_remove_from_additional_roots root s)
                (GC_SET_INFO r 0)))
            else GC_REMOVE_FROM_BUFFER r s)
           (gc_walk (\<lambda>q. gc_remove_nested_data_from_buffer depth q NULL_ROOT) nd)
       else Inr s)"

subsection \<open>Loops over a list of roots\<close>

text \<open>From the first entry; the body reads \<open>current->next\<close> after its work.\<close>

definition then_next :: "(gc_ref \<Rightarrow> gc_globals \<Rightarrow> gc_globals res) \<Rightarrow> root_ptr \<Rightarrow> gc_globals \<Rightarrow> (root_ptr \<times> gc_globals) res" where
  "then_next f current s =
     res_bind (root_at current s) (\<lambda>b.
     res_bind (f (root_ref b) s) (\<lambda>s.
     res_bind (root_at current s) (\<lambda>b. Inr (root_next b, s))))"

definition from_first :: "(root_ptr \<Rightarrow> gc_globals \<Rightarrow> (root_ptr \<times> gc_globals) res) \<Rightarrow> root_ptr \<Rightarrow> gc_globals \<Rightarrow> gc_globals res option" where
  "from_first body head s = run_bind (Some (root_at head s)) (\<lambda>h. list_loop body head (root_next h) s)"

definition mark_root :: "nat \<Rightarrow> gc_ref \<Rightarrow> gc_globals \<Rightarrow> gc_globals res" where
  "mark_root depth r s = res_bind (node_at r s) (\<lambda>nd.
     if GC_REF_GET_COLOR nd = GC_PURPLE then gc_mark_grey depth r s else Inr s)"

definition gc_mark_roots :: "nat \<Rightarrow> gc_globals \<Rightarrow> gc_globals res option" where
  "gc_mark_roots depth = from_first (then_next (mark_root depth)) ROOTS"

definition gc_scan_roots :: "nat \<Rightarrow> gc_globals \<Rightarrow> gc_globals res option" where
  "gc_scan_roots depth = from_first (then_next (gc_scan depth)) ROOTS"

text \<open>Entries of structures that are no garbage leave the list.\<close>

definition drop_black :: "root_ptr \<Rightarrow> gc_globals \<Rightarrow> (root_ptr \<times> gc_globals) res" where
  "drop_black current s =
     res_bind (root_at current s) (\<lambda>b.
     res_bind (node_at (root_ref b) s) (\<lambda>nd.
       if GC_REF_GET_COLOR nd = GC_BLACK then
         res_bind (if unat (GC_ADDRESS (gc_info nd)) < GC_ROOT_BUFFER_MAX_ENTRIES
                   then gc_remove_from_roots current s else gc_remove_from_additional_roots current s) (\<lambda>s.
         res_bind (GC_SET_INFO (root_ref b) 0 s) (\<lambda>s. Inr (root_next b, s)))
       else Inr (root_next b, s)))"

definition collect_root :: "nat \<Rightarrow> root_ptr \<Rightarrow> counting \<Rightarrow> (root_ptr \<times> counting) res" where
  "collect_root depth current c =
     res_bind (root_at current (snd (snd c))) (\<lambda>b.
     res_bind (node_at (root_ref b) (snd (snd c))) (\<lambda>nd.
     res_bind (if GC_REF_GET_COLOR nd = GC_WHITE then gc_collect_white depth (root_ref b) c else Inr c) (\<lambda>c.
     res_bind (root_at current (snd (snd c))) (\<lambda>b. Inr (root_next b, c)))))"

text \<open>The list from head \<open>a\<close> to the end of that of head \<open>b\<close>, as the code relinks it.\<close>

definition move_list :: "root_ptr \<Rightarrow> root_ptr \<Rightarrow> gc_globals \<Rightarrow> gc_globals res" where
  "move_list a b s =
     res_bind (root_at a s) (\<lambda>ha.
     res_bind (set_next b (root_next ha) s) (\<lambda>s.
     res_bind (root_at a s) (\<lambda>ha.
     res_bind (set_prev b (root_prev ha) s) (\<lambda>s.
     res_bind (root_at b s) (\<lambda>hb.
     res_bind (set_prev (root_next hb) b s) (\<lambda>s.
     res_bind (root_at b s) (\<lambda>hb. set_next (root_prev hb) b s)))))))"

definition append_list :: "root_ptr \<Rightarrow> root_ptr \<Rightarrow> gc_globals \<Rightarrow> gc_globals res" where
  "append_list a b s =
     res_bind (root_at b s) (\<lambda>hb.
     res_bind (root_at a s) (\<lambda>ha.
     res_bind (set_next (root_prev hb) (root_next ha) s) (\<lambda>s.
     res_bind (root_at b s) (\<lambda>hb.
     res_bind (root_at a s) (\<lambda>ha.
     res_bind (set_prev (root_next ha) (root_prev hb) s) (\<lambda>s.
     res_bind (root_at a s) (\<lambda>ha.
     res_bind (set_next (root_prev ha) b s) (\<lambda>s.
     res_bind (root_at a s) (\<lambda>ha. set_prev b (root_prev ha) s)))))))))"

definition relink_roots :: "gc_globals \<Rightarrow> gc_globals res" where
  "relink_roots s =
     res_bind (root_at ROOTS s) (\<lambda>h.
     res_bind (root_at TO_FREE s) (\<lambda>t.
       if root_next h \<noteq> ROOTS then
         res_bind (if root_next t = TO_FREE then move_list ROOTS TO_FREE s else append_list ROOTS TO_FREE s)
           (empty_list ROOTS)
       else Inr s))"

definition gc_collect_roots :: "nat \<Rightarrow> u32 \<Rightarrow> gc_globals \<Rightarrow> counting res option" where
  "gc_collect_roots depth flags s =
     run_bind (from_first drop_black ROOTS s) (\<lambda>s.
     run_bind (Some (root_at ROOTS s)) (\<lambda>h.
     run_bind (list_loop (collect_root depth) ROOTS (root_next h) (0, flags, s)) (\<lambda>c.
       Some (counting_state relink_roots c))))"

end
