(* ===== verification/Zend_GC_Graph.thy ===== *)
theory Zend_GC_Graph
  imports Zend_GC_Walk
begin

text \<open>
  Depth-first walks over a graph that count the edges they follow. The locale \<open>graph_walk\<close> says what
  one call of such a walk does to the nodes still to be entered and to the counters; its lemma says
  what the whole walk does. The three walks of the collector that change the reference counts
  interpret it.
\<close>

subsection \<open>Edges\<close>

definition edges_into :: "('n \<Rightarrow> 'n list) \<Rightarrow> 'n set \<Rightarrow> 'n \<Rightarrow> nat" where
  "edges_into kids N x = (\<Sum>n\<in>N. count_list (kids n) x)"

definition edge :: "('n \<Rightarrow> 'n list) \<Rightarrow> ('n \<times> 'n) set" where
  "edge kids = {(x, y). y \<in> set (kids x)}"

lemma edges_into_empty [simp]: "edges_into kids {} x = 0"
  by (simp add: edges_into_def)

lemma edges_into_Un:
  "finite M \<Longrightarrow> finite N \<Longrightarrow> M \<inter> N = {} \<Longrightarrow> edges_into kids (M \<union> N) x = edges_into kids M x + edges_into kids N x"
  by (simp add: edges_into_def sum.union_disjoint)

lemma edges_into_insert:
  "finite N \<Longrightarrow> q \<notin> N \<Longrightarrow> edges_into kids (insert q N) x = count_list (kids q) x + edges_into kids N x"
  by (simp add: edges_into_def)

lemma edges_into_0: "finite N \<Longrightarrow> edges_into kids N x = 0 \<longleftrightarrow> (\<forall>n\<in>N. x \<notin> set (kids n))"
  by (simp add: edges_into_def count_list_0_iff)

subsection \<open>Walks\<close>

text \<open>
  From the roots \<open>rs\<close>: the nodes entered are not to be entered any more, nor are their successors,
  and each edge followed changed the counter of its target by \<open>d\<close>.
\<close>

definition walked :: "('n \<Rightarrow> 'n list) \<Rightarrow> ('s \<Rightarrow> 'n set) \<Rightarrow> ('s \<Rightarrow> 'n \<Rightarrow> u32) \<Rightarrow> u32 \<Rightarrow> 'n set \<Rightarrow> 'n list \<Rightarrow> 's \<Rightarrow> 's \<Rightarrow> bool" where
  "walked kids todo cnt d N rs s s' \<longleftrightarrow> N \<subseteq> todo s \<and> todo s' = todo s - N \<and>
     (\<forall>x\<in>N. \<forall>y\<in>set (kids x). y \<notin> todo s') \<and> (\<forall>y\<in>N. \<exists>r\<in>set rs. (r, y) \<in> (edge kids)\<^sup>*) \<and> (\<forall>r\<in>set rs. r \<notin> todo s')"

definition counted :: "('n \<Rightarrow> 'n list) \<Rightarrow> ('s \<Rightarrow> 'n \<Rightarrow> u32) \<Rightarrow> u32 \<Rightarrow> 'n set \<Rightarrow> 'n list \<Rightarrow> 's \<Rightarrow> 's \<Rightarrow> bool" where
  "counted kids cnt d N rs s s' \<longleftrightarrow>
     (\<forall>x. cnt s' x = cnt s x + d * of_nat (count_list rs x + edges_into kids N x))"

definition res_map :: "('a \<Rightarrow> 'b) \<Rightarrow> 'a res \<Rightarrow> 'b res" where
  "res_map f m = res_bind m (\<lambda>x. Inr (f x))"

lemma res_map_simps [simp]: "res_map f (Inl e) = Inl e" "res_map f (Inr x) = Inr (f x)"
  by (simp_all add: res_map_def)

locale graph_walk =
  fixes ok :: "'s \<Rightarrow> bool"
    and nodes :: "'n set"
    and kids :: "'n \<Rightarrow> 'n list"
    and todo :: "'s \<Rightarrow> 'n set"
    and cnt :: "'s \<Rightarrow> 'n \<Rightarrow> u32"
    and d :: u32
    and visit :: "nat \<Rightarrow> 'n \<Rightarrow> 's \<Rightarrow> 's res"
    and walk :: "nat \<Rightarrow> 'n \<Rightarrow> 's \<Rightarrow> 's res"
  assumes finite_nodes: "ok s \<Longrightarrow> finite nodes"
    and todo_nodes: "ok s \<Longrightarrow> todo s \<subseteq> nodes"
    and kids_nodes: "ok s \<Longrightarrow> x \<in> nodes \<Longrightarrow> set (kids x) \<subseteq> nodes"
    and visit_todo: "ok s \<Longrightarrow> q \<in> todo s \<Longrightarrow>
      \<exists>s1. visit n q s = walk n q s1 \<and> ok s1 \<and> todo s1 = todo s \<and> cnt s1 = (cnt s)(q := cnt s q + d)"
    and visit_skip: "ok s \<Longrightarrow> q \<in> nodes \<Longrightarrow> q \<notin> todo s \<Longrightarrow>
      \<exists>s1. visit (Suc n) q s = Inr s1 \<and> ok s1 \<and> todo s1 = todo s \<and> cnt s1 = (cnt s)(q := cnt s q + d)"
    and enter: "ok s \<Longrightarrow> q \<in> todo s \<Longrightarrow>
      \<exists>s1 f. walk (Suc n) q s = res_map f (for_each (visit n) (kids q) s1) \<and>
        ok s1 \<and> todo s1 = todo s - {q} \<and> cnt s1 = cnt s \<and>
        (\<forall>s. ok s \<longrightarrow> ok (f s) \<and> todo (f s) = todo s \<and> cnt (f s) = cnt s)"
begin

lemma finite_todo: "ok s \<Longrightarrow> finite (todo s)"
  using finite_subset [OF todo_nodes finite_nodes] by blast

lemma walked_finite: "ok s \<Longrightarrow> walked kids todo cnt d N rs s s' \<Longrightarrow> finite N"
  using finite_subset [OF _ finite_todo] by (auto simp: walked_def)

lemma walked_append:
  assumes "ok s" "ok s1" and w1: "walked kids todo cnt d M [q] s s1" "counted kids cnt d M [q] s s1"
    and w2: "walked kids todo cnt d N rs s1 s2" "counted kids cnt d N rs s1 s2"
  shows "walked kids todo cnt d (M \<union> N) (q # rs) s s2" "counted kids cnt d (M \<union> N) (q # rs) s s2"
proof -
  have fin: "finite M" "finite N" using walked_finite [OF assms(1) w1(1)] walked_finite [OF assms(2) w2(1)] by auto
  have disj: "M \<inter> N = {}" using w1(1) w2(1) by (auto simp: walked_def)
  show "walked kids todo cnt d (M \<union> N) (q # rs) s s2"
  proof -
    have t: "M \<subseteq> todo s" "todo s1 = todo s - M" "N \<subseteq> todo s1" "todo s2 = todo s1 - N"
      using w1(1) w2(1) by (auto simp: walked_def)
    have "y \<notin> todo s2" if "x \<in> M \<union> N" "y \<in> set (kids x)" for x y
      using that t(4) w1(1) w2(1) unfolding walked_def by blast
    moreover have "\<exists>r\<in>set (q # rs). (r, y) \<in> (edge kids)\<^sup>*" if "y \<in> M \<union> N" for y
      using that w1(1) w2(1) unfolding walked_def by fastforce
    moreover have "r \<notin> todo s2" if "r \<in> set (q # rs)" for r
      using that t(4) w1(1) w2(1) unfolding walked_def by auto
    ultimately show ?thesis using t unfolding walked_def by blast
  qed
  show "counted kids cnt d (M \<union> N) (q # rs) s s2"
    using w1(2) w2(2) by (auto simp: counted_def edges_into_Un [OF fin disj] algebra_simps)
qed

text \<open>The loop over the successors, from what a single call does.\<close>

lemma loop_spec:
  assumes walk: "\<And>q s. ok s \<Longrightarrow> q \<in> todo s \<Longrightarrow> card (todo s) < n \<Longrightarrow>
      \<exists>s' N. walk n q s = Inr s' \<and> ok s' \<and> walked kids todo cnt d N [q] s s' \<and> counted kids cnt d N [] s s'"
    and "ok s" "set rs \<subseteq> nodes" "card (todo s) < n"
  shows "\<exists>s' N. for_each (visit n) rs s = Inr s' \<and> ok s' \<and> walked kids todo cnt d N rs s s' \<and> counted kids cnt d N rs s s'"
  using assms(2-4)
proof (induction rs arbitrary: s)
  case Nil
  then show ?case by (auto simp: walked_def counted_def intro!: exI [of _ s] exI [of _ "{}"])
next
  case (Cons q rs)
  obtain m where m: "n = Suc m" using Cons.prems(3) by (cases n) auto
  have "\<exists>s1 M. visit n q s = Inr s1 \<and> ok s1 \<and> walked kids todo cnt d M [q] s s1 \<and> counted kids cnt d M [q] s s1"
  proof (cases "q \<in> todo s")
    case True
    then obtain s0 where s0: "visit n q s = walk n q s0" "ok s0" "todo s0 = todo s" "cnt s0 = (cnt s)(q := cnt s q + d)"
      using visit_todo [OF Cons.prems(1)] by blast
    then obtain s1 M where "walk n q s0 = Inr s1" "ok s1" "walked kids todo cnt d M [q] s0 s1" "counted kids cnt d M [] s0 s1"
      using walk [of s0 q] True Cons.prems(3) by auto
    then show ?thesis using s0 by (auto simp: walked_def counted_def algebra_simps intro!: exI [of _ s1] exI [of _ M])
  next
    case False
    then obtain s1 where "visit n q s = Inr s1" "ok s1" "todo s1 = todo s" "cnt s1 = (cnt s)(q := cnt s q + d)"
      using visit_skip [OF Cons.prems(1), of q m] Cons.prems(2) m by auto
    then show ?thesis using False by (auto simp: walked_def counted_def intro!: exI [of _ s1] exI [of _ "{}"])
  qed
  then obtain s1 M where s1: "visit n q s = Inr s1" "ok s1" "walked kids todo cnt d M [q] s s1" "counted kids cnt d M [q] s s1"
    by blast
  have "card (todo s1) \<le> card (todo s)"
    using s1(3) finite_todo [OF Cons.prems(1)] by (auto simp: walked_def intro: card_mono)
  then obtain s2 N where "for_each (visit n) rs s1 = Inr s2" "ok s2" "walked kids todo cnt d N rs s1 s2" "counted kids cnt d N rs s1 s2"
    using Cons.IH [of s1] s1(2) Cons.prems by auto
  then show ?case using s1(1) walked_append [OF Cons.prems(1) s1(2,3,4)] by (metis for_each.simps(2) res_bind_simps(2))
qed

lemma walk_spec:
  assumes "ok s" "q \<in> todo s" "card (todo s) < n"
  shows "\<exists>s' N. walk n q s = Inr s' \<and> ok s' \<and> walked kids todo cnt d N [q] s s' \<and> counted kids cnt d N [] s s'"
  using assms
proof (induction n arbitrary: q s)
  case (Suc n)
  obtain s1 f where s1: "walk (Suc n) q s = res_map f (for_each (visit n) (kids q) s1)" "ok s1"
      "todo s1 = todo s - {q}" "cnt s1 = cnt s"
      and f: "\<And>s. ok s \<Longrightarrow> ok (f s) \<and> todo (f s) = todo s \<and> cnt (f s) = cnt s"
    using enter [OF Suc.prems(1,2)] by blast
  have q: "q \<in> nodes" using todo_nodes [OF Suc.prems(1)] Suc.prems(2) by blast
  have "card (todo s1) < n"
    using s1(3) Suc.prems(2,3) finite_todo [OF Suc.prems(1)] card_Diff1_less [of "todo s" q] by simp
  then obtain s2 N where s2: "for_each (visit n) (kids q) s1 = Inr s2" "ok s2"
      "walked kids todo cnt d N (kids q) s1 s2" "counted kids cnt d N (kids q) s1 s2"
    using loop_spec [OF Suc.IH s1(2) kids_nodes [OF Suc.prems(1) q]] by blast
  have fin: "finite N" by (rule walked_finite [OF s1(2) s2(3)])
  have nq: "q \<notin> N" using s2(3) s1(3) by (auto simp: walked_def)
  have "\<exists>r\<in>set [q]. (r, y) \<in> (edge kids)\<^sup>*" if "y \<in> insert q N" for y
    using that s2(3) by (auto simp: walked_def edge_def intro: converse_rtrancl_into_rtrancl)
  moreover have t: "todo (f s2) = todo s - insert q N" "insert q N \<subseteq> todo s"
    using s2(3) s1(3) f [OF s2(2)] Suc.prems(2) unfolding walked_def by auto
  moreover have "y \<notin> todo (f s2)" if "x \<in> insert q N" "y \<in> set (kids x)" for x y
    using that s2(3) f [OF s2(2)] unfolding walked_def by auto
  ultimately have "walked kids todo cnt d (insert q N) [q] s (f s2)"
    unfolding walked_def by simp
  moreover have "counted kids cnt d (insert q N) [] s (f s2)"
    using s2(4) s1(4) f [OF s2(2)] by (simp add: counted_def edges_into_insert [OF fin nq])
  ultimately show ?case using s1(1) s2(1) f [OF s2(2)] by auto
qed simp

end

end
