(* ===== verification/Zend_GC_Mark.thy ===== *)
theory Zend_GC_Mark
  imports Zend_GC_Graph
begin

text \<open>
  The graph of counted structures as the walks see it, and what \<open>gc_mark_grey\<close> and \<open>gc_scan_black\<close> do:
  they interpret \<open>graph_walk\<close>.
\<close>

subsection \<open>The graph\<close>

fun counted_refs :: "gc_zval list \<Rightarrow> gc_ref list" where
  "counted_refs [] = []"
| "counted_refs (z # zs) = (case z of ZV_COUNTED r \<Rightarrow> r # counted_refs zs | _ \<Rightarrow> counted_refs zs)"

lemma counted_refs_append [simp]: "counted_refs (xs @ ys) = counted_refs xs @ counted_refs ys"
  by (induction xs) (auto split: gc_zval.splits)

definition node_refs :: "gc_globals \<Rightarrow> gc_node \<Rightarrow> gc_ref list" where
  "node_refs s nd = (case gc_type_data nd of
       GC_OBJECT ob \<Rightarrow>
         if gco_free_called ob then []
         else (case gco_get_gc ob of
             None \<Rightarrow> []
           | Some (zv, ht) \<Rightarrow> counted_refs zv @ (case ht of None \<Rightarrow> [] | Some ht \<Rightarrow> counted_refs (map (follow s) ht)))
     | GC_ARRAY ht \<Rightarrow> counted_refs (map (follow s) ht)
     | GC_REFERENCE z \<Rightarrow> counted_refs [z]
     | GC_SCALAR \<Rightarrow> [])"

definition kids :: "gc_globals \<Rightarrow> gc_ref \<Rightarrow> gc_ref list" where
  "kids s r = (case gc_heap s r of None \<Rightarrow> [] | Some nd \<Rightarrow> if is_symbol_table r nd s then [] else node_refs s nd)"

definition color :: "gc_globals \<Rightarrow> gc_ref \<Rightarrow> u16" where
  "color s r = (case gc_heap s r of None \<Rightarrow> GC_BLACK | Some nd \<Rightarrow> GC_REF_GET_COLOR nd)"

definition rc :: "gc_globals \<Rightarrow> gc_ref \<Rightarrow> u32" where
  "rc s r = (case gc_heap s r of None \<Rightarrow> 0 | Some nd \<Rightarrow> gc_refcount nd)"

definition wf_heap :: "gc_globals \<Rightarrow> bool" where
  "wf_heap s \<longleftrightarrow> finite (dom (gc_heap s)) \<and> (\<forall>r\<in>dom (gc_heap s). set (kids s r) \<subseteq> dom (gc_heap s)) \<and>
     (\<forall>nd. gc_heap s (symbol_table s) = Some nd \<longrightarrow> is_symbol_table (symbol_table s) nd s)"

text \<open>A walk is the loop over the successors.\<close>

lemma split_last_None: "split_last zs = None \<Longrightarrow> counted_refs zs = []"
  by (induction zs) (auto split: option.splits gc_zval.splits)

lemma split_last_Some:
  "split_last zs = Some (front, r, skipped) \<Longrightarrow> zs = front @ ZV_COUNTED r # skipped \<and> counted_refs skipped = []"
  by (induction zs arbitrary: front) (auto split: option.splits gc_zval.splits dest: split_last_None)

lemma for_each_append: "for_each f (xs @ ys) s = res_bind (for_each f xs s) (for_each f ys)"
proof (induction xs arbitrary: s)
  case (Cons x xs)
  then show ?case by (cases "f x s") simp_all
qed simp

lemma res_bind_Inr [simp]: "res_bind m Inr = m"
  by (cases m) simp_all

lemma for_each_small: "for_each f [x] = f x" "for_each f [] = Inr"
proof -
  show n: "for_each f [] = Inr" by (simp add: fun_eq_iff)
  show "for_each f [x] = f x"
  proof
    show "for_each f [x] s = f x s" for s by (simp add: n)
  qed
qed

lemma for_on_counted: "for_each (on_counted visit) zs s = for_each visit (counted_refs zs) s"
proof (induction zs arbitrary: s)
  case (Cons z zs)
  then show ?case by (cases z; cases "on_counted visit z s") (auto simp: on_counted_def)
qed simp

lemma each_counted_eq: "each_counted visit zs = for_each visit (counted_refs zs)"
proof (rule ext, cases "split_last zs")
  fix s
  case (Some t)
  obtain front r skipped where t: "t = (front, r, skipped)" by (cases t)
  show "each_counted visit zs s = for_each visit (counted_refs zs) s"
    using split_last_Some [OF Some [unfolded t]] Some t
    by (simp add: each_counted_def for_on_counted for_each_append for_each_small del: for_each.simps)
qed (simp add: each_counted_def split_last_None)

lemma gc_walk_eq: "gc_walk visit nd s = for_each visit (node_refs s nd) s"
  by (auto simp: gc_walk_def node_refs_def each_counted_eq for_on_counted for_each_append on_counted_def for_each_small
      simp del: for_each.simps split: gc_data.splits option.splits gc_zval.splits)

subsection \<open>Headers\<close>

lemma color_consts [simp]:
  "GC_GREY \<noteq> GC_BLACK" "GC_BLACK \<noteq> GC_GREY" "GC_WHITE \<noteq> GC_BLACK" "GC_BLACK \<noteq> GC_WHITE"
  "GC_GREY \<noteq> GC_WHITE" "GC_WHITE \<noteq> GC_GREY" "GC_PURPLE \<noteq> GC_BLACK" "GC_BLACK \<noteq> GC_PURPLE"
  "GC_PURPLE \<noteq> GC_GREY" "GC_GREY \<noteq> GC_PURPLE" "GC_PURPLE \<noteq> GC_WHITE" "GC_WHITE \<noteq> GC_PURPLE"
  by (simp_all add: GC_GREY_def GC_BLACK_def GC_WHITE_def GC_PURPLE_def)

lemma info_color_bits:
  "GC_INFO_GET_COLOR (GC_INFO_SET_COLOR v c) = c AND GC_COLOR"
  "GC_ADDRESS (GC_INFO_SET_COLOR v c) = GC_ADDRESS v OR GC_ADDRESS c"
  "GC_INFO_GET_COLOR (GC_INFO_SET_BLACK v) = GC_BLACK"
  "GC_ADDRESS (GC_INFO_SET_BLACK v) = GC_ADDRESS v"
  unfolding GC_INFO_GET_COLOR_def GC_INFO_SET_COLOR_def GC_ADDRESS_def GC_INFO_SET_BLACK_def GC_BLACK_def
  by (rule bit_word_eqI; auto simp: bit_simps)+

lemma info_color [simp]:
  "GC_INFO_GET_COLOR (GC_INFO_SET_COLOR v GC_GREY) = GC_GREY" "GC_ADDRESS (GC_INFO_SET_COLOR v GC_GREY) = GC_ADDRESS v"
  "GC_INFO_GET_COLOR (GC_INFO_SET_COLOR v GC_WHITE) = GC_WHITE" "GC_ADDRESS (GC_INFO_SET_COLOR v GC_WHITE) = GC_ADDRESS v"
  "GC_INFO_GET_COLOR (GC_INFO_SET_BLACK v) = GC_BLACK" "GC_ADDRESS (GC_INFO_SET_BLACK v) = GC_ADDRESS v"
  by (simp_all add: info_color_bits) (simp_all add: GC_GREY_def GC_WHITE_def GC_COLOR_def GC_ADDRESS_def)

lemma node_ops:
  assumes "gc_heap s r = Some nd"
  shows "node_at r s = Inr nd" "change_node r f s = Inr (s\<lparr>gc_heap := (gc_heap s)(r \<mapsto> f nd)\<rparr>)"
  using assms by (simp_all add: node_at_def change_node_def)

lemmas header_defs = GC_ADDREF_def GC_DELREF_def GC_SET_INFO_def GC_REF_SET_COLOR_def GC_REF_SET_BLACK_def

text \<open>Only headers were changed: counts and colours.\<close>

definition header_blank :: "gc_node \<Rightarrow> gc_node" where
  "header_blank nd = nd\<lparr>gc_refcount := 0, gc_info := GC_ADDRESS (gc_info nd)\<rparr>"

definition only_headers :: "gc_globals \<Rightarrow> gc_globals \<Rightarrow> bool" where
  "only_headers s0 s \<longleftrightarrow> s = s0\<lparr>gc_heap := gc_heap s\<rparr> \<and>
     (\<forall>r. map_option header_blank (gc_heap s r) = map_option header_blank (gc_heap s0 r))"

lemma only_headers_refl [simp]: "only_headers s s"
  by (simp add: only_headers_def)

lemma only_headersD:
  assumes "only_headers s0 s"
  shows "gc_slots s = gc_slots s0" "symbol_table s = symbol_table s0" "gc_roots s = gc_roots s0"
    "gc_heap s r = None \<longleftrightarrow> gc_heap s0 r = None" "dom (gc_heap s) = dom (gc_heap s0)"
proof -
  have s: "s = s0\<lparr>gc_heap := gc_heap s\<rparr>" using assms by (simp add: only_headers_def)
  show "gc_slots s = gc_slots s0" "symbol_table s = symbol_table s0" "gc_roots s = gc_roots s0"
    by (subst s, simp)+
  show n: "gc_heap s r = None \<longleftrightarrow> gc_heap s0 r = None" for r
    using assms unfolding only_headers_def by (metis option.map_disc_iff)
  show "dom (gc_heap s) = dom (gc_heap s0)" using n by (auto simp: dom_def)
qed

lemma only_headers_data:
  assumes "only_headers s0 s" "gc_heap s r = Some nd" "gc_heap s0 r = Some nd0"
  shows "gc_type_data nd = gc_type_data nd0" "gc_collectable nd = gc_collectable nd0"
    "GC_ADDRESS (gc_info nd) = GC_ADDRESS (gc_info nd0)"
proof -
  have "map_option header_blank (gc_heap s r) = map_option header_blank (gc_heap s0 r)"
    using assms(1) by (simp add: only_headers_def)
  then have "header_blank nd = header_blank nd0" using assms(2,3) by simp
  then show "gc_type_data nd = gc_type_data nd0" "gc_collectable nd = gc_collectable nd0"
    "GC_ADDRESS (gc_info nd) = GC_ADDRESS (gc_info nd0)"
    by (auto simp: header_blank_def gc_type_data_def elim: gc_node.ext_inject [THEN iffD1, elim_format]
        dest: arg_cong [of _ _ gc_type_null] arg_cong [of _ _ gc_data] arg_cong [of _ _ gc_collectable] arg_cong [of _ _ gc_info])
qed

lemma follow_cong: "gc_slots s = gc_slots s' \<Longrightarrow> follow s = follow s'"
  by (auto simp: follow_def fun_eq_iff split: gc_zval.splits)

lemma node_refs_cong:
  assumes "gc_slots s = gc_slots s'" "symbol_table s = symbol_table s'"
  shows "node_refs s nd = node_refs s' nd" "is_symbol_table r nd s = is_symbol_table r nd s'"
  using assms(2) follow_cong [OF assms(1)]
  by (auto simp: node_refs_def is_symbol_table_def split: gc_data.splits option.splits)

lemma only_headers_refs:
  assumes "only_headers s0 s" "gc_heap s r = Some nd" "gc_heap s0 r = Some nd0"
  shows "node_refs s nd = node_refs s0 nd0" "is_symbol_table r nd s = is_symbol_table r nd0 s0"
  using only_headers_data [OF assms] only_headersD [OF assms(1)] follow_cong [of s s0]
  by (auto simp: node_refs_def is_symbol_table_def split: gc_data.splits option.splits)

lemma only_headers_kids: "only_headers s0 s \<Longrightarrow> kids s = kids s0"
proof
  fix r assume h: "only_headers s0 s"
  show "kids s r = kids s0 r"
    using only_headers_refs [OF h, of r] only_headersD(4) [OF h, of r]
    by (cases "gc_heap s r"; cases "gc_heap s0 r") (auto simp: kids_def)
qed

lemma only_headers_node:
  assumes "only_headers s0 s" "gc_heap s r = Some nd" "header_blank nd' = header_blank nd"
  shows "only_headers s0 (s\<lparr>gc_heap := (gc_heap s)(r \<mapsto> nd')\<rparr>)"
proof -
  have s: "s = s0\<lparr>gc_heap := gc_heap s\<rparr>" using assms(1) by (simp add: only_headers_def)
  have "s\<lparr>gc_heap := (gc_heap s)(r \<mapsto> nd')\<rparr> = s0\<lparr>gc_heap := (gc_heap s)(r \<mapsto> nd')\<rparr>" by (subst s, simp)
  moreover have "map_option header_blank (gc_heap s0 r) = Some (header_blank nd')"
    using assms unfolding only_headers_def by (metis option.simps(9))
  ultimately show ?thesis using assms(1) by (auto simp: only_headers_def)
qed

lemma blank_header [simp]:
  "header_blank (nd\<lparr>gc_refcount := c\<rparr>) = header_blank nd"
  "header_blank (nd\<lparr>gc_info := v\<rparr>) = header_blank nd \<longleftrightarrow> GC_ADDRESS v = GC_ADDRESS (gc_info nd)"
  by (auto simp: header_blank_def dest: arg_cong [of _ _ gc_info])

lemma node_changed:
  "color (s\<lparr>gc_heap := (gc_heap s)(r \<mapsto> nd)\<rparr>) x = (if x = r then GC_REF_GET_COLOR nd else color s x)"
  "rc (s\<lparr>gc_heap := (gc_heap s)(r \<mapsto> nd)\<rparr>) x = (if x = r then gc_refcount nd else rc s x)"
  by (simp_all add: color_def rc_def)

lemma node_read: "gc_heap s r = Some nd \<Longrightarrow> GC_REF_GET_COLOR nd = color s r \<and> gc_refcount nd = rc s r"
  by (simp add: color_def rc_def)

lemma color_node [simp]:
  "GC_REF_GET_COLOR (nd\<lparr>gc_refcount := c\<rparr>) = GC_REF_GET_COLOR nd"
  "GC_REF_GET_COLOR (nd\<lparr>gc_info := v\<rparr>) = GC_INFO_GET_COLOR v"
  by (simp_all add: GC_REF_GET_COLOR_def)

text \<open>The operations on a header, for a structure that is allocated.\<close>

lemma header_op:
  assumes "only_headers s0 s" "r \<in> dom (gc_heap s0)"
  shows "\<exists>s1. GC_ADDREF r s = Inr s1 \<and> only_headers s0 s1 \<and> color s1 = color s \<and> rc s1 = (rc s)(r := rc s r + 1)"
    "\<exists>s1. GC_DELREF r s = Inr s1 \<and> only_headers s0 s1 \<and> color s1 = color s \<and> rc s1 = (rc s)(r := rc s r - 1)"
    "\<exists>s1. GC_REF_SET_COLOR r GC_GREY s = Inr s1 \<and> only_headers s0 s1 \<and> color s1 = (color s)(r := GC_GREY) \<and> rc s1 = rc s"
    "\<exists>s1. GC_REF_SET_COLOR r GC_WHITE s = Inr s1 \<and> only_headers s0 s1 \<and> color s1 = (color s)(r := GC_WHITE) \<and> rc s1 = rc s"
    "\<exists>s1. GC_REF_SET_BLACK r s = Inr s1 \<and> only_headers s0 s1 \<and> color s1 = (color s)(r := GC_BLACK) \<and> rc s1 = rc s"
proof -
  obtain nd where nd: "gc_heap s r = Some nd" using assms only_headersD(4) [OF assms(1), of r] by auto
  note N = only_headers_node [OF assms(1) nd] and R = node_read [OF nd]
  show "\<exists>s1. GC_ADDREF r s = Inr s1 \<and> only_headers s0 s1 \<and> color s1 = color s \<and> rc s1 = (rc s)(r := rc s r + 1)"
    "\<exists>s1. GC_DELREF r s = Inr s1 \<and> only_headers s0 s1 \<and> color s1 = color s \<and> rc s1 = (rc s)(r := rc s r - 1)"
    "\<exists>s1. GC_REF_SET_COLOR r GC_GREY s = Inr s1 \<and> only_headers s0 s1 \<and> color s1 = (color s)(r := GC_GREY) \<and> rc s1 = rc s"
    "\<exists>s1. GC_REF_SET_COLOR r GC_WHITE s = Inr s1 \<and> only_headers s0 s1 \<and> color s1 = (color s)(r := GC_WHITE) \<and> rc s1 = rc s"
    "\<exists>s1. GC_REF_SET_BLACK r s = Inr s1 \<and> only_headers s0 s1 \<and> color s1 = (color s)(r := GC_BLACK) \<and> rc s1 = rc s"
    unfolding header_defs node_ops(2) [OF nd]
    using R by (auto intro!: exI conjI N simp: node_changed fun_eq_iff)
qed

lemma header_read:
  assumes "only_headers s0 s" "r \<in> dom (gc_heap s0)"
  shows "\<exists>nd. node_at r s = Inr nd \<and> GC_REF_GET_COLOR nd = color s r \<and> gc_refcount nd = rc s r \<and>
    (if is_symbol_table r nd s then [] else node_refs s nd) = kids s0 r"
proof -
  obtain nd where nd: "gc_heap s r = Some nd" using assms only_headersD(4) [OF assms(1), of r] by auto
  then show ?thesis using node_read [OF nd] only_headers_kids [OF assms(1), symmetric] by (auto simp: node_ops kids_def)
qed

lemma symbol_table_node:
  assumes "wf_heap s0" "only_headers s0 s" "node_at r s = Inr nd"
  shows "is_symbol_table r nd s \<longleftrightarrow> r = symbol_table s0"
proof -
  have nd: "gc_heap s r = Some nd" using assms(3) by (simp add: node_at_def split: option.splits)
  then obtain nd0 where nd0: "gc_heap s0 r = Some nd0" using only_headersD(4) [OF assms(2), of r] by fastforce
  show ?thesis
    using only_headers_refs(2) [OF assms(2) nd nd0] nd0 assms(1)
    by (auto simp: wf_heap_def is_symbol_table_def split: gc_data.splits)
qed

subsection \<open>Marking\<close>

definition mark_state :: "gc_globals \<Rightarrow> gc_globals \<Rightarrow> bool" where
  "mark_state s0 s \<longleftrightarrow> wf_heap s0 \<and> color s0 (symbol_table s0) \<noteq> GC_GREY \<and> only_headers s0 s \<and>
     (\<forall>x. color s x = color s0 x \<or> (x \<noteq> symbol_table s0 \<and> color s x = GC_GREY) \<or>
       (x = symbol_table s0 \<and> color s x = GC_BLACK))"

definition to_mark :: "gc_globals \<Rightarrow> gc_globals \<Rightarrow> gc_ref set" where
  "to_mark s0 s = {x \<in> dom (gc_heap s0). color s x \<noteq> GC_GREY \<and> x \<noteq> symbol_table s0}"

definition visit_grey :: "nat \<Rightarrow> gc_ref \<Rightarrow> gc_globals \<Rightarrow> gc_globals res" where
  "visit_grey depth q s = res_bind (GC_DELREF q s) (gc_mark_grey depth q)"

lemma mark_skip:
  assumes ok: "mark_state s0 s" and q: "q \<in> dom (gc_heap s0)" "q \<notin> to_mark s0 s"
  shows "\<exists>s1. gc_mark_grey (Suc n) q s = Inr s1 \<and> mark_state s0 s1 \<and> to_mark s0 s1 = to_mark s0 s \<and> rc s1 = rc s \<and>
    color s1 q \<noteq> GC_PURPLE"
proof -
  have h: "only_headers s0 s" "wf_heap s0" using ok by (simp_all add: mark_state_def)
  obtain nd where nd: "node_at q s = Inr nd" "GC_REF_GET_COLOR nd = color s q"
    using header_read [OF h(1) q(1)] by blast
  show ?thesis
  proof (cases "color s q = GC_GREY")
    case True
    then show ?thesis using nd ok by simp
  next
    case False
    then have qs: "q = symbol_table s0" using q by (simp add: to_mark_def)
    obtain s1 where s1: "GC_REF_SET_COLOR q GC_GREY s = Inr s1" "only_headers s0 s1"
        "color s1 = (color s)(q := GC_GREY)" "rc s1 = rc s"
      using header_op(3) [OF h(1) q(1)] by blast
    obtain s2 where s2: "GC_REF_SET_BLACK q s1 = Inr s2" "only_headers s0 s2"
        "color s2 = (color s1)(q := GC_BLACK)" "rc s2 = rc s1"
      using header_op(5) [OF s1(2) q(1)] by blast
    have "is_symbol_table q nd s1"
      using symbol_table_node [OF h(2,1) nd(1)] qs node_refs_cong(2) [of s s1 q nd] only_headersD [OF h(1)] only_headersD [OF s1(2)]
      by argo
    then have "gc_mark_grey (Suc n) q s = Inr s2" using nd False s1(1) s2(1) by simp
    moreover have "mark_state s0 s2" "to_mark s0 s2 = to_mark s0 s" "color s2 q \<noteq> GC_PURPLE"
      using ok qs s1 s2 by (auto simp: mark_state_def to_mark_def)
    ultimately show ?thesis using s1(4) s2(4) by auto
  qed
qed

lemma mark_enter:
  assumes ok: "mark_state s0 s" and q: "q \<in> to_mark s0 s"
  shows "\<exists>s1. gc_mark_grey (Suc n) q s = for_each (visit_grey n) (kids s0 q) s1 \<and> mark_state s0 s1 \<and>
    to_mark s0 s1 = to_mark s0 s - {q} \<and> rc s1 = rc s"
proof -
  have h: "only_headers s0 s" "wf_heap s0" using ok by (simp_all add: mark_state_def)
  have q': "q \<in> dom (gc_heap s0)" "color s q \<noteq> GC_GREY" "q \<noteq> symbol_table s0" using q by (auto simp: to_mark_def)
  obtain nd where nd: "node_at q s = Inr nd" "GC_REF_GET_COLOR nd = color s q"
      "(if is_symbol_table q nd s then [] else node_refs s nd) = kids s0 q"
    using header_read [OF h(1) q'(1)] by blast
  obtain s1 where s1: "GC_REF_SET_COLOR q GC_GREY s = Inr s1" "only_headers s0 s1"
      "color s1 = (color s)(q := GC_GREY)" "rc s1 = rc s"
    using header_op(3) [OF h(1) q'(1)] by blast
  have ns: "\<not> is_symbol_table q nd s" using symbol_table_node [OF h(2,1) nd(1)] q'(3) by simp
  have same: "node_refs s nd = node_refs s1 nd" "is_symbol_table q nd s = is_symbol_table q nd s1"
    by (rule node_refs_cong; use only_headersD(1,2) [OF h(1)] only_headersD(1,2) [OF s1(2)] in argo)+
  have v: "(\<lambda>q s. res_bind (GC_DELREF q s) (gc_mark_grey n q)) = visit_grey n"
    by (simp add: visit_grey_def fun_eq_iff)
  have "gc_mark_grey (Suc n) q s = for_each (visit_grey n) (kids s0 q) s1"
    using nd q'(2) s1(1) ns same by (simp add: gc_walk_eq v)
  moreover have "mark_state s0 s1" "to_mark s0 s1 = to_mark s0 s - {q}"
    using ok q'(3) s1 by (auto simp: mark_state_def to_mark_def)
  ultimately show ?thesis using s1(4) by blast
qed

interpretation mark: graph_walk "mark_state s0" "dom (gc_heap s0)" "kids s0" "to_mark s0" rc "-1" visit_grey gc_mark_grey
  for s0
proof (unfold_locales, goal_cases)
  case (4 s q n)
  then have "only_headers s0 s" "q \<in> dom (gc_heap s0)" by (auto simp: mark_state_def to_mark_def)
  then obtain s1 where s1: "GC_DELREF q s = Inr s1" "only_headers s0 s1" "color s1 = color s" "rc s1 = (rc s)(q := rc s q - 1)"
    using header_op(2) by blast
  then have "mark_state s0 s1" "to_mark s0 s1 = to_mark s0 s" using 4 by (auto simp: mark_state_def to_mark_def)
  then show ?case using s1 by (intro exI [of _ s1]) (simp add: visit_grey_def)
next
  case (5 s q n)
  then have "only_headers s0 s" by (auto simp: mark_state_def)
  then obtain s1 where s1: "GC_DELREF q s = Inr s1" "only_headers s0 s1" "color s1 = color s" "rc s1 = (rc s)(q := rc s q - 1)"
    using header_op(2) 5(2) by blast
  then have "mark_state s0 s1" "to_mark s0 s1 = to_mark s0 s" using 5 by (auto simp: mark_state_def to_mark_def)
  then show ?case using mark_skip [of s0 s1 q n] 5 s1 by (auto simp: visit_grey_def)
next
  case (6 s q n)
  obtain s1 where "gc_mark_grey (Suc n) q s = for_each (visit_grey n) (kids s0 q) s1" "mark_state s0 s1"
      "to_mark s0 s1 = to_mark s0 s - {q}" "rc s1 = rc s"
    using mark_enter [OF 6] by blast
  then show ?case by (intro exI [of _ s1] exI [of _ id]) (simp add: res_map_def)
qed (auto simp: mark_state_def wf_heap_def to_mark_def)

subsection \<open>Restoring\<close>

definition black_state :: "gc_globals \<Rightarrow> gc_globals \<Rightarrow> bool" where
  "black_state s0 s \<longleftrightarrow> wf_heap s0 \<and> color s0 (symbol_table s0) = GC_BLACK \<and> only_headers s0 s \<and>
     (\<forall>x. color s x = color s0 x \<or> color s x = GC_BLACK)"

definition to_blacken :: "gc_globals \<Rightarrow> gc_globals \<Rightarrow> gc_ref set" where
  "to_blacken s0 s = {x \<in> dom (gc_heap s0). color s x \<noteq> GC_BLACK}"

definition visit_black :: "nat \<Rightarrow> gc_ref \<Rightarrow> gc_globals \<Rightarrow> gc_globals res" where
  "visit_black depth q s =
     res_bind (GC_ADDREF q s) (\<lambda>s.
     res_bind (node_at q s) (\<lambda>nd. if GC_REF_GET_COLOR nd \<noteq> GC_BLACK then gc_scan_black depth q s else Inr s))"

lemma black_enter:
  assumes ok: "black_state s0 s" and q: "q \<in> to_blacken s0 s"
  shows "\<exists>s1. gc_scan_black (Suc n) q s = for_each (visit_black n) (kids s0 q) s1 \<and> black_state s0 s1 \<and>
    to_blacken s0 s1 = to_blacken s0 s - {q} \<and> rc s1 = rc s"
proof -
  have h: "only_headers s0 s" "wf_heap s0" using ok by (simp_all add: black_state_def)
  have q': "q \<in> dom (gc_heap s0)" "color s q \<noteq> GC_BLACK" using q by (auto simp: to_blacken_def)
  obtain s1 where s1: "GC_REF_SET_BLACK q s = Inr s1" "only_headers s0 s1"
      "color s1 = (color s)(q := GC_BLACK)" "rc s1 = rc s"
    using header_op(5) [OF h(1) q'(1)] by blast
  obtain nd where nd: "node_at q s1 = Inr nd" "(if is_symbol_table q nd s1 then [] else node_refs s1 nd) = kids s0 q"
    using header_read [OF s1(2) q'(1)] by blast
  have v: "(\<lambda>q s. res_bind (GC_ADDREF q s) (\<lambda>s. res_bind (node_at q s) (\<lambda>nd.
      if GC_REF_GET_COLOR nd \<noteq> GC_BLACK then gc_scan_black n q s else Inr s))) = visit_black n"
    by (simp add: visit_black_def fun_eq_iff)
  have "gc_scan_black (Suc n) q s = for_each (visit_black n) (kids s0 q) s1"
    using nd s1(1) by (simp only: gc_scan_black.simps gc_walk_eq v) (auto split: if_splits)
  moreover have "black_state s0 s1" "to_blacken s0 s1 = to_blacken s0 s - {q}"
    using ok s1 by (auto simp: black_state_def to_blacken_def)
  ultimately show ?thesis using s1(4) by blast
qed

lemma visit_black_spec:
  assumes ok: "black_state s0 s" and q: "q \<in> dom (gc_heap s0)"
  shows "\<exists>s1. visit_black n q s = (if q \<in> to_blacken s0 s then gc_scan_black n q s1 else Inr s1) \<and> black_state s0 s1 \<and>
    to_blacken s0 s1 = to_blacken s0 s \<and> rc s1 = (rc s)(q := rc s q + 1)"
proof -
  have h: "only_headers s0 s" using ok by (simp add: black_state_def)
  obtain s1 where s1: "GC_ADDREF q s = Inr s1" "only_headers s0 s1" "color s1 = color s" "rc s1 = (rc s)(q := rc s q + 1)"
    using header_op(1) [OF h q] by blast
  obtain nd where nd: "node_at q s1 = Inr nd" "GC_REF_GET_COLOR nd = color s1 q" using header_read [OF s1(2) q] by blast
  have "black_state s0 s1" "to_blacken s0 s1 = to_blacken s0 s" using s1 ok by (auto simp: black_state_def to_blacken_def)
  then show ?thesis using s1 nd q by (intro exI [of _ s1]) (auto simp: visit_black_def to_blacken_def)
qed

interpretation black: graph_walk "black_state s0" "dom (gc_heap s0)" "kids s0" "to_blacken s0" rc 1 visit_black gc_scan_black
  for s0
proof (unfold_locales, goal_cases)
  case (4 s q n)
  then show ?case using visit_black_spec [of s0 s q n] by (auto simp: to_blacken_def)
next
  case (5 s q n)
  then show ?case using visit_black_spec [of s0 s q "Suc n"] by auto
next
  case (6 s q n)
  obtain s1 where "gc_scan_black (Suc n) q s = for_each (visit_black n) (kids s0 q) s1" "black_state s0 s1"
      "to_blacken s0 s1 = to_blacken s0 s - {q}" "rc s1 = rc s"
    using black_enter [OF 6] by blast
  then show ?case by (intro exI [of _ s1] exI [of _ id]) (simp add: res_map_def)
qed (auto simp: black_state_def wf_heap_def to_blacken_def)

end
