(* ===== verification/Zend_GC_Scan.thy ===== *)
theory Zend_GC_Scan
  imports Zend_GC_Mark
begin

text \<open>
  What \<open>gc_scan\<close> does to the structures that were marked grey: those that something outside
  references, and what these reach, become black again with their counts restored; the others
  become white.
\<close>

subsection \<open>The state between the calls of \<open>gc_scan\<close>\<close>

definition grey :: "gc_globals \<Rightarrow> gc_ref set" where
  "grey s = {x. color s x = GC_GREY}"

text \<open>What was grey in \<open>s1\<close> and is black now.\<close>

definition restored :: "gc_globals \<Rightarrow> gc_globals \<Rightarrow> gc_ref set" where
  "restored s1 s = {x. color s1 x = GC_GREY \<and> color s x = GC_BLACK}"

text \<open>With counts that leave out the references from grey structures: what is still referenced, and what it reaches.\<close>

definition live :: "gc_globals \<Rightarrow> gc_ref set" where
  "live s1 = {x. color s1 x = GC_GREY \<and> (\<exists>r. color s1 r = GC_GREY \<and> rc s1 r \<noteq> 0 \<and> (r, x) \<in> (edge (kids s1))\<^sup>*)}"

definition marked :: "gc_globals \<Rightarrow> bool" where
  "marked s1 \<longleftrightarrow> wf_heap s1 \<and> color s1 (symbol_table s1) = GC_BLACK \<and>
     (\<forall>x. color s1 x = GC_GREY \<or> color s1 x = GC_BLACK)"

definition scan_colors :: "gc_globals \<Rightarrow> gc_globals \<Rightarrow> bool" where
  "scan_colors s1 s \<longleftrightarrow> (\<forall>x. color s x = color s1 x \<or> (color s1 x = GC_GREY \<and> color s x = GC_BLACK) \<or>
     (color s1 x = GC_GREY \<and> color s x = GC_WHITE))"

definition scan_counts :: "gc_globals \<Rightarrow> gc_globals \<Rightarrow> bool" where
  "scan_counts s1 s \<longleftrightarrow> (\<forall>x. rc s x = rc s1 x + of_nat (edges_into (kids s1) (restored s1 s) x)) \<and>
     (\<forall>x. color s x = GC_WHITE \<longrightarrow> rc s x = 0)"

definition scan_closed :: "gc_globals \<Rightarrow> gc_globals \<Rightarrow> bool" where
  "scan_closed s1 s \<longleftrightarrow> (\<forall>x\<in>restored s1 s. \<forall>y\<in>set (kids s1 x). color s y = GC_BLACK) \<and> restored s1 s \<subseteq> live s1"

definition scan_state :: "gc_globals \<Rightarrow> gc_globals \<Rightarrow> bool" where
  "scan_state s1 s \<longleftrightarrow> marked s1 \<and> only_headers s1 s \<and> scan_colors s1 s \<and> scan_counts s1 s \<and> scan_closed s1 s"

lemma scan_stateD:
  assumes "scan_state s1 s"
  shows "marked s1" "only_headers s1 s" "scan_colors s1 s" "scan_counts s1 s" "scan_closed s1 s"
    "wf_heap s1" "kids s = kids s1" "color s (symbol_table s1) = GC_BLACK" "symbol_table s = symbol_table s1"
    "dom (gc_heap s) = dom (gc_heap s1)"
  using assms only_headers_kids [of s1 s] only_headersD(2,5) [of s1 s]
  by (auto simp: scan_state_def marked_def scan_colors_def dest: spec [of _ "symbol_table s1"])

lemma color_allocated: "color s x \<noteq> GC_BLACK \<Longrightarrow> x \<in> dom (gc_heap s)"
  by (auto simp: color_def split: option.splits)

lemma grey_allocated: "grey s \<subseteq> dom (gc_heap s)"
proof
  fix x assume "x \<in> grey s"
  then have "color s x \<noteq> GC_BLACK" by (simp add: grey_def)
  then show "x \<in> dom (gc_heap s)" by (rule color_allocated)
qed

lemma grey_finite: "wf_heap s \<Longrightarrow> finite (grey s)"
  by (rule finite_subset [of _ "dom (gc_heap s)"]) (auto simp: grey_def wf_heap_def intro!: color_allocated [of s, simplified])

lemma only_headers_trans: "only_headers s0 s1 \<Longrightarrow> only_headers s1 s2 \<Longrightarrow> only_headers s0 s2"
proof -
  assume a: "only_headers s0 s1" "only_headers s1 s2"
  have s1: "s1 = s0\<lparr>gc_heap := gc_heap s1\<rparr>" and s2: "s2 = s1\<lparr>gc_heap := gc_heap s2\<rparr>"
    using a by (simp_all add: only_headers_def)
  have "s1\<lparr>gc_heap := gc_heap s2\<rparr> = s0\<lparr>gc_heap := gc_heap s2\<rparr>" by (subst s1, simp)
  then have "s2 = s0\<lparr>gc_heap := gc_heap s2\<rparr>" using s2 by argo
  then show "only_headers s0 s2" using a by (simp add: only_headers_def)
qed

lemma wf_heap_headers: "wf_heap s1 \<Longrightarrow> only_headers s1 s \<Longrightarrow> wf_heap s"
  unfolding wf_heap_def
  using only_headers_kids [of s1 s] only_headersD(2,4,5) [of s1 s] only_headers_refs(2) [of s1 s]
  by (metis option.exhaust)

lemma restored_finite: "scan_state s1 s \<Longrightarrow> finite (restored s1 s)"
  by (rule finite_subset [OF _ grey_finite [of s1]]) (auto simp: restored_def grey_def dest: scan_stateD(6))

lemma scan_start:
  assumes "marked s1"
  shows "scan_state s1 s1"
proof -
  have "restored s1 s1 = {}" by (auto simp: restored_def)
  moreover have "color s1 x \<noteq> GC_WHITE" for x using assms unfolding marked_def by (metis color_consts(4,5))
  ultimately show ?thesis using assms by (simp add: scan_state_def scan_colors_def scan_counts_def scan_closed_def)
qed

subsection \<open>Restoring what is referenced from outside\<close>

text \<open>What one call may do to the colours.\<close>

definition scan_step :: "gc_globals \<Rightarrow> gc_globals \<Rightarrow> gc_globals \<Rightarrow> bool" where
  "scan_step s1 s s' \<longleftrightarrow>
     (\<forall>x. color s x \<noteq> GC_GREY \<longrightarrow> color s' x = color s x \<or> color s' x = GC_BLACK) \<and>
     (\<forall>x. color s x = GC_GREY \<longrightarrow> color s' x = GC_WHITE \<longrightarrow> (\<forall>y\<in>set (kids s1 x). color s' y \<noteq> GC_GREY))"

lemma scan_step_grey: "scan_step s1 s s' \<Longrightarrow> grey s' \<subseteq> grey s"
  unfolding scan_step_def grey_def by (metis (mono_tags, lifting) color_consts(1) mem_Collect_eq subsetI)

lemma scan_step_refl: "scan_step s1 s s"
  by (simp add: scan_step_def)

lemma scan_step_trans: "scan_step s1 s s' \<Longrightarrow> scan_step s1 s' s'' \<Longrightarrow> scan_step s1 s s''"
  unfolding scan_step_def
proof (intro conjI allI impI)
  fix x
  assume a: "(\<forall>x. color s x \<noteq> GC_GREY \<longrightarrow> color s' x = color s x \<or> color s' x = GC_BLACK) \<and>
      (\<forall>x. color s x = GC_GREY \<longrightarrow> color s' x = GC_WHITE \<longrightarrow> (\<forall>y\<in>set (kids s1 x). color s' y \<noteq> GC_GREY))"
    "(\<forall>x. color s' x \<noteq> GC_GREY \<longrightarrow> color s'' x = color s' x \<or> color s'' x = GC_BLACK) \<and>
      (\<forall>x. color s' x = GC_GREY \<longrightarrow> color s'' x = GC_WHITE \<longrightarrow> (\<forall>y\<in>set (kids s1 x). color s'' y \<noteq> GC_GREY))"
  show "color s'' x = color s x \<or> color s'' x = GC_BLACK" if "color s x \<noteq> GC_GREY"
    using that a by (metis color_consts(2))
  assume g: "color s x = GC_GREY" "color s'' x = GC_WHITE"
  show "\<forall>y\<in>set (kids s1 x). color s'' y \<noteq> GC_GREY"
  proof (cases "color s' x = GC_GREY")
    case True
    then show ?thesis using a g by blast
  next
    case False
    then have "color s' x = GC_WHITE" using a(2) g(2) by (metis color_consts(3))
    then have k: "\<forall>y\<in>set (kids s1 x). color s' y \<noteq> GC_GREY" using a(1) g(1) by blast
    show ?thesis
    proof
      fix y assume "y \<in> set (kids s1 x)"
      then have "color s'' y = color s' y \<or> color s'' y = GC_BLACK" "color s' y \<noteq> GC_GREY" using a(2) k by blast+
      then show "color s'' y \<noteq> GC_GREY" by auto
    qed
  qed
qed

lemma nonblack_grey:
  assumes st: "scan_state s1 s"
  shows "to_blacken s s \<subseteq> grey s1"
proof
  fix x assume "x \<in> to_blacken s s"
  then have "color s x \<noteq> GC_BLACK" by (simp add: to_blacken_def)
  moreover have "color s1 x = GC_GREY \<or> color s1 x = GC_BLACK" using scan_stateD(1) [OF st] by (simp add: marked_def)
  moreover have "color s x = color s1 x \<or> color s1 x = GC_GREY" using scan_stateD(3) [OF st] by (auto simp: scan_colors_def)
  ultimately show "x \<in> grey s1" by (auto simp: grey_def)
qed

lemma black_starts:
  assumes st: "scan_state s1 s"
  shows "black_state s s"
  using scan_stateD [OF st] wf_heap_headers [of s1 s] by (simp add: black_state_def)

lemma scan_blackened:
  assumes st: "scan_state s1 s"
    and b: "black_state s s'" "walked (kids s) (to_blacken s) rc 1 N [r] s s'"
  shows "\<And>x. color s' x = (if x \<in> N then GC_BLACK else color s x)" "N \<subseteq> grey s1" "N \<inter> restored s1 s = {}"
    "restored s1 s' = restored s1 s \<union> N" "\<And>x y. x \<in> N \<Longrightarrow> y \<in> set (kids s1 x) \<Longrightarrow> color s' y = GC_BLACK"
    "\<And>y. y \<in> N \<Longrightarrow> (r, y) \<in> (edge (kids s1))\<^sup>*" "color s' r = GC_BLACK"
proof -
  note D = scan_stateD [OF st]
  have h: "only_headers s s'" "\<And>x. color s' x = color s x \<or> color s' x = GC_BLACK" using b(1) by (auto simp: black_state_def)
  have w: "N \<subseteq> to_blacken s s" "to_blacken s s' = to_blacken s s - N"
    using b(2) by (auto simp: walked_def)
  have out: "color s' x = GC_BLACK" if "x \<notin> to_blacken s s'" for x
    using that color_allocated [of s' x] only_headersD(5) [OF h(1)] by (auto simp: to_blacken_def)
  show c: "color s' x = (if x \<in> N then GC_BLACK else color s x)" for x
  proof (cases "x \<in> N")
    case True
    then show ?thesis using out w(2) by auto
  next
    case False
    show ?thesis
    proof (cases "color s x = GC_BLACK")
      case True
      then show ?thesis using h(2) [of x] False by auto
    next
      case F: False
      then have "x \<in> to_blacken s s" using color_allocated by (auto simp: to_blacken_def)
      then have "x \<in> to_blacken s s'" using w(2) False by auto
      then show ?thesis using h(2) [of x] False by (auto simp: to_blacken_def)
    qed
  qed
  show g: "N \<subseteq> grey s1" using w(1) nonblack_grey [OF st] by blast
  show "N \<inter> restored s1 s = {}" using w(1) by (auto simp: to_blacken_def restored_def)
  show "restored s1 s' = restored s1 s \<union> N" using c g by (auto simp: restored_def grey_def)
  show "color s' y = GC_BLACK" if "x \<in> N" "y \<in> set (kids s1 x)" for x y
    using that b(2) out D(7) by (auto simp: walked_def)
  show "(r, y) \<in> (edge (kids s1))\<^sup>*" if "y \<in> N" for y using that b(2) D(7) by (auto simp: walked_def)
  show "color s' r = GC_BLACK" using b(2) out by (auto simp: walked_def)
qed

lemma live_start:
  assumes st: "scan_state s1 s" and r: "color s r = GC_GREY" "rc s r \<noteq> 0"
  shows "color s1 r = GC_GREY" "rc s1 r \<noteq> 0"
proof -
  note D = scan_stateD [OF st]
  show "color s1 r = GC_GREY" using D(3) r(1) unfolding scan_colors_def by metis
  have "edges_into (kids s1) (restored s1 s) r = 0"
    using D(5) r(1) restored_finite [OF st] by (auto simp: edges_into_0 scan_closed_def)
  then show "rc s1 r \<noteq> 0" using D(4) r(2) by (auto simp: scan_counts_def)
qed

lemma scan_black_step:
  assumes st: "scan_state s1 s" and r: "color s r = GC_GREY" "rc s r \<noteq> 0" and n: "card (grey s1) < n"
  shows "\<exists>s'. gc_scan_black n r s = Inr s' \<and> scan_state s1 s' \<and> scan_step s1 s s' \<and> color s' r \<noteq> GC_GREY"
proof -
  note D = scan_stateD [OF st]
  have "card (to_blacken s s) \<le> card (grey s1)" by (rule card_mono [OF grey_finite [OF D(6)] nonblack_grey [OF st]])
  then have "card (to_blacken s s) < n" using n by (rule le_less_trans)
  moreover have "r \<in> to_blacken s s" using r(1) color_allocated [of s r] by (simp add: to_blacken_def)
  ultimately obtain s' N where s': "gc_scan_black n r s = Inr s'" "black_state s s'"
      "walked (kids s) (to_blacken s) rc 1 N [r] s s'" "counted (kids s) rc 1 N [] s s'"
    using black.walk_spec [OF black_starts [OF st]] by blast
  note S = scan_blackened [OF st s'(2,3)]
  have fin: "finite N" using finite_subset [OF S(2) grey_finite [OF D(6)]] .
  have cnt: "rc s' x = rc s x + of_nat (edges_into (kids s1) N x)" for x
    using s'(4) D(7) by (simp add: counted_def)
  have "only_headers s1 s'" using D(2) s'(2) only_headers_trans by (auto simp: black_state_def)
  moreover have "scan_colors s1 s'" using D(3) S(1,2) by (auto simp: scan_colors_def grey_def)
  moreover have "scan_counts s1 s'" unfolding scan_counts_def
  proof (intro conjI allI impI)
    fix x
    have "restored s1 s \<inter> N = {}" using S(3) by blast
    note sum = edges_into_Un [OF restored_finite [OF st] fin this, of "kids s1" x]
    show "rc s' x = rc s1 x + of_nat (edges_into (kids s1) (restored s1 s') x)"
      using cnt [of x] D(4) sum by (simp add: scan_counts_def S(4))
    assume "color s' x = GC_WHITE"
    then have "color s x = GC_WHITE" "\<forall>n\<in>N. x \<notin> set (kids s1 n)" using S(1) [of x] S(5) by (auto split: if_splits)
    moreover from this have "rc s x = 0" using D(4) unfolding scan_counts_def by blast
    moreover have "edges_into (kids s1) N x = 0" using calculation edges_into_0 [OF fin] by blast
    ultimately show "rc s' x = 0" using cnt [of x] by simp
  qed
  moreover have "scan_closed s1 s'"
    unfolding scan_closed_def
  proof (intro conjI ballI subsetI)
    fix x y assume "x \<in> restored s1 s'" "y \<in> set (kids s1 x)"
    then show "color s' y = GC_BLACK" using S(1) [of y] S(4,5) D(5) by (auto simp: scan_closed_def)
  next
    fix x assume "x \<in> restored s1 s'"
    then show "x \<in> live s1" using S(2,4,6) D(5) live_start [OF st r] by (auto simp: scan_closed_def live_def grey_def)
  qed
  moreover have "scan_step s1 s s'" using S(1) by (simp add: scan_step_def)
  ultimately show ?thesis using D(1) S(7) s'(1) by (auto simp: scan_state_def)
qed

subsection \<open>Scanning\<close>

lemma whiten:
  assumes st: "scan_state s1 s" and r: "color s r = GC_GREY" "rc s r = 0"
  shows "\<exists>s2. GC_REF_SET_COLOR r GC_WHITE s = Inr s2 \<and> scan_state s1 s2 \<and> color s2 = (color s)(r := GC_WHITE)"
proof -
  note D = scan_stateD [OF st]
  have d: "r \<in> dom (gc_heap s1)" using color_allocated [of s r] r(1) D(10) by simp
  obtain s2 where s2: "GC_REF_SET_COLOR r GC_WHITE s = Inr s2" "only_headers s1 s2"
      "color s2 = (color s)(r := GC_WHITE)" "rc s2 = rc s"
    using header_op(4) [OF D(2) d] by blast
  have g: "color s1 r = GC_GREY" using D(3) r(1) unfolding scan_colors_def by metis
  have re: "restored s1 s2 = restored s1 s" using s2(3) r(1) by (auto simp: restored_def)
  have "color s2 x = GC_WHITE \<Longrightarrow> rc s2 x = 0" for x
    using D(4) s2(3,4) r(2) unfolding scan_counts_def by (metis fun_upd_other)
  then have "scan_counts s1 s2" using D(4) s2(4) re unfolding scan_counts_def by metis
  moreover have "scan_colors s1 s2" using D(3) s2(3) g by (simp add: scan_colors_def)
  moreover have "scan_closed s1 s2" using D(5) s2(3) r(1) re by (auto simp: scan_closed_def)
  ultimately show ?thesis using s2 D(1) by (auto simp: scan_state_def)
qed

lemma scan_loop:
  assumes scan: "\<And>r s. scan_state s1 s \<Longrightarrow> r \<in> dom (gc_heap s1) \<Longrightarrow> card (grey s) + card (grey s1) < n \<Longrightarrow>
      \<exists>s'. gc_scan n r s = Inr s' \<and> scan_state s1 s' \<and> scan_step s1 s s' \<and> color s' r \<noteq> GC_GREY"
    and "scan_state s1 s" "set rs \<subseteq> dom (gc_heap s1)" "card (grey s) + card (grey s1) < n"
  shows "\<exists>s'. for_each (gc_scan n) rs s = Inr s' \<and> scan_state s1 s' \<and> scan_step s1 s s' \<and> (\<forall>r\<in>set rs. color s' r \<noteq> GC_GREY)"
  using assms(2-4)
proof (induction rs arbitrary: s)
  case Nil
  then show ?case by (simp add: scan_step_refl)
next
  case (Cons r rs)
  obtain sa where sa: "gc_scan n r s = Inr sa" "scan_state s1 sa" "scan_step s1 s sa" "color sa r \<noteq> GC_GREY"
    using scan [OF Cons.prems(1) _ Cons.prems(3), of r] Cons.prems(2) by auto
  have "finite (grey s)" using grey_finite wf_heap_headers scan_stateD(2,6) [OF Cons.prems(1)] by blast
  then have "card (grey sa) \<le> card (grey s)" using scan_step_grey [OF sa(3)] by (rule card_mono)
  then obtain sb where sb: "for_each (gc_scan n) rs sa = Inr sb" "scan_state s1 sb" "scan_step s1 sa sb"
      "\<forall>r\<in>set rs. color sb r \<noteq> GC_GREY"
    using Cons.IH [OF sa(2)] Cons.prems(2,3) by auto
  have "color sb r \<noteq> GC_GREY" using sa(4) scan_step_grey [OF sb(3)] by (auto simp: grey_def)
  then show ?case using sa sb scan_step_trans [OF sa(3) sb(3)] by auto
qed

lemma gc_scan_spec:
  assumes "scan_state s1 s" "r \<in> dom (gc_heap s1)" "card (grey s) + card (grey s1) < n"
  shows "\<exists>s'. gc_scan n r s = Inr s' \<and> scan_state s1 s' \<and> scan_step s1 s s' \<and> color s' r \<noteq> GC_GREY"
  using assms
proof (induction n arbitrary: r s)
  case (Suc n)
  note D = scan_stateD [OF Suc.prems(1)]
  obtain nd where nd: "node_at r s = Inr nd" "GC_REF_GET_COLOR nd = color s r" "gc_refcount nd = rc s r"
      "(if is_symbol_table r nd s then [] else node_refs s nd) = kids s1 r"
    using header_read [OF D(2) Suc.prems(2)] by blast
  show ?case
  proof (cases "color s r = GC_GREY")
    case False
    then show ?thesis using nd Suc.prems(1) by (auto simp: scan_step_refl)
  next
    case True
    have fin: "finite (grey s)" using grey_finite wf_heap_headers D(2,6) by blast
    have r: "r \<in> grey s" using True by (simp add: grey_def)
    then have pos: "0 < card (grey s)" using fin card_gt_0_iff by blast
    show ?thesis
    proof (cases "rc s r = 0")
      case False
      have "card (grey s1) < n" using Suc.prems(3) pos by linarith
      then show ?thesis using scan_black_step [OF Suc.prems(1) True False] nd True False
        by (simp add: word_neq_0_conv [symmetric])
    next
      case rc0: True
      obtain s2 where s2: "GC_REF_SET_COLOR r GC_WHITE s = Inr s2" "scan_state s1 s2" "color s2 = (color s)(r := GC_WHITE)"
        using whiten [OF Suc.prems(1) True rc0] by blast
      have "r \<noteq> symbol_table s1" using D(8) True by auto
      then have ns: "\<not> is_symbol_table r nd s" using symbol_table_node [OF D(6,2) nd(1)] by simp
      have same: "node_refs s2 nd = node_refs s nd" "is_symbol_table r nd s2 = is_symbol_table r nd s"
        by (rule node_refs_cong; use only_headersD(1,2) [OF D(2)] only_headersD(1,2) [OF scan_stateD(2) [OF s2(2)]] in argo)+
      have g2: "grey s2 = grey s - {r}" using s2(3) by (auto simp: grey_def)
      then have "card (grey s2) + card (grey s1) < n" using Suc.prems(3) r fin pos by (simp add: card_Diff_singleton)
      moreover have "set (kids s1 r) \<subseteq> dom (gc_heap s1)" using D(6) Suc.prems(2) by (simp add: wf_heap_def)
      ultimately obtain s' where s': "for_each (gc_scan n) (kids s1 r) s2 = Inr s'" "scan_state s1 s'" "scan_step s1 s2 s'"
          "\<forall>q\<in>set (kids s1 r). color s' q \<noteq> GC_GREY"
        using scan_loop [OF Suc.IH s2(2)] by blast
      have "gc_scan (Suc n) r s = Inr s'" using nd True rc0 s2(1) ns same s'(1) by (simp add: gc_walk_eq)
      moreover have "scan_step s1 s s'" unfolding scan_step_def
      proof (intro conjI allI impI)
        fix x
        show "color s' x = color s x \<or> color s' x = GC_BLACK" if "color s x \<noteq> GC_GREY"
        proof -
          have "x \<noteq> r" using that True by auto
          then show ?thesis using that s'(3) s2(3) unfolding scan_step_def by (metis fun_upd_other)
        qed
        assume x: "color s x = GC_GREY" "color s' x = GC_WHITE"
        show "\<forall>y\<in>set (kids s1 x). color s' y \<noteq> GC_GREY"
        proof (cases "x = r")
          case False
          then show ?thesis using s'(3) x s2(3) unfolding scan_step_def by (metis fun_upd_other)
        qed (use s'(4) in simp)
      qed
      moreover have "color s' r \<noteq> GC_GREY" using scan_step_grey [OF s'(3)] g2 by (auto simp: grey_def)
      ultimately show ?thesis using s'(2) by blast
    qed
  qed
qed simp

end
