(* ===== verification/Zend_GC_Roots.thy ===== *)
theory Zend_GC_Roots
  imports Zend_GC_Scan Chains
begin

text \<open>
  The circular lists of root entries: what the pointer operations do to the list a head stands for,
  and loops along such a list.
\<close>

subsection \<open>The entries of a state\<close>

definition nxt :: "gc_globals \<Rightarrow> root_ptr \<Rightarrow> root_ptr option" where
  "nxt s p = map_option root_next (gc_roots s p)"

definition prv :: "gc_globals \<Rightarrow> root_ptr \<Rightarrow> root_ptr option" where
  "prv s p = map_option root_prev (gc_roots s p)"

definition ref_of :: "gc_globals \<Rightarrow> root_ptr \<Rightarrow> gc_ref option" where
  "ref_of s p = map_option root_ref (gc_roots s p)"

definition only_roots :: "gc_globals \<Rightarrow> gc_globals \<Rightarrow> bool" where
  "only_roots s s' \<longleftrightarrow> s' = s\<lparr>gc_roots := gc_roots s'\<rparr>"

lemma only_roots_trans: "only_roots s s1 \<Longrightarrow> only_roots s1 s2 \<Longrightarrow> only_roots s s2"
proof -
  assume a: "only_roots s s1" "only_roots s1 s2"
  have s1: "s1 = s\<lparr>gc_roots := gc_roots s1\<rparr>" and s2: "s2 = s1\<lparr>gc_roots := gc_roots s2\<rparr>"
    using a by (simp_all add: only_roots_def)
  have "s1\<lparr>gc_roots := gc_roots s2\<rparr> = s\<lparr>gc_roots := gc_roots s2\<rparr>" by (subst s1, simp)
  then show "only_roots s s2" using s2 unfolding only_roots_def by argo
qed

lemma only_rootsD:
  assumes "only_roots s s'"
  shows "gc_heap s' = gc_heap s" "gc_slots s' = gc_slots s" "symbol_table s' = symbol_table s"
    "gc_unused s' = gc_unused s" "gc_first_unused s' = gc_first_unused s" "gc_last_unused s' = gc_last_unused s"
    "additional_buffer s' = additional_buffer s" "gc_blocks s' = gc_blocks s" "gc_store s' = gc_store s"
proof -
  have s: "s' = s\<lparr>gc_roots := gc_roots s'\<rparr>" using assms by (simp add: only_roots_def)
  show "gc_heap s' = gc_heap s" "gc_slots s' = gc_slots s" "symbol_table s' = symbol_table s"
    "gc_unused s' = gc_unused s" "gc_first_unused s' = gc_first_unused s" "gc_last_unused s' = gc_last_unused s"
    "additional_buffer s' = additional_buffer s" "gc_blocks s' = gc_blocks s" "gc_store s' = gc_store s" by (subst s, simp)+
qed

lemma entry_ops:
  assumes "nxt s p \<noteq> None"
  shows "\<exists>b. root_at p s = Inr b \<and> nxt s p = Some (root_next b) \<and> prv s p = Some (root_prev b) \<and> ref_of s p = Some (root_ref b)"
    "\<exists>s'. set_next p q s = Inr s' \<and> only_roots s s' \<and> nxt s' = (nxt s)(p := Some q) \<and> prv s' = prv s \<and> ref_of s' = ref_of s"
    "\<exists>s'. set_prev p q s = Inr s' \<and> only_roots s s' \<and> prv s' = (prv s)(p := Some q) \<and> nxt s' = nxt s \<and> ref_of s' = ref_of s"
    "\<exists>s'. change_root p (\<lambda>b. b\<lparr>root_ref := r\<rparr>) s = Inr s' \<and> only_roots s s' \<and> prv s' = prv s \<and> nxt s' = nxt s \<and>
      ref_of s' = (ref_of s)(p := Some r)"
proof -
  obtain b where b: "gc_roots s p = Some b" using assms by (auto simp: nxt_def)
  show "\<exists>b. root_at p s = Inr b \<and> nxt s p = Some (root_next b) \<and> prv s p = Some (root_prev b) \<and> ref_of s p = Some (root_ref b)"
    using b by (simp add: root_at_def nxt_def prv_def ref_of_def)
  show "\<exists>s'. set_next p q s = Inr s' \<and> only_roots s s' \<and> nxt s' = (nxt s)(p := Some q) \<and> prv s' = prv s \<and> ref_of s' = ref_of s"
    "\<exists>s'. set_prev p q s = Inr s' \<and> only_roots s s' \<and> prv s' = (prv s)(p := Some q) \<and> nxt s' = nxt s \<and> ref_of s' = ref_of s"
    "\<exists>s'. change_root p (\<lambda>b. b\<lparr>root_ref := r\<rparr>) s = Inr s' \<and> only_roots s s' \<and> prv s' = prv s \<and> nxt s' = nxt s \<and>
      ref_of s' = (ref_of s)(p := Some r)"
    using b by (auto simp: set_next_def set_prev_def change_root_def root_at_def only_roots_def nxt_def prv_def ref_of_def fun_eq_iff)
qed

abbreviation roots_of :: "gc_globals \<Rightarrow> root_ptr \<Rightarrow> root_ptr list \<Rightarrow> bool" where
  "roots_of s \<equiv> ring (nxt s) (prv s)"

subsection \<open>Removing and adding an entry\<close>

lemma unlink_spec:
  assumes r: "roots_of s h (xs @ x # ys)"
  defines "a \<equiv> last (h # xs)" and "b \<equiv> hd (ys @ [h])"
  shows "\<exists>s'. gc_remove_from_additional_roots x s = Inr s' \<and> only_roots s s' \<and> ref_of s' = ref_of s \<and>
    nxt s' = (nxt s)(a := Some b) \<and> prv s' = (prv s)(b := Some a) \<and> roots_of s' h (xs @ ys)"
proof -
  note R = ring_remove [OF r, folded a_def b_def]
  have d: "distinct (h # xs @ x # ys)" using r by (simp add: ring_def)
  have a: "a \<in> set (h # xs)" using last_in_set [of "h # xs"] by (simp add: a_def del: last.simps)
  have b: "b \<in> set (ys @ [h])" using hd_in_set [of "ys @ [h]"] by (simp add: b_def)
  have ne: "a \<noteq> x" "b \<noteq> x" using a b d by auto
  have def: "nxt s y \<noteq> None" if "y \<in> set (h # xs @ x # ys)" for y using ring_defined [OF r that] by blast
  obtain e where e: "root_at x s = Inr e" "root_next e = b" "root_prev e = a"
    using entry_ops(1) [of s x] def [of x] R(2,3) by auto
  obtain s1 where s1: "set_prev b a s = Inr s1" "only_roots s s1" "prv s1 = (prv s)(b := Some a)" "nxt s1 = nxt s" "ref_of s1 = ref_of s"
    using entry_ops(3) [of s b a] def [of b] b by auto
  obtain e1 where e1: "root_at x s1 = Inr e1" "root_next e1 = b" "root_prev e1 = a"
    using entry_ops(1) [of s1 x] def [of x] R(2,3) s1(3,4) ne(2) by auto
  obtain s2 where s2: "set_next a b s1 = Inr s2" "only_roots s1 s2" "nxt s2 = (nxt s1)(a := Some b)" "prv s2 = prv s1" "ref_of s2 = ref_of s1"
    using entry_ops(2) [of s1 a b] def [of a] a s1(4) by auto
  have "gc_remove_from_additional_roots x s = Inr s2"
    using e s1(1) e1 s2(1) by (simp add: gc_remove_from_additional_roots_def)
  moreover have "only_roots s s2" by (rule only_roots_trans [OF s1(2) s2(2)])
  ultimately show ?thesis using s1 s2 R(1) by auto
qed

lemma link_spec:
  assumes r: "roots_of s ROOTS xs" and p: "p \<notin> set (ROOTS # xs)" "nxt s p \<noteq> None"
  shows "\<exists>s'. link_root p v s = Inr s' \<and> only_roots s s' \<and> ref_of s' = (ref_of s)(p := Some v) \<and> roots_of s' ROOTS (p # xs) \<and>
    (\<forall>q. q \<notin> set (ROOTS # p # xs) \<longrightarrow> nxt s' q = nxt s q \<and> prv s' q = prv s q)"
proof -
  define f where "f = hd (xs @ [ROOTS])"
  note R = ring_insert [OF r p(1), folded f_def]
  have f: "f \<in> set (ROOTS # xs)" using hd_in_set [of "xs @ [ROOTS]"] by (auto simp: f_def)
  have def: "nxt s y \<noteq> None" if "y \<in> set (ROOTS # xs)" for y using ring_defined [OF r that] by blast
  obtain s1 where s1: "change_root p (\<lambda>b. b\<lparr>root_ref := v\<rparr>) s = Inr s1" "only_roots s s1" "prv s1 = prv s" "nxt s1 = nxt s"
      "ref_of s1 = (ref_of s)(p := Some v)"
    using entry_ops(4) [OF p(2)] by blast
  obtain h1 where h1: "root_at ROOTS s1 = Inr h1" "root_next h1 = f" using entry_ops(1) [of s1 ROOTS] s1(4) R(2) by auto
  obtain s2 where s2: "set_next p f s1 = Inr s2" "only_roots s1 s2" "nxt s2 = (nxt s1)(p := Some f)" "prv s2 = prv s1" "ref_of s2 = ref_of s1"
    using entry_ops(2) [of s1 p f] p(2) s1(4) by auto
  obtain s3 where s3: "set_prev p ROOTS s2 = Inr s3" "only_roots s2 s3" "prv s3 = (prv s2)(p := Some ROOTS)" "nxt s3 = nxt s2" "ref_of s3 = ref_of s2"
    using entry_ops(3) [of s2 p ROOTS] s2(3) by auto
  have n3: "nxt s3 ROOTS = Some f" using s3(4) s2(3) s1(4) R(2) p(1) by auto
  then obtain h3 where h3: "root_at ROOTS s3 = Inr h3" "root_next h3 = f" using entry_ops(1) [of s3 ROOTS] by auto
  have "nxt s3 f \<noteq> None" using def [OF f] s3(4) s2(3) s1(4) by simp
  then obtain s4 where s4: "set_prev f p s3 = Inr s4" "only_roots s3 s4" "prv s4 = (prv s3)(f := Some p)" "nxt s4 = nxt s3" "ref_of s4 = ref_of s3"
    using entry_ops(3) [of s3 f p] by blast
  obtain s5 where s5: "set_next ROOTS p s4 = Inr s5" "only_roots s4 s5" "nxt s5 = (nxt s4)(ROOTS := Some p)" "prv s5 = prv s4" "ref_of s5 = ref_of s4"
    using entry_ops(2) [of s4 ROOTS p] s4(4) n3 by auto
  have "link_root p v s = Inr s5" using s1(1) h1 s2(1) s3(1) h3 s4(1) s5(1) by (simp add: link_root_def)
  moreover have "only_roots s s5" using s1(2) s2(2) s3(2) s4(2) s5(2) by (blast intro: only_roots_trans)
  moreover have "nxt s5 = (nxt s)(p := Some f, ROOTS := Some p)" "prv s5 = (prv s)(p := Some ROOTS, f := Some p)"
    using s1 s2 s3 s4 s5 by simp_all
  ultimately show ?thesis using R(1) f s1(5) s2(5) s3(5) s4(5) s5(5) by auto
qed

subsection \<open>Loops\<close>

lemma then_next_inv:
  assumes "roots_of s h xs" and "P [] xs s"
    and step: "\<And>done p rest r s. xs = done @ p # rest \<Longrightarrow> P done (p # rest) s \<Longrightarrow> ref_of s p = Some r \<Longrightarrow>
      \<exists>s'. f r s = Inr s' \<and> gc_roots s' = gc_roots s \<and> P (done @ [p]) rest s'"
  shows "\<exists>s'. from_first (then_next f) h s = Some (Inr s') \<and> gc_roots s' = gc_roots s \<and> P xs [] s'"
proof -
  let ?Q = "\<lambda>ps t. gc_roots t = gc_roots s \<and> (\<exists>done. xs = done @ ps \<and> P done ps t)"
  have first: "nxt s h = Some (hd (xs @ [h]))" using assms(1) chain_first [of "nxt s" "prv s" h xs h] by (auto simp: ring_def)
  have "\<exists>s'. list_loop (then_next f) h (hd (xs @ [h])) s = Some (Inr s') \<and> ?Q [] s'"
  proof (rule list_loop_inv [where P = ?Q])
    show "?Q xs s" using assms(2) by auto
    fix p ps t assume Q: "?Q (p # ps) t"
    then obtain dn where dn: "xs = dn @ p # ps" "P dn (p # ps) t" by auto
    have t: "nxt t = nxt s" "prv t = prv s" "ref_of t = ref_of s" using Q by (auto simp: nxt_def prv_def ref_of_def fun_eq_iff)
    have n: "nxt t p = Some (hd (ps @ [h]))" "p \<noteq> h" using ring_next [of "nxt s" "prv s" h dn p ps] assms(1) dn(1) t by auto
    obtain b where b: "root_at p t = Inr b" "ref_of t p = Some (root_ref b)" using entry_ops(1) [of t p] n by auto
    obtain t' where t': "f (root_ref b) t = Inr t'" "gc_roots t' = gc_roots t" "P (dn @ [p]) ps t'"
      using step [OF dn b(2)] by blast
    have "nxt t' p = Some (hd (ps @ [h]))" using n t'(2) by (simp add: nxt_def)
    then obtain b' where "root_at p t' = Inr b'" "root_next b' = hd (ps @ [h])" using entry_ops(1) [of t' p] by auto
    then have "then_next f p t = Inr (hd (ps @ [h]), t')" using b(1) t'(1) by (simp add: then_next_def)
    then show "p \<noteq> h \<and> (\<exists>s'. then_next f p t = Inr (hd (ps @ [h]), s') \<and> ?Q ps s')"
      using n(2) t' Q dn(1) by auto
  qed
  moreover obtain b where "root_at h s = Inr b" "root_next b = hd (xs @ [h])" using entry_ops(1) [of s h] first by auto
  ultimately show ?thesis by (auto simp: from_first_def run_bind_def)
qed

end
