(* ===== verification/Zend_GC_Phases.thy ===== *)
theory Zend_GC_Phases
  imports Zend_GC_Roots
begin

text \<open>
  \<open>gc_mark_roots\<close> and \<open>gc_scan_roots\<close> from a state in which the possible roots are purple and all else
  is black: afterwards exactly the garbage is white.
\<close>

subsection \<open>Garbage\<close>

text \<open>What is reachable from the possible roots; the symbol table is never part of it.\<close>

definition reached :: "gc_globals \<Rightarrow> gc_ref set" where
  "reached s = {x. x \<noteq> symbol_table s \<and> (\<exists>r. color s r = GC_PURPLE \<and> (r, x) \<in> (edge (kids s))\<^sup>*)}"

text \<open>The references to it that do not come from reachable structures.\<close>

definition outside_refs :: "gc_globals \<Rightarrow> gc_ref \<Rightarrow> nat" where
  "outside_refs s x = unat (rc s x) - edges_into (kids s) (reached s) x"

definition garbage :: "gc_globals \<Rightarrow> gc_ref set" where
  "garbage s = {x \<in> reached s. \<forall>r\<in>reached s. outside_refs s r > 0 \<longrightarrow> (r, x) \<notin> (edge (kids s))\<^sup>*}"

definition refs_counted :: "gc_globals \<Rightarrow> bool" where
  "refs_counted s \<longleftrightarrow> (\<forall>x. edges_into (kids s) (dom (gc_heap s)) x \<le> unat (rc s x))"

definition gc_ready :: "gc_globals \<Rightarrow> root_ptr list \<Rightarrow> bool" where
  "gc_ready s xs \<longleftrightarrow> wf_heap s \<and> roots_of s ROOTS xs \<and> (\<forall>x. color s x = GC_BLACK \<or> color s x = GC_PURPLE) \<and>
     (\<forall>x. color s x = GC_PURPLE \<longrightarrow> (\<exists>p\<in>set xs. ref_of s p = Some x)) \<and>
     (\<forall>p\<in>set xs. \<exists>r\<in>dom (gc_heap s). ref_of s p = Some r)"

lemma gc_readyD:
  assumes "gc_ready s xs"
  shows "wf_heap s" "roots_of s ROOTS xs" "\<And>x. color s x = GC_BLACK \<or> color s x = GC_PURPLE"
    "\<And>x. color s x = GC_PURPLE \<Longrightarrow> \<exists>p\<in>set xs. ref_of s p = Some x"
    "\<And>p r. p \<in> set xs \<Longrightarrow> ref_of s p = Some r \<Longrightarrow> r \<in> dom (gc_heap s)"
  using assms by (auto simp: gc_ready_def)

subsection \<open>Marking the roots\<close>

lemma mark_grey_set:
  assumes ok: "mark_state s s'" and w: "walked (kids s) (to_mark s) rc (-1) N rs s s'"
  shows "grey s' = grey s \<union> N" "N \<inter> grey s = {}"
proof -
  have sym: "color s (symbol_table s) \<noteq> GC_GREY" "color s' (symbol_table s) \<noteq> GC_GREY"
    using ok unfolding mark_state_def by (metis color_consts(2))+
  have h: "dom (gc_heap s') = dom (gc_heap s)" using ok only_headersD(5) by (auto simp: mark_state_def)
  have g: "x \<in> grey t \<longleftrightarrow> x \<in> dom (gc_heap s) \<and> x \<noteq> symbol_table s \<and> x \<notin> to_mark s t"
    if "t = s \<or> t = s'" for x t
    using that sym h color_allocated [of t x] by (auto simp: grey_def to_mark_def)
  have t: "N \<subseteq> to_mark s s" "to_mark s s' = to_mark s s - N" using w by (auto simp: walked_def)
  have m: "x \<in> to_mark s s \<Longrightarrow> x \<in> dom (gc_heap s) \<and> x \<noteq> symbol_table s" for x by (simp add: to_mark_def)
  have "x \<in> grey s' \<longleftrightarrow> x \<in> grey s \<union> N" for x using g [of s x] g [of s' x] t m [of x] by blast
  then show "grey s' = grey s \<union> N" by blast
  show "N \<inter> grey s = {}" using g [of s] t m by blast
qed

lemma mark_root_spec:
  assumes wf: "wf_heap s" "color s (symbol_table s) \<noteq> GC_GREY" and r: "r \<in> dom (gc_heap s)"
    and n: "card (dom (gc_heap s)) < depth"
  shows "\<exists>s' N. mark_root depth r s = Inr s' \<and> mark_state s s' \<and> grey s' = grey s \<union> N \<and> N \<inter> grey s = {} \<and>
    (\<forall>x\<in>N. color s r = GC_PURPLE \<and> (r, x) \<in> (edge (kids s))\<^sup>*) \<and>
    (\<forall>x\<in>N. \<forall>y\<in>set (kids s x). y \<in> grey s' \<or> y = symbol_table s) \<and>
    (\<forall>x. rc s' x = rc s x - of_nat (edges_into (kids s) N x)) \<and> color s' r \<noteq> GC_PURPLE"
proof -
  have st: "mark_state s s" using wf by (simp add: mark_state_def)
  obtain nd where nd: "node_at r s = Inr nd" "GC_REF_GET_COLOR nd = color s r"
    using header_read [OF only_headers_refl r] by blast
  obtain m where m: "depth = Suc m" using n by (cases depth) auto
  have fin: "finite (dom (gc_heap s))" using wf(1) by (simp add: wf_heap_def)
  show ?thesis
  proof (cases "color s r = GC_PURPLE")
    case False
    then show ?thesis using nd st by (intro exI [of _ s] exI [of _ "{}"]) (simp add: mark_root_def)
  next
    case purple: True
    show ?thesis
    proof (cases "r \<in> to_mark s s")
      case False
      then obtain s1 where s1: "gc_mark_grey depth r s = Inr s1" "mark_state s s1" "to_mark s s1 = to_mark s s" "rc s1 = rc s"
          "color s1 r \<noteq> GC_PURPLE"
        using mark_skip [OF st r, of m] m by blast
      have "walked (kids s) (to_mark s) rc (-1) {} [] s s1" using s1(3) by (simp add: walked_def)
      then have "grey s1 = grey s" using mark_grey_set [OF s1(2)] by blast
      then show ?thesis using s1 nd purple by (intro exI [of _ s1] exI [of _ "{}"]) (simp add: mark_root_def)
    next
      case True
      have "card (to_mark s s) \<le> card (dom (gc_heap s))" by (rule card_mono [OF fin]) (auto simp: to_mark_def)
      then have "card (to_mark s s) < depth" using n by linarith
      then obtain s1 N where s1: "gc_mark_grey depth r s = Inr s1" "mark_state s s1"
          "walked (kids s) (to_mark s) rc (-1) N [r] s s1" "counted (kids s) rc (-1) N [] s s1"
        using mark.walk_spec [OF st True] by blast
      note G = mark_grey_set [OF s1(2,3)]
      have kids: "y \<in> grey s1 \<or> y = symbol_table s" if "x \<in> N" "y \<in> set (kids s x)" for x y
      proof -
        have "x \<in> dom (gc_heap s)" using that(1) s1(3) by (auto simp: walked_def to_mark_def)
        then have "y \<in> dom (gc_heap s)" using wf(1) that(2) unfolding wf_heap_def by blast
        moreover have "y \<notin> to_mark s s1" using that s1(3) unfolding walked_def by blast
        ultimately show ?thesis by (auto simp: to_mark_def grey_def)
      qed
      have "r \<notin> to_mark s s1" using s1(3) unfolding walked_def by (metis list.set_intros(1))
      then have "color s1 r \<noteq> GC_PURPLE" using r True by (auto simp: to_mark_def)
      moreover have "\<forall>x. rc s1 x = rc s x - of_nat (edges_into (kids s) N x)"
        using s1(4) by (simp add: counted_def)
      moreover have "\<forall>x\<in>N. (r, x) \<in> (edge (kids s))\<^sup>*" using s1(3) by (simp add: walked_def)
      moreover have "mark_root depth r s = Inr s1" using nd purple s1(1) by (simp add: mark_root_def)
      ultimately show ?thesis
        using G kids s1(2) purple by (intro exI [of _ s1] exI [of _ N] conjI) blast+
    qed
  qed
qed

text \<open>Between the calls for the single roots.\<close>

definition mark_inv :: "gc_globals \<Rightarrow> root_ptr list \<Rightarrow> gc_globals \<Rightarrow> bool" where
  "mark_inv s0 done s \<longleftrightarrow> only_headers s0 s \<and> color s (symbol_table s0) \<noteq> GC_GREY \<and>
     (\<forall>x. color s x = color s0 x \<or> color s x = GC_GREY \<or> (x = symbol_table s0 \<and> color s x = GC_BLACK)) \<and>
     grey s \<subseteq> reached s0 \<and>
     (\<forall>x\<in>grey s. \<forall>y\<in>set (kids s0 x). y \<in> grey s \<or> y = symbol_table s0) \<and>
     (\<forall>x. rc s x = rc s0 x - of_nat (edges_into (kids s0) (grey s) x)) \<and>
     (\<forall>p\<in>set done. \<forall>r. ref_of s0 p = Some r \<longrightarrow> color s r \<noteq> GC_PURPLE)"

lemma mark_inv_step:
  assumes ready: "gc_ready s0 xs" and inv: "mark_inv s0 dn s" and n: "card (dom (gc_heap s0)) < depth"
    and p: "p \<in> set xs" "ref_of s0 p = Some r"
  shows "\<exists>s'. mark_root depth r s = Inr s' \<and> gc_roots s' = gc_roots s \<and> mark_inv s0 (dn @ [p]) s'"
proof -
  note R = gc_readyD [OF ready]
  have I: "only_headers s0 s" "color s (symbol_table s0) \<noteq> GC_GREY"
      "\<And>x. color s x = color s0 x \<or> color s x = GC_GREY \<or> (x = symbol_table s0 \<and> color s x = GC_BLACK)"
      "grey s \<subseteq> reached s0"
      "\<And>x y. x \<in> grey s \<Longrightarrow> y \<in> set (kids s0 x) \<Longrightarrow> y \<in> grey s \<or> y = symbol_table s0"
      "\<And>x. rc s x = rc s0 x - of_nat (edges_into (kids s0) (grey s) x)"
      "\<And>p r. p \<in> set dn \<Longrightarrow> ref_of s0 p = Some r \<Longrightarrow> color s r \<noteq> GC_PURPLE"
    using inv unfolding mark_inv_def by blast+
  have wf: "wf_heap s" by (rule wf_heap_headers [OF R(1) I(1)])
  note H = only_headersD [OF I(1)] and K = only_headers_kids [OF I(1)]
  have r: "r \<in> dom (gc_heap s)" using R(5) [OF p] H(5) by simp
  obtain s' N where s': "mark_root depth r s = Inr s'" "mark_state s s'" "grey s' = grey s \<union> N" "N \<inter> grey s = {}"
      "\<forall>x\<in>N. color s r = GC_PURPLE \<and> (r, x) \<in> (edge (kids s))\<^sup>*"
      "\<forall>x\<in>N. \<forall>y\<in>set (kids s x). y \<in> grey s' \<or> y = symbol_table s"
      "\<forall>x. rc s' x = rc s x - of_nat (edges_into (kids s) N x)" "color s' r \<noteq> GC_PURPLE"
    using mark_root_spec [OF wf _ r, of depth] I(2) n H(2,5) by auto
  have h': "only_headers s s'" using s'(2) by (simp add: mark_state_def)
  have c': "\<And>x. color s' x = color s x \<or> color s' x = GC_GREY \<or> (x = symbol_table s0 \<and> color s' x = GC_BLACK)"
      "color s' (symbol_table s0) \<noteq> GC_GREY"
    using s'(2) I(2) H(2) unfolding mark_state_def by (metis color_consts(2))+
  have "symbol_table s0 \<notin> N" using c'(2) s'(3) by (auto simp: grey_def)
  moreover have "color s0 r = GC_PURPLE" if "color s r = GC_PURPLE" using that I(3) [of r] by auto
  ultimately have "x \<in> reached s0" if "x \<in> N" for x
    using that s'(5) K unfolding reached_def by (metis (mono_tags, lifting) mem_Collect_eq)
  then have "N \<subseteq> reached s0" by blast
  moreover have fin: "finite (grey s)" "finite N" using grey_finite wf wf_heap_headers [OF wf h'] s'(3) by (metis finite_Un)+
  have "edges_into (kids s0) (grey s') x = edges_into (kids s0) (grey s) x + edges_into (kids s0) N x" for x
    using edges_into_Un [OF fin] s'(3,4) by (simp add: Int_commute)
  then have "rc s' x = rc s0 x - of_nat (edges_into (kids s0) (grey s') x)" for x
    using s'(7) I(6) K by simp
  moreover have "color s' x = color s0 x \<or> color s' x = GC_GREY \<or> (x = symbol_table s0 \<and> color s' x = GC_BLACK)" for x
    using c'(1) [of x] I(3) [of x] by metis
  moreover have "\<forall>x\<in>grey s'. \<forall>y\<in>set (kids s0 x). y \<in> grey s' \<or> y = symbol_table s0"
    using s'(3,6) I(5) K H(2) by auto
  moreover have "color s' q \<noteq> GC_PURPLE" if "p' \<in> set (dn @ [p])" "ref_of s0 p' = Some q" for p' q
    using that I(7) [of p' q] p(2) s'(8) c'(1) [of q] by auto
  moreover have gr: "grey s' \<subseteq> reached s0" using I(4) s'(3) calculation(1) by blast
  ultimately have "mark_inv s0 (dn @ [p]) s'"
    unfolding mark_inv_def using only_headers_trans [OF I(1) h'] c'(2) gr by (intro conjI allI impI ballI) blast+
  then show ?thesis using s'(1) only_headersD(3) [OF h'] by blast
qed

lemma reached_closed:
  assumes "wf_heap s" "x \<in> reached s" "y \<in> set (kids s x)"
  shows "y \<in> reached s \<or> y = symbol_table s"
  using assms by (auto simp: reached_def edge_def intro: rtrancl_into_rtrancl)

lemma symbol_table_kids: "wf_heap s \<Longrightarrow> kids s (symbol_table s) = []"
  by (auto simp: kids_def wf_heap_def split: option.splits)

lemma gc_mark_roots_spec:
  assumes ready: "gc_ready s0 xs" and n: "card (dom (gc_heap s0)) < depth"
  shows "\<exists>s1. gc_mark_roots depth s0 = Some (Inr s1) \<and> only_headers s0 s1 \<and> marked s1 \<and> grey s1 = reached s0 \<and>
    (\<forall>x. rc s1 x = rc s0 x - of_nat (edges_into (kids s0) (reached s0) x))"
proof -
  note R = gc_readyD [OF ready]
  have none: "grey s0 = {}" using R(3) by (auto simp: grey_def) (metis color_consts(2,10))
  then have start: "mark_inv s0 [] s0" by (auto simp: mark_inv_def grey_def)
  have "\<exists>s1. from_first (then_next (mark_root depth)) ROOTS s0 = Some (Inr s1) \<and> gc_roots s1 = gc_roots s0 \<and> mark_inv s0 xs s1"
  proof (rule then_next_inv [OF R(2), where P = "\<lambda>dn rest. mark_inv s0 dn"])
    show "mark_inv s0 [] s0" by (rule start)
    fix dn p rest r s
    assume a: "xs = dn @ p # rest" "mark_inv s0 dn s" "ref_of s p = Some r"
    then have "ref_of s0 p = Some r" using only_headersD(3) [of s0 s] by (simp add: mark_inv_def ref_of_def)
    then show "\<exists>s'. mark_root depth r s = Inr s' \<and> gc_roots s' = gc_roots s \<and> mark_inv s0 (dn @ [p]) s'"
      using mark_inv_step [OF ready a(2) n, of p r] a(1) by simp
  qed
  then obtain s1 where s1: "gc_mark_roots depth s0 = Some (Inr s1)" "mark_inv s0 xs s1" by (auto simp: gc_mark_roots_def)
  have I: "only_headers s0 s1" "color s1 (symbol_table s0) \<noteq> GC_GREY"
      "\<And>x. color s1 x = color s0 x \<or> color s1 x = GC_GREY \<or> (x = symbol_table s0 \<and> color s1 x = GC_BLACK)"
      "grey s1 \<subseteq> reached s0"
      "\<And>x y. x \<in> grey s1 \<Longrightarrow> y \<in> set (kids s0 x) \<Longrightarrow> y \<in> grey s1 \<or> y = symbol_table s0"
      "\<And>x. rc s1 x = rc s0 x - of_nat (edges_into (kids s0) (grey s1) x)"
      "\<And>p r. p \<in> set xs \<Longrightarrow> ref_of s0 p = Some r \<Longrightarrow> color s1 r \<noteq> GC_PURPLE"
    using s1(2) unfolding mark_inv_def by blast+
  have np: "color s1 x \<noteq> GC_PURPLE" for x
  proof
    assume a: "color s1 x = GC_PURPLE"
    then have "color s0 x = GC_PURPLE" using I(3) [of x] by auto
    then show False using R(4) I(7) a by blast
  qed
  have gb: "color s1 x = GC_GREY \<or> color s1 x = GC_BLACK" for x using I(3) [of x] R(3) [of x] np [of x] by metis
  have roots: "r \<in> grey s1 \<or> r = symbol_table s0" if "color s0 r = GC_PURPLE" for r
    using that I(3) [of r] np [of r] by (auto simp: grey_def)
  have "x \<in> grey s1 \<or> x = symbol_table s0" if "color s0 r = GC_PURPLE" "(r, x) \<in> (edge (kids s0))\<^sup>*" for r x
    using that(2)
  proof (induction rule: rtrancl_induct)
    case base
    show ?case by (rule roots [OF that(1)])
  next
    case (step y z)
    then show ?case using I(5) symbol_table_kids [OF R(1)] by (auto simp: edge_def)
  qed
  then have g: "grey s1 = reached s0" using I(4) by (auto simp: reached_def)
  have "wf_heap s1" by (rule wf_heap_headers [OF R(1) I(1)])
  moreover have "symbol_table s1 = symbol_table s0" by (rule only_headersD(2) [OF I(1)])
  ultimately have "marked s1" using gb I(2) by (auto simp: marked_def)
  then show ?thesis using s1(1) I(1,6) g by auto
qed

subsection \<open>Scanning the roots\<close>

definition scan_inv :: "gc_globals \<Rightarrow> root_ptr list \<Rightarrow> gc_globals \<Rightarrow> bool" where
  "scan_inv s1 done s \<longleftrightarrow> scan_state s1 s \<and>
     (\<forall>x. color s x = GC_WHITE \<longrightarrow> (\<forall>y\<in>set (kids s1 x). color s y \<noteq> GC_GREY)) \<and>
     (\<forall>p\<in>set done. \<forall>r. ref_of s1 p = Some r \<longrightarrow> color s r \<noteq> GC_GREY)"

lemma scan_inv_step:
  assumes inv: "scan_inv s1 dn s" and n: "2 * card (dom (gc_heap s1)) < depth"
    and p: "ref_of s1 p = Some r" "r \<in> dom (gc_heap s1)"
  shows "\<exists>s'. gc_scan depth r s = Inr s' \<and> gc_roots s' = gc_roots s \<and> scan_inv s1 (dn @ [p]) s'"
proof -
  have I: "scan_state s1 s" "\<And>x y. color s x = GC_WHITE \<Longrightarrow> y \<in> set (kids s1 x) \<Longrightarrow> color s y \<noteq> GC_GREY"
      "\<And>p r. p \<in> set dn \<Longrightarrow> ref_of s1 p = Some r \<Longrightarrow> color s r \<noteq> GC_GREY"
    using inv unfolding scan_inv_def by blast+
  note D = scan_stateD [OF I(1)]
  have g: "grey s \<subseteq> dom (gc_heap s1)" "grey s1 \<subseteq> dom (gc_heap s1)"
    using grey_allocated D(10) by blast+
  have "finite (dom (gc_heap s1))" using D(6) by (simp add: wf_heap_def)
  then have "card (grey s) \<le> card (dom (gc_heap s1))" "card (grey s1) \<le> card (dom (gc_heap s1))"
    using g card_mono by blast+
  then have "card (grey s) + card (grey s1) < depth" using n by linarith
  then obtain s' where s': "gc_scan depth r s = Inr s'" "scan_state s1 s'" "scan_step s1 s s'" "color s' r \<noteq> GC_GREY"
    using gc_scan_spec [OF I(1) p(2)] by blast
  note sub = scan_step_grey [OF s'(3)]
  have "color s' y \<noteq> GC_GREY" if "color s' x = GC_WHITE" "y \<in> set (kids s1 x)" for x y
  proof (cases "color s x = GC_GREY")
    case True
    then show ?thesis using s'(3) that by (auto simp: scan_step_def)
  next
    case False
    then have "color s x = GC_WHITE" using s'(3) that(1) unfolding scan_step_def by (metis color_consts(3))
    then show ?thesis using I(2) [of x y] that(2) sub by (auto simp: grey_def)
  qed
  moreover have "color s' q \<noteq> GC_GREY" if "p' \<in> set (dn @ [p])" "ref_of s1 p' = Some q" for p' q
  proof (cases "p' \<in> set dn")
    case True
    then show ?thesis using I(3) [of p' q] that(2) sub by (auto simp: grey_def)
  next
    case False
    then show ?thesis using that p(1) s'(4) by auto
  qed
  ultimately have "scan_inv s1 (dn @ [p]) s'" using s'(2) unfolding scan_inv_def by blast
  moreover have "gc_roots s' = gc_roots s" using only_headersD(3) D(2) scan_stateD(2) [OF s'(2)] by metis
  ultimately show ?thesis using s'(1) by blast
qed

lemma gc_scan_roots_spec:
  assumes m: "marked s1" and n: "2 * card (dom (gc_heap s1)) < depth" and r: "roots_of s1 ROOTS xs"
    and refs: "\<And>p r. p \<in> set xs \<Longrightarrow> ref_of s1 p = Some r \<Longrightarrow> r \<in> dom (gc_heap s1)"
    and reach: "\<And>x. x \<in> grey s1 \<Longrightarrow> \<exists>p\<in>set xs. \<exists>r\<in>grey s1. ref_of s1 p = Some r \<and> (r, x) \<in> (edge (kids s1))\<^sup>*"
    and closed: "\<And>x y. x \<in> grey s1 \<Longrightarrow> y \<in> set (kids s1 x) \<Longrightarrow> y \<in> grey s1 \<or> y = symbol_table s1"
  shows "\<exists>s2. gc_scan_roots depth s1 = Some (Inr s2) \<and> gc_roots s2 = gc_roots s1 \<and> scan_state s1 s2 \<and> grey s2 = {}"
proof -
  have start: "scan_inv s1 [] s1"
    using scan_start [OF m] m by (auto simp: scan_inv_def marked_def) (metis color_consts(4,5))
  have "\<exists>s2. from_first (then_next (gc_scan depth)) ROOTS s1 = Some (Inr s2) \<and> gc_roots s2 = gc_roots s1 \<and> scan_inv s1 xs s2"
  proof (rule then_next_inv [OF r, where P = "\<lambda>dn rest. scan_inv s1 dn"])
    show "scan_inv s1 [] s1" by (rule start)
    fix dn p rest q s
    assume a: "xs = dn @ p # rest" "scan_inv s1 dn s" "ref_of s p = Some q"
    then have "ref_of s1 p = Some q" using only_headersD(3) [of s1 s] by (simp add: scan_inv_def scan_state_def ref_of_def)
    then show "\<exists>s'. gc_scan depth q s = Inr s' \<and> gc_roots s' = gc_roots s \<and> scan_inv s1 (dn @ [p]) s'"
      using scan_inv_step [OF a(2) n] refs [of p q] a(1) by simp
  qed
  then obtain s2 where s2: "gc_scan_roots depth s1 = Some (Inr s2)" "gc_roots s2 = gc_roots s1" "scan_inv s1 xs s2"
    by (auto simp: gc_scan_roots_def)
  have I: "scan_state s1 s2" "\<And>x y. color s2 x = GC_WHITE \<Longrightarrow> y \<in> set (kids s1 x) \<Longrightarrow> color s2 y \<noteq> GC_GREY"
      "\<And>p r. p \<in> set xs \<Longrightarrow> ref_of s1 p = Some r \<Longrightarrow> color s2 r \<noteq> GC_GREY"
    using s2(3) unfolding scan_inv_def by blast+
  note D = scan_stateD [OF I(1)]
  have path: "(y \<in> grey s1 \<or> y = symbol_table s1) \<and> color s2 y \<noteq> GC_GREY"
    if "r \<in> grey s1" "color s2 r \<noteq> GC_GREY" "(r, y) \<in> (edge (kids s1))\<^sup>*" for r y
    using that(3)
  proof (induction rule: rtrancl_induct)
    case (step y z)
    have z: "z \<in> set (kids s1 y)" using step.hyps(2) by (simp add: edge_def)
    then have y: "y \<in> grey s1" using step.IH symbol_table_kids [OF D(6)] by auto
    have y': "color s1 y = GC_GREY" using y by (simp add: grey_def)
    then have "color s2 y = GC_WHITE \<or> color s2 y = GC_BLACK" using D(3) step.IH unfolding scan_colors_def by metis
    moreover have "color s2 z = GC_BLACK" if "color s2 y = GC_BLACK"
    proof -
      have "y \<in> restored s1 s2" using y' that by (simp add: restored_def)
      then show ?thesis using D(5) z unfolding scan_closed_def by blast
    qed
    ultimately have "color s2 z \<noteq> GC_GREY" using I(2) [OF _ z] by auto
    then show ?case using closed [OF y z] by blast
  qed (use that(1,2) in blast)
  have "x \<notin> grey s2" for x
  proof
    assume x: "x \<in> grey s2"
    then have "x \<in> to_blacken s2 s2" using color_allocated [of s2 x] by (simp add: grey_def to_blacken_def)
    then have "x \<in> grey s1" using nonblack_grey [OF I(1)] by blast
    then obtain p r where "p \<in> set xs" "r \<in> grey s1" "ref_of s1 p = Some r" "(r, x) \<in> (edge (kids s1))\<^sup>*"
      using reach by blast
    then show False using path [of r x] I(3) x by (auto simp: grey_def)
  qed
  then show ?thesis using s2(1,2) I(1) by blast
qed

subsection \<open>White is garbage\<close>

lemma outside_refs_marked:
  assumes wf: "wf_heap s0" and cnt: "refs_counted s0" and sub: "reached s0 \<subseteq> dom (gc_heap s0)"
    and rc: "rc s1 x = rc s0 x - of_nat (edges_into (kids s0) (reached s0) x)"
  shows "unat (rc s1 x) = outside_refs s0 x" "edges_into (kids s0) (reached s0) x \<le> unat (rc s0 x)"
proof -
  have fin: "finite (dom (gc_heap s0))" using wf by (simp add: wf_heap_def)
  have "edges_into (kids s0) (reached s0) x \<le> edges_into (kids s0) (dom (gc_heap s0)) x"
    unfolding edges_into_def by (rule sum_mono2 [OF fin sub]) simp
  then show le: "edges_into (kids s0) (reached s0) x \<le> unat (rc s0 x)"
    using cnt unfolding refs_counted_def using le_trans by blast
  have "rc s1 x = of_nat (unat (rc s0 x) - edges_into (kids s0) (reached s0) x)"
    using rc le by (simp add: of_nat_diff)
  moreover have "unat (rc s0 x) - edges_into (kids s0) (reached s0) x < 2 ^ LENGTH(32)"
    using unsigned_less [of "rc s0 x"] by (rule le_less_trans [OF diff_le_self])
  ultimately show "unat (rc s1 x) = outside_refs s0 x"
    by (simp only: outside_refs_def unat_of_nat) (simp add: take_bit_nat_eq_self)
qed

lemma live_restored:
  assumes ready: "gc_ready s0 xs" and cnt: "refs_counted s0"
    and s1: "only_headers s0 s1" "grey s1 = reached s0"
      "\<forall>x. rc s1 x = rc s0 x - of_nat (edges_into (kids s0) (reached s0) x)"
    and s2: "scan_state s1 s2" "grey s2 = {}"
  shows "restored s1 s2 = reached s0 - garbage s0" "\<And>x. x \<in> reached s0 \<Longrightarrow> color s2 x = GC_WHITE \<or> x \<in> restored s1 s2"
proof -
  note R = gc_readyD [OF ready] and D = scan_stateD [OF s2(1)]
  note K = only_headers_kids [OF s1(1)]
  have g: "x \<in> reached s0 \<longleftrightarrow> color s1 x = GC_GREY" for x using s1(2) by (auto simp: grey_def)
  have sub: "reached s0 \<subseteq> dom (gc_heap s0)"
    using grey_allocated [of s1] only_headersD(5) [OF s1(1)] s1(2) by simp
  note O = outside_refs_marked [OF R(1) cnt sub s1(3) [rule_format]]
  show wb: "color s2 x = GC_WHITE \<or> x \<in> restored s1 s2" if "x \<in> reached s0" for x
    using D(3) that g s2(2) unfolding scan_colors_def restored_def grey_def by (metis (mono_tags, lifting) empty_iff mem_Collect_eq)
  have start: "r \<in> restored s1 s2" if "r \<in> reached s0" "outside_refs s0 r > 0" for r
  proof (rule ccontr)
    assume "r \<notin> restored s1 s2"
    then have "rc s2 r = 0" using wb [OF that(1)] D(4) unfolding scan_counts_def by blast
    moreover have "rc s2 r = rc s1 r + of_nat (edges_into (kids s1) (restored s1 s2) r)"
      using D(4) unfolding scan_counts_def by blast
    moreover have "rc s1 r = of_nat (outside_refs s0 r)"
      using arg_cong [OF O(1) [of r], of "of_nat :: nat \<Rightarrow> u32"] by simp
    ultimately have z: "of_nat (outside_refs s0 r + edges_into (kids s1) (restored s1 s2) r) = (0 :: u32)" by simp
    have "finite (reached s0)" using R(1) sub finite_subset unfolding wf_heap_def by blast
    moreover have "restored s1 s2 \<subseteq> reached s0" using g by (auto simp: restored_def)
    ultimately have "edges_into (kids s1) (restored s1 s2) r \<le> edges_into (kids s0) (reached s0) r"
      unfolding edges_into_def K by (rule sum_mono2) simp
    then have "outside_refs s0 r + edges_into (kids s1) (restored s1 s2) r \<le> unat (rc s0 r)"
      using O(2) [of r] unfolding outside_refs_def by linarith
    also have "unat (rc s0 r) < 2 ^ LENGTH(32)" by (rule unsigned_less)
    finally have "outside_refs s0 r + edges_into (kids s1) (restored s1 s2) r = 0"
      using z [unfolded word_of_nat_eq_0_iff] nat_dvd_not_less by blast
    then show False using that(2) by simp
  qed
  have path: "y \<in> restored s1 s2 \<or> y = symbol_table s0" if "r \<in> restored s1 s2" "(r, y) \<in> (edge (kids s0))\<^sup>*" for r y
    using that(2)
  proof (induction rule: rtrancl_induct)
    case (step y z)
    have z: "z \<in> set (kids s0 y)" using step.hyps(2) by (simp add: edge_def)
    then have y: "y \<in> restored s1 s2" using step.IH symbol_table_kids [OF R(1)] by auto
    then have "z \<in> reached s0 \<or> z = symbol_table s0" using reached_closed [OF R(1) _ z] g by (auto simp: restored_def)
    moreover have "color s2 z = GC_BLACK" using D(5) y z K unfolding scan_closed_def by simp
    ultimately show ?case using g by (auto simp: restored_def)
  qed (use that(1) in blast)
  show "restored s1 s2 = reached s0 - garbage s0"
  proof (intro equalityI subsetI)
    fix x assume x: "x \<in> restored s1 s2"
    then have "x \<in> live s1" using D(5) by (auto simp: scan_closed_def)
    then obtain r where "color s1 r = GC_GREY" "rc s1 r \<noteq> 0" "(r, x) \<in> (edge (kids s0))\<^sup>*" by (auto simp: live_def K)
    then have "r \<in> reached s0" "outside_refs s0 r > 0" "(r, x) \<in> (edge (kids s0))\<^sup>*"
      using g O(1) [of r] by (auto simp: unat_gt_0 [symmetric])
    then show "x \<in> reached s0 - garbage s0" using x g by (auto simp: garbage_def restored_def)
  next
    fix x assume x: "x \<in> reached s0 - garbage s0"
    then obtain r where "r \<in> reached s0" "outside_refs s0 r > 0" "(r, x) \<in> (edge (kids s0))\<^sup>*" by (auto simp: garbage_def)
    then show "x \<in> restored s1 s2" using path [OF start] x by (auto simp: reached_def)
  qed
qed

text \<open>Both phases: exactly the garbage is white, and the counts leave out the references from it.\<close>

definition scanned :: "gc_globals \<Rightarrow> gc_globals \<Rightarrow> bool" where
  "scanned s0 s2 \<longleftrightarrow> only_headers s0 s2 \<and> (\<forall>x. color s2 x = (if x \<in> garbage s0 then GC_WHITE else GC_BLACK)) \<and>
     (\<forall>x. rc s2 x = rc s0 x - of_nat (edges_into (kids s0) (garbage s0) x))"

lemma mark_and_scan:
  assumes ready: "gc_ready s0 xs" and cnt: "refs_counted s0" and n: "2 * card (dom (gc_heap s0)) < depth"
  shows "\<exists>s1 s2. gc_mark_roots depth s0 = Some (Inr s1) \<and> gc_scan_roots depth s1 = Some (Inr s2) \<and> scanned s0 s2"
proof -
  note R = gc_readyD [OF ready]
  have "card (dom (gc_heap s0)) < depth" using n by linarith
  then obtain s1 where s1: "gc_mark_roots depth s0 = Some (Inr s1)" "only_headers s0 s1" "marked s1" "grey s1 = reached s0"
      "\<forall>x. rc s1 x = rc s0 x - of_nat (edges_into (kids s0) (reached s0) x)"
    using gc_mark_roots_spec [OF ready] by blast
  note H = only_headersD [OF s1(2)] and K = only_headers_kids [OF s1(2)]
  have ref: "ref_of s1 = ref_of s0" "nxt s1 = nxt s0" "prv s1 = prv s0"
    using H(3) by (simp_all add: ref_of_def nxt_def prv_def fun_eq_iff)
  have reach: "\<exists>p\<in>set xs. \<exists>r\<in>grey s1. ref_of s1 p = Some r \<and> (r, x) \<in> (edge (kids s1))\<^sup>*" if x: "x \<in> grey s1" for x
  proof -
    obtain r where r: "color s0 r = GC_PURPLE" "(r, x) \<in> (edge (kids s0))\<^sup>*" "x \<noteq> symbol_table s0"
      using x unfolding s1(4) reached_def by blast
    have "r \<noteq> symbol_table s0"
      using r(2,3) symbol_table_kids [OF R(1)] by (auto simp: edge_def elim: converse_rtranclE)
    then have "r \<in> grey s1" using r(1) s1(4) by (auto simp: reached_def)
    then show ?thesis using R(4) [OF r(1)] r(2) ref K by auto
  qed
  have dom2: "2 * card (dom (gc_heap s1)) < depth" using n H(5) by simp
  have ring1: "roots_of s1 ROOTS xs" using R(2) ref by simp
  obtain s2 where s2: "gc_scan_roots depth s1 = Some (Inr s2)" "scan_state s1 s2" "grey s2 = {}"
    using gc_scan_roots_spec [OF s1(3) dom2 ring1 _ reach] R(5) H(2,5) ref(1) s1(4) K reached_closed [OF R(1)] by auto
  note L = live_restored [OF ready cnt s1(2,4,5) s2(2,3)] and D = scan_stateD [OF s2(2)]
  have g: "x \<in> reached s0 \<longleftrightarrow> color s1 x = GC_GREY" for x using s1(4) by (auto simp: grey_def)
  have "color s2 x = (if x \<in> garbage s0 then GC_WHITE else GC_BLACK)" for x
  proof (cases "x \<in> reached s0")
    case True
    then show ?thesis using L by (auto simp: restored_def)
  next
    case False
    then have "color s1 x = GC_BLACK" using s1(3) g by (auto simp: marked_def)
    then show ?thesis using D(3) False unfolding scan_colors_def garbage_def by (metis (mono_tags, lifting) color_consts(1) mem_Collect_eq)
  qed
  moreover have "rc s2 x = rc s0 x - of_nat (edges_into (kids s0) (garbage s0) x)" for x
  proof -
    have fin: "finite (reached s0)" using s1(4) grey_finite [OF D(6)] by simp
    then have "edges_into (kids s0) (reached s0) x =
        edges_into (kids s0) (restored s1 s2) x + edges_into (kids s0) (garbage s0) x"
      using L(1) edges_into_Un [of "restored s1 s2" "garbage s0" "kids s0" x]
      by (metis (no_types, lifting) Diff_disjoint Int_commute Un_Diff_cancel2 finite_Diff finite_subset garbage_def mem_Collect_eq subsetI sup.absorb1)
    moreover have "rc s2 x = rc s1 x + of_nat (edges_into (kids s1) (restored s1 s2) x)"
      using D(4) unfolding scan_counts_def by blast
    ultimately show ?thesis using s1(5) K by simp
  qed
  ultimately have "scanned s0 s2" using only_headers_trans [OF s1(2) D(2)] by (simp add: scanned_def)
  then show ?thesis using s1(1) s2(1) by blast
qed

end
