(* ===== verification/Zend_GC_Buffer.thy ===== *)
theory Zend_GC_Buffer
  imports Zend_GC_Phases
begin

text \<open>
  The storage of root entries: which are in the list, which are on the list of unused ones or were
  never used, and the number of its entry in the header of each recorded structure.
\<close>

subsection \<open>Well-formed storage\<close>

definition root_addr :: "root_ptr \<Rightarrow> nat" where
  "root_addr p = (case p of BUF i \<Rightarrow> i | ADDITIONAL _ i \<Rightarrow> GC_ROOT_BUFFER_MAX_ENTRIES + i | _ \<Rightarrow> 0)"

text \<open>The entry was handed out.\<close>

definition in_use :: "gc_globals \<Rightarrow> root_ptr \<Rightarrow> bool" where
  "in_use s p = (case p of
       BUF i \<Rightarrow> 0 < i \<and> i < gc_first_unused s
     | ADDITIONAL b i \<Rightarrow> b < length (additional_buffer s) \<and> i < rev (additional_buffer s) ! b
     | _ \<Rightarrow> False)"

fun free_list :: "('p \<Rightarrow> 'p option) \<Rightarrow> 'p \<Rightarrow> 'p \<Rightarrow> 'p list \<Rightarrow> bool" where
  "free_list pv nil p [] \<longleftrightarrow> p = nil"
| "free_list pv nil p (x # xs) \<longleftrightarrow> p = x \<and> x \<noteq> nil \<and> (\<exists>q. pv x = Some q \<and> free_list pv nil q xs)"

lemma free_list_update: "y \<notin> set xs \<Longrightarrow> free_list (pv(y := v)) nil p xs = free_list pv nil p xs"
  by (induction xs arbitrary: p) auto

lemma free_list_cong: "(\<And>y. y \<in> set xs \<Longrightarrow> pv y = pv' y) \<Longrightarrow> free_list pv nil p xs = free_list pv' nil p xs"
  by (induction xs arbitrary: p) auto

definition limits_ok :: "gc_globals \<Rightarrow> bool" where
  "limits_ok s \<longleftrightarrow> 0 < gc_first_unused s \<and> gc_first_unused s \<le> gc_last_unused s \<and>
     gc_last_unused s \<le> GC_ROOT_BUFFER_MAX_ENTRIES \<and> (\<forall>u\<in>set (additional_buffer s). u \<le> GC_NUM_ADDITIONAL_ENTRIES)"

definition allocated :: "gc_globals \<Rightarrow> bool" where
  "allocated s \<longleftrightarrow> (\<forall>i < gc_last_unused s. nxt s (BUF i) \<noteq> None) \<and>
     (\<forall>b < length (additional_buffer s). \<forall>i < GC_NUM_ADDITIONAL_ENTRIES. nxt s (ADDITIONAL b i) \<noteq> None)"

definition unused_ok :: "gc_globals \<Rightarrow> root_ptr list \<Rightarrow> bool" where
  "unused_ok s xs \<longleftrightarrow> (\<exists>us. free_list (prv s) NULL_ROOT (gc_unused s) us \<and> distinct us \<and>
     (\<forall>p\<in>set us. p \<notin> set xs \<and> (\<exists>i. p = BUF i \<and> 0 < i \<and> i < gc_first_unused s)))"

definition storage :: "gc_globals \<Rightarrow> root_ptr list \<Rightarrow> bool" where
  "storage s xs \<longleftrightarrow> limits_ok s \<and> allocated s \<and> unused_ok s xs \<and> (\<forall>p\<in>set xs. in_use s p)"

text \<open>No entry of an additional buffer was given up.\<close>

definition no_stale :: "gc_globals \<Rightarrow> root_ptr list \<Rightarrow> bool" where
  "no_stale s xs \<longleftrightarrow> (\<forall>b i. in_use s (ADDITIONAL b i) \<longrightarrow> ADDITIONAL b i \<in> set xs)"

text \<open>The header of a recorded structure has the number of its entry, that of any other has none.\<close>

definition addressed :: "gc_globals \<Rightarrow> root_ptr list \<Rightarrow> bool" where
  "addressed s xs \<longleftrightarrow> inj_on (ref_of s) (set xs) \<and>
     (\<forall>p\<in>set xs. \<exists>x nd. ref_of s p = Some x \<and> gc_heap s x = Some nd \<and> GC_ADDRESS (gc_info nd) = of_nat (root_addr p)) \<and>
     (\<forall>x nd. gc_heap s x = Some nd \<longrightarrow> (\<forall>p\<in>set xs. ref_of s p \<noteq> Some x) \<longrightarrow> GC_ADDRESS (gc_info nd) = 0)"

lemma in_use_addr:
  assumes "in_use s p" "limits_ok s"
  shows "0 < root_addr p" "root_addr p < 2 ^ 14" "root_addr p < GC_ROOT_BUFFER_MAX_ENTRIES \<longleftrightarrow> (\<exists>i. p = BUF i)"
proof -
  have add: "i < GC_NUM_ADDITIONAL_ENTRIES" if "p = ADDITIONAL b i" for b i
  proof -
    have "rev (additional_buffer s) ! b \<in> set (additional_buffer s)"
      using assms(1) that nth_mem [of b "rev (additional_buffer s)"] by (simp add: in_use_def)
    then have "rev (additional_buffer s) ! b \<le> GC_NUM_ADDITIONAL_ENTRIES" using assms(2) by (simp add: limits_ok_def)
    then show ?thesis using assms(1) that by (simp add: in_use_def)
  qed
  have c: "GC_ROOT_BUFFER_MAX_ENTRIES = 10001" "GC_NUM_ADDITIONAL_ENTRIES = 127"
    by (simp_all add: GC_ROOT_BUFFER_MAX_ENTRIES_def GC_NUM_ADDITIONAL_ENTRIES_def)
  show "0 < root_addr p" "root_addr p < 2 ^ 14" "root_addr p < GC_ROOT_BUFFER_MAX_ENTRIES \<longleftrightarrow> (\<exists>i. p = BUF i)"
    using assms add c by (cases p; force simp: in_use_def root_addr_def limits_ok_def)+
qed

text \<open>Numbers below \<open>2 ^ 14\<close> have no colour bits.\<close>

lemma small_info:
  assumes "n < 2 ^ 14"
  shows "GC_INFO_GET_COLOR (of_nat n) = GC_BLACK" "GC_ADDRESS (of_nat n) = of_nat n" "unat (of_nat n :: u16) = n"
    "(of_nat n :: u16) = 0 \<longleftrightarrow> n = 0"
proof -
  have n: "n < 2 ^ LENGTH(16)" using assms by simp
  show u: "unat (of_nat n :: u16) = n" using n by (simp only: unat_of_nat) (simp add: take_bit_nat_eq_self)
  have bit: "\<not> bit (of_nat n :: u16) i" if "14 \<le> i" for i
  proof -
    have "\<not> bit n i"
      using assms that by (metis bit_take_bit_iff leD less_or_eq_imp_le take_bit_nat_eq_self nat_less_le)
    then show ?thesis by (simp add: bit_simps)
  qed
  have c: "bit GC_COLOR i \<longleftrightarrow> i = 14 \<or> i = 15" if "i < 16" for i
  proof -
    have "i \<in> {..<16}" using that by simp
    then have "i \<in> set [0..<16]" by simp
    then show ?thesis by (simp add: GC_COLOR_def upt_rec) (elim disjE; simp add: bit_iff_odd)
  qed
  show "GC_INFO_GET_COLOR (of_nat n) = GC_BLACK"
    unfolding GC_INFO_GET_COLOR_def GC_BLACK_def
    by (rule bit_word_eqI) (use bit c in \<open>auto simp: bit_simps\<close>)
  show "GC_ADDRESS (of_nat n) = of_nat n"
    unfolding GC_ADDRESS_def
    by (rule bit_word_eqI) (use bit c in \<open>auto simp: bit_simps\<close>)
  show "(of_nat n :: u16) = 0 \<longleftrightarrow> n = 0"
  proof
    assume "(of_nat n :: u16) = 0"
    then have "unat (of_nat n :: u16) = 0" by simp
    then show "n = 0" unfolding u .
  qed simp
qed

subsection \<open>Adding an entry\<close>

lemma entry_fields [simp]:
  "nxt (s\<lparr>gc_heap := h\<rparr>) = nxt s" "prv (s\<lparr>gc_heap := h\<rparr>) = prv s" "ref_of (s\<lparr>gc_heap := h\<rparr>) = ref_of s"
  "nxt (s\<lparr>gc_unused := u\<rparr>) = nxt s" "prv (s\<lparr>gc_unused := u\<rparr>) = prv s" "ref_of (s\<lparr>gc_unused := u\<rparr>) = ref_of s"
  "nxt (s\<lparr>gc_first_unused := n\<rparr>) = nxt s" "prv (s\<lparr>gc_first_unused := n\<rparr>) = prv s"
  "ref_of (s\<lparr>gc_first_unused := n\<rparr>) = ref_of s" "nxt (s\<lparr>additional_buffer := bs\<rparr>) = nxt s"
  "prv (s\<lparr>additional_buffer := bs\<rparr>) = prv s" "ref_of (s\<lparr>additional_buffer := bs\<rparr>) = ref_of s"
  by (simp_all add: nxt_def prv_def ref_of_def fun_eq_iff)

lemma storage_heap [simp]:
  "in_use (s\<lparr>gc_heap := h\<rparr>) p = in_use s p" "storage (s\<lparr>gc_heap := h\<rparr>) xs = storage s xs"
proof -
  show "in_use (s\<lparr>gc_heap := h\<rparr>) p = in_use s p" for p by (cases p) (simp_all add: in_use_def)
  then show "storage (s\<lparr>gc_heap := h\<rparr>) xs = storage s xs"
    by (simp add: storage_def limits_ok_def allocated_def unused_ok_def)
qed

definition same_lists :: "gc_globals \<Rightarrow> gc_globals \<Rightarrow> root_ptr list \<Rightarrow> bool" where
  "same_lists s s' xs \<longleftrightarrow> gc_slots s' = gc_slots s \<and> symbol_table s' = symbol_table s \<and>
     gc_blocks s' = gc_blocks s \<and> gc_store s' = gc_store s \<and> nxt s' TO_FREE = nxt s TO_FREE \<and>
     prv s' TO_FREE = prv s TO_FREE \<and> (\<forall>q\<in>set xs. ref_of s' q = ref_of s q)"

text \<open>Only links were changed, and no unused entry's.\<close>

definition is_head :: "root_ptr \<Rightarrow> bool" where
  "is_head q \<longleftrightarrow> q = ROOTS \<or> q = TO_FREE \<or> q = LOCAL_TO_FREE"

lemma storage_relinked:
  assumes st: "limits_ok s" "allocated s" "unused_ok s xs" "\<forall>p\<in>set xs. in_use s p"
    and o: "only_roots s s'" and keep: "\<And>q. \<not> is_head q \<Longrightarrow> q \<notin> set xs \<Longrightarrow> nxt s' q = nxt s q \<and> prv s' q = prv s q"
    and def': "\<And>q. q \<in> set xs \<Longrightarrow> nxt s' q \<noteq> None"
  shows "storage s' xs"
proof -
  note O = only_rootsD [OF o]
  have def: "nxt s' q \<noteq> None" if "nxt s q \<noteq> None" "\<not> is_head q" for q
    using that keep [of q] def' [of q] by (cases "q \<in> set xs") auto
  have "limits_ok s'" "allocated s'" using st(1,2) def O by (simp_all add: limits_ok_def allocated_def is_head_def)
  moreover have "unused_ok s' xs"
  proof -
    obtain us where us: "free_list (prv s) NULL_ROOT (gc_unused s) us" "distinct us"
        "\<forall>p\<in>set us. p \<notin> set xs \<and> (\<exists>i. p = BUF i \<and> 0 < i \<and> i < gc_first_unused s)"
      using st(3) by (auto simp: unused_ok_def)
    have "prv s y = prv s' y" if "y \<in> set us" for y using that us(3) keep [of y] by (auto simp: is_head_def)
    then have "free_list (prv s') NULL_ROOT (gc_unused s) us" using us(1) free_list_cong [of us "prv s" "prv s'"] by simp
    then show ?thesis using us(2,3) O unfolding unused_ok_def by auto
  qed
  moreover have "\<forall>p\<in>set xs. in_use s' p" using st(4) O by (auto simp: in_use_def split: root_ptr.splits)
  ultimately show ?thesis by (simp add: storage_def)
qed

text \<open>An entry that was reserved is recorded in the header and linked.\<close>

lemma record_spec:
  assumes st: "limits_ok s" "allocated s" "unused_ok s (p # xs)" "\<forall>q\<in>set (p # xs). in_use s q"
    and r: "roots_of s ROOTS xs" and p: "p \<notin> set xs" and nd: "gc_heap s x = Some nd"
  shows "\<exists>s'. res_bind (GC_SET_INFO x v s) (link_root p x) = Inr s' \<and> storage s' (p # xs) \<and> roots_of s' ROOTS (p # xs) \<and>
    ref_of s' p = Some x \<and> gc_heap s' = (gc_heap s)(x \<mapsto> nd\<lparr>gc_info := v\<rparr>) \<and> same_lists s s' xs \<and>
    additional_buffer s' = additional_buffer s"
proof -
  let ?s = "s\<lparr>gc_heap := (gc_heap s)(x \<mapsto> nd\<lparr>gc_info := v\<rparr>)\<rparr>"
  have info: "GC_SET_INFO x v s = Inr ?s" by (simp add: GC_SET_INFO_def node_ops [OF nd])
  have np: "p \<notin> set (ROOTS # xs)" using p st(4) by (auto simp: in_use_def)
  have ntf: "TO_FREE \<notin> set (ROOTS # p # xs)" using st(4) by (auto simp: in_use_def)
  have al: "nxt s p \<noteq> None"
  proof (cases p)
    case (BUF i)
    then show ?thesis using st(1,2,4) by (auto simp: in_use_def limits_ok_def allocated_def)
  next
    case (ADDITIONAL b i)
    then have i: "b < length (additional_buffer s)" "i < rev (additional_buffer s) ! b" using st(4) by (auto simp: in_use_def)
    then have "rev (additional_buffer s) ! b \<in> set (additional_buffer s)"
      using nth_mem [of b "rev (additional_buffer s)"] by simp
    then have "i < GC_NUM_ADDITIONAL_ENTRIES" using i(2) st(1) unfolding limits_ok_def using less_le_trans by blast
    then show ?thesis using st(2) i(1) ADDITIONAL by (simp add: allocated_def)
  qed (use st(4) in \<open>auto simp: in_use_def\<close>)
  have "roots_of ?s ROOTS xs" "nxt ?s p \<noteq> None" using r al by simp_all
  then obtain s' where s': "link_root p x ?s = Inr s'" "only_roots ?s s'" "ref_of s' = (ref_of s)(p := Some x)"
      "roots_of s' ROOTS (p # xs)" "\<forall>q. q \<notin> set (ROOTS # p # xs) \<longrightarrow> nxt s' q = nxt s q \<and> prv s' q = prv s q"
    using link_spec [of ?s xs p x] np by auto
  note O = only_rootsD [OF s'(2)]
  have "limits_ok ?s" "allocated ?s" "unused_ok ?s (p # xs)" "\<forall>q\<in>set (p # xs). in_use ?s q"
    using st by (auto simp: limits_ok_def allocated_def unused_ok_def in_use_def split: root_ptr.splits)
  then have "storage s' (p # xs)" using storage_relinked [of ?s "p # xs" s'] s'(2,5) ring_defined [OF s'(4)] by (simp add: is_head_def)
  moreover have "same_lists s s' xs" using O s'(3,5) p ntf by (auto simp: same_lists_def)
  ultimately show ?thesis using info s' O by auto
qed

text \<open>The three places an entry comes from: the unused ones, the rest of \<open>buf\<close>, an additional buffer.\<close>

lemma reserve_unused:
  assumes st: "storage s xs" and u: "gc_unused s \<noteq> NULL_ROOT"
  shows "\<exists>q. pop_unused s = Inr (gc_unused s, s\<lparr>gc_unused := q\<rparr>) \<and> gc_unused s \<notin> set xs \<and>
    unused_ok (s\<lparr>gc_unused := q\<rparr>) (gc_unused s # xs) \<and> (\<exists>i. gc_unused s = BUF i \<and> 0 < i \<and> i < gc_first_unused s)"
proof -
  obtain us where us: "free_list (prv s) NULL_ROOT (gc_unused s) us" "distinct us"
      "\<forall>p\<in>set us. p \<notin> set xs \<and> (\<exists>i. p = BUF i \<and> 0 < i \<and> i < gc_first_unused s)"
    using st by (auto simp: storage_def unused_ok_def)
  obtain vs q where vs: "us = gc_unused s # vs" "prv s (gc_unused s) = Some q" "free_list (prv s) NULL_ROOT q vs"
    using us(1) u by (cases us) auto
  have "nxt s (gc_unused s) \<noteq> None" using vs(2) by (auto simp: nxt_def prv_def)
  then have "pop_unused s = Inr (gc_unused s, s\<lparr>gc_unused := q\<rparr>)"
    using entry_ops(1) [of s "gc_unused s"] vs(2) by (auto simp: pop_unused_def)
  moreover have "unused_ok (s\<lparr>gc_unused := q\<rparr>) (gc_unused s # xs)"
    using us(2,3) vs by (auto simp: unused_ok_def intro!: exI [of _ vs])
  ultimately show ?thesis using us(3) vs(1) by auto
qed

lemma grow_additional_spec:
  assumes st: "storage s xs" and r: "roots_of s ROOTS xs"
  defines "s' \<equiv> grow_additional s"
  shows "storage s' xs" "roots_of s' ROOTS xs" "gc_heap s' = gc_heap s" "same_lists s s' xs"
    "additional_buffer s' \<noteq> []" "hd (additional_buffer s') < GC_NUM_ADDITIONAL_ENTRIES"
    "in_use s' (ADDITIONAL b i) \<Longrightarrow> in_use s (ADDITIONAL b i)"
proof -
  let ?bufs = "additional_buffer s"
  show "gc_heap s' = gc_heap s" by (simp add: s'_def grow_additional_def Let_def)
  show "additional_buffer s' \<noteq> []" by (simp add: s'_def grow_additional_def Let_def)
  show "in_use s' (ADDITIONAL b i) \<Longrightarrow> in_use s (ADDITIONAL b i)"
    by (auto simp: in_use_def s'_def grow_additional_def Let_def nth_append less_Suc_eq split: if_splits)
  have le: "?bufs \<noteq> [] \<Longrightarrow> hd ?bufs \<le> GC_NUM_ADDITIONAL_ENTRIES" using st by (simp add: storage_def limits_ok_def)
  show "hd (additional_buffer s') < GC_NUM_ADDITIONAL_ENTRIES"
    using le by (auto simp: s'_def grow_additional_def Let_def GC_NUM_ADDITIONAL_ENTRIES_def)
  have same: "nxt s' q = nxt s q \<and> prv s' q = prv s q \<and> ref_of s' q = ref_of s q" if "\<forall>i. q \<noteq> ADDITIONAL (length ?bufs) i" for q
    using that by (cases q) (auto simp: s'_def grow_additional_def Let_def nxt_def prv_def ref_of_def)
  have xs: "\<forall>i. q \<noteq> ADDITIONAL (length ?bufs) i" if "q \<in> set (ROOTS # xs)" for q
    using that st by (auto simp: storage_def in_use_def)
  show "roots_of s' ROOTS xs" using r ring_cong [of ROOTS xs "nxt s" "nxt s'" "prv s" "prv s'"] same xs by metis
  show "same_lists s s' xs"
    using same xs by (auto simp: same_lists_def) (simp_all add: s'_def grow_additional_def Let_def)
  show "storage s' xs"
  proof (cases "?bufs = [] \<or> hd ?bufs = GC_NUM_ADDITIONAL_ENTRIES")
    case False
    then show ?thesis using st by (simp add: s'_def grow_additional_def Let_def)
  next
    case True
    then have b: "additional_buffer s' = 0 # ?bufs" "gc_first_unused s' = gc_first_unused s" "gc_unused s' = gc_unused s"
        "gc_last_unused s' = gc_last_unused s" "\<And>i. i < GC_NUM_ADDITIONAL_ENTRIES \<Longrightarrow> nxt s' (ADDITIONAL (length ?bufs) i) \<noteq> None"
      by (auto simp: s'_def grow_additional_def Let_def nxt_def)
    have "limits_ok s'" using st b by (simp add: storage_def limits_ok_def)
    moreover have "nxt s' (ADDITIONAL c i) \<noteq> None" if "c < length (0 # ?bufs)" "i < GC_NUM_ADDITIONAL_ENTRIES" for c i
      using that b(5) [of i] same [of "ADDITIONAL c i"] st
      by (cases "c = length ?bufs") (auto simp: storage_def allocated_def)
    then have "allocated s'" using st b same by (simp add: storage_def allocated_def)
    moreover have "unused_ok s' xs"
    proof -
      obtain us where us: "free_list (prv s) NULL_ROOT (gc_unused s) us" "distinct us"
          "\<forall>p\<in>set us. p \<notin> set xs \<and> (\<exists>i. p = BUF i \<and> 0 < i \<and> i < gc_first_unused s)"
        using st by (auto simp: storage_def unused_ok_def)
      have "prv s y = prv s' y" if "y \<in> set us" for y using us(3) that same [of y] by auto
      then have "free_list (prv s') NULL_ROOT (gc_unused s) us" using us(1) free_list_cong [of us "prv s" "prv s'"] by simp
      then show ?thesis using us(2,3) b unfolding unused_ok_def by auto
    qed
    moreover have "in_use s' q" if "in_use s q" for q
      using that b by (cases q) (auto simp: in_use_def nth_append)
    ultimately show ?thesis using st by (simp add: storage_def)
  qed
qed

lemma add_additional_spec:
  assumes st: "storage s xs" and r: "roots_of s ROOTS xs" and nd: "gc_heap s x = Some nd"
    and full: "gc_unused s = NULL_ROOT" "gc_first_unused s = gc_last_unused s"
  shows "\<exists>p s'. gc_add_garbage x s = Inr s' \<and> p \<notin> set xs \<and> storage s' (p # xs) \<and> roots_of s' ROOTS (p # xs) \<and>
    ref_of s' p = Some x \<and> gc_heap s' = (gc_heap s)(x \<mapsto> nd\<lparr>gc_info := of_nat (root_addr p)\<rparr>) \<and> same_lists s s' xs \<and>
    (no_stale s xs \<longrightarrow> no_stale s' (p # xs))"
proof -
  define sa where "sa = grow_additional s"
  note G = grow_additional_spec [OF st r, folded sa_def]
  obtain used bufs where bufs: "additional_buffer sa = used # bufs" using G(5) by (cases "additional_buffer sa") auto
  define p where "p = ADDITIONAL (length bufs) used"
  let ?s = "sa\<lparr>additional_buffer := (used + 1) # bufs\<rparr>"
  have nda: "gc_heap sa x = Some nd" using nd G(3) by simp
  have np: "p \<notin> set xs" using G(1) bufs by (auto simp: storage_def in_use_def p_def nth_append)
  have use: "in_use ?s q" if "in_use sa q" for q
    using that bufs by (cases q) (auto simp: in_use_def nth_append split: if_splits)
  have "limits_ok ?s" "allocated ?s" "\<forall>y\<in>set (p # xs). in_use ?s y" "unused_ok ?s (p # xs)"
  proof -
    show "limits_ok ?s" using G(1,6) bufs by (auto simp: storage_def limits_ok_def)
    show "allocated ?s" using G(1) bufs by (simp add: storage_def allocated_def)
    have "in_use ?s p" by (simp add: in_use_def p_def nth_append)
    then show "\<forall>y\<in>set (p # xs). in_use ?s y" using G(1) use by (auto simp: storage_def)
    show "unused_ok ?s (p # xs)" using G(1) by (auto simp: storage_def unused_ok_def p_def)
  qed
  then obtain s' where s': "res_bind (GC_SET_INFO x (of_nat (root_addr p)) ?s) (link_root p x) = Inr s'"
      "storage s' (p # xs)" "roots_of s' ROOTS (p # xs)" "ref_of s' p = Some x"
      "gc_heap s' = (gc_heap s)(x \<mapsto> nd\<lparr>gc_info := of_nat (root_addr p)\<rparr>)" "same_lists ?s s' xs"
      "additional_buffer s' = additional_buffer ?s"
    using record_spec [of ?s p xs x nd "of_nat (root_addr p)"] np G(2,3) nd by auto
  have "gc_add_garbage x s = res_bind (GC_SET_INFO x (of_nat (root_addr p)) sa)
      (\<lambda>s. link_root p x (s\<lparr>additional_buffer := (used + 1) # tl (additional_buffer s)\<rparr>))"
    using full bufs
    by (simp add: gc_add_garbage_def p_def root_addr_def sa_def [symmetric] Let_def)
  also have "\<dots> = res_bind (GC_SET_INFO x (of_nat (root_addr p)) ?s) (link_root p x)"
    using bufs nda by (cases sa) (simp add: GC_SET_INFO_def change_node_def node_at_def)
  finally have "gc_add_garbage x s = Inr s'" using s'(1) by simp
  moreover have "same_lists s s' xs" using s'(6) G(4) by (simp add: same_lists_def)
  moreover have "ADDITIONAL b i = p \<or> in_use s (ADDITIONAL b i)" if "in_use s' (ADDITIONAL b i)" for b i
    using that G(7) [of b i] bufs s'(7)
    by (auto simp: in_use_def p_def nth_append less_Suc_eq split: if_splits)
  then have "no_stale s xs \<longrightarrow> no_stale s' (p # xs)" by (auto simp: no_stale_def)
  ultimately show ?thesis using s' np by blast
qed

lemma reserve_spec:
  assumes st: "storage s xs" and r: "roots_of s ROOTS xs" and nd: "gc_heap s x = Some nd"
    and room: "gc_unused s \<noteq> NULL_ROOT \<or> gc_first_unused s \<noteq> gc_last_unused s"
  shows "\<exists>i s1. (if gc_unused s \<noteq> NULL_ROOT then pop_unused s
      else Inr (BUF (gc_first_unused s), s\<lparr>gc_first_unused := gc_first_unused s + 1\<rparr>)) = Inr (BUF i, s1) \<and>
    BUF i \<notin> set xs \<and>
    (\<forall>v. \<exists>s'. res_bind (GC_SET_INFO x v s1) (link_root (BUF i) x) = Inr s' \<and> storage s' (BUF i # xs) \<and>
      roots_of s' ROOTS (BUF i # xs) \<and> ref_of s' (BUF i) = Some x \<and> gc_heap s' = (gc_heap s)(x \<mapsto> nd\<lparr>gc_info := v\<rparr>) \<and>
      same_lists s s' xs \<and> additional_buffer s' = additional_buffer s)"
proof (cases "gc_unused s = NULL_ROOT")
  case False
  obtain q i where q: "pop_unused s = Inr (gc_unused s, s\<lparr>gc_unused := q\<rparr>)" "gc_unused s \<notin> set xs"
      "unused_ok (s\<lparr>gc_unused := q\<rparr>) (gc_unused s # xs)" "gc_unused s = BUF i" "0 < i" "i < gc_first_unused s"
    using reserve_unused [OF st False] by blast
  let ?s = "s\<lparr>gc_unused := q\<rparr>"
  have ok: "limits_ok ?s" "allocated ?s" "\<forall>y\<in>set (gc_unused s # xs). in_use ?s y"
    using st q(4-6) by (auto simp: storage_def limits_ok_def allocated_def in_use_def split: root_ptr.splits)
  have sl: "same_lists ?s = same_lists s" by (simp add: same_lists_def fun_eq_iff)
  then show ?thesis using record_spec [OF ok(1,2) q(3) ok(3), of x nd] q(1,2,4) r nd False
    by (intro exI [of _ i] exI [of _ ?s]) (simp add: sl)
next
  case True
  let ?p = "BUF (gc_first_unused s)" and ?s = "s\<lparr>gc_first_unused := gc_first_unused s + 1\<rparr>"
  have np: "?p \<notin> set xs" using st by (auto simp: storage_def in_use_def)
  have ok: "limits_ok ?s" "allocated ?s" "unused_ok ?s (?p # xs)" "\<forall>y\<in>set (?p # xs). in_use ?s y"
    using st room True
    by (auto simp: storage_def limits_ok_def allocated_def in_use_def unused_ok_def split: root_ptr.splits)
      (metis free_list.simps(1) empty_iff distinct.simps(1) list.set(1))
  have sl: "same_lists ?s = same_lists s" by (simp add: same_lists_def fun_eq_iff)
  then show ?thesis using record_spec [OF ok, of x nd] np r nd True
    by (intro exI [of _ "gc_first_unused s"] exI [of _ ?s]) (simp add: sl)
qed

lemma add_garbage_spec:
  assumes st: "storage s xs" and r: "roots_of s ROOTS xs" and nd: "gc_heap s x = Some nd"
  shows "\<exists>p s'. gc_add_garbage x s = Inr s' \<and> p \<notin> set xs \<and> storage s' (p # xs) \<and> roots_of s' ROOTS (p # xs) \<and>
    ref_of s' p = Some x \<and> gc_heap s' = (gc_heap s)(x \<mapsto> nd\<lparr>gc_info := of_nat (root_addr p)\<rparr>) \<and> same_lists s s' xs \<and>
    (no_stale s xs \<longrightarrow> no_stale s' (p # xs))"
proof (cases "gc_unused s = NULL_ROOT \<and> gc_first_unused s = gc_last_unused s")
  case True
  then show ?thesis using add_additional_spec [OF st r nd] by blast
next
  case False
  then obtain i s1 where i: "(if gc_unused s \<noteq> NULL_ROOT then pop_unused s
      else Inr (BUF (gc_first_unused s), s\<lparr>gc_first_unused := gc_first_unused s + 1\<rparr>)) = Inr (BUF i, s1)" "BUF i \<notin> set xs"
      "\<And>v. \<exists>s'. res_bind (GC_SET_INFO x v s1) (link_root (BUF i) x) = Inr s' \<and> storage s' (BUF i # xs) \<and>
        roots_of s' ROOTS (BUF i # xs) \<and> ref_of s' (BUF i) = Some x \<and> gc_heap s' = (gc_heap s)(x \<mapsto> nd\<lparr>gc_info := v\<rparr>) \<and>
        same_lists s s' xs \<and> additional_buffer s' = additional_buffer s"
    using reserve_spec [OF st r nd] by blast
  have "gc_add_garbage x s = res_bind (GC_SET_INFO x (of_nat i) s1) (link_root (BUF i) x)"
    using i(1) False by (auto simp: gc_add_garbage_def buf_index_def split: if_splits)
  moreover have "no_stale s xs \<longrightarrow> no_stale s' (BUF i # xs)" if "additional_buffer s' = additional_buffer s" for s'
    using that by (simp add: no_stale_def in_use_def)
  ultimately show ?thesis using i(2) i(3) [of "of_nat i"] unfolding root_addr_def
    by (intro exI [of _ "BUF i"]) (simp, metis)
qed

subsection \<open>Removing an entry\<close>

lemma storage_heads: "storage s xs \<Longrightarrow> is_head h \<Longrightarrow> h \<notin> set xs"
proof -
  have "is_head h \<Longrightarrow> \<not> in_use s h" by (auto simp: in_use_def is_head_def)
  then show "storage s xs \<Longrightarrow> is_head h \<Longrightarrow> h \<notin> set xs" unfolding storage_def by blast
qed

definition other_heads :: "root_ptr \<Rightarrow> gc_globals \<Rightarrow> gc_globals \<Rightarrow> bool" where
  "other_heads h s s' \<longleftrightarrow> (\<forall>g. is_head g \<longrightarrow> g \<noteq> h \<longrightarrow> nxt s' g = nxt s g \<and> prv s' g = prv s g)"

lemma unlink_storage:
  assumes st: "storage s (ks @ p # rs)" and r: "roots_of s h (ks @ p # rs)" and h: "is_head h"
  shows "\<exists>s'. gc_remove_from_additional_roots p s = Inr s' \<and> only_roots s s' \<and> ref_of s' = ref_of s \<and> storage s' (ks @ rs) \<and>
    roots_of s' h (ks @ rs) \<and> other_heads h s s' \<and> unused_ok s' (ks @ p # rs) \<and> nxt s' p = nxt s p"
proof -
  let ?a = "last (h # ks)" and ?b = "hd (rs @ [h])"
  obtain s' where s': "gc_remove_from_additional_roots p s = Inr s'" "only_roots s s'" "ref_of s' = ref_of s"
      "nxt s' = (nxt s)(?a := Some ?b)" "prv s' = (prv s)(?b := Some ?a)" "roots_of s' h (ks @ rs)"
    using unlink_spec [OF r] by blast
  have a: "?a \<in> set (h # ks @ rs)" using last_in_set [of "h # ks"] by (auto simp del: last.simps)
  have b: "?b \<in> set (h # ks @ rs)" using hd_in_set [of "rs @ [h]"] by auto
  have keep: "nxt s' q = nxt s q \<and> prv s' q = prv s q" if "q \<notin> set (h # ks @ rs)" for q
    using that a b s'(4,5) by (metis fun_upd_other)
  have keep': "nxt s' q = nxt s q \<and> prv s' q = prv s q" if "\<not> is_head q" "q \<notin> set (ks @ rs)" for q
    using that keep [of q] h by auto
  have u: "unused_ok s (ks @ rs)" using st by (auto simp: storage_def unused_ok_def)
  have "storage s' (ks @ rs)"
    by (rule storage_relinked [OF _ _ u _ s'(2) keep']) (use st ring_defined [OF s'(6)] in \<open>auto simp: storage_def\<close>)
  moreover have "other_heads h s s'" using keep storage_heads [OF st] unfolding other_heads_def by auto
  moreover have "unused_ok s' (ks @ p # rs)"
  proof -
    obtain us where us: "free_list (prv s) NULL_ROOT (gc_unused s) us" "distinct us"
        "\<forall>q\<in>set us. q \<notin> set (ks @ p # rs) \<and> (\<exists>i. q = BUF i \<and> 0 < i \<and> i < gc_first_unused s)"
      using st by (auto simp: storage_def unused_ok_def)
    have "prv s y = prv s' y" if "y \<in> set us" for y using us(3) that keep' [of y] by (auto simp: is_head_def)
    then have "free_list (prv s') NULL_ROOT (gc_unused s) us" using us(1) free_list_cong [of us "prv s" "prv s'"] by simp
    then show ?thesis using us(2,3) only_rootsD [OF s'(2)] unfolding unused_ok_def by auto
  qed
  moreover have "p \<notin> set (h # ks @ rs)" using r by (auto simp: ring_def)
  then have "nxt s' p = nxt s p" using keep by blast
  ultimately show ?thesis using s'(1-3,6) by blast
qed

text \<open>As the callers do it: the entries of \<open>buf\<close> go back to the unused ones.\<close>

definition only_entries :: "gc_globals \<Rightarrow> gc_globals \<Rightarrow> bool" where
  "only_entries s s' \<longleftrightarrow> s' = s\<lparr>gc_roots := gc_roots s', gc_unused := gc_unused s'\<rparr>"

lemma only_entriesI: "only_roots s s' \<Longrightarrow> only_entries s (s'\<lparr>gc_unused := p\<rparr>)"
proof -
  assume "only_roots s s'"
  then have s: "s' = s\<lparr>gc_roots := gc_roots s'\<rparr>" by (simp add: only_roots_def)
  show ?thesis unfolding only_entries_def by (subst s, simp)
qed

lemma only_entries_roots: "only_roots s s' \<Longrightarrow> only_entries s s'"
proof -
  assume o: "only_roots s s'"
  have "s'\<lparr>gc_unused := gc_unused s'\<rparr> = s'" by simp
  then show ?thesis using only_entriesI [OF o, of "gc_unused s'"] by simp
qed

lemma only_entriesD:
  assumes "only_entries s s'"
  shows "gc_heap s' = gc_heap s" "gc_slots s' = gc_slots s" "symbol_table s' = symbol_table s"
    "gc_first_unused s' = gc_first_unused s" "gc_last_unused s' = gc_last_unused s" "gc_blocks s' = gc_blocks s"
    "additional_buffer s' = additional_buffer s" "gc_next_to_free s' = gc_next_to_free s" "gc_store s' = gc_store s"
proof -
  have s: "s' = s\<lparr>gc_roots := gc_roots s', gc_unused := gc_unused s'\<rparr>" using assms by (simp add: only_entries_def)
  show "gc_heap s' = gc_heap s" "gc_slots s' = gc_slots s" "symbol_table s' = symbol_table s"
    "gc_first_unused s' = gc_first_unused s" "gc_last_unused s' = gc_last_unused s" "gc_blocks s' = gc_blocks s"
    "additional_buffer s' = additional_buffer s" "gc_next_to_free s' = gc_next_to_free s" "gc_store s' = gc_store s"
    by (subst s, simp)+
qed

lemma remove_entry:
  assumes st: "storage s (ks @ p # rs)" and r: "roots_of s h (ks @ p # rs)" and h: "is_head h"
  shows "\<exists>s'. (if root_addr p < GC_ROOT_BUFFER_MAX_ENTRIES then gc_remove_from_roots p s
      else gc_remove_from_additional_roots p s) = Inr s' \<and>
    only_entries s s' \<and> ref_of s' = ref_of s \<and> storage s' (ks @ rs) \<and> roots_of s' h (ks @ rs) \<and> other_heads h s s' \<and>
    nxt s' p = nxt s p"
proof -
  obtain s1 where s1: "gc_remove_from_additional_roots p s = Inr s1" "only_roots s s1" "ref_of s1 = ref_of s" "storage s1 (ks @ rs)"
      "roots_of s1 h (ks @ rs)" "other_heads h s s1" "unused_ok s1 (ks @ p # rs)" "nxt s1 p = nxt s p"
    using unlink_storage [OF st r h] by blast
  note O = only_rootsD [OF s1(2)]
  have p: "in_use s p" and lim: "limits_ok s" using st by (auto simp: storage_def)
  have np: "p \<notin> set (h # ks @ rs)" using r by (auto simp: ring_def)
  have "nxt s p \<noteq> None" using ring_defined [OF r, of p] by simp
  then have def: "nxt s1 p \<noteq> None" using s1(8) by simp
  show ?thesis
  proof (cases "root_addr p < GC_ROOT_BUFFER_MAX_ENTRIES")
    case False
    then show ?thesis using s1 only_entries_roots [OF s1(2)] by auto
  next
    case True
    then obtain i where i: "p = BUF i" "0 < i" "i < gc_first_unused s" using in_use_addr(3) [OF p lim] p by (auto simp: in_use_def)
    obtain s2 where s2: "set_prev p (gc_unused s1) s1 = Inr s2" "only_roots s1 s2" "prv s2 = (prv s1)(p := Some (gc_unused s1))"
        "nxt s2 = nxt s1" "ref_of s2 = ref_of s1"
      using entry_ops(3) [OF def] by blast
    let ?s = "s2\<lparr>gc_unused := p\<rparr>"
    note O2 = only_rootsD [OF s2(2)]
    obtain us where us: "free_list (prv s1) NULL_ROOT (gc_unused s1) us" "distinct us"
        "\<forall>q\<in>set us. q \<notin> set (ks @ p # rs) \<and> (\<exists>i. q = BUF i \<and> 0 < i \<and> i < gc_first_unused s1)"
      using s1(7) by (auto simp: unused_ok_def)
    have "free_list (prv s2) NULL_ROOT p (p # us)"
      using us(1,3) i(1) s2(3) free_list_update [of p us "prv s1"] by auto
    then have "unused_ok ?s (ks @ rs)"
      unfolding unused_ok_def using us(2,3) np i O O2 by (intro exI [of _ "p # us"]) auto
    moreover have "limits_ok ?s" "allocated ?s" "\<forall>q\<in>set (ks @ rs). in_use ?s q"
      using s1(4) O2 s2(4) by (auto simp: storage_def limits_ok_def allocated_def in_use_def split: root_ptr.splits)
    moreover have "roots_of s2 h (ks @ rs) = roots_of s1 h (ks @ rs)"
      by (rule ring_cong) (use s2(3,4) np in auto)
    then have "roots_of ?s h (ks @ rs)" using s1(5) by simp
    moreover have "gc_remove_from_roots p s = Inr ?s"
      using s1(1) s2(1) by (simp add: gc_remove_from_roots_def give_back_def)
    moreover have "other_heads h s ?s" using s1(6) s2(3,4) i(1) by (auto simp: other_heads_def is_head_def)
    moreover have "only_entries s ?s" by (rule only_entriesI [OF only_roots_trans [OF s1(2) s2(2)]])
    ultimately show ?thesis using True s1(3,8) s2(4,5) by (auto simp: storage_def)
  qed
qed

lemma remove_storage:
  assumes st: "storage s (ks @ p # rs)" and r: "roots_of s ROOTS (ks @ p # rs)"
  shows "\<exists>s'. (if root_addr p < GC_ROOT_BUFFER_MAX_ENTRIES then gc_remove_from_roots p s
      else gc_remove_from_additional_roots p s) = Inr s' \<and>
    gc_heap s' = gc_heap s \<and> same_lists s s' (ks @ rs) \<and> storage s' (ks @ rs) \<and> roots_of s' ROOTS (ks @ rs) \<and>
    additional_buffer s' = additional_buffer s \<and> nxt s' p \<noteq> None"
proof -
  obtain s' where s': "(if root_addr p < GC_ROOT_BUFFER_MAX_ENTRIES then gc_remove_from_roots p s
      else gc_remove_from_additional_roots p s) = Inr s'" "only_entries s s'" "ref_of s' = ref_of s" "storage s' (ks @ rs)"
      "roots_of s' ROOTS (ks @ rs)" "other_heads ROOTS s s'" "nxt s' p = nxt s p"
    using remove_entry [OF st r] by (auto simp: is_head_def)
  have "nxt s' p \<noteq> None" using ring_defined [OF r, of p] s'(7) by simp
  moreover have "same_lists s s' (ks @ rs)"
    using only_entriesD [OF s'(2)] s'(3,6) by (simp add: same_lists_def other_heads_def is_head_def)
  ultimately show ?thesis using s'(1,4,5) only_entriesD [OF s'(2)] by blast
qed

end
