(* ===== verification/Zend_GC_White.thy ===== *)
theory Zend_GC_White
  imports Zend_GC_Buffer
begin

text \<open>
  \<open>gc_collect_white\<close>: apart from the count it is a walk that blackens the white structures, restores
  the counts and records the structures it meets; it interprets \<open>graph_walk\<close>.
\<close>

subsection \<open>The count does not influence the walk\<close>

definition commutes :: "(counting \<Rightarrow> counting res) \<Rightarrow> bool" where
  "commutes f \<longleftrightarrow> (\<forall>k c. f (add_count k c) = res_map (add_count k) (f c))"

lemma add_count_add [simp]: "add_count m (add_count n c) = add_count (m + n) c"
  by (cases c) (simp add: add_count_def algebra_simps)

lemma add_count_0 [simp]: "add_count 0 c = c" "snd (snd (add_count n c)) = snd (snd c)" "fst (snd (add_count n c)) = fst (snd c)"
  by (cases c; simp add: add_count_def)+

lemma res_map_comp: "res_map f (res_map g m) = res_map (\<lambda>x. f (g x)) m"
  by (cases m) simp_all

lemma res_map_bind: "res_map f (res_bind m g) = res_bind m (\<lambda>x. res_map f (g x))" "res_bind (res_map f m) g = res_bind m (\<lambda>x. g (f x))"
  by (cases m; simp)+

lemma commutesI: "(\<And>k c. f (add_count k c) = res_map (add_count k) (f c)) \<Longrightarrow> commutes f"
  unfolding commutes_def by blast

lemma commutesD: "commutes f \<Longrightarrow> f (add_count k c) = res_map (add_count k) (f c)"
  unfolding commutes_def by blast

lemma commutes_Inr: "commutes Inr" "commutes (\<lambda>c. Inr (add_count n c))"
  by (rule commutesI; simp add: add.commute)+

lemma commutes_bind:
  assumes "commutes f" "commutes g"
  shows "commutes (\<lambda>c. res_bind (f c) g)"
proof (rule commutesI)
  fix k c
  show "res_bind (f (add_count k c)) g = res_map (add_count k) (res_bind (f c) g)"
    by (cases "f c") (simp_all add: commutesD [OF assms(1)] commutesD [OF assms(2)])
qed

lemma commutes_state: "commutes (counting_state f)"
proof (rule commutesI)
  fix k c show "counting_state f (add_count k c) = res_map (add_count k) (counting_state f c)"
    by (cases c) (simp add: counting_state_def add_count_def res_map_def res_bind_def split: sum.splits)
qed

lemma commutes_for_each: "\<forall>x. commutes (f x) \<Longrightarrow> commutes (for_each f xs)"
proof (induction xs)
  case Nil
  then show ?case using commutes_Inr(1) by (simp add: for_each_small)
next
  case (Cons x xs)
  have "commutes (\<lambda>c. res_bind (f x c) (for_each f xs))" using Cons by (intro commutes_bind) blast+
  moreover have "(\<lambda>c. res_bind (f x c) (for_each f xs)) = for_each f (x # xs)" by (simp add: fun_eq_iff)
  ultimately show ?case by simp
qed

fun plain_values :: "gc_zval list \<Rightarrow> nat" where
  "plain_values [] = 0"
| "plain_values (z # zs) = (case z of ZV_PLAIN \<Rightarrow> 1 | ZV_INDIRECT _ \<Rightarrow> 1 | _ \<Rightarrow> 0) + plain_values zs"

lemma collect_value_simps [simp]:
  "collect_value visit (ZV_COUNTED r) c = visit r c" "collect_value visit ZV_UNDEF c = Inr c"
  "collect_value visit ZV_PLAIN c = Inr (add_count 1 c)" "collect_value visit (ZV_INDIRECT a) c = Inr (add_count 1 c)"
  by (simp_all add: collect_value_def)

lemma for_collect_value:
  assumes V: "\<forall>r. commutes (visit r)"
  shows "for_each (collect_value visit) zs c = res_map (add_count (plain_values zs)) (for_each visit (counted_refs zs) c)"
proof (induction zs arbitrary: c)
  case (Cons z zs)
  have F: "for_each visit (counted_refs zs) (add_count 1 c) = res_map (add_count 1) (for_each visit (counted_refs zs) c)"
    by (rule commutesD [OF commutes_for_each [OF V]])
  show ?case
  proof (cases z)
    case (ZV_COUNTED r)
    then show ?thesis by (cases "visit r c") (simp_all add: Cons.IH)
  qed (simp_all add: Cons.IH F [simplified] res_map_comp)
qed (simp add: res_map_def)

lemma commutes_values:
  assumes V: "\<forall>r. commutes (visit r)"
  shows "commutes (for_each (collect_value visit) zs)"
proof (rule commutes_for_each, rule allI)
  show "commutes (collect_value visit z)" for z
    by (rule commutesI, cases z) (simp_all add: commutesD [OF V [rule_format]] add.commute)
qed

lemma collect_each_eq:
  assumes V: "\<forall>r. commutes (visit r)"
  shows "\<exists>k. \<forall>c. collect_each visit skip zs c = res_map (add_count k) (for_each visit (counted_refs zs) c)"
proof (cases "split_last zs")
  case None
  then show ?thesis by (auto simp: collect_each_def split_last_None intro!: exI [of _ "skip zs"])
next
  case (Some t)
  obtain front r sk where t: "t = (front, r, sk)" by (cases t)
  note S = split_last_Some [OF Some [unfolded t]]
  have C: "commutes (for_each (collect_value visit) front)" by (rule commutes_values [OF V])
  have "collect_each visit skip zs c =
      res_map (add_count (skip sk + plain_values front)) (for_each visit (counted_refs zs) c)" for c
  proof -
    have "collect_each visit skip zs c = res_bind (for_each (collect_value visit) front (add_count (skip sk) c)) (visit r)"
      using Some t by (simp add: collect_each_def)
    also have "\<dots> = res_map (add_count (skip sk)) (res_bind (for_each (collect_value visit) front c) (visit r))"
      by (rule commutesD [OF commutes_bind [OF C V [rule_format]]])
    also have "\<dots> = res_map (add_count (skip sk))
        (res_map (add_count (plain_values front)) (res_bind (for_each visit (counted_refs front) c) (visit r)))"
      by (simp add: for_collect_value [OF V] res_map_bind commutesD [OF V [rule_format]])
    also have "res_bind (for_each visit (counted_refs front) c) (visit r) = for_each visit (counted_refs zs) c"
      using S by (simp add: for_each_append for_each_small del: for_each.simps)
    finally show ?thesis by (simp add: res_map_comp)
  qed
  then show ?thesis by blast
qed

lemma commutes_each: "\<forall>r. commutes (visit r) \<Longrightarrow> commutes (collect_each visit skip zs)"
proof (rule commutesI)
  fix k c assume V: "\<forall>r. commutes (visit r)"
  obtain m where m: "\<And>c. collect_each visit skip zs c = res_map (add_count m) (for_each visit (counted_refs zs) c)"
    using collect_each_eq [OF V] by blast
  show "collect_each visit skip zs (add_count k c) = res_map (add_count k) (collect_each visit skip zs c)"
    by (simp add: m commutesD [OF commutes_for_each [OF V]] res_map_comp add.commute)
qed

definition visit_white :: "nat \<Rightarrow> gc_ref \<Rightarrow> counting \<Rightarrow> counting res" where
  "visit_white depth q c = res_bind (counting_state (GC_ADDREF q) c) (gc_collect_white depth q)"

text \<open>What the walk does at a structure before it goes to its values.\<close>

definition enter_white :: "gc_ref \<Rightarrow> gc_node \<Rightarrow> counting \<Rightarrow> counting res" where
  "enter_white r nd c = (case gc_type_data nd of
       GC_OBJECT ob \<Rightarrow>
         if gco_free_called ob \<or> gco_get_gc ob = None then Inr c
         else res_bind (counting_state (add_if_new r) c) (\<lambda>(num, flags, s).
           Inr (num, if gc_destructor_of ob \<noteq> None then flags OR GC_HAS_DESTRUCTORS else flags, s))
     | GC_ARRAY _ \<Rightarrow> counting_state (add_if_new r) c
     | _ \<Rightarrow> Inr c)"

lemma collect_walk_eq:
  assumes V: "\<forall>r. commutes (visit r)"
  shows "\<exists>k. collect_walk visit r nd c =
    res_bind (enter_white r nd c) (\<lambda>c. res_map (add_count k) (for_each visit (node_refs (snd (snd c)) nd) c))"
proof (cases "gc_type_data nd")
  case (GC_ARRAY ht)
  show ?thesis
  proof (cases "counting_state (add_if_new r) c")
    case (Inr c1)
    obtain num flags s where c1: "c1 = (num, flags, s)" by (cases c1)
    obtain k where "\<And>c. collect_each visit skipped_in_table (map (follow s) ht) c =
        res_map (add_count k) (for_each visit (counted_refs (map (follow s) ht)) c)"
      using collect_each_eq [OF V] by blast
    then show ?thesis using Inr c1 GC_ARRAY by (auto simp: collect_walk_def enter_white_def node_refs_def intro!: exI [of _ k])
  qed (simp add: GC_ARRAY collect_walk_def enter_white_def)
next
  case (GC_REFERENCE z)
  then show ?thesis
    by (auto simp: collect_walk_def enter_white_def node_refs_def on_counted_def res_map_def for_each_small
        simp del: for_each.simps split: gc_zval.splits intro!: exI [of _ 0])
next
  case GC_SCALAR
  then show ?thesis by (auto simp: collect_walk_def enter_white_def node_refs_def res_map_def intro!: exI [of _ 0])
next
  case (GC_OBJECT ob)
  show ?thesis
  proof (cases "gco_free_called ob \<or> gco_get_gc ob = None")
    case True
    then show ?thesis using GC_OBJECT
      by (auto simp: collect_walk_def enter_white_def node_refs_def res_map_def intro!: exI [of _ 0])
  next
    case False
    then obtain zv ht where g: "\<not> gco_free_called ob" "gco_get_gc ob = Some (zv, ht)" by auto
    show ?thesis
    proof (cases "counting_state (add_if_new r) c")
      case (Inr c1)
      obtain num flags s where c1: "c1 = (num, flags, s)" by (cases c1)
      obtain k1 where k1: "\<And>c. collect_each visit (skipped_in_object zv) zv c =
          res_map (add_count k1) (for_each visit (counted_refs zv) c)"
        using collect_each_eq [OF V] by blast
      obtain k2 where k2: "\<And>c. collect_each visit skipped_in_table (map (follow s) (the ht)) c =
          res_map (add_count k2) (for_each visit (counted_refs (map (follow s) (the ht))) c)"
        using collect_each_eq [OF V] by blast
      show ?thesis
      proof (cases ht)
        case None
        then show ?thesis using Inr c1 g GC_OBJECT k1
          by (auto simp: collect_walk_def enter_white_def node_refs_def intro!: exI [of _ k1])
      next
        case (Some h)
        have "res_bind (for_each (collect_value visit) zv c) (collect_each visit skipped_in_table (map (follow s) h)) =
            res_map (add_count (k2 + plain_values zv)) (for_each visit (counted_refs zv @ counted_refs (map (follow s) h)) c)" for c
          using k2 Some
          by (simp add: for_collect_value [OF V] res_map_bind for_each_append commutesD [OF commutes_for_each [OF V]]
              res_map_comp add.commute)
        then show ?thesis using Inr c1 g GC_OBJECT Some
          by (auto simp: collect_walk_def enter_white_def node_refs_def intro!: exI [of _ "k2 + plain_values zv"])
      qed
    qed (use g GC_OBJECT in \<open>simp add: collect_walk_def enter_white_def\<close>)
  qed
qed

lemma commutes_at_state:
  assumes "\<And>s. commutes (f s)"
  shows "commutes (\<lambda>c. f (snd (snd c)) c)"
  by (rule commutesI) (simp add: commutesD [OF assms])

lemma commutes_walk:
  assumes V: "\<forall>r. commutes (visit r)"
  shows "commutes (collect_walk visit r nd)"
proof -
  have flag: "commutes (\<lambda>(num, flags, s). Inr (num, f flags, s))" for f :: "u32 \<Rightarrow> u32"
    by (rule commutesI) (auto simp: add_count_def split: prod.splits)
  have table: "commutes (\<lambda>c. collect_each visit skipped_in_table (map (follow (snd (snd c))) ht) c)" for ht
    by (rule commutes_at_state) (rule commutes_each [OF V])
  have C: "commutes (\<lambda>c. res_bind (counting_state (add_if_new r) c) g)" if "commutes g" for g
    by (rule commutes_bind [OF commutes_state that])
  show ?thesis
  proof (cases "gc_type_data nd")
    case (GC_ARRAY ht)
    have "collect_walk visit r nd = (\<lambda>c. res_bind (counting_state (add_if_new r) c)
        (\<lambda>c. collect_each visit skipped_in_table (map (follow (snd (snd c))) ht) c))"
      by (simp add: fun_eq_iff GC_ARRAY collect_walk_def case_prod_unfold)
    then show ?thesis using C [OF table] by simp
  next
    case (GC_OBJECT ob)
    show ?thesis
    proof (cases "gco_free_called ob \<or> gco_get_gc ob = None")
      case True
      then show ?thesis by (intro commutesI) (auto simp: collect_walk_def GC_OBJECT)
    next
      case False
      then obtain zv ht where g: "\<not> gco_free_called ob" "gco_get_gc ob = Some (zv, ht)" by auto
      define F :: "u32 \<Rightarrow> u32" where "F flags = (if gc_destructor_of ob \<noteq> None then flags OR GC_HAS_DESTRUCTORS else flags)" for flags
      define rest where "rest s = (\<lambda>c. case ht of None \<Rightarrow> collect_each visit (skipped_in_object zv) zv c
        | Some ht \<Rightarrow> res_bind (for_each (collect_value visit) zv c) (collect_each visit skipped_in_table (map (follow s) ht)))" for s
      have "commutes (rest s)" for s
        using commutes_each [OF V] commutes_bind [OF commutes_values [OF V] commutes_each [OF V]]
        by (cases ht) (simp_all add: rest_def)
      then have "commutes (\<lambda>c. rest (snd (snd c)) c)" by (rule commutes_at_state)
      from commutes_bind [OF flag [of F] this]
      have "commutes (\<lambda>c. res_bind ((\<lambda>(num, flags, s). Inr (num, F flags, s)) c) (\<lambda>c. rest (snd (snd c)) c))" .
      from C [OF this] have "commutes (\<lambda>c. res_bind (counting_state (add_if_new r) c)
          (\<lambda>c. res_bind ((\<lambda>(num, flags, s). Inr (num, F flags, s)) c) (\<lambda>c. rest (snd (snd c)) c)))" .
      moreover have "collect_walk visit r nd c = res_bind (counting_state (add_if_new r) c)
          (\<lambda>c. res_bind ((\<lambda>(num, flags, s). Inr (num, F flags, s)) c) (\<lambda>c. rest (snd (snd c)) c))" for c
      proof (cases "counting_state (add_if_new r) c")
        case (Inr c1)
        obtain num flags t where c1: "c1 = (num, flags, t)" by (cases c1)
        show ?thesis
          unfolding collect_walk_def GC_OBJECT gc_data.case if_not_P [OF g(1)] g(2) option.case prod.case Inr res_bind_simps
            c1 snd_conv rest_def F_def Let_def by (rule refl)
      qed (simp add: collect_walk_def GC_OBJECT g)
      ultimately show ?thesis by (simp only: commutes_def) blast
    qed
  next
    case (GC_REFERENCE z)
    then show ?thesis using commutesD [OF V [rule_format]] by (intro commutesI) (auto simp: collect_walk_def on_counted_def split: gc_zval.splits)
  qed (auto intro!: commutesI simp: collect_walk_def)
qed

lemma visit_white_eq: "visit_white n q = (\<lambda>c. res_bind (counting_state (GC_ADDREF q) c) (gc_collect_white n q))"
  by (simp add: visit_white_def fun_eq_iff)

lemma commutes_white: "commutes (gc_collect_white n r)"
proof (induction n arbitrary: r)
  case 0
  show ?case by (rule commutesI) simp
next
  case (Suc n)
  have V: "\<forall>q. commutes (visit_white n q)"
    unfolding visit_white_eq using commutes_bind [OF commutes_state Suc.IH] by blast
  have v: "(\<lambda>q c. res_bind (counting_state (GC_ADDREF q) c) (gc_collect_white n q)) = visit_white n"
    by (simp add: visit_white_def fun_eq_iff)
  have W: "commutes (\<lambda>c. collect_walk (visit_white n) r nd (add_count k c))" for nd k
    using commutesD [OF commutes_walk [OF V, of r nd]] by (intro commutesI) (simp add: res_map_comp add.commute)
  have "commutes (\<lambda>c. res_bind (counting_state (GC_REF_SET_BLACK r) c) (\<lambda>c.
      collect_walk (visit_white n) r nd (case gc_type_data nd of GC_REFERENCE _ \<Rightarrow> c | _ \<Rightarrow> add_count 1 c)))" for nd
    using commutes_bind [OF commutes_state W [of nd 1]] commutes_bind [OF commutes_state commutes_walk [OF V, of r nd]]
    by (cases "gc_type_data nd") simp_all
  note B = commutesD [OF this]
  show ?case
  proof (rule commutesI)
    fix k c
    show "gc_collect_white (Suc n) r (add_count k c) = res_map (add_count k) (gc_collect_white (Suc n) r c)"
      by (cases "node_at r (snd (snd c))") (simp_all add: v B)
  qed
qed

text \<open>The walk at a white structure, up to the count.\<close>

lemma collect_white_enter:
  assumes "node_at q (snd (snd c)) = Inr nd" "GC_REF_GET_COLOR nd = GC_WHITE"
  shows "\<exists>k. gc_collect_white (Suc n) q c =
    res_bind (counting_state (GC_REF_SET_BLACK q) c) (\<lambda>c.
    res_bind (enter_white q nd c) (\<lambda>c. res_map (add_count k) (for_each (visit_white n) (node_refs (snd (snd c)) nd) c)))"
proof -
  have V: "\<forall>q. commutes (visit_white n q)"
    unfolding visit_white_eq using commutes_bind [OF commutes_state commutes_white] by blast
  have v: "(\<lambda>q c. res_bind (counting_state (GC_ADDREF q) c) (gc_collect_white n q)) = visit_white n"
    by (simp add: visit_white_def fun_eq_iff)
  define m :: nat where "m = (case gc_type_data nd of GC_REFERENCE _ \<Rightarrow> 0 | _ \<Rightarrow> 1)"
  have m: "(case gc_type_data nd of GC_REFERENCE _ \<Rightarrow> c | _ \<Rightarrow> add_count 1 c) = add_count m c" for c
    by (simp add: m_def split: gc_data.splits)
  show ?thesis
  proof (cases "counting_state (GC_REF_SET_BLACK q) c")
    case (Inr c1)
    obtain k where k: "collect_walk (visit_white n) q nd c1 =
        res_bind (enter_white q nd c1) (\<lambda>c. res_map (add_count k) (for_each (visit_white n) (node_refs (snd (snd c)) nd) c))"
      using collect_walk_eq [OF V] by blast
    have "gc_collect_white (Suc n) q c = res_map (add_count m) (collect_walk (visit_white n) q nd c1)"
      using assms Inr by (simp add: v m commutesD [OF commutes_walk [OF V]])
    also have "\<dots> = res_bind (enter_white q nd c1) (\<lambda>c. res_map (add_count (m + k)) (for_each (visit_white n) (node_refs (snd (snd c)) nd) c))"
      by (simp add: k res_map_bind res_map_comp)
    finally show ?thesis using Inr by auto
  qed (use assms in simp)
qed

end
