(* ===== verification/Zend_GC_Collect.thy ===== *)
theory Zend_GC_Collect
  imports Zend_GC_White
begin

text \<open>
  \<open>gc_collect_roots\<close>: entries of black structures leave the list, the white structures become black
  again with their counts restored, and the entries of the garbage move to \<open>to_free\<close>.
\<close>

subsection \<open>Changes that leave the values alone\<close>

definition value_part :: "gc_node \<Rightarrow> gc_node" where
  "value_part nd = nd\<lparr>gc_refcount := 0, gc_info := 0\<rparr>"

definition same_values :: "gc_globals \<Rightarrow> gc_globals \<Rightarrow> bool" where
  "same_values s s' \<longleftrightarrow> gc_slots s' = gc_slots s \<and> symbol_table s' = symbol_table s \<and>
     gc_blocks s' = gc_blocks s \<and> gc_store s' = gc_store s \<and>
     (\<forall>r. map_option value_part (gc_heap s' r) = map_option value_part (gc_heap s r))"

lemma same_values_refl [simp]: "same_values s s"
  by (simp add: same_values_def)

lemma value_part_simps [simp]:
  "value_part (nd\<lparr>gc_refcount := c\<rparr>) = value_part nd" "value_part (nd\<lparr>gc_info := v\<rparr>) = value_part nd"
  by (simp_all add: value_part_def)

lemma value_partD: "value_part nd = value_part nd' \<Longrightarrow> gc_type_data nd = gc_type_data nd'"
  by (auto simp: value_part_def gc_type_data_def dest: arg_cong [of _ _ gc_type_null] arg_cong [of _ _ gc_data])

lemma node_refs_data:
  "gc_type_data nd' = gc_type_data nd \<Longrightarrow> node_refs s nd' = node_refs s nd \<and> is_symbol_table r nd' s = is_symbol_table r nd s"
  by (simp add: node_refs_def is_symbol_table_def)

lemma same_valuesD:
  assumes "same_values s s'"
  shows "gc_slots s' = gc_slots s" "symbol_table s' = symbol_table s" "gc_heap s' r = None \<longleftrightarrow> gc_heap s r = None"
    "dom (gc_heap s') = dom (gc_heap s)" "kids s' = kids s"
proof -
  show f: "gc_slots s' = gc_slots s" "symbol_table s' = symbol_table s" using assms by (simp_all add: same_values_def)
  show n: "gc_heap s' r = None \<longleftrightarrow> gc_heap s r = None" for r
    using assms unfolding same_values_def by (metis option.map_disc_iff)
  show "dom (gc_heap s') = dom (gc_heap s)" using n by (auto simp: dom_def)
  show "kids s' = kids s"
  proof
    fix r
    show "kids s' r = kids s r"
    proof (cases "gc_heap s r")
      case (Some nd)
      then obtain nd' where nd': "gc_heap s' r = Some nd'" using n [of r] by auto
      then have "value_part nd' = value_part nd" using assms Some unfolding same_values_def by (metis option.inject option.map(2))
      then have "gc_type_data nd' = gc_type_data nd" by (rule value_partD)
      then have "node_refs s' nd' = node_refs s nd" "is_symbol_table r nd' s' = is_symbol_table r nd s"
        using node_refs_data [of nd' nd s' r] node_refs_cong [OF f] by simp_all
      then show ?thesis using Some nd' by (simp add: kids_def)
    qed (use n [of r] in \<open>simp add: kids_def\<close>)
  qed
qed

lemma same_values_node:
  assumes "same_values s0 s" "gc_heap s r = Some nd" "value_part nd' = value_part nd"
  shows "same_values s0 (s\<lparr>gc_heap := (gc_heap s)(r \<mapsto> nd')\<rparr>)"
proof -
  have "map_option value_part (gc_heap s0 r) = Some (value_part nd')"
    using assms unfolding same_values_def by (metis option.map(2))
  then show ?thesis using assms(1) by (auto simp: same_values_def)
qed

lemma only_headers_values: "only_headers s s' \<Longrightarrow> same_values s s'"
proof -
  assume h: "only_headers s s'"
  have "map_option value_part (gc_heap s' r) = map_option value_part (gc_heap s r)" for r
  proof -
    have "map_option header_blank (gc_heap s' r) = map_option header_blank (gc_heap s r)" using h by (simp add: only_headers_def)
    then have "map_option (\<lambda>nd. value_part (header_blank nd)) (gc_heap s' r) = map_option (\<lambda>nd. value_part (header_blank nd)) (gc_heap s r)"
      by (metis (no_types, lifting) map_option.compositionality option.map_cong0 comp_apply)
    then show ?thesis by (simp add: header_blank_def)
  qed
  moreover have "gc_blocks s' = gc_blocks s" "gc_store s' = gc_store s"
  proof -
    obtain g where "s' = s\<lparr>gc_heap := g\<rparr>" using h unfolding only_headers_def by blast
    then show "gc_blocks s' = gc_blocks s" "gc_store s' = gc_store s" by simp_all
  qed
  ultimately show ?thesis using only_headersD(1,2) [OF h] by (simp add: same_values_def)
qed

lemma addressed_node:
  assumes "gc_heap s r = Some nd" "GC_ADDRESS (gc_info nd') = GC_ADDRESS (gc_info nd)"
  shows "addressed (s\<lparr>gc_heap := (gc_heap s)(r \<mapsto> nd')\<rparr>) xs = addressed s xs"
proof -
  have "(\<exists>x nd. ref_of s p = Some x \<and> ((gc_heap s)(r \<mapsto> nd')) x = Some nd \<and> GC_ADDRESS (gc_info nd) = v) \<longleftrightarrow>
      (\<exists>x nd. ref_of s p = Some x \<and> gc_heap s x = Some nd \<and> GC_ADDRESS (gc_info nd) = v)" for p v
    using assms by auto
  moreover have "(\<forall>x nd. ((gc_heap s)(r \<mapsto> nd')) x = Some nd \<longrightarrow> P x \<longrightarrow> GC_ADDRESS (gc_info nd) = 0) \<longleftrightarrow>
      (\<forall>x nd. gc_heap s x = Some nd \<longrightarrow> P x \<longrightarrow> GC_ADDRESS (gc_info nd) = 0)" for P
    using assms by auto
  ultimately show ?thesis by (simp add: addressed_def)
qed

lemma same_values_data:
  assumes "same_values s s'" "gc_heap s' r = Some nd" "gc_heap s r = Some nd0"
  shows "gc_type_data nd = gc_type_data nd0"
proof (rule value_partD)
  have "map_option value_part (gc_heap s' r) = map_option value_part (gc_heap s r)" using assms(1) by (simp add: same_values_def)
  then show "value_part nd = value_part nd0" using assms(2,3) by simp
qed

lemma same_values_wf: "wf_heap s \<Longrightarrow> same_values s s' \<Longrightarrow> wf_heap s'"
proof -
  assume wf: "wf_heap s" and sv: "same_values s s'"
  note D = same_valuesD [OF sv]
  have "is_symbol_table (symbol_table s') nd s'" if nd: "gc_heap s' (symbol_table s') = Some nd" for nd
  proof -
    obtain nd0 where nd0: "gc_heap s (symbol_table s) = Some nd0" using nd D(2,3) by (metis not_None_eq)
    then have "is_symbol_table (symbol_table s) nd0 s" using wf by (simp add: wf_heap_def)
    moreover have "gc_type_data nd = gc_type_data nd0" using same_values_data [OF sv] nd nd0 D(2) by metis
    ultimately show ?thesis using D(2) by (auto simp: is_symbol_table_def split: gc_data.splits)
  qed
  then show "wf_heap s'" using wf D(2,4,5) by (simp add: wf_heap_def)
qed

subsection \<open>The state while the white structures are collected\<close>

text \<open>Structures \<open>gc_collect_white\<close> records: arrays, and objects whose values it can ask for.\<close>

definition buffered :: "gc_globals \<Rightarrow> gc_ref \<Rightarrow> bool" where
  "buffered s x \<longleftrightarrow> (case gc_heap s x of None \<Rightarrow> False | Some nd \<Rightarrow>
     (case gc_type_data nd of
        GC_ARRAY _ \<Rightarrow> True
      | GC_OBJECT ob \<Rightarrow> \<not> gco_free_called ob \<and> gco_get_gc ob \<noteq> None
      | _ \<Rightarrow> False))"

definition collected :: "gc_globals \<Rightarrow> gc_globals \<Rightarrow> gc_ref set" where
  "collected s2 s = {x. color s2 x = GC_WHITE \<and> color s x = GC_BLACK}"

definition recorded :: "gc_globals \<Rightarrow> root_ptr list \<Rightarrow> gc_globals \<Rightarrow> root_ptr list \<Rightarrow> bool" where
  "recorded s2 xs s new \<longleftrightarrow> roots_of s ROOTS (new @ xs) \<and> storage s (new @ xs) \<and> addressed s (new @ xs) \<and>
     same_lists s2 s xs \<and> no_stale s (new @ xs) \<and>
     ref_of s ` set new = Some ` {x \<in> collected s2 s. buffered s2 x \<and> Some x \<notin> ref_of s2 ` set xs}"

definition white_state :: "gc_globals \<Rightarrow> root_ptr list \<Rightarrow> gc_globals \<Rightarrow> bool" where
  "white_state s2 xs s \<longleftrightarrow> wf_heap s2 \<and> color s2 (symbol_table s2) = GC_BLACK \<and> same_values s2 s \<and>
     (\<forall>x. color s x = color s2 x \<or> (color s2 x = GC_WHITE \<and> color s x = GC_BLACK)) \<and> (\<exists>new. recorded s2 xs s new)"

text \<open>No white object has a destructor; then the flags stay.\<close>

definition quiet :: "gc_globals \<Rightarrow> bool" where
  "quiet s \<longleftrightarrow> (\<forall>x nd ob. gc_heap s x = Some nd \<longrightarrow> gc_type_data nd = GC_OBJECT ob \<longrightarrow> color s x = GC_WHITE \<longrightarrow>
     gc_destructor_of ob = None)"

definition counting_ok :: "gc_globals \<Rightarrow> root_ptr list \<Rightarrow> u32 \<Rightarrow> counting \<Rightarrow> bool" where
  "counting_ok s2 xs flags c \<longleftrightarrow> white_state s2 xs (snd (snd c)) \<and> (quiet s2 \<longrightarrow> fst (snd c) = flags)"

definition whites :: "gc_globals \<Rightarrow> gc_ref set" where
  "whites s = {x. color s x = GC_WHITE}"

lemma whites_allocated: "whites s \<subseteq> dom (gc_heap s)"
proof
  fix x assume "x \<in> whites s"
  then have "color s x \<noteq> GC_BLACK" by (simp add: whites_def)
  then show "x \<in> dom (gc_heap s)" by (rule color_allocated)
qed

lemma recorded_cong:
  assumes "recorded s2 xs s new" "gc_heap s x = Some nd" "GC_ADDRESS (gc_info nd') = GC_ADDRESS (gc_info nd)"
  defines "s' \<equiv> s\<lparr>gc_heap := (gc_heap s)(x \<mapsto> nd')\<rparr>"
  assumes "{x \<in> collected s2 s'. buffered s2 x \<and> Some x \<notin> ref_of s2 ` set xs} =
    {x \<in> collected s2 s. buffered s2 x \<and> Some x \<notin> ref_of s2 ` set xs}"
  shows "recorded s2 xs s' new"
  using assms(1,5) addressed_node [OF assms(2,3)] by (simp add: recorded_def s'_def same_lists_def no_stale_def)

lemma white_addref:
  assumes ok: "white_state s2 xs s" and q: "q \<in> dom (gc_heap s2)"
  shows "\<exists>s1. GC_ADDREF q s = Inr s1 \<and> white_state s2 xs s1 \<and> color s1 = color s \<and> rc s1 = (rc s)(q := rc s q + 1)"
proof -
  have sv: "same_values s2 s" using ok by (simp add: white_state_def)
  obtain nd where nd: "gc_heap s q = Some nd" using q same_valuesD(4) [OF sv] by auto
  obtain new where new: "recorded s2 xs s new" using ok by (auto simp: white_state_def)
  let ?nd = "nd\<lparr>gc_refcount := gc_refcount nd + 1\<rparr>"
  let ?s = "s\<lparr>gc_heap := (gc_heap s)(q \<mapsto> ?nd)\<rparr>"
  have c: "color ?s = color s" "rc ?s = (rc s)(q := rc s q + 1)"
    using node_read [OF nd] by (auto simp: node_changed fun_eq_iff)
  have "recorded s2 xs ?s new" by (rule recorded_cong [OF new nd]) (simp_all add: collected_def c(1))
  moreover have "same_values s2 ?s" by (rule same_values_node [OF sv nd]) simp
  ultimately have "white_state s2 xs ?s" using ok unfolding white_state_def c(1) by blast
  moreover have "GC_ADDREF q s = Inr ?s" using nd by (simp add: GC_ADDREF_def node_ops)
  ultimately show ?thesis using c by blast
qed

text \<open>The entry of a structure that has none yet.\<close>

lemma addressed_new:
  assumes ad: "addressed s xs" and nd: "gc_heap s x = Some nd" "GC_ADDRESS (gc_info nd) = 0"
    and use: "\<forall>p\<in>set xs. in_use s p" "limits_ok s"
    and s': "p \<notin> set xs" "ref_of s' p = Some x" "\<forall>q\<in>set xs. ref_of s' q = ref_of s q"
      "gc_heap s' = (gc_heap s)(x \<mapsto> nd\<lparr>gc_info := v\<rparr>)" "GC_ADDRESS v = of_nat (root_addr p)"
  shows "addressed s' (p # xs)" "\<forall>q\<in>set xs. ref_of s q \<noteq> Some x"
proof -
  show nx: "\<forall>q\<in>set xs. ref_of s q \<noteq> Some x"
  proof
    fix q assume q: "q \<in> set xs"
    then obtain y nd' where y: "ref_of s q = Some y" "gc_heap s y = Some nd'" "GC_ADDRESS (gc_info nd') = of_nat (root_addr q)"
      using ad unfolding addressed_def by blast
    have "(of_nat (root_addr q) :: u16) \<noteq> 0"
      using in_use_addr(1,2) [OF _ use(2), of q] use(1) q small_info(4) [of "root_addr q"] by auto
    then have "y \<noteq> x" using y nd by auto
    then show "ref_of s q \<noteq> Some x" using y(1) by simp
  qed
  have inj: "inj_on (ref_of s) (set xs)" using ad by (simp add: addressed_def)
  have "inj_on (ref_of s') (set (p # xs))"
  proof (rule inj_onI)
    fix a b assume "a \<in> set (p # xs)" "b \<in> set (p # xs)" "ref_of s' a = ref_of s' b"
    then show "a = b" using inj nx s'(2,3) unfolding inj_on_def by (metis set_ConsD)
  qed
  moreover have "\<exists>y nd'. ref_of s' q = Some y \<and> gc_heap s' y = Some nd' \<and> GC_ADDRESS (gc_info nd') = of_nat (root_addr q)"
    if "q \<in> set (p # xs)" for q
  proof (cases "q = p")
    case True
    then show ?thesis using s'(2,4,5) by simp
  next
    case False
    then have q: "q \<in> set xs" using that by simp
    then obtain y nd' where y: "ref_of s q = Some y" "gc_heap s y = Some nd'" "GC_ADDRESS (gc_info nd') = of_nat (root_addr q)"
      using ad unfolding addressed_def by blast
    then show ?thesis using s'(3,4) q nx by auto
  qed
  moreover have "GC_ADDRESS (gc_info nd') = 0" if "gc_heap s' y = Some nd'" "\<forall>q\<in>set (p # xs). ref_of s' q \<noteq> Some y" for y nd'
  proof -
    have "y \<noteq> x" using that(2) s'(2) by auto
    then have "gc_heap s y = Some nd'" "\<forall>q\<in>set xs. ref_of s q \<noteq> Some y" using that s'(3,4) by auto
    then show ?thesis using ad unfolding addressed_def by blast
  qed
  ultimately show "addressed s' (p # xs)" unfolding addressed_def by blast
qed

lemma info_black: "GC_INFO_SET_BLACK v = GC_ADDRESS v"
  by (simp add: GC_INFO_SET_BLACK_def GC_ADDRESS_def)

lemma add_if_new_spec:
  assumes ok: "white_state s2 xs s" and nd: "gc_heap s q = Some nd" and w: "color s q = GC_WHITE" and b: "buffered s2 q"
  defines "s1 \<equiv> s\<lparr>gc_heap := (gc_heap s)(q \<mapsto> nd\<lparr>gc_info := GC_INFO_SET_BLACK (gc_info nd)\<rparr>)\<rparr>"
  shows "\<exists>s' new. add_if_new q s1 = Inr s' \<and> recorded s2 xs s' new \<and> same_values s2 s' \<and>
    color s' = (color s)(q := GC_BLACK) \<and> rc s' = rc s"
proof -
  let ?nd = "nd\<lparr>gc_info := GC_INFO_SET_BLACK (gc_info nd)\<rparr>"
  have sv: "same_values s2 s" using ok by (simp add: white_state_def)
  obtain new where new: "recorded s2 xs s new" using ok by (auto simp: white_state_def)
  have q2: "color s2 q = GC_WHITE" using ok w unfolding white_state_def by (metis color_consts(3))
  have sv1: "same_values s2 s1" unfolding s1_def by (rule same_values_node [OF sv nd]) simp
  have c1: "color s1 = (color s)(q := GC_BLACK)" "rc s1 = rc s"
    using node_read [OF nd] by (auto simp: s1_def node_changed fun_eq_iff)
  have col: "collected s2 s1 = insert q (collected s2 s)" using q2 c1 by (auto simp: collected_def)
  have nd1: "gc_heap s1 q = Some ?nd" by (simp add: s1_def)
  note R = new [unfolded recorded_def]
  have ad: "addressed s (new @ xs)" using R by blast
  have notnew: "ref_of s p \<noteq> Some q" if "p \<in> set new" for p
  proof
    assume "ref_of s p = Some q"
    then have "Some q \<in> ref_of s ` set new" using that by force
    then have "q \<in> collected s2 s" using R by auto
    then show False using w by (simp add: collected_def)
  qed
  show ?thesis
  proof (cases "gc_info ?nd = 0")
    case False
    then have "GC_ADDRESS (gc_info nd) \<noteq> 0" by (simp add: info_black)
    then obtain p where "p \<in> set (new @ xs)" "ref_of s p = Some q" using ad nd unfolding addressed_def by blast
    then have "p \<in> set xs" "ref_of s p = Some q" using notnew by auto
    then have inx: "Some q \<in> ref_of s2 ` set xs" using R by (force simp: same_lists_def)
    have "recorded s2 xs s1 new"
      unfolding s1_def by (rule recorded_cong [OF new nd]) (use col inx in \<open>auto simp: s1_def\<close>)
    moreover have "add_if_new q s1 = Inr s1" using nd1 False by (simp add: add_if_new_def node_ops)
    ultimately show ?thesis using sv1 c1 by blast
  next
    case True
    have st1: "storage s1 (new @ xs)" "roots_of s1 ROOTS (new @ xs)" "addressed s1 (new @ xs)"
      using R addressed_node [OF nd, of ?nd "new @ xs"] by (simp_all add: s1_def)
    have a0: "GC_ADDRESS (gc_info ?nd) = 0" using True by (simp add: GC_ADDRESS_def)
    obtain p s' where s': "gc_add_garbage q s1 = Inr s'" "p \<notin> set (new @ xs)" "storage s' (p # new @ xs)"
        "roots_of s' ROOTS (p # new @ xs)" "ref_of s' p = Some q"
        "gc_heap s' = (gc_heap s1)(q \<mapsto> ?nd\<lparr>gc_info := of_nat (root_addr p)\<rparr>)" "same_lists s1 s' (new @ xs)"
        "no_stale s1 (new @ xs) \<longrightarrow> no_stale s' (p # new @ xs)"
      using add_garbage_spec [OF st1(1,2) nd1] by blast
    have ref: "\<forall>r\<in>set (new @ xs). ref_of s' r = ref_of s r" using s'(7) by (auto simp: same_lists_def s1_def)
    have ref1: "\<forall>r\<in>set (new @ xs). ref_of s' r = ref_of s1 r" using s'(7) by (simp add: same_lists_def)
    have use: "\<forall>p\<in>set (new @ xs). in_use s1 p" "limits_ok s1" using st1(1) by (auto simp: storage_def)
    have "in_use s' p" "limits_ok s'" using s'(3) by (simp_all add: storage_def)
    note small = small_info [OF in_use_addr(2) [OF this]]
    note N = addressed_new [OF st1(3) nd1 a0 use s'(2,5) ref1 s'(6) small(2)]
    have c': "color s' = color s1" "rc s' = rc s1"
      using small(1) c1 nd nd1 s'(6) by (auto simp: color_def rc_def fun_eq_iff)
    have sv': "same_values s2 s'"
    proof -
      have "same_values s2 (s1\<lparr>gc_heap := (gc_heap s1)(q \<mapsto> ?nd\<lparr>gc_info := of_nat (root_addr p)\<rparr>)\<rparr>)"
        by (rule same_values_node [OF sv1 nd1]) simp
      then show ?thesis using s'(6,7) by (simp add: same_values_def same_lists_def)
    qed
    have nq: "Some q \<notin> ref_of s2 ` set xs" using N(2) R by (force simp: s1_def same_lists_def)
    have "ref_of s' ` set (p # new) = Some ` {x \<in> collected s2 s'. buffered s2 x \<and> Some x \<notin> ref_of s2 ` set xs}"
    proof -
      have "ref_of s' ` set new = ref_of s ` set new" using ref by auto
      moreover have "collected s2 s' = insert q (collected s2 s)" using col c' by (simp add: collected_def)
      ultimately show ?thesis using R s'(5) nq b by auto
    qed
    moreover have "same_lists s2 s' xs" using R s'(7) ref by (auto simp: same_lists_def s1_def)
    moreover have "no_stale s' (p # new @ xs)" using R s'(8) by (simp add: s1_def no_stale_def)
    ultimately have "recorded s2 xs s' (p # new)" using s'(3,4) N(1) unfolding recorded_def by simp
    moreover have "add_if_new q s1 = Inr s'" using nd1 True s'(1) by (simp add: add_if_new_def node_ops)
    ultimately show ?thesis using sv' c' c1 by auto
  qed
qed

lemma enter_white_spec:
  assumes ok: "white_state s2 xs s" and nd: "gc_heap s q = Some nd" and w: "color s q = GC_WHITE"
  defines "s1 \<equiv> s\<lparr>gc_heap := (gc_heap s)(q \<mapsto> nd\<lparr>gc_info := GC_INFO_SET_BLACK (gc_info nd)\<rparr>)\<rparr>"
  shows "\<exists>flags' s'. enter_white q nd (num, flags, s1) = Inr (num, flags', s') \<and> white_state s2 xs s' \<and>
    color s' = (color s)(q := GC_BLACK) \<and> rc s' = rc s \<and> (quiet s2 \<longrightarrow> flags' = flags)"
proof -
  have sv: "same_values s2 s" using ok by (simp add: white_state_def)
  obtain nd2 where nd2: "gc_heap s2 q = Some nd2" using nd same_valuesD(3) [OF sv, of q] by fastforce
  have data: "gc_type_data nd2 = gc_type_data nd" using same_values_data [OF sv nd nd2] by simp
  have q2: "color s2 q = GC_WHITE" using ok w unfolding white_state_def by (metis color_consts(3))
  have ws: "white_state s2 xs s'" if "recorded s2 xs s' new" "same_values s2 s'" "color s' = (color s)(q := GC_BLACK)" for s' new
    using ok that q2 unfolding white_state_def by (metis fun_upd_apply)
  show ?thesis
  proof (cases "buffered s2 q")
    case True
    obtain s' new where s': "add_if_new q s1 = Inr s'" "recorded s2 xs s' new" "same_values s2 s'"
        "color s' = (color s)(q := GC_BLACK)" "rc s' = rc s"
      using add_if_new_spec [OF ok nd w True] unfolding s1_def by blast
    have "gc_destructor_of ob = None" if "quiet s2" "gc_type_data nd = GC_OBJECT ob" for ob
      using that nd2 data q2 by (simp add: quiet_def)
    then have "\<exists>flags'. enter_white q nd (num, flags, s1) = Inr (num, flags', s') \<and> (quiet s2 \<longrightarrow> flags' = flags)"
      using True nd2 data s'(1) by (auto simp: buffered_def enter_white_def counting_state_def split: gc_data.splits)
    then show ?thesis using ws [OF s'(2-4)] s'(4,5) by blast
  next
    case False
    have c1: "color s1 = (color s)(q := GC_BLACK)" "rc s1 = rc s"
      using node_read [OF nd] by (auto simp: s1_def node_changed fun_eq_iff)
    have "collected s2 s1 = insert q (collected s2 s)" using q2 c1 by (auto simp: collected_def)
    obtain new where new: "recorded s2 xs s new" using ok by (auto simp: white_state_def)
    have "recorded s2 xs s1 new"
      unfolding s1_def
      by (rule recorded_cong [OF new nd]) (use \<open>collected s2 s1 = _\<close> False in \<open>auto simp: s1_def\<close>)
    moreover have "same_values s2 s1" unfolding s1_def by (rule same_values_node [OF sv nd]) simp
    moreover have "enter_white q nd (num, flags, s1) = Inr (num, flags, s1)"
      using False nd2 data by (auto simp: buffered_def enter_white_def split: gc_data.splits)
    ultimately show ?thesis using ws c1 by blast
  qed
qed

lemma visit_white_spec:
  assumes ok: "counting_ok s2 xs fl c" and q: "q \<in> dom (gc_heap s2)"
  shows "\<exists>c1. visit_white n q c = gc_collect_white n q c1 \<and> counting_ok s2 xs fl c1 \<and>
    whites (snd (snd c1)) = whites (snd (snd c)) \<and> rc (snd (snd c1)) = (rc (snd (snd c)))(q := rc (snd (snd c)) q + 1)"
proof -
  obtain num flags s where c: "c = (num, flags, s)" by (cases c)
  obtain s1 where "GC_ADDREF q s = Inr s1" "white_state s2 xs s1" "color s1 = color s" "rc s1 = (rc s)(q := rc s q + 1)"
    using white_addref [of s2 xs s q] ok q c by (auto simp: counting_ok_def)
  then show ?thesis using c ok
    by (intro exI [of _ "(num, flags, s1)"]) (simp add: visit_white_def counting_state_def whites_def counting_ok_def)
qed

lemma white_enter:
  assumes ok: "counting_ok s2 xs fl c" and q: "q \<in> whites (snd (snd c))"
  shows "\<exists>c1 k. gc_collect_white (Suc n) q c = res_map (add_count k) (for_each (visit_white n) (kids s2 q) c1) \<and>
    counting_ok s2 xs fl c1 \<and> whites (snd (snd c1)) = whites (snd (snd c)) - {q} \<and>
    rc (snd (snd c1)) = rc (snd (snd c))"
proof -
  obtain num flags s where c: "c = (num, flags, s)" by (cases c)
  have ok': "white_state s2 xs s" and w: "color s q = GC_WHITE" and fl: "quiet s2 \<longrightarrow> flags = fl"
    using ok q c by (auto simp: whites_def counting_ok_def)
  then have sv: "same_values s2 s" by (simp add: white_state_def)
  obtain nd where nd: "gc_heap s q = Some nd" using color_allocated [of s q] w by auto
  let ?s1 = "s\<lparr>gc_heap := (gc_heap s)(q \<mapsto> nd\<lparr>gc_info := GC_INFO_SET_BLACK (gc_info nd)\<rparr>)\<rparr>"
  obtain flags' s' where s': "enter_white q nd (num, flags, ?s1) = Inr (num, flags', s')" "white_state s2 xs s'"
      "color s' = (color s)(q := GC_BLACK)" "rc s' = rc s" "quiet s2 \<longrightarrow> flags' = flags"
    using enter_white_spec [OF ok' nd w] by blast
  obtain k where k: "gc_collect_white (Suc n) q c =
      res_bind (counting_state (GC_REF_SET_BLACK q) c) (\<lambda>c.
      res_bind (enter_white q nd c) (\<lambda>c. res_map (add_count k) (for_each (visit_white n) (node_refs (snd (snd c)) nd) c)))"
    using collect_white_enter [of q c nd n] nd w c by (auto simp: node_ops node_read)
  have "counting_state (GC_REF_SET_BLACK q) c = Inr (num, flags, ?s1)"
    using nd c by (simp add: counting_state_def GC_REF_SET_BLACK_def node_ops)
  then have eq: "gc_collect_white (Suc n) q c = res_map (add_count k) (for_each (visit_white n) (node_refs s' nd) (num, flags', s'))"
    using k s'(1) by simp
  have "node_refs s' nd = kids s2 q"
  proof -
    have f: "gc_slots s' = gc_slots s" "symbol_table s' = symbol_table s"
      using s'(2) same_valuesD(1,2) sv unfolding white_state_def by metis+
    have "color s (symbol_table s2) = GC_BLACK" using ok' unfolding white_state_def by metis
    then have "q \<noteq> symbol_table s" using w same_valuesD(2) [OF sv] by auto
    then have "\<not> is_symbol_table q nd s" by (auto simp: is_symbol_table_def split: gc_data.splits)
    then show ?thesis using node_refs_cong(1) [OF f, of nd] nd fun_cong [OF same_valuesD(5) [OF sv], of q] by (simp add: kids_def [of s q])
  qed
  then show ?thesis using eq s' c fl
    by (intro exI [of _ "(num, flags', s')"] exI [of _ k]) (auto simp: whites_def counting_ok_def)
qed

interpretation white: graph_walk "counting_ok s2 xs fl" "dom (gc_heap s2)" "kids s2"
  "\<lambda>c. whites (snd (snd c))" "\<lambda>c. rc (snd (snd c))" 1 visit_white gc_collect_white
  for s2 xs fl
proof (unfold_locales, goal_cases)
  case (2 c)
  have "dom (gc_heap (snd (snd c))) = dom (gc_heap s2)" using 2 same_valuesD(4) by (auto simp: counting_ok_def white_state_def)
  then show ?case using whites_allocated by blast
next
  case (4 c q n)
  have "dom (gc_heap (snd (snd c))) = dom (gc_heap s2)" using 4 same_valuesD(4) by (auto simp: counting_ok_def white_state_def)
  then have "q \<in> dom (gc_heap s2)" using 4(2) color_allocated [of "snd (snd c)" q] by (auto simp: whites_def)
  then show ?case using visit_white_spec [OF 4(1)] by blast
next
  case (5 c q n)
  obtain c1 where c1: "visit_white (Suc n) q c = gc_collect_white (Suc n) q c1" "counting_ok s2 xs fl c1"
      "whites (snd (snd c1)) = whites (snd (snd c))" "rc (snd (snd c1)) = (rc (snd (snd c)))(q := rc (snd (snd c)) q + 1)"
    using visit_white_spec [OF 5(1,2)] by blast
  have "dom (gc_heap (snd (snd c1))) = dom (gc_heap s2)" using c1(2) same_valuesD(4) by (auto simp: counting_ok_def white_state_def)
  then obtain nd where nd: "gc_heap (snd (snd c1)) q = Some nd" using 5(2) by auto
  have "GC_REF_GET_COLOR nd \<noteq> GC_WHITE" using 5(3) c1(3) node_read [OF nd] by (auto simp: whites_def)
  then have "gc_collect_white (Suc n) q c1 = Inr c1" using nd by (simp add: node_ops)
  then show ?case using c1 by auto
next
  case (6 c q n)
  obtain c1 k where "gc_collect_white (Suc n) q c = res_map (add_count k) (for_each (visit_white n) (kids s2 q) c1)"
      "counting_ok s2 xs fl c1" "whites (snd (snd c1)) = whites (snd (snd c)) - {q}" "rc (snd (snd c1)) = rc (snd (snd c))"
    using white_enter [OF 6] by blast
  then show ?case by (intro exI [of _ c1] exI [of _ "add_count k"]) (simp add: counting_ok_def)
qed (auto simp: counting_ok_def white_state_def wf_heap_def)

subsection \<open>Dropping the entries of black structures\<close>

text \<open>The lists, storage and headers at one point of the loop.\<close>

definition listed :: "gc_globals \<Rightarrow> root_ptr list \<Rightarrow> bool" where
  "listed s xs \<longleftrightarrow> roots_of s ROOTS xs \<and> storage s xs \<and> addressed s xs"

definition same_headers :: "gc_globals \<Rightarrow> gc_globals \<Rightarrow> bool" where
  "same_headers s t \<longleftrightarrow> same_values s t \<and> color t = color s \<and> rc t = rc s"

lemma addressed_drop:
  assumes ad: "addressed s (ks @ p # rs)" and x: "ref_of s p = Some x" "gc_heap s x = Some nd"
    and t: "\<forall>q\<in>set (ks @ rs). ref_of t q = ref_of s q" "gc_heap t = (gc_heap s)(x \<mapsto> nd\<lparr>gc_info := 0\<rparr>)"
    and p: "p \<notin> set (ks @ rs)"
  shows "addressed t (ks @ rs)"
proof -
  have inj: "inj_on (ref_of s) (set (ks @ p # rs))" using ad by (simp add: addressed_def)
  then have nx: "ref_of s q \<noteq> Some x" if "q \<in> set (ks @ rs)" for q
    using that x(1) p unfolding inj_on_def by (metis Un_iff list.set_intros(1,2) set_append)
  have "inj_on (ref_of t) (set (ks @ rs))"
    using inj t(1) unfolding inj_on_def by (metis Un_iff list.set_intros(2) set_append)
  moreover have "\<exists>y nd'. ref_of t q = Some y \<and> gc_heap t y = Some nd' \<and> GC_ADDRESS (gc_info nd') = of_nat (root_addr q)"
    if "q \<in> set (ks @ rs)" for q
  proof -
    have "q \<in> set (ks @ p # rs)" using that by auto
    then obtain y nd' where "ref_of s q = Some y" "gc_heap s y = Some nd'" "GC_ADDRESS (gc_info nd') = of_nat (root_addr q)"
      using ad unfolding addressed_def by blast
    then show ?thesis using nx [OF that] t that by auto
  qed
  moreover have "GC_ADDRESS (gc_info nd') = 0" if "gc_heap t y = Some nd'" "\<forall>q\<in>set (ks @ rs). ref_of t q \<noteq> Some y" for y nd'
  proof (cases "y = x")
    case True
    then show ?thesis using that(1) t(2) by (auto simp: GC_ADDRESS_def)
  next
    case False
    then have "gc_heap s y = Some nd'" "\<forall>q\<in>set (ks @ p # rs). ref_of s q \<noteq> Some y" using that t x(1) by auto
    then show ?thesis using ad unfolding addressed_def by blast
  qed
  ultimately show ?thesis unfolding addressed_def by blast
qed

lemma drop_step:
  assumes l: "listed t (ks @ p # rs)" and r: "ref_of t p = Some r"
  shows "\<exists>t'. drop_black p t = Inr (hd (rs @ [ROOTS]), t') \<and> same_headers t t' \<and> same_lists t t' (ks @ rs) \<and>
    additional_buffer t' = additional_buffer t \<and> (if color t r = GC_BLACK then listed t' (ks @ rs) else t' = t)"
proof -
  have L: "roots_of t ROOTS (ks @ p # rs)" "storage t (ks @ p # rs)" "addressed t (ks @ p # rs)" using l by (simp_all add: listed_def)
  note N = ring_next [OF L(1)]
  have dist: "p \<notin> set (ks @ rs)" using L(1) by (auto simp: ring_def)
  obtain b where b: "root_at p t = Inr b" "root_next b = hd (rs @ [ROOTS])" "root_ref b = r"
    using entry_ops(1) [of t p] N(1) r by auto
  have "\<exists>x nd. ref_of t p = Some x \<and> gc_heap t x = Some nd \<and> GC_ADDRESS (gc_info nd) = of_nat (root_addr p)"
    using L(3) unfolding addressed_def by auto
  then obtain nd where nd: "gc_heap t r = Some nd" "GC_ADDRESS (gc_info nd) = of_nat (root_addr p)" using r by auto
  have use: "in_use t p" "limits_ok t" using L(2) by (auto simp: storage_def)
  have addr: "unat (GC_ADDRESS (gc_info nd)) = root_addr p" using nd(2) small_info(3) [OF in_use_addr(2) [OF use]] by simp
  show ?thesis
  proof (cases "color t r = GC_BLACK")
    case False
    then show ?thesis using b nd node_read [OF nd(1)]
      by (auto simp: drop_black_def node_ops same_headers_def same_lists_def)
  next
    case True
    obtain t1 where t1: "(if root_addr p < GC_ROOT_BUFFER_MAX_ENTRIES then gc_remove_from_roots p t
        else gc_remove_from_additional_roots p t) = Inr t1" "gc_heap t1 = gc_heap t" "same_lists t t1 (ks @ rs)"
        "storage t1 (ks @ rs)" "roots_of t1 ROOTS (ks @ rs)" "additional_buffer t1 = additional_buffer t"
      using remove_storage [OF L(2,1)] by blast
    let ?t = "t1\<lparr>gc_heap := (gc_heap t1)(r \<mapsto> nd\<lparr>gc_info := 0\<rparr>)\<rparr>"
    have "drop_black p t = Inr (hd (rs @ [ROOTS]), ?t)"
      using b nd(1) node_read [OF nd(1)] True t1(1,2) addr
      by (simp add: drop_black_def node_ops GC_SET_INFO_def)
    moreover have "addressed ?t (ks @ rs)"
      by (rule addressed_drop [OF L(3) r nd(1) _ _ dist]) (use t1(2,3) in \<open>auto simp: same_lists_def\<close>)
    moreover have "same_headers t ?t"
    proof -
      have "GC_INFO_GET_COLOR 0 = GC_BLACK" by (simp add: GC_INFO_GET_COLOR_def GC_BLACK_def)
      then have "color ?t = color t" "rc ?t = rc t"
        using t1(2) nd(1) True by (auto simp: color_def rc_def fun_eq_iff)
      moreover have "same_values t ?t"
      proof -
        have "same_values t (t\<lparr>gc_heap := (gc_heap t)(r \<mapsto> nd\<lparr>gc_info := 0\<rparr>)\<rparr>)" by (rule same_values_node [OF _ nd(1)]) simp_all
        then show ?thesis using t1(2,3) by (simp add: same_values_def same_lists_def)
      qed
      ultimately show ?thesis by (simp add: same_headers_def)
    qed
    moreover have "same_lists t ?t (ks @ rs)" using t1(3) by (simp add: same_lists_def)
    ultimately show ?thesis using t1(4-6) True by (auto simp: listed_def)
  qed
qed

lemma same_headers_trans: "same_headers s t \<Longrightarrow> same_headers t u \<Longrightarrow> same_headers s u"
  by (simp add: same_headers_def same_values_def)

definition keeps :: "gc_globals \<Rightarrow> root_ptr \<Rightarrow> bool" where
  "keeps s p \<longleftrightarrow> color s (the (ref_of s p)) \<noteq> GC_BLACK"

lemma drop_loop_spec:
  assumes l: "listed s xs"
  shows "\<exists>s2. from_first drop_black ROOTS s = Some (Inr s2) \<and> listed s2 (filter (keeps s) xs) \<and> same_headers s s2 \<and>
    same_lists s s2 (filter (keeps s) xs) \<and> additional_buffer s2 = additional_buffer s"
proof -
  let ?P = "\<lambda>ps t. \<exists>done. xs = done @ ps \<and> listed t (filter (keeps s) done @ ps) \<and> same_headers s t \<and>
    same_lists s t (filter (keeps s) done @ ps) \<and> additional_buffer t = additional_buffer s"
  have first: "nxt s ROOTS = Some (hd (xs @ [ROOTS]))" using l by (auto simp: listed_def ring_def dest: chain_first)
  have "\<exists>s2. list_loop drop_black ROOTS (hd (xs @ [ROOTS])) s = Some (Inr s2) \<and> ?P [] s2"
  proof (rule list_loop_inv [where P = ?P])
    show "?P xs s" using l by (auto simp: same_headers_def same_lists_def)
    fix p ps t assume "?P (p # ps) t"
    then obtain dn where dn: "xs = dn @ p # ps" "listed t (filter (keeps s) dn @ p # ps)" "same_headers s t"
        "same_lists s t (filter (keeps s) dn @ p # ps)" "additional_buffer t = additional_buffer s" by blast
    let ?ks = "filter (keeps s) dn"
    have "addressed t (?ks @ p # ps)" using dn(2) by (simp add: listed_def)
    then obtain r where r: "ref_of t p = Some r" unfolding addressed_def by force
    have rs: "ref_of s p = Some r" using dn(4) r by (simp add: same_lists_def)
    have k: "keeps s p \<longleftrightarrow> color t r \<noteq> GC_BLACK" using rs dn(3) by (simp add: keeps_def same_headers_def)
    obtain t' where t': "drop_black p t = Inr (hd (ps @ [ROOTS]), t')" "same_headers t t'" "same_lists t t' (?ks @ ps)"
        "if color t r = GC_BLACK then listed t' (?ks @ ps) else t' = t" "additional_buffer t' = additional_buffer t"
      using drop_step [OF dn(2) r] by blast
    have "roots_of t ROOTS (?ks @ p # ps)" using dn(2) by (simp add: listed_def)
    then have "p \<noteq> ROOTS" by (rule ring_next(2))
    moreover have "?P ps t'"
    proof (intro exI [of _ "dn @ [p]"] conjI)
      show "listed t' (filter (keeps s) (dn @ [p]) @ ps)" using t'(4) k dn(2) by (auto split: if_splits)
      show "same_lists s t' (filter (keeps s) (dn @ [p]) @ ps)"
        using dn(4) t'(3,4) k by (auto simp: same_lists_def split: if_splits)
    qed (use dn t'(5) same_headers_trans [OF dn(3) t'(2)] in auto)
    ultimately show "p \<noteq> ROOTS \<and> (\<exists>s'. drop_black p t = Inr (hd (ps @ [ROOTS]), s') \<and> ?P ps s')" using t'(1) by blast
  qed
  moreover obtain b where "root_at ROOTS s = Inr b" "root_next b = hd (xs @ [ROOTS])" using entry_ops(1) [of s ROOTS] first by auto
  ultimately show ?thesis by (auto simp: from_first_def run_bind_def)
qed

subsection \<open>Collecting from the entries that are left\<close>

definition collect_inv :: "gc_globals \<Rightarrow> root_ptr list \<Rightarrow> root_ptr list \<Rightarrow> gc_globals \<Rightarrow> bool" where
  "collect_inv s2 xs done t \<longleftrightarrow> white_state s2 xs t \<and>
     (\<forall>x. rc t x = rc s2 x + of_nat (edges_into (kids s2) (collected s2 t) x)) \<and>
     (\<forall>x\<in>collected s2 t. \<forall>y\<in>set (kids s2 x). y \<notin> whites t) \<and>
     (\<forall>p\<in>set done. \<forall>r. ref_of s2 p = Some r \<longrightarrow> r \<notin> whites t)"

lemma collect_root_step:
  assumes inv: "collect_inv s2 xs dn (snd (snd c))" and xs: "xs = dn @ p # rest" and n: "card (dom (gc_heap s2)) < depth"
  shows "\<exists>c'. collect_root depth p c = Inr (hd (rest @ [ROOTS]), c') \<and> collect_inv s2 xs (dn @ [p]) (snd (snd c')) \<and>
    (quiet s2 \<longrightarrow> fst (snd c') = fst (snd c)) \<and> p \<noteq> ROOTS"
proof -
  let ?t = "snd (snd c)"
  have I: "white_state s2 xs ?t" "\<And>x. rc ?t x = rc s2 x + of_nat (edges_into (kids s2) (collected s2 ?t) x)"
      "\<And>x y. x \<in> collected s2 ?t \<Longrightarrow> y \<in> set (kids s2 x) \<Longrightarrow> y \<notin> whites ?t"
      "\<And>p r. p \<in> set dn \<Longrightarrow> ref_of s2 p = Some r \<Longrightarrow> r \<notin> whites ?t"
    using inv unfolding collect_inv_def by blast+
  have next_ok: "nxt t p = Some (hd (rest @ [ROOTS])) \<and> p \<noteq> ROOTS \<and> ref_of t p = ref_of s2 p \<and> ref_of t p \<noteq> None"
    if ws: "white_state s2 xs t" for t
  proof -
    obtain new where new: "recorded s2 xs t new" using ws by (auto simp: white_state_def)
    then have "roots_of t ROOTS ((new @ dn) @ p # rest)" "addressed t (new @ xs)" "same_lists s2 t xs"
      by (simp_all add: recorded_def xs)
    then show ?thesis using ring_next [of "nxt t" "prv t" ROOTS "new @ dn" p rest] xs
      by (auto simp: addressed_def same_lists_def)
  qed
  obtain r where r: "ref_of ?t p = Some r" "ref_of s2 p = Some r" using next_ok [OF I(1)] by (metis not_None_eq)
  obtain b where b: "root_at p ?t = Inr b" "root_ref b = r" using entry_ops(1) [of ?t p] next_ok [OF I(1)] r by auto
  obtain new where "addressed ?t (new @ xs)" using I(1) by (auto simp: white_state_def recorded_def)
  then obtain nd where nd: "gc_heap ?t r = Some nd" using r(1) xs unfolding addressed_def by force
  have sv: "same_values s2 ?t" "wf_heap s2" using I(1) by (simp_all add: white_state_def)
  have fin: "finite (dom (gc_heap s2))" using sv(2) by (simp add: wf_heap_def)
  have "\<exists>c'. (if GC_REF_GET_COLOR nd = GC_WHITE then gc_collect_white depth r c else Inr c) = Inr c' \<and>
      collect_inv s2 xs (dn @ [p]) (snd (snd c')) \<and> (quiet s2 \<longrightarrow> fst (snd c') = fst (snd c))"
  proof (cases "r \<in> whites ?t")
    case False
    then show ?thesis using node_read [OF nd] inv r(2) by (auto simp: collect_inv_def whites_def)
  next
    case True
    have "whites ?t \<subseteq> dom (gc_heap s2)" using whites_allocated same_valuesD(4) [OF sv(1)] by blast
    then have "card (whites ?t) < depth" using card_mono [OF fin, of "whites ?t"] n by linarith
    moreover have "counting_ok s2 xs (fst (snd c)) c" using I(1) by (simp add: counting_ok_def)
    ultimately obtain c' N where w: "gc_collect_white depth r c = Inr c'" "counting_ok s2 xs (fst (snd c)) c'"
        "walked (kids s2) (\<lambda>c. whites (snd (snd c))) (\<lambda>c. rc (snd (snd c))) 1 N [r] c c'"
        "counted (kids s2) (\<lambda>c. rc (snd (snd c))) 1 N [] c c'"
      using white.walk_spec [of s2 xs "fst (snd c)" c r depth] True by blast
    have c': "gc_collect_white depth r c = Inr c'" "white_state s2 xs (snd (snd c'))"
        "walked (kids s2) (\<lambda>c. whites (snd (snd c))) (\<lambda>c. rc (snd (snd c))) 1 N [r] c c'"
        "counted (kids s2) (\<lambda>c. rc (snd (snd c))) 1 N [] c c'" "quiet s2 \<longrightarrow> fst (snd c') = fst (snd c)"
      using w by (simp_all add: counting_ok_def)
    let ?t' = "snd (snd c')"
    have W: "N \<subseteq> whites ?t" "whites ?t' = whites ?t - N" "\<And>x y. x \<in> N \<Longrightarrow> y \<in> set (kids s2 x) \<Longrightarrow> y \<notin> whites ?t'"
        "r \<notin> whites ?t'"
      using c'(3) by (auto simp: walked_def)
    have col: "color t x = GC_BLACK \<longleftrightarrow> color s2 x = GC_BLACK \<or> x \<in> whites s2 - whites t \<or> (color s2 x \<noteq> GC_WHITE \<and> color t x = GC_BLACK)"
      "x \<in> whites t \<Longrightarrow> x \<in> whites s2" if "white_state s2 xs t" for t x
      using that unfolding white_state_def whites_def by (auto, metis+)
    have coll: "collected s2 t = whites s2 - whites t" if "white_state s2 xs t" for t
      using that unfolding white_state_def whites_def collected_def by (auto, metis+)
    have cN: "collected s2 ?t' = collected s2 ?t \<union> N" "collected s2 ?t \<inter> N = {}"
      using coll [OF I(1)] coll [OF c'(2)] W(1,2) col(2) [OF I(1)] by blast+
    have fw: "finite (whites s2)" by (rule finite_subset [OF whites_allocated fin])
    have "N \<subseteq> whites s2" using W(1) col(2) [OF I(1)] by blast
    then have fs: "finite (collected s2 ?t)" "finite N"
      using fw finite_subset coll [OF I(1)] by auto
    have "rc ?t' x = rc s2 x + of_nat (edges_into (kids s2) (collected s2 ?t') x)" for x
      using c'(4) I(2) [of x] edges_into_Un [OF fs cN(2), of "kids s2" x] by (simp add: counted_def cN(1))
    moreover have "y \<notin> whites ?t'" if "x \<in> collected s2 ?t'" "y \<in> set (kids s2 x)" for x y
      using that cN(1) I(3) W(2,3) by blast
    moreover have "q \<notin> whites ?t'" if "p' \<in> set (dn @ [p])" "ref_of s2 p' = Some q" for p' q
      using that I(4) W(2,4) r(2) by auto
    ultimately have "collect_inv s2 xs (dn @ [p]) ?t'" unfolding collect_inv_def using c'(2) by blast
    then show ?thesis using c'(1,5) True node_read [OF nd] by (auto simp: whites_def)
  qed
  then obtain c' where c': "(if GC_REF_GET_COLOR nd = GC_WHITE then gc_collect_white depth r c else Inr c) = Inr c'"
      "collect_inv s2 xs (dn @ [p]) (snd (snd c'))" "quiet s2 \<longrightarrow> fst (snd c') = fst (snd c)" by blast
  have ws: "white_state s2 xs (snd (snd c'))" using c'(2) by (simp add: collect_inv_def)
  obtain b' where "root_at p (snd (snd c')) = Inr b'" "root_next b' = hd (rest @ [ROOTS])"
    using entry_ops(1) [of "snd (snd c')" p] next_ok [OF ws] by auto
  then have "collect_root depth p c = Inr (hd (rest @ [ROOTS]), c')"
    using b nd c'(1) by (cases "GC_REF_GET_COLOR nd = GC_WHITE") (simp_all add: collect_root_def node_ops)
  then show ?thesis using c'(2,3) next_ok [OF I(1)] by blast
qed

end
