(* ===== verification/Zend_GC_Cycle.thy ===== *)
theory Zend_GC_Cycle
  imports Zend_GC_Collect
begin

text \<open>
  \<open>gc_collect_roots\<close> after marking and scanning: counts and colours are as before the collection, and
  the entries of the garbage, with those it added for garbage that had none, form the list \<open>to_free\<close>.
\<close>

subsection \<open>The other list takes the entries\<close>

lemma move_list_spec:
  assumes r: "roots_of s a xs" and b: "b \<notin> set (a # xs)" "nxt s b \<noteq> None" and ne: "xs \<noteq> []"
  shows "\<exists>s'. move_list a b s = Inr s' \<and> only_roots s s' \<and> ref_of s' = ref_of s \<and> roots_of s' b xs \<and>
    nxt s' a = nxt s a \<and> (\<forall>q. q \<notin> set (a # b # xs) \<longrightarrow> nxt s' q = nxt s q \<and> prv s' q = prv s q)"
proof -
  let ?f = "hd xs" and ?l = "last xs"
  note R = ring_move [OF r b(1) ne]
  have mem: "?f \<in> set xs" "?l \<in> set xs" using ne by simp_all
  then have ne': "?f \<noteq> b" "?l \<noteq> b" "?f \<noteq> a" "?l \<noteq> a" "a \<noteq> b" using b(1) r by (auto simp: ring_def)
  have def: "nxt s y \<noteq> None" if "y \<in> set (a # xs)" for y using ring_defined [OF r that] by blast
  obtain e where e: "root_at a s = Inr e" "root_next e = ?f" "root_prev e = ?l"
    using entry_ops(1) [of s a] R(2,3) by auto
  obtain s1 where s1: "set_next b ?f s = Inr s1" "only_roots s s1" "nxt s1 = (nxt s)(b := Some ?f)" "prv s1 = prv s" "ref_of s1 = ref_of s"
    using entry_ops(2) [of s b ?f] b(2) by blast
  obtain e1 where e1: "root_at a s1 = Inr e1" "root_prev e1 = ?l"
    using entry_ops(1) [of s1 a] s1(3,4) R(2,3) ne' by auto
  obtain s2 where s2: "set_prev b ?l s1 = Inr s2" "only_roots s1 s2" "prv s2 = (prv s1)(b := Some ?l)" "nxt s2 = nxt s1" "ref_of s2 = ref_of s1"
    using entry_ops(3) [of s1 b ?l] s1(3) by auto
  obtain e2 where e2: "root_at b s2 = Inr e2" "root_next e2 = ?f" using entry_ops(1) [of s2 b] s2(4) s1(3) by auto
  have "nxt s2 ?f \<noteq> None" using s2(4) s1(3) def [of ?f] mem by simp
  then obtain s3 where s3: "set_prev ?f b s2 = Inr s3" "only_roots s2 s3" "prv s3 = (prv s2)(?f := Some b)" "nxt s3 = nxt s2" "ref_of s3 = ref_of s2"
    using entry_ops(3) [of s2 ?f b] by blast
  obtain e3 where e3: "root_at b s3 = Inr e3" "root_prev e3 = ?l"
    using entry_ops(1) [of s3 b] s3(3,4) s2(3,4) s1(3) ne' by auto
  have "nxt s3 ?l \<noteq> None" using s3(4) s2(4) s1(3) def [of ?l] mem by simp
  then obtain s4 where s4: "set_next ?l b s3 = Inr s4" "only_roots s3 s4" "nxt s4 = (nxt s3)(?l := Some b)" "prv s4 = prv s3" "ref_of s4 = ref_of s3"
    using entry_ops(2) [of s3 ?l b] by blast
  have "move_list a b s = Inr s4" using e e1 e2 e3 s1(1) s2(1) s3(1) s4(1) by (simp add: move_list_def)
  moreover have "only_roots s s4" using s1(2) s2(2) s3(2) s4(2) by (blast intro: only_roots_trans)
  moreover have "nxt s4 = (nxt s)(b := Some ?f, ?l := Some b)" "prv s4 = (prv s)(b := Some ?l, ?f := Some b)"
    using s1 s2 s3 s4 by simp_all
  ultimately show ?thesis using R(1) s1(5) s2(5) s3(5) s4(5) ne' mem by auto
qed

lemma empty_list_spec:
  assumes "nxt s h \<noteq> None"
  shows "\<exists>s'. empty_list h s = Inr s' \<and> only_roots s s' \<and> ref_of s' = ref_of s \<and> nxt s' = (nxt s)(h := Some h) \<and>
    prv s' = (prv s)(h := Some h)"
proof -
  obtain s1 where s1: "set_next h h s = Inr s1" "only_roots s s1" "nxt s1 = (nxt s)(h := Some h)" "prv s1 = prv s" "ref_of s1 = ref_of s"
    using entry_ops(2) [OF assms, of h] by blast
  obtain s2 where s2: "set_prev h h s1 = Inr s2" "only_roots s1 s2" "prv s2 = (prv s1)(h := Some h)" "nxt s2 = nxt s1" "ref_of s2 = ref_of s1"
    using entry_ops(3) [of s1 h h] s1(3) by auto
  show ?thesis using s1 s2 only_roots_trans [OF s1(2) s2(2)] by (simp add: empty_list_def)
qed

lemma move_and_empty:
  assumes r: "roots_of s a xs" and b: "b \<notin> set (a # xs)" "nxt s b \<noteq> None" and ne: "xs \<noteq> []"
  shows "\<exists>s'. res_bind (move_list a b s) (empty_list a) = Inr s' \<and> only_roots s s' \<and> ref_of s' = ref_of s \<and>
    roots_of s' a [] \<and> roots_of s' b xs \<and>
    (\<forall>q. q \<notin> set (a # b # xs) \<longrightarrow> nxt s' q = nxt s q \<and> prv s' q = prv s q)"
proof -
  obtain s1 where s1: "move_list a b s = Inr s1" "only_roots s s1" "ref_of s1 = ref_of s" "roots_of s1 b xs" "nxt s1 a = nxt s a"
      "\<forall>q. q \<notin> set (a # b # xs) \<longrightarrow> nxt s1 q = nxt s q \<and> prv s1 q = prv s q"
    using move_list_spec [OF r b ne] by blast
  have "nxt s a \<noteq> None" using ring_defined [OF r, of a] by simp
  then obtain s2 where s2: "empty_list a s1 = Inr s2" "only_roots s1 s2" "ref_of s2 = ref_of s1"
      "nxt s2 = (nxt s1)(a := Some a)" "prv s2 = (prv s1)(a := Some a)"
    using empty_list_spec [of s1 a] s1(5) by auto
  have "a \<notin> set (b # xs)" using r b(1) by (auto simp: ring_def)
  then have "roots_of s2 b xs = roots_of s1 b xs" by (intro ring_cong) (auto simp: s2(4,5))
  then have "roots_of s2 b xs" using s1(4) by simp
  moreover have "roots_of s2 a []" using s2(4,5) by (simp add: ring_def)
  ultimately show ?thesis using only_roots_trans [OF s1(2) s2(2)] s1(1,3,6) s2(1,3,4,5) by (intro exI [of _ s2]) simp
qed

lemma relink_spec:
  assumes r: "roots_of s ROOTS xs" and t: "roots_of s TO_FREE []" and h: "TO_FREE \<notin> set xs"
  shows "\<exists>s'. relink_roots s = Inr s' \<and> only_roots s s' \<and> ref_of s' = ref_of s \<and> roots_of s' ROOTS [] \<and> roots_of s' TO_FREE xs \<and>
    (\<forall>q. q \<notin> set (ROOTS # TO_FREE # xs) \<longrightarrow> nxt s' q = nxt s q \<and> prv s' q = prv s q)"
proof -
  have nt: "nxt s TO_FREE = Some TO_FREE" using t by (simp add: ring_def)
  have nr: "nxt s ROOTS = Some (hd (xs @ [ROOTS]))" using r by (auto simp: ring_def dest: chain_first)
  obtain e where e: "root_at ROOTS s = Inr e" "root_next e = hd (xs @ [ROOTS])" using entry_ops(1) [of s ROOTS] nr by auto
  obtain e1 where e1: "root_at TO_FREE s = Inr e1" "root_next e1 = TO_FREE" using entry_ops(1) [of s TO_FREE] nt by auto
  show ?thesis
  proof (cases xs)
    case Nil
    then show ?thesis using e e1 r t by (auto simp: relink_roots_def only_roots_def)
  next
    case (Cons x ys)
    then have x: "x \<noteq> ROOTS" "ROOTS \<notin> set xs" using r by (auto simp: ring_def)
    show ?thesis
      using move_and_empty [OF r, of TO_FREE] h nt Cons x e e1 by (simp add: relink_roots_def)
  qed
qed

subsection \<open>All garbage is reached from the entries that are left\<close>

lemma garbage_path:
  assumes wf: "wf_heap s" and x: "x \<in> garbage s" and r: "color s r = GC_PURPLE"
    and p: "(r, y) \<in> (edge (kids s))\<^sup>*" "(y, x) \<in> (edge (kids s))\<^sup>*"
  shows "y \<in> garbage s"
proof -
  have "x \<noteq> symbol_table s" using x by (simp add: garbage_def reached_def)
  then have "y \<noteq> symbol_table s"
    using p(2) symbol_table_kids [OF wf] by (auto simp: edge_def elim: converse_rtranclE)
  then have "y \<in> reached s" using r p(1) by (auto simp: reached_def)
  then show ?thesis using x p(2) unfolding garbage_def by (auto intro: rtrancl_trans)
qed

lemma collect_loop_spec:
  assumes l: "listed s xs" "additional_buffer s = []" and wf: "wf_heap s" and st: "color s (symbol_table s) = GC_BLACK"
    and n: "card (dom (gc_heap s)) < depth"
  shows "\<exists>c. list_loop (collect_root depth) ROOTS (hd (xs @ [ROOTS])) (0, flags, s) = Some (Inr c) \<and>
    collect_inv s xs xs (snd (snd c)) \<and> (quiet s \<longrightarrow> fst (snd c) = flags)"
proof -
  have "recorded s xs s []" using l by (simp add: recorded_def listed_def same_lists_def collected_def no_stale_def in_use_def)
  then have ws: "white_state s xs s" using wf st unfolding white_state_def by auto
  moreover have none: "collected s s = {}" by (auto simp: collected_def)
  ultimately have "collect_inv s xs [] s" by (simp add: collect_inv_def)
  then have "\<exists>c. list_loop (collect_root depth) ROOTS (hd (xs @ [ROOTS])) (0, flags, s) = Some (Inr c) \<and>
      (\<exists>dn. xs = dn @ [] \<and> collect_inv s xs dn (snd (snd c)) \<and> (quiet s \<longrightarrow> fst (snd c) = flags))"
  proof (intro list_loop_inv [where P = "\<lambda>ps c. \<exists>dn. xs = dn @ ps \<and> collect_inv s xs dn (snd (snd c)) \<and>
      (quiet s \<longrightarrow> fst (snd c) = flags)"])
    fix p ps and c :: counting
    assume "\<exists>dn. xs = dn @ p # ps \<and> collect_inv s xs dn (snd (snd c)) \<and> (quiet s \<longrightarrow> fst (snd c) = flags)"
    then obtain dn where dn: "xs = dn @ p # ps" "collect_inv s xs dn (snd (snd c))" "quiet s \<longrightarrow> fst (snd c) = flags" by blast
    then obtain c' where "collect_root depth p c = Inr (hd (ps @ [ROOTS]), c')" "collect_inv s xs (dn @ [p]) (snd (snd c'))"
        "quiet s \<longrightarrow> fst (snd c') = fst (snd c)" "p \<noteq> ROOTS"
      using collect_root_step [OF dn(2,1) n] by blast
    then show "p \<noteq> ROOTS \<and> (\<exists>c'. collect_root depth p c = Inr (hd (ps @ [ROOTS]), c') \<and>
        (\<exists>dn. xs = dn @ ps \<and> collect_inv s xs dn (snd (snd c')) \<and> (quiet s \<longrightarrow> fst (snd c') = flags)))"
      using dn(1,3) by auto
  qed auto
  then show ?thesis by auto
qed

lemma storage_same:
  assumes "only_headers s s'"
  shows "storage s' xs = storage s xs" "nxt s' = nxt s" "prv s' = prv s" "ref_of s' = ref_of s"
    "additional_buffer s' = additional_buffer s"
proof -
  obtain h where s: "s' = s\<lparr>gc_heap := h\<rparr>" using assms unfolding only_headers_def by blast
  show "storage s' xs = storage s xs" "nxt s' = nxt s" "prv s' = prv s" "ref_of s' = ref_of s"
    "additional_buffer s' = additional_buffer s" by (simp_all add: s)
qed

lemma addressed_headers:
  assumes h: "only_headers s s'" and ad: "addressed s xs"
  shows "addressed s' xs"
proof -
  note ref = storage_same(4) [OF h]
  have "inj_on (ref_of s') (set xs)" using ad ref by (simp add: addressed_def)
  moreover have "\<exists>x nd. ref_of s' p = Some x \<and> gc_heap s' x = Some nd \<and> GC_ADDRESS (gc_info nd) = of_nat (root_addr p)"
    if p: "p \<in> set xs" for p
  proof -
    obtain x nd where x: "ref_of s p = Some x" "gc_heap s x = Some nd" "GC_ADDRESS (gc_info nd) = of_nat (root_addr p)"
      using ad p unfolding addressed_def by blast
    obtain nd' where "gc_heap s' x = Some nd'" using x(2) only_headersD(4) [OF h, of x] by (metis not_None_eq)
    then show ?thesis using x only_headers_data(3) [OF h _ x(2)] ref by metis
  qed
  moreover have "GC_ADDRESS (gc_info nd) = 0" if x: "gc_heap s' x = Some nd" "\<forall>p\<in>set xs. ref_of s' p \<noteq> Some x" for x nd
  proof -
    obtain nd0 where nd0: "gc_heap s x = Some nd0" using x(1) only_headersD(4) [OF h, of x] by (metis not_None_eq)
    then have "GC_ADDRESS (gc_info nd0) = 0" using ad x(2) ref unfolding addressed_def by metis
    then show ?thesis using only_headers_data(3) [OF h x(1) nd0] by simp
  qed
  ultimately show ?thesis unfolding addressed_def by blast
qed

lemma buffered_values: "same_values s s' \<Longrightarrow> buffered s' = buffered s"
proof
  fix x assume sv: "same_values s s'"
  note d = same_values_data [OF sv, of x] and n = same_valuesD(3) [OF sv, of x]
  show "buffered s' x = buffered s x"
  proof (cases "gc_heap s' x")
    case (Some nd)
    then obtain nd0 where nd0: "gc_heap s x = Some nd0" using n by (metis not_None_eq)
    then show ?thesis using d [OF Some nd0] Some by (simp add: buffered_def)
  qed (use n in \<open>simp add: buffered_def\<close>)
qed

subsection \<open>The three phases\<close>

text \<open>What is left for \<open>zend_gc_collect_cycles\<close> to destroy.\<close>

definition to_destroy :: "gc_globals \<Rightarrow> root_ptr list \<Rightarrow> gc_ref set" where
  "to_destroy s xs = {x \<in> garbage s. buffered s x \<or> Some x \<in> ref_of s ` set xs}"

definition gathered :: "gc_globals \<Rightarrow> root_ptr list \<Rightarrow> gc_globals \<Rightarrow> bool" where
  "gathered s0 xs s \<longleftrightarrow> same_values s0 s \<and> (\<forall>x. color s x = GC_BLACK) \<and> rc s = rc s0 \<and> roots_of s ROOTS [] \<and>
     (\<exists>L. roots_of s TO_FREE L \<and> storage s L \<and> no_stale s L \<and> addressed s L \<and> ref_of s ` set L = Some ` to_destroy s0 xs) \<and>
     (to_destroy s0 xs = {} \<longrightarrow> additional_buffer s = [])"

definition gc_settled :: "gc_globals \<Rightarrow> root_ptr list \<Rightarrow> bool" where
  "gc_settled s xs \<longleftrightarrow> gc_ready s xs \<and> refs_counted s \<and> storage s xs \<and> addressed s xs \<and> roots_of s TO_FREE [] \<and>
     additional_buffer s = []"

lemma garbage_collected:
  assumes wf: "wf_heap s0" and w: "whites s = garbage s0" and k: "kids s = kids s0"
    and inv: "collect_inv s ys ys t" and root: "\<And>r. color s0 r = GC_PURPLE \<Longrightarrow> r \<in> garbage s0 \<Longrightarrow> Some r \<in> ref_of s ` set ys"
  shows "collected s t = garbage s0"
proof -
  have C: "collected s t = whites s - whites t"
    using inv unfolding collect_inv_def white_state_def whites_def collected_def by (auto, metis+)
  have "x \<in> collected s t" if x: "x \<in> garbage s0" for x
  proof -
    obtain r where r: "color s0 r = GC_PURPLE" "(r, x) \<in> (edge (kids s0))\<^sup>*" using x by (auto simp: garbage_def reached_def)
    note P = garbage_path [OF wf x r(1)]
    have "(r, y) \<in> (edge (kids s0))\<^sup>* \<Longrightarrow> (y, x) \<in> (edge (kids s0))\<^sup>* \<longrightarrow> y \<in> collected s t" for y
    proof (induction rule: rtrancl_induct)
      case base
      show ?case
      proof
        assume "(r, x) \<in> (edge (kids s0))\<^sup>*"
        then have g: "r \<in> garbage s0" using P by blast
        then obtain p where "p \<in> set ys" "ref_of s p = Some r" using root [OF r(1)] by force
        then have "r \<notin> whites t" using inv unfolding collect_inv_def by blast
        then show "r \<in> collected s t" using C w g by blast
      qed
    next
      case (step y z)
      show ?case
      proof
        assume z: "(z, x) \<in> (edge (kids s0))\<^sup>*"
        then have "y \<in> collected s t" using step by (meson converse_rtrancl_into_rtrancl)
        moreover have "z \<in> set (kids s y)" using step.hyps(2) k by (simp add: edge_def)
        ultimately have "z \<notin> whites t" using inv unfolding collect_inv_def by blast
        moreover have "(r, z) \<in> (edge (kids s0))\<^sup>*" using step.hyps by (rule rtrancl_into_rtrancl)
        ultimately show "z \<in> collected s t" using C w P z by blast
      qed
    qed
    then show ?thesis using r(2) by blast
  qed
  then show ?thesis using C w by blast
qed

definition no_destructors :: "gc_globals \<Rightarrow> bool" where
  "no_destructors s \<longleftrightarrow> (\<forall>x\<in>garbage s. \<forall>nd ob. gc_heap s x = Some nd \<longrightarrow> gc_type_data nd = GC_OBJECT ob \<longrightarrow>
     gc_destructor_of ob = None)"

lemma collect_scanned:
  assumes ok: "gc_settled s0 xs" and sc: "scanned s0 s2" and n: "card (dom (gc_heap s0)) < depth"
  shows "\<exists>num flags' s. gc_collect_roots depth flags s2 = Some (Inr (num, flags', s)) \<and> gathered s0 xs s \<and>
    (no_destructors s0 \<longrightarrow> flags' = flags)"
proof -
  have O: "gc_ready s0 xs" "storage s0 xs" "addressed s0 xs" "roots_of s0 TO_FREE []" "additional_buffer s0 = []"
    using ok by (simp_all add: gc_settled_def)
  note R = gc_readyD [OF O(1)]
  have S: "only_headers s0 s2" "\<And>x. color s2 x = (if x \<in> garbage s0 then GC_WHITE else GC_BLACK)"
      "\<And>x. rc s2 x = rc s0 x - of_nat (edges_into (kids s0) (garbage s0) x)"
    using sc by (simp_all add: scanned_def)
  note H = storage_same [OF S(1)]
  have "listed s2 xs" using R(2) O(2) H addressed_headers [OF S(1) O(3)] by (simp add: listed_def)
  then obtain s3 where s3: "from_first drop_black ROOTS s2 = Some (Inr s3)" "listed s3 (filter (keeps s2) xs)"
      "same_headers s2 s3" "same_lists s2 s3 (filter (keeps s2) xs)" "additional_buffer s3 = additional_buffer s2"
    using drop_loop_spec by blast
  let ?ys = "filter (keeps s2) xs"
  have V: "same_values s0 s3" using only_headers_values [OF S(1)] s3(3) by (simp add: same_headers_def same_values_def)
  note D = same_valuesD [OF V]
  have c3: "color s3 = color s2" "rc s3 = rc s2" using s3(3) by (simp_all add: same_headers_def)
  have notst: "symbol_table s0 \<notin> garbage s0" by (simp add: garbage_def reached_def)
  have wf3: "wf_heap s3" by (rule same_values_wf [OF R(1) V])
  obtain c where c: "list_loop (collect_root depth) ROOTS (hd (?ys @ [ROOTS])) (0, flags, s3) = Some (Inr c)"
      "collect_inv s3 ?ys ?ys (snd (snd c))" "quiet s3 \<longrightarrow> fst (snd c) = flags"
    using collect_loop_spec [OF s3(2) _ wf3, of depth flags] s3(5) O(5) H(5) n D(2,4) c3 S(2) notst by auto
  obtain num flags' t where t: "c = (num, flags', t)" by (cases c) auto
  have I: "white_state s3 ?ys t" "\<And>x. rc t x = rc s3 x + of_nat (edges_into (kids s3) (collected s3 t) x)"
    using c(2) t by (simp_all add: collect_inv_def)
  have wh: "whites s3 = garbage s0" using c3 S(2) by (auto simp: whites_def)
  have refs: "\<forall>p\<in>set ?ys. ref_of s3 p = ref_of s0 p" using s3(4) H(4) by (simp add: same_lists_def)
  have keep: "p \<in> set ?ys \<longleftrightarrow> p \<in> set xs \<and> the (ref_of s0 p) \<in> garbage s0" for p
    using S(2) H(4) by (auto simp: keeps_def)
  have col: "collected s3 t = garbage s0"
  proof (rule garbage_collected [OF R(1) wh D(5)])
    show "collect_inv s3 ?ys ?ys t" using c(2) t by simp
    fix r assume "color s0 r = GC_PURPLE" "r \<in> garbage s0"
    then obtain p where "p \<in> set xs" "ref_of s0 p = Some r" using R(4) by blast
    then show "Some r \<in> ref_of s3 ` set ?ys" using keep [of p] refs \<open>r \<in> garbage s0\<close> by force
  qed
  obtain new where new: "recorded s3 ?ys t new" using I(1) by (auto simp: white_state_def)
  note N = new [unfolded recorded_def]
  have img: "ref_of s3 ` set ?ys = Some ` {x \<in> garbage s0. Some x \<in> ref_of s0 ` set xs}"
  proof -
    have "ref_of s3 ` set ?ys = ref_of s0 ` set ?ys" using refs by auto
    moreover have "\<exists>x. ref_of s0 p = Some x" if "p \<in> set xs" for p using O(3) that unfolding addressed_def by blast
    moreover have "p \<in> set ?ys \<longleftrightarrow> p \<in> set xs \<and> (\<exists>x\<in>garbage s0. ref_of s0 p = Some x)" for p
      using keep [of p] calculation(2) [of p] by auto
    ultimately show ?thesis by (intro set_eqI) (auto simp: image_iff, metis+)
  qed
  have "ref_of t ` set ?ys = ref_of s3 ` set ?ys" using N by (simp add: same_lists_def)
  then have all: "ref_of t ` set (new @ ?ys) = Some ` to_destroy s0 xs"
    using N img col buffered_values [OF V] by (auto simp: to_destroy_def image_Un)
  have "nxt t TO_FREE = nxt s0 TO_FREE" "prv t TO_FREE = prv s0 TO_FREE" using N s3(4) H(2,3) by (simp_all add: same_lists_def)
  then have tf: "roots_of t TO_FREE []" using O(4) by (simp add: ring_def)
  have N': "roots_of t ROOTS (new @ ?ys)" "storage t (new @ ?ys)" "addressed t (new @ ?ys)" "no_stale t (new @ ?ys)"
    using N by blast+
  have "TO_FREE \<notin> set (new @ ?ys)" using storage_heads [OF N'(2)] by (simp add: is_head_def)
  then obtain s where s: "relink_roots t = Inr s" "only_roots t s" "ref_of s = ref_of t" "roots_of s ROOTS []"
      "roots_of s TO_FREE (new @ ?ys)"
      "\<forall>q. q \<notin> set (ROOTS # TO_FREE # new @ ?ys) \<longrightarrow> nxt s q = nxt t q \<and> prv s q = prv t q"
    using relink_spec [OF N'(1) tf] by blast
  note Q = only_rootsD [OF s(2)]
  have hc: "color s = color t" "rc s = rc t" using Q(1) by (simp_all add: color_def rc_def fun_eq_iff)
  have blk: "color s x = GC_BLACK" for x
  proof (cases "x \<in> garbage s0")
    case True
    then show ?thesis using col hc by (auto simp: collected_def)
  next
    case False
    then have "color s3 x = GC_BLACK" using c3 S(2) by simp
    then show ?thesis using I(1) hc unfolding white_state_def by (metis color_consts(3))
  qed
  have "rc s = rc s0" using hc I(2) col D(5) c3 S(3) by (simp add: fun_eq_iff)
  moreover have "same_values s0 s" using V I(1) Q by (simp add: white_state_def same_values_def)
  moreover have "addressed s (new @ ?ys)" using N'(3) Q(1) s(3) by (simp add: addressed_def)
  moreover have "storage s (new @ ?ys)"
  proof (rule storage_relinked [OF _ _ _ _ s(2)])
    show "limits_ok t" "allocated t" "unused_ok t (new @ ?ys)" "\<forall>p\<in>set (new @ ?ys). in_use t p"
      using N'(2) unfolding storage_def by blast+
    show "nxt s q = nxt t q \<and> prv s q = prv t q" if "\<not> is_head q" "q \<notin> set (new @ ?ys)" for q
      using s(6) that by (simp add: is_head_def)
    show "nxt s q \<noteq> None" if "q \<in> set (new @ ?ys)" for q using ring_defined [OF s(5), of q] that by simp
  qed
  moreover have "no_stale s (new @ ?ys)" using N'(4) Q(7) by (simp add: no_stale_def in_use_def)
  moreover have "ref_of s ` set (new @ ?ys) = Some ` to_destroy s0 xs" using all s(3) by simp
  moreover have "additional_buffer s = []" if "to_destroy s0 xs = {}"
  proof -
    have "?ys = []" using all that by simp
    then have "t = s3" using c(1) t by (simp add: list_loop.simps)
    then show ?thesis using Q s3(5) H(5) O(5) by simp
  qed
  ultimately have "gathered s0 xs s" using s(4,5) blk unfolding gathered_def by blast
  moreover have "no_destructors s0 \<longrightarrow> flags' = flags"
  proof
    assume nd: "no_destructors s0"
    have "gc_destructor_of ob = None"
      if w: "gc_heap s3 x = Some nd" "gc_type_data nd = GC_OBJECT ob" "color s3 x = GC_WHITE" for x nd ob
    proof -
      obtain nd0 where "gc_heap s0 x = Some nd0" using w(1) D(3) [of x] by (metis not_None_eq)
      moreover have "x \<in> garbage s0" using w(3) wh by (auto simp: whites_def)
      ultimately show ?thesis using nd same_values_data [OF V w(1)] w(2) unfolding no_destructors_def by metis
    qed
    then show "flags' = flags" using c(3) t by (simp add: quiet_def)
  qed
  moreover have "\<exists>h. root_at ROOTS s3 = Inr h \<and> root_next h = hd (?ys @ [ROOTS])"
  proof -
    have "nxt s3 ROOTS = Some (hd (?ys @ [ROOTS]))" using s3(2) by (auto simp: listed_def ring_def dest: chain_first)
    then show ?thesis using entry_ops(1) [of s3 ROOTS] by auto
  qed
  ultimately show ?thesis using s3(1) c(1) t s(1)
    by (auto simp: gc_collect_roots_def run_bind_def counting_state_def)
qed

end
