(* ===== verification/Zend_GC_Steps.thy ===== *)
theory Zend_GC_Steps
  imports Zend_GC_Cycle
begin

text \<open>
  The buffer of roots between collections: states reached from \<open>gc_init\<close> by recording possible
  roots, taking structures out of the buffer and whatever the program does to the structures
  themselves. The lists, the storage and the headers agree in all of them.
\<close>

subsection \<open>The states\<close>

definition info_of :: "gc_globals \<Rightarrow> gc_ref \<Rightarrow> u16" where
  "info_of s r = (case gc_heap s r of None \<Rightarrow> 0 | Some nd \<Rightarrow> gc_info nd)"

definition buffer_ok :: "gc_globals \<Rightarrow> root_ptr list \<Rightarrow> bool" where
  "buffer_ok s xs \<longleftrightarrow> roots_of s ROOTS xs \<and> storage s xs \<and> addressed s xs \<and> roots_of s TO_FREE [] \<and>
     additional_buffer s = [] \<and>
     (\<forall>r. color s r = (if Some r \<in> ref_of s ` set xs then GC_PURPLE else GC_BLACK))"

text \<open>
  The program changes counts and contents, allocates structures and frees those that are in no
  entry; the flags may change too. It does not touch \<open>GC_INFO\<close> or the buffer.
\<close>

definition mutated :: "gc_globals \<Rightarrow> gc_globals \<Rightarrow> bool" where
  "mutated s s' \<longleftrightarrow> gc_roots s' = gc_roots s \<and> gc_unused s' = gc_unused s \<and> gc_first_unused s' = gc_first_unused s \<and>
     gc_last_unused s' = gc_last_unused s \<and> additional_buffer s' = additional_buffer s \<and> info_of s' = info_of s"

definition must_collect :: "gc_globals \<Rightarrow> bool" where
  "must_collect s \<longleftrightarrow> gc_unused s = NULL_ROOT \<and> gc_first_unused s = gc_last_unused s \<and> gc_enabled s"

inductive gc_reachable :: "gc_globals \<Rightarrow> bool" where
  start: "gc_globals_ctor_ex s = Inr s1 \<Longrightarrow> gc_init (s1\<lparr>gc_enabled := True\<rparr>) = Inr s2 \<Longrightarrow>
    info_of s = (\<lambda>_. 0) \<Longrightarrow> gc_reachable s2"
| possible_root: "gc_reachable s \<Longrightarrow> \<not> must_collect s \<Longrightarrow> gc_check_possible_root env r s = Inr s' \<Longrightarrow> gc_reachable s'"
| take_out: "gc_reachable s \<Longrightarrow> GC_REMOVE_FROM_BUFFER r s = Inr s' \<Longrightarrow> gc_reachable s'"
| program: "gc_reachable s \<Longrightarrow> mutated s s' \<Longrightarrow> gc_reachable s'"

subsection \<open>Headers\<close>

lemma color_info: "color s r = GC_INFO_GET_COLOR (info_of s r)"
  by (auto simp: color_def info_of_def GC_REF_GET_COLOR_def GC_INFO_GET_COLOR_def GC_BLACK_def split: option.splits)

lemma addressed_info:
  "addressed s xs \<longleftrightarrow> inj_on (ref_of s) (set xs) \<and>
     (\<forall>p\<in>set xs. \<exists>x. ref_of s p = Some x \<and> gc_heap s x \<noteq> None \<and> GC_ADDRESS (info_of s x) = of_nat (root_addr p)) \<and>
     (\<forall>x. (\<forall>p\<in>set xs. ref_of s p \<noteq> Some x) \<longrightarrow> GC_ADDRESS (info_of s x) = 0)"
  unfolding addressed_def
  by (intro arg_cong2 [where f = "(\<and>)"] refl ball_cong iff_allI)
    (auto simp: info_of_def GC_ADDRESS_def split: option.splits)

lemma addressed_entry:
  assumes "addressed s xs" "p \<in> set xs" "ref_of s p = Some x"
  shows "GC_ADDRESS (info_of s x) = of_nat (root_addr p)" "gc_heap s x \<noteq> None"
  using assms unfolding addressed_info by (metis option.inject)+

lemma purple_info:
  assumes "n < 2 ^ 14"
  shows "GC_ADDRESS (of_nat n OR GC_PURPLE) = of_nat n" "GC_INFO_GET_COLOR (of_nat n OR GC_PURPLE) = GC_PURPLE"
proof -
  have a: "of_nat n AND NOT GC_COLOR = (of_nat n :: u16)" "of_nat n AND GC_COLOR = (0 :: u16)"
    using small_info(1,2) [OF assms] by (simp_all add: GC_ADDRESS_def GC_INFO_GET_COLOR_def GC_BLACK_def)
  have c: "GC_PURPLE AND NOT GC_COLOR = 0" "GC_PURPLE AND GC_COLOR = GC_PURPLE" by (simp_all add: GC_PURPLE_def GC_COLOR_def)
  show "GC_ADDRESS (of_nat n OR GC_PURPLE) = of_nat n" unfolding GC_ADDRESS_def by (simp add: bit.conj_disj_distrib2 a c)
  show "GC_INFO_GET_COLOR (of_nat n OR GC_PURPLE) = GC_PURPLE" unfolding GC_INFO_GET_COLOR_def by (simp add: bit.conj_disj_distrib2 a c)
qed

subsection \<open>The steps\<close>

lemma mutated_ok: "buffer_ok s xs \<Longrightarrow> mutated s s' \<Longrightarrow> buffer_ok s' xs"
proof -
  assume ok: "buffer_ok s xs" and m: "mutated s s'"
  have e: "nxt s' = nxt s" "prv s' = prv s" "ref_of s' = ref_of s" using m by (simp_all add: mutated_def nxt_def prv_def ref_of_def fun_eq_iff)
  have i: "info_of s' = info_of s" using m by (simp add: mutated_def)
  have st: "storage s' xs"
    using ok m e by (auto simp: buffer_ok_def storage_def limits_ok_def allocated_def unused_ok_def in_use_def mutated_def split: root_ptr.splits)
  have ad: "addressed s xs" using ok by (simp add: buffer_ok_def)
  have live: "gc_heap s' x \<noteq> None" if "p \<in> set xs" "ref_of s p = Some x" for p x
  proof
    assume "gc_heap s' x = None"
    then have "info_of s' x = 0" by (simp add: info_of_def)
    then have z: "info_of s x = 0" using i by simp
    have p: "in_use s p" "limits_ok s" using ok that(1) by (simp_all add: buffer_ok_def storage_def)
    have "(of_nat (root_addr p) :: u16) = 0" using z addressed_entry(1) [OF ad that] by (simp add: GC_ADDRESS_def)
    then show False using in_use_addr(1,2) [OF p] small_info(4) by simp
  qed
  have "addressed s' xs" using ad live unfolding addressed_info e i by metis
  then show "buffer_ok s' xs" using ok m e st i by (simp add: buffer_ok_def mutated_def color_info)
qed

lemma possible_root_spec:
  assumes ok: "buffer_ok s xs" and nd: "gc_heap s x = Some nd" "gc_info nd = 0"
    and room: "gc_unused s \<noteq> NULL_ROOT \<or> gc_first_unused s \<noteq> gc_last_unused s"
    and t: "case gc_type_data nd of GC_ARRAY _ \<Rightarrow> True | GC_OBJECT _ \<Rightarrow> True | _ \<Rightarrow> False"
    and act: "\<not> unclean_shutdown s" "\<not> gc_active s"
  shows "\<exists>s' p. gc_possible_root env x s = Inr s' \<and> buffer_ok s' (p # xs) \<and> ref_of s' p = Some x"
proof -
  have O: "roots_of s ROOTS xs" "storage s xs" "addressed s xs" using ok by (simp_all add: buffer_ok_def)
  obtain i s1 where i: "(if gc_unused s \<noteq> NULL_ROOT then pop_unused s
      else Inr (BUF (gc_first_unused s), s\<lparr>gc_first_unused := gc_first_unused s + 1\<rparr>)) = Inr (BUF i, s1)" "BUF i \<notin> set xs"
      "\<And>v. \<exists>s'. res_bind (GC_SET_INFO x v s1) (link_root (BUF i) x) = Inr s' \<and> storage s' (BUF i # xs) \<and>
        roots_of s' ROOTS (BUF i # xs) \<and> ref_of s' (BUF i) = Some x \<and> gc_heap s' = (gc_heap s)(x \<mapsto> nd\<lparr>gc_info := v\<rparr>) \<and>
        same_lists s s' xs \<and> additional_buffer s' = additional_buffer s"
    using reserve_spec [OF O(2,1) nd(1) room] by blast
  let ?v = "of_nat i OR GC_PURPLE :: u16"
  obtain s' where s': "res_bind (GC_SET_INFO x ?v s1) (link_root (BUF i) x) = Inr s'" "storage s' (BUF i # xs)"
      "roots_of s' ROOTS (BUF i # xs)" "ref_of s' (BUF i) = Some x" "gc_heap s' = (gc_heap s)(x \<mapsto> nd\<lparr>gc_info := ?v\<rparr>)"
      "same_lists s s' xs" "additional_buffer s' = additional_buffer s"
    using i(3) [of ?v] by blast
  have "in_use s' (BUF i)" "limits_ok s'" using s'(2) by (simp_all add: storage_def)
  then have "i < 2 ^ 14" using in_use_addr(2) by (force simp: root_addr_def)
  note P = purple_info [OF this]
  have z: "GC_ADDRESS (gc_info nd) = 0" "GC_REF_GET_COLOR nd = GC_BLACK"
    using nd(2) by (simp_all add: GC_ADDRESS_def GC_REF_GET_COLOR_def GC_INFO_GET_COLOR_def GC_BLACK_def)
  have use: "\<forall>p\<in>set xs. in_use s p" "limits_ok s" using O(2) by (simp_all add: storage_def)
  have refs: "\<forall>q\<in>set xs. ref_of s' q = ref_of s q" using s'(6) by (simp add: same_lists_def)
  note N = addressed_new [OF O(3) nd(1) z(1) use i(2) s'(4) refs s'(5)]
  have ad: "addressed s' (BUF i # xs)" using N(1) P(1) by (simp add: root_addr_def)
  have "color s' r = (if Some r \<in> ref_of s' ` set (BUF i # xs) then GC_PURPLE else GC_BLACK)" for r
  proof (cases "r = x")
    case True
    then show ?thesis using s'(4,5) P(2) by (simp add: color_def GC_REF_GET_COLOR_def)
  next
    case False
    then have "color s' r = color s r" using s'(5) by (simp add: color_def)
    moreover have "Some r \<in> ref_of s' ` set (BUF i # xs) \<longleftrightarrow> Some r \<in> ref_of s ` set xs"
      using False s'(4) refs by (auto simp: image_iff)
    ultimately show ?thesis using ok by (simp add: buffer_ok_def)
  qed
  then have "buffer_ok s' (BUF i # xs)" using ok s'(2,3,6,7) ad by (simp add: buffer_ok_def same_lists_def ring_def)
  moreover have "gc_possible_root env x s = Inr s'"
    using i(1) s'(1) act nd(1) t z room
    by (auto simp: gc_possible_root_def node_ops record_root_def buf_index_def split: if_splits)
  ultimately show ?thesis using s'(4) by blast
qed

lemma take_out_spec:
  assumes ok: "buffer_ok s xs" and nd: "gc_heap s x = Some nd"
  shows "\<exists>s' ys. GC_REMOVE_FROM_BUFFER x s = Inr s' \<and> buffer_ok s' ys \<and> info_of s' x = 0 \<and>
    ref_of s' ` set ys = ref_of s ` set xs - {Some x}"
proof (cases "GC_ADDRESS (gc_info nd) = 0")
  case True
  have ad: "addressed s xs" using ok by (simp add: buffer_ok_def)
  have nx: "ref_of s p \<noteq> Some x" if "p \<in> set xs" for p
  proof
    assume "ref_of s p = Some x"
    then have "GC_ADDRESS (gc_info nd) = of_nat (root_addr p)" using addressed_entry(1) [OF ad that] nd by (simp add: info_of_def)
    moreover have "in_use s p" "limits_ok s" using ok that by (simp_all add: buffer_ok_def storage_def)
    ultimately show False using True in_use_addr(1,2) [of s p] small_info(4) [of "root_addr p"] by simp
  qed
  then have "Some x \<notin> ref_of s ` set xs" by (metis imageE)
  then have "color s x = GC_BLACK" using ok by (simp add: buffer_ok_def)
  then have "gc_info nd AND GC_COLOR = 0" using nd by (simp add: color_def GC_REF_GET_COLOR_def GC_INFO_GET_COLOR_def GC_BLACK_def)
  moreover have "gc_info nd AND NOT GC_COLOR = 0" using True by (simp add: GC_ADDRESS_def)
  moreover have "gc_info nd = (gc_info nd AND GC_COLOR) OR (gc_info nd AND NOT GC_COLOR)"
    by (simp add: bit.conj_disj_distrib [symmetric])
  ultimately have "info_of s x = 0" using nd by (simp add: info_of_def)
  then show ?thesis using True nd ok nx by (intro exI [of _ s] exI [of _ xs]) (auto simp: GC_REMOVE_FROM_BUFFER_def node_ops)
next
  case False
  have O: "roots_of s ROOTS xs" "storage s xs" "addressed s xs" "additional_buffer s = []" using ok by (simp_all add: buffer_ok_def)
  obtain p where p: "p \<in> set xs" "ref_of s p = Some x" using O(3) nd False unfolding addressed_def by blast
  obtain ks rs where xs: "xs = ks @ p # rs" using p(1) by (meson split_list)
  have ad: "GC_ADDRESS (gc_info nd) = of_nat (root_addr p)" using addressed_entry(1) [OF O(3) p] nd by (simp add: info_of_def)
  have use: "in_use s p" "limits_ok s" using O(2) p(1) by (auto simp: storage_def)
  obtain i where i: "p = BUF i" "i < GC_ROOT_BUFFER_MAX_ENTRIES"
    using use O(4) by (cases p) (auto simp: in_use_def limits_ok_def)
  have addr: "unat (GC_ADDRESS (gc_info nd)) = i"
    using ad i(1) small_info(3) [OF in_use_addr(2) [OF use]] by (simp add: root_addr_def)
  obtain t where t: "gc_remove_from_roots p s = Inr t" "gc_heap t = gc_heap s" "same_lists s t (ks @ rs)" "storage t (ks @ rs)"
      "roots_of t ROOTS (ks @ rs)" "additional_buffer t = additional_buffer s" "nxt t p \<noteq> None"
    using remove_storage [of s ks p rs] O(1,2) xs i by (auto simp: root_addr_def)
  let ?t = "t\<lparr>gc_heap := (gc_heap t)(x \<mapsto> nd\<lparr>gc_info := 0\<rparr>)\<rparr>"
  have dist: "p \<notin> set (ks @ rs)" using O(1) xs by (auto simp: ring_def)
  have refs: "\<forall>q\<in>set (ks @ rs). ref_of ?t q = ref_of s q" using t(3) by (simp add: same_lists_def)
  have adt: "addressed ?t (ks @ rs)"
    by (rule addressed_drop [OF O(3) [unfolded xs] p(2) nd refs _ dist]) (simp add: t(2))
  have inj: "inj_on (ref_of s) (set xs)" using O(3) by (simp add: addressed_def)
  have img: "ref_of ?t ` set (ks @ rs) = ref_of s ` set xs - {Some x}"
  proof -
    have "ref_of ?t ` set (ks @ rs) = ref_of s ` set (ks @ rs)" using refs by (intro image_cong refl) blast
    moreover have "Some x \<notin> ref_of s ` set (ks @ rs)"
    proof
      assume "Some x \<in> ref_of s ` set (ks @ rs)"
      then obtain q where q: "q \<in> set (ks @ rs)" "ref_of s q = Some x" by (metis imageE)
      then have "q = p" using inj_onD [OF inj, of q p] p xs by auto
      then show False using q(1) dist by simp
    qed
    ultimately show ?thesis using xs p(2) by auto
  qed
  have col: "color ?t r = (if r = x then GC_BLACK else color s r)" for r
    using t(2) by (simp add: color_def GC_REF_GET_COLOR_def GC_INFO_GET_COLOR_def GC_BLACK_def)
  have ok': "buffer_ok (?t\<lparr>gc_next_to_free := q\<rparr>) (ks @ rs)" for q
  proof -
    have "buffer_ok ?t (ks @ rs)"
      using ok t(3-6) adt col unfolding buffer_ok_def img by (auto simp: same_lists_def ring_def)
    then show ?thesis by (rule mutated_ok) (simp add: mutated_def info_of_def fun_eq_iff)
  qed
  have "nxt ?t p \<noteq> None" using t(7) by simp
  then obtain b where b: "root_at p ?t = Inr b" using entry_ops(1) by blast
  have "GC_REMOVE_FROM_BUFFER x s = Inr (if gc_next_to_free ?t = p then ?t\<lparr>gc_next_to_free := root_next b\<rparr> else ?t)"
    using nd False addr i t(1,2) b
    by (simp add: GC_REMOVE_FROM_BUFFER_def gc_remove_from_buffer_def node_ops GC_SET_INFO_def Let_def)
  moreover have "buffer_ok (if gc_next_to_free ?t = p then ?t\<lparr>gc_next_to_free := root_next b\<rparr> else ?t) (ks @ rs)"
    using ok' [of "root_next b"] ok' [of "gc_next_to_free ?t"] by simp
  ultimately show ?thesis using img by (intro exI conjI) (assumption+, auto simp: info_of_def ref_of_def)
qed

subsection \<open>All reachable states\<close>

lemma start_ok:
  assumes c: "gc_globals_ctor_ex s = Inr s1" and i: "gc_init (s1\<lparr>gc_enabled := True\<rparr>) = Inr s2" and z: "info_of s = (\<lambda>_. 0)"
  shows "buffer_ok s2 []"
proof -
  note ops = empty_list_def set_next_def set_prev_def change_root_def root_at_def
  obtain e1 where e1: "gc_roots s ROOTS = Some e1" using c by (cases "gc_roots s ROOTS") (simp_all add: gc_globals_ctor_ex_def ops)
  obtain e2 where e2: "gc_roots s TO_FREE = Some e2" using c e1 by (cases "gc_roots s TO_FREE") (simp_all add: gc_globals_ctor_ex_def ops)
  have s1: "s1 = s\<lparr>gc_enabled := False, gc_active := False, gc_buf := False,
      gc_unused := NULL_ROOT, gc_next_to_free := NULL_ROOT, gc_roots := (gc_roots s)(ROOTS \<mapsto> e1\<lparr>root_next := ROOTS, root_prev := ROOTS\<rparr>,
        TO_FREE \<mapsto> e2\<lparr>root_next := TO_FREE, root_prev := TO_FREE\<rparr>),
      gc_runs := 0, gc_collected := 0, additional_buffer := []\<rparr>"
    using c e1 e2 by (simp add: gc_globals_ctor_ex_def ops)
  have i2: "gc_heap s2 = gc_heap s" "gc_unused s2 = NULL_ROOT" "gc_first_unused s2 = 1" "gc_last_unused s2 = GC_ROOT_BUFFER_MAX_ENTRIES"
      "additional_buffer s2 = []" "nxt s2 ROOTS = Some ROOTS" "prv s2 ROOTS = Some ROOTS" "nxt s2 TO_FREE = Some TO_FREE"
      "prv s2 TO_FREE = Some TO_FREE" "\<forall>k < GC_ROOT_BUFFER_MAX_ENTRIES. nxt s2 (BUF k) \<noteq> None"
    using i by (auto simp: s1 gc_init_def gc_reset_def ops Let_def nxt_def prv_def)
  have "storage s2 []"
    using i2 by (auto simp: storage_def limits_ok_def allocated_def unused_ok_def GC_ROOT_BUFFER_MAX_ENTRIES_def intro!: exI [of _ "[]"])
  moreover have n: "info_of s2 = (\<lambda>_. 0)" using z i2(1) by (simp add: info_of_def fun_eq_iff)
  then have "addressed s2 []" by (simp add: addressed_info GC_ADDRESS_def)
  ultimately show ?thesis
    using i2 n by (simp add: buffer_ok_def ring_def color_info GC_INFO_GET_COLOR_def GC_BLACK_def)
qed

lemma reachable_ok: "gc_reachable s \<Longrightarrow> \<exists>xs. buffer_ok s xs"
proof (induction rule: gc_reachable.induct)
  case (start s s1 s2)
  then show ?case using start_ok by blast
next
  case (possible_root s env r s')
  then obtain xs where ok: "buffer_ok s xs" by blast
  have step: "\<exists>ys. buffer_ok t ys" if p: "gc_possible_root env q s = Inr t" and n: "gc_heap s q = Some nd" "gc_info nd = 0" for q nd t
  proof (cases "unclean_shutdown s \<or> gc_active s")
    case True
    then show ?thesis using p ok by (auto simp: gc_possible_root_def)
  next
    case act: False
    then have t: "case gc_type_data nd of GC_ARRAY _ \<Rightarrow> True | GC_OBJECT _ \<Rightarrow> True | _ \<Rightarrow> False"
      using p n by (auto simp: gc_possible_root_def node_ops split: if_splits)
    show ?thesis
    proof (cases "gc_unused s \<noteq> NULL_ROOT \<or> gc_first_unused s \<noteq> gc_last_unused s")
      case True
      then show ?thesis using possible_root_spec [OF ok n True t, of env] act p by auto
    next
      case False
      then have "\<not> gc_enabled s" using possible_root.hyps(2) by (simp add: must_collect_def)
      then have "t = s" using p n act False by (auto simp: gc_possible_root_def node_ops split: if_splits)
      then show ?thesis using ok by blast
    qed
  qed
  have leak: "\<exists>ys. buffer_ok t ys" if "(if GC_MAY_LEAK nd then gc_possible_root env q s else Inr s) = Inr t" "gc_heap s q = Some nd" for q nd t
    using that step ok by (cases "GC_MAY_LEAK nd") (auto simp: GC_MAY_LEAK_def)
  obtain nd where nd: "gc_heap s r = Some nd"
    using possible_root.hyps(3) by (cases "gc_heap s r") (auto simp: gc_check_possible_root_def node_at_def)
  show ?case
  proof (cases "\<exists>q. gc_type_data nd = GC_REFERENCE (ZV_COUNTED q)")
    case True
    then obtain q where q: "gc_type_data nd = GC_REFERENCE (ZV_COUNTED q)" by blast
    then obtain nq where "gc_heap s q = Some nq" "(if GC_MAY_LEAK nq then gc_possible_root env q s else Inr s) = Inr s'"
      using possible_root.hyps(3) nd by (cases "gc_heap s q") (auto simp: gc_check_possible_root_def node_at_def)
    then show ?thesis using leak by blast
  next
    case False
    then have "s' = s \<or> (if GC_MAY_LEAK nd then gc_possible_root env r s else Inr s) = Inr s'"
      using possible_root.hyps(3) nd by (auto simp: gc_check_possible_root_def node_ops split: gc_data.splits gc_zval.splits)
    then show ?thesis using leak nd ok by blast
  qed
next
  case (take_out s r s')
  then obtain xs where ok: "buffer_ok s xs" by blast
  obtain nd where "gc_heap s r = Some nd"
    using take_out.hyps(2) by (cases "gc_heap s r") (auto simp: GC_REMOVE_FROM_BUFFER_def node_at_def)
  then show ?case using take_out_spec [OF ok, of r nd] take_out.hyps(2) by auto
next
  case (program s s')
  then show ?case using mutated_ok by blast
qed

lemma buffer_settled:
  assumes ok: "buffer_ok s xs" and wf: "wf_heap s" "refs_counted s"
  shows "gc_settled s xs"
proof -
  have B: "roots_of s ROOTS xs" "addressed s xs" "\<And>r. color s r = (if Some r \<in> ref_of s ` set xs then GC_PURPLE else GC_BLACK)"
    using ok by (simp_all add: buffer_ok_def)
  have "\<exists>p\<in>set xs. ref_of s p = Some r" if "color s r = GC_PURPLE" for r
  proof -
    have "GC_PURPLE \<noteq> GC_BLACK" by (simp add: GC_PURPLE_def GC_BLACK_def)
    then have "Some r \<in> ref_of s ` set xs" using that B(3) [of r] by metis
    then show ?thesis by (metis imageE)
  qed
  moreover have "\<exists>r\<in>dom (gc_heap s). ref_of s p = Some r" if "p \<in> set xs" for p
  proof -
    have "\<exists>x. ref_of s p = Some x" using B(2) that unfolding addressed_def by blast
    then show ?thesis using addressed_entry(2) [OF B(2) that] by (auto simp: dom_def)
  qed
  moreover have "color s r = GC_BLACK \<or> color s r = GC_PURPLE" for r using B(3) [of r] by simp
  ultimately show ?thesis using ok wf B(1) by (simp add: gc_settled_def gc_ready_def buffer_ok_def)
qed

end
