(* ===== verification/Zend_GC_Destroy.thy ===== *)
theory Zend_GC_Destroy
  imports Zend_GC_Walk
begin

text \<open>
  \<open>zend_gc_collect_cycles\<close>: marking, scanning, collecting, then on the local copy of the list
  \<open>to_free\<close> the destructors, the destruction of the values and the release of the memory.
\<close>

text \<open>The handlers of the objects and \<open>zend_hash_destroy\<close> with the destructors of its values.\<close>

record gc_calls =
  call_dtor_obj :: "obj_handler \<Rightarrow> gc_ref \<Rightarrow> gc_globals \<Rightarrow> gc_globals res"
  call_free_obj :: "obj_handler \<Rightarrow> gc_ref \<Rightarrow> gc_globals \<Rightarrow> gc_globals res"
  hash_destroy :: "gc_ref \<Rightarrow> gc_globals \<Rightarrow> gc_globals res"

subsection \<open>Objects\<close>

definition object_in :: "gc_node \<Rightarrow> gc_object res" where
  "object_in nd = (case gc_data nd of GC_OBJECT ob \<Rightarrow> Inr ob | _ \<Rightarrow> Inl UB_UNION_MEMBER)"

definition gc_object_at :: "gc_ref \<Rightarrow> gc_globals \<Rightarrow> gc_object res" where
  "gc_object_at r s = res_bind (node_at r s) object_in"

definition change_gc_object :: "gc_ref \<Rightarrow> (gc_object \<Rightarrow> gc_object) \<Rightarrow> gc_globals \<Rightarrow> gc_globals res" where
  "change_gc_object r f s = res_bind (gc_object_at r s) (\<lambda>ob. change_node r (\<lambda>nd. nd\<lparr>gc_data := GC_OBJECT (f ob)\<rparr>) s)"

definition GC_TYPE_NULL :: "gc_ref \<Rightarrow> gc_globals \<Rightarrow> gc_globals res" where
  "GC_TYPE_NULL r = change_node r (\<lambda>nd. nd\<lparr>gc_type_null := True\<rparr>)"

text \<open>A handler runs with one reference more.\<close>

definition guarded :: "gc_ref \<Rightarrow> (gc_ref \<Rightarrow> gc_globals \<Rightarrow> gc_globals res) \<Rightarrow> gc_globals \<Rightarrow> gc_globals res" where
  "guarded r f s = res_bind (GC_ADDREF r s) (\<lambda>s. res_bind (f r s) (GC_DELREF r))"

definition put_bucket :: "u32 \<Rightarrow> pointer \<Rightarrow> gc_globals \<Rightarrow> gc_globals res" where
  "put_bucket handle p s =
     (if unat handle < length (gc_store s) then Inr (s\<lparr>gc_store := (gc_store s)[unat handle := p]\<rparr>)
      else Inl UB_OUT_OF_BOUNDS)"

subsection \<open>The loops over the local list\<close>

text \<open>
  The entry after the current one is kept in \<open>next_to_free\<close>, so that a structure that is taken out
  of the buffer meanwhile moves it on.
\<close>

definition with_next_to_free :: "(root_ptr \<Rightarrow> gc_ref \<Rightarrow> gc_globals \<Rightarrow> gc_globals res) \<Rightarrow> root_ptr \<Rightarrow> gc_globals \<Rightarrow>
    (root_ptr \<times> gc_globals) res" where
  "with_next_to_free f current s =
     res_bind (root_at current s) (\<lambda>b.
     res_bind (f current (root_ref b) (s\<lparr>gc_next_to_free := root_next b\<rparr>)) (\<lambda>s. Inr (gc_next_to_free s, s)))"

definition remember_refcount :: "root_ptr \<Rightarrow> gc_globals \<Rightarrow> (root_ptr \<times> gc_globals) res" where
  "remember_refcount current s =
     res_bind (root_at current s) (\<lambda>b.
     res_bind (node_at (root_ref b) s) (\<lambda>nd.
     res_bind (change_root current (\<lambda>b. b\<lparr>root_refcount := gc_refcount nd\<rparr>) s) (\<lambda>s.
     res_bind (root_at current s) (\<lambda>b. Inr (root_next b, s)))))"

definition call_destructor :: "gc_calls \<Rightarrow> root_ptr \<Rightarrow> gc_ref \<Rightarrow> gc_globals \<Rightarrow> gc_globals res" where
  "call_destructor H current p s =
     res_bind (node_at p s) (\<lambda>nd.
     case gc_type_data nd of
       GC_OBJECT ob \<Rightarrow>
         if gco_destructor_called ob then Inr s
         else res_bind (change_gc_object p (\<lambda>ob. ob\<lparr>gco_destructor_called := True\<rparr>) s) (\<lambda>s.
           case gc_destructor_of ob of
             None \<Rightarrow> Inr s
           | Some d \<Rightarrow> guarded p (call_dtor_obj H d) s)
     | _ \<Rightarrow> Inr s)"

definition drop_captured :: "nat \<Rightarrow> root_ptr \<Rightarrow> gc_ref \<Rightarrow> gc_globals \<Rightarrow> gc_globals res" where
  "drop_captured depth current p s =
     res_bind (root_at current s) (\<lambda>b.
     res_bind (node_at p s) (\<lambda>nd.
       if gc_refcount nd > root_refcount b then gc_remove_nested_data_from_buffer depth p current s else Inr s))"

definition destroy_object :: "gc_calls \<Rightarrow> root_ptr \<Rightarrow> gc_ref \<Rightarrow> gc_object \<Rightarrow> gc_globals \<Rightarrow> gc_globals res" where
  "destroy_object H current p ob s =
     res_bind (put_bucket (gco_handle ob) (SET_OBJ_INVALID p) s) (\<lambda>s.
     res_bind (GC_TYPE_NULL p s) (\<lambda>s.
     res_bind
       (if gco_free_called ob then Inr s
        else res_bind (change_gc_object p (\<lambda>ob. ob\<lparr>gco_free_called := True\<rparr>) s) (\<lambda>s.
          case gco_free ob of
            None \<Rightarrow> Inr s
          | Some f \<Rightarrow> guarded p (call_free_obj H f) s)) (\<lambda>s.
     res_bind (gc_object_at p s) (\<lambda>ob.
     res_bind (put_bucket (gco_handle ob) (SET_OBJ_BUCKET_NUMBER (gc_free_list_head s)) s) (\<lambda>s.
       change_root current (\<lambda>b. b\<lparr>root_ref := p - gco_offset ob\<rparr>)
         (s\<lparr>gc_free_list_head := gco_handle ob\<rparr>))))))"

definition destroy_value :: "gc_calls \<Rightarrow> root_ptr \<Rightarrow> gc_ref \<Rightarrow> gc_globals \<Rightarrow> gc_globals res" where
  "destroy_value H current p s =
     res_bind (node_at p s) (\<lambda>nd.
     case gc_type_data nd of
       GC_OBJECT ob \<Rightarrow> destroy_object H current p ob s
     | GC_ARRAY _ \<Rightarrow> res_bind (GC_TYPE_NULL p s) (hash_destroy H p)
     | _ \<Rightarrow> Inr s)"

definition efree :: "pointer \<Rightarrow> gc_globals \<Rightarrow> gc_globals res" where
  "efree p s = (case gc_blocks s p of
       None \<Rightarrow> Inl UB_USE_AFTER_FREE
     | Some r \<Rightarrow> Inr (s\<lparr>gc_heap := (gc_heap s)(r := None), gc_blocks := (gc_blocks s)(p := None)\<rparr>))"

definition free_root :: "root_ptr \<Rightarrow> gc_globals \<Rightarrow> (root_ptr \<times> gc_globals) res" where
  "free_root current s =
     res_bind (root_at current s) (\<lambda>b.
     res_bind (if (case current of BUF i \<Rightarrow> i < GC_ROOT_BUFFER_MAX_ENTRIES | _ \<Rightarrow> False) then give_back current s else Inr s) (\<lambda>s.
     res_bind (efree (root_ref b) s) (\<lambda>s. Inr (root_next b, s))))"

text \<open>The additional buffers that came after there were \<open>n\<close>, with their entries.\<close>

fun free_additional :: "nat \<Rightarrow> nat list \<Rightarrow> gc_globals \<Rightarrow> gc_globals res" where
  "free_additional n bufs s =
     (if length bufs = n then Inr s
      else case bufs of
        [] \<Rightarrow> Inl UB_NULL_POINTER
      | _ # bufs \<Rightarrow> free_additional n bufs (s\<lparr>additional_buffer := bufs,
          gc_roots := (\<lambda>p. case p of ADDITIONAL b i \<Rightarrow> if b = length bufs then None else gc_roots s p
                                   | _ \<Rightarrow> gc_roots s p)\<rparr>))"

declare free_additional.simps [simp del]

subsection \<open>A collection\<close>

abbreviation local_loop :: "(root_ptr \<Rightarrow> gc_globals \<Rightarrow> (root_ptr \<times> gc_globals) res) \<Rightarrow> gc_globals \<Rightarrow> gc_globals res option" where
  "local_loop body \<equiv> from_first body LOCAL_TO_FREE"

definition run_destructors :: "nat \<Rightarrow> gc_calls \<Rightarrow> gc_globals \<Rightarrow> gc_globals res option" where
  "run_destructors depth H s =
     run_bind (local_loop remember_refcount s) (\<lambda>s.
     run_bind (local_loop (with_next_to_free (call_destructor H)) s)
       (local_loop (with_next_to_free (drop_captured depth))))"

text \<open>The local head takes the list over; \<open>to_free\<close> is empty again.\<close>

definition take_to_free :: "gc_globals \<Rightarrow> gc_globals res" where
  "take_to_free s =
     res_bind (move_list TO_FREE LOCAL_TO_FREE (s\<lparr>gc_roots := (gc_roots s)(LOCAL_TO_FREE \<mapsto> unset_root)\<rparr>))
       (empty_list TO_FREE)"

definition destroy_and_free :: "gc_calls \<Rightarrow> nat \<Rightarrow> u32 \<Rightarrow> root_ptr \<Rightarrow> gc_globals \<Rightarrow> (u32 \<times> gc_globals) res option" where
  "destroy_and_free H snapshot num orig_next_to_free s =
     run_bind (local_loop (with_next_to_free (destroy_value H)) (s\<lparr>gc_active := True\<rparr>)) (\<lambda>s.
     run_bind (local_loop free_root s) (\<lambda>s.
     run_bind (Some (free_additional snapshot (additional_buffer s) s)) (\<lambda>s.
       Some (Inr (num, s\<lparr>gc_collected := gc_collected s + num, gc_next_to_free := orig_next_to_free, gc_active := False\<rparr>)))))"

definition zend_gc_collect_cycles :: "nat \<Rightarrow> gc_calls \<Rightarrow> gc_globals \<Rightarrow> (u32 \<times> gc_globals) res option" where
  "zend_gc_collect_cycles depth H s =
     run_bind (Some (root_at ROOTS s)) (\<lambda>h.
       if root_next h = ROOTS \<or> gc_active s then Some (Inr (0, s))
       else
         run_bind (gc_mark_roots depth (s\<lparr>gc_runs := gc_runs s + 1, gc_active := True\<rparr>)) (\<lambda>s.
         run_bind (gc_scan_roots depth s) (\<lambda>s.
         let snapshot = length (additional_buffer s) in
         run_bind (gc_collect_roots depth 0 s) (\<lambda>(num, flags, s).
         let s = s\<lparr>gc_active := False\<rparr> in
         run_bind (Some (root_at TO_FREE s)) (\<lambda>t.
           if root_next t = TO_FREE then Some (Inr (0, s))
           else
             run_bind (Some (take_to_free s)) (\<lambda>s.
             let orig_next_to_free = gc_next_to_free s in
             run_bind (if flags AND GC_HAS_DESTRUCTORS \<noteq> 0 then run_destructors depth H s else Some (Inr s))
               (destroy_and_free H snapshot num orig_next_to_free)))))))"

end
