(* ===== verification/Zend_GC_Run.thy ===== *)
theory Zend_GC_Run
  imports Zend_GC_Cycle Zend_GC_Destroy
begin

text \<open>The counters and flags of a run are no part of what the phases look at.\<close>

lemma follow_fields [simp]: "follow (s\<lparr>gc_runs := n\<rparr>) = follow s" "follow (s\<lparr>gc_active := b\<rparr>) = follow s"
  by (rule follow_cong, simp)+

lemma run_fields [simp]:
  "color (s\<lparr>gc_runs := n\<rparr>) = color s" "rc (s\<lparr>gc_runs := n\<rparr>) = rc s" "kids (s\<lparr>gc_runs := n\<rparr>) = kids s"
  "nxt (s\<lparr>gc_runs := n\<rparr>) = nxt s" "prv (s\<lparr>gc_runs := n\<rparr>) = prv s" "ref_of (s\<lparr>gc_runs := n\<rparr>) = ref_of s"
  "color (s\<lparr>gc_active := b\<rparr>) = color s" "rc (s\<lparr>gc_active := b\<rparr>) = rc s" "kids (s\<lparr>gc_active := b\<rparr>) = kids s"
  "nxt (s\<lparr>gc_active := b\<rparr>) = nxt s" "prv (s\<lparr>gc_active := b\<rparr>) = prv s" "ref_of (s\<lparr>gc_active := b\<rparr>) = ref_of s"
  by (auto simp: color_def rc_def kids_def node_refs_def is_symbol_table_def nxt_def prv_def ref_of_def fun_eq_iff
      split: option.splits gc_data.splits)

lemma run_settled [simp]:
  "gc_settled (s\<lparr>gc_runs := n, gc_active := b\<rparr>) xs = gc_settled s xs"
  "garbage (s\<lparr>gc_runs := n, gc_active := b\<rparr>) = garbage s"
  "to_destroy (s\<lparr>gc_runs := n, gc_active := b\<rparr>) xs = to_destroy s xs"
proof -
  let ?s = "s\<lparr>gc_runs := n, gc_active := b\<rparr>"
  show g: "garbage ?s = garbage s" by (simp add: garbage_def reached_def outside_refs_def)
  show "to_destroy ?s xs = to_destroy s xs" unfolding to_destroy_def g by (simp add: buffered_def)
  have "is_symbol_table r nd ?s = is_symbol_table r nd s" for r nd
    by (simp add: is_symbol_table_def split: gc_data.splits)
  then have "wf_heap ?s = wf_heap s" by (simp add: wf_heap_def)
  moreover have "in_use ?s p = in_use s p" for p by (cases p) (simp_all add: in_use_def)
  then have "storage ?s xs = storage s xs"
    by (simp add: storage_def limits_ok_def allocated_def unused_ok_def)
  moreover have "addressed ?s xs = addressed s xs" by (simp add: addressed_def)
  ultimately show "gc_settled ?s xs = gc_settled s xs" by (simp add: gc_settled_def gc_ready_def refs_counted_def)
qed

lemma first_entry:
  assumes "roots_of s h xs"
  obtains b where "root_at h s = Inr b" "root_next b = hd (xs @ [h])"
proof -
  have "nxt s h = Some (hd (xs @ [h]))" using assms by (auto simp: ring_def dest: chain_first)
  then show thesis using entry_ops(1) [of s h] that by auto
qed

end
