(* ===== verification/Zend_GC_Teardown.thy ===== *)
theory Zend_GC_Teardown
  imports Zend_GC_Steps Zend_GC_Run
begin

text \<open>
  The destruction of the garbage: what the handlers may do while the collector goes along its local
  list, and that the list stays well formed whatever structures they take out of it.
\<close>

subsection \<open>The local list\<close>

definition tearing :: "gc_globals \<Rightarrow> root_ptr list \<Rightarrow> bool" where
  "tearing s L \<longleftrightarrow> roots_of s LOCAL_TO_FREE L \<and> storage s L \<and> addressed s L \<and>
     (\<forall>b i. in_use s (ADDITIONAL b i) \<longrightarrow> ADDITIONAL b i \<in> set L \<or> ref_of s (ADDITIONAL b i) \<notin> ref_of s ` set L) \<and>
     roots_of s ROOTS [] \<and> roots_of s TO_FREE [] \<and> (\<forall>x. color s x = GC_BLACK)"

text \<open>Changes that leave the buffer and the headers alone.\<close>

definition same_buffer :: "gc_globals \<Rightarrow> gc_globals \<Rightarrow> bool" where
  "same_buffer s s' \<longleftrightarrow> gc_roots s' = gc_roots s \<and> gc_unused s' = gc_unused s \<and> gc_first_unused s' = gc_first_unused s \<and>
     gc_last_unused s' = gc_last_unused s \<and> additional_buffer s' = additional_buffer s \<and> info_of s' = info_of s"

lemma same_buffer_fields:
  assumes "same_buffer s s'"
  shows "nxt s' = nxt s" "prv s' = prv s" "ref_of s' = ref_of s" "in_use s' p = in_use s p" "storage s' xs = storage s xs"
    "info_of s' = info_of s" "color s' = color s" "addressed s xs \<Longrightarrow> storage s xs \<Longrightarrow> addressed s' xs"
proof -
  show e: "nxt s' = nxt s" "prv s' = prv s" "ref_of s' = ref_of s" using assms by (simp_all add: same_buffer_def nxt_def prv_def ref_of_def fun_eq_iff)
  show i: "info_of s' = info_of s" using assms by (simp add: same_buffer_def)
  show "color s' = color s" by (simp add: fun_eq_iff color_info i)
  show u: "in_use s' p = in_use s p" for p using assms by (cases p) (simp_all add: in_use_def same_buffer_def)
  show "storage s' xs = storage s xs"
    using assms by (simp add: storage_def u limits_ok_def allocated_def unused_ok_def e same_buffer_def)
  assume ad: "addressed s xs" and st: "storage s xs"
  have live: "gc_heap s' x \<noteq> None" if "p \<in> set xs" "ref_of s p = Some x" for p x
  proof
    assume "gc_heap s' x = None"
    then have "info_of s' x = 0" by (simp add: info_of_def)
    then have "(of_nat (root_addr p) :: u16) = 0" using i addressed_entry(1) [OF ad that] by (simp add: GC_ADDRESS_def)
    moreover have "in_use s p" "limits_ok s" using st that(1) by (simp_all add: storage_def)
    ultimately show False using in_use_addr(1,2) [of s p] small_info(4) [of "root_addr p"] by simp
  qed
  show "addressed s' xs" using ad live unfolding addressed_info e i by metis
qed

lemma tearing_same: "tearing s L \<Longrightarrow> same_buffer s s' \<Longrightarrow> tearing s' L"
  by (simp add: tearing_def same_buffer_fields)

lemma info_unlisted:
  assumes t: "tearing s L" and n: "Some x \<notin> ref_of s ` set L"
  shows "info_of s x = 0"
proof -
  have "GC_ADDRESS (info_of s x) = 0" using t n unfolding tearing_def addressed_info by (metis image_eqI)
  moreover have "GC_INFO_GET_COLOR (info_of s x) = 0" using t by (simp add: tearing_def color_info GC_BLACK_def)
  moreover have "info_of s x = (info_of s x AND GC_COLOR) OR (info_of s x AND NOT GC_COLOR)"
    by (simp add: bit.conj_disj_distrib [symmetric])
  ultimately show ?thesis by (simp add: GC_ADDRESS_def GC_INFO_GET_COLOR_def)
qed

lemma info_listed:
  assumes t: "tearing s L" and p: "p \<in> set L" "ref_of s p = Some x"
  shows "GC_ADDRESS (info_of s x) = of_nat (root_addr p)" "info_of s x \<noteq> 0" "gc_heap s x \<noteq> None"
    "unat (GC_ADDRESS (info_of s x)) = root_addr p"
proof -
  have ad: "addressed s L" and u: "in_use s p" "limits_ok s" using t p(1) by (auto simp: tearing_def storage_def)
  show a: "GC_ADDRESS (info_of s x) = of_nat (root_addr p)" "gc_heap s x \<noteq> None" using addressed_entry [OF ad p] by auto
  have "(of_nat (root_addr p) :: u16) \<noteq> 0"
    using in_use_addr(1,2) [OF u] small_info(4) [of "root_addr p"] by simp
  then show "info_of s x \<noteq> 0" using a(1) by (auto simp: GC_ADDRESS_def)
  show "unat (GC_ADDRESS (info_of s x)) = root_addr p" using a(1) small_info(3) [OF in_use_addr(2) [OF u]] by simp
qed

subsection \<open>Taking a structure out of the local list\<close>

lemma find_additional_spec:
  assumes "gc_roots s (ADDITIONAL c i) = Some b" "root_ref b = r" "c < length bufs" "i < rev bufs ! c" "unat idx = i"
    and "\<And>d. c < d \<Longrightarrow> d < length bufs \<Longrightarrow> i < rev bufs ! d \<Longrightarrow>
      \<exists>e. gc_roots s (ADDITIONAL d i) = Some e \<and> root_ref e \<noteq> r"
  shows "find_additional idx r bufs s = Inr (ADDITIONAL c i)"
  using assms(3-6)
proof (induction bufs)
  case (Cons used bufs)
  show ?case
  proof (cases "c = length bufs")
    case True
    then have "i < used" using Cons.prems(2) by (simp add: nth_append)
    then show ?thesis using True assms(1,2) Cons.prems(3) by (simp add: root_at_def)
  next
    case False
    then have c: "c < length bufs" using Cons.prems(1) by simp
    have rest: "find_additional idx r bufs s = Inr (ADDITIONAL c i)"
    proof (rule Cons.IH [OF c _ Cons.prems(3)])
      show "i < rev bufs ! c" using Cons.prems(2) c by (simp add: nth_append)
      show "\<exists>e. gc_roots s (ADDITIONAL d i) = Some e \<and> root_ref e \<noteq> r" if "c < d" "d < length bufs" "i < rev bufs ! d" for d
        using Cons.prems(4) [of d] that by (simp add: nth_append)
    qed
    show ?thesis
    proof (cases "unat idx < used")
      case True
      then obtain e where "gc_roots s (ADDITIONAL (length bufs) i) = Some e" "root_ref e \<noteq> r"
        using Cons.prems(4) [of "length bufs"] Cons.prems(3) c by (auto simp: nth_append)
      then show ?thesis using True rest Cons.prems(3) by (simp add: root_at_def)
    qed (simp add: rest)
  qed
qed simp

lemma entry_found:
  assumes t: "tearing s L" and q: "q \<in> set L" "ref_of s q = Some x" "q = ADDITIONAL c i"
    and nd: "gc_heap s x = Some nd"
  shows "gc_find_additional_buffer x s = Inr q"
proof -
  have st: "storage s L" and ad: "addressed s L" using t by (simp_all add: tearing_def)
  have use: "in_use s q" "limits_ok s" using st q(1) by (simp_all add: storage_def)
  have a: "unat (GC_ADDRESS (gc_info nd)) = GC_ROOT_BUFFER_MAX_ENTRIES + i"
    using info_listed(4) [OF t q(1,2)] nd q(3) by (simp add: info_of_def root_addr_def)
  have lt: "GC_ROOT_BUFFER_MAX_ENTRIES + i < 2 ^ 14" using in_use_addr(2) [OF use] q(3) by (simp add: root_addr_def)
  have "unat (ucast (GC_ADDRESS (gc_info nd)) - of_nat GC_ROOT_BUFFER_MAX_ENTRIES :: u32) = i"
  proof -
    have "(ucast (GC_ADDRESS (gc_info nd)) :: u32) = of_nat (GC_ROOT_BUFFER_MAX_ENTRIES + i)"
      by (simp only: a [symmetric] of_nat_unat)
    then have "ucast (GC_ADDRESS (gc_info nd)) - of_nat GC_ROOT_BUFFER_MAX_ENTRIES = (of_nat i :: u32)" by simp
    moreover have "i < 2 ^ LENGTH(32)" using lt by simp
    ultimately show ?thesis by (simp only: unat_of_nat) (simp add: take_bit_nat_eq_self)
  qed
  moreover obtain b where "gc_roots s (ADDITIONAL c i) = Some b" "root_ref b = x"
    using q(2,3) by (auto simp: ref_of_def)
  moreover have "\<exists>e. gc_roots s (ADDITIONAL d i) = Some e \<and> root_ref e \<noteq> x"
    if d: "c < d" "d < length (additional_buffer s)" "i < rev (additional_buffer s) ! d" for d
  proof -
    have u: "in_use s (ADDITIONAL d i)" using d by (simp add: in_use_def)
    have "rev (additional_buffer s) ! d \<in> set (additional_buffer s)"
      using d(2) nth_mem [of d "rev (additional_buffer s)"] by simp
    then have "i < GC_NUM_ADDITIONAL_ENTRIES" using d(3) use(2) unfolding limits_ok_def by (meson less_le_trans)
    then have "nxt s (ADDITIONAL d i) \<noteq> None" using st d(2) by (simp add: storage_def allocated_def)
    then obtain e where e: "gc_roots s (ADDITIONAL d i) = Some e" by (auto simp: nxt_def)
    have "ref_of s (ADDITIONAL d i) \<noteq> Some x"
    proof (cases "ADDITIONAL d i \<in> set L")
      case True
      have "inj_on (ref_of s) (set L)" using ad by (simp add: addressed_def)
      then show ?thesis using inj_onD [of "ref_of s" "set L" "ADDITIONAL d i" q] True q d(1) by auto
    next
      case False
      then have "ref_of s (ADDITIONAL d i) \<notin> ref_of s ` set L" using t u unfolding tearing_def by blast
      then show ?thesis using q(1,2) by (metis image_eqI)
    qed
    then show ?thesis using e by (simp add: ref_of_def)
  qed
  ultimately show ?thesis using nd q(3) use(1)
    by (auto simp: gc_find_additional_buffer_def node_ops in_use_def intro!: find_additional_spec)
qed

lemma tear_take_out:
  assumes t: "tearing s L" and nd: "gc_heap s x = Some nd" and r: "GC_REMOVE_FROM_BUFFER x s = Inr s'"
  shows "s' = s \<and> info_of s x = 0 \<or> (\<exists>ks q rs. L = ks @ q # rs \<and> ref_of s q = Some x \<and> tearing s' (ks @ rs) \<and> ref_of s' = ref_of s \<and>
    info_of s' = (info_of s)(x := 0) \<and> gc_heap s' = (gc_heap s)(x \<mapsto> nd\<lparr>gc_info := 0\<rparr>) \<and>
    gc_blocks s' = gc_blocks s \<and> gc_store s' = gc_store s \<and>
    gc_next_to_free s' = (if gc_next_to_free s = q then hd (rs @ [LOCAL_TO_FREE]) else gc_next_to_free s))"
proof (cases "Some x \<in> ref_of s ` set L")
  case False
  then have "info_of s x = 0" by (rule info_unlisted [OF t])
  moreover then have "GC_ADDRESS (gc_info nd) = 0" using nd by (simp add: info_of_def GC_ADDRESS_def)
  ultimately show ?thesis using r nd by (simp add: GC_REMOVE_FROM_BUFFER_def node_ops)
next
  case True
  then obtain q where q: "q \<in> set L" "ref_of s q = Some x" by (metis imageE)
  obtain ks rs where L: "L = ks @ q # rs" using q(1) by (meson split_list)
  have T: "roots_of s LOCAL_TO_FREE (ks @ q # rs)" "storage s (ks @ q # rs)" "addressed s (ks @ q # rs)"
    using t L by (simp_all add: tearing_def)
  have use: "in_use s q" "limits_ok s" using T(2) by (simp_all add: storage_def)
  have a: "unat (GC_ADDRESS (gc_info nd)) = root_addr q" using info_listed(4) [OF t q] nd by (simp add: info_of_def)
  have "root_addr q > 0" using in_use_addr(1) [OF use] .
  then have nz: "GC_ADDRESS (gc_info nd) \<noteq> 0" using a by auto
  obtain s1 where s1: "(if root_addr q < GC_ROOT_BUFFER_MAX_ENTRIES then gc_remove_from_roots q s
        else gc_remove_from_additional_roots q s) = Inr s1" "only_entries s s1" "ref_of s1 = ref_of s" "storage s1 (ks @ rs)"
      "roots_of s1 LOCAL_TO_FREE (ks @ rs)" "other_heads LOCAL_TO_FREE s s1" "nxt s1 q = nxt s q"
    using remove_entry [OF T(2,1)] by (auto simp: is_head_def)
  note O = only_entriesD [OF s1(2)]
  let ?t = "s1\<lparr>gc_heap := (gc_heap s1)(x \<mapsto> nd\<lparr>gc_info := 0\<rparr>)\<rparr>"
  have nq: "nxt s q = Some (hd (rs @ [LOCAL_TO_FREE]))" by (rule ring_next(1) [OF T(1)])
  then obtain b where b: "root_at q ?t = Inr b" "root_next b = hd (rs @ [LOCAL_TO_FREE])"
    using entry_ops(1) [of ?t q] s1(7) by auto
  let ?s = "if gc_next_to_free ?t = q then ?t\<lparr>gc_next_to_free := root_next b\<rparr> else ?t"
  have "GC_REMOVE_FROM_BUFFER x s = Inr ?s"
  proof (cases "root_addr q < GC_ROOT_BUFFER_MAX_ENTRIES")
    case True
    then obtain i where i: "q = BUF i" using in_use_addr(3) [OF use] by blast
    then have "unat (GC_ADDRESS (gc_info nd)) = i" using a by (simp add: root_addr_def)
    then show ?thesis using nd nz i True s1(1) O(1) b(1)
      by (simp add: GC_REMOVE_FROM_BUFFER_def gc_remove_from_buffer_def node_ops GC_SET_INFO_def Let_def root_addr_def)
  next
    case False
    then obtain c i where "q = ADDITIONAL c i"
      using use(1) in_use_addr(3) [OF use] by (cases q) (auto simp: in_use_def)
    then have "gc_find_additional_buffer x s = Inr q" using entry_found [OF t q _ nd] by blast
    then show ?thesis using nd nz a False s1(1) O(1) b(1)
      by (simp add: GC_REMOVE_FROM_BUFFER_def gc_remove_from_buffer_def node_ops GC_SET_INFO_def)
  qed
  then have s': "s' = ?s" using r by simp
  have inj: "inj_on (ref_of s) (set L)" using t by (simp add: tearing_def addressed_def)
  have dist: "q \<notin> set (ks @ rs)" using T(1) by (auto simp: ring_def)
  have adt: "addressed ?t (ks @ rs)"
    by (rule addressed_drop [OF T(3) q(2) nd _ _ dist]) (simp_all add: s1(3) O(1))
  have inf: "info_of ?t = (info_of s)(x := 0)" using O(1) by (simp add: info_of_def fun_eq_iff)
  have "color ?t y = GC_BLACK" for y
    using t inf by (simp add: tearing_def color_info GC_INFO_GET_COLOR_def GC_BLACK_def)
  moreover have "ADDITIONAL c i \<in> set (ks @ rs) \<or> ref_of s (ADDITIONAL c i) \<notin> ref_of s ` set (ks @ rs)"
    if "in_use ?t (ADDITIONAL c i)" for c i
  proof (cases "ADDITIONAL c i = q")
    case True
    then show ?thesis using inj dist L by (auto simp: inj_on_def)
  next
    case False
    have "in_use s (ADDITIONAL c i)" using that O(7) by (simp add: in_use_def)
    then show ?thesis using t False L by (auto simp: tearing_def)
  qed
  moreover have "roots_of s1 ROOTS []" "roots_of s1 TO_FREE []"
    using t s1(6) by (auto simp: tearing_def ring_def other_heads_def is_head_def)
  ultimately have "tearing ?t (ks @ rs)" using s1(3-5) adt by (simp add: tearing_def)
  moreover have "same_buffer ?t ?s" by (simp add: same_buffer_def info_of_def fun_eq_iff)
  ultimately have "tearing ?s (ks @ rs)" by (rule tearing_same)
  then have t': "tearing s' (ks @ rs)" unfolding s' .
  have "ref_of s' = ref_of s" "info_of s' = (info_of s)(x := 0)"
    using inf s1(3) by (simp_all add: s' ref_of_def info_of_def fun_eq_iff)
  moreover have "gc_heap s' = (gc_heap s)(x \<mapsto> nd\<lparr>gc_info := 0\<rparr>)" "gc_blocks s' = gc_blocks s" "gc_store s' = gc_store s"
    "gc_next_to_free s' = (if gc_next_to_free s = q then hd (rs @ [LOCAL_TO_FREE]) else gc_next_to_free s)"
    using O b(2) by (simp_all add: s')
  ultimately show ?thesis using L q(2) t' by blast
qed

subsection \<open>What handlers do\<close>

text \<open>What the collector reads of a structure it has still to free.\<close>

definition node_frame :: "gc_node \<Rightarrow> bool \<times> ((u32 \<times> pointer) + bool)" where
  "node_frame nd = (gc_type_null nd, case gc_data nd of GC_OBJECT ob \<Rightarrow> Inl (gco_handle ob, gco_offset ob)
     | GC_ARRAY _ \<Rightarrow> Inr True | _ \<Rightarrow> Inr False)"

definition framed :: "gc_globals \<Rightarrow> gc_globals \<Rightarrow> gc_ref \<Rightarrow> bool" where
  "framed s s' x \<longleftrightarrow> map_option node_frame (gc_heap s' x) = map_option node_frame (gc_heap s x) \<and>
     gc_blocks s' x = gc_blocks s x"

text \<open>
  Structures that are in no entry change and come and go, but no memory of the garbage \<open>D\<close> is used again; those in
  entries keep their type and memory; entries only go by way of the buffer.
\<close>

definition touched :: "gc_ref set \<Rightarrow> gc_globals \<Rightarrow> gc_globals \<Rightarrow> bool" where
  "touched D s s' \<longleftrightarrow> same_buffer s s' \<and> gc_next_to_free s' = gc_next_to_free s \<and>
     length (gc_store s') = length (gc_store s) \<and> (\<forall>x. info_of s x \<noteq> 0 \<longrightarrow> framed s s' x) \<and>
     (\<forall>x\<in>D. gc_heap s x = None \<longrightarrow> gc_heap s' x = None)"

inductive torn :: "gc_ref set \<Rightarrow> gc_globals \<Rightarrow> gc_globals \<Rightarrow> bool" for D where
  torn_refl: "torn D s s"
| torn_touch: "torn D s s1 \<Longrightarrow> touched D s1 s2 \<Longrightarrow> torn D s s2"
| torn_take_out: "torn D s s1 \<Longrightarrow> gc_heap s1 x = Some nd \<Longrightarrow> \<not> gc_type_null nd \<Longrightarrow> GC_REMOVE_FROM_BUFFER x s1 = Inr s2 \<Longrightarrow>
    torn D s s2"

text \<open>What a handler took out of the buffer it has freed when it returns.\<close>

definition orderly_call :: "gc_ref set \<Rightarrow> (gc_ref \<Rightarrow> gc_globals \<Rightarrow> gc_globals res) \<Rightarrow> bool" where
  "orderly_call D f \<longleftrightarrow> (\<forall>r s L. tearing s L \<longrightarrow> gc_heap s r \<noteq> None \<longrightarrow>
     (\<exists>s'. f r s = Inr s' \<and> torn D s s' \<and>
       (\<forall>x\<in>D. info_of s x \<noteq> 0 \<longrightarrow> info_of s' x = 0 \<longrightarrow> gc_heap s' x = None)))"

definition orderly :: "gc_calls \<Rightarrow> gc_ref set \<Rightarrow> bool" where
  "orderly H D \<longleftrightarrow> orderly_call D (hash_destroy H) \<and> (\<forall>h. orderly_call D (call_free_obj H h))"

text \<open>The entries \<open>K\<close> are done, \<open>M\<close> are those to come.\<close>

definition done_and_to_come :: "gc_globals \<Rightarrow> root_ptr list \<Rightarrow> root_ptr list \<Rightarrow> bool" where
  "done_and_to_come s K M \<longleftrightarrow> tearing s (K @ M) \<and>
     (\<forall>k\<in>set K. \<exists>x nd. ref_of s k = Some x \<and> gc_heap s x = Some nd \<and> gc_type_null nd) \<and>
     gc_next_to_free s = hd (M @ [LOCAL_TO_FREE])"

definition later :: "gc_ref set \<Rightarrow> gc_globals \<Rightarrow> gc_globals \<Rightarrow> bool" where
  "later D s s' \<longleftrightarrow> ref_of s' = ref_of s \<and> length (gc_store s') = length (gc_store s) \<and>
     (\<forall>x. info_of s' x \<noteq> 0 \<longrightarrow> info_of s x \<noteq> 0 \<and> framed s s' x) \<and>
     (\<forall>x\<in>D. gc_heap s x = None \<longrightarrow> gc_heap s' x = None)"

lemma later_refl [simp]: "later D s s"
  by (simp add: later_def framed_def)

lemma later_trans:
  assumes a: "later D s s1" and b: "later D s1 s2"
  shows "later D s s2"
proof -
  have "info_of s x \<noteq> 0 \<and> framed s s2 x" if "info_of s2 x \<noteq> 0" for x
  proof -
    have "info_of s1 x \<noteq> 0" "framed s1 s2 x" using b that by (simp_all add: later_def)
    moreover then have "info_of s x \<noteq> 0" "framed s s1 x" using a by (simp_all add: later_def)
    ultimately show ?thesis by (simp add: framed_def)
  qed
  then show ?thesis using a b by (simp add: later_def)
qed

lemma touched_later: "touched D s s' \<Longrightarrow> later D s s'"
  unfolding touched_def later_def by (metis same_buffer_fields(3,6))

lemma touched_row:
  assumes ok: "done_and_to_come s K M" and t: "touched D s s'"
  shows "done_and_to_come s' K M"
proof -
  have b: "same_buffer s s'" "gc_next_to_free s' = gc_next_to_free s" using t by (simp_all add: touched_def)
  have T: "tearing s (K @ M)" using ok by (simp add: done_and_to_come_def)
  have "\<exists>x nd. ref_of s' k = Some x \<and> gc_heap s' x = Some nd \<and> gc_type_null nd" if k: "k \<in> set K" for k
  proof -
    obtain x nd where x: "ref_of s k = Some x" "gc_heap s x = Some nd" "gc_type_null nd"
      using ok k unfolding done_and_to_come_def by blast
    have "info_of s x \<noteq> 0" using info_listed(2) [OF T _ x(1)] k by simp
    then have "map_option node_frame (gc_heap s' x) = Some (node_frame nd)" using t x(2) by (simp add: touched_def framed_def)
    then obtain nd' where "gc_heap s' x = Some nd'" "node_frame nd' = node_frame nd" by auto
    then show ?thesis using x(1,3) same_buffer_fields(3) [OF b(1)] by (simp add: node_frame_def)
  qed
  then show ?thesis using ok tearing_same [OF T b(1)] b(2) by (simp add: done_and_to_come_def)
qed

lemma take_out_row:
  assumes ok: "done_and_to_come s K M" and x: "gc_heap s x = Some nd" "\<not> gc_type_null nd"
    and r: "GC_REMOVE_FROM_BUFFER x s = Inr s'"
  shows "later D s s' \<and> (\<exists>M'. done_and_to_come s' K M' \<and> length M' \<le> length M \<and> set M' \<subseteq> set M)"
proof -
  have T: "tearing s (K @ M)" and N: "\<And>k. k \<in> set K \<Longrightarrow> \<exists>x nd. ref_of s k = Some x \<and> gc_heap s x = Some nd \<and> gc_type_null nd"
    and nf: "gc_next_to_free s = hd (M @ [LOCAL_TO_FREE])"
    using ok by (simp_all add: done_and_to_come_def)
  consider "s' = s" | ks q rs where "K @ M = ks @ q # rs" "ref_of s q = Some x" "tearing s' (ks @ rs)" "ref_of s' = ref_of s"
      "info_of s' = (info_of s)(x := 0)" "gc_heap s' = (gc_heap s)(x \<mapsto> nd\<lparr>gc_info := 0\<rparr>)"
      "gc_blocks s' = gc_blocks s" "gc_store s' = gc_store s"
      "gc_next_to_free s' = (if gc_next_to_free s = q then hd (rs @ [LOCAL_TO_FREE]) else gc_next_to_free s)"
    using tear_take_out [OF T x(1) r] by blast
  then show ?thesis
  proof cases
    case 1
    then show ?thesis using ok by auto
  next
    case 2
    have dist: "distinct (LOCAL_TO_FREE # ks @ q # rs)" using T 2(1) by (simp add: tearing_def ring_def)
    have "q \<notin> set K" using N [of q] 2(2) x by auto
    then obtain m where m: "ks = K @ m" "M = m @ q # rs"
      using 2(1) by (auto simp: append_eq_append_conv2 append_eq_Cons_conv)
    have "gc_next_to_free s' = hd ((m @ rs) @ [LOCAL_TO_FREE])"
      using 2(9) nf m(2) dist m(1) by (cases m) auto
    moreover have "\<exists>y nd. ref_of s' k = Some y \<and> gc_heap s' y = Some nd \<and> gc_type_null nd" if k: "k \<in> set K" for k
    proof -
      obtain y ny where y: "ref_of s k = Some y" "gc_heap s y = Some ny" "gc_type_null ny" using N [OF k] by blast
      then have "y \<noteq> x" using x by auto
      then show ?thesis using y 2(4,6) by simp
    qed
    ultimately have "done_and_to_come s' K (m @ rs)" using 2(3) m(1) by (simp add: done_and_to_come_def)
    moreover have "later D s s'"
      using 2(4-8) x by (auto simp: later_def framed_def)
    ultimately show ?thesis using m(2) by (intro conjI exI [of _ "m @ rs"]) auto
  qed
qed

lemma torn_row:
  assumes "torn D s s'" "done_and_to_come s K M"
  shows "later D s s' \<and> (\<exists>M'. done_and_to_come s' K M' \<and> length M' \<le> length M \<and> set M' \<subseteq> set M)"
  using assms
proof (induction rule: torn.induct)
  case (torn_refl s)
  then show ?case by auto
next
  case (torn_touch s s1 s2)
  then show ?case using touched_row touched_later later_trans by meson
next
  case (torn_take_out s s1 x nd s2)
  obtain M1 where M1: "later D s s1" "done_and_to_come s1 K M1" "length M1 \<le> length M" "set M1 \<subseteq> set M"
    using torn_take_out.IH torn_take_out.prems by blast
  then show ?case
    using take_out_row [OF M1(2) torn_take_out.hyps(2-4), of D] later_trans [OF M1(1)] by (meson le_trans subset_trans)
qed

subsection \<open>Destroying the values of one entry\<close>

definition moved :: "gc_ref set \<Rightarrow> root_ptr list \<Rightarrow> gc_globals \<Rightarrow> root_ptr list \<Rightarrow> gc_globals \<Rightarrow> root_ptr list \<Rightarrow> bool" where
  "moved D K s M s' M' \<longleftrightarrow> later D s s' \<and> done_and_to_come s' K M' \<and> length M' \<le> length M \<and> set M' \<subseteq> set M \<and>
     (\<forall>x\<in>D. info_of s x \<noteq> 0 \<longrightarrow> info_of s' x = 0 \<longrightarrow> gc_heap s' x = None)"

lemma moved_trans:
  assumes a: "moved D K s M s1 M1" and b: "moved D K s1 M1 s2 M2"
  shows "moved D K s M s2 M2"
proof -
  have "gc_heap s2 x = None" if x: "x \<in> D" "info_of s x \<noteq> 0" "info_of s2 x = 0" for x
  proof (cases "info_of s1 x = 0")
    case True
    then have "gc_heap s1 x = None" using a x unfolding moved_def by blast
    then show ?thesis using b x(1) unfolding moved_def later_def by blast
  qed (use b x in \<open>simp add: moved_def\<close>)
  moreover have "later D s s2" using a b later_trans unfolding moved_def by blast
  ultimately show ?thesis using a b unfolding moved_def by (meson le_trans subset_trans)
qed

lemma touched_moved: "done_and_to_come s K M \<Longrightarrow> touched D s s' \<Longrightarrow> moved D K s M s' M"
proof -
  assume a: "done_and_to_come s K M" "touched D s s'"
  have "info_of s' = info_of s" using a(2) by (simp add: touched_def same_buffer_def)
  then show "moved D K s M s' M" using touched_row [OF a] touched_later [OF a(2)] by (simp add: moved_def)
qed

lemma touch_node:
  assumes "gc_heap s r = Some nd" "gc_info nd' = gc_info nd" "node_frame nd' = node_frame nd"
  shows "touched D s (s\<lparr>gc_heap := (gc_heap s)(r \<mapsto> nd')\<rparr>)"
proof -
  have "info_of (s\<lparr>gc_heap := (gc_heap s)(r \<mapsto> nd')\<rparr>) = info_of s" using assms(1,2) by (auto simp: info_of_def fun_eq_iff)
  then show ?thesis using assms(1,3) by (auto simp: touched_def same_buffer_def framed_def)
qed

lemma listed_node:
  assumes "done_and_to_come s (K @ [p]) M" "ref_of s p = Some r"
  obtains nd where "gc_heap s r = Some nd" "gc_type_null nd" "info_of s r \<noteq> 0"
proof -
  have "tearing s ((K @ [p]) @ M)" using assms(1) by (simp add: done_and_to_come_def)
  then have "info_of s r \<noteq> 0" using info_listed(2) assms(2) by fastforce
  then show thesis using that assms unfolding done_and_to_come_def by fastforce
qed

lemma call_moved:
  assumes f: "orderly_call D f" and ok: "done_and_to_come s (K @ [p]) M" and r: "ref_of s p = Some r"
  shows "\<exists>s' M'. f r s = Inr s' \<and> moved D (K @ [p]) s M s' M'"
proof -
  obtain nd where nd: "gc_heap s r = Some nd" using listed_node [OF ok r] by blast
  have "tearing s ((K @ [p]) @ M)" using ok by (simp add: done_and_to_come_def)
  then obtain s' where s': "f r s = Inr s'" "torn D s s'"
      "\<forall>x\<in>D. info_of s x \<noteq> 0 \<longrightarrow> info_of s' x = 0 \<longrightarrow> gc_heap s' x = None"
    using f nd unfolding orderly_call_def by blast
  then show ?thesis using torn_row [OF s'(2) ok] unfolding moved_def by blast
qed

lemma guarded_moved:
  assumes f: "orderly_call D f" and ok: "done_and_to_come s (K @ [p]) M" and r: "ref_of s p = Some r"
  shows "\<exists>s' M'. guarded r f s = Inr s' \<and> moved D (K @ [p]) s M s' M'"
proof -
  obtain nd where nd: "gc_heap s r = Some nd" using listed_node [OF ok r] by blast
  let ?s = "s\<lparr>gc_heap := (gc_heap s)(r \<mapsto> nd\<lparr>gc_refcount := gc_refcount nd + 1\<rparr>)\<rparr>"
  have m1: "moved D (K @ [p]) s M ?s M"
    by (rule touched_moved [OF ok touch_node [OF nd]]) (simp_all add: node_frame_def)
  have r1: "ref_of ?s p = Some r" using r by simp
  obtain s2 M' where s2: "f r ?s = Inr s2" "moved D (K @ [p]) ?s M s2 M'"
    using call_moved [OF f _ r1] m1 unfolding moved_def by blast
  have ok2: "done_and_to_come s2 (K @ [p]) M'" and r2: "ref_of s2 p = Some r"
    using s2(2) r1 by (simp_all add: moved_def later_def)
  obtain nd2 where nd2: "gc_heap s2 r = Some nd2" using listed_node [OF ok2 r2] by blast
  let ?t = "s2\<lparr>gc_heap := (gc_heap s2)(r \<mapsto> nd2\<lparr>gc_refcount := gc_refcount nd2 - 1\<rparr>)\<rparr>"
  have m2: "moved D (K @ [p]) s2 M' ?t M'"
    by (rule touched_moved [OF ok2 touch_node [OF nd2]]) (simp_all add: node_frame_def)
  have "guarded r f s = Inr ?t"
    using nd s2(1) nd2 by (simp add: guarded_def GC_ADDREF_def GC_DELREF_def node_ops)
  then show ?thesis using moved_trans [OF moved_trans [OF m1 s2(2)] m2] by blast
qed

text \<open>What the collector itself needs of the structures in its list.\<close>

definition frame_fine :: "nat \<Rightarrow> (u32 \<times> pointer) + bool \<Rightarrow> bool" where
  "frame_fine n fr \<longleftrightarrow> (case fr of Inl (handle, offset) \<Rightarrow> unat handle < n \<and> offset = 0 | Inr is_array \<Rightarrow> is_array)"

definition entry_fine :: "gc_globals \<Rightarrow> gc_ref \<Rightarrow> bool" where
  "entry_fine s x \<longleftrightarrow> gc_blocks s x = Some x \<and>
     (\<exists>nd. gc_heap s x = Some nd \<and> frame_fine (length (gc_store s)) (snd (node_frame nd)))"

lemma entry_fine_frame: "entry_fine s x \<Longrightarrow> framed s s' x \<Longrightarrow> length (gc_store s') = length (gc_store s) \<Longrightarrow> entry_fine s' x"
proof -
  assume f: "entry_fine s x" and l: "framed s s' x" "length (gc_store s') = length (gc_store s)"
  obtain nd where nd: "gc_heap s x = Some nd" using f by (auto simp: entry_fine_def)
  then have "map_option node_frame (gc_heap s' x) = Some (node_frame nd)" using l(1) by (simp add: framed_def)
  then obtain nd' where "gc_heap s' x = Some nd'" "node_frame nd' = node_frame nd" by auto
  then show ?thesis using f nd l by (simp add: entry_fine_def framed_def)
qed

lemma put_bucket_touched:
  assumes "unat h < length (gc_store s)"
  shows "\<exists>s'. put_bucket h v s = Inr s' \<and> touched D s s' \<and> gc_heap s' = gc_heap s"
  using assms by (simp add: put_bucket_def touched_def same_buffer_def info_of_def fun_eq_iff framed_def)

text \<open>Between two entries of the loop.\<close>

definition destroying :: "gc_ref set \<Rightarrow> root_ptr list \<Rightarrow> root_ptr list \<Rightarrow> gc_globals \<Rightarrow> bool" where
  "destroying D K M s \<longleftrightarrow> done_and_to_come s K M \<and> (\<forall>x. info_of s x \<noteq> 0 \<longrightarrow> entry_fine s x) \<and>
     (\<forall>x\<in>D. gc_heap s x = None \<or> info_of s x \<noteq> 0)"

lemma moved_destroying:
  assumes d: "destroying D K M s" and m: "moved D K s M s' M'"
  shows "destroying D K M' s'"
proof -
  have l: "later D s s'" "done_and_to_come s' K M'" using m by (simp_all add: moved_def)
  have "entry_fine s' x" if "info_of s' x \<noteq> 0" for x
  proof -
    have "info_of s x \<noteq> 0" "framed s s' x" "length (gc_store s') = length (gc_store s)" using l(1) that by (simp_all add: later_def)
    then show ?thesis using d entry_fine_frame unfolding destroying_def by blast
  qed
  moreover have "gc_heap s' x = None \<or> info_of s' x \<noteq> 0" if x: "x \<in> D" for x
  proof (cases "gc_heap s x = None")
    case True
    then show ?thesis using l(1) x by (simp add: later_def)
  next
    case False
    have "\<forall>x\<in>D. gc_heap s x = None \<or> info_of s x \<noteq> 0" using d unfolding destroying_def by (elim conjE)
    from bspec [OF this x] have "info_of s x \<noteq> 0" using False by (elim disjE) simp_all
    then show ?thesis using m x unfolding moved_def by blast
  qed
  ultimately show ?thesis using l(2) by (simp add: destroying_def)
qed

text \<open>The type of the current structure is set to \<open>IS_NULL\<close>.\<close>

lemma null_destroying:
  assumes d: "destroying D K (p # ps) s" and r: "ref_of s p = Some r" "gc_heap s r = Some nd"
    and b: "same_buffer s s'" "gc_next_to_free s' = hd (ps @ [LOCAL_TO_FREE])" "length (gc_store s') = length (gc_store s)"
      "gc_blocks s' = gc_blocks s" "gc_heap s' = (gc_heap s)(r \<mapsto> nd')" "gc_type_null nd'" "snd (node_frame nd') = snd (node_frame nd)"
  shows "destroying D (K @ [p]) ps s'"
proof -
  have T: "tearing s (K @ p # ps)" and N: "\<And>k. k \<in> set K \<Longrightarrow> \<exists>x nd. ref_of s k = Some x \<and> gc_heap s x = Some nd \<and> gc_type_null nd"
    using d by (simp_all add: destroying_def done_and_to_come_def)
  have ref: "ref_of s' = ref_of s" "info_of s' = info_of s" using same_buffer_fields [OF b(1)] by simp_all
  have "\<exists>x nd. ref_of s' k = Some x \<and> gc_heap s' x = Some nd \<and> gc_type_null nd" if k: "k \<in> set (K @ [p])" for k
  proof (cases "ref_of s k = Some r")
    case True
    then show ?thesis using b(5,6) ref by auto
  next
    case False
    then have "k \<in> set K" using k r by auto
    then show ?thesis using N [of k] False b(5) ref by fastforce
  qed
  then have "done_and_to_come s' (K @ [p]) ps" using tearing_same [OF T b(1)] b(2) by (simp add: done_and_to_come_def)
  moreover have "entry_fine s' x" if x: "info_of s' x \<noteq> 0" for x
  proof -
    have "entry_fine s x" using d x ref by (simp add: destroying_def)
    then show ?thesis using b(3-5,7) r(2) by (cases "x = r") (auto simp: entry_fine_def)
  qed
  moreover have "gc_heap s' x = None \<or> info_of s' x \<noteq> 0" if "x \<in> D" for x
  proof -
    have "info_of s r \<noteq> 0" using info_listed(2) [OF T _ r(1)] by simp
    then show ?thesis using d that ref b(5) unfolding destroying_def by (cases "x = r") auto
  qed
  ultimately show ?thesis by (simp add: destroying_def)
qed

lemma free_called_moved:
  assumes H: "orderly H D" and ok: "done_and_to_come s (K @ [p]) M" and r: "ref_of s p = Some r"
    and nd: "gc_heap s r = Some nd" "gc_data nd = GC_OBJECT ob"
  shows "\<exists>s' M'. (if gco_free_called ob then Inr s
      else res_bind (change_gc_object r (\<lambda>ob. ob\<lparr>gco_free_called := True\<rparr>) s) (\<lambda>s.
        case gco_free ob of None \<Rightarrow> Inr s | Some f \<Rightarrow> guarded r (call_free_obj H f) s)) = Inr s' \<and> moved D (K @ [p]) s M s' M'"
proof (cases "gco_free_called ob")
  case True
  have "touched D s s" by (simp add: touched_def same_buffer_def framed_def)
  then show ?thesis using True touched_moved [OF ok] by auto
next
  case False
  let ?s = "s\<lparr>gc_heap := (gc_heap s)(r \<mapsto> nd\<lparr>gc_data := GC_OBJECT (ob\<lparr>gco_free_called := True\<rparr>)\<rparr>)\<rparr>"
  have ch: "change_gc_object r (\<lambda>ob. ob\<lparr>gco_free_called := True\<rparr>) s = Inr ?s"
    using nd by (simp add: change_gc_object_def gc_object_at_def object_in_def node_ops)
  have m: "moved D (K @ [p]) s M ?s M"
    by (rule touched_moved [OF ok touch_node [OF nd(1)]]) (simp_all add: node_frame_def nd(2))
  then have ok': "done_and_to_come ?s (K @ [p]) M" by (simp add: moved_def)
  have r': "ref_of ?s p = Some r" using r by simp
  show ?thesis
  proof (cases "gco_free ob")
    case None
    then show ?thesis using False ch m by auto
  next
    case (Some f)
    have "orderly_call D (call_free_obj H f)" using H by (simp add: orderly_def)
    then obtain s' M' where "guarded r (call_free_obj H f) ?s = Inr s'" "moved D (K @ [p]) ?s M s' M'"
      using guarded_moved [OF _ ok' r'] by blast
    then show ?thesis using False ch Some moved_trans [OF m] by auto
  qed
qed

text \<open>The bucket of the object joins the free ones; the entry keeps its pointer, as the offset is 0.\<close>

lemma give_bucket_moved:
  assumes ok: "done_and_to_come s (K @ [p]) M" and r: "ref_of s p = Some r"
    and nd: "gc_heap s r = Some nd" "gc_data nd = GC_OBJECT ob" "gco_offset ob = 0" "unat (gco_handle ob) < length (gc_store s)"
  shows "\<exists>s'. res_bind (gc_object_at r s) (\<lambda>ob.
      res_bind (put_bucket (gco_handle ob) (SET_OBJ_BUCKET_NUMBER (gc_free_list_head s)) s) (\<lambda>s.
        change_root p (\<lambda>b. b\<lparr>root_ref := r - gco_offset ob\<rparr>) (s\<lparr>gc_free_list_head := gco_handle ob\<rparr>))) = Inr s' \<and>
    moved D (K @ [p]) s M s' M"
proof -
  obtain b where b: "gc_roots s p = Some b" "root_ref b = r" using r by (auto simp: ref_of_def)
  let ?s = "s\<lparr>gc_roots := gc_roots s, gc_free_list_head := gco_handle ob,
    gc_store := (gc_store s)[unat (gco_handle ob) := SET_OBJ_BUCKET_NUMBER (gc_free_list_head s)]\<rparr>"
  have "b\<lparr>root_ref := r\<rparr> = b" using b(2) by simp
  then have "(gc_roots s)(p \<mapsto> b\<lparr>root_ref := r\<rparr>) = gc_roots s" using b(1) by auto
  then have "res_bind (gc_object_at r s) (\<lambda>ob.
      res_bind (put_bucket (gco_handle ob) (SET_OBJ_BUCKET_NUMBER (gc_free_list_head s)) s) (\<lambda>s.
        change_root p (\<lambda>b. b\<lparr>root_ref := r - gco_offset ob\<rparr>) (s\<lparr>gc_free_list_head := gco_handle ob\<rparr>))) = Inr ?s"
    using nd b(1) by (simp add: gc_object_at_def object_in_def node_ops put_bucket_def change_root_def root_at_def)
  moreover have "touched D s ?s" by (simp add: touched_def same_buffer_def info_of_def fun_eq_iff framed_def)
  ultimately show ?thesis using touched_moved [OF ok] by blast
qed

lemma destroy_object_tail:
  assumes H: "orderly H D" and d: "destroying D (K @ [p]) M s" and r: "ref_of s p = Some r"
    and nd: "gc_heap s r = Some nd" "gc_data nd = GC_OBJECT ob"
  shows "\<exists>s' M'. res_bind (if gco_free_called ob then Inr s
      else res_bind (change_gc_object r (\<lambda>ob. ob\<lparr>gco_free_called := True\<rparr>) s) (\<lambda>s.
        case gco_free ob of None \<Rightarrow> Inr s | Some f \<Rightarrow> guarded r (call_free_obj H f) s)) (\<lambda>s.
      res_bind (gc_object_at r s) (\<lambda>ob.
      res_bind (put_bucket (gco_handle ob) (SET_OBJ_BUCKET_NUMBER (gc_free_list_head s)) s) (\<lambda>s.
        change_root p (\<lambda>b. b\<lparr>root_ref := r - gco_offset ob\<rparr>) (s\<lparr>gc_free_list_head := gco_handle ob\<rparr>)))) = Inr s' \<and>
    moved D (K @ [p]) s M s' M'"
proof -
  have ok: "done_and_to_come s (K @ [p]) M" using d by (simp add: destroying_def)
  have T: "tearing s ((K @ [p]) @ M)" using ok by (simp add: done_and_to_come_def)
  obtain s1 M1 where s1: "(if gco_free_called ob then Inr s
      else res_bind (change_gc_object r (\<lambda>ob. ob\<lparr>gco_free_called := True\<rparr>) s) (\<lambda>s.
        case gco_free ob of None \<Rightarrow> Inr s | Some f \<Rightarrow> guarded r (call_free_obj H f) s)) = Inr s1" "moved D (K @ [p]) s M s1 M1"
    using free_called_moved [OF H ok r nd] by blast
  have ok1: "done_and_to_come s1 (K @ [p]) M1" and r1: "ref_of s1 p = Some r" and l: "later D s s1"
    using s1(2) r by (simp_all add: moved_def later_def)
  obtain nd1 where nd1: "gc_heap s1 r = Some nd1" "info_of s1 r \<noteq> 0" using listed_node [OF ok1 r1] by blast
  then have "framed s s1 r" "length (gc_store s1) = length (gc_store s)" using l by (simp_all add: later_def)
  moreover have "entry_fine s r" using d info_listed(2) [OF T _ r] by (simp add: destroying_def)
  ultimately have f: "node_frame nd1 = node_frame nd" "frame_fine (length (gc_store s1)) (snd (node_frame nd))"
    using nd1(1) nd(1) by (auto simp: framed_def entry_fine_def)
  obtain ob1 where ob1: "gc_data nd1 = GC_OBJECT ob1" "gco_handle ob1 = gco_handle ob" "gco_offset ob1 = gco_offset ob"
    using f(1) nd(2) by (auto simp: node_frame_def split: gc_data.splits)
  have "gco_offset ob1 = 0" "unat (gco_handle ob1) < length (gc_store s1)"
    using f(2) nd(2) ob1 by (simp_all add: frame_fine_def node_frame_def)
  then obtain s2 where "res_bind (gc_object_at r s1) (\<lambda>ob.
      res_bind (put_bucket (gco_handle ob) (SET_OBJ_BUCKET_NUMBER (gc_free_list_head s1)) s1) (\<lambda>s.
        change_root p (\<lambda>b. b\<lparr>root_ref := r - gco_offset ob\<rparr>) (s\<lparr>gc_free_list_head := gco_handle ob\<rparr>))) = Inr s2"
      "moved D (K @ [p]) s1 M1 s2 M1"
    using give_bucket_moved [OF ok1 r1 nd1(1) ob1(1)] by blast
  then show ?thesis using s1 moved_trans [OF s1(2)] by auto
qed

lemma destroy_value_spec:
  assumes H: "orderly H D" and d: "destroying D K (p # ps) s0" and r: "ref_of s0 p = Some r"
  defines "s \<equiv> s0\<lparr>gc_next_to_free := hd (ps @ [LOCAL_TO_FREE])\<rparr>"
  shows "\<exists>s' M'. destroy_value H p r s = Inr s' \<and> destroying D (K @ [p]) M' s' \<and> length M' \<le> length ps"
proof -
  have T: "tearing s0 (K @ p # ps)" using d by (simp add: destroying_def done_and_to_come_def)
  then obtain nd where nd: "gc_heap s0 r = Some nd" using info_listed(3) [OF T _ r] by auto
  have "entry_fine s0 r" using d info_listed(2) [OF T _ r] by (simp add: destroying_def)
  then have fr: "frame_fine (length (gc_store s0)) (snd (node_frame nd))" using nd by (simp add: entry_fine_def)
  define null where "null t = t\<lparr>gc_heap := (gc_heap t)(r \<mapsto> nd\<lparr>gc_type_null := True\<rparr>)\<rparr>" for t :: gc_globals
  have type: "GC_TYPE_NULL r t = Inr (null t)" if "gc_heap t r = Some nd" for t
    using that by (simp add: GC_TYPE_NULL_def node_ops null_def)
  have buf: "same_buffer s0 (null (s\<lparr>gc_store := st\<rparr>))" for st
    using nd by (auto simp: same_buffer_def info_of_def fun_eq_iff null_def s_def)
  have st: "destroying D (K @ [p]) ps (null (s\<lparr>gc_store := st\<rparr>))" if "length st = length (gc_store s0)" for st
    by (rule null_destroying [OF d r nd buf, where nd' = "nd\<lparr>gc_type_null := True\<rparr>"]) (simp_all add: null_def s_def that node_frame_def)
  have next': "destroying D (K @ [p]) M s' \<and> length M \<le> length ps"
    if "moved D (K @ [p]) (null (s\<lparr>gc_store := st\<rparr>)) ps s' M" "length st = length (gc_store s0)" for M s' st
    using moved_destroying [OF st [OF that(2)] that(1)] that(1) by (simp add: moved_def)
  have at: "gc_heap s r = Some nd" "gc_store s = gc_store s0" using nd by (simp_all add: s_def)
  have ref: "ref_of (null (s\<lparr>gc_store := st\<rparr>)) p = Some r" for st using r by (simp add: null_def s_def ref_of_def)
  show ?thesis
  proof (cases "gc_type_null nd")
    case True
    have same: "same_buffer s0 s" by (simp add: same_buffer_def info_of_def fun_eq_iff s_def)
    have "destroying D (K @ [p]) ps s"
      by (rule null_destroying [OF d r nd same, where nd' = nd]) (use nd True in \<open>auto simp: s_def\<close>)
    then show ?thesis using True at by (auto simp: destroy_value_def node_ops gc_type_data_def)
  next
    case False
    show ?thesis
    proof (cases "gc_data nd")
      case (GC_ARRAY zs)
      have s: "s\<lparr>gc_store := gc_store s0\<rparr> = s" by (simp add: s_def)
      have ok: "done_and_to_come (null s) (K @ [p]) ps" using st [of "gc_store s0"] s by (simp add: destroying_def)
      have c: "orderly_call D (hash_destroy H)" using H by (simp add: orderly_def)
      have "ref_of (null s) p = Some r" using ref [of "gc_store s0"] s by simp
      then obtain s' M where "hash_destroy H r (null s) = Inr s'" "moved D (K @ [p]) (null s) ps s' M"
        using call_moved [OF c ok] by blast
      then show ?thesis using next' [of "gc_store s0"] s False GC_ARRAY at type
        by (auto simp: destroy_value_def node_ops gc_type_data_def)
    next
      case (GC_OBJECT ob)
      define st' where "st' = (gc_store s0)[unat (gco_handle ob) := SET_OBJ_INVALID r]"
      let ?s = "s\<lparr>gc_store := st'\<rparr>"
      have h: "unat (gco_handle ob) < length (gc_store s0)" using fr GC_OBJECT by (simp add: frame_fine_def node_frame_def)
      have len: "length st' = length (gc_store s0)" by (simp add: st'_def)
      have at': "gc_heap (null ?s) r = Some (nd\<lparr>gc_type_null := True\<rparr>)" "gc_data (nd\<lparr>gc_type_null := True\<rparr>) = GC_OBJECT ob"
        using GC_OBJECT by (simp_all add: null_def)
      obtain s' M where s': "res_bind (if gco_free_called ob then Inr (null ?s)
          else res_bind (change_gc_object r (\<lambda>ob. ob\<lparr>gco_free_called := True\<rparr>) (null ?s)) (\<lambda>s.
            case gco_free ob of None \<Rightarrow> Inr s | Some f \<Rightarrow> guarded r (call_free_obj H f) s)) (\<lambda>s.
          res_bind (gc_object_at r s) (\<lambda>ob.
          res_bind (put_bucket (gco_handle ob) (SET_OBJ_BUCKET_NUMBER (gc_free_list_head s)) s) (\<lambda>s.
            change_root p (\<lambda>b. b\<lparr>root_ref := r - gco_offset ob\<rparr>) (s\<lparr>gc_free_list_head := gco_handle ob\<rparr>)))) = Inr s'"
          "moved D (K @ [p]) (null ?s) ps s' M"
        using destroy_object_tail [OF H st [OF len] ref at'] by blast
      have pb: "put_bucket (gco_handle ob) (SET_OBJ_INVALID r) s = Inr ?s" using h at by (simp add: put_bucket_def st'_def)
      have ty: "GC_TYPE_NULL r ?s = Inr (null ?s)" using type at by simp
      have "destroy_object H p r ob s = Inr s'" unfolding destroy_object_def pb ty res_bind_simps by (rule s'(1))
      then show ?thesis using next' [OF s'(2) len] False GC_OBJECT at by (auto simp: destroy_value_def node_ops gc_type_data_def)
    qed (use fr in \<open>simp_all add: frame_fine_def node_frame_def\<close>)
  qed
qed

lemma destroy_step:
  assumes H: "orderly H D" and d: "destroying D K (p # ps) s"
  shows "p \<noteq> LOCAL_TO_FREE \<and> (\<exists>s' M'. with_next_to_free (destroy_value H) p s = Inr (hd (M' @ [LOCAL_TO_FREE]), s') \<and>
    destroying D (K @ [p]) M' s' \<and> length M' \<le> length ps)"
proof -
  have T: "roots_of s LOCAL_TO_FREE (K @ p # ps)" using d by (simp add: destroying_def done_and_to_come_def tearing_def)
  note n = ring_next [OF T]
  obtain b where b: "root_at p s = Inr b" "root_next b = hd (ps @ [LOCAL_TO_FREE])" "ref_of s p = Some (root_ref b)"
    using entry_ops(1) [of s p] n(1) by auto
  obtain s' M' where s': "destroy_value H p (root_ref b) (s\<lparr>gc_next_to_free := hd (ps @ [LOCAL_TO_FREE])\<rparr>) = Inr s'"
      "destroying D (K @ [p]) M' s'" "length M' \<le> length ps"
    using destroy_value_spec [OF H d b(3)] by blast
  have "gc_next_to_free s' = hd (M' @ [LOCAL_TO_FREE])" using s'(2) by (simp add: destroying_def done_and_to_come_def)
  then show ?thesis using n(2) b s' by (auto simp: with_next_to_free_def)
qed

lemma destroy_loop:
  assumes H: "orderly H D" and d: "destroying D [] (p # ps) (s\<lparr>gc_next_to_free := p\<rparr>)"
  shows "\<exists>s' K. local_loop (with_next_to_free (destroy_value H)) s = Some (Inr s') \<and> destroying D K [] s'"
proof -
  let ?s = "s\<lparr>gc_next_to_free := p\<rparr>" and ?f = "with_next_to_free (destroy_value H)"
  have "nxt ?s = nxt s" "prv ?s = prv s" by (simp_all add: nxt_def prv_def fun_eq_iff)
  moreover have "roots_of ?s LOCAL_TO_FREE (p # ps)" using d by (simp add: destroying_def done_and_to_come_def tearing_def)
  ultimately have r: "roots_of s LOCAL_TO_FREE (p # ps)" "p \<noteq> LOCAL_TO_FREE" by (auto simp: ring_def)
  then obtain b where b: "root_at LOCAL_TO_FREE s = Inr b" "root_next b = hd ((p # ps) @ [LOCAL_TO_FREE])" using first_entry by blast
  have "?f p ?s = ?f p s" by (simp add: with_next_to_free_def root_at_def)
  then have "list_loop ?f LOCAL_TO_FREE p s = list_loop ?f LOCAL_TO_FREE p ?s"
    using r(2) by (simp add: list_loop.simps [of _ _ p])
  then show ?thesis
    using b shrinking_loop [where P = "destroying D" and ps = "p # ps", OF d destroy_step [OF H]]
    by (simp add: from_first_def run_bind_def)
qed

end
