(* ===== verification/Zend_GC_Free.thy ===== *)
theory Zend_GC_Free
  imports Zend_GC_Teardown
begin

text \<open>
  The end of a collection: the memory of the garbage is released, its entries and the additional buffers
  are given back, and the buffer is that of a state between collections again.
\<close>

subsection \<open>Releasing the memory\<close>

text \<open>The entries \<open>dn\<close> of the state \<open>s\<close> are released, \<open>ps\<close> are still to come.\<close>

definition freeing :: "gc_globals \<Rightarrow> root_ptr list \<Rightarrow> root_ptr list \<Rightarrow> gc_globals \<Rightarrow> bool" where
  "freeing s dn ps t \<longleftrightarrow> nxt t = nxt s \<and> ref_of t = ref_of s \<and> (\<forall>q. is_head q \<longrightarrow> prv t q = prv s q) \<and>
     (\<forall>x. Some x \<notin> ref_of s ` set dn \<longrightarrow> gc_heap t x = gc_heap s x \<and> gc_blocks t x = gc_blocks s x) \<and>
     (\<forall>x. Some x \<in> ref_of s ` set dn \<longrightarrow> gc_heap t x = None) \<and>
     gc_first_unused t = gc_first_unused s \<and> gc_last_unused t = gc_last_unused s \<and>
     additional_buffer t = additional_buffer s \<and> unused_ok t ps"

text \<open>An entry of \<open>buf\<close> goes to the unused ones.\<close>

lemma give_back_unused:
  assumes u: "unused_ok t (p # ps)" and d: "distinct (p # ps)" and p: "p = BUF i" "0 < i" "i < gc_first_unused t" "nxt t p \<noteq> None"
  shows "\<exists>t'. give_back p t = Inr t' \<and> unused_ok t' ps \<and> nxt t' = nxt t \<and> ref_of t' = ref_of t \<and> (\<forall>q. q \<noteq> p \<longrightarrow> prv t' q = prv t q) \<and>
    only_entries t t'"
proof -
  obtain us where us: "free_list (prv t) NULL_ROOT (gc_unused t) us" "distinct us"
      "\<forall>q\<in>set us. q \<notin> set (p # ps) \<and> (\<exists>i. q = BUF i \<and> 0 < i \<and> i < gc_first_unused t)"
    using u by (auto simp: unused_ok_def)
  obtain t1 where t1: "set_prev p (gc_unused t) t = Inr t1" "only_roots t t1" "prv t1 = (prv t)(p := Some (gc_unused t))"
      "nxt t1 = nxt t" "ref_of t1 = ref_of t"
    using entry_ops(3) [OF p(4)] by blast
  note O = only_rootsD [OF t1(2)]
  let ?t = "t1\<lparr>gc_unused := p\<rparr>"
  have np: "p \<notin> set us" using us(3) by auto
  then have "free_list (prv ?t) NULL_ROOT (gc_unused ?t) (p # us)"
    using us(1) p(1) free_list_update [OF np] by (simp add: t1(3))
  moreover have "distinct (p # us)" "\<forall>q\<in>set (p # us). q \<notin> set ps \<and> (\<exists>i. q = BUF i \<and> 0 < i \<and> i < gc_first_unused ?t)"
    using us(2,3) np d p O by auto
  ultimately have "unused_ok ?t ps" unfolding unused_ok_def by blast
  moreover have "only_entries t ?t"
  proof -
    have "t1 = t\<lparr>gc_roots := gc_roots t1\<rparr>" using t1(2) by (simp add: only_roots_def)
    then have "?t = t\<lparr>gc_roots := gc_roots t1, gc_unused := p\<rparr>" by metis
    then show ?thesis by (simp add: only_entries_def)
  qed
  ultimately show ?thesis using t1 by (simp add: give_back_def)
qed

lemma free_step:
  assumes t: "tearing s (dn @ p # ps)" and bl: "\<And>x. info_of s x \<noteq> 0 \<Longrightarrow> gc_blocks s x = Some x" and f: "freeing s dn (p # ps) t"
  shows "p \<noteq> LOCAL_TO_FREE \<and> (\<exists>t'. free_root p t = Inr (hd (ps @ [LOCAL_TO_FREE]), t') \<and> freeing s (dn @ [p]) ps t')"
proof -
  have T: "roots_of s LOCAL_TO_FREE (dn @ p # ps)" "storage s (dn @ p # ps)" "addressed s (dn @ p # ps)"
    using t by (simp_all add: tearing_def)
  have F: "nxt t = nxt s" "ref_of t = ref_of s" "\<And>q. is_head q \<Longrightarrow> prv t q = prv s q"
      "\<And>x. Some x \<notin> ref_of s ` set dn \<Longrightarrow> gc_heap t x = gc_heap s x \<and> gc_blocks t x = gc_blocks s x"
      "\<And>x. Some x \<in> ref_of s ` set dn \<Longrightarrow> gc_heap t x = None"
      "gc_first_unused t = gc_first_unused s" "gc_last_unused t = gc_last_unused s"
      "additional_buffer t = additional_buffer s" "unused_ok t (p # ps)"
    using f by (simp_all add: freeing_def)
  note n = ring_next [OF T(1)]
  have dist: "distinct (dn @ p # ps)" using T(1) by (simp add: ring_def)
  have use: "in_use s p" "limits_ok s" using T(2) by (simp_all add: storage_def)
  obtain b where b: "root_at p t = Inr b" "root_next b = hd (ps @ [LOCAL_TO_FREE])" "ref_of t p = Some (root_ref b)"
    using entry_ops(1) [of t p] n(1) F(1) by auto
  let ?r = "root_ref b"
  have r: "ref_of s p = Some ?r" using b(3) F(2) by simp
  have "inj_on (ref_of s) (set (dn @ p # ps))" using T(3) by (simp add: addressed_def)
  then have nr: "Some ?r \<notin> ref_of s ` set dn" using dist r by (auto simp: inj_on_def)
  have "info_of s ?r \<noteq> 0" using info_listed(2) [OF t _ r] by simp
  then have blk: "gc_blocks t ?r = Some ?r" using bl F(4) [OF nr] by simp
  obtain t1 where t1: "(if (case p of BUF i \<Rightarrow> i < GC_ROOT_BUFFER_MAX_ENTRIES | _ \<Rightarrow> False) then give_back p t else Inr t) = Inr t1"
      "unused_ok t1 ps" "nxt t1 = nxt t" "ref_of t1 = ref_of t" "\<forall>q. q \<noteq> p \<longrightarrow> prv t1 q = prv t q" "only_entries t t1"
  proof (cases p)
    case (BUF i)
    then have i: "0 < i" "i < gc_first_unused t" "i < GC_ROOT_BUFFER_MAX_ENTRIES"
      using use F(6) by (auto simp: in_use_def limits_ok_def)
    have "nxt t p \<noteq> None" "distinct (p # ps)" using n(1) F(1) dist by simp_all
    then obtain t1 where "give_back p t = Inr t1" "unused_ok t1 ps" "nxt t1 = nxt t" "ref_of t1 = ref_of t"
        "\<forall>q. q \<noteq> p \<longrightarrow> prv t1 q = prv t q" "only_entries t t1"
      using give_back_unused [OF F(9) _ BUF i(1,2)] by blast
    then show thesis using that i(3) BUF by simp
  next
    case (ADDITIONAL c i)
    have "unused_ok t ps" using F(9) by (auto simp: unused_ok_def)
    moreover have "only_entries t t" by (simp add: only_entries_def)
    ultimately show thesis using that ADDITIONAL by simp
  qed (use use in \<open>simp_all add: in_use_def\<close>)
  note O = only_entriesD [OF t1(6)]
  let ?t = "t1\<lparr>gc_heap := (gc_heap t1)(?r := None), gc_blocks := (gc_blocks t1)(?r := None)\<rparr>"
  have e: "nxt ?t = nxt t1" "prv ?t = prv t1" "ref_of ?t = ref_of t1" by (simp_all add: nxt_def prv_def ref_of_def fun_eq_iff)
  have fr: "free_root p t = Inr (hd (ps @ [LOCAL_TO_FREE]), ?t)"
    using b(1,2) t1(1) blk O by (simp add: free_root_def efree_def)
  have "\<not> is_head p" using use(1) by (auto simp: is_head_def in_use_def)
  then have "\<forall>q. is_head q \<longrightarrow> prv ?t q = prv s q" unfolding e(2) using F(3) t1(5) by metis
  moreover have "unused_ok ?t ps" using t1(2) by (simp add: unused_ok_def e)
  ultimately have "freeing s (dn @ [p]) ps ?t"
    using F(1,2,4-8) t1(3,4) O r e by (simp add: freeing_def)
  then show ?thesis using n(2) fr by blast
qed

lemma free_loop:
  assumes t: "tearing s K" and bl: "\<And>x. info_of s x \<noteq> 0 \<Longrightarrow> gc_blocks s x = Some x"
  shows "\<exists>t. local_loop free_root s = Some (Inr t) \<and> freeing s K [] t"
proof -
  have T: "roots_of s LOCAL_TO_FREE K" "storage s K" using t by (simp_all add: tearing_def)
  obtain b where b: "root_at LOCAL_TO_FREE s = Inr b" "root_next b = hd (K @ [LOCAL_TO_FREE])" using first_entry [OF T(1)] by blast
  have "freeing s [] K s" using T(2) by (simp add: freeing_def storage_def)
  then have "\<exists>t. list_loop free_root LOCAL_TO_FREE (hd (K @ [LOCAL_TO_FREE])) s = Some (Inr t) \<and> freeing s K [] t"
    by (rule listed_loop) (use free_step t bl in blast)
  then show ?thesis using b by (simp add: from_first_def run_bind_def)
qed

subsection \<open>The additional buffers\<close>

lemma free_additional_spec:
  "bufs = additional_buffer s \<Longrightarrow> \<exists>rs. free_additional 0 bufs s = Inr (s\<lparr>additional_buffer := [], gc_roots := rs\<rparr>) \<and>
     (\<forall>p. (\<forall>b i. p \<noteq> ADDITIONAL b i) \<longrightarrow> rs p = gc_roots s p)"
proof (induction bufs arbitrary: s)
  case Nil
  have "s = s\<lparr>additional_buffer := [], gc_roots := gc_roots s\<rparr>" using Nil by simp
  then show ?case by (auto simp: free_additional.simps intro!: exI [of _ "gc_roots s"])
next
  case (Cons used bufs)
  let ?s = "s\<lparr>additional_buffer := bufs,
    gc_roots := (\<lambda>p. case p of ADDITIONAL b i \<Rightarrow> if b = length bufs then None else gc_roots s p | _ \<Rightarrow> gc_roots s p)\<rparr>"
  obtain rs where rs: "free_additional 0 bufs ?s = Inr (?s\<lparr>additional_buffer := [], gc_roots := rs\<rparr>)"
      "\<forall>p. (\<forall>b i. p \<noteq> ADDITIONAL b i) \<longrightarrow> rs p = gc_roots ?s p"
    using Cons.IH [of ?s] by auto
  have "gc_roots ?s p = gc_roots s p" if "\<forall>b i. p \<noteq> ADDITIONAL b i" for p using that by (cases p) auto
  then have "\<forall>p. (\<forall>b i. p \<noteq> ADDITIONAL b i) \<longrightarrow> rs p = gc_roots s p" using rs(2) by simp
  moreover have "?s\<lparr>additional_buffer := [], gc_roots := rs\<rparr> = s\<lparr>additional_buffer := [], gc_roots := rs\<rparr>" by simp
  then have "free_additional 0 (used # bufs) s = Inr (s\<lparr>additional_buffer := [], gc_roots := rs\<rparr>)"
    using rs(1) by (simp only: free_additional.simps [of 0 "used # bufs"]) simp
  ultimately show ?case by blast
qed

text \<open>What is left is the buffer of a state between collections.\<close>

lemma freed_buffer:
  assumes t: "tearing s K" and f: "freeing s K [] t"
    and u: "additional_buffer u = []" "gc_heap u = gc_heap t" "gc_first_unused u = gc_first_unused t"
      "gc_last_unused u = gc_last_unused t" "gc_unused u = gc_unused t"
      "\<And>p. (\<And>b i. p \<noteq> ADDITIONAL b i) \<Longrightarrow> gc_roots u p = gc_roots t p"
  shows "buffer_ok u []"
proof -
  have st: "limits_ok s" "allocated s" using t by (simp_all add: tearing_def storage_def)
  have R: "roots_of s ROOTS []" "roots_of s TO_FREE []" using t by (simp_all add: tearing_def)
  have F: "nxt t = nxt s" "\<And>q. is_head q \<Longrightarrow> prv t q = prv s q" "unused_ok t []"
    using f by (simp_all add: freeing_def)
  have e: "nxt u p = nxt t p \<and> prv u p = prv t p" if "\<And>b i. p \<noteq> ADDITIONAL b i" for p
    using u(6) that by (simp add: nxt_def prv_def)
  have i: "info_of u = (\<lambda>_. 0)"
  proof
    fix x
    show "info_of u x = 0"
    proof (cases "Some x \<in> ref_of s ` set K")
      case True
      then have "gc_heap u x = None" using f u(2) unfolding freeing_def by auto
      then show ?thesis by (simp add: info_of_def)
    next
      case False
      then have "gc_heap u x = gc_heap s x" using f u(2) unfolding freeing_def by auto
      then show ?thesis using info_unlisted [OF t False] by (simp add: info_of_def)
    qed
  qed
  have "roots_of u ROOTS []" "roots_of u TO_FREE []" using R F(1,2) e by (simp_all add: ring_def is_head_def)
  moreover have "limits_ok u" "allocated u" using st f u(1,3,4) F(1) e by (simp_all add: limits_ok_def allocated_def freeing_def)
  moreover have "unused_ok u []"
  proof -
    obtain us where us: "free_list (prv t) NULL_ROOT (gc_unused t) us" "distinct us"
        "\<forall>p\<in>set us. \<exists>i. p = BUF i \<and> 0 < i \<and> i < gc_first_unused t"
      using F(3) by (auto simp: unused_ok_def)
    have "prv t y = prv u y" if "y \<in> set us" for y using us(3) that e [of y] by auto
    then have "free_list (prv u) NULL_ROOT (gc_unused u) us" using us(1) free_list_cong [of us "prv t" "prv u"] u(5) by simp
    then show ?thesis using us(2,3) u(3) unfolding unused_ok_def by auto
  qed
  moreover have "color u x = GC_BLACK" for x by (simp add: color_info i GC_INFO_GET_COLOR_def GC_BLACK_def)
  ultimately show ?thesis using u(1) i by (simp add: buffer_ok_def storage_def addressed_info GC_ADDRESS_def)
qed

subsection \<open>The local list\<close>

lemma take_to_free_spec:
  assumes g: "gathered s0 xs s" and ne: "to_destroy s0 xs \<noteq> {}"
  shows "\<exists>t p ps. take_to_free s = Inr t \<and> tearing t (p # ps) \<and> only_roots s t \<and> ref_of t ` set (p # ps) = Some ` to_destroy s0 xs"
proof -
  obtain L where L: "roots_of s TO_FREE L" "storage s L" "no_stale s L" "addressed s L" "ref_of s ` set L = Some ` to_destroy s0 xs"
    and R: "roots_of s ROOTS []" and col: "\<forall>x. color s x = GC_BLACK"
    using g unfolding gathered_def by blast
  have "L \<noteq> []" using L(5) ne by auto
  then obtain p ps where pps: "L = p # ps" by (cases L) auto
  let ?s = "s\<lparr>gc_roots := (gc_roots s)(LOCAL_TO_FREE \<mapsto> unset_root)\<rparr>"
  have nl: "LOCAL_TO_FREE \<notin> set L" "ROOTS \<notin> set L" "TO_FREE \<notin> set L" using storage_heads [OF L(2)] by (simp_all add: is_head_def)
  have e: "nxt ?s q = nxt s q" "prv ?s q = prv s q" "ref_of ?s q = ref_of s q" if "q \<noteq> LOCAL_TO_FREE" for q
    using that by (simp_all add: nxt_def prv_def ref_of_def)
  have e': "nxt ?s q = nxt s q \<and> prv ?s q = prv s q" if "q \<in> set (TO_FREE # L)" for q
    using e(1,2) [of q] nl(1) that by (cases "q = LOCAL_TO_FREE") auto
  have "roots_of ?s TO_FREE L = roots_of s TO_FREE L" by (rule ring_cong) (rule e')
  then have r: "roots_of ?s TO_FREE L" using L(1) by simp
  have "nxt ?s LOCAL_TO_FREE \<noteq> None" "LOCAL_TO_FREE \<notin> set (TO_FREE # L)" using nl by (simp_all add: nxt_def)
  then obtain t where t: "res_bind (move_list TO_FREE LOCAL_TO_FREE ?s) (empty_list TO_FREE) = Inr t" "only_roots ?s t"
      "ref_of t = ref_of ?s" "roots_of t TO_FREE []" "roots_of t LOCAL_TO_FREE L"
      "\<forall>q. q \<notin> set (TO_FREE # LOCAL_TO_FREE # L) \<longrightarrow> nxt t q = nxt ?s q \<and> prv t q = prv ?s q"
    using move_and_empty [OF r] \<open>L \<noteq> []\<close> by blast
  have o: "only_roots s t" by (rule only_roots_trans [OF _ t(2)]) (simp add: only_roots_def)
  note Q = only_rootsD [OF o]
  have ref: "ref_of t q = ref_of s q" if "q \<in> set L" for q using t(3) e(3) [of q] nl that by auto
  have keep: "nxt t q = nxt s q \<and> prv t q = prv s q" if "q \<notin> set (TO_FREE # LOCAL_TO_FREE # L)" for q
    using t(6) e [of q] that by auto
  have st: "storage t L"
  proof (rule storage_relinked [OF _ _ _ _ o])
    show "limits_ok s" "allocated s" "unused_ok s L" "\<forall>p\<in>set L. in_use s p" using L(2) unfolding storage_def by blast+
    show "nxt t q = nxt s q \<and> prv t q = prv s q" if "\<not> is_head q" "q \<notin> set L" for q using keep that by (simp add: is_head_def)
    show "nxt t q \<noteq> None" if "q \<in> set L" for q using ring_defined [OF t(5), of q] that by simp
  qed
  have ad: "addressed t L"
  proof -
    have "inj_on (ref_of t) (set L)" using L(4) ref unfolding addressed_def by (metis inj_on_cong)
    then show ?thesis using L(4) ref Q(1) unfolding addressed_def by simp
  qed
  have "roots_of t ROOTS []" using R keep [of ROOTS] nl by (simp add: ring_def)
  moreover have "no_stale t L" using L(3) Q(7) by (simp add: no_stale_def in_use_def)
  moreover have "\<forall>x. color t x = GC_BLACK" using col Q(1) by (simp add: color_def)
  ultimately have "tearing t L" using t(4,5) st ad by (simp add: tearing_def no_stale_def)
  moreover have "ref_of t ` set L = Some ` to_destroy s0 xs" using L(5) ref by (metis image_cong)
  ultimately show ?thesis using t(1) o pps unfolding take_to_free_def by blast
qed

lemma entry_fine_values: "entry_fine s x \<Longrightarrow> same_values s s' \<Longrightarrow> entry_fine s' x"
proof -
  assume f: "entry_fine s x" and v: "same_values s s'"
  obtain nd where nd: "gc_heap s x = Some nd" using f by (auto simp: entry_fine_def)
  then have "map_option value_part (gc_heap s' x) = Some (value_part nd)" using v by (simp add: same_values_def)
  then obtain nd' where nd': "gc_heap s' x = Some nd'" "value_part nd' = value_part nd" by auto
  then have "gc_type_null nd' = gc_type_null nd" "gc_data nd' = gc_data nd"
    by (auto simp: value_part_def dest: arg_cong [of _ _ gc_type_null] arg_cong [of _ _ gc_data])
  then have "node_frame nd' = node_frame nd" by (simp add: node_frame_def)
  then show ?thesis using f nd nd'(1) v by (simp add: entry_fine_def same_values_def)
qed

lemma destroying_start:
  assumes g: "gathered s0 xs s" and o: "only_roots s t" and t: "tearing t (p # ps)"
    and im: "ref_of t ` set (p # ps) = Some ` to_destroy s0 xs" and f: "\<And>x. x \<in> to_destroy s0 xs \<Longrightarrow> entry_fine s0 x"
  shows "destroying (to_destroy s0 xs) [] (p # ps) (t\<lparr>gc_active := True, gc_next_to_free := p\<rparr>)"
proof -
  let ?t = "t\<lparr>gc_active := True, gc_next_to_free := p\<rparr>"
  note Q = only_rootsD [OF o]
  have "same_values s0 s" using g by (simp add: gathered_def)
  then have v: "same_values s0 ?t" using Q by (simp add: same_values_def)
  have b: "same_buffer t ?t" by (simp add: same_buffer_def info_of_def fun_eq_iff)
  have T: "tearing ?t (p # ps)" by (rule tearing_same [OF t b])
  have im': "ref_of ?t ` set (p # ps) = Some ` to_destroy s0 xs" unfolding same_buffer_fields(3) [OF b] by (rule im)
  have "entry_fine ?t x" if x: "info_of ?t x \<noteq> 0" for x
  proof -
    have "Some x \<in> ref_of ?t ` set (p # ps)" using info_unlisted [OF T] x by blast
    then have "x \<in> to_destroy s0 xs" unfolding im' by auto
    then show ?thesis using entry_fine_values [OF f v] by simp
  qed
  moreover have "info_of ?t x \<noteq> 0" if x: "x \<in> to_destroy s0 xs" for x
  proof -
    have "Some x \<in> ref_of ?t ` set (p # ps)" unfolding im' using x by simp
    then obtain q where "q \<in> set (p # ps)" "ref_of ?t q = Some x" by (metis imageE)
    then show ?thesis by (rule info_listed(2) [OF T])
  qed
  ultimately show ?thesis using T by (simp add: destroying_def done_and_to_come_def)
qed

subsection \<open>The whole collection\<close>

lemma gathered_active: "gathered (s0\<lparr>gc_runs := n, gc_active := True\<rparr>) xs s \<Longrightarrow> gathered s0 xs (s\<lparr>gc_active := b\<rparr>)"
proof -
  assume g: "gathered (s0\<lparr>gc_runs := n, gc_active := True\<rparr>) xs s"
  let ?s = "s\<lparr>gc_active := b\<rparr>"
  have buf: "same_buffer s ?s" by (simp add: same_buffer_def info_of_def fun_eq_iff)
  have "\<exists>L. roots_of ?s TO_FREE L \<and> storage ?s L \<and> no_stale ?s L \<and> addressed ?s L \<and> ref_of ?s ` set L = Some ` to_destroy s0 xs"
  proof -
    obtain L where L: "roots_of s TO_FREE L" "storage s L" "no_stale s L" "addressed s L" "ref_of s ` set L = Some ` to_destroy s0 xs"
      using g unfolding gathered_def run_settled(3) by blast
    then have "roots_of ?s TO_FREE L \<and> storage ?s L \<and> no_stale ?s L \<and> addressed ?s L \<and> ref_of ?s ` set L = Some ` to_destroy s0 xs"
      using same_buffer_fields [OF buf] by (simp add: no_stale_def)
    then show ?thesis by blast
  qed
  moreover have "same_values s0 ?s" "\<forall>x. color ?s x = GC_BLACK" "rc ?s = rc s0" "roots_of ?s ROOTS []"
      "to_destroy s0 xs = {} \<longrightarrow> additional_buffer ?s = []"
    using g unfolding gathered_def run_settled(3) by (simp_all add: same_values_def)
  ultimately show ?thesis unfolding gathered_def by blast
qed

text \<open>Up to the destruction, when there is a possible root.\<close>

lemma phases_spec:
  assumes ok: "gc_settled s xs" and ne: "xs \<noteq> []" and act: "\<not> gc_active s" and n: "2 * card (dom (gc_heap s)) < depth"
    and nd: "no_destructors s"
  shows "\<exists>num s3. gathered s xs s3 \<and> \<not> gc_active s3 \<and>
    zend_gc_collect_cycles depth H s =
      (if to_destroy s xs = {} then Some (Inr (0, s3))
       else run_bind (Some (take_to_free s3)) (\<lambda>t. destroy_and_free H 0 num (gc_next_to_free t) t))"
proof -
  have R: "roots_of s ROOTS xs" and ready: "gc_ready s xs" using ok by (simp_all add: gc_settled_def gc_ready_def)
  obtain h where h: "root_at ROOTS s = Inr h" "root_next h = hd (xs @ [ROOTS])" using first_entry [OF R] by blast
  then have nr: "root_next h \<noteq> ROOTS" using R ne by (cases xs) (auto simp: ring_def)
  let ?s = "s\<lparr>gc_runs := gc_runs s + 1, gc_active := True\<rparr>"
  have ok': "gc_settled ?s xs" using ok by simp
  obtain s1 s2 where s2: "gc_mark_roots depth ?s = Some (Inr s1)" "gc_scan_roots depth s1 = Some (Inr s2)" "scanned ?s s2"
    using mark_and_scan [of ?s xs depth] ok' n by (auto simp: gc_settled_def)
  have add: "additional_buffer s2 = []"
    using s2(3) ok storage_same(5) [of ?s s2] by (simp add: scanned_def gc_settled_def)
  have "no_destructors ?s" using nd by (simp add: no_destructors_def)
  moreover have "card (dom (gc_heap ?s)) < depth" using n by simp
  ultimately obtain num s3 where s3: "gc_collect_roots depth 0 s2 = Some (Inr (num, 0, s3))" "gathered ?s xs s3"
    using collect_scanned [OF ok' s2(3), of depth 0] by blast
  let ?t = "s3\<lparr>gc_active := False\<rparr>"
  have g: "gathered s xs ?t" by (rule gathered_active [OF s3(2)])
  then obtain L where L: "roots_of ?t TO_FREE L" "ref_of ?t ` set L = Some ` to_destroy s xs" unfolding gathered_def by blast
  obtain t where t: "root_at TO_FREE ?t = Inr t" "root_next t = hd (L @ [TO_FREE])" using first_entry [OF L(1)] by blast
  have "L = [] \<longleftrightarrow> to_destroy s xs = {}" using L(2) by auto
  moreover have "L = [] \<longleftrightarrow> root_next t = TO_FREE" using t(2) L(1) by (cases L) (auto simp: ring_def)
  ultimately have e: "root_next t = TO_FREE \<longleftrightarrow> to_destroy s xs = {}" by simp
  have "zend_gc_collect_cycles depth H s =
      (if to_destroy s xs = {} then Some (Inr (0, ?t))
       else run_bind (Some (take_to_free ?t)) (\<lambda>t. destroy_and_free H 0 num (gc_next_to_free t) t))"
    using h(1) nr act s2(1,2) s3(1) t(1) e add by (simp add: zend_gc_collect_cycles_def run_bind_def Let_def)
  then show ?thesis using g by (intro exI [of _ num] exI [of _ ?t]) simp
qed

text \<open>The destruction and what follows.\<close>

lemma destroy_and_free_spec:
  assumes H: "orderly H D" and d: "destroying D [] (p # ps) (t\<lparr>gc_active := True, gc_next_to_free := p\<rparr>)"
  shows "\<exists>s'. destroy_and_free H 0 num nf t = Some (Inr (num, s')) \<and> (\<forall>x\<in>D. gc_heap s' x = None) \<and> buffer_ok s' [] \<and> \<not> gc_active s'"
proof -
  obtain s K where s: "local_loop (with_next_to_free (destroy_value H)) (t\<lparr>gc_active := True\<rparr>) = Some (Inr s)" "destroying D K [] s"
    using destroy_loop [OF H, of p ps "t\<lparr>gc_active := True\<rparr>"] d by auto
  have T: "tearing s K" using s(2) by (simp add: destroying_def done_and_to_come_def)
  have "gc_blocks s x = Some x" if "info_of s x \<noteq> 0" for x using s(2) that by (simp add: destroying_def entry_fine_def)
  then obtain u where u: "local_loop free_root s = Some (Inr u)" "freeing s K [] u" using free_loop [OF T] by blast
  obtain rs where rs: "free_additional 0 (additional_buffer u) u = Inr (u\<lparr>additional_buffer := [], gc_roots := rs\<rparr>)"
      "\<forall>p. (\<forall>b i. p \<noteq> ADDITIONAL b i) \<longrightarrow> rs p = gc_roots u p"
    using free_additional_spec by blast
  let ?v = "u\<lparr>additional_buffer := [], gc_roots := rs\<rparr>"
  let ?s = "?v\<lparr>gc_collected := gc_collected ?v + num, gc_next_to_free := nf, gc_active := False\<rparr>"
  have "destroy_and_free H 0 num nf t = Some (Inr (num, ?s))"
    using s(1) u(1) rs(1) by (simp add: destroy_and_free_def run_bind_def)
  moreover have "buffer_ok ?s []" by (rule freed_buffer [OF T u(2)]) (use rs(2) in simp_all)
  moreover have "gc_heap ?s x = None" if x: "x \<in> D" for x
  proof (cases "Some x \<in> ref_of s ` set K")
    case True
    then show ?thesis using u(2) unfolding freeing_def by simp
  next
    case False
    then have "gc_heap u x = gc_heap s x" using u(2) unfolding freeing_def by blast
    moreover have "\<forall>x\<in>D. gc_heap s x = None \<or> info_of s x \<noteq> 0" using s(2) unfolding destroying_def by (elim conjE)
    then have "gc_heap s x = None" using x info_unlisted [OF T False] by blast
    ultimately show ?thesis by simp
  qed
  ultimately show ?thesis by (intro exI [of _ ?s]) simp
qed

lemma nothing_gathered:
  assumes g: "gathered s xs s'" and e: "to_destroy s xs = {}"
  shows "buffer_ok s' []"
proof -
  obtain L where L: "roots_of s' TO_FREE L" "storage s' L" "addressed s' L" "ref_of s' ` set L = Some ` to_destroy s xs"
    using g unfolding gathered_def by blast
  then have "L = []" using e by simp
  moreover have "roots_of s' ROOTS []" "\<forall>x. color s' x = GC_BLACK" "additional_buffer s' = []"
    using g e by (simp_all add: gathered_def)
  ultimately show ?thesis using L by (simp add: buffer_ok_def)
qed

lemma collect_cycles_spec:
  assumes ok: "gc_settled s xs" and n: "2 * card (dom (gc_heap s)) < depth" and act: "\<not> gc_active s"
    and nd: "no_destructors s" and H: "orderly H (to_destroy s xs)" and f: "\<And>x. x \<in> to_destroy s xs \<Longrightarrow> entry_fine s x"
  shows "\<exists>num s'. zend_gc_collect_cycles depth H s = Some (Inr (num, s')) \<and> (\<forall>x\<in>to_destroy s xs. gc_heap s' x = None) \<and>
    buffer_ok s' [] \<and> \<not> gc_active s' \<and> (to_destroy s xs = {} \<longrightarrow> num = 0 \<and> same_values s s' \<and> rc s' = rc s)"
proof (cases "xs = []")
  case True
  have ready: "gc_ready s []" using ok True by (simp add: gc_settled_def)
  have black: "color s x = GC_BLACK" for x using gc_readyD(3,4) [OF ready, of x] by auto
  then have "garbage s = {}" by (simp add: garbage_def reached_def)
  then have e: "to_destroy s xs = {}" by (simp add: to_destroy_def)
  have R: "roots_of s ROOTS []" using ready by (simp add: gc_ready_def)
  obtain h where "root_at ROOTS s = Inr h" "root_next h = hd ([] @ [ROOTS])" using first_entry [OF R] by blast
  then have "zend_gc_collect_cycles depth H s = Some (Inr (0, s))" by (simp add: zend_gc_collect_cycles_def run_bind_def)
  moreover have "buffer_ok s []" using ok True R black by (simp add: gc_settled_def buffer_ok_def)
  ultimately show ?thesis using e act by simp
next
  case False
  obtain num s3 where s3: "gathered s xs s3" "\<not> gc_active s3"
      "zend_gc_collect_cycles depth H s =
        (if to_destroy s xs = {} then Some (Inr (0, s3))
         else run_bind (Some (take_to_free s3)) (\<lambda>t. destroy_and_free H 0 num (gc_next_to_free t) t))"
    using phases_spec [OF ok False act n nd] by blast
  show ?thesis
  proof (cases "to_destroy s xs = {}")
    case True
    then show ?thesis using s3 nothing_gathered [OF s3(1)] by (simp add: gathered_def)
  next
    case ne: False
    obtain t p ps where t: "take_to_free s3 = Inr t" "tearing t (p # ps)" "only_roots s3 t"
        "ref_of t ` set (p # ps) = Some ` to_destroy s xs"
      using take_to_free_spec [OF s3(1) ne] by blast
    have "destroying (to_destroy s xs) [] (p # ps) (t\<lparr>gc_active := True, gc_next_to_free := p\<rparr>)"
      by (rule destroying_start [OF s3(1) t(3,2,4) f])
    then obtain s' where "destroy_and_free H 0 num (gc_next_to_free t) t = Some (Inr (num, s'))"
        "\<forall>x\<in>to_destroy s xs. gc_heap s' x = None" "buffer_ok s' []" "\<not> gc_active s'"
      using destroy_and_free_spec [OF H] by blast
    then show ?thesis using s3(3) t(1) ne by (intro exI [of _ num] exI [of _ s']) (simp add: run_bind_def)
  qed
qed

end
