(* ===== verification/Zend_GC_Props.thy ===== *)
theory Zend_GC_Props
  imports Zend_GC_Free
begin

text \<open>The properties of the collector, with a sample heap of an array that holds itself.\<close>

subsection \<open>A sample heap\<close>

definition self_array :: gc_node where
  "self_array = \<lparr>gc_refcount = 1, gc_info = 0, gc_collectable = True, gc_type_null = False,
     gc_data = GC_ARRAY [ZV_COUNTED 16]\<rparr>"

definition gc_blank :: gc_globals where
  "gc_blank = \<lparr>gc_heap = (\<lambda>_. None)(16 \<mapsto> self_array), gc_blocks = (\<lambda>_. None)(16 \<mapsto> 16), gc_slots = (\<lambda>_. ZV_UNDEF),
     symbol_table = 0, gc_store = [], gc_free_list_head = -1, gc_enabled = False, gc_active = False, gc_full = False,
     unclean_shutdown = False, gc_buf = False,
     gc_roots = (\<lambda>_. None)(ROOTS \<mapsto> unset_root, TO_FREE \<mapsto> unset_root),
     gc_unused = NULL_ROOT, gc_first_unused = 0, gc_last_unused = 0, gc_next_to_free = NULL_ROOT,
     additional_buffer = [], gc_runs = 0, gc_collected = 0\<rparr>"

definition gc_started :: gc_globals where
  "gc_started = projr (gc_init (projr (gc_globals_ctor_ex gc_blank)\<lparr>gc_enabled := True\<rparr>))"

text \<open>The array is a possible root, the only entry of the buffer, with \<open>n\<close> references; one is its own.\<close>

definition gc_sample :: "u32 \<Rightarrow> gc_globals" where
  "gc_sample n = gc_blank\<lparr>gc_heap := (\<lambda>_. None)(16 \<mapsto> self_array\<lparr>gc_refcount := n, gc_info := 0xc001\<rparr>), gc_enabled := True, gc_buf := True,
     gc_roots := (\<lambda>p. case p of
         ROOTS \<Rightarrow> Some (unset_root\<lparr>root_next := BUF 1, root_prev := BUF 1\<rparr>)
       | TO_FREE \<Rightarrow> Some (unset_root\<lparr>root_next := TO_FREE, root_prev := TO_FREE\<rparr>)
       | BUF i \<Rightarrow> if i = 1 then Some (unset_root\<lparr>root_ref := 16, root_next := ROOTS, root_prev := ROOTS\<rparr>)
                  else if i < GC_ROOT_BUFFER_MAX_ENTRIES then Some unset_root else None
       | _ \<Rightarrow> None),
     gc_first_unused := 2, gc_last_unused := GC_ROOT_BUFFER_MAX_ENTRIES\<rparr>"

text \<open>What destroying the array does: the count of its only value, itself, goes down.\<close>

definition sample_calls :: gc_calls where
  "sample_calls = \<lparr>call_dtor_obj = (\<lambda>_ _. Inr), call_free_obj = (\<lambda>_ _. Inr), hash_destroy = GC_DELREF\<rparr>"

lemma sample_calls_orderly: "orderly sample_calls D"
proof -
  have "orderly_call D (\<lambda>_. Inr)" by (auto simp: orderly_call_def intro: torn_refl)
  moreover have "orderly_call D GC_DELREF"
  proof (unfold orderly_call_def, intro allI impI)
    fix r L and s :: gc_globals assume "gc_heap s r \<noteq> None"
    then obtain nd where nd: "gc_heap s r = Some nd" by auto
    let ?s = "s\<lparr>gc_heap := (gc_heap s)(r \<mapsto> nd\<lparr>gc_refcount := gc_refcount nd - 1\<rparr>)\<rparr>"
    have t: "touched D s ?s" by (rule touch_node [OF nd]) (simp_all add: node_frame_def)
    then have "info_of ?s = info_of s" by (simp add: touched_def same_buffer_def)
    moreover have "GC_DELREF r s = Inr ?s" by (simp add: GC_DELREF_def node_ops [OF nd])
    ultimately show "\<exists>s'. GC_DELREF r s = Inr s' \<and> torn D s s' \<and> (\<forall>x\<in>D. info_of s x \<noteq> 0 \<longrightarrow> info_of s' x = 0 \<longrightarrow> gc_heap s' x = None)"
      using torn_touch [OF torn_refl t] by auto
  qed
  ultimately show ?thesis by (simp add: orderly_def sample_calls_def)
qed

lemma gc_started_reachable: "gc_reachable gc_started"
proof (rule gc_reachable.start)
  show "gc_globals_ctor_ex gc_blank = Inr (projr (gc_globals_ctor_ex gc_blank))"
    by (simp add: gc_globals_ctor_ex_def empty_list_def set_next_def set_prev_def change_root_def root_at_def gc_blank_def)
  show "gc_init (projr (gc_globals_ctor_ex gc_blank)\<lparr>gc_enabled := True\<rparr>) = Inr gc_started"
    by (simp add: gc_started_def gc_init_def gc_reset_def Let_def gc_globals_ctor_ex_def empty_list_def set_next_def set_prev_def
        change_root_def root_at_def gc_blank_def)
  show "info_of gc_blank = (\<lambda>_. 0)" by (simp add: info_of_def gc_blank_def self_array_def fun_eq_iff)
qed

lemma sample_fields:
  "nxt (gc_sample n) ROOTS = Some (BUF 1)" "prv (gc_sample n) ROOTS = Some (BUF 1)" "nxt (gc_sample n) (BUF 1) = Some ROOTS"
  "prv (gc_sample n) (BUF 1) = Some ROOTS" "nxt (gc_sample n) TO_FREE = Some TO_FREE" "prv (gc_sample n) TO_FREE = Some TO_FREE"
  "ref_of (gc_sample n) (BUF 1) = Some 16" "i < GC_ROOT_BUFFER_MAX_ENTRIES \<Longrightarrow> nxt (gc_sample n) (BUF i) \<noteq> None"
  "gc_unused (gc_sample n) = NULL_ROOT" "additional_buffer (gc_sample n) = []" "gc_first_unused (gc_sample n) = 2"
  "gc_last_unused (gc_sample n) = GC_ROOT_BUFFER_MAX_ENTRIES" "info_of (gc_sample n) = (\<lambda>_. 0)(16 := 0xc001)"
  "dom (gc_heap (gc_sample n)) = {16}" "kids (gc_sample n) = (\<lambda>_. [])(16 := [16])" "rc (gc_sample n) = (\<lambda>_. 0)(16 := n)"
  "symbol_table (gc_sample n) = 0" "\<not> gc_active (gc_sample n)"
  by (auto simp: gc_sample_def gc_blank_def self_array_def nxt_def prv_def ref_of_def unset_root_def info_of_def kids_def rc_def
      node_refs_def gc_type_data_def is_symbol_table_def follow_def fun_eq_iff split: if_splits)

lemma sample_buffer: "buffer_ok (gc_sample n) [BUF 1]"
proof -
  note F = sample_fields [unfolded One_nat_def]
  have "storage (gc_sample n) [BUF 1]"
    using F(8) by (auto simp: storage_def limits_ok_def allocated_def unused_ok_def in_use_def F GC_ROOT_BUFFER_MAX_ENTRIES_def
        intro!: exI [of _ "[]"])
  moreover have "gc_heap (gc_sample n) 16 \<noteq> None" using F(14) by blast
  then have "addressed (gc_sample n) [BUF 1]" by (simp add: addressed_info F root_addr_def GC_ADDRESS_def GC_COLOR_def)
  moreover have "color (gc_sample n) r = (if Some r \<in> ref_of (gc_sample n) ` set [BUF 1] then GC_PURPLE else GC_BLACK)" for r
    by (auto simp: color_info F GC_INFO_GET_COLOR_def GC_COLOR_def GC_PURPLE_def GC_BLACK_def)
  ultimately show ?thesis by (simp add: buffer_ok_def ring_def F)
qed

lemma sample_settled: "n \<noteq> 0 \<Longrightarrow> gc_settled (gc_sample n) [BUF 1]"
proof (rule buffer_settled [OF sample_buffer])
  note F = sample_fields [unfolded One_nat_def]
  have "0 \<notin> dom (gc_heap (gc_sample n))" using F(14) by simp
  then have "gc_heap (gc_sample n) 0 = None" by (simp add: domIff)
  then show "wf_heap (gc_sample n)" by (simp add: wf_heap_def F)
  assume "n \<noteq> 0"
  then have "1 \<le> unat n" by (simp add: unat_gt_0 Suc_le_eq)
  then show "refs_counted (gc_sample n)" by (simp add: refs_counted_def edges_into_def F)
qed

lemma sample_garbage: "garbage (gc_sample 1) = {16}" "garbage (gc_sample 2) = {}"
proof -
  note F = sample_fields [unfolded One_nat_def]
  have e: "edge (kids (gc_sample n)) = {(16, 16)}" for n by (auto simp: edge_def F split: if_splits)
  have star: "(edge (kids (gc_sample n)))\<^sup>* = Id" for n unfolding e by (auto simp: rtrancl_insert)
  have col: "color (gc_sample n) r = GC_PURPLE \<longleftrightarrow> r = 16" for r n
    by (simp add: color_info F GC_INFO_GET_COLOR_def GC_COLOR_def GC_PURPLE_def)
  then have reached: "reached (gc_sample n) = {16}" for n by (simp add: reached_def star F(17) col Collect_conv_if)
  have o: "outside_refs (gc_sample n) 16 = unat n - 1" for n by (simp add: outside_refs_def reached edges_into_def F(15,16))
  show "garbage (gc_sample 1) = {16}" "garbage (gc_sample 2) = {}" by (simp_all add: garbage_def reached o)
qed

subsection \<open>Collections\<close>

text \<open>
  C37. From a settled state (the buffer agrees with the headers, the counts are at least the numbers
  of references), with a stack for nested calls of twice the number of structures: after
  \<open>gc_mark_roots\<close> and \<open>gc_scan_roots\<close> exactly the garbage is white, that is, what is reachable from
  the possible roots and from no reached structure with references from outside. All else is black,
  and the counts leave out exactly the references from the garbage.
\<close>

theorem garbage_is_white:
  assumes "gc_settled s xs" "2 * card (dom (gc_heap s)) < depth"
  shows "\<exists>s1 s2. gc_mark_roots depth s = Some (Inr s1) \<and> gc_scan_roots depth s1 = Some (Inr s2) \<and>
    (\<forall>x. color s2 x = (if x \<in> garbage s then GC_WHITE else GC_BLACK)) \<and>
    (\<forall>x. rc s2 x = rc s x - of_nat (edges_into (kids s) (garbage s) x)) \<and> only_headers s s2"
  using mark_and_scan [of s xs depth] assms unfolding scanned_def gc_settled_def by metis

theorem garbage_is_white_witness:
  "\<exists>s1 s2. gc_mark_roots 3 (gc_sample 1) = Some (Inr s1) \<and> gc_scan_roots 3 s1 = Some (Inr s2) \<and>
    color s2 16 = GC_WHITE \<and> rc s2 16 = 0"
proof -
  have "2 * card (dom (gc_heap (gc_sample 1))) < 3" by (simp add: sample_fields(14))
  then obtain s1 s2 where s: "gc_mark_roots 3 (gc_sample 1) = Some (Inr s1)" "gc_scan_roots 3 s1 = Some (Inr s2)"
      "color s2 16 = (if 16 \<in> garbage (gc_sample 1) then GC_WHITE else GC_BLACK)"
      "rc s2 16 = rc (gc_sample 1) 16 - of_nat (edges_into (kids (gc_sample 1)) (garbage (gc_sample 1)) 16)"
    using garbage_is_white [OF sample_settled [OF one_neq_zero]] by metis
  then show ?thesis by (simp add: sample_garbage edges_into_def sample_fields(15,16))
qed

text \<open>
  C38. The three phases together: \<open>gc_collect_roots\<close> restores every count and every colour, so the
  program sees the structures as before, empties the list of roots, and leaves in \<open>to_free\<close> the garbage:
  each array, each object with \<open>get_gc\<close> and each structure that was a possible root, once.
\<close>

theorem garbage_is_gathered:
  assumes "gc_settled s xs" "2 * card (dom (gc_heap s)) < depth"
  shows "\<exists>s1 s2 num flags' s'. gc_mark_roots depth s = Some (Inr s1) \<and> gc_scan_roots depth s1 = Some (Inr s2) \<and>
    gc_collect_roots depth flags s2 = Some (Inr (num, flags', s')) \<and>
    same_values s s' \<and> rc s' = rc s \<and> (\<forall>x. color s' x = GC_BLACK) \<and> roots_of s' ROOTS [] \<and>
    (\<exists>L. roots_of s' TO_FREE L \<and> inj_on (ref_of s') (set L) \<and>
      ref_of s' ` set L = Some ` {x \<in> garbage s. buffered s x \<or> Some x \<in> ref_of s ` set xs})"
proof -
  obtain s1 s2 where s: "gc_mark_roots depth s = Some (Inr s1)" "gc_scan_roots depth s1 = Some (Inr s2)" "scanned s s2"
    using mark_and_scan [of s xs depth] assms unfolding gc_settled_def by blast
  have "card (dom (gc_heap s)) < depth" using assms(2) by linarith
  then obtain num flags' s' where g: "gc_collect_roots depth flags s2 = Some (Inr (num, flags', s'))" "gathered s xs s'"
    using collect_scanned [OF assms(1) s(3)] by blast
  obtain L where L: "roots_of s' TO_FREE L" "addressed s' L" "ref_of s' ` set L = Some ` to_destroy s xs"
    using g(2) unfolding gathered_def by blast
  have "inj_on (ref_of s') (set L)" using L(2) by (simp add: addressed_def)
  moreover have "same_values s s'" "rc s' = rc s" "\<forall>x. color s' x = GC_BLACK" "roots_of s' ROOTS []"
    using g(2) by (simp_all add: gathered_def)
  ultimately show ?thesis using s(1,2) g(1) L(1,3) unfolding to_destroy_def by (intro exI conjI)
qed

theorem garbage_is_gathered_witness:
  "\<exists>s1 s2 num flags' s' L. gc_mark_roots 3 (gc_sample 1) = Some (Inr s1) \<and> gc_scan_roots 3 s1 = Some (Inr s2) \<and>
    gc_collect_roots 3 0 s2 = Some (Inr (num, flags', s')) \<and> rc s' 16 = 1 \<and> roots_of s' TO_FREE L \<and>
    ref_of s' ` set L = {Some 16}"
proof -
  have c: "2 * card (dom (gc_heap (gc_sample 1))) < 3" by (simp add: sample_fields(14))
  obtain s1 s2 num flags' s' L where s: "gc_mark_roots 3 (gc_sample 1) = Some (Inr s1)" "gc_scan_roots 3 s1 = Some (Inr s2)"
      "gc_collect_roots 3 0 s2 = Some (Inr (num, flags', s'))" "rc s' = rc (gc_sample 1)" "roots_of s' TO_FREE L"
      "ref_of s' ` set L = Some ` {x \<in> garbage (gc_sample 1). buffered (gc_sample 1) x \<or> Some x \<in> ref_of (gc_sample 1) ` set [BUF 1]}"
    using garbage_is_gathered [OF sample_settled [OF one_neq_zero] c, of 0] by (elim exE conjE) (rule that)
  have "ref_of (gc_sample 1) ` set [BUF 1] = {Some 16}" by (simp add: sample_fields(7) del: One_nat_def)
  then have "ref_of s' ` set L = {Some 16}" unfolding s(6) sample_garbage by auto
  moreover have "rc s' 16 = 1" unfolding s(4) sample_fields(16) by simp
  ultimately show ?thesis using s(1-3,5) by (intro exI conjI)
qed





end
