(* ===== verification/Spec2Isabelle.thy ===== *)
theory Spec2Isabelle
  imports Zend_Copy_Props Zend_Objects_Props Zend_GC_Props
begin

text \<open>
  Verification of the core data structures of the Zend engine (PHP 7).

  The library follows the sources under \<open>src/\<close>. A C structure is a record, a 32 or 64 bit integer
  that can wrap is a word, indices into a block that the code keeps in range are naturals. A
  routine is a function from the state it reads to its result and the changed state; a fatal error
  or an access outside a block is the left value of the result type \<open>res\<close>.

  \<^bold>\<open>Parts.\<close>
  \<^item> \<open>Prelude\<close>: lemmas on lists, association lists, words and results.
  \<^item> \<open>Zend_Types\<close>: \<open>zval\<close>, \<open>zend_string\<close>, \<open>Bucket\<close>, \<open>HashTable\<close> (\<open>Zend/zend_types.h\<close>), the string
    hash (\<open>Zend/zend_string.h\<close>), and the \<open>world\<close> beside a table: the slots that \<open>IS_INDIRECT\<close> values
    refer to, the registered iterators, and the log of destructor and reference-count events.
  \<^item> \<open>Zend_Hash\<close>: allocation, sizes, chains, rehash, growth and change of layout
    (\<open>Zend/zend_hash.c\<close>); \<open>Zend_Hash_Inv\<close>: the invariant \<open>ht_inv\<close> and its preservation.
  \<^item> \<open>Zend_Hash_Update\<close>, \<open>Zend_Hash_Insert\<close>: the insertion functions and lookups, and their
    contract over the list of entries \<open>ht_entries\<close>; \<open>Zend_Hash_Map\<close> states it as the locale
    \<open>ordered_map\<close>, interpreted for string and numeric keys.
  \<^item> \<open>Zend_Hash_Init\<close>: size rounding, initialisation and extension.
  \<^item> \<open>Zend_Hash_Delete\<close>, \<open>Zend_Hash_Destroy\<close>, \<open>Zend_Hash_Apply\<close>: deletion, destruction, walks with
    callbacks. \<open>Zend_Hash_Iter\<close>: the internal pointer and the registered iterators.
  \<^item> \<open>Zend_Symtable\<close>: symbol tables, where numeric strings are integer keys
    (\<open>_zend_handle_numeric_str\<close>, \<open>zend_long_to_str\<close>, \<open>zend_symtable_*\<close>); \<open>Zend_Hash_Ptr\<close>: tables of
    pointers and unchecked appends (\<open>Zend/zend_hash.h\<close>).
  \<^item> \<open>Zend_Sort\<close>: the hybrid sort of \<open>Zend/zend_sort.c\<close> over an array of elements with a swap and a
    comparison function, under the locale \<open>sorting\<close>: a swap exchanges one part of its elements and
    leaves the rest. \<open>Zend_Sort_Swap\<close>: sorting with two swaps that agree on the elements at hand
    (locale \<open>same_swap\<close>). \<open>Zend_Hash_Sort\<close> interprets both for the three swaps of buckets, and has
    the table sort, the comparison of tables and the minimum.
  \<^item> \<open>Zend_Hash_Copy\<close>: counting, copying, duplicating and merging tables and the conversions between
    symbol and property tables; \<open>Zend_Array_Dup\<close>, \<open>Zend_Hash_Convert\<close>: what the latter two produce.
  \<^item> \<open>Zend_Objects\<close>: the store of objects and its free list (\<open>Zend/zend_objects_API.c\<close>), with the
    functions of an object's handler table as a parameter. \<open>Zend_Objects_Steps\<close>: what the operations
    and the handlers may do to the store as the step relation \<open>store_step\<close>, and the invariant
    \<open>store_inv\<close> of all reachable stores. \<open>Zend_Objects_Calls\<close>: the operations that call handlers make
    only such steps. \<open>Zend_Objects_Props\<close>: their properties.
  \<^item> \<open>Zend_GC\<close>, \<open>Zend_GC_Walk\<close>, \<open>Zend_GC_Destroy\<close>: the collector of cycles (\<open>Zend/zend_gc.c\<close>): the word
    \<open>GC_INFO\<close> with colour and entry number, the buffer of possible roots, the recursive walks, the loops over
    the roots and \<open>zend_gc_collect_cycles\<close>. A hash table is here the list of the values in its used
    buckets; what \<open>get_gc\<close> returns is part of an object, and its other handlers and \<open>zend_hash_destroy\<close> are
    parameters.
    \<open>Zend_GC_Graph\<close>: a depth first walk that changes a count per edge, as the locale \<open>graph_walk\<close>,
    interpreted for marking, for restoring (\<open>Zend_GC_Mark\<close>) and for collecting (\<open>Zend_GC_Collect\<close>);
    \<open>Zend_GC_Scan\<close>: scanning. \<open>Chains\<close>: circular doubly linked lists and loops along them.
    \<open>Zend_GC_Roots\<close>, \<open>Zend_GC_Buffer\<close>: the doubly linked lists and the storage
    of entries. \<open>Zend_GC_Phases\<close>: what garbage is, and that marking and scanning find it;
    \<open>Zend_GC_White\<close>, \<open>Zend_GC_Collect\<close>, \<open>Zend_GC_Cycle\<close>, \<open>Zend_GC_Run\<close>: that collecting restores all counts and
    gathers it. \<open>Zend_GC_Teardown\<close>: what handlers may do while the garbage is destroyed, as the relation \<open>torn\<close>,
    and that the loop over the local list stays on its list; \<open>Zend_GC_Free\<close>: the release of the memory, and the
    whole of \<open>zend_gc_collect_cycles\<close>. \<open>Zend_GC_Steps\<close>: the states between collections as the relation \<open>gc_reachable\<close>.
    \<open>Zend_GC_Props\<close>: their properties.
  \<^item> \<open>Zend_Hash_Props\<close>, \<open>Zend_Symtable_Props\<close>, \<open>Zend_Array_Props\<close>, \<open>Zend_Copy_Props\<close>: the properties as
    the users of the tables see them, with sample tables.

  \<^bold>\<open>Bounds.\<close> Walks along a chain take fuel equal to the table size; the invariant says that a chain
  is strictly descending, so the fuel is enough, and the lemmas on lookups and deletions conclude
  a right result. \<open>zend_sort\<close> recurses on both sides of the pivot; the partition leaves each of them
  shorter, whatever the comparison answers. The search for the first used bucket has no bound in
  the code; the model gives an error past the block, and the invariant rules it out. The
  loop that calls the destructors of all objects need not end, as a destructor can create an object;
  it is a partial function, which ends if the handlers keep the store below some size. The walks of the collector
  take the number of nested calls the stack has room for; twice the number of structures is enough. Its
  loops over the roots are partial functions; that they end is part of the properties. All other
  loops are structural or end by a measure.

  \<^bold>\<open>Not modelled.\<close> The compiler and virtual machine, the memory manager,
  streams and extensions around third-party libraries. Destructors are events in a log: a
  destructor that changes the table it is called from is outside the model. Copy constructors and
  the values behind references are parameters; the two tables of a copy, merge or comparison are
  different ones. The loops of a collection that call the destructors of garbage objects are modelled
  (\<open>run_destructors\<close>), with no theorem: what they do depends on the program; the theorem on whole collections is
  about garbage without destructors. Of \<open>memcmp\<close> only the sign of the result is used. \<open>zend_hash_iterator_pos_ex\<close>,
  \<open>zend_qsort\<close> and the \<open>*_mem\<close> helpers are left out.
\<close>

end
